(* ===== verification/Skynet_Prelude.thy ===== *)
theory Skynet_Prelude
  imports Main "HOL-Library.Word" "HOL-Library.Monad_Syntax"
begin

text \<open>
  Shared vocabulary of the development.

  The C sources are modelled in the option monad: \<open>None\<close> is a run that does not
  return normally (a failed \<open>assert\<close>, a dereference of a null or freed pointer, an array index
  out of range, a signed overflow, a loop that never ends).  A C error code is an ordinary value.

  \<^item> C \<open>int\<close> is HOL \<open>int\<close>; every arithmetic result that could leave 32 bits goes
    through \<open>cint\<close>, which faults outside the range;
  \<^item> \<open>uintN_t\<close> is \<open>N word\<close>, where arithmetic wraps;
  \<^item> an array is a list, read by \<open>aget\<close> and written by \<open>aset\<close>, both checked;
  \<^item> a C string is a list of non-zero bytes, compared by \<open>strcmp\<close>.
\<close>

unbundle bit_operations_syntax

type_synonym u8 = "8 word"
type_synonym u16 = "16 word"
type_synonym u32 = "32 word"
type_synonym u64 = "64 word"
type_synonym byte = "8 word"
type_synonym addr = nat

named_theorems c_simps \<open>equations of the C vocabulary: checked integers, arrays, asserts\<close>

section \<open>Checked C operations\<close>

definition require :: "bool \<Rightarrow> unit option" where
  "require b = (if b then Some () else None)"

definition cint_ok :: "int \<Rightarrow> bool" where
  "cint_ok x \<longleftrightarrow> - (2 ^ 31) \<le> x \<and> x < 2 ^ 31"

definition cint :: "int \<Rightarrow> int option" where
  "cint x = (if cint_ok x then Some x else None)"

definition aget :: "'a list \<Rightarrow> int \<Rightarrow> 'a option" where
  "aget xs i = (if 0 \<le> i \<and> i < int (length xs) then Some (xs ! nat i) else None)"

definition aset :: "'a list \<Rightarrow> int \<Rightarrow> 'a \<Rightarrow> 'a list option" where
  "aset xs i v = (if 0 \<le> i \<and> i < int (length xs) then Some (xs[nat i := v]) else None)"

lemma require_simps [simp, c_simps]:
  "require True = Some ()" "require False = None"
  by (simp_all add: require_def)

lemma require_Some [simp, c_simps]: "require b = Some u \<longleftrightarrow> b"
  by (simp add: require_def)

lemma cint_Some [c_simps]: "cint x = Some y \<longleftrightarrow> cint_ok x \<and> y = x"
  by (auto simp: cint_def)

lemma cint_in_range [simp]: "cint_ok x \<Longrightarrow> cint x = Some x"
  by (simp add: cint_def)

lemma cint_okI [intro]: "- (2 ^ 31) \<le> x \<Longrightarrow> x < 2 ^ 31 \<Longrightarrow> cint_ok x"
  by (simp add: cint_ok_def)

lemma aget_Some [c_simps]:
  "aget xs i = Some v \<longleftrightarrow> 0 \<le> i \<and> i < int (length xs) \<and> v = xs ! nat i"
  by (auto simp: aget_def)

lemma aget_in_range [simp]: "0 \<le> i \<Longrightarrow> i < int (length xs) \<Longrightarrow> aget xs i = Some (xs ! nat i)"
  by (simp add: aget_def)

lemma aget_nat [simp]: "i < length xs \<Longrightarrow> aget xs (int i) = Some (xs ! i)"
  by (simp add: aget_def)

lemma aset_Some [c_simps]:
  "aset xs i v = Some ys \<longleftrightarrow> 0 \<le> i \<and> i < int (length xs) \<and> ys = xs[nat i := v]"
  by (auto simp: aset_def)

lemma aset_in_range [simp]:
  "0 \<le> i \<Longrightarrow> i < int (length xs) \<Longrightarrow> aset xs i v = Some (xs[nat i := v])"
  by (simp add: aset_def)

lemma those_map_Some: "(\<And>x. x \<in> set xs \<Longrightarrow> f x = Some (g x)) \<Longrightarrow> those (map f xs) = Some (map g xs)"
  by (induction xs) auto

lemma uint_take_bit_mod: "uint (take_bit k w) = uint w mod 2 ^ k"
  by (simp add: unsigned_take_bit_eq flip: take_bit_eq_mod)

lemma mod_mod_pow2: "k \<le> n \<Longrightarrow> (x mod 2 ^ n) mod 2 ^ k = x mod (2 ^ k :: int)"
  by (simp add: mod_mod_cancel le_imp_power_dvd)

text \<open>A checked block copy, \<open>for (k = 0; k < n; k++) dst[d+k] = src[s+k]\<close>.\<close>

fun copy_range :: "'a list \<Rightarrow> int \<Rightarrow> 'a list \<Rightarrow> int \<Rightarrow> nat \<Rightarrow> 'a list option" where
  "copy_range dst d src s 0 = Some dst"
| "copy_range dst d src s (Suc n) = do {
     v \<leftarrow> aget src s;
     dst' \<leftarrow> aset dst d v;
     copy_range dst' (d + 1) src (s + 1) n }"

lemma copy_range_eq:
  "d + n \<le> length dst \<Longrightarrow> s + n \<le> length src \<Longrightarrow>
   copy_range dst (int d) src (int s) n = Some (take d dst @ take n (drop s src) @ drop (d + n) dst)"
proof (induction n arbitrary: dst d s)
  case (Suc n)
  let ?dst = "dst[d := src ! s]"
  have "copy_range ?dst (int (Suc d)) src (int (Suc s)) n =
      Some (take (Suc d) ?dst @ take n (drop (Suc s) src) @ drop (Suc d + n) ?dst)"
    using Suc.prems by (intro Suc.IH) auto
  moreover have "take (Suc d) ?dst = take d dst @ [src ! s]"
    using Suc.prems by (simp add: take_Suc_conv_app_nth)
  moreover have "take (Suc n) (drop s src) = src ! s # take n (drop (Suc s) src)"
    using Suc.prems by (simp add: Cons_nth_drop_Suc [symmetric])
  ultimately show ?case using Suc.prems by (simp add: ac_simps)
qed simp

section \<open>C strings\<close>

text \<open>
  \<open>strcmp\<close> compares bytes as unsigned characters; the terminating zero is smaller than every
  byte of a C string, so a proper prefix is smaller.  Its result is modelled by its sign, the only
  thing the C standard promises and the only thing the callers test.
\<close>

type_synonym cstring = "byte list"

fun strcmp :: "cstring \<Rightarrow> cstring \<Rightarrow> int" where
  "strcmp [] [] = 0"
| "strcmp [] (_ # _) = - 1"
| "strcmp (_ # _) [] = 1"
| "strcmp (a # as) (b # bs) = (if a < b then - 1 else if b < a then 1 else strcmp as bs)"

lemma strcmp_refl [simp]: "strcmp s s = 0"
  by (induction s) auto

lemma strcmp_eq_0 [simp]: "strcmp s t = 0 \<longleftrightarrow> s = t"
  by (induction s t rule: strcmp.induct) auto

lemma strcmp_antisym: "strcmp t s = - strcmp s t"
  by (induction s t rule: strcmp.induct) auto

lemma strcmp_trans: "strcmp s t < 0 \<Longrightarrow> strcmp t u < 0 \<Longrightarrow> strcmp s u < 0"
proof (induction s t arbitrary: u rule: strcmp.induct)
  case (4 a as b bs)
  then show ?case by (cases u) (auto split: if_splits)
next
  case (2 b bs)
  then show ?case by (cases u) auto
qed auto


section \<open>FIFO queues\<close>

text \<open>
  The contract of a queue: an invariant, its contents as a list, \<open>room n\<close> (there is room for
  \<open>n\<close> more elements), and a push and a pop that may fault.  A client that pushes and pops in
  any order sees exactly what a list gives it.
\<close>

datatype 'm fifo_op = Push 'm | Pop

primrec pushes :: "'m fifo_op list \<Rightarrow> nat" where
  "pushes [] = 0"
| "pushes (x # xs) = (case x of Push _ \<Rightarrow> Suc (pushes xs) | Pop \<Rightarrow> pushes xs)"

text \<open>A run of the list specification: the popped values and the final contents.\<close>

fun list_run :: "'m fifo_op list \<Rightarrow> 'm list \<Rightarrow> 'm option list \<times> 'm list" where
  "list_run [] xs = ([], xs)"
| "list_run (Push m # ops) xs = list_run ops (xs @ [m])"
| "list_run (Pop # ops) [] = (let (outs, ys) = list_run ops [] in (None # outs, ys))"
| "list_run (Pop # ops) (x # xs) = (let (outs, ys) = list_run ops xs in (Some x # outs, ys))"

text \<open>The same run of an implementation.\<close>

fun fifo_run :: "('m \<Rightarrow> 'q \<Rightarrow> 'q option) \<Rightarrow> ('q \<Rightarrow> ('m option \<times> 'q) option) \<Rightarrow> 'm fifo_op list \<Rightarrow>
    'q \<Rightarrow> ('m option list \<times> 'q) option" where
  "fifo_run push pop [] q = Some ([], q)"
| "fifo_run push pop (Push m # ops) q = do { q' \<leftarrow> push m q; fifo_run push pop ops q' }"
| "fifo_run push pop (Pop # ops) q = do {
     (out, q') \<leftarrow> pop q;
     (outs, q'') \<leftarrow> fifo_run push pop ops q';
     Some (out # outs, q'') }"

locale fifo =
  fixes inv :: "'q \<Rightarrow> bool"
    and contents :: "'q \<Rightarrow> 'm list"
    and room :: "nat \<Rightarrow> 'q \<Rightarrow> bool"
    and push :: "'m \<Rightarrow> 'q \<Rightarrow> 'q option"
    and pop :: "'q \<Rightarrow> ('m option \<times> 'q) option"
  assumes push_law: "inv q \<Longrightarrow> room (Suc n) q \<Longrightarrow>
      \<exists>q'. push m q = Some q' \<and> inv q' \<and> room n q' \<and> contents q' = contents q @ [m]"
    and pop_Cons: "inv q \<Longrightarrow> room n q \<Longrightarrow> contents q = m # ms \<Longrightarrow>
      \<exists>q'. pop q = Some (Some m, q') \<and> inv q' \<and> room n q' \<and> contents q' = ms"
    and pop_Nil: "inv q \<Longrightarrow> room n q \<Longrightarrow> contents q = [] \<Longrightarrow>
      \<exists>q'. pop q = Some (None, q') \<and> inv q' \<and> room n q' \<and> contents q' = []"
begin

lemma run_simulates_list:
  "inv q \<Longrightarrow> room (pushes ops) q \<Longrightarrow>
   \<exists>q'. fifo_run push pop ops q = Some (fst (list_run ops (contents q)), q') \<and> inv q' \<and>
        contents q' = snd (list_run ops (contents q))"
proof (induction ops arbitrary: q)
  case (Cons op ops)
  show ?case
  proof (cases op)
    case (Push m)
    with Cons.prems obtain q1 where q1: "push m q = Some q1" "inv q1" "room (pushes ops) q1"
      "contents q1 = contents q @ [m]"
      using push_law by force
    from Cons.IH [OF q1(2,3)] q1 Push show ?thesis by auto
  next
    case Pop
    show ?thesis
    proof (cases "contents q")
      case Nil
      with Cons.prems Pop obtain q1 where q1: "pop q = Some (None, q1)" "inv q1"
        "room (pushes ops) q1" "contents q1 = []"
        using pop_Nil by force
      from Cons.IH [OF q1(2,3)] q1 Pop Nil show ?thesis by (auto split: prod.splits)
    next
      case (Cons m ms)
      with Cons.prems Pop obtain q1 where q1: "pop q = Some (Some m, q1)" "inv q1"
        "room (pushes ops) q1" "contents q1 = ms"
        using pop_Cons by force
      from Cons.IH [OF q1(2,3)] q1 Pop Cons show ?thesis by (auto split: prod.splits)
    qed
  qed
qed simp

end

end
