(* ===== verification/Skynet_Mq.thy ===== *)
theory Skynet_Mq
  imports Skynet_Prelude
begin

text \<open>
  The message queues of \<open>skynet-src/skynet_mq.c\<close>: one ring buffer per service
  (\<open>struct message_queue\<close>) and the global queue \<open>Q\<close>, a linked list of the ring buffers that
  have work.  A \<open>struct message_queue *\<close> is an address into \<open>mqs\<close>, the heap of live queues;
  \<open>skynet_free\<close> removes the entry, so a use after free faults.  Addresses are not reused.
  Every operation runs under the spin lock of the structure it changes and is one atomic function.
  Operations act on any extension of \<open>mq_state\<close>, so the service layer calls them on its own
  state.
\<close>

section \<open>Data\<close>

record skynet_message =
  msg_source :: u32
  msg_session :: int
  msg_data :: "addr option"
  msg_sz :: u64

definition DEFAULT_QUEUE_SIZE :: int where "DEFAULT_QUEUE_SIZE = 64"
definition MQ_IN_GLOBAL :: int where "MQ_IN_GLOBAL = 1"
definition MQ_OVERLOAD :: int where "MQ_OVERLOAD = 1024"

text \<open>A slot of the malloc'ed array is \<open>None\<close> until it is written.\<close>

record message_queue =
  mq_handle :: u32
  mq_cap :: int
  mq_head :: int
  mq_tail :: int
  mq_release :: int
  mq_in_global :: int
  mq_overload :: int
  mq_overload_threshold :: int
  mq_queue :: "skynet_message option list"
  mq_next :: "addr option"

record global_queue =
  gq_head :: "addr option"
  gq_tail :: "addr option"

record mq_state =
  mqs :: "addr \<Rightarrow> message_queue option"
  mq_brk :: addr
  gQ :: "global_queue option"

definition mq_put :: "addr \<Rightarrow> message_queue \<Rightarrow> 'a mq_state_scheme \<Rightarrow> 'a mq_state_scheme" where
  "mq_put q mq st = st\<lparr>mqs := (mqs st)(q := Some mq)\<rparr>"

section \<open>The global queue\<close>

definition skynet_globalmq_push :: "addr \<Rightarrow> 'a mq_state_scheme \<Rightarrow> 'a mq_state_scheme option" where
  "skynet_globalmq_push queue st = do {
     q \<leftarrow> gQ st;
     mq \<leftarrow> mqs st queue;
     require (mq_next mq = None);
     (case gq_tail q of
        Some t \<Rightarrow> do {
          tq \<leftarrow> mqs st t;
          Some ((mq_put t (tq\<lparr>mq_next := Some queue\<rparr>) st)\<lparr>gQ := Some (q\<lparr>gq_tail := Some queue\<rparr>)\<rparr>) }
      | None \<Rightarrow> Some (st\<lparr>gQ := Some (q\<lparr>gq_head := Some queue, gq_tail := Some queue\<rparr>)\<rparr>)) }"

definition skynet_globalmq_pop ::
  "'a mq_state_scheme \<Rightarrow> (addr option \<times> 'a mq_state_scheme) option" where
  "skynet_globalmq_pop st = do {
     q \<leftarrow> gQ st;
     (case gq_head q of
        None \<Rightarrow> Some (None, st)
      | Some a \<Rightarrow> do {
          mq \<leftarrow> mqs st a;
          let q1 = q\<lparr>gq_head := mq_next mq\<rparr>;
          q2 \<leftarrow> (if mq_next mq = None
                then do { require (gq_tail q1 = Some a); Some (q1\<lparr>gq_tail := None\<rparr>) }
                else Some q1);
          Some (Some a, (mq_put a (mq\<lparr>mq_next := None\<rparr>) st)\<lparr>gQ := Some q2\<rparr>) }) }"

section \<open>One ring buffer\<close>

definition new_mq :: "u32 \<Rightarrow> message_queue" where
  "new_mq handle = \<lparr>mq_handle = handle, mq_cap = DEFAULT_QUEUE_SIZE, mq_head = 0, mq_tail = 0,
     mq_release = 0, mq_in_global = MQ_IN_GLOBAL, mq_overload = 0,
     mq_overload_threshold = MQ_OVERLOAD,
     mq_queue = replicate (nat DEFAULT_QUEUE_SIZE) None, mq_next = None\<rparr>"

definition skynet_mq_create :: "u32 \<Rightarrow> 'a mq_state_scheme \<Rightarrow> addr \<times> 'a mq_state_scheme" where
  "skynet_mq_create handle st =
     (mq_brk st, (mq_put (mq_brk st) (new_mq handle) st)\<lparr>mq_brk := Suc (mq_brk st)\<rparr>)"

definition release_mq :: "addr \<Rightarrow> 'a mq_state_scheme \<Rightarrow> 'a mq_state_scheme option" where
  "release_mq q st = do {
     mq \<leftarrow> mqs st q;
     require (mq_next mq = None);
     Some (st\<lparr>mqs := (mqs st)(q := None)\<rparr>) }"

definition skynet_mq_handle :: "addr \<Rightarrow> 'a mq_state_scheme \<Rightarrow> u32 option" where
  "skynet_mq_handle q st = map_option mq_handle (mqs st q)"

definition skynet_mq_length :: "message_queue \<Rightarrow> int option" where
  "skynet_mq_length mq =
     (if mq_head mq \<le> mq_tail mq then cint (mq_tail mq - mq_head mq)
      else cint (mq_tail mq + mq_cap mq - mq_head mq))"

definition skynet_mq_overload :: "message_queue \<Rightarrow> int \<times> message_queue" where
  "skynet_mq_overload mq =
     (if mq_overload mq \<noteq> 0 then (mq_overload mq, mq\<lparr>mq_overload := 0\<rparr>) else (0, mq))"

text \<open>The loop that doubles the threshold while the length is above it.\<close>

partial_function (option) overload_loop :: "int \<Rightarrow> int \<Rightarrow> int \<Rightarrow> (int \<times> int) option" where
  "overload_loop len overload threshold =
     (if len > threshold
      then do { threshold' \<leftarrow> cint (threshold * 2); overload_loop len len threshold' }
      else Some (overload, threshold))"

text \<open>The result is the return code (0 for a message, 1 for an empty queue), the message copied
  out, and the queue afterwards.\<close>

definition mq_pop :: "message_queue \<Rightarrow> (int \<times> skynet_message option \<times> message_queue) option" where
  "mq_pop q =
     (if mq_head q \<noteq> mq_tail q then do {
        slot \<leftarrow> aget (mq_queue q) (mq_head q);
        message \<leftarrow> slot;
        head1 \<leftarrow> cint (mq_head q + 1);
        let head = (if head1 \<ge> mq_cap q then 0 else head1);
        len0 \<leftarrow> cint (mq_tail q - head);
        len \<leftarrow> (if len0 < 0 then cint (len0 + mq_cap q) else Some len0);
        (overload, threshold) \<leftarrow> overload_loop len (mq_overload q) (mq_overload_threshold q);
        Some (0, Some message,
          q\<lparr>mq_head := head, mq_overload := overload, mq_overload_threshold := threshold\<rparr>) }
      else Some (1, None, q\<lparr>mq_overload_threshold := MQ_OVERLOAD, mq_in_global := 0\<rparr>))"

definition skynet_mq_pop ::
  "addr \<Rightarrow> 'a mq_state_scheme \<Rightarrow> (int \<times> skynet_message option \<times> 'a mq_state_scheme) option" where
  "skynet_mq_pop q st = do {
     mq \<leftarrow> mqs st q;
     (ret, message, mq') \<leftarrow> mq_pop mq;
     Some (ret, message, mq_put q mq' st) }"

definition expand_queue :: "message_queue \<Rightarrow> message_queue option" where
  "expand_queue q = do {
     cap2 \<leftarrow> cint (mq_cap q * 2);
     new_queue \<leftarrow> those (map (\<lambda>i. aget (mq_queue q) ((mq_head q + int i) mod mq_cap q))
                          [0..<nat (mq_cap q)]);
     Some (q\<lparr>mq_head := 0, mq_tail := mq_cap q, mq_cap := cap2,
             mq_queue := new_queue @ replicate (nat (mq_cap q)) None\<rparr>) }"

text \<open>The part of \<open>skynet_mq_push\<close> that works on the ring: store, advance, grow when full.\<close>

definition mq_store :: "skynet_message \<Rightarrow> message_queue \<Rightarrow> message_queue option" where
  "mq_store message q = do {
     queue \<leftarrow> aset (mq_queue q) (mq_tail q) (Some message);
     tail1 \<leftarrow> cint (mq_tail q + 1);
     let tail = (if tail1 \<ge> mq_cap q then 0 else tail1);
     let q1 = q\<lparr>mq_queue := queue, mq_tail := tail\<rparr>;
     (if mq_head q1 = mq_tail q1 then expand_queue q1 else Some q1) }"

definition skynet_mq_push ::
  "addr \<Rightarrow> skynet_message \<Rightarrow> 'a mq_state_scheme \<Rightarrow> 'a mq_state_scheme option" where
  "skynet_mq_push q message st = do {
     mq \<leftarrow> mqs st q;
     mq' \<leftarrow> mq_store message mq;
     (if mq_in_global mq' = 0
      then skynet_globalmq_push q (mq_put q (mq'\<lparr>mq_in_global := MQ_IN_GLOBAL\<rparr>) st)
      else Some (mq_put q mq' st)) }"

definition skynet_mq_init :: "'a mq_state_scheme \<Rightarrow> 'a mq_state_scheme" where
  "skynet_mq_init st = st\<lparr>gQ := Some \<lparr>gq_head = None, gq_tail = None\<rparr>\<rparr>"

definition skynet_mq_mark_release :: "addr \<Rightarrow> 'a mq_state_scheme \<Rightarrow> 'a mq_state_scheme option" where
  "skynet_mq_mark_release q st = do {
     mq \<leftarrow> mqs st q;
     require (mq_release mq = 0);
     let st1 = mq_put q (mq\<lparr>mq_release := 1\<rparr>) st;
     (if mq_in_global mq \<noteq> MQ_IN_GLOBAL then skynet_globalmq_push q st1 else Some st1) }"

text \<open>\<open>drop_func\<close> is the callback \<open>message_drop\<close> with its user data already applied.\<close>

partial_function (option) drop_loop ::
  "(skynet_message \<Rightarrow> 'a mq_state_scheme \<Rightarrow> 'a mq_state_scheme option) \<Rightarrow> addr \<Rightarrow>
   'a mq_state_scheme \<Rightarrow> 'a mq_state_scheme option" where
  "drop_loop drop_func q st = do {
     (ret, message, st1) \<leftarrow> skynet_mq_pop q st;
     (case message of
        None \<Rightarrow> Some st1
      | Some msg \<Rightarrow> do { st2 \<leftarrow> drop_func msg st1; drop_loop drop_func q st2 }) }"

definition drop_queue ::
  "(skynet_message \<Rightarrow> 'a mq_state_scheme \<Rightarrow> 'a mq_state_scheme option) \<Rightarrow> addr \<Rightarrow>
   'a mq_state_scheme \<Rightarrow> 'a mq_state_scheme option" where
  "drop_queue drop_func q st = do { st1 \<leftarrow> drop_loop drop_func q st; release_mq q st1 }"

definition skynet_mq_release ::
  "(skynet_message \<Rightarrow> 'a mq_state_scheme \<Rightarrow> 'a mq_state_scheme option) \<Rightarrow> addr \<Rightarrow>
   'a mq_state_scheme \<Rightarrow> 'a mq_state_scheme option" where
  "skynet_mq_release drop_func q st = do {
     mq \<leftarrow> mqs st q;
     (if mq_release mq \<noteq> 0 then drop_queue drop_func q st else skynet_globalmq_push q st) }"

section \<open>Well-formed rings and their contents\<close>


definition mq_len :: "message_queue \<Rightarrow> int" where
  "mq_len q = (mq_tail q - mq_head q) mod mq_cap q"

definition mq_list :: "message_queue \<Rightarrow> skynet_message list" where
  "mq_list q = map (\<lambda>i. the (mq_queue q ! nat ((mq_head q + int i) mod mq_cap q))) [0..<nat (mq_len q)]"

definition mq_wf :: "message_queue \<Rightarrow> bool" where
  "mq_wf q \<longleftrightarrow> 0 < mq_cap q \<and> mq_cap q \<le> 2 ^ 30 \<and> int (length (mq_queue q)) = mq_cap q \<and>
     0 \<le> mq_head q \<and> mq_head q < mq_cap q \<and> 0 \<le> mq_tail q \<and> mq_tail q < mq_cap q \<and>
     0 < mq_overload_threshold q \<and> mq_overload_threshold q < 2 ^ 31 \<and>
     (\<forall>i < nat (mq_len q). mq_queue q ! nat ((mq_head q + int i) mod mq_cap q) \<noteq> None)"

lemma length_mq_list [simp]: "length (mq_list q) = nat (mq_len q)"
  by (simp add: mq_list_def)

lemma mq_len_bounds: "0 < mq_cap q \<Longrightarrow> 0 \<le> mq_len q \<and> mq_len q < mq_cap q"
  by (simp add: mq_len_def)

lemma mq_list_nth:
  "i < nat (mq_len q) \<Longrightarrow> mq_list q ! i = the (mq_queue q ! nat ((mq_head q + int i) mod mq_cap q))"
  by (simp add: mq_list_def)

text \<open>A ring whose live slots hold \<open>ys\<close> has \<open>ys\<close> as its contents.\<close>

lemma ring_listI:
  assumes "nat (mq_len q) = length ys"
    and "\<And>i. i < length ys \<Longrightarrow>
      mq_queue q ! nat ((mq_head q + int i) mod mq_cap q) = Some (ys ! i)"
  shows "mq_list q = ys"
  using assms by (intro nth_equalityI) (auto simp: mq_list_nth)

lemma mq_len_cases:
  assumes "mq_wf q"
  shows "mq_len q = (if mq_head q \<le> mq_tail q then mq_tail q - mq_head q
                     else mq_tail q + mq_cap q - mq_head q)"
proof (cases "mq_head q \<le> mq_tail q")
  case True
  with assms show ?thesis by (simp add: mq_len_def mq_wf_def)
next
  case False
  have "(mq_tail q - mq_head q) mod mq_cap q = (mq_tail q - mq_head q + mq_cap q) mod mq_cap q"
    by simp
  also have "\<dots> = mq_tail q - mq_head q + mq_cap q"
    using assms False by (intro mod_pos_pos_trivial) (auto simp: mq_wf_def)
  finally show ?thesis using False by (simp add: mq_len_def)
qed

lemma mq_len_0: "mq_wf q \<Longrightarrow> mq_len q = 0 \<longleftrightarrow> mq_head q = mq_tail q"
  by (simp add: mq_len_cases) (auto simp: mq_wf_def)

lemma mq_list_empty: "mq_wf q \<Longrightarrow> mq_list q = [] \<longleftrightarrow> mq_head q = mq_tail q"
  using mq_len_0 [of q] mq_len_bounds [of q]
  by (auto simp: mq_wf_def simp flip: length_0_conv)

lemma mod_succ: "0 \<le> x \<Longrightarrow> x < n \<Longrightarrow> (x + 1) mod n = (if x + 1 \<ge> n then 0 else x + 1)" for x n :: int
proof (cases "x + 1 = n")
  case False
  assume "0 \<le> x" "x < n"
  with False show ?thesis by simp
qed auto

lemma overload_loop_returns:
  assumes "0 < thr" "thr < 2 ^ 31" "len \<le> 2 ^ 30"
  shows "\<exists>thr'. overload_loop len ov thr = Some (if len > thr then len else ov, thr') \<and>
           len \<le> thr' \<and> thr \<le> thr' \<and> thr' < 2 ^ 31"
  using assms
proof (induction "nat (len - thr)" arbitrary: thr ov rule: less_induct)
  case less
  show ?case
  proof (cases "len > thr")
    case False
    then show ?thesis using less.prems by (subst overload_loop.simps) simp
  next
    case True
    have ok: "cint_ok (thr * 2)" using less.prems True by (intro cint_okI) auto
    have "\<exists>thr'. overload_loop len len (thr * 2) = Some (if len > thr * 2 then len else len, thr') \<and>
           len \<le> thr' \<and> thr * 2 \<le> thr' \<and> thr' < 2 ^ 31"
      using less.prems True by (intro less.hyps) auto
    then show ?thesis using True ok less.prems by (subst overload_loop.simps) auto
  qed
qed

lemma mq_list_step:
  assumes "0 < nat (mq_len q)" "mq_len q' = mq_len q - 1" "mq_queue q' = mq_queue q"
    "mq_cap q' = mq_cap q" "mq_head q' = (mq_head q + 1) mod mq_cap q"
  shows "mq_list q' = tl (mq_list q)"
proof (rule nth_equalityI)
  show "length (mq_list q') = length (tl (mq_list q))" using assms by simp
next
  fix i assume "i < length (mq_list q')"
  then have i: "Suc i < nat (mq_len q)" using assms by simp
  have "(mq_head q' + int i) mod mq_cap q' = (mq_head q + int (Suc i)) mod mq_cap q"
    by (simp add: assms mod_simps algebra_simps)
  then show "mq_list q' ! i = tl (mq_list q) ! i"
    using i assms by (simp add: mq_list_def nth_tl)
qed

lemma mq_pop_empty:
  assumes "mq_wf q" "mq_list q = []"
  shows "mq_pop q = Some (1, None, q\<lparr>mq_overload_threshold := MQ_OVERLOAD, mq_in_global := 0\<rparr>)"
  using assms by (simp add: mq_list_empty mq_pop_def)

lemma mq_pop_nonempty:
  assumes wf: "mq_wf q" and ne: "mq_list q \<noteq> []"
  shows "\<exists>ov thr. mq_pop q = Some (0, Some (hd (mq_list q)),
           q\<lparr>mq_head := (mq_head q + 1) mod mq_cap q, mq_overload := ov, mq_overload_threshold := thr\<rparr>) \<and>
         ov = (if mq_len q - 1 > mq_overload_threshold q then mq_len q - 1 else mq_overload q) \<and>
         0 < thr \<and> thr < 2 ^ 31 \<and> mq_len q - 1 \<le> thr"
proof -
  let ?h = "(mq_head q + 1) mod mq_cap q"
  let ?h' = "if mq_head q + 1 \<ge> mq_cap q then 0 else mq_head q + 1"
  have b: "0 < mq_cap q" "mq_cap q \<le> 2 ^ 30" "0 \<le> mq_head q" "mq_head q < mq_cap q"
    "0 \<le> mq_tail q" "mq_tail q < mq_cap q" "int (length (mq_queue q)) = mq_cap q"
    using wf by (auto simp: mq_wf_def)
  have ht: "mq_head q \<noteq> mq_tail q" using ne wf by (simp add: mq_list_empty)
  have len: "0 < mq_len q" "mq_len q < mq_cap q"
    using mq_len_0 [OF wf] ht mq_len_bounds [of q] b by auto
  have h: "?h = ?h'" using b by (intro mod_succ) auto
  have m0: "mq_head q mod mq_cap q = mq_head q" using b by simp
  have slot: "mq_queue q ! nat (mq_head q) = Some (hd (mq_list q))"
  proof -
    have "mq_queue q ! nat ((mq_head q + int 0) mod mq_cap q) \<noteq> None"
      using wf len(1) unfolding mq_wf_def by force
    moreover have "hd (mq_list q) = the (mq_queue q ! nat (mq_head q))"
      using len m0 by (simp add: mq_list_def hd_map upt_conv_Cons)
    ultimately show ?thesis using m0 by auto
  qed
  have len': "(if mq_tail q - ?h' < 0 then mq_tail q - ?h' + mq_cap q else mq_tail q - ?h') = mq_len q - 1"
    using ht b mq_len_cases [OF wf] by auto
  have ok: "cint_ok (mq_head q + 1)" "cint_ok (mq_tail q - ?h')" "cint_ok (mq_tail q - ?h' + mq_cap q)"
    using b by (auto intro!: cint_okI)
  obtain thr where thr: "overload_loop (mq_len q - 1) (mq_overload q) (mq_overload_threshold q) =
      Some (if mq_len q - 1 > mq_overload_threshold q then mq_len q - 1 else mq_overload q, thr)"
      "mq_len q - 1 \<le> thr" "mq_overload_threshold q \<le> thr" "thr < 2 ^ 31"
    using overload_loop_returns [of "mq_overload_threshold q" "mq_len q - 1" "mq_overload q"] wf len b
    by (auto simp: mq_wf_def)
  have thr0: "0 < thr" using thr(3) wf by (auto simp: mq_wf_def)
  have "mq_pop q = Some (0, Some (hd (mq_list q)), q\<lparr>mq_head := ?h,
      mq_overload := if mq_len q - 1 > mq_overload_threshold q then mq_len q - 1 else mq_overload q,
      mq_overload_threshold := thr\<rparr>)"
  proof -
    have lenb: "(if mq_tail q - ?h' < 0 then cint (mq_tail q - ?h' + mq_cap q) else Some (mq_tail q - ?h'))
       = Some (mq_len q - 1)"
      using len' ok by (auto split: if_splits)
    show ?thesis
      unfolding mq_pop_def h
      using ht b slot ok lenb thr(1) by (simp add: Let_def)
  qed
  then show ?thesis using thr thr0 by blast
qed

lemma mq_pop_wf:
  assumes wf: "mq_wf q" and pop: "mq_pop q = Some (ret, m, q')"
  shows "mq_wf q'" and "mq_list q' = tl (mq_list q)"
proof -
  have "mq_wf q' \<and> mq_list q' = tl (mq_list q)"
  proof (cases "mq_list q = []")
    case True
    with wf pop have q': "q' = q\<lparr>mq_overload_threshold := MQ_OVERLOAD, mq_in_global := 0\<rparr>"
      by (simp add: mq_pop_empty)
    with wf True show ?thesis
      by (simp add: mq_wf_def mq_list_def mq_len_def MQ_OVERLOAD_def)
  next
    case False
    let ?h = "(mq_head q + 1) mod mq_cap q"
    from mq_pop_nonempty [OF wf False] pop obtain ov thr where
      q': "q' = q\<lparr>mq_head := ?h, mq_overload := ov, mq_overload_threshold := thr\<rparr>"
      and thr: "0 < thr" "thr < 2 ^ 31" by auto
    have b: "0 < mq_cap q" using wf by (simp add: mq_wf_def)
    have pos: "0 < mq_len q" "mq_len q < mq_cap q"
      using False mq_list_empty [OF wf] mq_len_0 [OF wf] mq_len_bounds [OF b] by auto
    have "(mq_tail q - ?h) mod mq_cap q = (mq_len q - 1) mod mq_cap q"
      by (simp add: mq_len_def mod_simps algebra_simps)
    then have len': "mq_len q' = mq_len q - 1"
      using pos by (simp add: q' mq_len_def)
    have "mq_list q' = tl (mq_list q)"
      by (rule mq_list_step) (use pos len' q' in auto)
    moreover have "mq_queue q' ! nat ((mq_head q' + int i) mod mq_cap q') \<noteq> None"
      if "i < nat (mq_len q')" for i
    proof -
      have "(mq_head q' + int i) mod mq_cap q' = (mq_head q + int (Suc i)) mod mq_cap q"
        by (simp add: q' mod_simps algebra_simps)
      moreover have "Suc i < nat (mq_len q)" using that len' by simp
      ultimately show ?thesis using wf q' by (auto simp: mq_wf_def)
    qed
    ultimately show ?thesis using wf thr q' b by (auto simp: mq_wf_def)
  qed
  then show "mq_wf q'" "mq_list q' = tl (mq_list q)" by auto
qed

lemma mq_length_list: "mq_wf q \<Longrightarrow> skynet_mq_length q = Some (int (length (mq_list q)))"
proof -
  assume wf: "mq_wf q"
  have "0 \<le> mq_len q" "mq_len q < 2 ^ 31"
    using wf mq_len_bounds [of q] by (auto simp: mq_wf_def)
  then show ?thesis using mq_len_cases [OF wf] by (auto simp: skynet_mq_length_def cint_okI)
qed

text \<open>Storing at the tail: before a possible growth the ring holds one message more.\<close>

definition mq_put_tail :: "skynet_message \<Rightarrow> message_queue \<Rightarrow> message_queue" where
  "mq_put_tail m q = q\<lparr>mq_queue := (mq_queue q)[nat (mq_tail q) := Some m],
     mq_tail := (mq_tail q + 1) mod mq_cap q\<rparr>"

lemma ring_slots:
  assumes wf: "mq_wf q" and i: "i \<le> nat (mq_len q)"
  shows "((mq_queue q)[nat (mq_tail q) := Some m]) ! nat ((mq_head q + int i) mod mq_cap q) =
    (if i = nat (mq_len q) then Some m else Some (mq_list q ! i))"
proof -
  have b: "0 < mq_cap q" "int (length (mq_queue q)) = mq_cap q" "0 \<le> mq_tail q" "mq_tail q < mq_cap q"
    using wf by (auto simp: mq_wf_def)
  have L: "0 \<le> mq_len q" "mq_len q < mq_cap q" using mq_len_bounds [OF b(1)] by auto
  have at_tail: "(mq_head q + mq_len q) mod mq_cap q = mq_tail q"
    using b by (simp add: mq_len_def mod_simps)
  have rng: "nat ((mq_head q + int i) mod mq_cap q) < length (mq_queue q)"
    using b by (simp add: nat_less_iff)
  show ?thesis
  proof (cases "i = nat (mq_len q)")
    case True
    then have "nat ((mq_head q + int i) mod mq_cap q) = nat (mq_tail q)" using L at_tail by simp
    then show ?thesis using True rng by simp
  next
    case False
    with i L have lt: "int i < mq_len q" by auto
    have ne: "(mq_head q + int i) mod mq_cap q \<noteq> mq_tail q"
    proof
      assume "(mq_head q + int i) mod mq_cap q = mq_tail q"
      then have "(mq_head q + int i) mod mq_cap q = (mq_head q + mq_len q) mod mq_cap q"
        using at_tail by simp
      then have "(mq_head q + int i - mq_head q) mod mq_cap q = (mq_head q + mq_len q - mq_head q) mod mq_cap q"
        by (rule mod_diff_cong) simp
      then show False using lt L by simp
    qed
    have "nat ((mq_head q + int i) mod mq_cap q) \<noteq> nat (mq_tail q)"
      using ne b by (simp add: nat_eq_iff2)
    moreover have "mq_queue q ! nat ((mq_head q + int i) mod mq_cap q) \<noteq> None"
      using wf lt by (auto simp: mq_wf_def)
    ultimately show ?thesis using False lt by (auto simp: mq_list_def)
  qed
qed

lemma expand_put_tail:
  assumes wf: "mq_wf q" and cap: "mq_cap q \<le> 2 ^ 29" and full: "mq_head q = (mq_tail q + 1) mod mq_cap q"
  shows "\<exists>q'. expand_queue (mq_put_tail m q) = Some q' \<and> mq_wf q' \<and>
     mq_list q' = mq_list q @ [m] \<and> mq_cap q' = 2 * mq_cap q \<and>
     q'\<lparr>mq_cap := c, mq_head := h, mq_tail := t, mq_queue := xs\<rparr> =
       q\<lparr>mq_cap := c, mq_head := h, mq_tail := t, mq_queue := xs\<rparr>"
proof -
  let ?c = "mq_cap q" and ?q = "(mq_queue q)[nat (mq_tail q) := Some m]"
  let ?xs = "map (\<lambda>i. ?q ! nat ((mq_head q + int i) mod ?c)) [0..<nat ?c]"
  let ?q' = "q\<lparr>mq_head := 0, mq_tail := ?c, mq_cap := ?c * 2, mq_queue := ?xs @ replicate (nat ?c) None\<rparr>"
  have b: "0 < ?c" "int (length (mq_queue q)) = ?c" "0 \<le> mq_tail q" "mq_tail q < ?c" "0 \<le> mq_head q" "mq_head q < ?c"
    using wf by (auto simp: mq_wf_def)
  have len: "mq_len q = ?c - 1"
  proof -
    have "(mq_tail q - mq_head q) mod ?c = (- 1) mod ?c"
      unfolding full by (simp add: mod_simps algebra_simps)
    also have "\<dots> = ?c - 1" using b by (simp add: zmod_minus1)
    finally show ?thesis by (simp add: mq_len_def)
  qed
  have "those (map (\<lambda>i. aget ?q ((mq_head q + int i) mod ?c)) [0..<nat ?c]) = Some ?xs"
    using b by (intro those_map_Some aget_in_range) auto
  moreover have "cint_ok (?c * 2)" using b cap by (intro cint_okI) auto
  ultimately have ex: "expand_queue (mq_put_tail m q) = Some ?q'"
    by (simp add: expand_queue_def mq_put_tail_def)
  have len': "mq_len ?q' = ?c" using b by (simp add: mq_len_def)
  have slot: "?xs ! i = Some ((mq_list q @ [m]) ! i)" if "i < nat ?c" for i
    using that len b ring_slots [OF wf, of i m] by (auto simp: nth_append)
  have idx: "(0 + int i) mod (?c * 2) = int i" if "i < nat ?c" for i
    using that b by simp
  have "mq_wf ?q'"
    using wf cap b len' slot idx by (auto simp: mq_wf_def nth_append simp del: nth_map)
  moreover have "mq_list ?q' = mq_list q @ [m]"
    by (rule ring_listI) (use slot idx len' len b in \<open>auto simp: nth_append simp del: nth_map\<close>)
  ultimately show ?thesis using ex by (intro exI [of _ ?q']) auto
qed

lemma put_tail_room:
  assumes wf: "mq_wf q" and room: "mq_head q \<noteq> (mq_tail q + 1) mod mq_cap q"
  shows "mq_wf (mq_put_tail m q)" and "mq_list (mq_put_tail m q) = mq_list q @ [m]"
proof -
  let ?c = "mq_cap q" and ?q' = "mq_put_tail m q"
  have b: "0 < ?c" "0 \<le> mq_tail q" "mq_tail q < ?c" "0 \<le> mq_head q" "mq_head q < ?c"
    using wf by (auto simp: mq_wf_def)
  have L: "0 \<le> mq_len q" "mq_len q < ?c" using mq_len_bounds [OF b(1)] by auto
  have "mq_len q \<noteq> ?c - 1"
  proof
    assume "mq_len q = ?c - 1"
    then have "(mq_head q + mq_len q + 1) mod ?c = mq_head q" using b by simp
    moreover have "(mq_head q + mq_len q + 1) mod ?c = (mq_tail q + 1) mod ?c"
    proof -
      have "(mq_head q + 1 + (mq_tail q - mq_head q) mod ?c) mod ?c = (mq_tail q + 1) mod ?c"
        by (subst mod_add_right_eq) (simp add: algebra_simps)
      then show ?thesis by (simp add: mq_len_def algebra_simps)
    qed
    ultimately show False using room by simp
  qed
  then have "(mq_len q + 1) mod ?c = mq_len q + 1" using L by simp
  moreover have "mq_len ?q' = (mq_len q + 1) mod ?c"
    by (simp add: mq_len_def mq_put_tail_def mod_simps algebra_simps)
  ultimately have len': "mq_len ?q' = mq_len q + 1" by simp
  have slot: "mq_queue ?q' ! nat ((mq_head ?q' + int i) mod mq_cap ?q') = Some ((mq_list q @ [m]) ! i)"
    if "i < nat (mq_len ?q')" for i
    using that len' L ring_slots [OF wf, of i m] by (auto simp: mq_put_tail_def nth_append)
  show "mq_wf ?q'" using wf slot b by (auto simp: mq_wf_def mq_put_tail_def)
  show "mq_list ?q' = mq_list q @ [m]"
    by (rule ring_listI) (use slot len' L in auto)
qed

text \<open>\<open>mq_store\<close> changes only the ring: capacity, indices and the array.\<close>

lemma mq_store_returns:
  assumes wf: "mq_wf q" and cap: "mq_cap q \<le> 2 ^ 29 \<or> mq_head q \<noteq> (mq_tail q + 1) mod mq_cap q"
  shows "\<exists>q'. mq_store m q = Some q' \<and> mq_wf q' \<and> mq_list q' = mq_list q @ [m] \<and>
     mq_cap q' = (if mq_head q = (mq_tail q + 1) mod mq_cap q then 2 * mq_cap q else mq_cap q) \<and>
     mq_next q' = mq_next q \<and> mq_handle q' = mq_handle q \<and>
     mq_in_global q' = mq_in_global q \<and> mq_release q' = mq_release q"
proof -
  have b: "0 < mq_cap q" "int (length (mq_queue q)) = mq_cap q" "0 \<le> mq_tail q" "mq_tail q < mq_cap q"
    "mq_cap q \<le> 2 ^ 30"
    using wf by (auto simp: mq_wf_def)
  have t: "(mq_tail q + 1) mod mq_cap q = (if mq_tail q + 1 \<ge> mq_cap q then 0 else mq_tail q + 1)"
    using b by (intro mod_succ) auto
  have "cint_ok (mq_tail q + 1)" using b by (intro cint_okI) auto
  then have store: "mq_store m q = (if mq_head q = (mq_tail q + 1) mod mq_cap q
      then expand_queue (mq_put_tail m q) else Some (mq_put_tail m q))"
    using b t by (simp add: mq_store_def mq_put_tail_def Let_def)
  show ?thesis
  proof (cases "mq_head q = (mq_tail q + 1) mod mq_cap q")
    case True
    obtain q' where q': "expand_queue (mq_put_tail m q) = Some q'" "mq_wf q'"
      "mq_list q' = mq_list q @ [m]" "mq_cap q' = 2 * mq_cap q"
      and frame: "q'\<lparr>mq_cap := 0, mq_head := 0, mq_tail := 0, mq_queue := []\<rparr> =
          q\<lparr>mq_cap := 0, mq_head := 0, mq_tail := 0, mq_queue := []\<rparr>"
      using cap True expand_put_tail [OF wf _ True, where c = 0 and h = 0 and t = 0 and xs = "[]"] by blast
    have "mq_next q' = mq_next q \<and> mq_handle q' = mq_handle q \<and>
        mq_in_global q' = mq_in_global q \<and> mq_release q' = mq_release q"
      using frame by (cases q'; cases q) simp
    then show ?thesis using store True q' by simp
  next
    case False
    then show ?thesis
      using store put_tail_room [OF wf False] by (simp add: mq_put_tail_def)
  qed
qed

lemma new_mq_wf: "mq_wf (new_mq h)" "mq_list (new_mq h) = []"
  by (simp_all add: mq_wf_def mq_list_def mq_len_def new_mq_def DEFAULT_QUEUE_SIZE_def MQ_OVERLOAD_def)



section \<open>The ring is a FIFO queue\<close>

definition mq_room :: "nat \<Rightarrow> message_queue \<Rightarrow> bool" where
  "mq_room n q \<longleftrightarrow> mq_cap q \<le> 2 ^ 29 \<and> length (mq_list q) + n \<le> 2 ^ 28"

definition mq_take :: "message_queue \<Rightarrow> (skynet_message option \<times> message_queue) option" where
  "mq_take q = map_option (\<lambda>(ret, m, q'). (m, q')) (mq_pop q)"

lemma mq_store_room:
  assumes wf: "mq_wf q" and room: "mq_room (Suc n) q"
  shows "\<exists>q'. mq_store m q = Some q' \<and> mq_wf q' \<and> mq_room n q' \<and> mq_list q' = mq_list q @ [m]"
proof -
  have cap: "mq_cap q \<le> 2 ^ 29" using room by (simp add: mq_room_def)
  obtain q' where q': "mq_store m q = Some q'" "mq_wf q'" "mq_list q' = mq_list q @ [m]"
    "mq_cap q' = (if mq_head q = (mq_tail q + 1) mod mq_cap q then 2 * mq_cap q else mq_cap q)"
    using mq_store_returns [OF wf disjI1 [OF cap], of m] by blast
  have "mq_cap q' \<le> 2 ^ 29"
  proof (cases "mq_head q = (mq_tail q + 1) mod mq_cap q")
    case True
    have "(mq_tail q - mq_head q) mod mq_cap q = (- 1) mod mq_cap q"
      unfolding True by (simp add: mod_simps algebra_simps)
    also have "\<dots> = mq_cap q - 1" using wf by (simp add: zmod_minus1 mq_wf_def)
    finally have "mq_len q = mq_cap q - 1" by (simp add: mq_len_def)
    moreover have "nat (mq_len q) + Suc n \<le> 2 ^ 28" using room by (simp add: mq_room_def)
    ultimately show ?thesis using q'(4) True by simp
  next
    case False
    then show ?thesis using q'(4) cap by simp
  qed
  then show ?thesis using q' room by (auto simp: mq_room_def simp del: length_mq_list)
qed

lemma mq_pop_cap: "mq_wf q \<Longrightarrow> mq_pop q = Some (r, m, q') \<Longrightarrow> mq_cap q' = mq_cap q"
  using mq_pop_nonempty [of q] by (cases "mq_list q = []") (auto simp: mq_pop_empty)

interpretation ring: fifo mq_wf mq_list mq_room mq_store mq_take
proof (unfold_locales, goal_cases)
  case (1 q n m)
  then show ?case by (rule mq_store_room)
next
  case (2 q n m ms)
  then obtain q' where "mq_pop q = Some (0, Some m, q')"
    using mq_pop_nonempty [of q] by force
  with 2 mq_pop_wf [of q 0 "Some m" q'] mq_pop_cap [of q 0 "Some m" q'] show ?case
    by (auto simp: mq_take_def mq_room_def simp del: length_mq_list)
next
  case (3 q n)
  then show ?case
    using mq_pop_wf [OF 3(1) mq_pop_empty] by (auto simp: mq_pop_empty mq_take_def mq_room_def simp del: length_mq_list)
qed


section \<open>The global queue as a list\<close>

definition succ_of :: "addr list \<Rightarrow> nat \<Rightarrow> addr option" where
  "succ_of xs i = (if Suc i < length xs then Some (xs ! Suc i) else None)"

definition gq_repr :: "'a mq_state_scheme \<Rightarrow> addr list \<Rightarrow> bool" where
  "gq_repr st xs \<longleftrightarrow> distinct xs \<and>
     gQ st = Some \<lparr>gq_head = (if xs = [] then None else Some (hd xs)),
                   gq_tail = (if xs = [] then None else Some (last xs))\<rparr> \<and>
     (\<forall>i < length xs. map_option mq_next (mqs st (xs ! i)) = Some (succ_of xs i))"

lemma gq_repr_frame:
  assumes "gq_repr st xs" "gQ st' = gQ st"
    "\<And>a. a \<in> set xs \<Longrightarrow> map_option mq_next (mqs st' a) = map_option mq_next (mqs st a)"
  shows "gq_repr st' xs"
  using assms by (simp add: gq_repr_def)

lemma gq_repr_live: "gq_repr st xs \<Longrightarrow> a \<in> set xs \<Longrightarrow> \<exists>mq. mqs st a = Some mq"
  by (fastforce simp: gq_repr_def in_set_conv_nth)

lemma gq_repr_init: "gq_repr (skynet_mq_init st) []"
  by (simp add: gq_repr_def skynet_mq_init_def)

lemma globalmq_push_repr:
  assumes r: "gq_repr st xs" and q: "mqs st q = Some mq" "mq_next mq = None" "q \<notin> set xs"
  shows "\<exists>st'. skynet_globalmq_push q st = Some st' \<and> gq_repr st' (xs @ [q]) \<and>
     (\<forall>a. map_option (\<lambda>m. m\<lparr>mq_next := None\<rparr>) (mqs st' a) = map_option (\<lambda>m. m\<lparr>mq_next := None\<rparr>) (mqs st a)) \<and>
     (\<forall>a. a \<notin> set xs \<longrightarrow> mqs st' a = mqs st a) \<and> mq_brk st' = mq_brk st \<and>
     mq_state.more st' = mq_state.more st"
proof (cases "xs = []")
  case True
  then show ?thesis
    using assms by (auto simp: skynet_globalmq_push_def gq_repr_def succ_of_def)
next
  case False
  let ?t = "last xs"
  have t: "?t \<in> set xs" using False by simp
  then obtain tq where tq: "mqs st ?t = Some tq" using gq_repr_live [OF r] by blast
  have nt: "?t \<noteq> q" using t q by auto
  have lastn: "\<And>i. i < length xs \<Longrightarrow> xs ! i = ?t \<longleftrightarrow> Suc i = length xs"
    using r False unfolding gq_repr_def
    by (metis Suc_pred' diff_Suc_1 last_conv_nth length_greater_0_conv lessI nth_eq_iff_index_eq)
  let ?st = "(mq_put ?t (tq\<lparr>mq_next := Some q\<rparr>) st)\<lparr>gQ := Some \<lparr>gq_head = Some (hd xs), gq_tail = Some q\<rparr>\<rparr>"
  have "skynet_globalmq_push q st = Some ?st"
    using assms tq False by (simp add: skynet_globalmq_push_def gq_repr_def)
  moreover have "gq_repr ?st (xs @ [q])"
  proof -
    have "map_option mq_next (mqs ?st ((xs @ [q]) ! i)) = Some (succ_of (xs @ [q]) i)"
      if "i < length (xs @ [q])" for i
    proof (cases "i < length xs")
      case True
      then show ?thesis
        using r lastn [OF True] by (auto simp: nth_append succ_of_def gq_repr_def mq_put_def)
    next
      case False
      then have "i = length xs" using that by simp
      then show ?thesis using nt q by (simp add: succ_of_def mq_put_def)
    qed
    then show ?thesis using r q False by (simp add: gq_repr_def)
  qed
  ultimately show ?thesis using tq t by (auto simp: mq_put_def)
qed

lemma globalmq_pop_empty: "gq_repr st [] \<Longrightarrow> skynet_globalmq_pop st = Some (None, st)"
  by (simp add: skynet_globalmq_pop_def gq_repr_def)

lemma globalmq_pop_repr:
  assumes r: "gq_repr st (a # xs)"
  shows "\<exists>st' mq. skynet_globalmq_pop st = Some (Some a, st') \<and> gq_repr st' xs \<and>
     mqs st a = Some mq \<and> mqs st' = (mqs st)(a := Some (mq\<lparr>mq_next := None\<rparr>)) \<and>
     mq_brk st' = mq_brk st \<and> mq_state.more st' = mq_state.more st"
proof -
  obtain mq where mq: "mqs st a = Some mq" using gq_repr_live [OF r] by force
  have nxt: "mq_next mq = (if xs = [] then None else Some (hd xs))"
  proof -
    have "map_option mq_next (mqs st ((a # xs) ! 0)) = Some (succ_of (a # xs) 0)"
      using r unfolding gq_repr_def by (metis length_greater_0_conv list.distinct(1))
    then show ?thesis using mq by (simp add: succ_of_def hd_conv_nth)
  qed
  let ?st = "(mq_put a (mq\<lparr>mq_next := None\<rparr>) st)\<lparr>gQ := Some \<lparr>gq_head = mq_next mq,
       gq_tail = if xs = [] then None else Some (last xs)\<rparr>\<rparr>"
  have "skynet_globalmq_pop st = Some (Some a, ?st)"
    using r mq nxt by (auto simp: skynet_globalmq_pop_def gq_repr_def Let_def)
  moreover have "gq_repr ?st xs"
  proof -
    have "map_option mq_next (mqs ?st (xs ! i)) = Some (succ_of xs i)" if "i < length xs" for i
    proof -
      have "map_option mq_next (mqs st ((a # xs) ! Suc i)) = Some (succ_of (a # xs) (Suc i))"
        using r that unfolding gq_repr_def by (metis Suc_less_eq length_Cons)
      moreover have "xs ! i \<noteq> a" using r that by (auto simp: gq_repr_def)
      ultimately show ?thesis by (auto simp: mq_put_def succ_of_def)
    qed
    then show ?thesis using r nxt by (simp add: gq_repr_def)
  qed
  ultimately show ?thesis using mq by (auto simp: mq_put_def)
qed

section \<open>Properties of the ring\<close>

text \<open>C1: from a freshly created queue, any sequence of at most \<open>2 ^ 28\<close> pushes interleaved with
  any pops returns normally (no out-of-range access, no read of an unwritten slot, no signed
  overflow, no endless threshold loop) and the pops give exactly what a FIFO list gives, across
  wrap-around and growth of the ring.\<close>

theorem skynet_mq_is_fifo:
  assumes "pushes ops \<le> 2 ^ 28"
  shows "\<exists>q'. fifo_run mq_store mq_take ops (new_mq h) = Some (fst (list_run ops []), q') \<and>
           mq_wf q' \<and> mq_list q' = snd (list_run ops [])"
proof -
  have "mq_room (pushes ops) (new_mq h)"
    unfolding mq_room_def new_mq_wf
    using assms by (simp add: new_mq_def DEFAULT_QUEUE_SIZE_def)
  with ring.run_simulates_list [of "new_mq h" ops] show ?thesis by (simp add: new_mq_wf)
qed

theorem skynet_mq_is_fifo_witness:
  "\<exists>q'. fifo_run mq_store mq_take
      [Pop, Push \<lparr>msg_source = 1, msg_session = 2, msg_data = None, msg_sz = 0\<rparr>, Pop, Pop] (new_mq 5) =
      Some ([None, Some \<lparr>msg_source = 1, msg_session = 2, msg_data = None, msg_sz = 0\<rparr>, None], q') \<and>
      mq_wf q' \<and> mq_list q' = []"
  using skynet_mq_is_fifo [of "[Pop, Push \<lparr>msg_source = 1, msg_session = 2, msg_data = None, msg_sz = 0\<rparr>, Pop, Pop]" 5]
  by simp

end
