(* ===== verification/Skynet_Sched.thy ===== *)
theory Skynet_Sched
  imports Skynet_Mq
begin

text \<open>
  How the queues are scheduled.  Worker threads, senders and the destructor of a service run the
  operations of \<open>Skynet_Mq\<close> in any order; each operation is atomic under its spin lock.  The
  state is extended by two sets.  \<open>held\<close> are the queues a thread owns at the moment: a queue just
  created and not yet published by \<open>skynet_context_new\<close>, or one a worker took from the global queue
  in \<open>skynet_context_message_dispatch\<close> and has neither pushed back, nor emptied, nor freed.
  \<open>alive\<close> are the queues whose context has not been deleted: a sender pushes to the queue of a
  context it holds a reference of, and \<open>delete_context\<close> marks the queue when the reference count
  reaches zero, which happens once per context.
\<close>

record world = mq_state +
  held :: "addr set"
  alive :: "addr set"

inductive mq_step :: "world \<Rightarrow> world \<Rightarrow> bool" where
  create: "skynet_mq_create h w = (q, w') \<Longrightarrow> 
    mq_step w (w'\<lparr>held := insert q (held w'), alive := insert q (alive w')\<rparr>)"
| publish: "q \<in> held w \<Longrightarrow> skynet_globalmq_push q w = Some w' \<Longrightarrow>
    mq_step w (w'\<lparr>held := held w' - {q}\<rparr>)"
| acquire: "skynet_globalmq_pop w = Some (Some q, w') \<Longrightarrow>
    mq_step w (w'\<lparr>held := insert q (held w')\<rparr>)"
| send: "q \<in> alive w \<Longrightarrow> skynet_mq_push q m w = Some w' \<Longrightarrow> mq_step w w'"
| receive: "q \<in> held w \<Longrightarrow> skynet_mq_pop q w = Some (0, Some m, w') \<Longrightarrow> mq_step w w'"
| sleep: "q \<in> held w \<Longrightarrow> mqs w q = Some mq \<Longrightarrow> mq_release mq = 0 \<Longrightarrow>
    skynet_mq_pop q w = Some (1, None, w') \<Longrightarrow> mq_step w (w'\<lparr>held := held w' - {q}\<rparr>)"
| mark: "q \<in> alive w \<Longrightarrow> skynet_mq_mark_release q w = Some w' \<Longrightarrow>
    mq_step w (w'\<lparr>alive := alive w' - {q}\<rparr>)"
| free: "q \<in> held w \<Longrightarrow> mqs w q = Some mq \<Longrightarrow> mq_release mq \<noteq> 0 \<Longrightarrow>
    skynet_mq_pop q w = Some (1, None, w1) \<Longrightarrow> release_mq q w1 = Some w' \<Longrightarrow>
    mq_step w (w'\<lparr>held := held w' - {q}\<rparr>)"

definition world_init :: world where
  "world_init = skynet_mq_init \<lparr>mqs = (\<lambda>_. None), mq_brk = 0, gQ = None, held = {}, alive = {}\<rparr>"

inductive mq_reachable :: "world \<Rightarrow> bool" where
  init: "mq_reachable world_init"
| step: "mq_reachable w \<Longrightarrow> mq_step w w' \<Longrightarrow> mq_reachable w'"

section \<open>The scheduling invariant\<close>

text \<open>What holds of one queue, given whether it is active (in the global queue or held).\<close>

definition mq_ok :: "bool \<Rightarrow> message_queue \<Rightarrow> bool" where
  "mq_ok active mq \<longleftrightarrow> mq_wf mq \<and> (\<exists>k. mq_cap mq = 64 * 2 ^ k) \<and>
     (mq_in_global mq = 0 \<or> mq_in_global mq = 1) \<and>
     (if mq_release mq = 0
      then active = (mq_in_global mq = 1) \<and> (mq_in_global mq = 0 \<longrightarrow> mq_list mq = [])
      else mq_release mq = 1 \<and> active)"

definition sched_core :: "addr list \<Rightarrow> world \<Rightarrow> bool" where
  "sched_core xs w \<longleftrightarrow> gq_repr w xs \<and> set xs \<inter> held w = {} \<and>
     (\<forall>q \<in> held w. mqs w q \<noteq> None) \<and>
     (\<forall>q mq. mqs w q = Some mq \<longrightarrow> q < mq_brk w \<and> (q \<notin> set xs \<longrightarrow> mq_next mq = None))"

definition flags_ok :: "addr set \<Rightarrow> world \<Rightarrow> bool" where
  "flags_ok A w \<longleftrightarrow> (\<forall>q mq. mqs w q = Some mq \<longrightarrow> mq_ok (q \<in> A) mq)"

definition sched_inv :: "addr list \<Rightarrow> world \<Rightarrow> bool" where
  "sched_inv xs w \<longleftrightarrow> sched_core xs w \<and> flags_ok (set xs \<union> held w) w"

lemma sched_inv_alive [simp]: "sched_inv xs (w\<lparr>alive := A\<rparr>) = sched_inv xs w"
  by (simp add: sched_inv_def sched_core_def flags_ok_def gq_repr_def)

lemma flags_okD: "flags_ok A w \<Longrightarrow> mqs w q = Some mq \<Longrightarrow> mq_ok (q \<in> A) mq"
  by (simp add: flags_ok_def)

lemma sched_core_fresh: "sched_core xs w \<Longrightarrow> mqs w (mq_brk w) = None"
  unfolding sched_core_def by (metis less_irrefl option.exhaust)

lemma sched_core_held:
  assumes "sched_core xs w" "q \<in> held w"
  obtains mq where "mqs w q = Some mq" "q \<notin> set xs"
  using assms unfolding sched_core_def by (metis disjoint_iff option.exhaust)

lemma mq_ok_next [simp]: "mq_ok b (mq\<lparr>mq_next := x\<rparr>) = mq_ok b mq"
  by (simp add: mq_ok_def mq_wf_def mq_list_def mq_len_def)

lemma same_but_next:
  assumes "\<forall>a. map_option (\<lambda>m. m\<lparr>mq_next := None\<rparr>) (f a) = map_option (\<lambda>m. m\<lparr>mq_next := None\<rparr>) (g a)"
    and "f a = Some m"
  obtains m' where "g a = Some m'" "\<And>b. mq_ok b m = mq_ok b m'"
proof -
  from assms obtain m' where m': "g a = Some m'" "m\<lparr>mq_next := None\<rparr> = m'\<lparr>mq_next := None\<rparr>"
    by (metis (no_types, lifting) map_option_eq_Some option.simps(9))
  have "mq_ok b m = mq_ok b m'" for b
    using m'(2) by (metis mq_ok_next)
  with m'(1) that show thesis by blast
qed

text \<open>Replacing one queue by one with the same link keeps the structure.\<close>

lemma sched_core_put:
  assumes "sched_core xs w" "mqs w q = Some mq" "mq_next mq' = mq_next mq"
  shows "sched_core xs (mq_put q mq' w)"
proof -
  have "gq_repr w xs" using assms(1) by (simp add: sched_core_def)
  then have "gq_repr (mq_put q mq' w) xs"
    by (rule gq_repr_frame) (use assms(2,3) in \<open>simp_all add: mq_put_def\<close>)
  then show ?thesis using assms by (auto simp: sched_core_def mq_put_def)
qed

text \<open>Appending a queue that is not linked yet; if it was held, it is held no more.\<close>

lemma sched_core_push:
  assumes core: "sched_core xs w" and q: "mqs w q = Some mq" "q \<notin> set xs"
  shows "\<exists>w'. skynet_globalmq_push q w = Some w' \<and> sched_core (xs @ [q]) (w'\<lparr>held := held w - {q}\<rparr>) \<and>
     held w' = held w \<and> (\<forall>A. flags_ok A w' = flags_ok A w)"
proof -
  have nxt: "mq_next mq = None" using core q by (auto simp: sched_core_def)
  have r: "gq_repr w xs" using core by (simp add: sched_core_def)
  obtain w' where w': "skynet_globalmq_push q w = Some w'" "gq_repr w' (xs @ [q])"
    and same: "\<forall>a. map_option (\<lambda>m. m\<lparr>mq_next := None\<rparr>) (mqs w' a) = map_option (\<lambda>m. m\<lparr>mq_next := None\<rparr>) (mqs w a)"
    and off: "\<forall>a. a \<notin> set xs \<longrightarrow> mqs w' a = mqs w a" and brk: "mq_brk w' = mq_brk w"
    and more: "mq_state.more w' = mq_state.more w"
    using globalmq_push_repr [OF r q(1) nxt q(2)] by blast
  have h: "held w' = held w" using more by (cases w'; cases w) simp
  have live: "mqs w' a = None \<longleftrightarrow> mqs w a = None" for a
    using same by (metis option.map_disc_iff)
  have repr: "gq_repr (w'\<lparr>held := held w - {q}\<rparr>) (xs @ [q])"
    using w'(2) by (rule gq_repr_frame) auto
  have "a < mq_brk w' \<and> (a \<notin> set (xs @ [q]) \<longrightarrow> mq_next m = None)" if "mqs w' a = Some m" for a m
    using that core off live [of a] brk by (auto simp: sched_core_def)
  then have "sched_core (xs @ [q]) (w'\<lparr>held := held w - {q}\<rparr>)"
    using repr core live by (auto simp: sched_core_def)
  moreover have "flags_ok A w' = flags_ok A w" for A
    unfolding flags_ok_def
    using same_but_next [of "mqs w'" "mqs w"] same_but_next [of "mqs w" "mqs w'"] same by metis
  ultimately show ?thesis using w' h by blast
qed

lemma sched_core_pop:
  assumes core: "sched_core (q # xs) w"
  shows "\<exists>w'. skynet_globalmq_pop w = Some (Some q, w') \<and> sched_core xs (w'\<lparr>held := insert q (held w)\<rparr>) \<and>
     held w' = held w \<and> (\<forall>A. flags_ok A w' = flags_ok A w)"
proof -
  have r: "gq_repr w (q # xs)" using core by (simp add: sched_core_def)
  obtain w' mq where w': "skynet_globalmq_pop w = Some (Some q, w')" "gq_repr w' xs"
    and mq: "mqs w q = Some mq" "mqs w' = (mqs w)(q := Some (mq\<lparr>mq_next := None\<rparr>))"
    and brk: "mq_brk w' = mq_brk w" and more: "mq_state.more w' = mq_state.more w"
    using globalmq_pop_repr [OF r] by blast
  have h: "held w' = held w" using more by (cases w'; cases w) simp
  have "gq_repr (w'\<lparr>held := insert q (held w)\<rparr>) xs"
    using w'(2) by (rule gq_repr_frame) auto
  moreover have "q \<notin> set xs" using r by (auto simp: gq_repr_def)
  ultimately have "sched_core xs (w'\<lparr>held := insert q (held w)\<rparr>)"
    using core mq brk by (auto simp: sched_core_def)
  moreover have "flags_ok A w' = flags_ok A w" for A
    using mq by (auto simp: flags_ok_def)
  ultimately show ?thesis using w' h by blast
qed

lemma cap_pow: "mq_wf mq \<Longrightarrow> mq_cap mq = 64 * 2 ^ k \<Longrightarrow> mq_cap mq \<le> 2 ^ 29 \<or> mq_cap mq = 2 ^ 30"
proof -
  assume wf: "mq_wf mq" and k: "mq_cap mq = 64 * 2 ^ k"
  have "(64 :: int) * 2 ^ k \<le> 2 ^ 30" using wf k by (simp add: mq_wf_def)
  then have "(2 :: int) ^ (k + 6) \<le> 2 ^ 30" by (simp add: power_add)
  then have "k + 6 \<le> 30" by (simp only: power_increasing_iff)
  then have "k + 6 \<le> 29 \<or> k = 24" by auto
  moreover have "k + 6 \<le> 29 \<Longrightarrow> (2 :: int) ^ (k + 6) \<le> 2 ^ 29" by (rule power_increasing) auto
  ultimately show ?thesis using k by (auto simp: power_add)
qed

lemma mq_store_ok:
  assumes ok: "mq_ok active mq" "mq_release mq = 0" and st: "mq_store m mq = Some mq'"
  shows "mq_ok True (mq'\<lparr>mq_in_global := 1\<rparr>)" "mq_next mq' = mq_next mq"
    "mq_in_global mq' = mq_in_global mq" "mq_release mq' = 0"
proof -
  have wf: "mq_wf mq" using ok by (simp add: mq_ok_def)
  obtain k where k: "mq_cap mq = 64 * 2 ^ k" using ok by (auto simp: mq_ok_def)
  have "mq_cap mq \<le> 2 ^ 29 \<or> mq_head mq \<noteq> (mq_tail mq + 1) mod mq_cap mq"
  proof (rule ccontr)
    assume n: "\<not> ?thesis"
    then have c: "mq_cap mq = 2 ^ 30" and f: "mq_head mq = (mq_tail mq + 1) mod mq_cap mq"
      using cap_pow [OF wf k] by auto
    have b: "0 \<le> mq_tail mq" "mq_tail mq < mq_cap mq" "int (length (mq_queue mq)) = mq_cap mq"
      using wf by (auto simp: mq_wf_def)
    have "(mq_tail mq + 1) mod mq_cap mq = (if mq_tail mq + 1 \<ge> mq_cap mq then 0 else mq_tail mq + 1)"
      using b by (intro mod_succ) auto
    then have "mq_store m mq = None"
      using c b f by (auto simp: mq_store_def expand_queue_def Let_def cint_def cint_ok_def)
    with st show False by simp
  qed
  from mq_store_returns [OF wf this, of m] st have
    q': "mq_wf mq'" "mq_next mq' = mq_next mq" "mq_in_global mq' = mq_in_global mq" "mq_release mq' = 0"
    "mq_cap mq' = 2 * mq_cap mq \<or> mq_cap mq' = mq_cap mq" using ok by (auto split: if_splits)
  have "\<exists>k. mq_cap mq' = 64 * 2 ^ k"
    using q'(5) k by (metis mult.left_commute power_Suc)
  then show "mq_ok True (mq'\<lparr>mq_in_global := 1\<rparr>)"
    using q' by (auto simp: mq_ok_def mq_wf_def mq_list_def mq_len_def)
  show "mq_next mq' = mq_next mq" "mq_in_global mq' = mq_in_global mq" "mq_release mq' = 0"
    using q' by auto
qed

lemma flags_ok_put: "flags_ok A w \<Longrightarrow> mq_ok (q \<in> A) mq \<Longrightarrow> flags_ok A (mq_put q mq w)"
  by (simp add: flags_ok_def mq_put_def)

lemma flags_ok_held [simp]: "flags_ok A (w\<lparr>held := H\<rparr>) = flags_ok A w"
  by (simp add: flags_ok_def)

lemma held_put [simp]: "held (mq_put q mq w) = held w"
  by (simp add: mq_put_def)

lemma mqs_put [simp]: "mqs (mq_put q mq w) = (mqs w)(q := Some mq)"
  by (simp add: mq_put_def)

lemma sched_inv_send:
  assumes inv: "sched_inv xs w" and q: "mqs w q = Some mq" "mq_release mq = 0"
    and st: "mq_store m mq = Some mq'"
  shows "\<exists>xs' w'. skynet_mq_push q m w = Some w' \<and> sched_inv xs' w' \<and> held w' = held w"
proof -
  have core: "sched_core xs w" and fl: "flags_ok (set xs \<union> held w) w"
    using inv by (auto simp: sched_inv_def)
  have ok: "mq_ok (q \<in> set xs \<union> held w) mq" using fl q(1) by (rule flags_okD)
  note s = mq_store_ok [OF ok q(2) st]
  show ?thesis
  proof (cases "mq_in_global mq = 0")
    case True
    have notin: "q \<notin> set xs" "q \<notin> held w" using ok q(2) True by (auto simp: mq_ok_def)
    let ?w = "mq_put q (mq'\<lparr>mq_in_global := 1\<rparr>) w"
    have "sched_core xs ?w" using core q(1) s by (intro sched_core_put) auto
    from sched_core_push [OF this, of q] notin obtain w' where w':
      "skynet_globalmq_push q ?w = Some w'" "sched_core (xs @ [q]) (w'\<lparr>held := held w - {q}\<rparr>)"
      "held w' = held w" "\<And>A. flags_ok A w' = flags_ok A ?w" by auto
    have "w'\<lparr>held := held w - {q}\<rparr> = w'" using w'(3) notin by simp
    with w'(2) have c: "sched_core (xs @ [q]) w'" by simp
    have "flags_ok (set (xs @ [q]) \<union> held w) ?w"
      using fl s(1) notin by (auto simp: flags_ok_def)
    with w'(3,4) c have "sched_inv (xs @ [q]) w'" by (simp add: sched_inv_def)
    moreover have "skynet_mq_push q m w = Some w'"
      using q st s True w'(1) by (simp add: skynet_mq_push_def MQ_IN_GLOBAL_def)
    ultimately show ?thesis using w'(3) by blast
  next
    case False
    then have g: "mq_in_global mq = 1" using ok by (auto simp: mq_ok_def)
    then have act: "q \<in> set xs \<union> held w" using ok q(2) by (auto simp: mq_ok_def)
    have "mq'\<lparr>mq_in_global := 1\<rparr> = mq'" using s(3) g by simp
    with s(1) act have "mq_ok (q \<in> set xs \<union> held w) mq'" by simp
    then have "flags_ok (set xs \<union> held w) (mq_put q mq' w)" using fl by (intro flags_ok_put)
    moreover have "sched_core xs (mq_put q mq' w)" using core q(1) s by (intro sched_core_put) auto
    moreover have "skynet_mq_push q m w = Some (mq_put q mq' w)"
      using q st s g by (simp add: skynet_mq_push_def)
    ultimately show ?thesis by (auto simp: sched_inv_def)
  qed
qed


lemma new_mq_ok: "mq_ok True (new_mq h)"
proof -
  have "mq_cap (new_mq h) = 64 * 2 ^ 0" by (simp add: new_mq_def DEFAULT_QUEUE_SIZE_def)
  then have "\<exists>k. mq_cap (new_mq h) = 64 * 2 ^ k" by blast
  then show ?thesis using new_mq_wf [of h] by (simp add: mq_ok_def new_mq_def MQ_IN_GLOBAL_def)
qed

lemma sched_inv_create:
  assumes inv: "sched_inv xs w" and c: "skynet_mq_create h w = (q, w')"
  shows "sched_inv xs (w'\<lparr>held := insert q (held w'), alive := A\<rparr>)"
proof -
  have q: "q = mq_brk w" and w': "w' = (mq_put q (new_mq h) w)\<lparr>mq_brk := Suc q\<rparr>"
    using c by (auto simp: skynet_mq_create_def)
  have fresh: "mqs w q = None" using inv q sched_core_fresh by (auto simp: sched_inv_def)
  have r: "gq_repr w xs" using inv by (simp add: sched_inv_def sched_core_def)
  have nin: "q \<notin> set xs" using gq_repr_live [OF r] fresh by force
  have "gq_repr (w'\<lparr>held := insert q (held w'), alive := A\<rparr>) xs"
    using r by (rule gq_repr_frame) (use nin w' in \<open>auto simp: mq_put_def\<close>)
  then show ?thesis
    using inv w' nin q new_mq_ok [of h]
    by (auto simp: sched_inv_def sched_core_def flags_ok_def new_mq_def mq_put_def less_Suc_eq)
qed

lemma mq_pop_ok:
  assumes ok: "mq_ok active mq" and pop: "mq_pop mq = Some (r, m, mq')"
  shows "mq_next mq' = mq_next mq" "mq_release mq' = mq_release mq"
    "m \<noteq> None \<Longrightarrow> mq_ok active mq'" "m = None \<Longrightarrow> mq_release mq = 0 \<Longrightarrow> mq_ok False mq'"
proof -
  have wf: "mq_wf mq" using ok by (simp add: mq_ok_def)
  note p = mq_pop_wf [OF wf pop] mq_pop_cap [OF wf pop]
  consider (empty) "mq_list mq = []" "m = None"
      "mq' = mq\<lparr>mq_overload_threshold := MQ_OVERLOAD, mq_in_global := 0\<rparr>"
    | (msg) ov thr where "mq_list mq \<noteq> []" "m \<noteq> None"
      "mq' = mq\<lparr>mq_head := (mq_head mq + 1) mod mq_cap mq, mq_overload := ov, mq_overload_threshold := thr\<rparr>"
    using mq_pop_empty [OF wf] mq_pop_nonempty [OF wf] pop by (cases "mq_list mq = []") auto
  then have "mq_next mq' = mq_next mq \<and> mq_release mq' = mq_release mq \<and>
    (m \<noteq> None \<longrightarrow> mq_ok active mq') \<and> (m = None \<longrightarrow> mq_release mq = 0 \<longrightarrow> mq_ok False mq')"
  proof cases
    case empty
    then show ?thesis using ok p by (auto simp: mq_ok_def)
  next
    case msg
    then show ?thesis using ok p by (auto simp: mq_ok_def)
  qed
  then show "mq_next mq' = mq_next mq" "mq_release mq' = mq_release mq"
    "m \<noteq> None \<Longrightarrow> mq_ok active mq'" "m = None \<Longrightarrow> mq_release mq = 0 \<Longrightarrow> mq_ok False mq'" by auto
qed

lemma skynet_mq_pop_SomeE:
  assumes "skynet_mq_pop q w = Some (r, m, w')"
  obtains mq mq' where "mqs w q = Some mq" "mq_pop mq = Some (r, m, mq')" "w' = mq_put q mq' w"
  using assms by (auto simp: skynet_mq_pop_def bind_eq_Some_conv)

lemma sched_inv_receive:
  assumes inv: "sched_inv xs w" and pop: "skynet_mq_pop q w = Some (0, Some m, w')"
  shows "sched_inv xs w'"
  using pop
proof (rule skynet_mq_pop_SomeE)
  fix mq mq' assume mq: "mqs w q = Some mq" and p: "mq_pop mq = Some (0, Some m, mq')"
    and w': "w' = mq_put q mq' w"
  have core: "sched_core xs w" and fl: "flags_ok (set xs \<union> held w) w"
    using inv by (auto simp: sched_inv_def)
  have ok: "mq_ok (q \<in> set xs \<union> held w) mq" using fl mq by (rule flags_okD)
  show ?thesis
    using mq_pop_ok [OF ok p] core fl mq w'
    by (auto simp: sched_inv_def intro: sched_core_put flags_ok_put)
qed

lemma sched_core_unhold:
  "sched_core xs w \<Longrightarrow> sched_core xs (w\<lparr>held := held w - {q}\<rparr>)"
  by (auto simp: sched_core_def gq_repr_def)

lemma sched_inv_sleep:
  assumes inv: "sched_inv xs w" and q: "q \<in> held w" "mqs w q = Some mq" "mq_release mq = 0"
    and pop: "skynet_mq_pop q w = Some (1, None, w')"
  shows "sched_inv xs (w'\<lparr>held := held w' - {q}\<rparr>)"
  using pop
proof (rule skynet_mq_pop_SomeE)
  fix mqa mq' assume "mqs w q = Some mqa" and "mq_pop mqa = Some (1, None, mq')"
    and w': "w' = mq_put q mq' w"
  then have p: "mq_pop mq = Some (1, None, mq')" using q by simp
  have core: "sched_core xs w" and fl: "flags_ok (set xs \<union> held w) w"
    using inv by (auto simp: sched_inv_def)
  have nin: "q \<notin> set xs" using core q by (auto simp: sched_core_def)
  have ok: "mq_ok (q \<in> set xs \<union> held w) mq" using fl q(2) by (rule flags_okD)
  have "sched_core xs w'" using core q(2) mq_pop_ok(1) [OF ok p] w' by (auto intro: sched_core_put)
  then have "sched_core xs (w'\<lparr>held := held w' - {q}\<rparr>)" by (rule sched_core_unhold)
  moreover have "flags_ok (set xs \<union> (held w - {q})) w'"
    using fl mq_pop_ok(4) [OF ok p] q(3) nin w' by (auto simp: flags_ok_def)
  ultimately show ?thesis using w' by (simp add: sched_inv_def)
qed

lemma sched_inv_publish:
  assumes inv: "sched_inv xs w" and q: "q \<in> held w"
  shows "\<exists>w'. skynet_globalmq_push q w = Some w' \<and> held w' = held w \<and>
    sched_inv (xs @ [q]) (w'\<lparr>held := held w' - {q}\<rparr>)"
proof -
  have core: "sched_core xs w" and fl: "flags_ok (set xs \<union> held w) w"
    using inv by (auto simp: sched_inv_def)
  obtain mq where "mqs w q = Some mq" "q \<notin> set xs" using core q by (rule sched_core_held)
  from sched_core_push [OF core this] obtain w' where w': "skynet_globalmq_push q w = Some w'"
    "sched_core (xs @ [q]) (w'\<lparr>held := held w - {q}\<rparr>)" "held w' = held w" "\<And>A. flags_ok A w' = flags_ok A w"
    by blast
  moreover have "set (xs @ [q]) \<union> (held w - {q}) = set xs \<union> held w" using q by auto
  ultimately show ?thesis using fl by (simp add: sched_inv_def)
qed

lemma sched_inv_acquire:
  assumes inv: "sched_inv xs w"
  shows "(xs = [] \<and> skynet_globalmq_pop w = Some (None, w)) \<or>
    (\<exists>q ys w'. xs = q # ys \<and> skynet_globalmq_pop w = Some (Some q, w') \<and> held w' = held w \<and>
       sched_inv ys (w'\<lparr>held := insert q (held w')\<rparr>))"
proof (cases xs)
  case Nil
  then show ?thesis using inv by (simp add: sched_inv_def sched_core_def globalmq_pop_empty)
next
  case (Cons q ys)
  have core: "sched_core (q # ys) w" and fl: "flags_ok (set (q # ys) \<union> held w) w"
    using inv Cons by (auto simp: sched_inv_def)
  from sched_core_pop [OF core] obtain w' where "skynet_globalmq_pop w = Some (Some q, w')"
    "sched_core ys (w'\<lparr>held := insert q (held w)\<rparr>)" "held w' = held w" "\<And>A. flags_ok A w' = flags_ok A w"
    by blast
  moreover have "set (q # ys) \<union> held w = set ys \<union> insert q (held w)" by auto
  ultimately show ?thesis using fl Cons by (simp add: sched_inv_def)
qed

lemma sched_inv_mark:
  assumes inv: "sched_inv xs w" and q: "mqs w q = Some mq" "mq_release mq = 0"
  shows "\<exists>xs' w'. skynet_mq_mark_release q w = Some w' \<and> sched_inv xs' w' \<and> held w' = held w"
proof -
  have core: "sched_core xs w" and fl: "flags_ok (set xs \<union> held w) w"
    using inv by (auto simp: sched_inv_def)
  have ok: "mq_ok (q \<in> set xs \<union> held w) mq" using fl q(1) by (rule flags_okD)
  let ?w = "mq_put q (mq\<lparr>mq_release := 1\<rparr>) w"
  have c: "sched_core xs ?w" using core q by (intro sched_core_put) auto
  have rel: "mq_ok True (mq\<lparr>mq_release := 1\<rparr>)"
    using ok by (auto simp: mq_ok_def mq_wf_def mq_len_def)
  show ?thesis
  proof (cases "mq_in_global mq = 1")
    case True
    then have "q \<in> set xs \<union> held w" using ok q by (simp add: mq_ok_def)
    then have "sched_inv xs ?w" using c fl rel by (auto simp: sched_inv_def intro: flags_ok_put)
    then show ?thesis using True q by (auto simp: skynet_mq_mark_release_def MQ_IN_GLOBAL_def)
  next
    case False
    then have nin: "q \<notin> set xs" "q \<notin> held w" using ok q by (auto simp: mq_ok_def)
    from sched_core_push [OF c, of q] nin obtain w' where w':
      "skynet_globalmq_push q ?w = Some w'" "sched_core (xs @ [q]) (w'\<lparr>held := held w - {q}\<rparr>)"
      "held w' = held w" "\<And>A. flags_ok A w' = flags_ok A ?w" by auto
    have "w'\<lparr>held := held w - {q}\<rparr> = w'" using w'(3) nin by simp
    moreover have "flags_ok (set (xs @ [q]) \<union> held w) ?w"
      using fl rel nin by (auto simp: flags_ok_def)
    ultimately have "sched_inv (xs @ [q]) w'" using w' by (simp add: sched_inv_def)
    then show ?thesis using False q w' by (auto simp: skynet_mq_mark_release_def MQ_IN_GLOBAL_def)
  qed
qed

lemma sched_inv_free:
  assumes inv: "sched_inv xs w" and q: "q \<in> held w"
    and pop: "skynet_mq_pop q w = Some (1, None, w1)" and fr: "release_mq q w1 = Some w'"
  shows "sched_inv xs (w'\<lparr>held := held w' - {q}\<rparr>)"
proof -
  obtain mq' where w1: "w1 = mq_put q mq' w" using pop by (rule skynet_mq_pop_SomeE)
  have w': "w' = w1\<lparr>mqs := (mqs w1)(q := None)\<rparr>" using fr by (auto simp: release_mq_def bind_eq_Some_conv)
  have nin: "q \<notin> set xs" using inv q by (auto simp: sched_inv_def sched_core_def)
  have "gq_repr w xs" using inv by (simp add: sched_inv_def sched_core_def)
  then have "gq_repr (w'\<lparr>held := held w' - {q}\<rparr>) xs"
    by (rule gq_repr_frame) (use w' w1 nin in \<open>auto simp: mq_put_def\<close>)
  then show ?thesis using inv w' w1
    by (auto simp: sched_inv_def sched_core_def flags_ok_def mq_put_def split: if_splits)
qed

lemma sched_inv_init: "sched_inv [] world_init"
  by (simp add: sched_inv_def sched_core_def flags_ok_def world_init_def gq_repr_init
      skynet_mq_init_def gq_repr_def)

section \<open>Living services\<close>

text \<open>The queue of a living service exists and is not marked.\<close>

definition unmarked :: "world \<Rightarrow> addr \<Rightarrow> bool" where
  "unmarked w q = (case mqs w q of None \<Rightarrow> False | Some mq \<Rightarrow> mq_release mq = 0)"

definition alive_ok :: "world \<Rightarrow> bool" where
  "alive_ok w \<longleftrightarrow> (\<forall>q \<in> alive w. unmarked w q)"

lemma alive_okE:
  assumes "alive_ok w" "q \<in> alive w"
  obtains mq where "mqs w q = Some mq" "mq_release mq = 0"
  using assms by (auto simp: alive_ok_def unmarked_def split: option.splits)

lemma alive_put [simp]: "alive (mq_put q mq w) = alive w"
  by (simp add: mq_put_def)

lemma unmarked_simps [simp]:
  "unmarked (mq_put q mq w) a = (if a = q then mq_release mq = 0 else unmarked w a)"
  "unmarked (w\<lparr>gQ := g\<rparr>) a = unmarked w a" "unmarked (w\<lparr>held := H\<rparr>) a = unmarked w a"
  "unmarked (w\<lparr>alive := A\<rparr>) a = unmarked w a" "unmarked (w\<lparr>mq_brk := b\<rparr>) a = unmarked w a"
  by (simp_all add: unmarked_def mq_put_def)

lemma unmarked_Some: "mqs w q = Some mq \<Longrightarrow> unmarked w q = (mq_release mq = 0)"
  by (simp add: unmarked_def)

lemma globalmq_push_alive:
  "skynet_globalmq_push q w = Some w' \<Longrightarrow> alive w' = alive w \<and> unmarked w' a = unmarked w a"
  by (auto simp: skynet_globalmq_push_def bind_eq_Some_conv unmarked_Some split: option.splits if_splits)

lemma globalmq_pop_alive:
  "skynet_globalmq_pop w = Some (r, w') \<Longrightarrow> alive w' = alive w \<and> unmarked w' a = unmarked w a"
  by (auto simp: skynet_globalmq_pop_def bind_eq_Some_conv unmarked_Some Let_def
      split: option.splits if_splits)

lemma mq_pop_release: "mq_pop mq = Some (r, m, mq') \<Longrightarrow> mq_release mq' = mq_release mq"
  unfolding mq_pop_def Let_def
  by (cases "mq_head mq = mq_tail mq") (clarsimp simp: bind_eq_Some_conv simp del: if_split)+

lemma mq_pop_alive:
  "skynet_mq_pop q w = Some (r, m, w') \<Longrightarrow> alive w' = alive w \<and> unmarked w' a = unmarked w a"
  by (auto elim!: skynet_mq_pop_SomeE simp: unmarked_Some mq_pop_release split: if_splits)

lemma mq_store_release: "mq_store m mq = Some mq' \<Longrightarrow> mq_release mq' = mq_release mq"
  by (auto simp: mq_store_def expand_queue_def bind_eq_Some_conv Let_def split: if_splits)

lemma mq_push_alive:
  "skynet_mq_push q m w = Some w' \<Longrightarrow> alive w' = alive w \<and> unmarked w' a = unmarked w a"
  by (auto simp: skynet_mq_push_def bind_eq_Some_conv unmarked_Some mq_store_release
      dest: globalmq_push_alive [where a = a] split: if_splits)

lemma mark_alive:
  "skynet_mq_mark_release q w = Some w' \<Longrightarrow>
     alive w' = alive w \<and> unmarked w' a = (a \<noteq> q \<and> unmarked w a)"
  by (auto simp: skynet_mq_mark_release_def bind_eq_Some_conv Let_def
      dest: globalmq_push_alive [where a = a] split: if_splits)

lemma alive_ok_step: "mq_step w w' \<Longrightarrow> alive_ok w \<Longrightarrow> alive_ok w'"
proof (induction rule: mq_step.induct)
  case (create h w q w')
  then show ?case by (auto simp: skynet_mq_create_def alive_ok_def new_mq_def)
next
  case (free q w mq w1 w')
  from free(4) have q: "alive w1 = alive w" "\<And>a. unmarked w1 a = unmarked w a"
    using mq_pop_alive by blast+
  have "q \<notin> alive w" using free(2,3,6) by (auto simp: alive_ok_def unmarked_Some)
  moreover have "w' = w1\<lparr>mqs := (mqs w1)(q := None)\<rparr>"
    using free(5) by (auto simp: release_mq_def bind_eq_Some_conv)
  ultimately show ?case using free(6) q by (auto simp: alive_ok_def unmarked_def)
qed (auto simp: alive_ok_def
      dest: globalmq_push_alive globalmq_pop_alive mq_push_alive mq_pop_alive mark_alive)

lemma sched_inv_step:
  "mq_step w w' \<Longrightarrow> sched_inv xs w \<Longrightarrow> alive_ok w \<Longrightarrow> \<exists>xs'. sched_inv xs' w'"
proof (induction rule: mq_step.induct)
  case (create h w q w')
  then show ?case by (blast intro: sched_inv_create)
next
  case (publish q w w')
  with sched_inv_publish [of xs w q] show ?case by auto
next
  case (acquire w q w')
  with sched_inv_acquire [of xs w] show ?case by auto
next
  case (send q w m w')
  then obtain mq mq' where "mqs w q = Some mq" "mq_release mq = 0" "mq_store m mq = Some mq'"
    by (auto simp: skynet_mq_push_def bind_eq_Some_conv elim: alive_okE)
  with send sched_inv_send [of xs w q mq m] show ?case by auto
next
  case (receive q w m w')
  then show ?case by (blast intro: sched_inv_receive)
next
  case (sleep q w mq w')
  then show ?case by (blast intro: sched_inv_sleep)
next
  case (mark q w w')
  then obtain mq where "mqs w q = Some mq" "mq_release mq = 0" by (auto elim: alive_okE)
  with mark sched_inv_mark [of xs w q mq] show ?case by auto
next
  case (free q w mq w1 w')
  then show ?case by (blast intro: sched_inv_free)
qed

lemma reachable_inv: "mq_reachable w \<Longrightarrow> (\<exists>xs. sched_inv xs w) \<and> alive_ok w"
proof (induction rule: mq_reachable.induct)
  case init
  then show ?case using sched_inv_init by (auto simp: alive_ok_def world_init_def skynet_mq_init_def)
next
  case (step w w')
  then show ?case using sched_inv_step alive_ok_step by blast
qed

section \<open>Freeing a queue\<close>

text \<open>Dropping the rest of a queue: the loop pops every message, hands each to the callback and
  stops at the empty ring.  The callback \<open>drop_message\<close> may change the rest of the state, but
  the service of the queue is gone, so it does not touch the queue itself.\<close>

lemma drop_loop_returns:
  assumes f: "\<And>m v. \<exists>v'. f m v = Some v' \<and> mqs v' q = mqs v q"
  shows "mqs w q = Some mq \<Longrightarrow> mq_wf mq \<Longrightarrow>
    \<exists>w' mq'. drop_loop f q w = Some w' \<and> mqs w' q = Some mq' \<and> mq_next mq' = mq_next mq"
proof (induction "length (mq_list mq)" arbitrary: w mq)
  case 0
  then show ?case
    using mq_pop_empty [of mq] length_0_conv [of "mq_list mq"]
    by (simp add: drop_loop.simps skynet_mq_pop_def del: length_0_conv length_mq_list)
next
  case (Suc n)
  have ne: "mq_list mq \<noteq> []" using Suc.hyps(2) by (metis length_0_conv nat.distinct(1))
  from mq_pop_nonempty [OF Suc.prems(2) ne] obtain ov thr where
    pop: "mq_pop mq = Some (0, Some (hd (mq_list mq)),
      mq\<lparr>mq_head := (mq_head mq + 1) mod mq_cap mq, mq_overload := ov, mq_overload_threshold := thr\<rparr>)"
    (is "_ = Some (0, _, ?mq)") by blast
  note wf = mq_pop_wf [OF Suc.prems(2) pop]
  obtain v where v: "f (hd (mq_list mq)) (mq_put q ?mq w) = Some v"
    "mqs v q = mqs (mq_put q ?mq w) q" using f by blast
  have "n = length (mq_list ?mq)" using wf(2) Suc.hyps(2) by simp
  from Suc.hyps(1) [OF this, of v] v wf(1) show ?case
    using pop Suc.prems(1) by (simp add: drop_loop.simps [of _ _ w] skynet_mq_pop_def)
qed

text \<open>\<open>skynet_mq_release\<close> on an owned queue returns in both branches, so the
  \<open>assert (q->next == NULL)\<close> of \<open>_release\<close> and of \<open>skynet_globalmq_push\<close> hold there.\<close>

lemma mq_release_returns:
  assumes inv: "sched_inv xs w" and q: "q \<in> held w"
    and f: "\<And>m v. \<exists>v'. f m v = Some v' \<and> mqs v' q = mqs v q"
  shows "\<exists>w'. skynet_mq_release f q w = Some w' \<and> (\<not> unmarked w q \<longrightarrow> mqs w' q = None)"
proof -
  obtain mq where mq: "mqs w q = Some mq" "q \<notin> set xs"
    using inv q by (auto simp: sched_inv_def elim: sched_core_held)
  have nxt: "mq_next mq = None" using inv mq by (auto simp: sched_inv_def sched_core_def)
  have wf: "mq_wf mq" using inv flags_okD [of _ w q mq] mq by (auto simp: sched_inv_def mq_ok_def)
  from drop_loop_returns [of f q, OF f mq(1) wf] nxt sched_inv_publish [OF inv q] mq(1)
  show ?thesis
    by (auto simp: skynet_mq_release_def drop_queue_def release_mq_def unmarked_Some)
qed

section \<open>Properties of the scheduling\<close>

text \<open>C2: no message is stranded.  In every state the threads can reach, the global queue is a
  well-formed list without repetition, and a service queue that holds a message (or waits to be
  freed) is either in that list or owned by exactly one side: it is never in the list while a thread
  owns it.\<close>

theorem no_stranded_message:
  assumes "mq_reachable w"
  shows "\<exists>xs. gq_repr w xs \<and> distinct xs \<and> set xs \<inter> held w = {} \<and>
     (\<forall>q mq. mqs w q = Some mq \<longrightarrow> mq_list mq \<noteq> [] \<or> mq_release mq \<noteq> 0 \<longrightarrow> q \<in> set xs \<union> held w)"
proof -
  obtain xs where inv: "sched_inv xs w" using reachable_inv [OF assms] by blast
  then have "gq_repr w xs" "set xs \<inter> held w = {}" "flags_ok (set xs \<union> held w) w"
    by (auto simp: sched_inv_def sched_core_def)
  moreover from this have "distinct xs" by (simp add: gq_repr_def)
  moreover have "q \<in> set xs \<union> held w"
    if "mqs w q = Some mq" "mq_list mq \<noteq> [] \<or> mq_release mq \<noteq> 0" for q mq
    using that flags_okD [OF \<open>flags_ok _ w\<close> that(1)] by (auto simp: mq_ok_def split: if_splits)
  ultimately show ?thesis by blast
qed

text \<open>C3: the operations of \<open>skynet_mq.c\<close> return normally, asserts included, wherever the code
  calls them.  In every reachable state: taking a queue from the global queue returns; a queue a
  thread owns can be pushed back, popped, and given to \<open>skynet_mq_release\<close>, which, when the queue
  is marked, drains the ring through any callback that returns and leaves this queue alone, passes
  the assertion of \<open>_release\<close> and frees the queue; and the queue of a living service can be marked
  (it has not been marked before: \<open>delete_context\<close> runs once per context, which is how \<open>alive\<close>
  changes) and can take a message as long as its ring has at most \<open>2 ^ 29\<close> slots (beyond, doubling
  \<open>cap\<close> overflows an \<open>int\<close>).\<close>

theorem scheduler_never_faults:
  assumes "mq_reachable w"
  shows "skynet_globalmq_pop w \<noteq> None \<and>
     (\<forall>q \<in> held w. skynet_globalmq_push q w \<noteq> None \<and> skynet_mq_pop q w \<noteq> None \<and>
        (\<forall>f. (\<forall>m v. \<exists>v'. f m v = Some v' \<and> mqs v' q = mqs v q) \<longrightarrow>
           (\<exists>w'. skynet_mq_release f q w = Some w' \<and>
              (\<forall>mq. mqs w q = Some mq \<and> mq_release mq \<noteq> 0 \<longrightarrow> mqs w' q = None)))) \<and>
     (\<forall>q \<in> alive w. skynet_mq_mark_release q w \<noteq> None \<and>
        (\<exists>mq. mqs w q = Some mq \<and> (mq_cap mq \<le> 2 ^ 29 \<longrightarrow> (\<forall>m. skynet_mq_push q m w \<noteq> None))))"
proof -
  obtain xs where inv: "sched_inv xs w" and al: "alive_ok w" using reachable_inv [OF assms] by blast
  have wf: "mq_wf mq" if "mqs w q = Some mq" for q mq
    using inv flags_okD [of _ w q mq] that by (auto simp: sched_inv_def mq_ok_def)
  have "skynet_mq_push q m w \<noteq> None"
    if q: "mqs w q = Some mq" "mq_release mq = 0" "mq_cap mq \<le> 2 ^ 29" for q mq m
  proof -
    obtain mq' where "mq_store m mq = Some mq'"
      using mq_store_returns [OF wf [OF q(1)] disjI1 [OF q(3)], of m] by blast
    from sched_inv_send [OF inv q(1,2) this] show ?thesis by auto
  qed
  then have alive: "\<forall>q \<in> alive w. skynet_mq_mark_release q w \<noteq> None \<and>
      (\<exists>mq. mqs w q = Some mq \<and> (mq_cap mq \<le> 2 ^ 29 \<longrightarrow> (\<forall>m. skynet_mq_push q m w \<noteq> None)))"
    using sched_inv_mark [OF inv] al by (metis alive_okE option.distinct(1))
  have pop: "skynet_mq_pop q w \<noteq> None" if "mqs w q = Some mq" for q mq
    using mq_pop_empty [OF wf [OF that]] mq_pop_nonempty [OF wf [OF that]] that
    by (cases "mq_list mq = []") (auto simp: skynet_mq_pop_def)
  have "skynet_mq_pop q w \<noteq> None" if "q \<in> held w" for q
    using pop inv that by (auto simp: sched_inv_def elim: sched_core_held)
  moreover have "skynet_globalmq_push q w \<noteq> None" if "q \<in> held w" for q
    using sched_inv_publish [OF inv that] by auto
  moreover have "\<exists>w'. skynet_mq_release f q w = Some w' \<and>
      (\<forall>mq. mqs w q = Some mq \<and> mq_release mq \<noteq> 0 \<longrightarrow> mqs w' q = None)"
    if "q \<in> held w" "\<forall>m v. \<exists>v'. f m v = Some v' \<and> mqs v' q = mqs v q" for q f
    using mq_release_returns [OF inv that(1), of f] that(2) by (auto simp: unmarked_Some)
  moreover have "skynet_globalmq_pop w \<noteq> None" using sched_inv_acquire [OF inv] by auto
  ultimately show ?thesis using alive by blast
qed

text \<open>A concrete run: a service queue is created and receives one message before it is published.\<close>

definition sample_message :: skynet_message where
  "sample_message = \<lparr>msg_source = 1, msg_session = 2, msg_data = None, msg_sz = 0\<rparr>"

definition sample_world :: world where
  "sample_world = \<lparr>mqs = [0 \<mapsto> (new_mq 5)\<lparr>mq_tail := 1,
       mq_queue := (replicate 64 None)[0 := Some sample_message]\<rparr>],
     mq_brk = 1, gQ = Some \<lparr>gq_head = None, gq_tail = None\<rparr>, held = {0}, alive = {0}\<rparr>"

lemma sample_world_reachable: "mq_reachable sample_world"
proof -
  let ?w1 = "\<lparr>mqs = [0 \<mapsto> new_mq 5], mq_brk = 1, gQ = Some \<lparr>gq_head = None, gq_tail = None\<rparr>, held = {0}, alive = {0}\<rparr>"
  have "mq_step world_init ?w1"
    using mq_step.create [of 5 world_init 0]
    by (simp add: skynet_mq_create_def world_init_def skynet_mq_init_def mq_put_def)
  then have r: "mq_reachable ?w1" by (rule mq_reachable.step [OF mq_reachable.init])
  have "skynet_mq_push 0 sample_message ?w1 = Some sample_world"
    by (simp add: skynet_mq_push_def mq_store_def new_mq_def sample_world_def mq_put_def
        DEFAULT_QUEUE_SIZE_def MQ_IN_GLOBAL_def cint_ok_def)
  then have "mq_step ?w1 sample_world"
    by (intro mq_step.send) simp_all
  with r show ?thesis by (rule mq_reachable.step)
qed

theorem no_stranded_message_witness:
  "\<exists>xs. gq_repr sample_world xs \<and> 0 \<in> set xs \<union> held sample_world"
proof -
  have "mqs sample_world 0 = Some ((new_mq 5)\<lparr>mq_tail := 1,
       mq_queue := (replicate 64 None)[0 := Some sample_message]\<rparr>)" (is "_ = Some ?mq")
    by (simp add: sample_world_def)
  moreover have "mq_list ?mq \<noteq> []"
    by (simp add: mq_list_def mq_len_def new_mq_def DEFAULT_QUEUE_SIZE_def)
  ultimately show ?thesis
    using no_stranded_message [OF sample_world_reachable] by blast
qed

text \<open>The same queue after its service is deleted: one message is left and the queue is marked.\<close>

definition sample_marked :: world where
  "sample_marked = (mq_put 0 ((new_mq 5)\<lparr>mq_tail := 1, mq_release := 1,
       mq_queue := (replicate 64 None)[0 := Some sample_message]\<rparr>) sample_world)\<lparr>alive := {}\<rparr>"

lemma sample_marked_reachable: "mq_reachable sample_marked"
proof -
  let ?w = "sample_marked\<lparr>alive := {0}\<rparr>"
  have "skynet_mq_mark_release 0 sample_world = Some ?w"
    by (simp add: skynet_mq_mark_release_def sample_marked_def sample_world_def new_mq_def
        MQ_IN_GLOBAL_def mq_put_def)
  moreover have "0 \<in> alive sample_world" by (simp add: sample_world_def)
  ultimately have "mq_step sample_world (?w\<lparr>alive := alive ?w - {0}\<rparr>)"
    by (intro mq_step.mark)
  then have "mq_step sample_world sample_marked" by (simp add: sample_marked_def)
  with sample_world_reachable show ?thesis by (rule mq_reachable.step)
qed

theorem scheduler_never_faults_witness:
  "skynet_mq_mark_release 0 sample_world \<noteq> None \<and>
   skynet_mq_push 0 sample_message sample_world \<noteq> None \<and>
   (\<exists>w'. skynet_mq_release (\<lambda>m. Some) 0 sample_marked = Some w' \<and> mqs w' 0 = None)"
proof -
  have "mqs sample_world 0 = Some ((new_mq 5)\<lparr>mq_tail := 1,
       mq_queue := (replicate 64 None)[0 := Some sample_message]\<rparr>)" "0 \<in> alive sample_world"
    by (simp_all add: sample_world_def)
  then have "skynet_mq_mark_release 0 sample_world \<noteq> None \<and>
      skynet_mq_push 0 sample_message sample_world \<noteq> None"
    using scheduler_never_faults [OF sample_world_reachable]
    by (auto simp: new_mq_def DEFAULT_QUEUE_SIZE_def)
  moreover have "0 \<in> held sample_marked" "\<exists>mq. mqs sample_marked 0 = Some mq \<and> mq_release mq \<noteq> 0"
    by (simp_all add: sample_marked_def sample_world_def)
  then have "\<exists>w'. skynet_mq_release (\<lambda>m. Some) 0 sample_marked = Some w' \<and> mqs w' 0 = None"
    using scheduler_never_faults [OF sample_marked_reachable] by fast
  ultimately show ?thesis by blast
qed

end
