(* ===== verification/Skynet_Handle.thy ===== *)
theory Skynet_Handle
  imports Skynet_Prelude "HOL-Library.List_Lexorder"
begin

text \<open>
  The handle storage of \<open>skynet-src/skynet_handle.c\<close>: an open hash table from 32 bit handles to
  service contexts, and a sorted array of local names.  The global \<open>H\<close> is a
  \<open>handle_storage\<close> passed around; each function is the body of its read or write lock.
  Contexts are addresses; \<open>handle_of\<close> stands for \<open>skynet_context_handle\<close>, a read of the
  context's \<open>handle\<close> field that faults (\<open>None\<close>) when the context has been freed; the service
  layer passes the function in.
\<close>

section \<open>Data\<close>

definition HANDLE_MASK :: u32 where "HANDLE_MASK = 0xffffff"
definition HANDLE_REMOTE_SHIFT :: nat where "HANDLE_REMOTE_SHIFT = 24"
definition DEFAULT_SLOT_SIZE :: int where "DEFAULT_SLOT_SIZE = 4"
definition MAX_SLOT_SIZE :: int where "MAX_SLOT_SIZE = 0x40000000"

record handle_name =
  hn_name :: cstring
  hn_handle :: u32

record handle_storage =
  hs_harbor :: u32
  hs_handle_index :: u32
  hs_slot_size :: int
  hs_slot :: "addr option list"
  hs_name_cap :: int
  hs_name_count :: int
  hs_name :: "handle_name option list"

section \<open>Operations\<close>

text \<open>The slot a handle hashes to, \<open>handle & (slot_size - 1)\<close>.\<close>

definition slot_hash :: "u32 \<Rightarrow> int \<Rightarrow> int" where
  "slot_hash handle slot_size = uint (handle AND of_int (slot_size - 1))"

text \<open>The inner scan of \<open>skynet_handle_register\<close>: the first candidate whose slot is free.\<close>

fun register_scan :: "handle_storage \<Rightarrow> nat list \<Rightarrow> u32 option option" where
  "register_scan s [] = Some None"
| "register_scan s (i # is) = do {
     let handle = (of_nat i + hs_handle_index s) AND HANDLE_MASK;
     slot \<leftarrow> aget (hs_slot s) (slot_hash handle (hs_slot_size s));
     (if slot = None then Some (Some handle) else register_scan s is) }"

text \<open>The copy into the table of twice the size; every slot is occupied when it runs.\<close>

fun rehash :: "(addr \<Rightarrow> u32 option) \<Rightarrow> int \<Rightarrow> addr option list \<Rightarrow> addr option list \<Rightarrow> addr option list option" where
  "rehash handle_of size2 [] new_slot = Some new_slot"
| "rehash handle_of size2 (c # cs) new_slot = do {
     ctx \<leftarrow> c;
     handle \<leftarrow> handle_of ctx;
     let hash = slot_hash handle size2;
     old \<leftarrow> aget new_slot hash;
     require (old = None);
     new_slot' \<leftarrow> aset new_slot hash (Some ctx);
     rehash handle_of size2 cs new_slot' }"

partial_function (option) skynet_handle_register ::
  "(addr \<Rightarrow> u32 option) \<Rightarrow> addr \<Rightarrow> handle_storage \<Rightarrow> (u32 \<times> handle_storage) option" where
  "skynet_handle_register handle_of ctx s = do {
     found \<leftarrow> register_scan s [0..<nat (hs_slot_size s)];
     (case found of
        Some handle \<Rightarrow> do {
          slot \<leftarrow> aset (hs_slot s) (slot_hash handle (hs_slot_size s)) (Some ctx);
          Some (handle OR hs_harbor s, s\<lparr>hs_slot := slot, hs_handle_index := handle + 1\<rparr>) }
      | None \<Rightarrow> do {
          require (hs_slot_size s * 2 - 1 \<le> uint HANDLE_MASK);
          new_slot \<leftarrow> rehash handle_of (hs_slot_size s * 2) (hs_slot s)
                       (replicate (nat (hs_slot_size s * 2)) None);
          skynet_handle_register handle_of ctx
            (s\<lparr>hs_slot := new_slot, hs_slot_size := hs_slot_size s * 2\<rparr>) }) }"

text \<open>\<open>skynet_handle_grab\<close> before it takes its reference: the context found, or \<open>None\<close> for
  \<open>NULL\<close>.\<close>

definition handle_find :: "(addr \<Rightarrow> u32 option) \<Rightarrow> u32 \<Rightarrow> handle_storage \<Rightarrow> addr option option" where
  "handle_find handle_of handle s = do {
     slot \<leftarrow> aget (hs_slot s) (slot_hash handle (hs_slot_size s));
     (case slot of
        None \<Rightarrow> Some None
      | Some ctx \<Rightarrow> do {
          h \<leftarrow> handle_of ctx;
          Some (if h = handle then Some ctx else None) }) }"

text \<open>The in-place removal of the names of a retired handle.\<close>

function name_compact :: "u32 \<Rightarrow> handle_name option list \<Rightarrow> int \<Rightarrow> int \<Rightarrow> int \<Rightarrow> (handle_name option list \<times> int) option" where
  "name_compact handle name i j n =
     (if i < n then do {
        e \<leftarrow> aget name i;
        entry \<leftarrow> e;
        (if hn_handle entry = handle then name_compact handle name (i + 1) j n
         else do {
           name' \<leftarrow> (if i \<noteq> j then aset name j e else Some name);
           name_compact handle name' (i + 1) (j + 1) n }) }
      else Some (name, j))"
  by pat_completeness auto
termination
  by (relation "measure (\<lambda>(_, _, i, _, n). nat (n - i))") auto

declare name_compact.simps [simp del]

text \<open>\<open>skynet_handle_retire\<close> under the lock: the return code, and the context the caller must
  release afterwards.\<close>

definition handle_retire ::
  "(addr \<Rightarrow> u32 option) \<Rightarrow> u32 \<Rightarrow> handle_storage \<Rightarrow> (int \<times> addr option \<times> handle_storage) option" where
  "handle_retire handle_of handle s = do {
     let hash = slot_hash handle (hs_slot_size s);
     found \<leftarrow> handle_find handle_of handle s;
     (case found of
        None \<Rightarrow> Some (0, None, s)
      | Some ctx \<Rightarrow> do {
          slot \<leftarrow> aset (hs_slot s) hash None;
          (name, count) \<leftarrow> name_compact handle (hs_name s) 0 0 (hs_name_count s);
          Some (1, Some ctx, s\<lparr>hs_slot := slot, hs_name := name, hs_name_count := count\<rparr>) }) }"

text \<open>The binary search that \<open>skynet_handle_findname\<close> and \<open>_insert_name\<close> share: the handle
  of the name (\<open>Inr\<close>), or the position where it would be inserted (\<open>Inl\<close>).\<close>

function name_search :: "handle_name option list \<Rightarrow> cstring \<Rightarrow> int \<Rightarrow> int \<Rightarrow> (int + u32) option" where
  "name_search arr name begin0 end0 =
     (if begin0 \<le> end0 then do {
        sum \<leftarrow> cint (begin0 + end0);
        let mid = sum div 2;
        e \<leftarrow> aget arr mid;
        n \<leftarrow> e;
        let c = strcmp (hn_name n) name;
        (if c = 0 then Some (Inr (hn_handle n))
         else if c < 0 then name_search arr name (mid + 1) end0
         else name_search arr name begin0 (mid - 1)) }
      else Some (Inl begin0))"
  by pat_completeness auto
termination
  by (relation "measure (\<lambda>(_, _, b, e). nat (e + 1 - b))") (auto simp: cint_Some)

declare name_search.simps [simp del]

definition skynet_handle_findname :: "cstring \<Rightarrow> handle_storage \<Rightarrow> u32 option" where
  "skynet_handle_findname name s = do {
     r \<leftarrow> name_search (hs_name s) name 0 (hs_name_count s - 1);
     Some (case r of Inl _ \<Rightarrow> 0 | Inr handle \<Rightarrow> handle) }"

text \<open>\<open>for (i = count; i > before; i--) name[i] = name[i-1]\<close>\<close>

function shift_up :: "'a list \<Rightarrow> int \<Rightarrow> int \<Rightarrow> 'a list option" where
  "shift_up arr i before =
     (if i > before then do {
        v \<leftarrow> aget arr (i - 1);
        arr' \<leftarrow> aset arr i v;
        shift_up arr' (i - 1) before }
      else Some arr)"
  by pat_completeness auto
termination
  by (relation "measure (\<lambda>(_, i, before). nat (i - before))") auto

declare shift_up.simps [simp del]

definition insert_name_before ::
  "handle_storage \<Rightarrow> cstring \<Rightarrow> u32 \<Rightarrow> int \<Rightarrow> handle_storage option" where
  "insert_name_before s name handle before = do {
     s1 \<leftarrow> (if hs_name_count s \<ge> hs_name_cap s then do {
              cap2 \<leftarrow> cint (hs_name_cap s * 2);
              require (cap2 \<le> MAX_SLOT_SIZE);
              n1 \<leftarrow> copy_range (replicate (nat cap2) None) 0 (hs_name s) 0 (nat before);
              n2 \<leftarrow> copy_range n1 (before + 1) (hs_name s) before (nat (hs_name_count s - before));
              Some (s\<lparr>hs_name_cap := cap2, hs_name := n2\<rparr>) }
            else do {
              arr \<leftarrow> shift_up (hs_name s) (hs_name_count s) before;
              Some (s\<lparr>hs_name := arr\<rparr>) });
     arr \<leftarrow> aset (hs_name s1) before (Some \<lparr>hn_name = name, hn_handle = handle\<rparr>);
     Some (s1\<lparr>hs_name := arr, hs_name_count := hs_name_count s1 + 1\<rparr>) }"

definition insert_name ::
  "handle_storage \<Rightarrow> cstring \<Rightarrow> u32 \<Rightarrow> (cstring option \<times> handle_storage) option" where
  "insert_name s name handle = do {
     r \<leftarrow> name_search (hs_name s) name 0 (hs_name_count s - 1);
     (case r of
        Inr _ \<Rightarrow> Some (None, s)
      | Inl before \<Rightarrow> do {
          s' \<leftarrow> insert_name_before s name handle before;
          Some (Some name, s') }) }"

definition skynet_handle_namehandle ::
  "u32 \<Rightarrow> cstring \<Rightarrow> handle_storage \<Rightarrow> (cstring option \<times> handle_storage) option" where
  "skynet_handle_namehandle handle name s = insert_name s name handle"

definition skynet_handle_init :: "int \<Rightarrow> handle_storage" where
  "skynet_handle_init harbor =
     \<lparr>hs_harbor = push_bit HANDLE_REMOTE_SHIFT (of_int harbor AND 0xff),
      hs_handle_index = 1,
      hs_slot_size = DEFAULT_SLOT_SIZE,
      hs_slot = replicate (nat DEFAULT_SLOT_SIZE) None,
      hs_name_cap = 2, hs_name_count = 0,
      hs_name = replicate 2 None\<rparr>"

section \<open>The sorted array of names\<close>

lemma strcmp_less: "strcmp s t < 0 \<longleftrightarrow> s < t"
  by (induction s t rule: strcmp.induct) (auto simp: Cons_less_Cons)

lemma strcmp_greater: "strcmp s t > 0 \<longleftrightarrow> t < s"
  using strcmp_less [of t s] strcmp_antisym [of t s] by simp

definition name_list :: "handle_storage \<Rightarrow> handle_name list" where
  "name_list s = map the (take (nat (hs_name_count s)) (hs_name s))"

definition names_wf :: "handle_storage \<Rightarrow> bool" where
  "names_wf s \<longleftrightarrow> 0 < hs_name_cap s \<and> hs_name_cap s \<le> MAX_SLOT_SIZE \<and>
     int (length (hs_name s)) = hs_name_cap s \<and>
     0 \<le> hs_name_count s \<and> hs_name_count s \<le> hs_name_cap s \<and>
     take (nat (hs_name_count s)) (hs_name s) = map Some (name_list s) \<and>
     sorted_wrt (<) (map hn_name (name_list s))"

definition name_map :: "handle_name list \<Rightarrow> cstring \<Rightarrow> u32 option" where
  "name_map xs = map_of (map (\<lambda>n. (hn_name n, hn_handle n)) xs)"

lemma length_name_list: "names_wf s \<Longrightarrow> int (length (name_list s)) = hs_name_count s"
  by (auto simp: name_list_def names_wf_def)

lemma name_list_nth:
  assumes "names_wf s" "i < length (name_list s)"
  shows "hs_name s ! i = Some (name_list s ! i)"
proof -
  have "hs_name s ! i = take (nat (hs_name_count s)) (hs_name s) ! i"
    using assms by (simp add: name_list_def)
  also have "\<dots> = Some (name_list s ! i)" using assms by (simp add: names_wf_def)
  finally show ?thesis .
qed

text \<open>The search keeps the key above everything to the left of \<open>b\<close> and below everything to the
  right of \<open>e\<close>.\<close>

definition search_range :: "handle_name list \<Rightarrow> cstring \<Rightarrow> int \<Rightarrow> int \<Rightarrow> bool" where
  "search_range xs name b e \<longleftrightarrow> 0 \<le> b \<and> b \<le> e + 1 \<and> e < int (length xs) \<and>
     (\<forall>i < length xs. (int i < b \<longrightarrow> hn_name (xs ! i) < name) \<and> (e < int i \<longrightarrow> name < hn_name (xs ! i)))"

lemma search_range_left:
  assumes r: "search_range xs name b e" "b \<le> m" "m \<le> e"
    and s: "sorted_wrt (<) (map hn_name xs)" and lt: "hn_name (xs ! nat m) < name"
  shows "search_range xs name (m + 1) e"
proof -
  have m: "nat m < length xs" "0 \<le> m" using r by (auto simp: search_range_def)
  have "hn_name (xs ! i) < name" if "int i < m + 1" for i
  proof (cases "i = nat m")
    case False
    then have "i < nat m" using that by simp
    with s m have "hn_name (xs ! i) < hn_name (xs ! nat m)"
      by (simp add: sorted_wrt_iff_nth_less)
    with lt show ?thesis by simp
  qed (use lt in simp)
  with r m show ?thesis by (auto simp: search_range_def)
qed

lemma search_range_right:
  assumes r: "search_range xs name b e" "b \<le> m" "m \<le> e"
    and s: "sorted_wrt (<) (map hn_name xs)" and lt: "name < hn_name (xs ! nat m)"
  shows "search_range xs name b (m - 1)"
proof -
  have m: "nat m < length xs" "0 \<le> m" using r by (auto simp: search_range_def)
  have "name < hn_name (xs ! i)" if "m - 1 < int i" "i < length xs" for i
  proof (cases "i = nat m")
    case False
    then have "nat m < i" using that by simp
    with s that(2) have "hn_name (xs ! nat m) < hn_name (xs ! i)"
      by (simp add: sorted_wrt_iff_nth_less)
    with lt show ?thesis by simp
  qed (use lt in simp)
  with r m show ?thesis by (auto simp: search_range_def)
qed

lemma name_search_correct:
  assumes arr: "length xs \<le> length arr" "\<And>i. i < length xs \<Longrightarrow> arr ! i = Some (xs ! i)"
    and s: "sorted_wrt (<) (map hn_name xs)" and len: "length xs \<le> 2 ^ 30"
    and r: "search_range xs name b e"
  shows "(\<exists>i < length xs. hn_name (xs ! i) = name \<and> name_search arr name b e = Some (Inr (hn_handle (xs ! i)))) \<or>
     (\<exists>p. name_search arr name b e = Some (Inl p) \<and> search_range xs name p (p - 1))"
  using r
proof (induction "nat (e + 1 - b)" arbitrary: b e rule: less_induct)
  case less
  show ?case
  proof (cases "b \<le> e")
    case False
    then have "b = e + 1" using less.prems by (auto simp: search_range_def)
    then show ?thesis using False less.prems by (subst (1 2) name_search.simps) simp
  next
    case True
    let ?m = "(b + e) div 2"
    have bnd: "0 \<le> b" "e < int (length xs)" using less.prems by (auto simp: search_range_def)
    then have m: "b \<le> ?m" "?m \<le> e" "0 \<le> ?m" "nat ?m < length xs" using True by auto
    have len': "int (length xs) \<le> 2 ^ 30" using len by simp
    have "cint_ok (b + e)" using bnd True len' by (intro cint_okI) auto
    moreover have "aget arr ?m = Some (Some (xs ! nat ?m))" using m arr by (subst aget_in_range) auto
    ultimately have eq: "name_search arr name b e =
       (if hn_name (xs ! nat ?m) = name then Some (Inr (hn_handle (xs ! nat ?m)))
        else if hn_name (xs ! nat ?m) < name then name_search arr name (?m + 1) e
        else name_search arr name b (?m - 1))"
      using True by (subst name_search.simps) (simp add: strcmp_less)
    consider "hn_name (xs ! nat ?m) = name" | "hn_name (xs ! nat ?m) < name" | "name < hn_name (xs ! nat ?m)"
      by (rule linorder_cases)
    then show ?thesis
    proof cases
      case 1
      then show ?thesis using eq m(4) by auto
    next
      case 2
      with less.hyps [of e "?m + 1"] search_range_left [OF less.prems m(1,2) s] m show ?thesis
        by (simp add: eq less_imp_neq)
    next
      case 3
      then have "name_search arr name b e = name_search arr name b (?m - 1)"
        by (simp add: eq less_imp_neq [symmetric] less_not_sym)
      with less.hyps [of "?m - 1" b] search_range_right [OF less.prems m(1,2) s 3] m show ?thesis
        by simp
    qed
  qed
qed

lemma distinct_names: "sorted_wrt (<) (map hn_name xs) \<Longrightarrow> distinct (map hn_name xs)" for xs :: "handle_name list"
  by (simp add: strict_sorted_iff)

lemma name_map_nth:
  assumes "sorted_wrt (<) (map hn_name xs)" "i < length xs"
  shows "name_map xs (hn_name (xs ! i)) = Some (hn_handle (xs ! i))"
proof -
  have "distinct (map fst (map (\<lambda>n. (hn_name n, hn_handle n)) xs))"
    using distinct_names [OF assms(1)] by (simp add: comp_def)
  then show ?thesis unfolding name_map_def
    by (rule map_of_is_SomeI) (use assms(2) in auto)
qed

lemma name_map_None: "name_map xs name = None \<longleftrightarrow> name \<notin> hn_name ` set xs"
  by (force simp: name_map_def map_of_eq_None_iff)

lemma search_range_absent:
  "search_range xs name p (p - 1) \<Longrightarrow> name_map xs name = None"
  unfolding name_map_None search_range_def
  by (metis image_iff in_set_conv_nth less_irrefl linorder_less_linear of_nat_0_le_iff zle_diff1_eq zless_imp_add1_zle add_le_cancel_right linorder_not_less)

lemma search_names:
  assumes "names_wf s"
  shows "(\<exists>h. name_map (name_list s) name = Some h \<and>
        name_search (hs_name s) name 0 (hs_name_count s - 1) = Some (Inr h)) \<or>
     (\<exists>p. name_map (name_list s) name = None \<and> search_range (name_list s) name p (p - 1) \<and>
        name_search (hs_name s) name 0 (hs_name_count s - 1) = Some (Inl p))"
proof -
  let ?xs = "name_list s"
  have n: "int (length ?xs) = hs_name_count s" using assms by (rule length_name_list)
  have s: "sorted_wrt (<) (map hn_name ?xs)" using assms by (simp add: names_wf_def)
  have "search_range ?xs name 0 (hs_name_count s - 1)" using n by (auto simp: search_range_def)
  moreover have "length ?xs \<le> length (hs_name s)" "length ?xs \<le> 2 ^ 30"
    using assms n by (auto simp: names_wf_def MAX_SLOT_SIZE_def name_list_def)
  ultimately show ?thesis
    using name_search_correct [of ?xs "hs_name s" name 0 "hs_name_count s - 1"]
      name_list_nth [OF assms] s name_map_nth [OF s] search_range_absent by metis
qed

lemma findname_map:
  "names_wf s \<Longrightarrow>
   skynet_handle_findname name s = Some (case name_map (name_list s) name of None \<Rightarrow> 0 | Some h \<Rightarrow> h)"
  using search_names [of s name] by (auto simp: skynet_handle_findname_def)

text \<open>The two ways to open a gap at \<open>before\<close>.\<close>

lemma shift_up_eq:
  assumes "before \<le> n" "n < length arr"
  shows "shift_up arr (int n) (int before) =
    Some (take before arr @ arr ! before # drop before (take n arr) @ drop (Suc n) arr)"
  using assms
proof (induction "n - before" arbitrary: arr n)
  case 0
  then have "n = before" by simp
  then show ?case using 0 by (subst shift_up.simps) (simp add: id_take_nth_drop [symmetric])
next
  case (Suc k)
  then obtain m where m: "n = Suc m" "before \<le> m" "k = m - before" by (cases n) auto
  let ?arr = "arr[n := arr ! m]"
  have "shift_up arr (int n) (int before) = shift_up ?arr (int m) (int before)"
    using Suc.prems m by (subst shift_up.simps) (simp add: nat_add_distrib)
  also have "\<dots> = Some (take before ?arr @ ?arr ! before # drop before (take m ?arr) @ drop (Suc m) ?arr)"
    using Suc.hyps(1) [of m ?arr] m Suc.prems by simp
  also have "drop (Suc m) ?arr = arr ! m # drop (Suc n) arr"
    using m Suc.prems by (simp add: Cons_nth_drop_Suc [symmetric] drop_update_swap)
  also have "take before ?arr @ ?arr ! before # drop before (take m ?arr) @ arr ! m # drop (Suc n) arr =
      take before arr @ arr ! before # drop before (take n arr) @ drop (Suc n) arr"
    using m Suc.prems by (simp add: take_Suc_conv_app_nth)
  finally show ?case .
qed

lemma grow_copy:
  assumes "p \<le> n" "n \<le> length src" "Suc n \<le> c"
  shows "copy_range (replicate c x) 0 src 0 p = Some (take p src @ replicate (c - p) x)"
    and "copy_range (take p src @ replicate (c - p) x) (int p + 1) src (int p) (n - p) =
      Some (take p src @ x # drop p (take n src) @ replicate (c - Suc n) x)"
proof -
  show "copy_range (replicate c x) 0 src 0 p = Some (take p src @ replicate (c - p) x)"
    using copy_range_eq [of 0 p "replicate c x" 0 src] assms by simp
  let ?dst = "take p src @ replicate (c - p) x"
  have "replicate (c - p) x = x # replicate (c - Suc p) x"
    using assms by (cases "c - p") (auto simp: Suc_diff_Suc)
  then have "take (Suc p) ?dst = take p src @ [x]" using assms by simp
  moreover have "drop (Suc n) ?dst = replicate (c - Suc n) x" using assms by simp
  moreover have "copy_range ?dst (int (Suc p)) src (int p) (n - p) =
      Some (take (Suc p) ?dst @ take (n - p) (drop p src) @ drop (Suc p + (n - p)) ?dst)"
    using assms by (intro copy_range_eq) auto
  ultimately show "copy_range ?dst (int p + 1) src (int p) (n - p) =
      Some (take p src @ x # drop p (take n src) @ replicate (c - Suc n) x)"
    using assms by (simp add: drop_take add.commute)
qed

lemma gap_names:
  assumes "take n arr = map Some xs" "length xs = n" "before \<le> n" "n \<le> length arr"
  shows "take before arr = map Some (take before xs)"
    and "drop before (take n arr) = map Some (drop before xs)"
proof -
  have "take before arr = take before (take n arr)" using assms(3) by (simp add: min_def)
  then show "take before arr = map Some (take before xs)" using assms(1) by (simp add: take_map)
  show "drop before (take n arr) = map Some (drop before xs)" using assms(1) by (simp add: drop_map)
qed

lemma sorted_insert_at:
  assumes s: "sorted_wrt (<) (map hn_name xs)" and p: "search_range xs (hn_name new) (int p) (int p - 1)"
  shows "sorted_wrt (<) (map hn_name (take p xs @ new # drop p xs))"
proof -
  have l: "hn_name x < hn_name new" if "x \<in> set (take p xs)" for x
    using that p by (auto simp: search_range_def in_set_conv_nth)
  have r: "hn_name new < hn_name x" if "x \<in> set (drop p xs)" for x
    using that p by (force simp: search_range_def in_set_conv_nth)
  have "sorted_wrt (<) (map hn_name (take p xs))" "sorted_wrt (<) (map hn_name (drop p xs))"
    using sorted_wrt_take [OF s, of p] sorted_wrt_drop [OF s, of p] by (simp_all add: take_map drop_map)
  then show ?thesis using l r by (auto simp: sorted_wrt_append intro: less_trans)
qed

lemma names_wfI:
  assumes "0 < hs_name_cap s" "hs_name_cap s \<le> MAX_SLOT_SIZE" "hs_name_count s = int (length ys)"
    and "hs_name s = map Some ys @ rest" "int (length (hs_name s)) = hs_name_cap s"
    and "sorted_wrt (<) (map hn_name ys)"
  shows "names_wf s \<and> name_list s = ys"
proof -
  have t: "take (nat (hs_name_count s)) (hs_name s) = map Some ys"
    unfolding assms(3,4) by simp
  then have "name_list s = ys" by (simp add: name_list_def comp_def)
  moreover have "hs_name_count s \<le> hs_name_cap s"
    using assms(3,4,5) by simp
  ultimately show ?thesis using assms t by (simp add: names_wf_def)
qed

lemma names_wfD:
  assumes "names_wf s"
  shows "hs_name_count s = int (length (name_list s))"
    and "take (length (name_list s)) (hs_name s) = map Some (name_list s)"
    and "length (name_list s) \<le> length (hs_name s)"
    and "int (length (hs_name s)) = hs_name_cap s" and "0 < hs_name_cap s"
    and "hs_name_cap s \<le> MAX_SLOT_SIZE" and "sorted_wrt (<) (map hn_name (name_list s))"
proof -
  have n: "hs_name_count s = int (length (name_list s))" using length_name_list [OF assms] by simp
  show "hs_name_count s = int (length (name_list s))" by (rule n)
  show "take (length (name_list s)) (hs_name s) = map Some (name_list s)"
    using assms unfolding names_wf_def n by simp
  show "length (name_list s) \<le> length (hs_name s)"
    using assms unfolding names_wf_def n by simp
qed (use assms in \<open>simp_all add: names_wf_def\<close>)

text \<open>The new array after an insertion at \<open>p\<close>, in the growing and in the shifting branch.\<close>

lemma insert_name_grow:
  assumes wf: "names_wf s" and p: "p \<le> length (name_list s)"
    and full: "hs_name_count s \<ge> hs_name_cap s" and cap: "hs_name_cap s \<le> 2 ^ 29"
  shows "insert_name_before s name handle (int p) =
    Some (s\<lparr>hs_name_cap := hs_name_cap s * 2, hs_name_count := hs_name_count s + 1,
      hs_name := map Some (take p (name_list s) @ \<lparr>hn_name = name, hn_handle = handle\<rparr> # drop p (name_list s)) @
        replicate (nat (hs_name_cap s * 2) - Suc (length (name_list s))) None\<rparr>)"
proof -
  let ?n = "length (name_list s)" and ?c2 = "nat (hs_name_cap s * 2)"
  let ?new = "\<lparr>hn_name = name, hn_handle = handle\<rparr>"
  note d = names_wfD [OF wf]
  note gap = gap_names [OF d(2) refl p d(3)]
  have n: "?n = length (hs_name s)" using full d by simp
  have c2: "Suc ?n \<le> ?c2" using n d(4,5) by linarith
  have c1: "cint_ok (hs_name_cap s * 2)" using cap d(5) by (intro cint_okI) auto
  note cp = grow_copy [OF p d(3) c2, where x = None]
  have nn: "nat (hs_name_count s - int p) = ?n - p" using d(1) p by simp
  have mx: "hs_name_cap s * 2 \<le> MAX_SLOT_SIZE" using cap by (simp add: MAX_SLOT_SIZE_def)
  have st: "aset (take p (hs_name s) @ None # drop p (take ?n (hs_name s)) @ replicate (?c2 - Suc ?n) None)
      (int p) (Some ?new) =
    Some (take p (hs_name s) @ Some ?new # drop p (take ?n (hs_name s)) @ replicate (?c2 - Suc ?n) None)"
    using p n by (simp add: aset_def list_update_append)
  have "insert_name_before s name handle (int p) =
      Some (s\<lparr>hs_name_cap := hs_name_cap s * 2, hs_name_count := hs_name_count s + 1,
        hs_name := take p (hs_name s) @ Some ?new # drop p (take ?n (hs_name s)) @
          replicate (?c2 - Suc ?n) None\<rparr>)"
    unfolding insert_name_before_def
    by (simp only: full if_True cint_in_range [OF c1] Option.bind.bind_lunit mx require_simps
        nat_int cp nn handle_storage.simps) (simp add: st)
  then show ?thesis using gap by simp
qed

lemma insert_name_shift:
  assumes wf: "names_wf s" and p: "p \<le> length (name_list s)"
    and room: "\<not> hs_name_count s \<ge> hs_name_cap s"
  shows "insert_name_before s name handle (int p) =
    Some (s\<lparr>hs_name_count := hs_name_count s + 1,
      hs_name := map Some (take p (name_list s) @ \<lparr>hn_name = name, hn_handle = handle\<rparr> # drop p (name_list s)) @
        drop (Suc (length (name_list s))) (hs_name s)\<rparr>)"
proof -
  note d = names_wfD [OF wf]
  have lt: "length (name_list s) < length (hs_name s)" using room d by simp
  show ?thesis
    using shift_up_eq [OF p lt] gap_names [OF d(2) refl p d(3)] room p d(1)
    by (simp add: insert_name_before_def list_update_append)
qed

lemma insert_name_before_ok:
  assumes wf: "names_wf s" and p: "search_range (name_list s) name (int p) (int p - 1)"
    and cap: "hs_name_cap s \<le> 2 ^ 29"
  shows "\<exists>s'. insert_name_before s name handle (int p) = Some s' \<and> names_wf s' \<and>
     name_list s' = take p (name_list s) @ \<lparr>hn_name = name, hn_handle = handle\<rparr> # drop p (name_list s) \<and>
     hs_slot s' = hs_slot s \<and> hs_slot_size s' = hs_slot_size s \<and> hs_harbor s' = hs_harbor s \<and>
     hs_handle_index s' = hs_handle_index s"
proof -
  let ?xs = "name_list s" and ?new = "\<lparr>hn_name = name, hn_handle = handle\<rparr>"
  let ?ys = "take p ?xs @ ?new # drop p ?xs"
  note d = names_wfD [OF wf]
  have pb: "p \<le> length ?xs" using p by (auto simp: search_range_def)
  have sorted: "sorted_wrt (<) (map hn_name ?ys)"
    using d(7) p by (intro sorted_insert_at) simp_all
  show ?thesis
  proof (cases "hs_name_count s \<ge> hs_name_cap s")
    case True
    let ?s = "s\<lparr>hs_name_cap := hs_name_cap s * 2, hs_name_count := hs_name_count s + 1,
      hs_name := map Some ?ys @ replicate (nat (hs_name_cap s * 2) - Suc (length ?xs)) None\<rparr>"
    have "Suc (length ?xs) \<le> nat (hs_name_cap s * 2)" using True d(1,3,4,5) by linarith
    then have "names_wf ?s \<and> name_list ?s = ?ys"
      using d(1,5) cap pb sorted by (intro names_wfI) (simp_all add: MAX_SLOT_SIZE_def)
    then show ?thesis using insert_name_grow [OF wf pb True cap, of name handle] by auto
  next
    case False
    let ?s = "s\<lparr>hs_name_count := hs_name_count s + 1,
      hs_name := map Some ?ys @ drop (Suc (length ?xs)) (hs_name s)\<rparr>"
    have "names_wf ?s \<and> name_list ?s = ?ys"
      using d(1,4,5,6) False pb sorted by (intro names_wfI) simp_all
    then show ?thesis using insert_name_shift [OF wf pb False, of name handle] by auto
  qed
qed

lemma name_map_append:
  "name_map (xs @ ys) x = (case name_map xs x of None \<Rightarrow> name_map ys x | Some h \<Rightarrow> Some h)"
  by (simp add: name_map_def map_add_def split: option.splits)

lemma name_map_Cons: "name_map (n # xs) x = (if x = hn_name n then Some (hn_handle n) else name_map xs x)"
  by (simp add: name_map_def)

lemma name_map_insert:
  assumes "search_range xs (hn_name new) (int p) (int p - 1)"
  shows "name_map (take p xs @ new # drop p xs) = (name_map xs)(hn_name new \<mapsto> hn_handle new)"
proof
  fix x
  have absent: "name_map (take p xs) (hn_name new) = None"
    using search_range_absent [OF assms] by (auto simp: name_map_None dest: in_set_takeD)
  have "name_map xs x = name_map (take p xs @ drop p xs) x" by simp
  then show "name_map (take p xs @ new # drop p xs) x = ((name_map xs)(hn_name new \<mapsto> hn_handle new)) x"
    using absent by (auto simp: name_map_append name_map_Cons split: option.splits simp del: append_take_drop_id)
qed

text \<open>Everything but the names is left alone by the name operations.\<close>

definition same_slots :: "handle_storage \<Rightarrow> handle_storage \<Rightarrow> bool" where
  "same_slots s s' \<longleftrightarrow> hs_slot s' = hs_slot s \<and> hs_slot_size s' = hs_slot_size s \<and>
     hs_harbor s' = hs_harbor s \<and> hs_handle_index s' = hs_handle_index s"

lemma namehandle_ok:
  assumes wf: "names_wf s" and cap: "hs_name_cap s \<le> 2 ^ 29"
  shows "\<exists>s'. skynet_handle_namehandle handle name s =
       Some (if name_map (name_list s) name = None then Some name else None, s') \<and>
     names_wf s' \<and> same_slots s s' \<and>
     name_map (name_list s') = (if name_map (name_list s) name = None
       then (name_map (name_list s))(name \<mapsto> handle) else name_map (name_list s))"
  using search_names [OF wf, of name]
proof (elim disjE exE conjE)
  fix h assume "name_map (name_list s) name = Some h"
    "name_search (hs_name s) name 0 (hs_name_count s - 1) = Some (Inr h)"
  then show ?thesis using wf by (simp add: skynet_handle_namehandle_def insert_name_def same_slots_def)
next
  fix p assume none: "name_map (name_list s) name = None"
    and r: "search_range (name_list s) name p (p - 1)"
    and srch: "name_search (hs_name s) name 0 (hs_name_count s - 1) = Some (Inl p)"
  have p: "int (nat p) = p" using r by (simp add: search_range_def)
  from insert_name_before_ok [OF wf _ cap, of name "nat p" handle] r p
    name_map_insert [of "name_list s" "\<lparr>hn_name = name, hn_handle = handle\<rparr>" "nat p"]
  show ?thesis using srch none
    by (auto simp: skynet_handle_namehandle_def insert_name_def same_slots_def)
qed


lemma name_compact_eq:
  fixes h :: u32
  defines "P \<equiv> \<lambda>n. hn_handle n \<noteq> h"
  assumes "length xs \<le> length arr" "i \<le> length xs" "\<And>k. i \<le> k \<Longrightarrow> k < length xs \<Longrightarrow> arr ! k = Some (xs ! k)"
    and "take j arr = map Some (filter P (take i xs))" "j = length (filter P (take i xs))"
  shows "\<exists>arr'. name_compact h arr (int i) (int j) (int (length xs)) = Some (arr', int (length (filter P xs))) \<and>
     take (length (filter P xs)) arr' = map Some (filter P xs) \<and> length arr' = length arr"
  using assms(2-)
proof (induction "length xs - i" arbitrary: arr i j)
  case 0
  then have "i = length xs" by simp
  with 0 show ?case by (subst name_compact.simps) simp
next
  case (Suc d)
  then have i: "i < length xs" by simp
  let ?x = "xs ! i"
  have t: "take (Suc i) xs = take i xs @ [?x]" using i by (simp add: take_Suc_conv_app_nth)
  have j: "j \<le> i" using Suc.prems(5) i by (metis length_filter_le length_take less_imp_le min.absorb4)
  have x: "aget arr (int i) = Some (Some ?x)" using Suc.prems(1,3) i by simp
  have d: "d = length xs - Suc i" using Suc.hyps(2) by simp
  show ?case
  proof (cases "P ?x")
    case False
    then have "name_compact h arr (int i) (int j) (int (length xs)) = name_compact h arr (int (Suc i)) (int j) (int (length xs))"
      using i x by (subst name_compact.simps) (simp add: P_def add.commute)
    moreover have "filter P (take (Suc i) xs) = filter P (take i xs)" using t False by simp
    ultimately show ?thesis using Suc.hyps(1) [OF d, of arr j] Suc.prems i by simp
  next
    case True
    let ?arr = "arr[j := Some ?x]"
    have "(if i \<noteq> j then aset arr (int j) (Some ?x) else Some arr) = Some ?arr"
      using j i Suc.prems(1) Suc.prems(3) [of j] list_update_id [of arr j] by (cases "i = j") (auto simp: aset_def)
    then have eq: "name_compact h arr (int i) (int j) (int (length xs)) = name_compact h ?arr (int (Suc i)) (int (Suc j)) (int (length xs))"
      using i x True by (subst name_compact.simps) (simp add: P_def add.commute)
    have f: "filter P (take (Suc i) xs) = filter P (take i xs) @ [?x]" using t True by simp
    have "take (Suc j) ?arr = map Some (filter P (take (Suc i) xs))"
      unfolding f using j i Suc.prems(1,4) by (simp add: take_Suc_conv_app_nth)
    moreover have "?arr ! k = Some (xs ! k)" if "Suc i \<le> k" "k < length xs" for k
      using that j Suc.prems(3) by simp
    ultimately show ?thesis unfolding eq
      using Suc.hyps(1) [OF d, of ?arr "Suc j"] Suc.prems(1,5) i f by simp
  qed
qed

lemma name_map_filter:
  assumes "sorted_wrt (<) (map hn_name xs)"
  shows "name_map (filter (\<lambda>n. hn_handle n \<noteq> h) xs) x =
    (if name_map xs x = Some h then None else name_map xs x)"
  using assms
proof (induction xs)
  case (Cons n xs)
  have "name_map xs (hn_name n) = None" using Cons.prems by (auto simp: name_map_None)
  then show ?case using Cons by (auto simp: name_map_Cons)
qed (simp add: name_map_def)

lemma compact_names:
  assumes wf: "names_wf s"
  shows "\<exists>arr c. name_compact h (hs_name s) 0 0 (hs_name_count s) = Some (arr, c) \<and>
     names_wf (s\<lparr>hs_slot := sl, hs_name := arr, hs_name_count := c\<rparr>) \<and>
     (\<forall>x. name_map (name_list (s\<lparr>hs_slot := sl, hs_name := arr, hs_name_count := c\<rparr>)) x =
        (if name_map (name_list s) x = Some h then None else name_map (name_list s) x))"
proof -
  let ?xs = "name_list s" and ?f = "filter (\<lambda>n. hn_handle n \<noteq> h) (name_list s)"
  note d = names_wfD [OF wf]
  obtain arr where arr: "name_compact h (hs_name s) 0 0 (hs_name_count s) = Some (arr, int (length ?f))"
    "take (length ?f) arr = map Some ?f" "length arr = length (hs_name s)"
    using name_compact_eq [of ?xs "hs_name s" 0 0 h] name_list_nth [OF wf] d by auto
  let ?s = "s\<lparr>hs_slot := sl, hs_name := arr, hs_name_count := int (length ?f)\<rparr>"
  have "length ?f \<le> length ?xs" by (rule length_filter_le)
  have srt: "sorted_wrt (<) (map hn_name ?f)" using d(7) by (simp add: sorted_wrt_map sorted_wrt_filter)
  have "arr = map Some ?f @ drop (length ?f) arr" using arr(2) by (metis append_take_drop_id)
  then have "names_wf ?s \<and> name_list ?s = ?f"
    using d(4-6) arr(3) srt by (intro names_wfI) simp_all
  then show ?thesis using arr(1) name_map_filter [OF d(7)] by auto
qed

section \<open>The slot table\<close>

lemma slot_hash_mod:
  assumes "k \<le> 24"
  shows "slot_hash h (2 ^ k) = uint h mod 2 ^ k"
proof -
  have "(of_int (2 ^ k - 1) :: u32) = mask k" by (simp add: mask_eq_exp_minus_1)
  then have "h AND of_int (2 ^ k - 1) = take_bit k h" by (simp add: take_bit_eq_mask)
  then show ?thesis by (simp only: slot_hash_def uint_take_bit_mod)
qed

lemma candidate_hash:
  assumes "k \<le> 24"
  shows "uint ((of_nat i + idx) AND HANDLE_MASK) mod 2 ^ k = (int i + uint (idx :: u32)) mod 2 ^ k"
proof -
  have "HANDLE_MASK = mask 24" by (simp add: HANDLE_MASK_def mask_eq_exp_minus_1)
  then have "(of_nat i + idx) AND HANDLE_MASK = take_bit 24 (of_nat i + idx)" by (simp add: take_bit_eq_mask)
  then have "uint ((of_nat i + idx) AND HANDLE_MASK) = uint (of_nat i + idx) mod 2 ^ 24"
    by (simp only: uint_take_bit_mod)
  moreover have "uint (of_nat i + idx) = (int i + uint idx) mod 2 ^ 32"
    by (simp add: uint_word_ariths(1) unsigned_of_nat take_bit_eq_mod of_nat_mod mod_simps)
  moreover have "(x mod 2 ^ 32) mod 2 ^ 24 mod 2 ^ k = x mod 2 ^ k" for x :: int
    using assms mod_mod_pow2 [OF assms, of "x mod 2 ^ 32"] mod_mod_pow2 [of k 32 x] by simp
  ultimately show ?thesis by simp
qed

lemma harbor_or:
  assumes "harbor AND HANDLE_MASK = (0 :: u32)" "k \<le> 24"
  shows "uint (h OR harbor) mod 2 ^ k = uint h mod 2 ^ k"
proof -
  have "HANDLE_MASK = mask 24" by (simp add: HANDLE_MASK_def mask_eq_exp_minus_1)
  then have "take_bit 24 harbor = 0" using assms(1) by (simp add: take_bit_eq_mask)
  then have "take_bit k harbor = 0" using assms(2) by (metis min.absorb1 take_bit_of_0 take_bit_take_bit)
  then have "take_bit k (h OR harbor) = take_bit k h" by (simp add: take_bit_or)
  then have "uint (take_bit k (h OR harbor)) = uint (take_bit k h)" by simp
  then show ?thesis by (simp only: uint_take_bit_mod)
qed

lemma harbor_part:
  assumes "harbor AND HANDLE_MASK = (0 :: u32)"
  shows "((x AND HANDLE_MASK) OR harbor) AND NOT HANDLE_MASK = harbor"
proof -
  have "bit harbor n \<Longrightarrow> \<not> bit HANDLE_MASK n" for n
    using assms by (metis bit_0_eq bit_and_iff bot_apply bot_bool_def)
  then show ?thesis by (auto simp: bit_eq_iff bit_simps)
qed

definition slots_wf :: "(addr \<Rightarrow> u32 option) \<Rightarrow> nat \<Rightarrow> handle_storage \<Rightarrow> bool" where
  "slots_wf handle_of k s \<longleftrightarrow> 2 \<le> k \<and> k \<le> 24 \<and> hs_slot_size s = 2 ^ k \<and> length (hs_slot s) = 2 ^ k \<and>
     hs_harbor s AND HANDLE_MASK = 0 \<and>
     (\<forall>i c. i < 2 ^ k \<longrightarrow> hs_slot s ! i = Some c \<longrightarrow>
        (\<exists>h. handle_of c = Some h \<and> uint h mod 2 ^ k = int i \<and> h AND NOT HANDLE_MASK = hs_harbor s))"

text \<open>The slot table as a partial function from handles to contexts.\<close>

definition handle_table :: "(addr \<Rightarrow> u32 option) \<Rightarrow> handle_storage \<Rightarrow> u32 \<Rightarrow> addr option" where
  "handle_table handle_of s h = (case hs_slot s ! nat (slot_hash h (hs_slot_size s)) of
     Some c \<Rightarrow> if handle_of c = Some h then Some c else None | None \<Rightarrow> None)"

lemma slots_wf_occupied:
  assumes "slots_wf handle_of k s" "i < 2 ^ k" "hs_slot s ! i = Some c"
  obtains h where "handle_of c = Some h" "uint h mod 2 ^ k = int i" "h AND NOT HANDLE_MASK = hs_harbor s"
  using assms unfolding slots_wf_def by blast

lemma hash_bounds: "slots_wf handle_of k s \<Longrightarrow>
    0 \<le> slot_hash h (hs_slot_size s) \<and> slot_hash h (hs_slot_size s) < int (length (hs_slot s)) \<and>
    slot_hash h (hs_slot_size s) = uint h mod 2 ^ k"
  by (auto simp: slots_wf_def slot_hash_mod)

lemma handle_find_table:
  assumes "slots_wf handle_of k s"
  shows "handle_find handle_of h s = Some (handle_table handle_of s h)"
proof -
  let ?i = "nat (slot_hash h (hs_slot_size s))"
  note b = hash_bounds [OF assms, of h]
  show ?thesis
  proof (cases "hs_slot s ! ?i")
    case None
    then show ?thesis using b by (simp add: handle_find_def handle_table_def)
  next
    case (Some c)
    have "?i < 2 ^ k" using b by (simp add: nat_less_iff)
    with assms obtain h' where "handle_of c = Some h'" using Some by (rule slots_wf_occupied)
    then show ?thesis using b Some by (simp add: handle_find_def handle_table_def)
  qed
qed

lemma table_SomeD:
  assumes "slots_wf handle_of k s" "i < 2 ^ k" "hs_slot s ! i = Some c"
  shows "\<exists>h. handle_of c = Some h \<and> handle_table handle_of s h = Some c \<and> nat (uint h mod 2 ^ k) = i"
proof -
  obtain h where h: "handle_of c = Some h" "uint h mod 2 ^ k = int i"
    using assms by (rule slots_wf_occupied)
  then show ?thesis using hash_bounds [OF assms(1), of h] assms(3) by (simp add: handle_table_def)
qed

lemma register_scan_eq:
  assumes "slots_wf handle_of k s"
  shows "register_scan s is = Some (case List.find (\<lambda>i. hs_slot s !
      nat (slot_hash ((of_nat i + hs_handle_index s) AND HANDLE_MASK) (hs_slot_size s)) = None) is of
      None \<Rightarrow> None | Some i \<Rightarrow> Some ((of_nat i + hs_handle_index s) AND HANDLE_MASK))"
proof (induction "is")
  case (Cons i "is")
  then show ?case
    using hash_bounds [OF assms, of "(of_nat i + hs_handle_index s) AND HANDLE_MASK"] by (auto simp: Let_def)
qed simp

lemma register_scan_full:
  assumes wf: "slots_wf handle_of k s" and r: "register_scan s [0..<2 ^ k] = Some None" and i: "i < 2 ^ k"
  shows "hs_slot s ! i \<noteq> None"
proof -
  let ?idx = "uint (hs_handle_index s)"
  let ?j = "nat ((int i - ?idx) mod 2 ^ k)"
  have j: "?j < 2 ^ k" by (simp add: nat_less_iff)
  have k: "k \<le> 24" using wf by (simp add: slots_wf_def)
  have eq: "slot_hash ((of_nat ?j + hs_handle_index s) AND HANDLE_MASK) (hs_slot_size s) = int i"
  proof -
    have "(int ?j + ?idx) mod 2 ^ k = int i mod 2 ^ k" by (simp add: mod_simps)
    moreover have "int i mod 2 ^ k = int i" using i by simp
    ultimately show ?thesis
      using hash_bounds [OF wf] candidate_hash [OF k, of ?j "hs_handle_index s"] by metis
  qed
  have "List.find (\<lambda>i. hs_slot s !
      nat (slot_hash ((of_nat i + hs_handle_index s) AND HANDLE_MASK) (hs_slot_size s)) = None) [0..<2 ^ k] = None"
    using r register_scan_eq [OF wf] by (auto split: option.splits)
  then have "hs_slot s ! nat (slot_hash ((of_nat ?j + hs_handle_index s) AND HANDLE_MASK) (hs_slot_size s)) \<noteq> None"
    using j unfolding find_None_iff by (metis atLeastLessThan_iff set_upt le0)
  then show ?thesis unfolding eq nat_int .
qed

lemma table_iff:
  assumes "slots_wf handle_of k s"
  shows "handle_table handle_of s h = Some c \<longleftrightarrow> Some c \<in> set (hs_slot s) \<and> handle_of c = Some h"
proof
  assume "handle_table handle_of s h = Some c"
  then show "Some c \<in> set (hs_slot s) \<and> handle_of c = Some h"
    using hash_bounds [OF assms, of h]
    by (auto simp: handle_table_def nat_less_iff in_set_conv_nth split: option.splits if_splits intro!: exI)
next
  assume a: "Some c \<in> set (hs_slot s) \<and> handle_of c = Some h"
  then obtain i where "i < 2 ^ k" "hs_slot s ! i = Some c"
    using assms by (auto simp: in_set_conv_nth slots_wf_def)
  with table_SomeD [OF assms this] a show "handle_table handle_of s h = Some c" by auto
qed

lemma find_by_key: "distinct (map f xs) \<Longrightarrow> x \<in> set xs \<Longrightarrow> List.find (\<lambda>y. f y = f x) xs = Some x"
  by (induction xs) auto

text \<open>The copy into a larger table never meets an occupied slot: two contexts that agree modulo
  the new size agree modulo the old one.\<close>

lemma rehash_eq:
  assumes "length new = 2 ^ k" "k \<le> 24"
    and "\<And>c. c \<in> set cs \<Longrightarrow> \<exists>x h. c = Some x \<and> handle_of x = Some h \<and> new ! nat (uint h mod 2 ^ k) = None"
    and "distinct (map (\<lambda>c. uint (the (handle_of (the c))) mod 2 ^ k) cs)"
  shows "\<exists>new'. rehash handle_of (2 ^ k) cs new = Some new' \<and> length new' = 2 ^ k \<and>
     (\<forall>i < 2 ^ k. new' ! i = (case List.find (\<lambda>c. uint (the (handle_of (the c))) mod 2 ^ k = int i) cs of
        Some c \<Rightarrow> c | None \<Rightarrow> new ! i))"
  using assms
proof (induction cs arbitrary: new)
  case (Cons c cs)
  obtain x h where c: "c = Some x" "handle_of x = Some h" "new ! nat (uint h mod 2 ^ k) = None"
    using Cons.prems(3) by force
  let ?i = "nat (uint h mod 2 ^ k)" and ?new = "new[nat (uint h mod 2 ^ k) := Some x]"
  have i: "?i < 2 ^ k" by (simp add: nat_less_iff)
  have eq: "rehash handle_of (2 ^ k) (c # cs) new = rehash handle_of (2 ^ k) cs ?new"
    using c i Cons.prems(1,2) by (simp add: slot_hash_mod aget_def aset_def)
  have free: "\<exists>y g. d = Some y \<and> handle_of y = Some g \<and> ?new ! nat (uint g mod 2 ^ k) = None"
    if d: "d \<in> set cs" for d
  proof -
    obtain y g where y: "d = Some y" "handle_of y = Some g" "new ! nat (uint g mod 2 ^ k) = None"
      using Cons.prems(3) d by force
    have "uint h mod 2 ^ k \<noteq> uint g mod 2 ^ k" using Cons.prems(4) c y d by force
    then have "?i \<noteq> nat (uint g mod 2 ^ k)" by (subst eq_nat_nat_iff) auto
    then show ?thesis using y by auto
  qed
  have "distinct (map (\<lambda>c. uint (the (handle_of (the c))) mod 2 ^ k) cs)" using Cons.prems(4) by simp
  with Cons.IH [of ?new] Cons.prems(1,2) free obtain new' where
    n: "rehash handle_of (2 ^ k) cs ?new = Some new'" "length new' = 2 ^ k"
    "\<And>j. j < 2 ^ k \<Longrightarrow> new' ! j = (case List.find (\<lambda>c. uint (the (handle_of (the c))) mod 2 ^ k = int j) cs of
        Some c \<Rightarrow> c | None \<Rightarrow> ?new ! j)" by auto
  have none: "List.find (\<lambda>c. uint (the (handle_of (the c))) mod 2 ^ k = int ?i) cs = None"
    using Cons.prems(4) c by (force simp: find_None_iff)
  have "new' ! j = (case List.find (\<lambda>c. uint (the (handle_of (the c))) mod 2 ^ k = int j) (c # cs) of
      Some c \<Rightarrow> c | None \<Rightarrow> new ! j)" if j: "j < 2 ^ k" for j
  proof (cases "uint h mod 2 ^ k = int j")
    case True
    then have "j = ?i" by simp
    then show ?thesis using n(3) [OF j] none c j Cons.prems(1) by simp
  next
    case False
    then have "j \<noteq> ?i" by auto
    then have "?new ! j = new ! j" by simp
    then show ?thesis using n(3) [OF j] False c by (simp split: option.splits)
  qed
  then show ?case using eq n by auto
qed simp

definition slot_key :: "(addr \<Rightarrow> u32 option) \<Rightarrow> nat \<Rightarrow> addr option \<Rightarrow> int" where
  "slot_key handle_of k c = uint (the (handle_of (the c))) mod 2 ^ k"

lemma full_slot:
  assumes wf: "slots_wf handle_of k s" and full: "\<And>i. i < 2 ^ k \<Longrightarrow> hs_slot s ! i \<noteq> None" and i: "i < 2 ^ k"
  shows "\<exists>x h. hs_slot s ! i = Some x \<and> handle_of x = Some h \<and> h AND NOT HANDLE_MASK = hs_harbor s \<and>
     slot_key handle_of (Suc k) (hs_slot s ! i) = uint h mod 2 ^ Suc k \<and>
     slot_key handle_of (Suc k) (hs_slot s ! i) mod 2 ^ k = int i"
proof -
  obtain x where x: "hs_slot s ! i = Some x" using full [OF i] by auto
  obtain h where h: "handle_of x = Some h" "uint h mod 2 ^ k = int i" "h AND NOT HANDLE_MASK = hs_harbor s"
    using wf i x by (rule slots_wf_occupied)
  have "slot_key handle_of (Suc k) (hs_slot s ! i) = uint h mod 2 ^ Suc k"
    using x h(1) by (simp add: slot_key_def)
  then show ?thesis using x h mod_mod_pow2 [of k "Suc k" "uint h"] by (simp del: power_Suc)
qed

lemma full_distinct:
  assumes wf: "slots_wf handle_of k s" and full: "\<And>i. i < 2 ^ k \<Longrightarrow> hs_slot s ! i \<noteq> None"
  shows "distinct (map (slot_key handle_of (Suc k)) (hs_slot s))"
proof -
  have len: "length (hs_slot s) = 2 ^ k" using wf by (simp add: slots_wf_def)
  have "i = j" if "i < 2 ^ k" "j < 2 ^ k"
    "slot_key handle_of (Suc k) (hs_slot s ! i) = slot_key handle_of (Suc k) (hs_slot s ! j)" for i j
    using full_slot [OF wf full that(1)] full_slot [OF wf full that(2)] that(3) by (metis of_nat_eq_iff)
  then show ?thesis using len by (auto simp: distinct_conv_nth)
qed

text \<open>Where the contexts of a full table are after the copy.\<close>

lemma full_rehash:
  assumes wf: "slots_wf handle_of k s" and k: "k < 24" and full: "\<And>i. i < 2 ^ k \<Longrightarrow> hs_slot s ! i \<noteq> None"
  obtains new where "rehash handle_of (2 ^ Suc k) (hs_slot s) (replicate (2 ^ Suc k) None) = Some new"
    "length new = 2 ^ Suc k"
    "\<And>i. i < 2 ^ k \<Longrightarrow> new ! nat (slot_key handle_of (Suc k) (hs_slot s ! i)) = hs_slot s ! i"
    "\<And>j x. j < 2 ^ Suc k \<Longrightarrow> new ! j = Some x \<Longrightarrow>
        \<exists>i < 2 ^ k. hs_slot s ! i = Some x \<and> slot_key handle_of (Suc k) (Some x) = int j"
proof -
  let ?cs = "hs_slot s" and ?r = "replicate (2 ^ Suc k) None :: addr option list"
  let ?key = "slot_key handle_of (Suc k)"
  have len: "length ?cs = 2 ^ k" using wf by (simp add: slots_wf_def)
  note dist = full_distinct [OF wf full]
  have "?r ! nat (uint h mod 2 ^ Suc k) = None" for h :: u32
    by (rule nth_replicate) (simp add: nat_less_iff del: power_Suc)
  then have "\<exists>x h. c = Some x \<and> handle_of x = Some h \<and> ?r ! nat (uint h mod 2 ^ Suc k) = None"
    if "c \<in> set ?cs" for c
    using that full_slot [OF wf full] len unfolding in_set_conv_nth by metis
  then have "\<exists>new. rehash handle_of (2 ^ Suc k) ?cs ?r = Some new \<and> length new = 2 ^ Suc k \<and>
     (\<forall>i < 2 ^ Suc k. new ! i = (case List.find (\<lambda>c. ?key c = int i) ?cs of Some c \<Rightarrow> c | None \<Rightarrow> ?r ! i))"
    unfolding slot_key_def
    by (rule rehash_eq [rotated 2]) (use dist k in \<open>simp_all add: slot_key_def [abs_def] del: power_Suc\<close>)
  then obtain new where new: "rehash handle_of (2 ^ Suc k) ?cs ?r = Some new" "length new = 2 ^ Suc k"
    "\<And>i. i < 2 ^ Suc k \<Longrightarrow> new ! i = (case List.find (\<lambda>c. ?key c = int i) ?cs of Some c \<Rightarrow> c | None \<Rightarrow> None)"
    by (metis nth_replicate)
  have key: "0 \<le> ?key c" "?key c < 2 ^ Suc k" for c by (simp_all add: slot_key_def del: power_Suc)
  show ?thesis
  proof (rule that [OF new(1,2)])
    fix i :: nat assume "i < 2 ^ k"
    then show "new ! nat (?key (?cs ! i)) = ?cs ! i"
      using find_by_key [OF dist, of "?cs ! i"] new(3) [of "nat (?key (?cs ! i))"] len key [of "?cs ! i"]
      by (simp add: nat_less_iff del: power_Suc)
  next
    fix j x assume "j < 2 ^ Suc k" "new ! j = Some x"
    then show "\<exists>i < 2 ^ k. ?cs ! i = Some x \<and> ?key (Some x) = int j"
      using new(3) [of j] len by (auto simp: find_Some_iff simp del: power_Suc split: option.splits)
  qed
qed

text \<open>Growing keeps the table as a function of the handle and leaves a free slot.\<close>

lemma full_table_rehash:
  assumes wf: "slots_wf handle_of k s" and k: "k < 24" and full: "\<And>i. i < 2 ^ k \<Longrightarrow> hs_slot s ! i \<noteq> None"
  shows "\<exists>new. rehash handle_of (2 ^ Suc k) (hs_slot s) (replicate (2 ^ Suc k) None) = Some new \<and>
     slots_wf handle_of (Suc k) (s\<lparr>hs_slot := new, hs_slot_size := 2 ^ Suc k\<rparr>) \<and>
     (\<exists>i < 2 ^ Suc k. new ! i = None) \<and> set new \<subseteq> insert None (set (hs_slot s)) \<and>
     handle_table handle_of (s\<lparr>hs_slot := new, hs_slot_size := 2 ^ Suc k\<rparr>) = handle_table handle_of s"
proof -
  let ?cs = "hs_slot s" and ?key = "slot_key handle_of (Suc k)"
  have len: "length ?cs = 2 ^ k" using wf by (simp add: slots_wf_def)
  note at = full_slot [OF wf full]
  obtain new where new: "rehash handle_of (2 ^ Suc k) ?cs (replicate (2 ^ Suc k) None) = Some new"
    "length new = 2 ^ Suc k" and put: "\<And>i. i < 2 ^ k \<Longrightarrow> new ! nat (?key (?cs ! i)) = ?cs ! i"
    and get: "\<And>j x. j < 2 ^ Suc k \<Longrightarrow> new ! j = Some x \<Longrightarrow> \<exists>i < 2 ^ k. ?cs ! i = Some x \<and> ?key (Some x) = int j"
    using full_rehash [OF wf k full] by blast
  let ?s = "s\<lparr>hs_slot := new, hs_slot_size := 2 ^ Suc k\<rparr>"
  have "nat (?key c) < length new" for c by (simp add: new(2) slot_key_def nat_less_iff del: power_Suc)
  then have "set ?cs \<subseteq> set new" using put len by (metis in_set_conv_nth nth_mem subsetI)
  moreover have "Some x \<in> set new \<Longrightarrow> Some x \<in> set ?cs" for x
    using get new(2) len by (metis in_set_conv_nth)
  ultimately have same: "Some x \<in> set new \<longleftrightarrow> Some x \<in> set ?cs" for x by blast
  have "\<exists>h. handle_of x = Some h \<and> uint h mod 2 ^ Suc k = int j \<and> h AND NOT HANDLE_MASK = hs_harbor s"
    if "j < 2 ^ Suc k" "new ! j = Some x" for j x
    using get [OF that] at by (metis option.inject)
  then have wf': "slots_wf handle_of (Suc k) ?s" using wf k new(2) by (simp add: slots_wf_def del: power_Suc)
  have "\<exists>j < 2 ^ Suc k. new ! j = None"
  proof (rule ccontr)
    assume "\<not> ?thesis"
    then have "\<exists>i < 2 ^ k. ?key (?cs ! i) = int j" if "j < 2 ^ Suc k" for j
      using get [OF that] that by (metis not_Some_eq)
    then obtain i0 i1 where "i0 < 2 ^ k" "?key (?cs ! i0) = int 0" "i1 < 2 ^ k" "?key (?cs ! i1) = int (2 ^ k)"
      by (metis power_strict_increasing_iff lessI one_less_numeral_iff semiring_norm(76) zero_less_power zero_less_numeral)
    then show False using at [of i0] at [of i1] by auto
  qed
  moreover have "handle_table handle_of ?s = handle_table handle_of s"
  proof
    fix h
    have "handle_table handle_of ?s h = Some c \<longleftrightarrow> handle_table handle_of s h = Some c" for c
      using table_iff [OF wf', of h c] table_iff [OF wf, of h c] same by simp
    then show "handle_table handle_of ?s h = handle_table handle_of s h" by (metis option.exhaust)
  qed
  moreover have "set new \<subseteq> insert None (set ?cs)" using same by (metis insertCI not_Some_eq subsetI)
  ultimately show ?thesis using new(1) wf' by blast
qed


lemma slot_hash_harbor: "slots_wf handle_of k s \<Longrightarrow>
    slot_hash (h OR hs_harbor s) (hs_slot_size s) = slot_hash h (hs_slot_size s)"
  by (simp add: slots_wf_def slot_hash_mod harbor_or)

definition same_names :: "handle_storage \<Rightarrow> handle_storage \<Rightarrow> bool" where
  "same_names s s' \<longleftrightarrow> hs_name s' = hs_name s \<and> hs_name_cap s' = hs_name_cap s \<and> hs_name_count s' = hs_name_count s"

lemma same_namesD:
  assumes "same_names s s'"
  shows "names_wf s' = names_wf s \<and> name_list s' = name_list s"
  using assms by (simp add: same_names_def names_wf_def name_list_def)

text \<open>Storing a context under a handle whose slot is free.\<close>

lemma store_slot:
  fixes idx :: u32
  assumes wf: "slots_wf handle_of k s" and c: "Some c \<notin> set (hs_slot s)"
    and free: "hs_slot s ! nat (uint h mod 2 ^ k) = None" and hb: "h AND NOT HANDLE_MASK = hs_harbor s"
  defines "s' \<equiv> s\<lparr>hs_slot := (hs_slot s)[nat (uint h mod 2 ^ k) := Some c], hs_handle_index := idx\<rparr>"
  shows "handle_table handle_of s h = None \<and> slots_wf (handle_of(c \<mapsto> h)) k s' \<and>
     handle_table (handle_of(c \<mapsto> h)) s' = (handle_table handle_of s)(h \<mapsto> c)"
proof -
  let ?i = "nat (uint h mod 2 ^ k)" and ?ho = "handle_of(c \<mapsto> h)"
  have i: "?i < 2 ^ k" and len: "length (hs_slot s) = 2 ^ k" using wf by (simp_all add: nat_less_iff slots_wf_def)
  have old: "hs_slot s ! j \<noteq> Some c" if "j < 2 ^ k" for j using c len that by (metis nth_mem)
  have wf': "slots_wf ?ho k s'"
    using wf len i hb old unfolding slots_wf_def s'_def by (auto simp: nth_list_update)
  have none: "handle_table handle_of s h = None"
    using hash_bounds [OF wf, of h] free by (simp add: handle_table_def)
  have "handle_table ?ho s' h' = Some d \<longleftrightarrow> ((handle_table handle_of s)(h \<mapsto> c)) h' = Some d" for h' d
  proof -
    have "Some d \<in> set ((hs_slot s)[?i := x])" if "Some d \<in> set (hs_slot s)" for x
      using that free len by (metis in_set_conv_nth length_list_update nth_list_update_neq option.distinct(1))
    then have set: "Some d \<in> set (hs_slot s') \<longleftrightarrow> d = c \<or> Some d \<in> set (hs_slot s)"
      using set_update_subset_insert [of "hs_slot s" ?i "Some c"] set_update_memI [of ?i "hs_slot s" "Some c"] i len
      by (auto simp: s'_def)
    show ?thesis
      using table_iff [OF wf', of h' d] table_iff [OF wf, of h' d] table_iff [OF wf, of h] none c set by auto
  qed
  then have "handle_table ?ho s' = (handle_table handle_of s)(h \<mapsto> c)" by (intro ext) (metis option.exhaust)
  then show ?thesis using wf' none by simp
qed


lemma register_found:
  assumes wf: "slots_wf handle_of k s" and scan: "register_scan s [0..<2 ^ k] = Some (Some g)"
    and c: "Some c \<notin> set (hs_slot s)"
  shows "\<exists>h s'. skynet_handle_register handle_of c s = Some (h, s') \<and> handle_table handle_of s h = None \<and>
     slots_wf (handle_of(c \<mapsto> h)) k s' \<and>
     handle_table (handle_of(c \<mapsto> h)) s' = (handle_table handle_of s)(h \<mapsto> c) \<and>
     hs_harbor s' = hs_harbor s \<and> same_names s s'"
proof -
  have k: "k \<le> 24" and size: "hs_slot_size s = 2 ^ k" using wf by (simp_all add: slots_wf_def)
  have "\<exists>i. hs_slot s ! nat (slot_hash ((of_nat i + hs_handle_index s) AND HANDLE_MASK) (hs_slot_size s)) = None \<and>
      g = (of_nat i + hs_handle_index s) AND HANDLE_MASK"
    using scan register_scan_eq [OF wf] by (auto simp: find_Some_iff split: option.splits)
  then obtain x where g: "g = x AND HANDLE_MASK" and free: "hs_slot s ! nat (slot_hash g (hs_slot_size s)) = None"
    by blast
  let ?h = "g OR hs_harbor s"
  have hash: "slot_hash g (hs_slot_size s) = uint ?h mod 2 ^ k" and b: "0 \<le> slot_hash g (hs_slot_size s)"
    "slot_hash g (hs_slot_size s) < int (length (hs_slot s))"
    using slot_hash_harbor [OF wf, of g] hash_bounds [OF wf, of ?h] hash_bounds [OF wf, of g] by simp_all
  let ?s = "s\<lparr>hs_slot := (hs_slot s)[nat (uint ?h mod 2 ^ k) := Some c], hs_handle_index := g + 1\<rparr>"
  have "skynet_handle_register handle_of c s = Some (?h, ?s)"
    using scan b hash by (subst skynet_handle_register.simps) (simp add: size nat_power_eq)
  moreover have "?h AND NOT HANDLE_MASK = hs_harbor s" using harbor_part wf g by (simp add: slots_wf_def)
  ultimately show ?thesis
    using store_slot [OF wf c, of ?h "g + 1"] free hash by (auto simp: same_names_def)
qed

lemma register_scan_cases:
  assumes "slots_wf handle_of k s"
  obtains (found) g where "register_scan s [0..<2 ^ k] = Some (Some g)"
    | (full) "register_scan s [0..<2 ^ k] = Some None"
  using register_scan_eq [OF assms, of "[0..<2 ^ k]"] by (cases "register_scan s [0..<2 ^ k]") auto

text \<open>The table can grow, or has a free slot.\<close>

definition has_room :: "handle_storage \<Rightarrow> bool" where
  "has_room s \<longleftrightarrow> None \<in> set (hs_slot s) \<or> hs_slot_size s < 2 ^ 24"

lemma register_ok:
  assumes wf: "slots_wf handle_of k s" and c: "Some c \<notin> set (hs_slot s)" and room: "has_room s"
  shows "\<exists>h k' s'. skynet_handle_register handle_of c s = Some (h, s') \<and> handle_table handle_of s h = None \<and>
     slots_wf (handle_of(c \<mapsto> h)) k' s' \<and>
     handle_table (handle_of(c \<mapsto> h)) s' = (handle_table handle_of s)(h \<mapsto> c) \<and>
     hs_harbor s' = hs_harbor s \<and> same_names s s'"
proof (cases rule: register_scan_cases [OF wf])
  case (1 g)
  then show ?thesis using register_found [OF wf _ c] by blast
next
  case 2
  have size: "hs_slot_size s = 2 ^ k" "length (hs_slot s) = 2 ^ k" using wf by (simp_all add: slots_wf_def)
  note full = register_scan_full [OF wf 2]
  then have "None \<notin> set (hs_slot s)" using size by (metis in_set_conv_nth)
  then have "(2 :: int) ^ k < 2 ^ 24" using room size by (simp add: has_room_def)
  then have k: "k < 24" by (rule power_less_imp_less_exp [rotated]) simp
  obtain new where new: "rehash handle_of (2 ^ Suc k) (hs_slot s) (replicate (2 ^ Suc k) None) = Some new"
    "slots_wf handle_of (Suc k) (s\<lparr>hs_slot := new, hs_slot_size := 2 ^ Suc k\<rparr>)"
    "\<exists>i < 2 ^ Suc k. new ! i = None" "set new \<subseteq> insert None (set (hs_slot s))"
    "handle_table handle_of (s\<lparr>hs_slot := new, hs_slot_size := 2 ^ Suc k\<rparr>) = handle_table handle_of s"
    using full_table_rehash [OF wf k full] by blast
  let ?s = "s\<lparr>hs_slot := new, hs_slot_size := 2 ^ Suc k\<rparr>"
  have c': "Some c \<notin> set (hs_slot ?s)" using new(4) c by auto
  have mask: "(2 :: int) ^ Suc k - 1 \<le> uint HANDLE_MASK"
    using k power_increasing [of "Suc k" 24 "2 :: int"] by (simp add: HANDLE_MASK_def)
  have eq: "skynet_handle_register handle_of c s = skynet_handle_register handle_of c ?s"
    using 2 new(1) mask size by (subst skynet_handle_register.simps) (simp add: nat_power_eq nat_mult_distrib mult.commute)
  have "register_scan ?s [0..<2 ^ Suc k] \<noteq> Some None"
  proof
    assume "register_scan ?s [0..<2 ^ Suc k] = Some None"
    from register_scan_full [OF new(2) this] have "i < 2 ^ Suc k \<Longrightarrow> new ! i \<noteq> None" for i
      by (simp del: power_Suc)
    then show False using new(3) by blast
  qed
  then obtain g where "register_scan ?s [0..<2 ^ Suc k] = Some (Some g)"
    using register_scan_cases [OF new(2)] by metis
  from register_found [OF new(2) this c'] show ?thesis
    unfolding eq new(5) by (auto simp: same_names_def simp del: power_Suc)
qed

lemma retire_ok:
  assumes wf: "slots_wf handle_of k s" and names: "names_wf s"
  shows "\<exists>s'. handle_retire handle_of h s =
       Some (if handle_table handle_of s h = None then 0 else 1, handle_table handle_of s h, s') \<and>
     slots_wf handle_of k s' \<and> names_wf s' \<and>
     handle_table handle_of s' = (handle_table handle_of s)(h := None) \<and>
     (handle_table handle_of s h \<noteq> None \<longrightarrow> (\<forall>x. name_map (name_list s') x =
        (if name_map (name_list s) x = Some h then None else name_map (name_list s) x))) \<and>
     (handle_table handle_of s h = None \<longrightarrow> s' = s)"
proof (cases "handle_table handle_of s h")
  case None
  then show ?thesis using handle_find_table [OF wf, of h] wf names
    by (auto simp: handle_retire_def fun_upd_idem)
next
  case (Some c)
  let ?i = "nat (uint h mod 2 ^ k)"
  note b = hash_bounds [OF wf, of h]
  have len: "length (hs_slot s) = 2 ^ k" using wf by (simp add: slots_wf_def)
  have i: "?i < 2 ^ k" by (simp add: nat_less_iff)
  have at: "hs_slot s ! ?i = Some c" "handle_of c = Some h"
    using Some b by (auto simp: handle_table_def split: option.splits if_splits)
  let ?sl = "(hs_slot s)[?i := None]"
  obtain arr n where comp: "name_compact h (hs_name s) 0 0 (hs_name_count s) = Some (arr, n)"
    "names_wf (s\<lparr>hs_slot := ?sl, hs_name := arr, hs_name_count := n\<rparr>)"
    "\<And>x. name_map (name_list (s\<lparr>hs_slot := ?sl, hs_name := arr, hs_name_count := n\<rparr>)) x =
        (if name_map (name_list s) x = Some h then None else name_map (name_list s) x)"
    using compact_names [OF names, of h ?sl] by blast
  let ?s = "s\<lparr>hs_slot := ?sl, hs_name := arr, hs_name_count := n\<rparr>"
  have "handle_retire handle_of h s = Some (1, Some c, ?s)"
    using Some b comp(1) handle_find_table [OF wf, of h] by (simp add: handle_retire_def Let_def)
  moreover have wf': "slots_wf handle_of k ?s"
    using wf unfolding slots_wf_def by (auto simp: nth_list_update)
  moreover have "handle_table handle_of ?s = (handle_table handle_of s)(h := None)"
  proof
    fix h'
    have "slot_hash h' (hs_slot_size s) = uint h' mod 2 ^ k" using hash_bounds [OF wf] by blast
    then show "handle_table handle_of ?s h' = ((handle_table handle_of s)(h := None)) h'"
      using at i len by (auto simp: handle_table_def nth_list_update)
  qed
  ultimately show ?thesis using Some comp(2,3) by auto
qed


section \<open>The contract of a handle registry\<close>

text \<open>
  What the rest of the server relies on: registering gives a handle that is not in use, a lookup
  gives the context registered last under the handle and not retired since, for any sequence of
  operations.
\<close>

datatype reg_op = Reg addr | Grab u32 | Retire u32
datatype reg_out = Issued u32 | Found "addr option"

text \<open>The specification: the answers agree with a finite map.\<close>

fun map_run :: "reg_op list \<Rightarrow> reg_out list \<Rightarrow> (u32 \<Rightarrow> addr option) \<Rightarrow> (u32 \<Rightarrow> addr option) option" where
  "map_run [] [] m = Some m"
| "map_run (Reg c # ops) (Issued h # outs) m = (if m h = None then map_run ops outs (m(h \<mapsto> c)) else None)"
| "map_run (Grab h # ops) (Found r # outs) m = (if r = m h then map_run ops outs m else None)"
| "map_run (Retire h # ops) (Found r # outs) m = (if r = m h then map_run ops outs (m(h := None)) else None)"
| "map_run _ _ _ = None"

fun reg_run :: "(addr \<Rightarrow> 's \<Rightarrow> (u32 \<times> 's) option) \<Rightarrow> (u32 \<Rightarrow> 's \<Rightarrow> addr option option) \<Rightarrow>
    (u32 \<Rightarrow> 's \<Rightarrow> (addr option \<times> 's) option) \<Rightarrow> reg_op list \<Rightarrow> 's \<Rightarrow> (reg_out list \<times> 's) option" where
  "reg_run reg grab ret [] s = Some ([], s)"
| "reg_run reg grab ret (Reg c # ops) s = do {
     (h, s1) \<leftarrow> reg c s; (outs, s2) \<leftarrow> reg_run reg grab ret ops s1; Some (Issued h # outs, s2) }"
| "reg_run reg grab ret (Grab h # ops) s = do {
     r \<leftarrow> grab h s; (outs, s2) \<leftarrow> reg_run reg grab ret ops s; Some (Found r # outs, s2) }"
| "reg_run reg grab ret (Retire h # ops) s = do {
     (r, s1) \<leftarrow> ret h s; (outs, s2) \<leftarrow> reg_run reg grab ret ops s1; Some (Found r # outs, s2) }"

primrec registered :: "reg_op list \<Rightarrow> addr list" where
  "registered [] = []"
| "registered (x # xs) = (case x of Reg c \<Rightarrow> c # registered xs | _ \<Rightarrow> registered xs)"

locale handle_registry =
  fixes inv :: "'s \<Rightarrow> bool"
    and tab :: "'s \<Rightarrow> u32 \<Rightarrow> addr option"
    and capacity :: nat
    and reg :: "addr \<Rightarrow> 's \<Rightarrow> (u32 \<times> 's) option"
    and grab :: "u32 \<Rightarrow> 's \<Rightarrow> addr option option"
    and ret :: "u32 \<Rightarrow> 's \<Rightarrow> (addr option \<times> 's) option"
  assumes reg_law: "inv s \<Longrightarrow> card (dom (tab s)) < capacity \<Longrightarrow> c \<notin> ran (tab s) \<Longrightarrow>
      \<exists>h s'. reg c s = Some (h, s') \<and> inv s' \<and> tab s h = None \<and> tab s' = (tab s)(h \<mapsto> c)"
    and grab_law: "inv s \<Longrightarrow> grab h s = Some (tab s h)"
    and ret_law: "inv s \<Longrightarrow> \<exists>s'. ret h s = Some (tab s h, s') \<and> inv s' \<and> tab s' = (tab s)(h := None)"
begin

lemma run_simulates_map:
  "inv s \<Longrightarrow> card (dom (tab s)) + length (registered ops) \<le> capacity \<Longrightarrow>
   distinct (registered ops) \<Longrightarrow> set (registered ops) \<inter> ran (tab s) = {} \<Longrightarrow>
   \<exists>outs s'. reg_run reg grab ret ops s = Some (outs, s') \<and> inv s' \<and> map_run ops outs (tab s) = Some (tab s')"
proof (induction ops arbitrary: s)
  case (Cons op ops)
  show ?case
  proof (cases op)
    case (Reg c)
    obtain h s1 where s1: "reg c s = Some (h, s1)" "inv s1" "tab s h = None" "tab s1 = (tab s)(h \<mapsto> c)"
      using reg_law [of s c] Cons.prems Reg by auto
    then have "card (dom (tab s1)) = Suc (card (dom (tab s)))"
      by (simp add: domIff card_insert_if)
    moreover have "ran (tab s1) = insert c (ran (tab s))" using s1 by simp
    ultimately have "\<exists>outs s'. reg_run reg grab ret ops s1 = Some (outs, s') \<and> inv s' \<and> map_run ops outs (tab s1) = Some (tab s')"
      using Cons.prems Reg by (intro Cons.IH [OF s1(2)]) auto
    then show ?thesis using s1 Reg by fastforce
  next
    case (Grab h)
    then show ?thesis using Cons.IH [OF Cons.prems(1)] Cons.prems grab_law [of s h] by auto
  next
    case (Retire h)
    obtain s1 where s1: "ret h s = Some (tab s h, s1)" "inv s1" "tab s1 = (tab s)(h := None)"
      using ret_law [of s h] Cons.prems(1) by auto
    have "card (dom (tab s1)) \<le> card (dom (tab s))" using s1(3) by (simp add: card_mono)
    moreover have "ran (tab s1) \<subseteq> ran (tab s)" using s1(3) by (auto simp: ran_def)
    ultimately have "\<exists>outs s'. reg_run reg grab ret ops s1 = Some (outs, s') \<and> inv s' \<and> map_run ops outs (tab s1) = Some (tab s')"
      using Cons.prems Retire by (intro Cons.IH [OF s1(2)]) auto
    then show ?thesis using s1 Retire by auto
  qed
qed simp

end

text \<open>The storage together with the \<open>handle\<close> fields of the contexts, which
  \<open>skynet_context_new\<close> fills with the handle that registration returns.\<close>

type_synonym registry = "(addr \<Rightarrow> u32 option) \<times> handle_storage"

definition registry_wf :: "registry \<Rightarrow> bool" where
  "registry_wf r \<longleftrightarrow> (\<exists>k. slots_wf (fst r) k (snd r)) \<and> names_wf (snd r)"

definition registry_table :: "registry \<Rightarrow> u32 \<Rightarrow> addr option" where
  "registry_table r = handle_table (fst r) (snd r)"

definition registry_register :: "addr \<Rightarrow> registry \<Rightarrow> (u32 \<times> registry) option" where
  "registry_register ctx r = do {
     (h, s) \<leftarrow> skynet_handle_register (fst r) ctx (snd r);
     Some (h, (fst r)(ctx \<mapsto> h), s) }"

definition registry_grab :: "u32 \<Rightarrow> registry \<Rightarrow> addr option option" where
  "registry_grab h r = handle_find (fst r) h (snd r)"

definition registry_retire :: "u32 \<Rightarrow> registry \<Rightarrow> (addr option \<times> registry) option" where
  "registry_retire h r = do {
     (_, ctx, s) \<leftarrow> handle_retire (fst r) h (snd r);
     Some (ctx, fst r, s) }"

lemma room_of_card:
  assumes wf: "slots_wf handle_of k s" and c: "card (dom (handle_table handle_of s)) < 2 ^ 24"
  shows "has_room s"
proof (rule ccontr)
  assume no: "\<not> has_room s"
  have size: "hs_slot_size s = 2 ^ k" "length (hs_slot s) = 2 ^ k" "k \<le> 24" using wf by (simp_all add: slots_wf_def)
  then have "(2 :: int) ^ 24 \<le> 2 ^ k" and full: "None \<notin> set (hs_slot s)" using no by (auto simp: has_room_def)
  then have k: "k = 24" using size(3) power_le_imp_le_exp [of "2 :: int" 24 k] by simp
  have "\<exists>h. h \<in> dom (handle_table handle_of s) \<and> nat (uint h mod 2 ^ k) = i" if "i < 2 ^ k" for i
  proof -
    have "hs_slot s ! i \<in> set (hs_slot s)" using that size(2) by simp
    then obtain x where "hs_slot s ! i = Some x" using full by (metis not_Some_eq)
    with table_SomeD [OF wf that this] show ?thesis by blast
  qed
  then have sub: "{..<2 ^ k} \<subseteq> (\<lambda>h. nat (uint h mod 2 ^ k)) ` dom (handle_table handle_of s)" by blast
  have "2 ^ k \<le> card (dom (handle_table handle_of s))"
    using surj_card_le [OF _ sub] by simp
  with c k show False by simp
qed

lemma slot_of_ran:
  assumes wf: "slots_wf handle_of k s" and c: "c \<notin> ran (handle_table handle_of s)"
  shows "Some c \<notin> set (hs_slot s)"
proof
  assume "Some c \<in> set (hs_slot s)"
  then obtain i where "i < 2 ^ k" "hs_slot s ! i = Some c"
    using wf by (auto simp: in_set_conv_nth slots_wf_def)
  from table_SomeD [OF wf this] c show False by (auto simp: ran_def)
qed

interpretation handles: handle_registry registry_wf registry_table "2 ^ 24" registry_register registry_grab registry_retire
proof
  fix r c assume wf: "registry_wf r" and "card (dom (registry_table r)) < 2 ^ 24" "c \<notin> ran (registry_table r)"
  moreover obtain k where k: "slots_wf (fst r) k (snd r)" using wf by (auto simp: registry_wf_def)
  ultimately obtain h k' s' where "skynet_handle_register (fst r) c (snd r) = Some (h, s')"
    "registry_table r h = None" "slots_wf ((fst r)(c \<mapsto> h)) k' s'"
    "handle_table ((fst r)(c \<mapsto> h)) s' = (registry_table r)(h \<mapsto> c)" "same_names (snd r) s'"
    using register_ok [OF k slot_of_ran [OF k] room_of_card [OF k]] unfolding registry_table_def by blast
  then show "\<exists>h r'. registry_register c r = Some (h, r') \<and> registry_wf r' \<and> registry_table r h = None \<and>
      registry_table r' = (registry_table r)(h \<mapsto> c)"
    using wf same_namesD by (auto simp: registry_register_def registry_wf_def registry_table_def)
next
  fix r h assume "registry_wf r"
  then show "registry_grab h r = Some (registry_table r h)"
    by (auto simp: registry_wf_def registry_grab_def registry_table_def handle_find_table)
next
  fix r h assume wf: "registry_wf r"
  then obtain k where k: "slots_wf (fst r) k (snd r)" "names_wf (snd r)" by (auto simp: registry_wf_def)
  then obtain s' where "handle_retire (fst r) h (snd r) =
       Some (if registry_table r h = None then 0 else 1, registry_table r h, s')" "slots_wf (fst r) k s'" "names_wf s'"
     "handle_table (fst r) s' = (registry_table r)(h := None)"
    using retire_ok [of "fst r" k "snd r" h] unfolding registry_table_def by blast
  then
  show "\<exists>r'. registry_retire h r = Some (registry_table r h, r') \<and> registry_wf r' \<and> registry_table r' = (registry_table r)(h := None)"
    by (auto simp: registry_retire_def registry_wf_def registry_table_def)
qed


section \<open>Correctness of the storage\<close>

lemma init_wf: "slots_wf handle_of 2 (skynet_handle_init harbor) \<and> names_wf (skynet_handle_init harbor) \<and>
    handle_table handle_of (skynet_handle_init harbor) = Map.empty"
proof -
  have m: "HANDLE_MASK = mask 24" by (simp add: HANDLE_MASK_def mask_eq_exp_minus_1)
  have "take_bit 24 (push_bit 24 x) = (0 :: u32)" for x by (simp add: take_bit_push_bit)
  then have "push_bit 24 x AND HANDLE_MASK = 0" for x unfolding m take_bit_eq_mask .
  then have "hs_harbor (skynet_handle_init harbor) AND HANDLE_MASK = 0"
    unfolding skynet_handle_init_def HANDLE_REMOTE_SHIFT_def by (simp del: push_bit_and)
  then have wf: "slots_wf handle_of 2 (skynet_handle_init harbor)"
    by (simp add: slots_wf_def) (simp add: skynet_handle_init_def DEFAULT_SLOT_SIZE_def)
  have "names_wf (skynet_handle_init harbor)"
    by (simp add: names_wf_def skynet_handle_init_def MAX_SLOT_SIZE_def name_list_def)
  moreover have "handle_table handle_of (skynet_handle_init harbor) h = None" for h
    using table_iff [OF wf, of h] 
    by (cases "handle_table handle_of (skynet_handle_init harbor) h") (auto simp: skynet_handle_init_def)
  ultimately show ?thesis using wf by auto
qed

text \<open>C4: starting from \<open>skynet_handle_init\<close>, any sequence of registrations of distinct contexts
  (at most \<open>2^24\<close> of them), lookups and retirements runs without a fault or an endless scan, through
  every growth of the slot table, and gives exactly the answers of a finite map: a registration
  returns a handle not in use, a lookup or a retirement the context registered under the handle.\<close>

theorem handle_storage_is_map:
  assumes "distinct (registered ops)" "length (registered ops) \<le> 2 ^ 24"
  shows "\<exists>outs r. reg_run registry_register registry_grab registry_retire ops
       (handle_of, skynet_handle_init harbor) = Some (outs, r) \<and>
     map_run ops outs Map.empty = Some (registry_table r)"
proof -
  let ?r = "(handle_of, skynet_handle_init harbor)"
  have "registry_wf ?r" "registry_table ?r = Map.empty"
    using init_wf by (auto simp: registry_wf_def registry_table_def)
  then show ?thesis using handles.run_simulates_map [of ?r ops] assms by auto
qed

theorem handle_storage_is_map_witness:
  "\<exists>outs r. reg_run registry_register registry_grab registry_retire
       [Reg 7, Reg 8, Reg 9, Reg 10, Reg 11, Grab 0x01000002, Retire 0x01000002, Grab 0x01000002]
       (Map.empty, skynet_handle_init 1) = Some (outs, r) \<and>
     map_run [Reg 7, Reg 8, Reg 9, Reg 10, Reg 11, Grab 0x01000002, Retire 0x01000002, Grab 0x01000002]
       outs Map.empty = Some (registry_table r)"
  by (rule handle_storage_is_map) simp_all

text \<open>C5: a handle carries the harbor id of the process in its high 8 bits, registration changes no
  name, and keeps every other entry: the storage grows at most by rehashing into tables of
  twice the size, in which no two contexts collide.\<close>

theorem register_harbor:
  assumes "slots_wf handle_of k s" "Some c \<notin> set (hs_slot s)" "has_room s"
  shows "\<exists>h s'. skynet_handle_register handle_of c s = Some (h, s') \<and> h AND NOT HANDLE_MASK = hs_harbor s \<and>
     handle_table handle_of s h = None \<and>
     handle_table (handle_of(c \<mapsto> h)) s' = (handle_table handle_of s)(h \<mapsto> c) \<and>
     (\<forall>name. skynet_handle_findname name s' = skynet_handle_findname name s)"
proof -
  obtain h k' s' where r: "skynet_handle_register handle_of c s = Some (h, s')" "handle_table handle_of s h = None"
    "slots_wf (handle_of(c \<mapsto> h)) k' s'" "handle_table (handle_of(c \<mapsto> h)) s' = (handle_table handle_of s)(h \<mapsto> c)"
    "hs_harbor s' = hs_harbor s" "same_names s s'"
    using register_ok [OF assms] by blast
  then have "Some c \<in> set (hs_slot s')" using table_iff [OF r(3), of h c] by simp
  then obtain i where i: "i < 2 ^ k'" "hs_slot s' ! i = Some c"
    using r(3) by (auto simp: in_set_conv_nth slots_wf_def)
  obtain g where "(handle_of(c \<mapsto> h)) c = Some g" "g AND NOT HANDLE_MASK = hs_harbor s'"
    by (rule slots_wf_occupied [OF r(3) i])
  then show ?thesis using r by (auto simp: same_names_def skynet_handle_findname_def)
qed

theorem register_harbor_witness:
  "\<exists>h s'. skynet_handle_register Map.empty 7 (skynet_handle_init 5) = Some (h, s') \<and>
     h AND NOT HANDLE_MASK = 0x05000000"
proof -
  have "Some 7 \<notin> set (hs_slot (skynet_handle_init 5))" "has_room (skynet_handle_init 5)"
    "hs_harbor (skynet_handle_init 5) = 0x05000000"
    by (simp_all add: skynet_handle_init_def has_room_def DEFAULT_SLOT_SIZE_def HANDLE_REMOTE_SHIFT_def)
  with register_harbor [of Map.empty 2 "skynet_handle_init 5" 7] init_wf show ?thesis by auto
qed

text \<open>C6: naming a handle makes the name findable and no other lookup changes; a name that is taken is
  refused and keeps its handle.  The array stays sorted, also when it is full and is copied into
  one of twice the capacity.\<close>

theorem namehandle_findname:
  assumes "names_wf s" "hs_name_cap s \<le> 2 ^ 29"
  shows "\<exists>r s'. skynet_handle_namehandle handle name s = Some (r, s') \<and> names_wf s' \<and>
     r = (if name_map (name_list s) name = None then Some name else None) \<and>
     (\<forall>x. skynet_handle_findname x s' =
        (if x = name \<and> r \<noteq> None then Some handle else skynet_handle_findname x s))"
proof -
  obtain s' where "skynet_handle_namehandle handle name s =
       Some (if name_map (name_list s) name = None then Some name else None, s')"
    "names_wf s'" "name_map (name_list s') = (if name_map (name_list s) name = None
       then (name_map (name_list s))(name \<mapsto> handle) else name_map (name_list s))"
    using namehandle_ok [OF assms] by blast
  then show ?thesis using findname_map [of s'] findname_map [OF assms(1)] by auto
qed

theorem namehandle_findname_witness:
  "\<exists>r s'. skynet_handle_namehandle 9 [98] (skynet_handle_init 0) = Some (r, s') \<and>
     skynet_handle_findname [98] s' = Some 9"
proof -
  have n: "names_wf (skynet_handle_init 0)" "hs_name_cap (skynet_handle_init 0) \<le> 2 ^ 29"
    "name_map (name_list (skynet_handle_init 0)) [98] = None"
    by (simp add: init_wf) (simp_all add: skynet_handle_init_def name_list_def name_map_def)
  show ?thesis using namehandle_findname [OF n(1,2), of 9 "[98]"] n(3) by auto
qed

text \<open>C7: retiring a handle empties its slot and forgets exactly the names bound to it; a handle that is
  not in use is reported with 0 and nothing changes.\<close>

theorem retire_forgets:
  assumes "slots_wf handle_of k s" "names_wf s"
  shows "\<exists>s'. handle_retire handle_of h s =
       Some (if handle_table handle_of s h = None then 0 else 1, handle_table handle_of s h, s') \<and>
     handle_table handle_of s' = (handle_table handle_of s)(h := None) \<and>
     (handle_table handle_of s h = None \<longrightarrow> s' = s) \<and>
     (handle_table handle_of s h \<noteq> None \<longrightarrow> (\<forall>x. skynet_handle_findname x s' =
        (if name_map (name_list s) x = Some h then Some 0 else skynet_handle_findname x s)))"
proof -
  obtain s' where s': "handle_retire handle_of h s =
       Some (if handle_table handle_of s h = None then 0 else 1, handle_table handle_of s h, s')"
    "names_wf s'" "handle_table handle_of s' = (handle_table handle_of s)(h := None)"
    "handle_table handle_of s h \<noteq> None \<Longrightarrow> \<forall>x. name_map (name_list s') x =
        (if name_map (name_list s) x = Some h then None else name_map (name_list s) x)"
    "handle_table handle_of s h = None \<Longrightarrow> s' = s"
    using retire_ok [OF assms, of h] by metis
  then show ?thesis using findname_map [OF s'(2)] findname_map [OF assms(2)] by auto
qed

text \<open>Context 7 has handle 1 and the name \<open>a\<close>; the name \<open>b\<close> belongs to another handle.\<close>

definition sample_storage :: handle_storage where
  "sample_storage = \<lparr>hs_harbor = 0, hs_handle_index = 2, hs_slot_size = 4, hs_slot = [None, Some 7, None, None],
     hs_name_cap = 2, hs_name_count = 2, hs_name = [Some \<lparr>hn_name = [97], hn_handle = 1\<rparr>, Some \<lparr>hn_name = [98], hn_handle = 2\<rparr>]\<rparr>"

lemma sample_storage_wf: "slots_wf [7 \<mapsto> 1] 2 sample_storage" "names_wf sample_storage"
  by (auto simp: slots_wf_def sample_storage_def HANDLE_MASK_def nth_Cons' split: if_splits)
    (simp add: names_wf_def name_list_def sample_storage_def MAX_SLOT_SIZE_def)

theorem retire_forgets_witness:
  "\<exists>s'. handle_retire [7 \<mapsto> 1] 1 sample_storage = Some (1, Some 7, s') \<and> handle_table [7 \<mapsto> 1] s' 1 = None \<and>
     skynet_handle_findname [97] s' = Some 0 \<and> skynet_handle_findname [98] s' = Some 2"
proof -
  have t: "handle_table [7 \<mapsto> 1] sample_storage 1 = Some 7"
    by (simp add: handle_table_def sample_storage_def slot_hash_def)
  have n: "name_map (name_list sample_storage) [97] = Some 1" "name_map (name_list sample_storage) [98] = Some 2"
    by (simp_all add: name_map_def name_list_def sample_storage_def)
  then have "skynet_handle_findname [98] sample_storage = Some 2"
    using findname_map [OF sample_storage_wf(2), of "[98]"] by simp
  then show ?thesis using retire_forgets [OF sample_storage_wf, of 1] t n by auto
qed

text \<open>The scan masks the candidate and not the index it stores, so after handle \<open>0xffffff\<close> comes
  handle 0, the one \<open>skynet_handle_init\<close> sets aside for the system.\<close>

lemma register_issues_zero:
  assumes wf: "slots_wf handle_of k s" and idx: "hs_handle_index s = 0x1000000" and free: "hs_slot s ! 0 = None"
  shows "\<exists>s'. skynet_handle_register handle_of c s = Some (hs_harbor s, s')"
proof -
  have size: "hs_slot_size s = 2 ^ k" "0 < length (hs_slot s)" using wf by (simp_all add: slots_wf_def)
  have "nat (hs_slot_size s) = Suc (2 ^ k - 1)" using size by (simp add: nat_power_eq)
  then have "register_scan s [0..<nat (hs_slot_size s)] = register_scan s (0 # [1..<nat (hs_slot_size s)])"
    by (metis One_nat_def upt_conv_Cons zero_less_Suc)
  also have "\<dots> = Some (Some 0)"
    using idx free size by (simp add: HANDLE_MASK_def slot_hash_def)
  finally show ?thesis using size by (subst skynet_handle_register.simps) (simp add: slot_hash_def)
qed

end
