(* ===== verification/Skynet_Timer.thy ===== *)
theory Skynet_Timer
  imports Skynet_Mq
begin

text \<open>
  The timer wheel of \<open>skynet-src/skynet_timer.c\<close>: 256 near lists and four levels of 64 lists.
  A linked list with its tail pointer is the list of its nodes: \<open>link\<close> appends and
  \<open>link_clear\<close> hands the nodes over and leaves the list empty.  \<open>skynet_context_push\<close> is the
  parameter \<open>push\<close> of the functions that deliver messages, over a state of its own; the service
  layer passes its definition in.  The clocks of the operating system are arguments.
\<close>

section \<open>Data\<close>

definition TIME_NEAR_SHIFT :: nat where "TIME_NEAR_SHIFT = 8"
definition TIME_NEAR :: int where "TIME_NEAR = 256"
definition TIME_LEVEL_SHIFT :: nat where "TIME_LEVEL_SHIFT = 6"
definition TIME_LEVEL :: int where "TIME_LEVEL = 64"
definition TIME_NEAR_MASK :: u32 where "TIME_NEAR_MASK = 255"
definition TIME_LEVEL_MASK :: u32 where "TIME_LEVEL_MASK = 63"
definition PTYPE_RESPONSE :: u64 where "PTYPE_RESPONSE = 1"
definition MESSAGE_TYPE_SHIFT :: nat where "MESSAGE_TYPE_SHIFT = 56"

lemmas timer_consts = TIME_NEAR_SHIFT_def TIME_NEAR_def TIME_LEVEL_SHIFT_def TIME_LEVEL_def
  TIME_NEAR_MASK_def TIME_LEVEL_MASK_def

record timer_event =
  te_handle :: u32
  te_session :: int

record timer_node =
  tn_expire :: u32
  tn_event :: timer_event

record timer =
  near :: "timer_node list list"
  lvl :: "timer_node list list list"
  tm_time :: u32
  starttime :: u32
  current :: u64
  current_point :: u64

section \<open>Operations\<close>

text \<open>\<open>link_clear\<close> and \<open>link\<close> on an element of an array of lists.\<close>

definition link_clear :: "timer_node list list \<Rightarrow> int \<Rightarrow> (timer_node list \<times> timer_node list list) option" where
  "link_clear ls i = do { l \<leftarrow> aget ls i; ls' \<leftarrow> aset ls i []; Some (l, ls') }"

definition link :: "timer_node list list \<Rightarrow> int \<Rightarrow> timer_node \<Rightarrow> timer_node list list option" where
  "link ls i node = do { l \<leftarrow> aget ls i; aset ls i (l @ [node]) }"

text \<open>The search of \<open>add_node\<close> for the level: \<open>for (i=0;i<3;i++)\<close> with the mask shifted in each
  round.\<close>

fun find_level :: "u32 \<Rightarrow> u32 \<Rightarrow> nat list \<Rightarrow> u32 \<Rightarrow> nat" where
  "find_level time current_time [] msk = 3"
| "find_level time current_time (i # is) msk =
     (if time OR (msk - 1) = current_time OR (msk - 1) then i
      else find_level time current_time is (push_bit TIME_LEVEL_SHIFT msk))"

definition add_node :: "timer \<Rightarrow> timer_node \<Rightarrow> timer option" where
  "add_node T node = (let time = tn_expire node; current_time = tm_time T in
     if time OR TIME_NEAR_MASK = current_time OR TIME_NEAR_MASK then do {
       ls \<leftarrow> link (near T) (uint (time AND TIME_NEAR_MASK)) node;
       Some (T\<lparr>near := ls\<rparr>) }
     else do {
       let i = find_level time current_time [0, 1, 2] (push_bit TIME_LEVEL_SHIFT (of_int TIME_NEAR));
       row \<leftarrow> aget (lvl T) (int i);
       ls \<leftarrow> link row (uint (drop_bit (TIME_NEAR_SHIFT + i * TIME_LEVEL_SHIFT) time AND TIME_LEVEL_MASK)) node;
       rows \<leftarrow> aset (lvl T) (int i) ls;
       Some (T\<lparr>lvl := rows\<rparr>) })"

definition timer_add :: "timer \<Rightarrow> timer_event \<Rightarrow> int \<Rightarrow> timer option" where
  "timer_add T arg time = add_node T \<lparr>tn_expire = of_int time + tm_time T, tn_event = arg\<rparr>"

fun add_nodes :: "timer_node list \<Rightarrow> timer \<Rightarrow> timer option" where
  "add_nodes [] T = Some T"
| "add_nodes (n # ns) T = do { T' \<leftarrow> add_node T n; add_nodes ns T' }"

definition move_list :: "timer \<Rightarrow> int \<Rightarrow> int \<Rightarrow> timer option" where
  "move_list T level idx = do {
     row \<leftarrow> aget (lvl T) level;
     (nodes, row') \<leftarrow> link_clear row idx;
     rows \<leftarrow> aset (lvl T) level row';
     add_nodes nodes (T\<lparr>lvl := rows\<rparr>) }"

text \<open>The \<open>while\<close> of \<open>timer_shift\<close>; \<open>mask\<close> is a C \<open>int\<close>, so shifting it out of range
  is a fault.\<close>

partial_function (option) shift_loop :: "timer \<Rightarrow> u32 \<Rightarrow> int \<Rightarrow> u32 \<Rightarrow> int \<Rightarrow> timer option" where
  "shift_loop T ct msk time i =
     (if ct AND of_int (msk - 1) = 0 then do {
        let idx = uint (time AND TIME_LEVEL_MASK);
        (if idx \<noteq> 0 then move_list T i idx
         else do {
           msk' \<leftarrow> cint (msk * 2 ^ TIME_LEVEL_SHIFT);
           shift_loop T ct msk' (drop_bit TIME_LEVEL_SHIFT time) (i + 1) }) }
      else Some T)"

definition timer_shift :: "timer \<Rightarrow> timer option" where
  "timer_shift T = (let ct = tm_time T + 1; T' = T\<lparr>tm_time := ct\<rparr> in
     if ct = 0 then move_list T' 3 0
     else shift_loop T' ct TIME_NEAR (drop_bit TIME_NEAR_SHIFT ct) 0)"

definition timer_message :: "int \<Rightarrow> skynet_message" where
  "timer_message session = \<lparr>msg_source = 0, msg_session = session, msg_data = None,
     msg_sz = push_bit MESSAGE_TYPE_SHIFT PTYPE_RESPONSE\<rparr>"

fun dispatch_list :: "(u32 \<Rightarrow> skynet_message \<Rightarrow> 's \<Rightarrow> (int \<times> 's) option) \<Rightarrow> timer_node list \<Rightarrow> 's \<Rightarrow> 's option" where
  "dispatch_list push [] s = Some s"
| "dispatch_list push (n # ns) s = do {
     (_, s') \<leftarrow> push (te_handle (tn_event n)) (timer_message (te_session (tn_event n))) s;
     dispatch_list push ns s' }"

partial_function (option) timer_execute ::
  "(u32 \<Rightarrow> skynet_message \<Rightarrow> 's \<Rightarrow> (int \<times> 's) option) \<Rightarrow> timer \<Rightarrow> 's \<Rightarrow> (timer \<times> 's) option" where
  "timer_execute push T s = do {
     let idx = uint (tm_time T AND TIME_NEAR_MASK);
     l \<leftarrow> aget (near T) idx;
     (if l \<noteq> [] then do {
        (nodes, ls) \<leftarrow> link_clear (near T) idx;
        s' \<leftarrow> dispatch_list push nodes s;
        timer_execute push (T\<lparr>near := ls\<rparr>) s' }
      else Some (T, s)) }"

definition timer_update ::
  "(u32 \<Rightarrow> skynet_message \<Rightarrow> 's \<Rightarrow> (int \<times> 's) option) \<Rightarrow> timer \<Rightarrow> 's \<Rightarrow> (timer \<times> 's) option" where
  "timer_update push T s = do {
     (T1, s1) \<leftarrow> timer_execute push T s;
     T2 \<leftarrow> timer_shift T1;
     timer_execute push T2 s1 }"

definition timer_create_timer :: timer where
  "timer_create_timer = \<lparr>near = replicate (nat TIME_NEAR) [], lvl = replicate 4 (replicate (nat TIME_LEVEL) []),
     tm_time = 0, starttime = 0, current = 0, current_point = 0\<rparr>"

definition skynet_timeout ::
  "(u32 \<Rightarrow> skynet_message \<Rightarrow> 's \<Rightarrow> (int \<times> 's) option) \<Rightarrow> u32 \<Rightarrow> int \<Rightarrow> int \<Rightarrow> timer \<Rightarrow> 's \<Rightarrow> (int \<times> timer \<times> 's) option" where
  "skynet_timeout push handle time session T s =
     (if time \<le> 0 then do {
        (r, s') \<leftarrow> push handle (timer_message session) s;
        Some (if r \<noteq> 0 then -1 else session, T, s') }
      else do {
        T' \<leftarrow> timer_add T \<lparr>te_handle = handle, te_session = session\<rparr> time;
        Some (session, T', s) })"

text \<open>\<open>systime\<close> and \<open>gettime\<close> from a reading (seconds, nanoseconds) of the clock.\<close>

definition systime :: "int \<times> int \<Rightarrow> u32 \<times> u32" where
  "systime ti = (of_int (fst ti), of_int (snd ti div 10000000))"

definition gettime :: "int \<times> int \<Rightarrow> u64" where
  "gettime ti = of_int (fst ti) * 100 + of_int (snd ti div 10000000)"

fun timer_updates ::
  "(u32 \<Rightarrow> skynet_message \<Rightarrow> 's \<Rightarrow> (int \<times> 's) option) \<Rightarrow> nat \<Rightarrow> timer \<Rightarrow> 's \<Rightarrow> (timer \<times> 's) option" where
  "timer_updates push 0 T s = Some (T, s)"
| "timer_updates push (Suc n) T s = do { (T', s') \<leftarrow> timer_update push T s; timer_updates push n T' s' }"

text \<open>The loop counter of \<open>skynet_updatetime\<close> is an \<open>int\<close>; it overflows when \<open>diff\<close> does
  not fit.  \<open>error\<close> is the call of \<open>skynet_error\<close> with the two times of its text, for a clock that
  went back.\<close>

definition skynet_updatetime ::
  "(u32 \<Rightarrow> skynet_message \<Rightarrow> 's \<Rightarrow> (int \<times> 's) option) \<Rightarrow> (u64 \<Rightarrow> u64 \<Rightarrow> 's \<Rightarrow> 's option) \<Rightarrow> int \<times> int \<Rightarrow>
   timer \<Rightarrow> 's \<Rightarrow> (timer \<times> 's) option" where
  "skynet_updatetime push error ti T s = (let cp = gettime ti in
     if cp < current_point T then do {
       s' \<leftarrow> error cp (current_point T) s;
       Some (T\<lparr>current_point := cp\<rparr>, s') }
     else if cp \<noteq> current_point T then do {
       let diff = (ucast (cp - current_point T) :: u32);
       require (cint_ok (uint diff));
       timer_updates push (unat diff) (T\<lparr>current_point := cp, current := current T + ucast diff\<rparr>) s }
     else Some (T, s))"

definition skynet_starttime :: "timer \<Rightarrow> u32" where "skynet_starttime T = starttime T"
definition skynet_now :: "timer \<Rightarrow> u64" where "skynet_now T = current T"

definition skynet_timer_init :: "int \<times> int \<Rightarrow> int \<times> int \<Rightarrow> timer" where
  "skynet_timer_init rt mt = (let (sec, cs) = systime rt in
     timer_create_timer\<lparr>starttime := sec, current := ucast cs, current_point := gettime mt\<rparr>)"

definition skynet_thread_time :: "int \<times> int \<Rightarrow> u64" where
  "skynet_thread_time ti = of_int (fst ti) * 1000000 + of_int (snd ti) div 1000"


section \<open>The place of a node\<close>

text \<open>Where \<open>add_node\<close> links a node: a near slot, or a level and a slot of it.\<close>

datatype place = Near nat | Level nat nat

definition level_shift :: "nat \<Rightarrow> nat" where "level_shift i = 8 + 6 * i"

definition place_of :: "nat \<Rightarrow> nat \<Rightarrow> place" where
  "place_of c e =
     (if e div 2 ^ 8 = c div 2 ^ 8 then Near (e mod 2 ^ 8)
      else let i = (if e div 2 ^ 14 = c div 2 ^ 14 then 0 else if e div 2 ^ 20 = c div 2 ^ 20 then 1
                    else if e div 2 ^ 26 = c div 2 ^ 26 then 2 else 3)
           in Level i (e div 2 ^ level_shift i mod 64))"

definition timer_shape :: "timer \<Rightarrow> bool" where
  "timer_shape T \<longleftrightarrow> length (near T) = 256 \<and> length (lvl T) = 4 \<and> (\<forall>row \<in> set (lvl T). length row = 64)"

fun valid_place :: "place \<Rightarrow> bool" where
  "valid_place (Near i) \<longleftrightarrow> i < 256"
| "valid_place (Level i j) \<longleftrightarrow> i < 4 \<and> j < 64"

fun slot :: "timer \<Rightarrow> place \<Rightarrow> timer_node list" where
  "slot T (Near i) = near T ! i"
| "slot T (Level i j) = lvl T ! i ! j"

lemma or_mask_eq: "(x OR mask n = y OR mask n) \<longleftrightarrow> unat x div 2 ^ n = unat y div 2 ^ n" for x y :: u32
proof -
  have "x OR mask n = y OR mask n \<longleftrightarrow> drop_bit n x = drop_bit n y"
  proof
    assume "x OR mask n = y OR mask n"
    then have "drop_bit n (x OR mask n) = drop_bit n (y OR mask n)" by simp
    moreover have "drop_bit n (mask n) = (0 :: u32)" by (rule bit_word_eqI) (simp add: bit_simps)
    ultimately show "drop_bit n x = drop_bit n y" by simp
  next
    assume d: "drop_bit n x = drop_bit n y"
    have "bit x k = bit y k" if "n \<le> k" for k
      using that arg_cong [OF d, of "\<lambda>w. bit w (k - n)"] by (simp add: bit_drop_bit_eq)
    then show "x OR mask n = y OR mask n" by (intro bit_word_eqI) (auto simp: bit_simps)
  qed
  also have "\<dots> \<longleftrightarrow> unat (drop_bit n x) = unat (drop_bit n y)" by (rule word_unat_eq_iff)
  finally show ?thesis unfolding unat_drop_bit_eq drop_bit_eq_div [of n "unat _"] .
qed

lemmas or_masks = or_mask_eq [of _ 14, simplified mask_eq_exp_minus_1, simplified]
  or_mask_eq [of _ 20, simplified mask_eq_exp_minus_1, simplified]
  or_mask_eq [of _ 26, simplified mask_eq_exp_minus_1, simplified]
  or_mask_eq [of _ 8, simplified mask_eq_exp_minus_1, simplified]

lemma find_level_eq: "find_level e c [0, 1, 2] (push_bit TIME_LEVEL_SHIFT (of_int TIME_NEAR)) =
    (if unat e div 2 ^ 14 = unat c div 2 ^ 14 then 0 else if unat e div 2 ^ 20 = unat c div 2 ^ 20 then 1
     else if unat e div 2 ^ 26 = unat c div 2 ^ 26 then 2 else 3)"
  by (simp add: timer_consts or_masks)

lemma word_and_mask: "uint (x AND TIME_NEAR_MASK) = int (unat x mod 2 ^ 8)"
    "uint (x AND TIME_LEVEL_MASK) = int (unat x mod 64)" for x :: u32
proof -
  have "x AND TIME_NEAR_MASK = take_bit 8 x" "x AND TIME_LEVEL_MASK = take_bit 6 x"
    by (simp_all add: timer_consts take_bit_eq_mask mask_eq_exp_minus_1)
  then have "unat (x AND TIME_NEAR_MASK) = unat x mod 2 ^ 8" "unat (x AND TIME_LEVEL_MASK) = unat x mod 64"
    by (simp_all only: unsigned_take_bit_eq) (simp_all add: take_bit_eq_mod)
  then show "uint (x AND TIME_NEAR_MASK) = int (unat x mod 2 ^ 8)" "uint (x AND TIME_LEVEL_MASK) = int (unat x mod 64)"
    by (simp_all add: uint_nat)
qed

definition set_slot :: "timer \<Rightarrow> place \<Rightarrow> timer_node list \<Rightarrow> timer" where
  "set_slot T p l = (case p of Near i \<Rightarrow> T\<lparr>near := (near T)[i := l]\<rparr>
     | Level i j \<Rightarrow> T\<lparr>lvl := (lvl T)[i := (lvl T ! i)[j := l]]\<rparr>)"

lemma set_slot_simps [simp]:
  "tm_time (set_slot T p l) = tm_time T" "timer.more (set_slot T p l) = timer.more T"
  "starttime (set_slot T p l) = starttime T" "current (set_slot T p l) = current T"
  "current_point (set_slot T p l) = current_point T"
  by (simp_all add: set_slot_def split: place.split)

lemma shape_row: "timer_shape T \<Longrightarrow> i < 4 \<Longrightarrow> length (lvl T ! i) = 64"
  by (simp add: timer_shape_def)

lemma set_slot_shape [simp]: "timer_shape T \<Longrightarrow> timer_shape (set_slot T p l)"
proof (cases p)
  case (Level i j)
  assume T: "timer_shape T"
  then show ?thesis
  proof (cases "i < 4")
    case True
    then show ?thesis using T Level shape_row [OF T True] set_update_subset_insert [of "lvl T" i "(lvl T ! i)[j := l]"]
      by (fastforce simp: set_slot_def timer_shape_def)
  qed (simp add: set_slot_def timer_shape_def Level list_update_beyond)
qed (simp add: set_slot_def timer_shape_def)

lemma slot_set_slot: "timer_shape T \<Longrightarrow> valid_place p \<Longrightarrow> valid_place q \<Longrightarrow>
    slot (set_slot T p l) q = (if p = q then l else slot T q)"
  using shape_row [of T] by (cases p; cases q) (auto simp: set_slot_def timer_shape_def nth_list_update)

lemma place_valid: "valid_place (place_of c e)"
  by (auto simp: place_of_def Let_def)

lemma add_node_eq:
  assumes "timer_shape T"
  shows "add_node T n = (let p = place_of (unat (tm_time T)) (unat (tn_expire n)) in
    Some (set_slot T p (slot T p @ [n])))"
proof -
  have len: "length (near T) = 256" "length (lvl T) = 4" "\<And>i. i < 4 \<Longrightarrow> length (lvl T ! i) = 64"
    using assms shape_row by (auto simp: timer_shape_def)
  have sh: "drop_bit (TIME_NEAR_SHIFT + i * TIME_LEVEL_SHIFT) x AND TIME_LEVEL_MASK = y \<Longrightarrow>
      uint y = int (unat x div 2 ^ level_shift i mod 64)" for i x y
    using word_and_mask(2) [of "drop_bit (level_shift i) x"]
    unfolding unat_drop_bit_eq drop_bit_eq_div [of _ "unat x"]
    by (simp add: TIME_NEAR_SHIFT_def TIME_LEVEL_SHIFT_def level_shift_def mult.commute)
  let ?e = "unat (tn_expire n)" and ?c = "unat (tm_time T)"
  show ?thesis
  proof (cases "?e div 2 ^ 8 = ?c div 2 ^ 8")
    case True
    then have "add_node T n = (do { ls \<leftarrow> link (near T) (int (?e mod 2 ^ 8)) n; Some (T\<lparr>near := ls\<rparr>) })"
      unfolding add_node_def Let_def word_and_mask by (simp add: TIME_NEAR_MASK_def or_masks)
    then show ?thesis using True len by (simp add: place_of_def set_slot_def link_def)
  next
    case False
    define i where "i = (if ?e div 2 ^ 14 = ?c div 2 ^ 14 then 0 else if ?e div 2 ^ 20 = ?c div 2 ^ 20 then 1
      else if ?e div 2 ^ 26 = ?c div 2 ^ 26 then 2 else 3 :: nat)"
    have i: "i < 4" by (simp add: i_def)
    have p: "place_of ?c ?e = Level i (?e div 2 ^ level_shift i mod 64)"
      using False unfolding place_of_def Let_def i_def by (simp only: if_False)
    have "tn_expire n OR TIME_NEAR_MASK \<noteq> tm_time T OR TIME_NEAR_MASK"
      using False unfolding TIME_NEAR_MASK_def by (simp add: or_masks)
    then show ?thesis
      unfolding add_node_def Let_def find_level_eq sh [OF refl] p i_def [symmetric] link_def
      using len i by (simp add: set_slot_def)
  qed
qed

section \<open>Advancing the clock\<close>

text \<open>The time in the digits of the wheel: 8 bits, then four groups of 6.\<close>

definition digits :: "nat \<Rightarrow> nat \<Rightarrow> nat \<Rightarrow> nat \<Rightarrow> nat \<Rightarrow> nat" where
  "digits c0 c1 c2 c3 c4 = c0 + 256 * (c1 + 64 * (c2 + 64 * (c3 + 64 * c4)))"

lemma digits_cases:
  assumes "c < 2 ^ 32"
  obtains c0 c1 c2 c3 c4 where "c = digits c0 c1 c2 c3 c4" "c0 < 256" "c1 < 64" "c2 < 64" "c3 < 64" "c4 < 64"
proof -
  let ?d1 = "c div 256" let ?d2 = "?d1 div 64" let ?d3 = "?d2 div 64" let ?d4 = "?d3 div 64"
  have "c = digits (c mod 256) (?d1 mod 64) (?d2 mod 64) (?d3 mod 64) ?d4"
    unfolding digits_def by (simp only: mod_mult_div_eq mult.commute [of 64] mult.commute [of 256] mod_div_mult_eq)
  moreover have "?d4 < 64" using assms by (simp add: div_mult2_eq [symmetric] less_mult_imp_div_less)
  ultimately show ?thesis
    by (intro that [of "c mod 256" "?d1 mod 64" "?d2 mod 64" "?d3 mod 64" ?d4]) simp_all
qed

lemma digits_div:
  assumes "c0 < 256" "c1 < 64" "c2 < 64" "c3 < 64" "c4 < 64"
  shows "digits c0 c1 c2 c3 c4 mod 256 = c0 \<and>
    digits c0 c1 c2 c3 c4 div 256 = c1 + 64 * (c2 + 64 * (c3 + 64 * c4)) \<and>
    digits c0 c1 c2 c3 c4 div 16384 = c2 + 64 * (c3 + 64 * c4) \<and>
    digits c0 c1 c2 c3 c4 div 1048576 = c3 + 64 * c4 \<and>
    digits c0 c1 c2 c3 c4 div 67108864 = c4"
proof -
  have d: "(a + b * x) div b = x" if "a < b" for a b x :: nat using that by simp
  have "digits c0 c1 c2 c3 c4 div 256 = c1 + 64 * (c2 + 64 * (c3 + 64 * c4))"
    unfolding digits_def by (rule d) (rule assms)
  moreover from this have "digits c0 c1 c2 c3 c4 div (256 * 64) = c2 + 64 * (c3 + 64 * c4)"
    unfolding div_mult2_eq using d assms by simp
  moreover from this have "digits c0 c1 c2 c3 c4 div (256 * 64 * 64) = c3 + 64 * c4"
    unfolding div_mult2_eq [of _ "256 * 64"] using d assms by simp
  moreover from this have "digits c0 c1 c2 c3 c4 div (256 * 64 * 64 * 64) = c4"
    unfolding div_mult2_eq [of _ "256 * 64 * 64"] using d assms by simp
  moreover have "digits c0 c1 c2 c3 c4 mod 256 = c0" unfolding digits_def using assms by (simp del: distrib_left_numeral)
  ultimately show ?thesis by (simp del: distrib_left_numeral)
qed

lemma digits_mod:
  assumes "c0 < 256" "c1 < 64" "c2 < 64" "c3 < 64" "c4 < 64"
  shows "digits c0 c1 c2 c3 c4 mod 2 ^ 8 = c0 \<and> digits c0 c1 c2 c3 c4 div 2 ^ 8 mod 64 = c1 \<and>
    digits c0 c1 c2 c3 c4 div 2 ^ 14 mod 64 = c2 \<and> digits c0 c1 c2 c3 c4 div 2 ^ 20 mod 64 = c3 \<and>
    digits c0 c1 c2 c3 c4 div 2 ^ 26 mod 64 = c4"
proof -
  have m: "(a + 64 * x) mod 64 = a" if "a < 64" for a x :: nat using that by simp
  have p: "(2 ^ 8 :: nat) = 256" "(2 ^ 14 :: nat) = 16384" "(2 ^ 20 :: nat) = 1048576" "(2 ^ 26 :: nat) = 67108864"
    by simp_all
  show ?thesis unfolding p using digits_div [OF assms] m [OF assms(2)] m [OF assms(3)] m [OF assms(4)] mod_less [OF assms(5)]
    by (simp only:)
qed

lemma digits_eq:
  assumes "c0 < 256" "c1 < 64" "c2 < 64" "c3 < 64" "c4 < 64" "e0 < 256" "e1 < 64" "e2 < 64" "e3 < 64" "e4 < 64"
  shows "(digits e0 e1 e2 e3 e4 div 2 ^ 8 = digits c0 c1 c2 c3 c4 div 2 ^ 8 \<longleftrightarrow> e1 = c1 \<and> e2 = c2 \<and> e3 = c3 \<and> e4 = c4) \<and>
    (digits e0 e1 e2 e3 e4 div 2 ^ 14 = digits c0 c1 c2 c3 c4 div 2 ^ 14 \<longleftrightarrow> e2 = c2 \<and> e3 = c3 \<and> e4 = c4) \<and>
    (digits e0 e1 e2 e3 e4 div 2 ^ 20 = digits c0 c1 c2 c3 c4 div 2 ^ 20 \<longleftrightarrow> e3 = c3 \<and> e4 = c4) \<and>
    (digits e0 e1 e2 e3 e4 div 2 ^ 26 = digits c0 c1 c2 c3 c4 div 2 ^ 26 \<longleftrightarrow> e4 = c4)"
proof -
  have eq: "(a + 64 * x = b + 64 * y) \<longleftrightarrow> a = b \<and> x = y" if "a < 64" "b < 64" for a b x y :: nat
  proof -
    have "(a + 64 * x) mod 64 = a" "(b + 64 * y) mod 64 = b" using that by simp_all
    then show ?thesis by (metis add_left_cancel mult_left_cancel zero_neq_numeral)
  qed
  have p: "(2 ^ 8 :: nat) = 256" "(2 ^ 14 :: nat) = 16384" "(2 ^ 20 :: nat) = 1048576" "(2 ^ 26 :: nat) = 67108864"
    by simp_all
  show ?thesis
    unfolding p digits_div [OF assms(1-5), THEN conjunct2, THEN conjunct1] digits_div [OF assms(6-10), THEN conjunct2, THEN conjunct1]
    using digits_div [OF assms(1-5)] digits_div [OF assms(6-10)]
      eq [OF assms(7,2)] eq [OF assms(8,3)] eq [OF assms(9,4)] by (simp only: simp_thms)
qed

lemma place_of_digits:
  assumes "c0 < 256" "c1 < 64" "c2 < 64" "c3 < 64" "c4 < 64" "e0 < 256" "e1 < 64" "e2 < 64" "e3 < 64" "e4 < 64"
  shows "place_of (digits c0 c1 c2 c3 c4) (digits e0 e1 e2 e3 e4) =
    (if e1 = c1 \<and> e2 = c2 \<and> e3 = c3 \<and> e4 = c4 then Near e0
     else if e2 = c2 \<and> e3 = c3 \<and> e4 = c4 then Level 0 e1
     else if e3 = c3 \<and> e4 = c4 then Level 1 e2 else if e4 = c4 then Level 2 e3 else Level 3 e4)"
proof -
  have l: "level_shift 0 = 8" "level_shift 1 = 14" "level_shift 2 = 20" "level_shift 3 = 26" by (simp_all add: level_shift_def)
  show ?thesis
    using digits_eq [OF assms] digits_mod [OF assms(6-10)] by (auto simp only: place_of_def Let_def l split: if_splits)
qed

text \<open>The list that \<open>timer_shift\<close> moves when the clock becomes \<open>c\<close>.\<close>

definition moved_place :: "nat \<Rightarrow> place option" where
  "moved_place c =
     (if c mod 2 ^ 8 \<noteq> 0 then None
      else if c div 2 ^ 8 mod 64 \<noteq> 0 then Some (Level 0 (c div 2 ^ 8 mod 64))
      else if c div 2 ^ 14 mod 64 \<noteq> 0 then Some (Level 1 (c div 2 ^ 14 mod 64))
      else if c div 2 ^ 20 mod 64 \<noteq> 0 then Some (Level 2 (c div 2 ^ 20 mod 64))
      else Some (Level 3 (c div 2 ^ 26 mod 64)))"

lemma moved_place_digits:
  assumes "c0 < 256" "c1 < 64" "c2 < 64" "c3 < 64" "c4 < 64"
  shows "moved_place (digits c0 c1 c2 c3 c4) =
    (if c0 \<noteq> 0 then None else if c1 \<noteq> 0 then Some (Level 0 c1) else if c2 \<noteq> 0 then Some (Level 1 c2)
     else if c3 \<noteq> 0 then Some (Level 2 c3) else Some (Level 3 c4))"
  using digits_mod [OF assms] by (simp only: moved_place_def)

lemma digits_next:
  assumes "c0 < 256" "c1 < 64" "c2 < 64" "c3 < 64" "c4 < 64"
  shows "(digits c0 c1 c2 c3 c4 + 1) mod 2 ^ 32 =
    (if c0 < 255 then digits (c0 + 1) c1 c2 c3 c4 else if c1 < 63 then digits 0 (c1 + 1) c2 c3 c4
     else if c2 < 63 then digits 0 0 (c2 + 1) c3 c4 else if c3 < 63 then digits 0 0 0 (c3 + 1) c4
     else if c4 < 63 then digits 0 0 0 0 (c4 + 1) else digits 0 0 0 0 0)"
proof -
  consider "c0 = 255 \<and> c1 = 63 \<and> c2 = 63 \<and> c3 = 63 \<and> c4 = 63"
    | "\<not> (c0 = 255 \<and> c1 = 63 \<and> c2 = 63 \<and> c3 = 63 \<and> c4 = 63)" by blast
  then show ?thesis
  proof cases
    case 2
    then have "digits c0 c1 c2 c3 c4 + 1 < 2 ^ 32" using assms unfolding digits_def by auto
    then show ?thesis using assms 2 by (auto simp: digits_def)
  qed (simp add: digits_def)
qed

lemma place_next:
  assumes c: "c < 2 ^ 32" and e: "e < 2 ^ 32" and after: "e div 2 ^ 26 = c div 2 ^ 26 \<Longrightarrow> c < e"
  defines "c' \<equiv> (c + 1) mod 2 ^ 32"
  shows "place_of c' e = place_of c e \<or> moved_place c' = Some (place_of c e)"
proof -
  obtain c0 c1 c2 c3 c4 where cd: "c = digits c0 c1 c2 c3 c4" and cb: "c0 < 256" "c1 < 64" "c2 < 64" "c3 < 64" "c4 < 64"
    using c by (rule digits_cases)
  obtain e0 e1 e2 e3 e4 where ed: "e = digits e0 e1 e2 e3 e4" and eb: "e0 < 256" "e1 < 64" "e2 < 64" "e3 < 64" "e4 < 64"
    using e by (rule digits_cases)
  have less: "digits c0 c1 c2 c3 c4 < digits e0 e1 e2 e3 e4" if "e4 = c4"
    using after that digits_div [OF cb] digits_div [OF eb] cd ed by simp
  have d3: "c3 \<le> e3" if "e4 = c4" using less that cb eb by (simp add: digits_def)
  have d2: "c2 \<le> e2" if "e4 = c4" "e3 = c3" using less that cb eb by (simp add: digits_def)
  have d1: "c1 \<le> e1" if "e4 = c4" "e3 = c3" "e2 = c2" using less that cb eb by (simp add: digits_def)
  have d0: "c0 < e0" if "e4 = c4" "e3 = c3" "e2 = c2" "e1 = c1" using less that cb eb by (simp add: digits_def)
  consider "c0 < 255" | "c0 = 255" "c1 < 63" | "c0 = 255" "c1 = 63" "c2 < 63" | "c0 = 255" "c1 = 63" "c2 = 63" "c3 < 63"
    | "c0 = 255" "c1 = 63" "c2 = 63" "c3 = 63" using cb by linarith
  then show ?thesis
  proof cases
    case 1
    then show ?thesis unfolding c'_def cd ed digits_next [OF cb] using cb eb by (simp add: place_of_digits)
  next
    case 2
    then show ?thesis unfolding c'_def cd ed digits_next [OF cb]
      using cb eb d0 by (auto simp: place_of_digits moved_place_digits)
  next
    case 3
    then have "\<not> (e2 = c2 \<and> e3 = c3 \<and> e4 = c4)" using d0 d1 eb by auto
    with 3 show ?thesis unfolding c'_def cd ed digits_next [OF cb]
      using cb eb by (auto simp: place_of_digits moved_place_digits)
  next
    case 4
    then have "\<not> (e3 = c3 \<and> e4 = c4)" using d0 d1 d2 eb by auto
    with 4 show ?thesis unfolding c'_def cd ed digits_next [OF cb]
      using cb eb by (auto simp: place_of_digits moved_place_digits)
  next
    case 5
    then have "e4 \<noteq> c4" using d0 d1 d2 d3 eb by auto
    with 5 show ?thesis unfolding c'_def cd ed digits_next [OF cb]
      using cb eb by (auto simp: place_of_digits moved_place_digits)
  qed
qed


section \<open>The invariant\<close>

text \<open>Every node is in the list of its place relative to the clock, and expires less than
  \<open>2^31\<close> ticks from now.\<close>

definition node_ok :: "u32 \<Rightarrow> place \<Rightarrow> timer_node \<Rightarrow> bool" where
  "node_ok c p n \<longleftrightarrow> place_of (unat c) (unat (tn_expire n)) = p \<and> unat (tn_expire n - c) < 2 ^ 31"

definition timer_wf :: "timer \<Rightarrow> bool" where
  "timer_wf T \<longleftrightarrow> timer_shape T \<and> (\<forall>p n. valid_place p \<longrightarrow> n \<in> set (slot T p) \<longrightarrow> node_ok (tm_time T) p n)"

text \<open>The timers that expire at a given time, in the order in which they were added.\<close>

definition pending :: "timer \<Rightarrow> u32 \<Rightarrow> timer_node list" where
  "pending T e = filter (\<lambda>n. tn_expire n = e) (slot T (place_of (unat (tm_time T)) (unat e)))"

lemma pending_set: "timer_wf T \<Longrightarrow> n \<in> set (pending T e) \<longleftrightarrow>
    tn_expire n = e \<and> (\<exists>p. valid_place p \<and> n \<in> set (slot T p))"
  unfolding pending_def timer_wf_def node_ok_def using place_valid by auto

lemma add_node_ok:
  assumes wf: "timer_wf T" and d: "unat (tn_expire n - tm_time T) < 2 ^ 31"
  shows "\<exists>T'. add_node T n = Some T' \<and> timer_wf T' \<and> tm_time T' = tm_time T \<and>
     pending T' = (pending T)(tn_expire n := pending T (tn_expire n) @ [n])"
proof -
  let ?p = "place_of (unat (tm_time T)) (unat (tn_expire n))"
  let ?T = "set_slot T ?p (slot T ?p @ [n])"
  have shape: "timer_shape T" using wf by (simp add: timer_wf_def)
  have slot: "slot ?T q = (if q = ?p then slot T ?p @ [n] else slot T q)" if "valid_place q" for q
    using slot_set_slot [OF shape place_valid that, of "unat (tm_time T)" "unat (tn_expire n)" "slot T ?p @ [n]"] by auto
  have "timer_wf ?T"
    using wf shape d by (auto simp: timer_wf_def slot node_ok_def)
  moreover have "pending ?T e = ((pending T)(tn_expire n := pending T (tn_expire n) @ [n])) e" for e
    using slot [OF place_valid [of "unat (tm_time T)" "unat e"]] by (auto simp: pending_def)
  ultimately show ?thesis using add_node_eq [OF shape, of n] by (auto simp: Let_def)
qed

lemma add_nodes_ok:
  "timer_wf T \<Longrightarrow> \<forall>n \<in> set ns. unat (tn_expire n - tm_time T) < 2 ^ 31 \<Longrightarrow>
   \<exists>T'. add_nodes ns T = Some T' \<and> timer_wf T' \<and> tm_time T' = tm_time T \<and>
     (\<forall>e. pending T' e = pending T e @ filter (\<lambda>n. tn_expire n = e) ns)"
proof (induction ns arbitrary: T)
  case (Cons n ns)
  then obtain T1 where T1: "add_node T n = Some T1" "timer_wf T1" "tm_time T1 = tm_time T"
     "pending T1 = (pending T)(tn_expire n := pending T (tn_expire n) @ [n])"
    using add_node_ok [of T n] by auto
  from Cons.IH [OF T1(2)] T1 Cons.prems(2) obtain T2 where "add_nodes ns T1 = Some T2" "timer_wf T2"
    "tm_time T2 = tm_time T1" "\<And>e. pending T2 e = pending T1 e @ filter (\<lambda>n. tn_expire n = e) ns" by auto
  then show ?case using T1 by auto
qed simp

section \<open>Expiry\<close>

lemma near_is_pending:
  assumes wf: "timer_wf T"
  shows "near T ! (unat (tm_time T) mod 256) = pending T (tm_time T)"
proof -
  let ?c = "unat (tm_time T)"
  have p: "place_of ?c ?c = Near (?c mod 256)" by (simp add: place_of_def)
  have "tn_expire n = tm_time T" if "n \<in> set (near T ! (?c mod 256))" for n
  proof -
    have "place_of ?c (unat (tn_expire n)) = Near (?c mod 256)"
      using wf that unfolding timer_wf_def node_ok_def by (metis slot.simps(1) p place_valid)
    then have "unat (tn_expire n) div 256 = ?c div 256 \<and> unat (tn_expire n) mod 256 = ?c mod 256"
      by (auto simp: place_of_def Let_def split: if_splits)
    then show ?thesis by (metis div_mult_mod_eq word_unat_eq_iff)
  qed
  then show ?thesis by (simp add: pending_def p)
qed

lemma execute_ok:
  assumes wf: "timer_wf T"
  shows "\<exists>T'. (\<forall>s. timer_execute push T s = map_option (Pair T') (dispatch_list push (pending T (tm_time T)) s)) \<and>
     timer_wf T' \<and> tm_time T' = tm_time T \<and> pending T' = (pending T)(tm_time T := [])"
proof -
  let ?c = "unat (tm_time T)" let ?i = "?c mod 256" let ?T = "set_slot T (Near ?i) []"
  have shape: "timer_shape T" using wf by (simp add: timer_wf_def)
  then have len: "length (near T) = 256" by (simp add: timer_shape_def)
  have v: "valid_place (Near ?i)" by simp
  have p: "place_of ?c ?c = Near ?i" by (simp add: place_of_def)
  have slot: "slot ?T q = (if q = Near ?i then [] else slot T q)" if "valid_place q" for q
    using slot_set_slot [OF shape v that] by auto
  have run: "timer_execute push T s = do {
       s' \<leftarrow> dispatch_list push (near T ! ?i) s; Some (?T, s') }" for s
  proof -
    have stop: "timer_execute push ?T s' = Some (?T, s')" for s'
      unfolding timer_execute.simps [of push ?T] word_and_mask using len by (simp add: set_slot_def)
    show ?thesis
    proof (cases "near T ! ?i = []")
      case True
      then have "?T = T" by (simp add: set_slot_def list_update_same_conv len)
      then show ?thesis using stop True by simp
    next
      case False
      then show ?thesis using stop len unfolding timer_execute.simps [of push T s] word_and_mask
        by (cases "dispatch_list push (near T ! ?i) s") (simp_all add: link_clear_def set_slot_def)
    qed
  qed
  have "timer_wf ?T" using wf shape by (auto simp: timer_wf_def slot split: if_splits)
  moreover have "pending ?T e = ((pending T)(tm_time T := [])) e" for e
  proof (cases "place_of ?c (unat e) = Near ?i")
    case True
    then have "e = tm_time T"
      by (auto simp: place_of_def Let_def split: if_splits) (metis div_mult_mod_eq word_unat_eq_iff)
    then show ?thesis using True slot [OF v] by (simp add: pending_def)
  next
    case False
    then have "e \<noteq> tm_time T" using p by auto
    then show ?thesis using False slot [OF place_valid] by (simp add: pending_def)
  qed
  moreover have "timer_execute push T s = map_option (Pair ?T) (dispatch_list push (pending T (tm_time T)) s)" for s
    unfolding run near_is_pending [OF wf] by (cases "dispatch_list push (pending T (tm_time T)) s") simp_all
  ultimately show ?thesis by (intro exI [of _ ?T]) auto
qed


section \<open>The cascade\<close>

lemma and_int_mask: "(x AND of_int (2 ^ n - 1) = 0) \<longleftrightarrow> unat x mod 2 ^ n = 0" for x :: u32
proof -
  have "x AND of_int (2 ^ n - 1) = take_bit n x" by (simp add: take_bit_eq_mask mask_eq_exp_minus_1)
  then have "x AND of_int (2 ^ n - 1) = 0 \<longleftrightarrow> unat (take_bit n x) = 0" by (simp add: unat_eq_0)
  then show ?thesis by (simp only: unsigned_take_bit_eq) (simp add: take_bit_eq_mod)
qed

lemma shift_loop_step:
  assumes "i \<le> 3"
  shows "shift_loop T ct (2 ^ level_shift i) (drop_bit (level_shift i) ct) (int i) =
    (if unat ct mod 2 ^ level_shift i \<noteq> 0 then Some T
     else if unat ct div 2 ^ level_shift i mod 64 \<noteq> 0 then move_list T (int i) (int (unat ct div 2 ^ level_shift i mod 64))
     else if i < 3 then shift_loop T ct (2 ^ level_shift (Suc i)) (drop_bit (level_shift (Suc i)) ct) (int (Suc i))
     else None)"
proof -
  have idx: "uint (drop_bit (level_shift i) ct AND TIME_LEVEL_MASK) = int (unat ct div 2 ^ level_shift i mod 64)"
    unfolding word_and_mask unat_drop_bit_eq drop_bit_eq_div [of _ "unat ct"] ..
  have next_mask: "cint (2 ^ level_shift i * 2 ^ TIME_LEVEL_SHIFT) = (if i < 3 then Some (2 ^ level_shift (Suc i)) else None)"
  proof -
    have "2 ^ level_shift i * 2 ^ TIME_LEVEL_SHIFT = (2 ^ level_shift (Suc i) :: int)"
      by (simp add: level_shift_def TIME_LEVEL_SHIFT_def power_add)
    moreover consider "i = 0" | "i = 1" | "i = 2" | "i = 3" using assms by linarith
    then have "cint (2 ^ level_shift (Suc i)) = (if i < 3 then Some (2 ^ level_shift (Suc i)) else None)"
      by cases (simp_all add: level_shift_def cint_def cint_ok_def)
    ultimately show ?thesis by simp
  qed
  have "drop_bit TIME_LEVEL_SHIFT (drop_bit (level_shift i) ct) = drop_bit (level_shift (Suc i)) ct"
    by (simp add: level_shift_def TIME_LEVEL_SHIFT_def)
  then show ?thesis
    by (subst shift_loop.simps) (simp add: and_int_mask [simplified] idx next_mask Let_def add.commute)
qed

definition move_place :: "timer \<Rightarrow> place option \<Rightarrow> timer option" where
  "move_place T p = (case p of Some (Level i j) \<Rightarrow> move_list T (int i) (int j) | _ \<Rightarrow> Some T)"

text \<open>The loop ends at level 3 at the latest, before the mask leaves the range of \<open>int\<close>.\<close>

lemma shift_loop_eq:
  assumes "ct \<noteq> 0"
  shows "shift_loop T ct (2 ^ level_shift 0) (drop_bit (level_shift 0) ct) (int 0) = move_place T (moved_place (unat ct))"
proof -
  define L where "L i = shift_loop T ct (2 ^ level_shift i) (drop_bit (level_shift i) ct) (int i)" for i
  define r where "r i = unat ct mod 2 ^ level_shift i" for i
  define q where "q i = unat ct div 2 ^ level_shift i mod 64" for i
  have step: "L i = (if r i \<noteq> 0 then Some T else if q i \<noteq> 0 then move_list T (int i) (int (q i))
      else if i < 3 then L (Suc i) else None)" if "i \<le> 3" for i
    using shift_loop_step [OF that, of T ct] by (simp only: L_def r_def q_def)
  have "(2 :: nat) ^ level_shift (Suc i) = 2 ^ level_shift i * 64" for i by (simp add: level_shift_def power_add)
  then have r: "r (Suc i) = 2 ^ level_shift i * q i + r i" for i
    unfolding r_def q_def by (simp only: mod_mult2_eq)
  have "unat ct < 2 ^ LENGTH(32)" by (rule unsigned_less)
  then have "unat ct = r 4" by (simp add: r_def level_shift_def)
  moreover have "unat ct \<noteq> 0" using assms by (simp add: unat_eq_0)
  ultimately have top: "r 3 = 0 \<Longrightarrow> q 3 \<noteq> 0" using r [of 3] by auto
  have "moved_place (unat ct) = (if r 0 \<noteq> 0 then None else if q 0 \<noteq> 0 then Some (Level 0 (q 0)) else if q 1 \<noteq> 0 then Some (Level 1 (q 1))
      else if q 2 \<noteq> 0 then Some (Level 2 (q 2)) else Some (Level 3 (q 3)))"
    by (simp add: moved_place_def r_def q_def level_shift_def)
  moreover have "L 0 = move_place T (if r 0 \<noteq> 0 then None else if q 0 \<noteq> 0 then Some (Level 0 (q 0)) else if q 1 \<noteq> 0 then Some (Level 1 (q 1))
      else if q 2 \<noteq> 0 then Some (Level 2 (q 2)) else Some (Level 3 (q 3)))"
  proof -
    have z: "r 1 = 0 \<longleftrightarrow> q 0 = 0 \<and> r 0 = 0" "r 2 = 0 \<longleftrightarrow> q 1 = 0 \<and> r 1 = 0" "r 3 = 0 \<longleftrightarrow> q 2 = 0 \<and> r 2 = 0"
      using r [of 0] r [of 1, unfolded Suc_1] r [of 2] by simp_all
    have "L 0 = (if r 0 \<noteq> 0 then Some T else if q 0 \<noteq> 0 then move_list T 0 (int (q 0)) else L 1)"
      "L 1 = (if r 1 \<noteq> 0 then Some T else if q 1 \<noteq> 0 then move_list T 1 (int (q 1)) else L 2)"
      "L 2 = (if r 2 \<noteq> 0 then Some T else if q 2 \<noteq> 0 then move_list T 2 (int (q 2)) else L 3)"
      "L 3 = (if r 3 \<noteq> 0 then Some T else if q 3 \<noteq> 0 then move_list T 3 (int (q 3)) else None)"
      using step [of 0] step [of 1, unfolded Suc_1] step [of 2] step [of 3] by simp_all
    then show ?thesis using z top by (auto simp: move_place_def)
  qed
  ultimately show ?thesis by (simp only: L_def)
qed

lemma timer_shift_eq:
  "timer_shift T = move_place (T\<lparr>tm_time := tm_time T + 1\<rparr>) (moved_place (unat (tm_time T + 1)))"
proof (cases "tm_time T + 1 = 0")
  case True
  then show ?thesis by (simp add: timer_shift_def Let_def moved_place_def move_place_def)
next
  case False
  then have "timer_shift T = shift_loop (T\<lparr>tm_time := tm_time T + 1\<rparr>) (tm_time T + 1) (2 ^ level_shift 0)
      (drop_bit (level_shift 0) (tm_time T + 1)) (int 0)"
    by (simp add: timer_shift_def Let_def timer_consts level_shift_def)
  then show ?thesis by (simp only: shift_loop_eq [OF False])
qed

lemma due_after:
  fixes c e :: u32
  assumes "unat (e - c) < 2 ^ 31" "e \<noteq> c" "unat e div 2 ^ 26 = unat c div 2 ^ 26"
  shows "unat c < unat e"
proof (rule ccontr)
  assume "\<not> ?thesis"
  moreover have "unat e \<noteq> unat c" using assms(2) by (simp add: word_unat_eq_iff)
  ultimately have less: "unat e < unat c" by simp
  then have "unat (e - c) = unat e + 2 ^ 32 - unat c"
    by (simp add: unat_sub_if')
  moreover have "unat c < unat e + 2 ^ 26"
  proof -
    have "unat c = 2 ^ 26 * (unat c div 2 ^ 26) + unat c mod 2 ^ 26" by simp
    moreover have "unat e = 2 ^ 26 * (unat c div 2 ^ 26) + unat e mod 2 ^ 26" unfolding assms(3) [symmetric] by simp
    moreover have "unat c mod 2 ^ 26 < 2 ^ 26" by simp
    ultimately show ?thesis by linarith
  qed
  ultimately show False using assms(1) by simp
qed

text \<open>A node that is not in the list to be moved keeps its place when the clock advances.\<close>

lemma node_ok_next:
  assumes wf: "timer_wf T" and due: "pending T (tm_time T) = []"
    and q: "valid_place q" "moved_place (unat (tm_time T + 1)) \<noteq> Some q" "n \<in> set (slot T q)"
  shows "node_ok (tm_time T + 1) q n"
proof -
  let ?c = "tm_time T" and ?e = "tn_expire n"
  have nx: "unat (?c + 1) = (unat ?c + 1) mod 2 ^ 32" by (simp add: unat_word_ariths)
  have b: "unat x < 2 ^ 32" for x :: u32 using unsigned_less [of x] by simp
  have n: "place_of (unat ?c) (unat ?e) = q" "unat (?e - ?c) < 2 ^ 31"
    using wf q by (auto simp: timer_wf_def node_ok_def)
  have ne: "?e \<noteq> ?c" using due pending_set [OF wf, of n ?c] q by auto
  have "place_of (unat (?c + 1)) (unat ?e) = q"
    using place_next [of "unat ?c" "unat ?e"] b due_after [OF n(2) ne] n(1) q(2) unfolding nx by fastforce
  moreover have "unat (?e - ?c - 1) = unat (?e - ?c) - 1" using ne by (simp add: unat_minus_one)
  then have "unat (?e - (?c + 1)) < 2 ^ 31" using n(2) by (simp add: diff_diff_add)
  ultimately show ?thesis by (simp add: node_ok_def)
qed

text \<open>So the timers of an expiry time whose list is not moved are found where they were.\<close>

lemma pending_next:
  assumes wf: "timer_wf T" and due: "pending T (tm_time T) = []"
    and e: "moved_place (unat (tm_time T + 1)) \<noteq> Some (place_of (unat (tm_time T)) (unat e))"
    and t: "tm_time T' = tm_time T + 1"
    and sub: "\<And>q. valid_place q \<Longrightarrow> moved_place (unat (tm_time T + 1)) \<noteq> Some q \<Longrightarrow> slot T' q = slot T q"
    and moved: "\<And>q. valid_place q \<Longrightarrow> moved_place (unat (tm_time T + 1)) = Some q \<Longrightarrow> slot T' q = []"
  shows "pending T' e = pending T e"
proof (cases "place_of (unat (tm_time T + 1)) (unat e) = place_of (unat (tm_time T)) (unat e)")
  case True
  then show ?thesis using sub [OF place_valid e] by (simp add: pending_def t)
next
  case ne: False
  have "n \<notin> set (slot T q)" if "valid_place q" "tn_expire n = e" for n q
  proof
    assume n: "n \<in> set (slot T q)"
    then have q: "q = place_of (unat (tm_time T)) (unat e)" using wf that by (auto simp: timer_wf_def node_ok_def)
    then show False using node_ok_next [OF wf due that(1) _ n] e ne that(2) by (simp add: node_ok_def)
  qed
  then have "pending T e = []" "pending T' e = []"
    unfolding pending_def using sub moved place_valid by (auto simp: filter_empty_conv) (metis empty_iff list.set(1))
  then show ?thesis by simp
qed

lemma clear_place:
  assumes wf: "timer_wf T" and due: "pending T (tm_time T) = []"
    and p: "moved_place (unat (tm_time T + 1)) = Some p"
  defines "T' \<equiv> set_slot (T\<lparr>tm_time := tm_time T + 1\<rparr>) p []"
  shows "timer_wf T' \<and> (\<forall>e. pending T' e @ filter (\<lambda>n. tn_expire n = e) (slot T p) = pending T e)"
proof -
  let ?c = "tm_time T" and ?T = "T\<lparr>tm_time := tm_time T + 1\<rparr>"
  have shape: "timer_shape T" using wf by (simp add: timer_wf_def)
  then have shape': "timer_shape ?T" by (simp add: timer_shape_def)
  have vp: "valid_place p" using p by (auto simp: moved_place_def split: if_splits)
  have same: "slot ?T q = slot T q" for q by (cases q) simp_all
  have slot: "slot T' q = (if q = p then [] else slot T q)" if "valid_place q" for q
    unfolding T'_def using slot_set_slot [OF shape' vp that] same by auto
  have wf': "timer_wf T'"
    using node_ok_next [OF wf due] p slot shape' unfolding timer_wf_def T'_def by (auto split: if_splits)
  have "pending T' e @ filter (\<lambda>n. tn_expire n = e) (slot T p) = pending T e" for e
  proof (cases "place_of (unat ?c) (unat e) = p")
    case True
    have "n \<notin> set (pending T' e)" for n
    proof
      assume "n \<in> set (pending T' e)"
      then obtain q where q: "tn_expire n = e" "valid_place q" "n \<in> set (slot T' q)" using pending_set [OF wf'] by blast
      then have "q \<noteq> p" "n \<in> set (slot T q)" using slot by (auto split: if_splits)
      then show False using wf q True by (auto simp: timer_wf_def node_ok_def)
    qed
    then have "pending T' e = []" by (metis list.set_intros(1) neq_Nil_conv)
    then show ?thesis using True by (simp add: pending_def)
  next
    case False
    have "filter (\<lambda>n. tn_expire n = e) (slot T p) = []"
      using wf vp False by (auto simp: timer_wf_def node_ok_def filter_empty_conv)
    moreover have "pending T' e = pending T e"
      by (rule pending_next [OF wf due]) (use p False slot in \<open>auto simp: T'_def\<close>)
    ultimately show ?thesis by simp
  qed
  then show ?thesis using wf' by simp
qed

lemma time_step_wf:
  assumes wf: "timer_wf T" and due: "pending T (tm_time T) = []"
    and p: "moved_place (unat (tm_time T + 1)) = None"
  shows "timer_wf (T\<lparr>tm_time := tm_time T + 1\<rparr>) \<and> pending (T\<lparr>tm_time := tm_time T + 1\<rparr>) = pending T"
proof -
  let ?T = "T\<lparr>tm_time := tm_time T + 1\<rparr>"
  have same: "slot ?T q = slot T q" for q by (cases q) simp_all
  have "timer_wf ?T"
    using wf node_ok_next [OF wf due] p same by (auto simp: timer_wf_def timer_shape_def)
  moreover have "pending ?T e = pending T e" for e
    by (rule pending_next [OF wf due]) (use p same in auto)
  ultimately show ?thesis by auto
qed

lemma shift_ok:
  assumes wf: "timer_wf T" and due: "pending T (tm_time T) = []"
  shows "\<exists>T'. timer_shift T = Some T' \<and> timer_wf T' \<and> tm_time T' = tm_time T + 1 \<and> pending T' = pending T"
proof (cases "moved_place (unat (tm_time T + 1))")
  case None
  then show ?thesis using time_step_wf [OF wf due None] by (auto simp: timer_shift_eq move_place_def)
next
  case (Some p)
  let ?T = "T\<lparr>tm_time := tm_time T + 1\<rparr>"
  obtain i j where p: "p = Level i j" "i < 4" "j < 64"
    using Some by (auto simp: moved_place_def split: if_splits)
  let ?T' = "set_slot ?T p []"
  have c: "timer_wf ?T'" "\<And>e. pending ?T' e @ filter (\<lambda>n. tn_expire n = e) (slot T p) = pending T e"
    using clear_place [OF wf due Some] by auto
  have shape: "timer_shape T" using wf by (simp add: timer_wf_def)
  have "move_list ?T (int i) (int j) = add_nodes (slot T p) ?T'"
    using p shape shape_row [OF shape p(2)] by (simp add: move_list_def link_clear_def set_slot_def timer_shape_def)
  moreover have "unat (tn_expire n - (tm_time T + 1)) < 2 ^ 31" if n: "n \<in> set (slot T p)" for n
  proof -
    have "valid_place p" using p by simp
    then have "unat (tn_expire n - tm_time T) < 2 ^ 31" "tn_expire n \<noteq> tm_time T"
      using wf n due pending_set [OF wf, of n "tm_time T"] by (auto simp: timer_wf_def node_ok_def)
    then show ?thesis using unat_minus_one [of "tn_expire n - tm_time T"] by (simp add: diff_diff_add)
  qed
  ultimately show ?thesis
    using add_nodes_ok [OF c(1), of "slot T p"] c(2) p Some by (auto simp: timer_shift_eq move_place_def fun_eq_iff)
qed

lemma dispatch_append: "dispatch_list push (xs @ ys) s = do { s' \<leftarrow> dispatch_list push xs s; dispatch_list push ys s' }"
  by (induction xs arbitrary: s) (auto simp: Option.bind_assoc split: prod.splits intro!: Option.bind_cong)

text \<open>One tick: what is due now, then what is due at the next time, in the order of the calls
  that added them; all other timers stay pending.\<close>

lemma update_ok:
  assumes wf: "timer_wf T"
  defines "fired \<equiv> pending T (tm_time T) @ pending T (tm_time T + 1)"
  shows "\<exists>T'. (\<forall>s. timer_update push T s = map_option (Pair T') (dispatch_list push fired s)) \<and>
     timer_wf T' \<and> tm_time T' = tm_time T + 1 \<and>
     pending T' = (pending T)(tm_time T := [], tm_time T + 1 := [])"
proof -
  obtain T1 where T1: "\<And>s. timer_execute push T s = map_option (Pair T1) (dispatch_list push (pending T (tm_time T)) s)"
    "timer_wf T1" "tm_time T1 = tm_time T" "pending T1 = (pending T)(tm_time T := [])"
    using execute_ok [OF wf, of push] by blast
  obtain T2 where T2: "timer_shift T1 = Some T2" "timer_wf T2" "tm_time T2 = tm_time T + 1" "pending T2 = pending T1"
    using shift_ok [OF T1(2)] T1(3,4) by auto
  obtain T3 where T3: "\<And>s. timer_execute push T2 s = map_option (Pair T3) (dispatch_list push (pending T2 (tm_time T2)) s)"
    "timer_wf T3" "tm_time T3 = tm_time T2" "pending T3 = (pending T2)(tm_time T2 := [])"
    using execute_ok [OF T2(2), of push] by blast
  have "pending T2 (tm_time T2) = pending T (tm_time T + 1)" using T1(4) T2(3,4) by simp
  then have "timer_update push T s = map_option (Pair T3) (dispatch_list push fired s)" for s
    unfolding timer_update_def T1(1) fired_def dispatch_append
    by (cases "dispatch_list push (pending T (tm_time T)) s") (simp_all add: T2 T3(1))
  then show ?thesis using T1 T2 T3 by (intro exI [of _ T3]) auto
qed


lemma u32_of_nat_inj:
  assumes "i < 2 ^ 32" "j < 2 ^ 32"
  shows "(of_nat i :: u32) = of_nat j \<longleftrightarrow> i = j"
proof -
  have "unat (of_nat i :: u32) = i" "unat (of_nat j :: u32) = j"
    using assms by (simp_all add: unsigned_of_nat take_bit_nat_eq_self)
  then show ?thesis by (metis (no_types))
qed

section \<open>The contract of a timer service\<close>

text \<open>
  A clock and, for each time, the events that expire then.  A tick advances the clock and hands
  out what is due; the client sees every event exactly once, at the tick it was set for.
\<close>

fun ticks :: "('s \<Rightarrow> ('e list \<times> 's) option) \<Rightarrow> nat \<Rightarrow> 's \<Rightarrow> ('e list list \<times> 's) option" where
  "ticks tick 0 s = Some ([], s)"
| "ticks tick (Suc n) s = do { (es, s1) \<leftarrow> tick s; (rest, s2) \<leftarrow> ticks tick n s1; Some (es # rest, s2) }"

locale timer_service =
  fixes inv :: "'s \<Rightarrow> bool"
    and now :: "'s \<Rightarrow> u32"
    and pend :: "'s \<Rightarrow> u32 \<Rightarrow> 'e list"
    and add :: "'e \<Rightarrow> int \<Rightarrow> 's \<Rightarrow> 's option"
    and tick :: "'s \<Rightarrow> ('e list \<times> 's) option"
  assumes add_law: "inv s \<Longrightarrow> 0 < d \<Longrightarrow> d < 2 ^ 31 \<Longrightarrow>
      \<exists>s'. add ev d s = Some s' \<and> inv s' \<and> now s' = now s \<and>
        pend s' = (pend s)(now s + of_int d := pend s (now s + of_int d) @ [ev])"
    and tick_law: "inv s \<Longrightarrow> \<exists>s'. tick s = Some (pend s (now s) @ pend s (now s + 1), s') \<and> inv s' \<and>
        now s' = now s + 1 \<and> pend s' = (pend s)(now s := [], now s + 1 := [])"
begin

lemma ticks_fire:
  "inv s \<Longrightarrow> pend s (now s) = [] \<Longrightarrow> n < 2 ^ 32 \<Longrightarrow>
   \<exists>s'. ticks tick n s = Some (map (\<lambda>i. pend s (now s + of_nat i)) [1..<Suc n], s') \<and> inv s' \<and> now s' = now s + of_nat n \<and>
     (\<forall>e. pend s' e = (if e \<in> (\<lambda>i. now s + of_nat i) ` {0..n} then [] else pend s e))"
proof (induction n arbitrary: s)
  case 0
  then show ?case by auto
next
  case (Suc n)
  obtain s1 where s1: "tick s = Some (pend s (now s + 1), s1)" "inv s1" "now s1 = now s + 1"
    "pend s1 = (pend s)(now s := [], now s + 1 := [])"
    using tick_law [OF Suc.prems(1)] Suc.prems(2) by auto
  obtain s2 where s2: "ticks tick n s1 = Some (map (\<lambda>i. pend s1 (now s1 + of_nat i)) [1..<Suc n], s2)" "inv s2"
    "now s2 = now s1 + of_nat n"
    "\<And>e. pend s2 e = (if e \<in> (\<lambda>i. now s1 + of_nat i) ` {0..n} then [] else pend s1 e)"
    using Suc.IH [OF s1(2)] s1 Suc.prems(3) by auto
  have keep: "pend s1 (now s1 + of_nat i) = pend s (now s + of_nat (Suc i))" if "i \<in> {1..<Suc n}" for i
  proof -
    have "(of_nat (Suc i) :: u32) \<noteq> 0" "(of_nat (Suc i) :: u32) \<noteq> 1"
      using that Suc.prems(3) by (simp_all only: word_unat_eq_iff) (simp_all add: unsigned_of_nat take_bit_eq_mod del: of_nat_Suc)
    then show ?thesis unfolding s1 by (simp add: add.assoc)
  qed
  have "map (\<lambda>i. pend s (now s + of_nat i)) [1..<Suc (Suc n)] =
      pend s (now s + 1) # map (\<lambda>i. pend s1 (now s1 + of_nat i)) [1..<Suc n]"
  proof -
    have "[1..<Suc (Suc n)] = 1 # map Suc [1..<Suc n]" by (simp add: upt_conv_Cons map_Suc_upt del: upt_Suc)
    then show ?thesis using keep by (simp del: upt_Suc)
  qed
  moreover have "(\<lambda>i. now s + of_nat i) ` {0..Suc n} = insert (now s) ((\<lambda>i. now s1 + of_nat i) ` {0..n})"
  proof -
    have "{0..Suc n} = insert 0 (Suc ` {0..n})" by (auto simp: image_iff)
    then show ?thesis by (simp only: image_insert image_image s1(3) of_nat_Suc semiring_1_class.of_nat_0 add.assoc add_0_right)
  qed
  moreover have "now s + 1 \<in> (\<lambda>i. now s1 + of_nat i) ` {0..n}" using s1(3) by force
  ultimately show ?case using s1 s2 by (auto simp: add.assoc)
qed

text \<open>An event set for \<open>d\<close> ticks from now comes out in tick \<open>d\<close>, after the events that were
  already due then, and the other ticks hand out what they would have handed out.\<close>

lemma fires_on_time:
  assumes "inv s" "pend s (now s) = []" "0 < d" "d < 2 ^ 31" "nat d \<le> n" "n < 2 ^ 32"
  obtains s1 outs s2 where "add ev d s = Some s1" "ticks tick n s1 = Some (outs, s2)" "length outs = n"
    "outs ! (nat d - 1) = pend s (now s + of_int d) @ [ev]"
    "\<And>i. i < n \<Longrightarrow> i \<noteq> nat d - 1 \<Longrightarrow> outs ! i = pend s (now s + of_nat (Suc i))"
proof -
  obtain s1 where s1: "add ev d s = Some s1" "inv s1" "now s1 = now s"
     "pend s1 = (pend s)(now s + of_int d := pend s (now s + of_int d) @ [ev])"
    using add_law [OF assms(1,3,4)] by blast
  have d0: "(of_int d :: u32) = of_nat (nat d)" using assms(3) by (metis int_nat_eq less_imp_le of_int_of_nat_eq)
  have dn: "nat d < 2 ^ 32" "nat d \<noteq> 0" using assms(3,4) by auto
  have nz: "(of_int d :: u32) \<noteq> 0"
    unfolding d0 using u32_of_nat_inj [OF dn(1) zero_less_power [OF zero_less_numeral]] dn(2) unfolding semiring_1_class.of_nat_0 by blast
  obtain s2 where s2: "ticks tick n s1 = Some (map (\<lambda>i. pend s1 (now s1 + of_nat i)) [1..<Suc n], s2)"
    using ticks_fire [OF s1(2), of n] s1 assms(2,6) nz by auto
  show thesis
  proof (rule that [OF s1(1) s2])
    show "map (\<lambda>i. pend s1 (now s1 + of_nat i)) [1..<Suc n] ! (nat d - 1) = pend s (now s + of_int d) @ [ev]"
    proof -
      have "[1..<Suc n] ! (nat d - 1) = nat d" "nat d - 1 < length [1..<Suc n]"
        using dn(2) assms(5) by (simp_all del: upt_Suc)
      then show ?thesis unfolding s1(3,4) d0 by (simp del: upt_Suc)
    qed
    show "map (\<lambda>i. pend s1 (now s1 + of_nat i)) [1..<Suc n] ! i = pend s (now s + of_nat (Suc i))"
      if "i < n" "i \<noteq> nat d - 1" for i
    proof -
      have "(of_nat (Suc i) :: u32) \<noteq> of_int d" unfolding d0
        using u32_of_nat_inj [of "Suc i" "nat d"] that assms(6) dn by linarith
      moreover have "[1..<Suc n] ! i = Suc i" using that by (simp del: upt_Suc)
      ultimately show ?thesis unfolding s1(3,4) using that by (simp del: upt_Suc of_nat_Suc)
    qed
  qed simp
qed

end


text \<open>The wheel with the deliveries collected in a list.\<close>

definition collect :: "u32 \<Rightarrow> skynet_message \<Rightarrow> (u32 \<times> int) list \<Rightarrow> (int \<times> (u32 \<times> int) list) option" where
  "collect h m out = Some (0, out @ [(h, msg_session m)])"

definition event_of :: "timer_node \<Rightarrow> u32 \<times> int" where
  "event_of n = (te_handle (tn_event n), te_session (tn_event n))"

definition wheel_add :: "u32 \<times> int \<Rightarrow> int \<Rightarrow> timer \<Rightarrow> timer option" where
  "wheel_add ev d T = map_option (\<lambda>(_, T', _). T') (skynet_timeout collect (fst ev) d (snd ev) T [])"

definition wheel_tick :: "timer \<Rightarrow> ((u32 \<times> int) list \<times> timer) option" where
  "wheel_tick T = map_option (\<lambda>(T', out). (out, T')) (timer_update collect T [])"

definition wheel_pending :: "timer \<Rightarrow> u32 \<Rightarrow> (u32 \<times> int) list" where
  "wheel_pending T e = map event_of (pending T e)"

lemma dispatch_collect: "dispatch_list collect ns out = Some (out @ map event_of ns)"
  by (induction ns arbitrary: out) (simp_all add: collect_def timer_message_def event_of_def)

lemma timer_add_ok:
  assumes "timer_wf T" "0 < d" "d < 2 ^ 31"
  shows "\<exists>T'. timer_add T ev d = Some T' \<and> timer_wf T' \<and> tm_time T' = tm_time T \<and>
    pending T' = (pending T)(tm_time T + of_int d := pending T (tm_time T + of_int d) @ [\<lparr>tn_expire = tm_time T + of_int d, tn_event = ev\<rparr>])"
proof -
  have "unat (of_int d :: u32) < 2 ^ 31" using assms(2,3) by (simp add: unat_eq_nat_uint uint_word_of_int nat_less_iff)
  then show ?thesis
    using add_node_ok [OF assms(1), of "\<lparr>tn_expire = of_int d + tm_time T, tn_event = ev\<rparr>"] by (simp add: timer_add_def add.commute)
qed

interpretation wheel: timer_service timer_wf tm_time wheel_pending wheel_add wheel_tick
proof
  fix T d ev assume "timer_wf T" "0 < d" "d < (2 :: int) ^ 31"
  then show "\<exists>T'. wheel_add ev d T = Some T' \<and> timer_wf T' \<and> tm_time T' = tm_time T \<and>
      wheel_pending T' = (wheel_pending T)(tm_time T + of_int d := wheel_pending T (tm_time T + of_int d) @ [ev])"
    using timer_add_ok [of T d "\<lparr>te_handle = fst ev, te_session = snd ev\<rparr>"]
    by (auto simp: wheel_add_def skynet_timeout_def wheel_pending_def event_of_def fun_eq_iff)
next
  fix T assume "timer_wf T"
  then show "\<exists>T'. wheel_tick T = Some (wheel_pending T (tm_time T) @ wheel_pending T (tm_time T + 1), T') \<and> timer_wf T' \<and>
      tm_time T' = tm_time T + 1 \<and> wheel_pending T' = (wheel_pending T)(tm_time T := [], tm_time T + 1 := [])"
    using update_ok [of T collect] by (auto simp: wheel_tick_def dispatch_collect wheel_pending_def fun_eq_iff)
qed

lemma create_timer_ok: "timer_wf timer_create_timer \<and> pending timer_create_timer = (\<lambda>_. [])"
proof -
  have slot: "slot timer_create_timer p = []" if "valid_place p" for p
    using that by (cases p) (simp_all add: timer_create_timer_def timer_consts)
  have "timer_shape timer_create_timer" by (simp add: timer_shape_def timer_create_timer_def timer_consts)
  then show ?thesis using slot place_valid by (auto simp: timer_wf_def pending_def)
qed

text \<open>C8: one call of \<open>timer_update\<close> delivers exactly the timers that expire at the current time and at
  the next one, in the order in which they were set, whatever \<open>skynet_context_push\<close> does; it
  advances the clock by one and leaves every other timer pending, through the cascades of all
  levels and the wrap-around of the 32 bit clock.  The loop of \<open>timer_shift\<close> ends before its
  mask overflows.\<close>

theorem timer_update_exact:
  assumes "timer_wf T"
  shows "\<exists>T'. (\<forall>s. timer_update push T s =
       map_option (Pair T') (dispatch_list push (pending T (tm_time T) @ pending T (tm_time T + 1)) s)) \<and>
     timer_wf T' \<and> tm_time T' = tm_time T + 1 \<and>
     pending T' = (pending T)(tm_time T := [], tm_time T + 1 := [])"
  by (rule update_ok [OF assms])

theorem timer_update_exact_witness:
  "\<exists>T T'. skynet_timeout collect 9 1 4 timer_create_timer [] = Some (4, T, []) \<and>
     timer_update collect T [] = Some (T', [(9, 4)]) \<and> pending T' = (\<lambda>_. [])"
proof -
  let ?ev = "\<lparr>te_handle = 9, te_session = 4\<rparr>"
  have c: "timer_wf timer_create_timer" "pending timer_create_timer = (\<lambda>_. [])" "tm_time timer_create_timer = 0"
    using create_timer_ok by (simp_all add: timer_create_timer_def)
  obtain T where T: "timer_add timer_create_timer ?ev 1 = Some T" "timer_wf T" "tm_time T = 0"
    "pending T = (\<lambda>_. [])(1 := [\<lparr>tn_expire = 1, tn_event = ?ev\<rparr>])"
    using timer_add_ok [OF c(1), of 1 ?ev] c by auto
  have "skynet_timeout collect 9 1 4 timer_create_timer [] = Some (4, T, [])"
    using T(1) by (simp add: skynet_timeout_def)
  moreover obtain T' where "\<And>s. timer_update collect T s = map_option (Pair T') (dispatch_list collect (pending T 0 @ pending T 1) s)"
      "pending T' = (pending T)(0 := [], 1 := [])"
    using timer_update_exact [OF T(2), of collect] T(3) by (auto simp: fun_eq_iff)
  ultimately show ?thesis using T(4) by (auto simp: collect_def timer_message_def fun_eq_iff)
qed

text \<open>C9: a timeout set for \<open>d\<close> ticks is delivered exactly once, in tick \<open>d\<close>, after the timeouts already
  due at that tick; no other tick is disturbed.\<close>

theorem timeout_fires_on_time:
  assumes "timer_wf T" "pending T (tm_time T) = []" "0 < d" "d < 2 ^ 31" "nat d \<le> n" "n < 2 ^ 32"
  shows "\<exists>T1 outs T2. skynet_timeout collect handle d session T [] = Some (session, T1, []) \<and>
     ticks wheel_tick n T1 = Some (outs, T2) \<and> length outs = n \<and>
     outs ! (nat d - 1) = wheel_pending T (tm_time T + of_int d) @ [(handle, session)] \<and>
     (\<forall>i < n. i \<noteq> nat d - 1 \<longrightarrow> outs ! i = wheel_pending T (tm_time T + of_nat (Suc i)))"
proof -
  have "wheel_pending T (tm_time T) = []" using assms(2) by (simp add: wheel_pending_def)
  then obtain T1 outs T2 where "wheel_add (handle, session) d T = Some T1" "ticks wheel_tick n T1 = Some (outs, T2)" "length outs = n"
    "outs ! (nat d - 1) = wheel_pending T (tm_time T + of_int d) @ [(handle, session)]"
    "\<And>i. i < n \<Longrightarrow> i \<noteq> nat d - 1 \<Longrightarrow> outs ! i = wheel_pending T (tm_time T + of_nat (Suc i))"
    using wheel.fires_on_time [OF assms(1) _ assms(3-6), of "(handle, session)"] by metis
  moreover from this have "skynet_timeout collect handle d session T [] = Some (session, T1, [])"
    using assms(3) by (auto simp: wheel_add_def skynet_timeout_def split: bind_splits)
  ultimately show ?thesis by blast
qed

theorem timeout_fires_on_time_witness:
  "\<exists>T1 outs T2. skynet_timeout collect 9 300 4 timer_create_timer [] = Some (4, T1, []) \<and>
     ticks wheel_tick 300 T1 = Some (outs, T2) \<and> outs ! 299 = [(9, 4)] \<and> outs ! 298 = []"
proof -
  have p: "timer_wf timer_create_timer" "pending timer_create_timer = (\<lambda>_. [])" using create_timer_ok by auto
  then have w: "wheel_pending timer_create_timer e = []" for e by (simp add: wheel_pending_def)
  obtain T1 outs T2 where "skynet_timeout collect 9 300 4 timer_create_timer [] = Some (4, T1, [])"
    "ticks wheel_tick 300 T1 = Some (outs, T2)" "outs ! (nat 300 - 1) = [(9, 4)]"
    "\<forall>i < 300. i \<noteq> nat 300 - 1 \<longrightarrow> outs ! i = []"
    using timeout_fires_on_time [OF p(1), of 300 300 9 4] p(2) w by auto
  then show ?thesis by auto
qed

end
