(* ===== verification/Skynet_Text.thy ===== *)
theory Skynet_Text
  imports Skynet_Prelude
begin

text \<open>
  The string handling that \<open>skynet_server.c\<close>, \<open>skynet_module.c\<close> and \<open>skynet_log.c\<close> rest on: the C
  library functions they call, for the formats and bases they use, and \<open>id_to_hex\<close> and
  \<open>copy_name\<close>.  A C string is the list of its bytes without the terminating zero.
\<close>

section \<open>C library\<close>

definition bytes :: "string \<Rightarrow> cstring" where "bytes s = map of_char s"

text \<open>\<open>printf\<close> conversions \<open>%x\<close>, \<open>%08x\<close>, \<open>%02x\<close>, \<open>%u\<close> and \<open>%d\<close>.\<close>

definition digit_char :: "nat \<Rightarrow> byte" where
  "digit_char d = (if d < 10 then of_nat (48 + d) else of_nat (87 + d))"

fun show_radix :: "nat \<Rightarrow> nat \<Rightarrow> cstring" where
  "show_radix b n = (if n < b \<or> b < 2 then [digit_char n] else show_radix b (n div b) @ [digit_char (n mod b)])"

declare show_radix.simps [simp del]

definition pad_zero :: "nat \<Rightarrow> cstring \<Rightarrow> cstring" where
  "pad_zero w s = replicate (w - length s) 48 @ s"

definition fmt_x :: "u32 \<Rightarrow> cstring" where "fmt_x w = show_radix 16 (unat w)"
definition fmt_08x :: "u32 \<Rightarrow> cstring" where "fmt_08x w = pad_zero 8 (show_radix 16 (unat w))"
definition fmt_02x :: "byte \<Rightarrow> cstring" where "fmt_02x w = pad_zero 2 (show_radix 16 (unat w))"
definition fmt_u :: "u32 \<Rightarrow> cstring" where "fmt_u w = show_radix 10 (unat w)"
definition fmt_d :: "int \<Rightarrow> cstring" where
  "fmt_d i = (if i < 0 then 45 # show_radix 10 (nat (- i)) else show_radix 10 (nat i))"

text \<open>\<open>strtoul\<close> and \<open>strtol\<close>: white space, a sign, the prefix \<open>0x\<close> (in base 16 or 0, if a digit
  follows), digits; the value saturates.  The result is the value and the rest of the string.\<close>

definition isspace :: "byte \<Rightarrow> bool" where
  "isspace c \<longleftrightarrow> c = 32 \<or> (9 \<le> c \<and> c \<le> 13)"

definition digit_val :: "byte \<Rightarrow> nat option" where
  "digit_val c =
     (if 48 \<le> c \<and> c \<le> 57 then Some (unat c - 48)
      else if 97 \<le> c \<and> c \<le> 122 then Some (unat c - 87)
      else if 65 \<le> c \<and> c \<le> 90 then Some (unat c - 55)
      else None)"

definition is_digit :: "nat \<Rightarrow> byte \<Rightarrow> bool" where
  "is_digit b c \<longleftrightarrow> (case digit_val c of None \<Rightarrow> False | Some d \<Rightarrow> d < b)"

fun read_digits :: "nat \<Rightarrow> nat \<Rightarrow> cstring \<Rightarrow> nat \<times> cstring" where
  "read_digits b acc [] = (acc, [])"
| "read_digits b acc (c # cs) =
     (if is_digit b c then read_digits b (acc * b + the (digit_val c)) cs else (acc, c # cs))"

definition skip_prefix :: "nat \<Rightarrow> cstring \<Rightarrow> nat \<times> cstring" where
  "skip_prefix b s =
     (case s of
        z # x # d # r \<Rightarrow>
          if (b = 16 \<or> b = 0) \<and> z = 48 \<and> (x = 120 \<or> x = 88) \<and> is_digit 16 d then (16, d # r)
          else (if b = 0 then (if z = 48 then 8 else 10) else b, s)
      | z # r \<Rightarrow> (if b = 0 then (if z = 48 then 8 else 10) else b, s)
      | [] \<Rightarrow> (if b = 0 then 10 else b, s))"

text \<open>Sign, magnitude and rest.\<close>

definition read_number :: "nat \<Rightarrow> cstring \<Rightarrow> bool \<times> nat \<times> cstring" where
  "read_number b s =
     (let t = dropWhile isspace s;
          (neg, u) = (case t of c # r \<Rightarrow> if c = 45 then (True, r) else if c = 43 then (False, r) else (False, t)
                      | [] \<Rightarrow> (False, t));
          (b', v) = skip_prefix b u;
          (n, r) = read_digits b' 0 v
      in if r = v then (False, 0, s) else (neg, n, r))"

definition strtoul :: "cstring \<Rightarrow> nat \<Rightarrow> u64" where
  "strtoul s b = (let (neg, n, _) = read_number b s in
     if n \<ge> 2 ^ 64 then - 1 else if neg then - of_nat n else of_nat n)"

definition strtol :: "cstring \<Rightarrow> nat \<Rightarrow> int" where
  "strtol s b = (let (neg, n, _) = read_number b s in
     if neg then max (- (2 ^ 63)) (- int n) else min (2 ^ 63 - 1) (int n))"

text \<open>The conversion of a \<open>long\<close> to an \<open>int\<close>.\<close>

definition to_int :: "int \<Rightarrow> int" where
  "to_int x = sint (of_int x :: u32)"

lemma to_int_id: "- (2 ^ 31) \<le> x \<Longrightarrow> x < 2 ^ 31 \<Longrightarrow> to_int x = x"
  by (simp add: to_int_def signed_of_int signed_take_bit_int_eq_self)

text \<open>\<open>strsep\<close> on a pointer that may be \<open>NULL\<close>: the token and the new pointer.\<close>

definition strsep :: "cstring option \<Rightarrow> byte list \<Rightarrow> cstring option \<times> cstring option" where
  "strsep p delim = (case p of
     None \<Rightarrow> (None, None)
   | Some s \<Rightarrow> (Some (takeWhile (\<lambda>c. c \<notin> set delim) s),
       case dropWhile (\<lambda>c. c \<notin> set delim) s of [] \<Rightarrow> None | _ # r \<Rightarrow> Some r))"

text \<open>\<open>strchr\<close>: the suffix that starts at the character.\<close>

definition strchr :: "cstring \<Rightarrow> byte \<Rightarrow> cstring option" where
  "strchr s c = (case dropWhile (\<lambda>x. x \<noteq> c) s of [] \<Rightarrow> None | t \<Rightarrow> Some t)"

text \<open>\<open>sscanf(s, "%s %s", a, b)\<close>: a word that is missing leaves its buffer unwritten.\<close>

definition scan_word :: "cstring \<Rightarrow> cstring option \<times> cstring" where
  "scan_word s = (let t = dropWhile isspace s; w = takeWhile (\<lambda>c. \<not> isspace c) t in
     (if w = [] then None else Some w, dropWhile (\<lambda>c. \<not> isspace c) t))"

definition sscanf_two_words :: "cstring \<Rightarrow> cstring option \<times> cstring option" where
  "sscanf_two_words s = (let (a, r) = scan_word s in (a, if a = None then None else fst (scan_word r)))"

section \<open>Handles as text\<close>

definition hex_upper :: "cstring" where
  "hex_upper = bytes ''0123456789ABCDEF''"

definition id_to_hex :: "u32 \<Rightarrow> cstring" where
  "id_to_hex ident = 58 # map (\<lambda>i. hex_upper ! unat (drop_bit ((7 - i) * 4) ident AND 0xf)) [0..<8]"

definition GLOBALNAME_LENGTH :: nat where "GLOBALNAME_LENGTH = 16"

definition copy_name :: "cstring \<Rightarrow> byte list" where
  "copy_name addr = (let i = min GLOBALNAME_LENGTH (length addr) in
     take i addr @ replicate (GLOBALNAME_LENGTH - i) 0)"

section \<open>Reading back what was printed\<close>

lemma digit_char_val: "d < 16 \<Longrightarrow> digit_val (digit_char d) = Some d"
proof -
  have "\<forall>d \<in> set [0..<16]. digit_val (digit_char d) = Some d" by code_simp
  moreover assume "d < 16"
  ultimately show ?thesis by simp
qed

lemma read_digits_append:
  "\<forall>c \<in> set xs. is_digit b c \<Longrightarrow> read_digits b acc (xs @ ys) = read_digits b (fst (read_digits b acc xs)) ys"
  by (induction xs arbitrary: acc) auto

lemma show_radix_digits:
  assumes "2 \<le> b" "b \<le> 16"
  shows "\<forall>c \<in> set (show_radix b n). is_digit b c"
  using assms
proof (induction b n rule: show_radix.induct)
  case (1 b n)
  show ?case
  proof (cases "n < b")
    case True
    then show ?thesis using 1 digit_char_val [of n] by (subst show_radix.simps) (simp add: is_digit_def)
  next
    case False
    have "n mod b < b" using 1(2) by simp
    moreover from this have "n mod b < 16" using 1(3) by simp
    ultimately have "is_digit b (digit_char (n mod b))" by (simp add: is_digit_def digit_char_val)
    then show ?thesis using False 1 by (subst show_radix.simps) simp
  qed
qed

lemma read_show_radix:
  assumes "2 \<le> b" "b \<le> 16"
  shows "read_digits b 0 (show_radix b n) = (n, [])"
  using assms
proof (induction b n rule: show_radix.induct)
  case (1 b n)
  have small: "is_digit b (digit_char d) \<and> digit_val (digit_char d) = Some d" if "d < b" for d
    using that 1 digit_char_val [of d] by (simp add: is_digit_def)
  show ?case
  proof (cases "n < b")
    case True
    then show ?thesis using 1 small by (subst show_radix.simps) simp
  next
    case False
    have "n mod b < b" using 1 by simp
    then show ?thesis
      using False 1 small [of "n mod b"] show_radix_digits [of b "n div b"]
      by (subst show_radix.simps) (simp add: read_digits_append)
  qed
qed


lemma digit_not_special:
  assumes "is_digit 16 c"
  shows "\<not> isspace c \<and> c \<noteq> 45 \<and> c \<noteq> 43 \<and> c \<noteq> 120 \<and> c \<noteq> 88"
proof -
  have "digit_val c \<noteq> None" "the (digit_val c) < 16" using assms by (auto simp: is_digit_def split: option.splits)
  then show ?thesis
    by (auto simp: digit_val_def isspace_def not_le word_less_nat_alt word_le_nat_alt split: if_splits)
qed

lemma strtoul_digits:
  assumes "s \<noteq> []" "\<forall>c \<in> set s. is_digit 16 c" "fst (read_digits 16 0 s) < 2 ^ 64"
  shows "strtoul s 16 = of_nat (fst (read_digits 16 0 s))"
proof -
  obtain c cs where s: "s = c # cs" using assms(1) by (cases s) auto
  have c: "\<not> isspace c" "c \<noteq> 45" "c \<noteq> 43" using digit_not_special [of c] assms(2) s by auto
  have "skip_prefix 16 s = (16, s)"
    using assms(2) digit_not_special by (auto simp: skip_prefix_def s split: list.splits)
  moreover have "snd (read_digits 16 acc s) = []" for acc using assms(2) by (induction s arbitrary: acc) auto
  then obtain n where n: "read_digits 16 0 s = (n, [])" by (metis prod.collapse)
  ultimately have "read_number 16 s = (False, n, [])"
    using c unfolding s by (simp add: read_number_def del: read_digits.simps)
  then show ?thesis using assms(3) n by (simp add: strtoul_def)
qed

lemma strtoul_fmt_x: "strtoul (fmt_x h) 16 = ucast h"
proof -
  have r: "read_digits 16 0 (show_radix 16 (unat h)) = (unat h, [])" by (rule read_show_radix) simp_all
  have "show_radix 16 n \<noteq> []" for n by (subst show_radix.simps) simp
  moreover have "unat h < 2 ^ LENGTH(32)" by (rule unsigned_less)
  ultimately show ?thesis
    using strtoul_digits [of "show_radix 16 (unat h)"] show_radix_digits [of 16 "unat h"] r by (simp add: fmt_x_def)
qed

lemma hex_upper_digit: "d < 16 \<Longrightarrow> is_digit 16 (hex_upper ! d) \<and> digit_val (hex_upper ! d) = Some d"
proof -
  have "\<forall>d \<in> set [0..<16]. is_digit 16 (hex_upper ! d) \<and> digit_val (hex_upper ! d) = Some d" by code_simp
  moreover assume "d < 16"
  ultimately show ?thesis by simp
qed

lemma read_nibbles:
  "\<forall>i \<in> set is. f i < 16 \<Longrightarrow>
   read_digits 16 acc (map (\<lambda>i. hex_upper ! f i) is) = (foldl (\<lambda>a i. a * 16 + f i) acc is, [])"
  by (induction "is" arbitrary: acc) (auto simp: hex_upper_digit)

lemma nibble_sum: "n \<le> 8 \<Longrightarrow> x < 16 ^ 8 \<Longrightarrow>
    foldl (\<lambda>a i. a * 16 + x div 16 ^ (7 - i) mod 16) 0 [0..<n] = x div (16 ^ (8 - n) :: nat)"
proof (induction n)
  case (Suc n)
  have "8 - n = Suc (7 - n)" using Suc.prems by simp
  then have "x div 16 ^ (8 - n) = x div 16 ^ (7 - n) div 16" by (simp only: power_Suc2 div_mult2_eq)
  then show ?case using Suc by simp
qed simp

lemma strtoul_id_to_hex: "strtoul (tl (id_to_hex h)) 16 = ucast h"
proof -
  let ?f = "\<lambda>i. unat h div 16 ^ (7 - i) mod 16"
  have nib: "unat (drop_bit ((7 - i) * 4) h AND 0xf) = ?f i" for i
  proof -
    have "drop_bit ((7 - i) * 4) h AND 0xf = take_bit 4 (drop_bit ((7 - i) * 4) h)"
      by (simp add: take_bit_eq_mask mask_eq_exp_minus_1)
    then have "unat (drop_bit ((7 - i) * 4) h AND 0xf) = take_bit 4 (drop_bit ((7 - i) * 4) (unat h))"
      by (simp only: unsigned_take_bit_eq unat_drop_bit_eq)
    then show ?thesis by (simp add: take_bit_eq_mod drop_bit_eq_div power_mult mult.commute)
  qed
  have h: "unat h < 2 ^ LENGTH(32)" by (rule unsigned_less)
  have "read_digits 16 0 (map (\<lambda>i. hex_upper ! ?f i) [0..<8]) = (unat h, [])"
    using read_nibbles [of "[0..<8]" ?f 0] nibble_sum [of 8 "unat h"] h by (simp del: upt_rec_numeral)
  moreover have "\<forall>c \<in> set (map (\<lambda>i. hex_upper ! ?f i) [0..<8]). is_digit 16 c"
    using hex_upper_digit by auto
  moreover have "tl (id_to_hex h) = map (\<lambda>i. hex_upper ! ?f i) [0..<8]"
    by (simp only: id_to_hex_def list.sel nib)
  ultimately show ?thesis using strtoul_digits [of "tl (id_to_hex h)"] h by simp
qed

end
