(* ===== verification/Skynet_Server.thy ===== *)
theory Skynet_Server
  imports Skynet_Sched Skynet_Handle Skynet_Timer Skynet_Text
begin

text \<open>
  The service layer: \<open>skynet_server.c\<close> with \<open>skynet_module.c\<close>, \<open>skynet_harbor.c\<close>,
  \<open>skynet_monitor.c\<close>, \<open>skynet_env.c\<close>, \<open>skynet_error.c\<close> and \<open>skynet_log.c\<close>.  All globals and the heap
  are fields of one state \<open>sys\<close>, an extension of \<open>mq_state\<close>, so the queue operations run on it
  directly.  Each function is what one thread does when no other thread runs in between.

  The code behind function pointers (services: \<open>create\<close>, \<open>init\<close>, \<open>release\<close>, \<open>signal\<close> and the
  message callback), the dynamic linker, the C library's file and clock functions are the argument
  \<open>code\<close>; they act on the whole state.
\<close>

section \<open>Data\<close>

definition PTYPE_TEXT :: int where "PTYPE_TEXT = 0"
definition PTYPE_CLIENT :: int where "PTYPE_CLIENT = 3"
definition PTYPE_SYSTEM :: int where "PTYPE_SYSTEM = 4"
definition PTYPE_HARBOR :: int where "PTYPE_HARBOR = 5"
definition PTYPE_SOCKET :: int where "PTYPE_SOCKET = 6"
definition PTYPE_ERROR :: int where "PTYPE_ERROR = 7"
definition PTYPE_TAG_DONTCOPY :: nat where "PTYPE_TAG_DONTCOPY = 16"
definition PTYPE_TAG_ALLOCSESSION :: nat where "PTYPE_TAG_ALLOCSESSION = 17"
definition MESSAGE_TYPE_MASK :: u64 where "MESSAGE_TYPE_MASK = drop_bit 8 (- 1)"
definition MAX_MODULE_TYPE :: int where "MAX_MODULE_TYPE = 32"
definition LOG_MESSAGE_SIZE :: int where "LOG_MESSAGE_SIZE = 256"
definition THREAD_MAIN :: int where "THREAD_MAIN = 1"

record skynet_module =
  sm_name :: cstring
  sm_module :: addr
  sm_create :: "addr option"
  sm_init :: "addr option"
  sm_release :: "addr option"
  sm_signal :: "addr option"

record modules =
  mod_count :: int
  mod_path :: cstring
  mod_m :: "skynet_module option list"

record remote_name =
  rn_name :: "byte list"
  rn_handle :: u32

record remote_message =
  rm_destination :: remote_name
  rm_message :: "addr option"
  rm_sz :: u64

record skynet_socket_message =
  ssm_type :: int
  ssm_id :: int
  ssm_ud :: int
  ssm_buffer :: "addr option"

text \<open>What a message block can hold.\<close>

datatype block =
    Bytes "byte list"
  | Remote remote_message
  | Socket skynet_socket_message "byte list"

record skynet_context =
  ctx_instance :: addr
  ctx_mod :: nat
  ctx_cb_ud :: "addr option"
  ctx_cb :: "addr option"
  ctx_queue :: addr
  ctx_logfile :: "addr option"
  ctx_cpu_cost :: u64
  ctx_cpu_start :: u64
  ctx_result :: cstring
  ctx_handle :: u32
  ctx_session_id :: int
  ctx_ref :: int
  ctx_message_count :: int
  ctx_init :: bool
  ctx_endless :: bool
  ctx_profile :: bool

record skynet_node =
  node_total :: int
  node_init :: int
  node_monitor_exit :: u32
  node_profile :: bool

record skynet_monitor =
  mon_version :: int
  mon_check_version :: int
  mon_source :: u32
  mon_destination :: u32

record sys = mq_state +
  sys_H :: handle_storage
  sys_ctxs :: "addr \<Rightarrow> skynet_context option"
  sys_heap :: "addr \<Rightarrow> block option"
  sys_brk :: addr
  sys_node :: skynet_node
  sys_current :: u32
  sys_TI :: timer
  sys_M :: modules
  sys_env :: "cstring \<Rightarrow> cstring option"
  sys_REMOTE :: "addr option"
  sys_HARBOR :: u32
  sys_logger :: u32
  sys_files :: "addr \<Rightarrow> byte list option"
  sys_stderr :: "cstring list"

record code =
  call_create :: "addr \<Rightarrow> sys \<Rightarrow> (addr option \<times> sys) option"
  call_init :: "addr \<Rightarrow> addr \<Rightarrow> addr \<Rightarrow> cstring option \<Rightarrow> sys \<Rightarrow> (int \<times> sys) option"
  call_release :: "addr \<Rightarrow> addr \<Rightarrow> sys \<Rightarrow> sys option"
  call_signal :: "addr \<Rightarrow> addr \<Rightarrow> int \<Rightarrow> sys \<Rightarrow> sys option"
  call_cb :: "addr \<Rightarrow> addr \<Rightarrow> addr option \<Rightarrow> int \<Rightarrow> int \<Rightarrow> u32 \<Rightarrow> addr option \<Rightarrow> u64 \<Rightarrow> sys \<Rightarrow> (int \<times> sys) option"
  dlopen :: "cstring \<Rightarrow> addr option"
  dlsym :: "addr \<Rightarrow> cstring \<Rightarrow> addr option"
  dlerror :: cstring
  fopen_ok :: "cstring \<Rightarrow> bool"
  ctime :: "u64 \<Rightarrow> cstring"
  fmt_lf :: "u64 \<Rightarrow> cstring"
  thread_clock :: "sys \<Rightarrow> int \<times> int"

section \<open>Heap\<close>

definition handle_of :: "sys \<Rightarrow> addr \<Rightarrow> u32 option" where
  "handle_of s c = map_option ctx_handle (sys_ctxs s c)"

definition ctx_put :: "addr \<Rightarrow> skynet_context \<Rightarrow> sys \<Rightarrow> sys" where
  "ctx_put c ctx s = s\<lparr>sys_ctxs := (sys_ctxs s)(c := Some ctx)\<rparr>"

definition ctx_update :: "addr \<Rightarrow> (skynet_context \<Rightarrow> skynet_context) \<Rightarrow> sys \<Rightarrow> sys option" where
  "ctx_update c f s = do { ctx \<leftarrow> sys_ctxs s c; Some (ctx_put c (f ctx) s) }"

definition skynet_malloc :: "block \<Rightarrow> sys \<Rightarrow> addr \<times> sys" where
  "skynet_malloc b s = (sys_brk s, s\<lparr>sys_heap := (sys_heap s)(sys_brk s := Some b), sys_brk := Suc (sys_brk s)\<rparr>)"

text \<open>\<open>free(NULL)\<close> does nothing; a block is freed once.\<close>

definition skynet_free :: "addr option \<Rightarrow> sys \<Rightarrow> sys option" where
  "skynet_free p s = (case p of
     None \<Rightarrow> Some s
   | Some a \<Rightarrow> do { b \<leftarrow> sys_heap s a; Some (s\<lparr>sys_heap := (sys_heap s)(a := None)\<rparr>) })"

section \<open>Modules (\<open>skynet_module.c\<close>)\<close>

text \<open>One round of the search of \<open>_try_open\<close>: the file name built from the first template of the
  path (\<open>Inl\<close>: a template without \<open>?\<close>, which exits), and the rest of the path.\<close>

definition path_step :: "cstring \<Rightarrow> cstring \<Rightarrow> (unit + cstring) \<times> cstring" where
  "path_step path name =
     (let seg = takeWhile (\<lambda>c. c \<noteq> 59) path; rest = dropWhile (\<lambda>c. c \<noteq> 59) path;
          pre = takeWhile (\<lambda>c. c \<noteq> 63) seg; post = dropWhile (\<lambda>c. c \<noteq> 63) seg
      in (case post of [] \<Rightarrow> Inl () | _ # suf \<Rightarrow> Inr (pre @ name @ suf), rest))"

function try_open_loop :: "code \<Rightarrow> cstring \<Rightarrow> cstring \<Rightarrow> addr option option" where
  "try_open_loop k path name =
     (let p = dropWhile (\<lambda>c. c = 59) path in
      if p = [] then Some None
      else case path_step p name of
        (Inl _, _) \<Rightarrow> None
      | (Inr tmp, rest) \<Rightarrow> (case dlopen k tmp of Some dl \<Rightarrow> Some (Some dl) | None \<Rightarrow> try_open_loop k rest name))"
  by pat_completeness auto
termination
proof (relation "measure (\<lambda>(_, path, _). length path)")
  fix k :: code and path name p tmp rest x y
  assume p: "p = dropWhile (\<lambda>c. c = 59) path" "p \<noteq> []" and s: "(x, rest) = path_step p name"
  then have "rest = dropWhile (\<lambda>c. c \<noteq> 59) p" by (simp add: path_step_def Let_def)
  moreover have "hd p \<noteq> 59" using p by (metis (mono_tags, lifting) hd_dropWhile)
  ultimately have "length rest < length p" using p(2)
    by (cases p) (simp_all add: le_imp_less_Suc length_dropWhile_le)
  then show "((k, rest, name), k, path, name) \<in> measure (\<lambda>(_, path, _). length path)"
    using p(1) by (simp add: less_le_trans [OF _ length_dropWhile_le])
qed simp

declare try_open_loop.simps [simp del]

definition try_open :: "code \<Rightarrow> cstring \<Rightarrow> sys \<Rightarrow> (addr option \<times> sys) option" where
  "try_open k name s = do {
     dl \<leftarrow> try_open_loop k (mod_path (sys_M s)) name;
     (if dl = None
      then Some (dl, s\<lparr>sys_stderr := sys_stderr s @ [bytes ''try open '' @ name @ bytes '' failed : '' @ dlerror k]\<rparr>)
      else Some (dl, s)) }"

text \<open>\<open>_query\<close>: the index of the module.\<close>

fun query_from :: "skynet_module option list \<Rightarrow> cstring \<Rightarrow> int \<Rightarrow> nat list \<Rightarrow> nat option option" where
  "query_from m name count [] = Some None"
| "query_from m name count (i # is) = do {
     e \<leftarrow> aget m (int i);
     md \<leftarrow> e;
     (if strcmp (sm_name md) name = 0 then Some (Some i) else query_from m name count is) }"

definition mod_query :: "modules \<Rightarrow> cstring \<Rightarrow> nat option option" where
  "mod_query M name = query_from (mod_m M) name (mod_count M) [0..<nat (mod_count M)]"

definition open_sym :: "code \<Rightarrow> skynet_module \<Rightarrow> int \<times> skynet_module" where
  "open_sym k md =
     (let md' = md\<lparr>sm_create := dlsym k (sm_module md) (sm_name md @ bytes ''_create''),
                   sm_init := dlsym k (sm_module md) (sm_name md @ bytes ''_init''),
                   sm_release := dlsym k (sm_module md) (sm_name md @ bytes ''_release''),
                   sm_signal := dlsym k (sm_module md) (sm_name md @ bytes ''_signal'')\<rparr>
      in (if sm_init md' = None then 1 else 0, md'))"

definition skynet_module_query :: "code \<Rightarrow> cstring \<Rightarrow> sys \<Rightarrow> (nat option \<times> sys) option" where
  "skynet_module_query k name s = do {
     r \<leftarrow> mod_query (sys_M s) name;
     (case r of
        Some i \<Rightarrow> Some (Some i, s)
      | None \<Rightarrow>
          if mod_count (sys_M s) < MAX_MODULE_TYPE then do {
            let index = mod_count (sys_M s);
            (dl, s1) \<leftarrow> try_open k name s;
            (case dl of
               None \<Rightarrow> Some (None, s1)
             | Some d \<Rightarrow> do {
                 let (err, md) = open_sym k \<lparr>sm_name = name, sm_module = d, sm_create = None, sm_init = None,
                                              sm_release = None, sm_signal = None\<rparr>;
                 arr \<leftarrow> aset (mod_m (sys_M s1)) index (Some md);
                 (if err = 0
                  then Some (Some (nat index), s1\<lparr>sys_M := (sys_M s1)\<lparr>mod_m := arr, mod_count := index + 1\<rparr>\<rparr>)
                  else Some (None, s1\<lparr>sys_M := (sys_M s1)\<lparr>mod_m := arr\<rparr>\<rparr>)) }) }
          else Some (None, s)) }"

definition skynet_module_insert :: "skynet_module \<Rightarrow> sys \<Rightarrow> sys option" where
  "skynet_module_insert md s = do {
     m \<leftarrow> mod_query (sys_M s) (sm_name md);
     require (m = None \<and> mod_count (sys_M s) < MAX_MODULE_TYPE);
     arr \<leftarrow> aset (mod_m (sys_M s)) (mod_count (sys_M s)) (Some md);
     Some (s\<lparr>sys_M := (sys_M s)\<lparr>mod_m := arr, mod_count := mod_count (sys_M s) + 1\<rparr>\<rparr>) }"

definition get_module :: "sys \<Rightarrow> nat \<Rightarrow> skynet_module option" where
  "get_module s i = do { e \<leftarrow> aget (mod_m (sys_M s)) (int i); e }"

text \<open>\<open>(void *)(intptr_t)(~0)\<close>, the instance of a module without a constructor.\<close>

definition no_instance :: addr where "no_instance = 2 ^ 64 - 1"

definition skynet_module_instance_create :: "code \<Rightarrow> skynet_module \<Rightarrow> sys \<Rightarrow> (addr option \<times> sys) option" where
  "skynet_module_instance_create k md s = (case sm_create md of
     Some f \<Rightarrow> call_create k f s
   | None \<Rightarrow> Some (Some no_instance, s))"

definition skynet_module_instance_init ::
  "code \<Rightarrow> skynet_module \<Rightarrow> addr \<Rightarrow> addr \<Rightarrow> cstring option \<Rightarrow> sys \<Rightarrow> (int \<times> sys) option" where
  "skynet_module_instance_init k md inst ctx parm s = do { f \<leftarrow> sm_init md; call_init k f inst ctx parm s }"

definition skynet_module_instance_release :: "code \<Rightarrow> skynet_module \<Rightarrow> addr \<Rightarrow> sys \<Rightarrow> sys option" where
  "skynet_module_instance_release k md inst s = (case sm_release md of
     Some f \<Rightarrow> call_release k f inst s | None \<Rightarrow> Some s)"

definition skynet_module_instance_signal :: "code \<Rightarrow> skynet_module \<Rightarrow> addr \<Rightarrow> int \<Rightarrow> sys \<Rightarrow> sys option" where
  "skynet_module_instance_signal k md inst sig s = (case sm_signal md of
     Some f \<Rightarrow> call_signal k f inst sig s | None \<Rightarrow> Some s)"

definition skynet_module_init :: "cstring \<Rightarrow> sys \<Rightarrow> sys" where
  "skynet_module_init path s = s\<lparr>sys_M := \<lparr>mod_count = 0, mod_path = path, mod_m = replicate (nat MAX_MODULE_TYPE) None\<rparr>\<rparr>"

section \<open>Environment (\<open>skynet_env.c\<close>)\<close>

text \<open>The globals of the Lua state of the environment; only strings are ever stored.\<close>

definition skynet_getenv :: "cstring \<Rightarrow> sys \<Rightarrow> cstring option" where
  "skynet_getenv key s = sys_env s key"

definition skynet_setenv :: "cstring \<Rightarrow> cstring \<Rightarrow> sys \<Rightarrow> sys option" where
  "skynet_setenv key value s = do {
     require (sys_env s key = None);
     Some (s\<lparr>sys_env := (sys_env s)(key \<mapsto> value)\<rparr>) }"

section \<open>Contexts (\<open>skynet_server.c\<close>)\<close>

definition skynet_context_total :: "sys \<Rightarrow> int" where
  "skynet_context_total s = node_total (sys_node s)"

definition context_inc :: "sys \<Rightarrow> sys option" where
  "context_inc s = do { n \<leftarrow> cint (node_total (sys_node s) + 1); Some (s\<lparr>sys_node := (sys_node s)\<lparr>node_total := n\<rparr>\<rparr>) }"

definition context_dec :: "sys \<Rightarrow> sys option" where
  "context_dec s = do { n \<leftarrow> cint (node_total (sys_node s) - 1); Some (s\<lparr>sys_node := (sys_node s)\<lparr>node_total := n\<rparr>\<rparr>) }"

definition skynet_current_handle :: "sys \<Rightarrow> u32" where
  "skynet_current_handle s = (if node_init (sys_node s) \<noteq> 0 then sys_current s else of_int (- THREAD_MAIN))"

definition skynet_context_handle :: "addr \<Rightarrow> sys \<Rightarrow> u32 option" where
  "skynet_context_handle c s = map_option ctx_handle (sys_ctxs s c)"

definition skynet_context_newsession :: "addr \<Rightarrow> sys \<Rightarrow> (int \<times> sys) option" where
  "skynet_context_newsession c s = do {
     ctx \<leftarrow> sys_ctxs s c;
     session \<leftarrow> cint (ctx_session_id ctx + 1);
     (if session \<le> 0
      then Some (1, ctx_put c (ctx\<lparr>ctx_session_id := 1\<rparr>) s)
      else Some (session, ctx_put c (ctx\<lparr>ctx_session_id := session\<rparr>) s)) }"

definition skynet_context_grab :: "addr \<Rightarrow> sys \<Rightarrow> sys option" where
  "skynet_context_grab c s = do {
     ctx \<leftarrow> sys_ctxs s c;
     n \<leftarrow> cint (ctx_ref ctx + 1);
     Some (ctx_put c (ctx\<lparr>ctx_ref := n\<rparr>) s) }"

definition skynet_context_reserve :: "addr \<Rightarrow> sys \<Rightarrow> sys option" where
  "skynet_context_reserve c s = do { s1 \<leftarrow> skynet_context_grab c s; context_dec s1 }"

definition fclose :: "addr \<Rightarrow> sys \<Rightarrow> sys option" where
  "fclose f s = do { _ \<leftarrow> sys_files s f; Some (s\<lparr>sys_files := (sys_files s)(f := None)\<rparr>) }"

definition delete_context :: "code \<Rightarrow> addr \<Rightarrow> sys \<Rightarrow> sys option" where
  "delete_context k c s = do {
     ctx \<leftarrow> sys_ctxs s c;
     s1 \<leftarrow> (case ctx_logfile ctx of Some f \<Rightarrow> fclose f s | None \<Rightarrow> Some s);
     md \<leftarrow> get_module s1 (ctx_mod ctx);
     s2 \<leftarrow> skynet_module_instance_release k md (ctx_instance ctx) s1;
     s3 \<leftarrow> skynet_mq_mark_release (ctx_queue ctx) s2;
     context_dec (s3\<lparr>sys_ctxs := (sys_ctxs s3)(c := None)\<rparr>) }"

definition skynet_context_release :: "code \<Rightarrow> addr \<Rightarrow> sys \<Rightarrow> (addr option \<times> sys) option" where
  "skynet_context_release k c s = do {
     ctx \<leftarrow> sys_ctxs s c;
     n \<leftarrow> cint (ctx_ref ctx - 1);
     let s1 = ctx_put c (ctx\<lparr>ctx_ref := n\<rparr>) s;
     (if n = 0 then do { s2 \<leftarrow> delete_context k c s1; Some (None, s2) }
      else Some (Some c, s1)) }"

text \<open>\<open>skynet_handle_grab\<close>, \<open>skynet_handle_retire\<close> and \<open>skynet_handle_retireall\<close> of
  \<open>skynet_handle.c\<close> with the reference they take or give up.\<close>

definition skynet_handle_grab :: "u32 \<Rightarrow> sys \<Rightarrow> (addr option \<times> sys) option" where
  "skynet_handle_grab handle s = do {
     r \<leftarrow> handle_find (handle_of s) handle (sys_H s);
     (case r of
        None \<Rightarrow> Some (None, s)
      | Some c \<Rightarrow> do { s1 \<leftarrow> skynet_context_grab c s; Some (Some c, s1) }) }"

definition skynet_handle_retire :: "code \<Rightarrow> u32 \<Rightarrow> sys \<Rightarrow> (int \<times> sys) option" where
  "skynet_handle_retire k handle s = do {
     (ret, ctx, h) \<leftarrow> handle_retire (handle_of s) handle (sys_H s);
     let s1 = s\<lparr>sys_H := h\<rparr>;
     (case ctx of
        None \<Rightarrow> Some (ret, s1)
      | Some c \<Rightarrow> do { (_, s2) \<leftarrow> skynet_context_release k c s1; Some (ret, s2) }) }"

partial_function (option) retire_pass :: "code \<Rightarrow> int \<Rightarrow> int \<Rightarrow> sys \<Rightarrow> (int \<times> sys) option" where
  "retire_pass k i n s =
     (if i < hs_slot_size (sys_H s) then do {
        slot \<leftarrow> aget (hs_slot (sys_H s)) i;
        handle \<leftarrow> (case slot of None \<Rightarrow> Some 0 | Some c \<Rightarrow> handle_of s c);
        (if handle \<noteq> 0 then do {
           (r, s1) \<leftarrow> skynet_handle_retire k handle s;
           retire_pass k (i + 1) (if r \<noteq> 0 then n + 1 else n) s1 }
         else retire_pass k (i + 1) n s) }
      else Some (n, s))"

partial_function (option) skynet_handle_retireall :: "code \<Rightarrow> sys \<Rightarrow> sys option" where
  "skynet_handle_retireall k s = do {
     (n, s1) \<leftarrow> retire_pass k 0 0 s;
     (if n = 0 then Some s1 else skynet_handle_retireall k s1) }"

definition skynet_context_push :: "code \<Rightarrow> u32 \<Rightarrow> skynet_message \<Rightarrow> sys \<Rightarrow> (int \<times> sys) option" where
  "skynet_context_push k handle message s = do {
     (r, s1) \<leftarrow> skynet_handle_grab handle s;
     (case r of
        None \<Rightarrow> Some (- 1, s1)
      | Some c \<Rightarrow> do {
          ctx \<leftarrow> sys_ctxs s1 c;
          s2 \<leftarrow> skynet_mq_push (ctx_queue ctx) message s1;
          (_, s3) \<leftarrow> skynet_context_release k c s2;
          Some (0, s3) }) }"

definition skynet_context_endless :: "code \<Rightarrow> u32 \<Rightarrow> sys \<Rightarrow> sys option" where
  "skynet_context_endless k handle s = do {
     (r, s1) \<leftarrow> skynet_handle_grab handle s;
     (case r of
        None \<Rightarrow> Some s1
      | Some c \<Rightarrow> do {
          s2 \<leftarrow> ctx_update c (ctx_endless_update (\<lambda>_. True)) s1;
          (_, s3) \<leftarrow> skynet_context_release k c s2;
          Some s3 }) }"

section \<open>Errors (\<open>skynet_error.c\<close>)\<close>

text \<open>\<open>text\<close> is what \<open>vsnprintf\<close> prints; its length is the return value.  \<open>log_capacity\<close> is the
  loop that doubles the buffer until the text fits.\<close>

partial_function (option) log_capacity :: "int \<Rightarrow> int \<Rightarrow> int option" where
  "log_capacity len max_size = do {
     m \<leftarrow> cint (max_size * 2);
     (if len < m then Some m else log_capacity len m) }"

definition encode_sz :: "u64 \<Rightarrow> int \<Rightarrow> u64" where
  "encode_sz sz type = sz OR push_bit MESSAGE_TYPE_SHIFT (of_int type)"

definition skynet_error :: "code \<Rightarrow> addr option \<Rightarrow> cstring \<Rightarrow> sys \<Rightarrow> sys option" where
  "skynet_error k context text s = do {
     logger \<leftarrow> (if sys_logger s = 0 then skynet_handle_findname (bytes ''logger'') (sys_H s) else Some (sys_logger s));
     let s0 = s\<lparr>sys_logger := logger\<rparr>;
     (if logger = 0 then Some s0
      else do {
        len \<leftarrow> cint (int (length text));
        _ \<leftarrow> (if len < LOG_MESSAGE_SIZE then Some 0 else log_capacity len LOG_MESSAGE_SIZE);
        let (data, s1) = skynet_malloc (Bytes (text @ [0])) s0;
        source \<leftarrow> (case context of None \<Rightarrow> Some 0 | Some c \<Rightarrow> skynet_context_handle c s1);
        (_, s2) \<leftarrow> skynet_context_push k logger
          \<lparr>msg_source = source, msg_session = 0, msg_data = Some data, msg_sz = encode_sz (of_int len) PTYPE_TEXT\<rparr> s1;
        Some s2 }) }"

section \<open>Harbor (\<open>skynet_harbor.c\<close>)\<close>

definition skynet_context_send :: "addr \<Rightarrow> addr option \<Rightarrow> u64 \<Rightarrow> u32 \<Rightarrow> int \<Rightarrow> int \<Rightarrow> sys \<Rightarrow> sys option" where
  "skynet_context_send c msg sz source type session s = do {
     ctx \<leftarrow> sys_ctxs s c;
     skynet_mq_push (ctx_queue ctx)
       \<lparr>msg_source = source, msg_session = session, msg_data = msg, msg_sz = encode_sz sz type\<rparr> s }"

text \<open>\<open>sizeof(struct remote_message)\<close>: a 20 byte name and handle, padding, a pointer and a size.\<close>

definition REMOTE_MESSAGE_SIZE :: u64 where "REMOTE_MESSAGE_SIZE = 40"

definition skynet_harbor_send :: "addr \<Rightarrow> u32 \<Rightarrow> int \<Rightarrow> sys \<Rightarrow> sys option" where
  "skynet_harbor_send rmsg source session s = do {
     b \<leftarrow> sys_heap s rmsg;
     r \<leftarrow> (case b of Remote r \<Rightarrow> Some r | _ \<Rightarrow> None);
     let type = uint (drop_bit MESSAGE_TYPE_SHIFT (rm_sz r));
     let s1 = s\<lparr>sys_heap := (sys_heap s)(rmsg \<mapsto> Remote (r\<lparr>rm_sz := rm_sz r AND MESSAGE_TYPE_MASK\<rparr>))\<rparr>;
     require (type \<noteq> PTYPE_SYSTEM \<and> type \<noteq> PTYPE_HARBOR);
     remote \<leftarrow> sys_REMOTE s1;
     skynet_context_send remote (Some rmsg) REMOTE_MESSAGE_SIZE source type session s1 }"

definition skynet_harbor_message_isremote :: "u32 \<Rightarrow> sys \<Rightarrow> bool option" where
  "skynet_harbor_message_isremote handle s = do {
     require (sys_HARBOR s \<noteq> NOT 0);
     let h = handle AND NOT HANDLE_MASK;
     Some (h \<noteq> sys_HARBOR s \<and> h \<noteq> 0) }"

definition skynet_harbor_init :: "int \<Rightarrow> sys \<Rightarrow> sys" where
  "skynet_harbor_init harbor s = s\<lparr>sys_HARBOR := push_bit HANDLE_REMOTE_SHIFT (of_int harbor)\<rparr>"

definition skynet_harbor_start :: "addr \<Rightarrow> sys \<Rightarrow> sys option" where
  "skynet_harbor_start c s = do { s1 \<leftarrow> skynet_context_reserve c s; Some (s1\<lparr>sys_REMOTE := Some c\<rparr>) }"

definition skynet_harbor_exit :: "code \<Rightarrow> sys \<Rightarrow> sys option" where
  "skynet_harbor_exit k s = (let s1 = s\<lparr>sys_REMOTE := None\<rparr> in
     case sys_REMOTE s of
       None \<Rightarrow> Some s1
     | Some c \<Rightarrow> do { (_, s2) \<leftarrow> skynet_context_release k c s1; Some s2 })"

definition skynet_isremote :: "u32 \<Rightarrow> sys \<Rightarrow> (bool \<times> int) option" where
  "skynet_isremote handle s = do {
     ret \<leftarrow> skynet_harbor_message_isremote handle s;
     Some (ret, uint (drop_bit HANDLE_REMOTE_SHIFT handle)) }"

section \<open>Sending\<close>

definition SOCKET_MESSAGE_SIZE :: u64 where "SOCKET_MESSAGE_SIZE = 24"

text \<open>The bytes of a message, \<open>memcpy(msg, data, sz)\<close>.\<close>

definition read_bytes :: "addr \<Rightarrow> u64 \<Rightarrow> sys \<Rightarrow> byte list option" where
  "read_bytes a sz s = do {
     b \<leftarrow> sys_heap s a;
     bs \<leftarrow> (case b of Bytes bs \<Rightarrow> Some bs | _ \<Rightarrow> None);
     require (unat sz \<le> length bs);
     Some (take (unat sz) bs) }"

text \<open>The copy that \<open>_filter_args\<close> makes of the first \<open>sz\<close> bytes of a message, with a zero behind them.  A socket
  message keeps its structure when at least the structure is copied.\<close>

definition copy_block :: "addr \<Rightarrow> u64 \<Rightarrow> sys \<Rightarrow> block option" where
  "copy_block a sz s = do {
     b \<leftarrow> sys_heap s a;
     (case b of
        Bytes _ \<Rightarrow> do { bs \<leftarrow> read_bytes a sz s; Some (Bytes (bs @ [0])) }
      | Socket m trail \<Rightarrow> do {
          require (SOCKET_MESSAGE_SIZE \<le> sz \<and> unat (sz - SOCKET_MESSAGE_SIZE) \<le> length trail);
          Some (Socket m (take (unat (sz - SOCKET_MESSAGE_SIZE)) trail @ [0])) }
      | Remote _ \<Rightarrow> None) }"

definition filter_args :: "addr option \<Rightarrow> int \<Rightarrow> int \<Rightarrow> addr option \<Rightarrow> u64 \<Rightarrow> sys \<Rightarrow> ((int \<times> addr option \<times> u64) \<times> sys) option" where
  "filter_args context type session data sz s = do {
     (session1, s1) \<leftarrow> (if bit type PTYPE_TAG_ALLOCSESSION then do {
                           require (session = 0);
                           c \<leftarrow> context;
                           skynet_context_newsession c s }
                         else Some (session, s));
     (data1, s2) \<leftarrow> (if \<not> bit type PTYPE_TAG_DONTCOPY \<and> data \<noteq> None then do {
                        a \<leftarrow> data;
                        b \<leftarrow> copy_block a sz s1;
                        let (m, s2) = skynet_malloc b s1;
                        Some (Some m, s2) }
                      else Some (data, s1));
     Some ((session1, data1, encode_sz sz (type AND 0xff)), s2) }"

text \<open>The name of a remote message with a numeric destination stays unwritten, \<open>[]\<close>.\<close>

definition skynet_send ::
  "code \<Rightarrow> addr option \<Rightarrow> u32 \<Rightarrow> u32 \<Rightarrow> int \<Rightarrow> int \<Rightarrow> addr option \<Rightarrow> u64 \<Rightarrow> sys \<Rightarrow> (int \<times> sys) option" where
  "skynet_send k context source destination type session data sz s =
     (if sz AND MESSAGE_TYPE_MASK \<noteq> sz then do {
        s1 \<leftarrow> skynet_error k context (bytes ''The message to '' @ fmt_x destination @ bytes '' is too large'') s;
        s2 \<leftarrow> (if bit type PTYPE_TAG_DONTCOPY then skynet_free data s1 else Some s1);
        Some (- 1, s2) }
      else do {
        ((session1, data1, sz1), s1) \<leftarrow> filter_args context type session data sz s;
        source1 \<leftarrow> (if source = 0 then do { c \<leftarrow> context; skynet_context_handle c s1 } else Some source);
        (if destination = 0 then Some (session1, s1)
         else do {
           remote \<leftarrow> skynet_harbor_message_isremote destination s1;
           (if remote then do {
              let (rmsg, s2) = skynet_malloc (Remote \<lparr>rm_destination = \<lparr>rn_name = [], rn_handle = destination\<rparr>,
                                 rm_message = data1, rm_sz = sz1\<rparr>) s1;
              s3 \<leftarrow> skynet_harbor_send rmsg source1 session1 s2;
              Some (session1, s3) }
            else do {
              (r, s2) \<leftarrow> skynet_context_push k destination
                 \<lparr>msg_source = source1, msg_session = session1, msg_data = data1, msg_sz = sz1\<rparr> s1;
              (if r \<noteq> 0 then do { s3 \<leftarrow> skynet_free data1 s2; Some (- 1, s3) }
               else Some (session1, s2)) }) }) })"

text \<open>The branch of \<open>skynet_sendname\<close> for a global name.\<close>

definition send_global ::
  "addr option \<Rightarrow> u32 \<Rightarrow> cstring \<Rightarrow> int \<Rightarrow> int \<Rightarrow> addr option \<Rightarrow> u64 \<Rightarrow> sys \<Rightarrow> (int \<times> sys) option" where
  "send_global context source addr type session data sz s = do {
     ((session1, data1, sz1), s1) \<leftarrow> filter_args context type session data sz s;
     let (rmsg, s2) = skynet_malloc (Remote \<lparr>rm_destination = \<lparr>rn_name = copy_name addr, rn_handle = 0\<rparr>,
                        rm_message = data1, rm_sz = sz1\<rparr>) s1;
     s3 \<leftarrow> skynet_harbor_send rmsg source session1 s2;
     Some (session1, s3) }"

definition skynet_sendname ::
  "code \<Rightarrow> addr option \<Rightarrow> u32 \<Rightarrow> cstring \<Rightarrow> int \<Rightarrow> int \<Rightarrow> addr option \<Rightarrow> u64 \<Rightarrow> sys \<Rightarrow> (int \<times> sys) option" where
  "skynet_sendname k context source addr type session data sz s = do {
     source1 \<leftarrow> (if source = 0 then do { c \<leftarrow> context; skynet_context_handle c s } else Some source);
     (case addr of
        c # rest \<Rightarrow>
          if c = 58 then skynet_send k context source1 (ucast (strtoul rest 16)) type session data sz s
          else if c = 46 then do {
            des \<leftarrow> skynet_handle_findname rest (sys_H s);
            (if des = 0 then do {
               s1 \<leftarrow> (if bit type PTYPE_TAG_DONTCOPY then skynet_free data s else Some s);
               Some (- 1, s1) }
             else skynet_send k context source1 des type session data sz s) }
          else send_global context source1 addr type session data sz s
      | [] \<Rightarrow> send_global context source1 addr type session data sz s) }"

definition drop_message :: "code \<Rightarrow> u32 \<Rightarrow> skynet_message \<Rightarrow> sys \<Rightarrow> sys option" where
  "drop_message k handle msg s = do {
     s1 \<leftarrow> skynet_free (msg_data msg) s;
     require (handle \<noteq> 0);
     (_, s2) \<leftarrow> skynet_send k None handle (msg_source msg) PTYPE_ERROR 0 None 0 s1;
     Some s2 }"

section \<open>Launching\<close>

definition skynet_context_new :: "code \<Rightarrow> cstring \<Rightarrow> cstring option \<Rightarrow> sys \<Rightarrow> (addr option \<times> sys) option" where
  "skynet_context_new k name param s = do {
     (m, s1) \<leftarrow> skynet_module_query k name s;
     (case m of
        None \<Rightarrow> Some (None, s1)
      | Some i \<Rightarrow> do {
          md \<leftarrow> get_module s1 i;
          (inst, s2) \<leftarrow> skynet_module_instance_create k md s1;
          (case inst of
             None \<Rightarrow> Some (None, s2)
           | Some x \<Rightarrow> do {
               let c = sys_brk s2;
               let s3 = (ctx_put c \<lparr>ctx_instance = x, ctx_mod = i, ctx_cb_ud = None, ctx_cb = None, ctx_queue = 0,
                           ctx_logfile = None, ctx_cpu_cost = 0, ctx_cpu_start = 0, ctx_result = [], ctx_handle = 0,
                           ctx_session_id = 0, ctx_ref = 2, ctx_message_count = 0, ctx_init = False,
                           ctx_endless = False, ctx_profile = node_profile (sys_node s2)\<rparr> s2)\<lparr>sys_brk := Suc c\<rparr>;
               (handle, h) \<leftarrow> skynet_handle_register (handle_of s3) c (sys_H s3);
               s4 \<leftarrow> ctx_update c (ctx_handle_update (\<lambda>_. handle)) (s3\<lparr>sys_H := h\<rparr>);
               let (queue, s5) = skynet_mq_create handle s4;
               s6 \<leftarrow> ctx_update c (ctx_queue_update (\<lambda>_. queue)) s5;
               s7 \<leftarrow> context_inc s6;
               (r, s8) \<leftarrow> skynet_module_instance_init k md x c param s7;
               (if r = 0 then do {
                  (ret, s9) \<leftarrow> skynet_context_release k c s8;
                  s10 \<leftarrow> (if ret \<noteq> None then ctx_update c (ctx_init_update (\<lambda>_. True)) s9 else Some s9);
                  s11 \<leftarrow> skynet_globalmq_push queue s10;
                  s12 \<leftarrow> (if ret \<noteq> None
                          then skynet_error k ret (bytes ''LAUNCH '' @ name @ [32] @ (case param of None \<Rightarrow> [] | Some p \<Rightarrow> p)) s11
                          else Some s11);
                  Some (ret, s12) }
                else do {
                  s9 \<leftarrow> skynet_error k (Some c) (bytes ''FAILED launch '' @ name) s8;
                  handle1 \<leftarrow> skynet_context_handle c s9;
                  (_, s10) \<leftarrow> skynet_context_release k c s9;
                  (_, s11) \<leftarrow> skynet_handle_retire k handle1 s10;
                  s12 \<leftarrow> skynet_mq_release (drop_message k handle1) queue s11;
                  Some (None, s12) }) }) }) }"

section \<open>Logs (\<open>skynet_log.c\<close>)\<close>

definition fprintf :: "addr \<Rightarrow> cstring \<Rightarrow> sys \<Rightarrow> sys option" where
  "fprintf f text s = do { old \<leftarrow> sys_files s f; Some (s\<lparr>sys_files := (sys_files s)(f \<mapsto> old @ text)\<rparr>) }"

definition skynet_log_open :: "code \<Rightarrow> addr \<Rightarrow> u32 \<Rightarrow> sys \<Rightarrow> (addr option \<times> sys) option" where
  "skynet_log_open k c handle s = (case skynet_getenv (bytes ''logpath'') s of
     None \<Rightarrow> Some (None, s)
   | Some logpath \<Rightarrow> (let tmp = logpath @ bytes ''/'' @ fmt_08x handle @ bytes ''.log'' in
       if fopen_ok k tmp then do {
         let f = sys_brk s;
         let s1 = s\<lparr>sys_files := (sys_files s)(f \<mapsto> []), sys_brk := Suc f\<rparr>;
         let starttm = skynet_starttime (sys_TI s1);
         let currenttime = skynet_now (sys_TI s1);
         let ti = ucast starttm + currenttime div 100;
         s2 \<leftarrow> skynet_error k (Some c) (bytes ''Open log file '' @ tmp) s1;
         s3 \<leftarrow> fprintf f (bytes ''open time: '' @ fmt_u (ucast currenttime) @ [32] @ ctime k ti) s2;
         Some (Some f, s3) }
       else do {
         s1 \<leftarrow> skynet_error k (Some c) (bytes ''Open log file '' @ tmp @ bytes '' fail'') s;
         Some (None, s1) }))"

definition skynet_log_close :: "code \<Rightarrow> addr \<Rightarrow> addr \<Rightarrow> u32 \<Rightarrow> sys \<Rightarrow> sys option" where
  "skynet_log_close k c f handle s = do {
     s1 \<leftarrow> skynet_error k (Some c) (bytes ''Close log file :'' @ fmt_08x handle) s;
     s2 \<leftarrow> fprintf f (bytes ''close time: '' @ fmt_u (ucast (skynet_now (sys_TI s1))) @ [10]) s1;
     fclose f s2 }"

definition log_blob :: "byte list \<Rightarrow> cstring" where
  "log_blob bs = concat (map fmt_02x bs)"

text \<open>\<open>"[%*s]"\<close>: the string up to its terminator, padded on the left to the width.  A buffer
  without a terminator is read past its end.\<close>

definition fmt_width_s :: "nat \<Rightarrow> byte list \<Rightarrow> cstring option" where
  "fmt_width_s w buf = do {
     require (0 \<in> set buf);
     let t = takeWhile (\<lambda>c. c \<noteq> 0) buf;
     Some (replicate (w - length t) 32 @ t) }"

definition log_socket :: "addr \<Rightarrow> addr option \<Rightarrow> u64 \<Rightarrow> sys \<Rightarrow> sys option" where
  "log_socket f buffer sz s = do {
     a \<leftarrow> buffer;
     b \<leftarrow> sys_heap s a;
     (m, trail) \<leftarrow> (case b of Socket m trail \<Rightarrow> Some (m, trail) | _ \<Rightarrow> None);
     let head = bytes ''[socket] '' @ fmt_d (ssm_type m) @ [32] @ fmt_d (ssm_id m) @ [32] @ fmt_d (ssm_ud m) @ [32];
     body \<leftarrow> (case ssm_buffer m of
         None \<Rightarrow> do {
           let n = unat (sz - SOCKET_MESSAGE_SIZE);
           require (n \<le> length trail);
           let eol = length (takeWhile (\<lambda>c. c \<noteq> 0) (take n trail));
           t \<leftarrow> fmt_width_s eol trail;
           Some ([91] @ t @ [93]) }
       | Some p \<Rightarrow> do {
           bs \<leftarrow> read_bytes p (of_int (ssm_ud m)) s;
           Some (log_blob bs) });
     fprintf f (head @ body @ [10]) s }"

definition skynet_log_output :: "addr \<Rightarrow> u32 \<Rightarrow> int \<Rightarrow> int \<Rightarrow> addr option \<Rightarrow> u64 \<Rightarrow> sys \<Rightarrow> sys option" where
  "skynet_log_output f source type session buffer sz s =
     (if type = PTYPE_SOCKET then log_socket f buffer sz s
      else do {
        let ti = (ucast (skynet_now (sys_TI s)) :: u32);
        bs \<leftarrow> (if sz = 0 then Some [] else do { a \<leftarrow> buffer; read_bytes a sz s });
        fprintf f ([58] @ fmt_08x source @ [32] @ fmt_d type @ [32] @ fmt_d session @ [32] @ fmt_u ti @ [32] @
                   log_blob bs @ [10]) s })"

section \<open>Monitor (\<open>skynet_monitor.c\<close>)\<close>

definition skynet_monitor_new :: skynet_monitor where
  "skynet_monitor_new = \<lparr>mon_version = 0, mon_check_version = 0, mon_source = 0, mon_destination = 0\<rparr>"

definition skynet_monitor_trigger :: "u32 \<Rightarrow> u32 \<Rightarrow> skynet_monitor \<Rightarrow> skynet_monitor option" where
  "skynet_monitor_trigger source destination sm = do {
     v \<leftarrow> cint (mon_version sm + 1);
     Some (sm\<lparr>mon_source := source, mon_destination := destination, mon_version := v\<rparr>) }"

definition skynet_monitor_check :: "code \<Rightarrow> skynet_monitor \<Rightarrow> sys \<Rightarrow> (skynet_monitor \<times> sys) option" where
  "skynet_monitor_check k sm s =
     (if mon_version sm = mon_check_version sm then
        (if mon_destination sm \<noteq> 0 then do {
           s1 \<leftarrow> skynet_context_endless k (mon_destination sm) s;
           s2 \<leftarrow> skynet_error k None (bytes ''A message from [ :'' @ fmt_08x (mon_source sm) @ bytes '' ] to [ :'' @
                   fmt_08x (mon_destination sm) @ bytes '' ] maybe in an endless loop (version = '' @ fmt_d (mon_version sm) @ bytes '')'') s1;
           Some (sm, s2) }
         else Some (sm, s))
      else Some (sm\<lparr>mon_check_version := mon_version sm\<rparr>, s))"

section \<open>Dispatching\<close>

definition dispatch_message :: "code \<Rightarrow> addr \<Rightarrow> skynet_message \<Rightarrow> sys \<Rightarrow> sys option" where
  "dispatch_message k c msg s = do {
     ctx \<leftarrow> sys_ctxs s c;
     require (ctx_init ctx);
     let s1 = s\<lparr>sys_current := ctx_handle ctx\<rparr>;
     let type = uint (drop_bit MESSAGE_TYPE_SHIFT (msg_sz msg));
     let sz = msg_sz msg AND MESSAGE_TYPE_MASK;
     s2 \<leftarrow> (case ctx_logfile ctx of
              Some f \<Rightarrow> skynet_log_output f (msg_source msg) type (msg_session msg) (msg_data msg) sz s1
            | None \<Rightarrow> Some s1);
     n \<leftarrow> cint (ctx_message_count ctx + 1);
     cb \<leftarrow> ctx_cb ctx;
     (reserve_msg, s5) \<leftarrow> (if ctx_profile ctx then do {
          s3 \<leftarrow> ctx_update c (\<lambda>x. x\<lparr>ctx_message_count := n, ctx_cpu_start := skynet_thread_time (thread_clock k s2)\<rparr>) s2;
          (r, s4) \<leftarrow> call_cb k cb c (ctx_cb_ud ctx) type (msg_session msg) (msg_source msg) (msg_data msg) sz s3;
          s5 \<leftarrow> ctx_update c (\<lambda>x. x\<lparr>ctx_cpu_cost := ctx_cpu_cost x + (skynet_thread_time (thread_clock k s4) - ctx_cpu_start x)\<rparr>) s4;
          Some (r, s5) }
        else do {
          s3 \<leftarrow> ctx_update c (ctx_message_count_update (\<lambda>_. n)) s2;
          call_cb k cb c (ctx_cb_ud ctx) type (msg_session msg) (msg_source msg) (msg_data msg) sz s3 });
     (if reserve_msg = 0 then skynet_free (msg_data msg) s5 else Some s5) }"

partial_function (option) skynet_context_dispatchall :: "code \<Rightarrow> addr \<Rightarrow> addr \<Rightarrow> sys \<Rightarrow> sys option" where
  "skynet_context_dispatchall k c q s = do {
     (ret, m, s1) \<leftarrow> skynet_mq_pop q s;
     (if ret = 0 then do {
        msg \<leftarrow> m;
        s2 \<leftarrow> dispatch_message k c msg s1;
        skynet_context_dispatchall k c q s2 }
      else Some s1) }"

text \<open>The loop of \<open>skynet_context_message_dispatch\<close>: \<open>Inl\<close> when the queue ran empty and the
  context was released, \<open>Inr\<close> when the batch is done.\<close>

partial_function (option) dispatch_batch ::
  "code \<Rightarrow> addr \<Rightarrow> addr \<Rightarrow> u32 \<Rightarrow> int \<Rightarrow> int \<Rightarrow> int \<Rightarrow> skynet_monitor \<Rightarrow> sys \<Rightarrow> ((skynet_monitor \<times> sys) + (skynet_monitor \<times> sys)) option" where
  "dispatch_batch k c q handle weight i n sm s =
     (if i < n then do {
        (ret, m, s1) \<leftarrow> skynet_mq_pop q s;
        (if ret \<noteq> 0 then do {
           (_, s2) \<leftarrow> skynet_context_release k c s1;
           Some (Inl (sm, s2)) }
         else do {
           msg \<leftarrow> m;
           mq \<leftarrow> mqs s1 q;
           n1 \<leftarrow> (if i = 0 \<and> weight \<ge> 0 then do {
                    len \<leftarrow> skynet_mq_length mq;
                    require (weight < 32);
                    Some (len div 2 ^ nat weight) }
                  else Some n);
           let (overload, mq') = skynet_mq_overload mq;
           let s2 = mq_put q mq' s1;
           s3 \<leftarrow> (if overload \<noteq> 0
                  then skynet_error k (Some c) (bytes ''May overload, message queue length = '' @ fmt_d overload) s2
                  else Some s2);
           sm1 \<leftarrow> skynet_monitor_trigger (msg_source msg) handle sm;
           ctx \<leftarrow> sys_ctxs s3 c;
           s4 \<leftarrow> (if ctx_cb ctx = None then skynet_free (msg_data msg) s3 else dispatch_message k c msg s3);
           sm2 \<leftarrow> skynet_monitor_trigger 0 0 sm1;
           dispatch_batch k c q handle weight (i + 1) n1 sm2 s4 }) }
      else Some (Inr (sm, s)))"

definition skynet_context_message_dispatch ::
  "code \<Rightarrow> skynet_monitor \<Rightarrow> addr option \<Rightarrow> int \<Rightarrow> sys \<Rightarrow> (addr option \<times> skynet_monitor \<times> sys) option" where
  "skynet_context_message_dispatch k sm q0 weight s = do {
     (q1, s1) \<leftarrow> (case q0 of None \<Rightarrow> skynet_globalmq_pop s | Some q \<Rightarrow> Some (Some q, s));
     (case q1 of
        None \<Rightarrow> Some (None, sm, s1)
      | Some q \<Rightarrow> do {
          handle \<leftarrow> skynet_mq_handle q s1;
          (r, s2) \<leftarrow> skynet_handle_grab handle s1;
          (case r of
             None \<Rightarrow> do {
               s3 \<leftarrow> skynet_mq_release (drop_message k handle) q s2;
               (nq, s4) \<leftarrow> skynet_globalmq_pop s3;
               Some (nq, sm, s4) }
           | Some c \<Rightarrow> do {
               res \<leftarrow> dispatch_batch k c q handle weight 0 1 sm s2;
               (case res of
                  Inl (sm1, s3) \<Rightarrow> do { (nq, s4) \<leftarrow> skynet_globalmq_pop s3; Some (nq, sm1, s4) }
                | Inr (sm1, s3) \<Rightarrow> do {
                    ctx \<leftarrow> sys_ctxs s3 c;
                    require (q = ctx_queue ctx);
                    (nq, s4) \<leftarrow> skynet_globalmq_pop s3;
                    (q2, s5) \<leftarrow> (case nq of
                        Some x \<Rightarrow> do { s5 \<leftarrow> skynet_globalmq_push q s4; Some (x, s5) }
                      | None \<Rightarrow> Some (q, s4));
                    (_, s6) \<leftarrow> skynet_context_release k c s5;
                    Some (Some q2, sm1, s6) }) }) }) }"

definition skynet_callback :: "addr \<Rightarrow> addr option \<Rightarrow> addr option \<Rightarrow> sys \<Rightarrow> sys option" where
  "skynet_callback c ud cb s = ctx_update c (\<lambda>x. x\<lparr>ctx_cb := cb, ctx_cb_ud := ud\<rparr>) s"

end
