(* ===== verification/Skynet_Command.thy ===== *)
theory Skynet_Command
  imports Skynet_Server
begin

text \<open>
  The text commands of \<open>skynet_server.c\<close> (\<open>skynet_command\<close> and its table), the look-up of
  handles by name, and the start-up and worker code of \<open>skynet_start.c\<close> that does not
  deal with threads.  A \<open>const char *\<close> argument that may be \<open>NULL\<close> is a \<open>cstring option\<close>.
\<close>

section \<open>Names\<close>

definition skynet_queryname :: "code \<Rightarrow> addr option \<Rightarrow> cstring \<Rightarrow> sys \<Rightarrow> (u32 \<times> sys) option" where
  "skynet_queryname k context name s =
     (if name \<noteq> [] \<and> hd name = 58 then Some (ucast (strtoul (tl name) 16), s)
      else if name \<noteq> [] \<and> hd name = 46 then do {
        h \<leftarrow> skynet_handle_findname (tl name) (sys_H s); Some (h, s) }
      else do {
        s1 \<leftarrow> skynet_error k context (bytes ''Don't support query global name '' @ name) s;
        Some (0, s1) })"

definition tohandle :: "code \<Rightarrow> addr \<Rightarrow> cstring option \<Rightarrow> sys \<Rightarrow> (u32 \<times> sys) option" where
  "tohandle k context param s = do {
     p \<leftarrow> param;
     (if p \<noteq> [] \<and> hd p = 58 then Some (ucast (strtoul (tl p) 16), s)
      else if p \<noteq> [] \<and> hd p = 46 then do {
        h \<leftarrow> skynet_handle_findname (tl p) (sys_H s); Some (h, s) }
      else do {
        s1 \<leftarrow> skynet_error k (Some context) (bytes ''Can't convert '' @ p @ bytes '' to handle'') s;
        Some (0, s1) }) }"

definition handle_exit :: "code \<Rightarrow> addr \<Rightarrow> u32 \<Rightarrow> sys \<Rightarrow> sys option" where
  "handle_exit k context handle0 s = do {
     (handle, s1) \<leftarrow> (if handle0 = 0 then do {
                         h \<leftarrow> skynet_context_handle context s;
                         s1 \<leftarrow> skynet_error k (Some context) (bytes ''KILL self'') s;
                         Some (h, s1) }
                       else do {
                         s1 \<leftarrow> skynet_error k (Some context) (bytes ''KILL :'' @ fmt_x handle0) s;
                         Some (handle0, s1) });
     s2 \<leftarrow> (if node_monitor_exit (sys_node s1) \<noteq> 0 then do {
              (_, s2) \<leftarrow> skynet_send k (Some context) handle (node_monitor_exit (sys_node s1)) PTYPE_CLIENT 0 None 0 s1;
              Some s2 }
            else Some s1);
     (_, s3) \<leftarrow> skynet_handle_retire k handle s2;
     Some s3 }"

section \<open>Commands\<close>

text \<open>\<open>sprintf(context->result, ...)\<close> into the 32 byte buffer.\<close>

definition set_result :: "addr \<Rightarrow> cstring \<Rightarrow> sys \<Rightarrow> (cstring option \<times> sys) option" where
  "set_result c text s = do {
     require (length text < 32);
     s1 \<leftarrow> ctx_update c (ctx_result_update (\<lambda>_. text)) s;
     Some (Some text, s1) }"

text \<open>A timeout of 0 is pushed at once and leaves the wheel alone.\<close>

definition cmd_timeout :: "code \<Rightarrow> addr \<Rightarrow> cstring option \<Rightarrow> sys \<Rightarrow> (cstring option \<times> sys) option" where
  "cmd_timeout k c param s = do {
     p \<leftarrow> param;
     let ti = to_int (strtol p 10);
     (session, s1) \<leftarrow> skynet_context_newsession c s;
     handle \<leftarrow> skynet_context_handle c s1;
     (_, T, s2) \<leftarrow> skynet_timeout (skynet_context_push k) handle ti session (sys_TI s1) s1;
     set_result c (fmt_d session) (if ti \<le> 0 then s2 else s2\<lparr>sys_TI := T\<rparr>) }"

definition cmd_reg :: "code \<Rightarrow> addr \<Rightarrow> cstring option \<Rightarrow> sys \<Rightarrow> (cstring option \<times> sys) option" where
  "cmd_reg k c param s =
     (if param = None \<or> param = Some [] then do {
        h \<leftarrow> skynet_context_handle c s;
        set_result c (58 # fmt_x h) s }
      else do {
        p \<leftarrow> param;
        (if hd p = 46 then do {
           h \<leftarrow> skynet_context_handle c s;
           (r, st) \<leftarrow> skynet_handle_namehandle h (tl p) (sys_H s);
           Some (r, s\<lparr>sys_H := st\<rparr>) }
         else do {
           s1 \<leftarrow> skynet_error k (Some c) (bytes ''Can't register global name '' @ p @ bytes '' in C'') s;
           Some (None, s1) }) })"

definition cmd_query :: "code \<Rightarrow> addr \<Rightarrow> cstring option \<Rightarrow> sys \<Rightarrow> (cstring option \<times> sys) option" where
  "cmd_query k c param s = do {
     p \<leftarrow> param;
     (if p \<noteq> [] \<and> hd p = 46 then do {
        handle \<leftarrow> skynet_handle_findname (tl p) (sys_H s);
        (if handle \<noteq> 0 then set_result c (58 # fmt_x handle) s else Some (None, s)) }
      else Some (None, s)) }"

text \<open>A parameter with fewer than two words leaves a buffer unwritten that is then read.\<close>

definition cmd_name :: "code \<Rightarrow> addr \<Rightarrow> cstring option \<Rightarrow> sys \<Rightarrow> (cstring option \<times> sys) option" where
  "cmd_name k c param s = do {
     p \<leftarrow> param;
     let (nm, hd0) = sscanf_two_words p;
     handle \<leftarrow> hd0;
     (if hd handle \<noteq> 58 then Some (None, s)
      else do {
        let handle_id = (ucast (strtoul (tl handle) 16) :: u32);
        (if handle_id = 0 then Some (None, s)
         else do {
           name \<leftarrow> nm;
           (if hd name = 46 then do {
              (r, st) \<leftarrow> skynet_handle_namehandle handle_id (tl name) (sys_H s);
              Some (r, s\<lparr>sys_H := st\<rparr>) }
            else do {
              s1 \<leftarrow> skynet_error k (Some c) (bytes ''Can't set global name '' @ name @ bytes '' in C'') s;
              Some (None, s1) }) }) }) }"

definition cmd_exit :: "code \<Rightarrow> addr \<Rightarrow> cstring option \<Rightarrow> sys \<Rightarrow> (cstring option \<times> sys) option" where
  "cmd_exit k c param s = do { s1 \<leftarrow> handle_exit k c 0 s; Some (None, s1) }"

definition cmd_kill :: "code \<Rightarrow> addr \<Rightarrow> cstring option \<Rightarrow> sys \<Rightarrow> (cstring option \<times> sys) option" where
  "cmd_kill k c param s = do {
     (handle, s1) \<leftarrow> tohandle k c param s;
     (if handle \<noteq> 0 then do { s2 \<leftarrow> handle_exit k c handle s1; Some (None, s2) } else Some (None, s1)) }"

definition cmd_launch :: "code \<Rightarrow> addr \<Rightarrow> cstring option \<Rightarrow> sys \<Rightarrow> (cstring option \<times> sys) option" where
  "cmd_launch k c param s = do {
     p \<leftarrow> param;
     let (md, args0) = strsep (Some p) [32, 9, 13, 10];
     let (args, _) = strsep args0 [13, 10];
     name \<leftarrow> md;
     (inst, s1) \<leftarrow> skynet_context_new k name args s;
     (case inst of
        None \<Rightarrow> Some (None, s1)
      | Some x \<Rightarrow> do {
          h \<leftarrow> skynet_context_handle x s1;
          set_result c (id_to_hex h) s1 }) }"

definition cmd_getenv :: "code \<Rightarrow> addr \<Rightarrow> cstring option \<Rightarrow> sys \<Rightarrow> (cstring option \<times> sys) option" where
  "cmd_getenv k c param s = do { p \<leftarrow> param; Some (skynet_getenv p s, s) }"

definition cmd_setenv :: "code \<Rightarrow> addr \<Rightarrow> cstring option \<Rightarrow> sys \<Rightarrow> (cstring option \<times> sys) option" where
  "cmd_setenv k c param s = do {
     p \<leftarrow> param;
     let key = takeWhile (\<lambda>x. x \<noteq> 32) p;
     (case dropWhile (\<lambda>x. x \<noteq> 32) p of
        [] \<Rightarrow> Some (None, s)
      | _ # value \<Rightarrow> do { s1 \<leftarrow> skynet_setenv key value s; Some (None, s1) }) }"

definition cmd_starttime :: "code \<Rightarrow> addr \<Rightarrow> cstring option \<Rightarrow> sys \<Rightarrow> (cstring option \<times> sys) option" where
  "cmd_starttime k c param s = set_result c (fmt_u (skynet_starttime (sys_TI s))) s"

definition cmd_abort :: "code \<Rightarrow> addr \<Rightarrow> cstring option \<Rightarrow> sys \<Rightarrow> (cstring option \<times> sys) option" where
  "cmd_abort k c param s = do { s1 \<leftarrow> skynet_handle_retireall k s; Some (None, s1) }"

definition cmd_monitor :: "code \<Rightarrow> addr \<Rightarrow> cstring option \<Rightarrow> sys \<Rightarrow> (cstring option \<times> sys) option" where
  "cmd_monitor k c param s =
     (if param = None \<or> param = Some [] then
        (if node_monitor_exit (sys_node s) \<noteq> 0 then set_result c (58 # fmt_x (node_monitor_exit (sys_node s))) s
         else Some (None, s))
      else do {
        (handle, s1) \<leftarrow> tohandle k c param s;
        Some (None, s1\<lparr>sys_node := (sys_node s1)\<lparr>node_monitor_exit := handle\<rparr>\<rparr>) })"

definition cmd_stat :: "code \<Rightarrow> addr \<Rightarrow> cstring option \<Rightarrow> sys \<Rightarrow> (cstring option \<times> sys) option" where
  "cmd_stat k c param s = do {
     p \<leftarrow> param;
     ctx \<leftarrow> sys_ctxs s c;
     (if strcmp p (bytes ''mqlen'') = 0 then do {
        mq \<leftarrow> mqs s (ctx_queue ctx);
        len \<leftarrow> skynet_mq_length mq;
        set_result c (fmt_d len) s }
      else if strcmp p (bytes ''endless'') = 0 then
        (if ctx_endless ctx then set_result c (bytes ''1'') (ctx_put c (ctx\<lparr>ctx_endless := False\<rparr>) s)
         else set_result c (bytes ''0'') s)
      else if strcmp p (bytes ''cpu'') = 0 then set_result c (fmt_lf k (ctx_cpu_cost ctx)) s
      else if strcmp p (bytes ''time'') = 0 then
        (if ctx_profile ctx
         then set_result c (fmt_lf k (skynet_thread_time (thread_clock k s) - ctx_cpu_start ctx)) s
         else set_result c (bytes ''0'') s)
      else if strcmp p (bytes ''message'') = 0 then set_result c (fmt_d (ctx_message_count ctx)) s
      else set_result c [] s) }"

definition cmd_logon :: "code \<Rightarrow> addr \<Rightarrow> cstring option \<Rightarrow> sys \<Rightarrow> (cstring option \<times> sys) option" where
  "cmd_logon k context param s = do {
     (handle, s1) \<leftarrow> tohandle k context param s;
     (if handle = 0 then Some (None, s1)
      else do {
        (r, s2) \<leftarrow> skynet_handle_grab handle s1;
        (case r of
           None \<Rightarrow> Some (None, s2)
         | Some c \<Rightarrow> do {
             ctx \<leftarrow> sys_ctxs s2 c;
             s4 \<leftarrow> (if ctx_logfile ctx = None then do {
                      (f, s3) \<leftarrow> skynet_log_open k context handle s2;
                      (case f of
                         None \<Rightarrow> Some s3
                       | Some fl \<Rightarrow> do {
                           ctx1 \<leftarrow> sys_ctxs s3 c;
                           (if ctx_logfile ctx1 = None then ctx_update c (ctx_logfile_update (\<lambda>_. Some fl)) s3
                            else fclose fl s3) }) }
                    else Some s2);
             (_, s5) \<leftarrow> skynet_context_release k c s4;
             Some (None, s5) }) }) }"

definition cmd_logoff :: "code \<Rightarrow> addr \<Rightarrow> cstring option \<Rightarrow> sys \<Rightarrow> (cstring option \<times> sys) option" where
  "cmd_logoff k context param s = do {
     (handle, s1) \<leftarrow> tohandle k context param s;
     (if handle = 0 then Some (None, s1)
      else do {
        (r, s2) \<leftarrow> skynet_handle_grab handle s1;
        (case r of
           None \<Rightarrow> Some (None, s2)
         | Some c \<Rightarrow> do {
             ctx \<leftarrow> sys_ctxs s2 c;
             s4 \<leftarrow> (case ctx_logfile ctx of
                      None \<Rightarrow> Some s2
                    | Some f \<Rightarrow> do {
                        s3 \<leftarrow> ctx_update c (ctx_logfile_update (\<lambda>_. None)) s2;
                        skynet_log_close k context f handle s3 });
             (_, s5) \<leftarrow> skynet_context_release k c s4;
             Some (None, s5) }) }) }"

definition cmd_signal :: "code \<Rightarrow> addr \<Rightarrow> cstring option \<Rightarrow> sys \<Rightarrow> (cstring option \<times> sys) option" where
  "cmd_signal k context param s = do {
     (handle, s1) \<leftarrow> tohandle k context param s;
     (if handle = 0 then Some (None, s1)
      else do {
        (r, s2) \<leftarrow> skynet_handle_grab handle s1;
        (case r of
           None \<Rightarrow> Some (None, s2)
         | Some c \<Rightarrow> do {
             p \<leftarrow> param;
             let sig = (case strchr p 32 of None \<Rightarrow> 0 | Some q \<Rightarrow> to_int (strtol q 0));
             ctx \<leftarrow> sys_ctxs s2 c;
             md \<leftarrow> get_module s2 (ctx_mod ctx);
             s3 \<leftarrow> skynet_module_instance_signal k md (ctx_instance ctx) sig s2;
             (_, s4) \<leftarrow> skynet_context_release k c s3;
             Some (None, s4) }) }) }"

type_synonym command = "code \<Rightarrow> addr \<Rightarrow> cstring option \<Rightarrow> sys \<Rightarrow> (cstring option \<times> sys) option"

definition cmd_funcs :: "(cstring \<times> command) list" where
  "cmd_funcs =
     [(bytes ''TIMEOUT'', cmd_timeout), (bytes ''REG'', cmd_reg), (bytes ''QUERY'', cmd_query), (bytes ''NAME'', cmd_name),
      (bytes ''EXIT'', cmd_exit), (bytes ''KILL'', cmd_kill), (bytes ''LAUNCH'', cmd_launch), (bytes ''GETENV'', cmd_getenv),
      (bytes ''SETENV'', cmd_setenv), (bytes ''STARTTIME'', cmd_starttime), (bytes ''ABORT'', cmd_abort),
      (bytes ''MONITOR'', cmd_monitor), (bytes ''STAT'', cmd_stat), (bytes ''LOGON'', cmd_logon),
      (bytes ''LOGOFF'', cmd_logoff), (bytes ''SIGNAL'', cmd_signal)]"

fun find_command :: "(cstring \<times> command) list \<Rightarrow> cstring \<Rightarrow> command option" where
  "find_command [] cmd = None"
| "find_command ((name, f) # ms) cmd = (if strcmp cmd name = 0 then Some f else find_command ms cmd)"

definition skynet_command :: "code \<Rightarrow> addr \<Rightarrow> cstring \<Rightarrow> cstring option \<Rightarrow> sys \<Rightarrow> (cstring option \<times> sys) option" where
  "skynet_command k context cmd param s = (case find_command cmd_funcs cmd of
     Some f \<Rightarrow> f k context param s
   | None \<Rightarrow> Some (None, s))"

section \<open>Start (\<open>skynet_start.c\<close>)\<close>

definition skynet_initthread :: "int \<Rightarrow> sys \<Rightarrow> sys" where
  "skynet_initthread m s = s\<lparr>sys_current := of_int (- m)\<rparr>"

definition skynet_globalinit :: "sys \<Rightarrow> sys" where
  "skynet_globalinit s = skynet_initthread THREAD_MAIN
     (s\<lparr>sys_node := (sys_node s)\<lparr>node_total := 0, node_monitor_exit := 0, node_init := 1\<rparr>\<rparr>)"

definition skynet_profile_enable :: "int \<Rightarrow> sys \<Rightarrow> sys" where
  "skynet_profile_enable enable s = s\<lparr>sys_node := (sys_node s)\<lparr>node_profile := (enable \<noteq> 0)\<rparr>\<rparr>"

definition signal_hup :: "code \<Rightarrow> sys \<Rightarrow> sys option" where
  "signal_hup k s = do {
     logger \<leftarrow> skynet_handle_findname (bytes ''logger'') (sys_H s);
     (if logger \<noteq> 0 then do {
        (_, s1) \<leftarrow> skynet_context_push k logger \<lparr>msg_source = 0, msg_session = 0, msg_data = None,
          msg_sz = encode_sz 0 PTYPE_SYSTEM\<rparr> s;
        Some s1 }
      else Some s) }"

text \<open>The batch weight of worker \<open>i\<close>.\<close>

definition worker_weights :: "int list" where
  "worker_weights = [- 1, - 1, - 1, - 1, 0, 0, 0, 0, 1, 1, 1, 1, 1, 1, 1, 1, 2, 2, 2, 2, 2, 2, 2, 2, 3, 3, 3, 3, 3, 3, 3, 3]"

definition worker_weight :: "nat \<Rightarrow> int" where
  "worker_weight i = (if i < length worker_weights then worker_weights ! i else 0)"

text \<open>\<open>bootstrap\<close>: the first service; on failure the logger's queue is flushed and the process
  exits, \<open>None\<close>.\<close>

definition bootstrap :: "code \<Rightarrow> cstring \<Rightarrow> sys \<Rightarrow> sys option" where
  "bootstrap k cmdline s = do {
     let (nm, args) = sscanf_two_words cmdline;
     name \<leftarrow> nm;
     a \<leftarrow> args;
     (r, s1) \<leftarrow> skynet_context_new k name (Some a) s;
     require (r \<noteq> None);
     Some s1 }"

record skynet_config =
  cfg_thread :: int
  cfg_harbor :: int
  cfg_profile :: int
  cfg_module_path :: cstring
  cfg_bootstrap :: cstring
  cfg_logger :: "cstring option"
  cfg_logservice :: cstring

text \<open>\<open>skynet_start\<close> up to the creation of the threads, from the readings of the two clocks.\<close>

definition skynet_start :: "code \<Rightarrow> int \<times> int \<Rightarrow> int \<times> int \<Rightarrow> skynet_config \<Rightarrow> sys \<Rightarrow> sys option" where
  "skynet_start k rt mt config s = do {
     let s1 = skynet_harbor_init (cfg_harbor config) s;
     let s2 = s1\<lparr>sys_H := skynet_handle_init (cfg_harbor config)\<rparr>;
     let s3 = skynet_mq_init s2;
     let s4 = skynet_module_init (cfg_module_path config) s3;
     let s5 = s4\<lparr>sys_TI := skynet_timer_init rt mt\<rparr>;
     let s6 = skynet_profile_enable (cfg_profile config) s5;
     (ctx, s7) \<leftarrow> skynet_context_new k (cfg_logservice config) (cfg_logger config) s6;
     require (ctx \<noteq> None);
     bootstrap k (cfg_bootstrap config) s7 }"

end
