(* ===== verification/Skynet_Service.thy ===== *)
theory Skynet_Service imports Skynet_Command begin

text \<open>
  Correctness of the service layer: its invariant (scheduling, reference counts, slot table, heap),
  delivery of messages, error paths, and the text form of handles.
\<close>

section \<open>Queues inside the service state\<close>

text \<open>The queues of a state as a state of the scheduler, for a given set of held queues.  The
  invariant of the scheduler does not read the set of living services; here they are those of the
  handle table.\<close>

definition mq_view :: "addr set \<Rightarrow> 'a mq_state_scheme \<Rightarrow> world" where
  "mq_view hs s = \<lparr>mqs = mqs s, mq_brk = mq_brk s, gQ = gQ s, held = hs, alive = {}\<rparr>"

lemma view_sel [simp]:
  "mqs (mq_view hs s) = mqs s" "mq_brk (mq_view hs s) = mq_brk s" "gQ (mq_view hs s) = gQ s" "held (mq_view hs s) = hs"
  by (simp_all add: mq_view_def)

lemma view_globalmq_push: "skynet_globalmq_push q (mq_view hs s) = map_option (mq_view hs) (skynet_globalmq_push q s)"
  unfolding skynet_globalmq_push_def
  by (auto simp: mq_view_def mq_put_def map_option_bind comp_def intro!: Option.bind_cong split: option.split)

lemma view_mq_push: "skynet_mq_push q m (mq_view hs s) = map_option (mq_view hs) (skynet_mq_push q m s)"
proof -
  have "mq_put q mq (mq_view hs s) = mq_view hs (mq_put q mq s)" for mq by (simp add: mq_view_def mq_put_def)
  then show ?thesis unfolding skynet_mq_push_def
    by (auto simp: map_option_bind comp_def view_globalmq_push intro!: Option.bind_cong)
qed

lemma view_mark_release: "skynet_mq_mark_release q (mq_view hs s) = map_option (mq_view hs) (skynet_mq_mark_release q s)"
proof -
  have "mq_put q mq (mq_view hs s) = mq_view hs (mq_put q mq s)" for mq by (simp add: mq_view_def mq_put_def)
  then show ?thesis unfolding skynet_mq_mark_release_def
    by (auto simp: map_option_bind comp_def view_globalmq_push Let_def intro!: Option.bind_cong)
qed

text \<open>A queue operation changes only the queues and the global queue.\<close>

lemma globalmq_push_frame:
  "skynet_globalmq_push q s = Some s' \<Longrightarrow> s' = s\<lparr>mqs := mqs s', gQ := gQ s'\<rparr>"
  by (auto simp: skynet_globalmq_push_def mq_put_def bind_eq_Some_conv split: option.splits)

lemma mq_push_frame: "skynet_mq_push q m s = Some s' \<Longrightarrow> s' = s\<lparr>mqs := mqs s', gQ := gQ s'\<rparr>"
  by (auto simp: skynet_mq_push_def mq_put_def bind_eq_Some_conv split: if_splits dest!: globalmq_push_frame) 

lemma mark_release_frame: "skynet_mq_mark_release q s = Some s' \<Longrightarrow> s' = s\<lparr>mqs := mqs s', gQ := gQ s'\<rparr>"
  by (auto simp: skynet_mq_mark_release_def mq_put_def Let_def bind_eq_Some_conv split: if_splits dest!: globalmq_push_frame)

definition same_content :: "message_queue option \<Rightarrow> message_queue option \<Rightarrow> bool" where
  "same_content a b \<longleftrightarrow> map_option (\<lambda>m. m\<lparr>mq_next := None, mq_in_global := 0\<rparr>) a = map_option (\<lambda>m. m\<lparr>mq_next := None, mq_in_global := 0\<rparr>) b"

lemma globalmq_push_content: "skynet_globalmq_push q s = Some s' \<Longrightarrow> same_content (mqs s' a) (mqs s a)"
  by (auto simp: skynet_globalmq_push_def mq_put_def same_content_def bind_eq_Some_conv split: option.splits)

lemma mq_push_content:
  assumes "skynet_mq_push q m s = Some s'" "mqs s q = Some mq"
  shows "\<exists>mq'. mq_store m mq = Some mq' \<and> same_content (mqs s' q) (Some mq') \<and> (\<forall>a. a \<noteq> q \<longrightarrow> same_content (mqs s' a) (mqs s a))"
proof -
  obtain mq' where st: "mq_store m mq = Some mq'" using assms by (auto simp: skynet_mq_push_def bind_eq_Some_conv)
  show ?thesis
  proof (cases "mq_in_global mq' = 0")
    case True
    then have "skynet_globalmq_push q (mq_put q (mq'\<lparr>mq_in_global := MQ_IN_GLOBAL\<rparr>) s) = Some s'"
      using assms st by (simp add: skynet_mq_push_def)
    from globalmq_push_content [OF this] show ?thesis
      using st by (auto simp: same_content_def mq_put_def)
  next
    case False
    then show ?thesis using assms st by (auto simp: skynet_mq_push_def same_content_def mq_put_def)
  qed
qed

lemma same_contentD:
  assumes "same_content a (Some mq)"
  obtains mq' where "a = Some mq'" "mq_list mq' = mq_list mq" "mq_handle mq' = mq_handle mq"
    "mq_release mq' = mq_release mq" "mq_cap mq' = mq_cap mq"
proof -
  obtain mq' where a: "a = Some mq'" and eq: "mq'\<lparr>mq_next := None, mq_in_global := 0\<rparr> = mq\<lparr>mq_next := None, mq_in_global := 0\<rparr>"
    using assms by (auto simp: same_content_def)
  have l: "mq_list (m\<lparr>mq_next := x, mq_in_global := y\<rparr>) = mq_list m" for m x y
    by (simp add: mq_list_def mq_len_def)
  have "mq_list mq' = mq_list mq" using arg_cong [OF eq, of mq_list] by (simp only: l)
  moreover have "mq_handle mq' = mq_handle mq" using arg_cong [OF eq, of mq_handle] by simp
  moreover have "mq_release mq' = mq_release mq" using arg_cong [OF eq, of mq_release] by simp
  moreover have "mq_cap mq' = mq_cap mq" using arg_cong [OF eq, of mq_cap] by simp
  ultimately show thesis using a that by blast
qed


section \<open>The invariant of the service layer\<close>

text \<open>A live context has a reference and a queue of its own that is not being released; the slot
  table points to live contexts, and addresses in use are below the allocation pointer.\<close>

definition ctx_ok :: "sys \<Rightarrow> skynet_context \<Rightarrow> bool" where
  "ctx_ok s ctx \<longleftrightarrow> 0 < ctx_ref ctx \<and> ctx_ref ctx < 2 ^ 30 \<and>
     (\<exists>mq. mqs s (ctx_queue ctx) = Some mq \<and> mq_release mq = 0 \<and> mq_handle mq = ctx_handle ctx)"

definition sys_inv :: "addr list \<Rightarrow> addr set \<Rightarrow> sys \<Rightarrow> bool" where
  "sys_inv xs hs s \<longleftrightarrow> sched_inv xs (mq_view hs s) \<and> (\<exists>k. slots_wf (handle_of s) k (sys_H s)) \<and> names_wf (sys_H s) \<and>
     (\<forall>c ctx. sys_ctxs s c = Some ctx \<longrightarrow> c < sys_brk s \<and> ctx_ok s ctx) \<and>
     (\<forall>a. sys_heap s a \<noteq> None \<longrightarrow> a < sys_brk s)"

abbreviation services :: "sys \<Rightarrow> u32 \<Rightarrow> addr option" where
  "services s \<equiv> handle_table (handle_of s) (sys_H s)"

text \<open>The messages waiting for a service.\<close>

definition inbox :: "sys \<Rightarrow> u32 \<Rightarrow> skynet_message list" where
  "inbox s h = (case services s h of
     None \<Rightarrow> []
   | Some c \<Rightarrow> (case sys_ctxs s c of None \<Rightarrow> [] | Some ctx \<Rightarrow> (case mqs s (ctx_queue ctx) of None \<Rightarrow> [] | Some mq \<Rightarrow> mq_list mq)))"

definition inbox_room :: "sys \<Rightarrow> u32 \<Rightarrow> bool" where
  "inbox_room s h \<longleftrightarrow> (\<forall>c ctx mq. services s h = Some c \<longrightarrow> sys_ctxs s c = Some ctx \<longrightarrow> mqs s (ctx_queue ctx) = Some mq \<longrightarrow> mq_cap mq \<le> 2 ^ 29)"

lemma sys_inv_find:
  assumes "sys_inv xs hs s"
  shows "handle_find (handle_of s) h (sys_H s) = Some (services s h)"
  using assms handle_find_table unfolding sys_inv_def by blast

lemma service_live:
  assumes "sys_inv xs hs s" "services s h = Some c"
  obtains ctx mq where "sys_ctxs s c = Some ctx" "ctx_handle ctx = h" "0 < ctx_ref ctx" "ctx_ref ctx < 2 ^ 30"
    "mqs s (ctx_queue ctx) = Some mq" "mq_release mq = 0" "mq_handle mq = h"
proof -
  have "handle_of s c = Some h" using assms(2) by (auto simp: handle_table_def split: option.splits if_splits)
  then obtain ctx where ctx: "sys_ctxs s c = Some ctx" "ctx_handle ctx = h" by (auto simp: handle_of_def)
  then have "ctx_ok s ctx" using assms(1) by (auto simp: sys_inv_def)
  then show thesis using that ctx by (auto simp: ctx_ok_def)
qed

lemma grab_service:
  assumes inv: "sys_inv xs hs s"
  shows "skynet_handle_grab h s = Some (case services s h of None \<Rightarrow> (None, s)
     | Some c \<Rightarrow> (Some c, ctx_put c ((the (sys_ctxs s c))\<lparr>ctx_ref := ctx_ref (the (sys_ctxs s c)) + 1\<rparr>) s))"
proof (cases "services s h")
  case None
  then show ?thesis using sys_inv_find [OF inv] by (simp add: skynet_handle_grab_def)
next
  case (Some c)
  then obtain ctx where "sys_ctxs s c = Some ctx" "0 < ctx_ref ctx" "ctx_ref ctx < 2 ^ 30"
    using service_live [OF inv] by metis
  moreover from this have "cint_ok (ctx_ref ctx + 1)" by (intro cint_okI) auto
  ultimately show ?thesis using sys_inv_find [OF inv] Some by (simp add: skynet_handle_grab_def skynet_context_grab_def)
qed

text \<open>Giving back a reference that is not the last one.\<close>

lemma release_kept:
  assumes "sys_ctxs s c = Some ctx" "1 < ctx_ref ctx" "ctx_ref ctx \<le> 2 ^ 30"
  shows "skynet_context_release k c s = Some (Some c, ctx_put c (ctx\<lparr>ctx_ref := ctx_ref ctx - 1\<rparr>) s)"
proof -
  have "cint_ok (ctx_ref ctx - 1)" using assms by (intro cint_okI) auto
  then show ?thesis using assms by (simp add: skynet_context_release_def)
qed

lemma sys_inv_queues:
  assumes inv: "sys_inv xs hs s" and s': "s' = s\<lparr>mqs := Q, gQ := G\<rparr>" and sched: "sched_inv ys (mq_view hs s')"
    and keep: "\<And>a mq. mqs s a = Some mq \<Longrightarrow> \<exists>mq'. Q a = Some mq' \<and> mq_release mq' = mq_release mq \<and> mq_handle mq' = mq_handle mq"
  shows "sys_inv ys hs s'"
proof -
  have "handle_of s' = handle_of s" by (simp add: s' handle_of_def fun_eq_iff)
  moreover have "ctx_ok s' ctx" if "ctx_ok s ctx" for ctx
    using that keep by (fastforce simp: ctx_ok_def s')
  ultimately show ?thesis using inv sched by (auto simp: sys_inv_def s')
qed

lemma mq_push_service:
  assumes inv: "sys_inv xs hs s" and c: "services s h = Some c" "sys_ctxs s c = Some ctx" and room: "inbox_room s h"
  shows "\<exists>ys s'. skynet_mq_push (ctx_queue ctx) m s = Some s' \<and> sys_inv ys hs s' \<and> s' = s\<lparr>mqs := mqs s', gQ := gQ s'\<rparr> \<and>
     inbox s' h = inbox s h @ [m] \<and> (\<forall>h'. h' \<noteq> h \<longrightarrow> inbox s' h' = inbox s h')"
proof -
  let ?q = "ctx_queue ctx"
  obtain mq where mq: "mqs s ?q = Some mq" "mq_release mq = 0" "mq_handle mq = h" "mq_cap mq \<le> 2 ^ 29"
    using service_live [OF inv c(1)] c room by (metis (no_types, lifting) inbox_room_def option.inject)
  have sched: "sched_inv xs (mq_view hs s)" using inv by (simp add: sys_inv_def)
  then have "mq_wf mq" using mq(1) flags_okD [of _ "mq_view hs s" ?q mq] by (auto simp: sched_inv_def mq_ok_def)
  then obtain mq' where st: "mq_store m mq = Some mq'" "mq_list mq' = mq_list mq @ [m]" "mq_handle mq' = mq_handle mq"
      "mq_release mq' = mq_release mq"
    using mq_store_returns [of mq m] mq(4) by blast
  obtain ys w' where w': "skynet_mq_push ?q m (mq_view hs s) = Some w'" "sched_inv ys w'"
    using sched_inv_send [OF sched _ mq(2), of ?q m mq'] mq(1) st(1) by auto
  then obtain s' where s': "skynet_mq_push ?q m s = Some s'" "w' = mq_view hs s'" by (auto simp: view_mq_push)
  note frame = mq_push_frame [OF s'(1)]
  have cont: "same_content (mqs s' ?q) (Some mq')" "\<And>a. a \<noteq> ?q \<Longrightarrow> same_content (mqs s' a) (mqs s a)"
    using mq_push_content [OF s'(1) mq(1)] st(1) by auto
  have inv': "sys_inv ys hs s'"
  proof (rule sys_inv_queues [OF inv frame])
    show "sched_inv ys (mq_view hs s')" using w'(2) s'(2) by simp
    show "\<exists>mqb. mqs s' a = Some mqb \<and> mq_release mqb = mq_release mqa \<and> mq_handle mqb = mq_handle mqa"
      if "mqs s a = Some mqa" for a mqa
      using that cont mq st by (cases "a = ?q") (fastforce elim!: same_contentD)+
  qed
  have sc: "sys_ctxs s' = sys_ctxs s" "sys_H s' = sys_H s" using arg_cong [OF frame, of sys_ctxs] arg_cong [OF frame, of sys_H] by simp_all
  then have ho: "handle_of s' = handle_of s" by (simp add: handle_of_def fun_eq_iff)
  note sv = sc ho
  obtain mq'' where mq'': "mqs s' ?q = Some mq''" "mq_list mq'' = mq_list mq'" using cont(1) by (rule same_contentD)
  have "inbox s' h = inbox s h @ [m]" using c mq mq'' st(2) by (simp add: inbox_def sv)
  moreover have "inbox s' h' = inbox s h'" if "h' \<noteq> h" for h'
  proof (cases "services s h'")
    case (Some c')
    obtain ctx' mqx where x: "sys_ctxs s c' = Some ctx'" "mqs s (ctx_queue ctx') = Some mqx" "mq_handle mqx = h'"
      using service_live [OF inv Some] by metis
    then have "ctx_queue ctx' \<noteq> ?q" using mq that by auto
    then obtain mqy where "mqs s' (ctx_queue ctx') = Some mqy" "mq_list mqy = mq_list mqx"
      using cont(2) x(2) by (metis same_contentD)
    then show ?thesis using Some x by (simp add: inbox_def sv)
  qed (simp add: inbox_def sv)
  ultimately show ?thesis using s'(1) inv' frame by blast
qed


lemma ctx_put_sel [simp]: "mqs (ctx_put c x s) = mqs s" "sys_H (ctx_put c x s) = sys_H s" "sys_heap (ctx_put c x s) = sys_heap s"
    "sys_ctxs (ctx_put c x s) = (sys_ctxs s)(c \<mapsto> x)" "sys_brk (ctx_put c x s) = sys_brk s"
  by (simp_all add: ctx_put_def)

lemma globalmq_push_ctx_put: "skynet_globalmq_push q (ctx_put c x s) = map_option (ctx_put c x) (skynet_globalmq_push q s)"
  unfolding skynet_globalmq_push_def
  by (auto simp: ctx_put_def mq_put_def map_option_bind comp_def intro!: Option.bind_cong split: option.split)

lemma mq_push_ctx_put: "skynet_mq_push q m (ctx_put c x s) = map_option (ctx_put c x) (skynet_mq_push q m s)"
proof -
  have "mq_put q mq (ctx_put c x s) = ctx_put c x (mq_put q mq s)" for mq by (simp add: ctx_put_def mq_put_def)
  then show ?thesis unfolding skynet_mq_push_def
    by (auto simp: map_option_bind comp_def globalmq_push_ctx_put intro!: Option.bind_cong)
qed

lemma context_push_unknown: "sys_inv xs hs s \<Longrightarrow> services s h = None \<Longrightarrow> skynet_context_push k h m s = Some (- 1, s)"
  using grab_service [of xs hs s h] by (simp add: skynet_context_push_def)

lemma context_push_ok:
  assumes inv: "sys_inv xs hs s" and c: "services s h = Some c" and room: "inbox_room s h"
  shows "\<exists>ys s'. skynet_context_push k h m s = Some (0, s') \<and> sys_inv ys hs s' \<and> s' = s\<lparr>mqs := mqs s', gQ := gQ s'\<rparr> \<and>
     inbox s' h = inbox s h @ [m] \<and> (\<forall>h'. h' \<noteq> h \<longrightarrow> inbox s' h' = inbox s h')"
proof -
  obtain ctx where ctx: "sys_ctxs s c = Some ctx" "0 < ctx_ref ctx" "ctx_ref ctx < 2 ^ 30"
    using service_live [OF inv c] by metis
  let ?ctx = "ctx\<lparr>ctx_ref := ctx_ref ctx + 1\<rparr>"
  obtain ys s' where s': "skynet_mq_push (ctx_queue ctx) m s = Some s'" "sys_inv ys hs s'" "s' = s\<lparr>mqs := mqs s', gQ := gQ s'\<rparr>"
     "inbox s' h = inbox s h @ [m]" "\<And>h'. h' \<noteq> h \<Longrightarrow> inbox s' h' = inbox s h'"
    using mq_push_service [OF inv c ctx(1) room, of m] by blast
  have g: "skynet_handle_grab h s = Some (Some c, ctx_put c ?ctx s)"
    using grab_service [OF inv, of h] c ctx(1) by simp
  have p: "skynet_mq_push (ctx_queue ctx) m (ctx_put c ?ctx s) = Some (ctx_put c ?ctx s')"
    using s'(1) by (simp add: mq_push_ctx_put)
  have "skynet_context_release k c (ctx_put c ?ctx s') = Some (Some c, ctx_put c (?ctx\<lparr>ctx_ref := ctx_ref ?ctx - 1\<rparr>) (ctx_put c ?ctx s'))"
    using ctx by (intro release_kept) (simp_all add: ctx_put_def)
  moreover have "ctx_put c (?ctx\<lparr>ctx_ref := ctx_ref ?ctx - 1\<rparr>) (ctx_put c ?ctx s') = s'"
  proof -
    have "sys_ctxs s' c = Some ctx" using arg_cong [OF s'(3), of sys_ctxs] ctx(1) by simp
    then have "(sys_ctxs s')(c \<mapsto> ctx) = sys_ctxs s'" by (simp add: fun_upd_idem)
    then show ?thesis by (simp add: ctx_put_def)
  qed
  ultimately have "skynet_context_push k h m s = Some (0, s')"
    using g p by (simp add: skynet_context_push_def ctx_put_def)
  then show ?thesis using s' by blast
qed

section \<open>Type and size of a message\<close>

lemma decode_encode:
  assumes "sz AND MESSAGE_TYPE_MASK = sz" "0 \<le> t" "t < 256"
  shows "uint (drop_bit MESSAGE_TYPE_SHIFT (encode_sz sz t)) = t \<and> encode_sz sz t AND MESSAGE_TYPE_MASK = sz"
proof -
  have mask: "MESSAGE_TYPE_MASK = mask 56" by (rule bit_word_eqI) (auto simp: MESSAGE_TYPE_MASK_def bit_simps)
  have sz: "take_bit 56 sz = sz" using assms(1) unfolding mask by (simp only: take_bit_eq_mask)
  have "drop_bit 56 sz = 0" using sz by (metis drop_bit_take_bit diff_self_eq_0 take_bit_0)
  moreover have "drop_bit 56 (push_bit 56 (of_int t :: u64)) = take_bit 8 (of_int t)"
    by (rule bit_word_eqI) (auto simp: bit_simps)
  ultimately have "drop_bit 56 (encode_sz sz t) = take_bit 8 (of_int t)"
    by (simp only: encode_sz_def MESSAGE_TYPE_SHIFT_def drop_bit_or or.left_neutral)
  moreover have "uint (take_bit 8 (of_int t :: u64)) = t"
    using assms(2,3) by (simp only: uint_take_bit_mod) (simp add: uint_word_of_int)
  moreover have "take_bit 56 (encode_sz sz t) = sz"
    by (simp only: encode_sz_def MESSAGE_TYPE_SHIFT_def take_bit_or sz take_bit_push_bit) simp
  ultimately show ?thesis unfolding mask by (simp add: MESSAGE_TYPE_SHIFT_def take_bit_eq_mask)
qed


section \<open>Allocation\<close>

lemma inbox_cong: "services s' = services s \<Longrightarrow> sys_ctxs s' = sys_ctxs s \<Longrightarrow> mqs s' = mqs s \<Longrightarrow> inbox s' = inbox s"
  by (intro ext) (simp only: inbox_def)

lemma malloc_inv:
  assumes inv: "sys_inv xs hs s" and m: "skynet_malloc b s = (a, s1)"
  shows "a = sys_brk s \<and> sys_heap s a = None \<and> sys_inv xs hs s1 \<and>
    s1 = s\<lparr>sys_heap := (sys_heap s)(a \<mapsto> b), sys_brk := Suc a\<rparr> \<and> services s1 = services s \<and> inbox s1 = inbox s"
proof -
  have s1: "a = sys_brk s" "s1 = s\<lparr>sys_heap := (sys_heap s)(a \<mapsto> b), sys_brk := Suc a\<rparr>"
    using m by (auto simp: skynet_malloc_def)
  then have ho: "handle_of s1 = handle_of s" by (simp add: handle_of_def fun_eq_iff)
  moreover have "ctx_ok s1 = ctx_ok s" by (simp add: s1 ctx_ok_def fun_eq_iff)
  ultimately have "sys_inv xs hs s1" using inv s1 unfolding sys_inv_def mq_view_def by (auto simp: less_Suc_eq)
  moreover have "sys_heap s a = None" using inv s1(1) unfolding sys_inv_def by (metis less_irrefl)
  moreover have sel: "sys_ctxs s1 = sys_ctxs s" "mqs s1 = mqs s" "sys_H s1 = sys_H s" by (simp_all add: s1)
  then have "inbox s1 = inbox s" using ho by (intro inbox_cong) simp_all
  ultimately show ?thesis using s1 ho sel by metis
qed

lemma free_inv:
  assumes inv: "sys_inv xs hs s" and b: "sys_heap s a = Some b"
  shows "\<exists>s1. skynet_free (Some a) s = Some s1 \<and> s1 = s\<lparr>sys_heap := (sys_heap s)(a := None)\<rparr> \<and> sys_inv xs hs s1 \<and>
    services s1 = services s \<and> inbox s1 = inbox s"
proof -
  let ?s = "s\<lparr>sys_heap := (sys_heap s)(a := None)\<rparr>"
  have ho: "handle_of ?s = handle_of s" by (simp add: handle_of_def fun_eq_iff)
  moreover have "ctx_ok ?s = ctx_ok s" by (simp add: ctx_ok_def fun_eq_iff)
  ultimately have "sys_inv xs hs ?s" using inv unfolding sys_inv_def mq_view_def by auto
  moreover have "inbox ?s = inbox s" using ho by (intro inbox_cong) simp_all
  ultimately show ?thesis using b by (simp add: skynet_free_def ho)
qed

lemma copy_bytes:
  "sys_heap s a = Some (Bytes bs) \<Longrightarrow> unat sz \<le> length bs \<Longrightarrow> copy_block a sz s = Some (Bytes (take (unat sz) bs @ [0]))"
  by (simp add: copy_block_def read_bytes_def)

lemma filter_args_copy:
  assumes inv: "sys_inv xs hs s" and t: "0 \<le> type" "type < 256" and a: "copy_block a sz s = Some x"
  shows "\<exists>b s1. filter_args context type session (Some a) sz s = Some ((session, Some b, encode_sz sz type), s1) \<and>
     b = sys_brk s \<and> sys_heap s b = None \<and> s1 = s\<lparr>sys_heap := (sys_heap s)(b \<mapsto> x), sys_brk := Suc b\<rparr> \<and>
     sys_inv xs hs s1 \<and> services s1 = services s \<and> inbox s1 = inbox s"
proof -
  obtain b s1 where m: "skynet_malloc x s = (b, s1)" by fastforce
  have "\<not> bit type PTYPE_TAG_ALLOCSESSION \<and> \<not> bit type PTYPE_TAG_DONTCOPY"
  proof -
    have "type = take_bit 8 type" using t by (simp add: take_bit_eq_mod)
    then have "\<not> bit type n" if "8 \<le> n" for n using that by (metis bit_take_bit_iff not_le)
    then show ?thesis by (simp add: PTYPE_TAG_ALLOCSESSION_def PTYPE_TAG_DONTCOPY_def)
  qed
  moreover have "type AND 255 = type"
  proof -
    have "type AND 255 = take_bit 8 type" by (simp add: take_bit_eq_mask mask_eq_exp_minus_1)
    then show ?thesis using t by (simp add: take_bit_eq_mod)
  qed
  ultimately have "filter_args context type session (Some a) sz s = Some ((session, Some b, encode_sz sz type), s1)"
    using a m by (simp add: filter_args_def)
  then show ?thesis using malloc_inv [OF inv m] by blast
qed

lemma send_copy:
  assumes inv: "sys_inv xs hs s" and dest: "services s dest \<noteq> None" "inbox_room s dest" "dest \<noteq> 0"
    "skynet_harbor_message_isremote dest s = Some False" and type: "0 \<le> type" "type < 256"
    and sz: "sz AND MESSAGE_TYPE_MASK = sz" and a: "copy_block a sz s = Some x"
    and src: "if source = 0 then \<exists>c. context = Some c \<and> skynet_context_handle c s = Some src else src = source"
  shows "\<exists>ys s' b m. skynet_send k context source dest type session (Some a) sz s = Some (session, s') \<and> sys_inv ys hs s' \<and>
     inbox s' dest = inbox s dest @ [m] \<and> (\<forall>h. h \<noteq> dest \<longrightarrow> inbox s' h = inbox s h) \<and>
     msg_source m = src \<and> msg_session m = session \<and> msg_data m = Some b \<and>
     sys_heap s b = None \<and> sys_heap s' = (sys_heap s)(b \<mapsto> x) \<and>
     uint (drop_bit MESSAGE_TYPE_SHIFT (msg_sz m)) = type \<and> msg_sz m AND MESSAGE_TYPE_MASK = sz"
proof -
  obtain b s1 where f: "filter_args context type session (Some a) sz s = Some ((session, Some b, encode_sz sz type), s1)"
     "sys_heap s b = None" "s1 = s\<lparr>sys_heap := (sys_heap s)(b \<mapsto> x), sys_brk := Suc b\<rparr>"
     "sys_inv xs hs s1" "services s1 = services s" "inbox s1 = inbox s"
    using filter_args_copy [OF inv type a, of "context" session] by blast
  let ?m = "\<lparr>msg_source = src, msg_session = session, msg_data = Some b, msg_sz = encode_sz sz type\<rparr>"
  have "inbox_room s1 dest" using dest(2) f(3,5) by (simp add: inbox_room_def)
  then obtain ys s' where p: "skynet_context_push k dest ?m s1 = Some (0, s')" "sys_inv ys hs s'" "s' = s1\<lparr>mqs := mqs s', gQ := gQ s'\<rparr>"
     "inbox s' dest = inbox s1 dest @ [?m]" "\<forall>h'. h' \<noteq> dest \<longrightarrow> inbox s' h' = inbox s1 h'"
    using context_push_ok [OF f(4), of dest] dest(1) f(5) by (metis not_None_eq)
  have "skynet_harbor_message_isremote dest s1 = Some False" using dest(4) f(3) by (simp add: skynet_harbor_message_isremote_def)
  moreover have "(if source = 0 then do { c \<leftarrow> context; skynet_context_handle c s1 } else Some source) = Some src"
    using src f(3) by (auto simp: skynet_context_handle_def split: if_splits)
  ultimately have "skynet_send k context source dest type session (Some a) sz s = Some (session, s')"
    using dest(3) sz f(1) p(1) by (simp add: skynet_send_def)
  moreover have "sys_heap s' = (sys_heap s)(b \<mapsto> x)"
    using arg_cong [OF p(3), of sys_heap] f(3) by simp
  ultimately show ?thesis
    using p f(2,6) decode_encode [OF sz type] by (intro exI [of _ ys] exI [of _ s'] exI [of _ b] exI [of _ ?m]) simp
qed


section \<open>Properties\<close>

text \<open>C10: \<open>skynet_context_push\<close> to a handle in use appends the message to the queue of exactly that
  service, keeps the invariant of the scheduler and of the reference counts, and leaves everything
  else as it was; to an unknown handle it returns -1 and changes nothing.\<close>

theorem context_push_delivers:
  assumes "sys_inv xs hs s" "inbox_room s h"
  shows "if services s h = None then skynet_context_push k h m s = Some (- 1, s)
     else \<exists>ys s'. skynet_context_push k h m s = Some (0, s') \<and> sys_inv ys hs s' \<and> s' = s\<lparr>mqs := mqs s', gQ := gQ s'\<rparr> \<and>
       inbox s' h = inbox s h @ [m] \<and> (\<forall>h'. h' \<noteq> h \<longrightarrow> inbox s' h' = inbox s h')"
  using context_push_unknown [OF assms(1)] context_push_ok [OF assms(1) _ assms(2)] by auto

text \<open>C11: \<open>skynet_send\<close> of a block to a local service copies the bytes into a fresh block with a
  terminating zero and delivers one message from which the receiver's \<open>dispatch_message\<close>
  recovers the type and the size that were sent.\<close>

theorem send_delivers:
  assumes "sys_inv xs hs s" "services s dest \<noteq> None" "inbox_room s dest" "dest \<noteq> 0" "source \<noteq> 0"
    "skynet_harbor_message_isremote dest s = Some False" "0 \<le> type" "type < 256"
    "sz AND MESSAGE_TYPE_MASK = sz" "sys_heap s a = Some (Bytes bs)" "unat sz \<le> length bs"
  shows "\<exists>ys s' b m. skynet_send k context source dest type session (Some a) sz s = Some (session, s') \<and> sys_inv ys hs s' \<and>
     inbox s' dest = inbox s dest @ [m] \<and> (\<forall>h. h \<noteq> dest \<longrightarrow> inbox s' h = inbox s h) \<and>
     msg_source m = source \<and> msg_session m = session \<and> msg_data m = Some b \<and>
     sys_heap s b = None \<and> sys_heap s' = (sys_heap s)(b \<mapsto> Bytes (take (unat sz) bs @ [0])) \<and>
     uint (drop_bit MESSAGE_TYPE_SHIFT (msg_sz m)) = type \<and> msg_sz m AND MESSAGE_TYPE_MASK = sz"
  using send_copy [OF assms(1,2,3,4,6,7,8,9) copy_bytes [OF assms(10,11)], of source "context" source k session] assms(5) by simp

text \<open>C12: sending to a local handle that is not in use returns -1 and frees the copy of the message again:
  the heap is as before, and no queue changes.\<close>

theorem send_unknown_frees:
  assumes "sys_inv xs hs s" "services s dest = None" "dest \<noteq> 0" "source \<noteq> 0"
    "skynet_harbor_message_isremote dest s = Some False" "0 \<le> type" "type < 256"
    "sz AND MESSAGE_TYPE_MASK = sz" "sys_heap s a = Some (Bytes bs)" "unat sz \<le> length bs"
  shows "\<exists>s'. skynet_send k context source dest type session (Some a) sz s = Some (- 1, s') \<and>
     sys_heap s' = sys_heap s \<and> mqs s' = mqs s \<and> inbox s' = inbox s \<and> sys_inv xs hs s'"
proof -
  obtain b s1 where f: "filter_args context type session (Some a) sz s = Some ((session, Some b, encode_sz sz type), s1)"
     "sys_heap s b = None" "s1 = s\<lparr>sys_heap := (sys_heap s)(b \<mapsto> Bytes (take (unat sz) bs @ [0])), sys_brk := Suc b\<rparr>"
     "sys_inv xs hs s1" "services s1 = services s" "inbox s1 = inbox s"
    using filter_args_copy [OF assms(1,6,7) copy_bytes [OF assms(9,10)], of "context" session] by blast
  let ?m = "\<lparr>msg_source = source, msg_session = session, msg_data = Some b, msg_sz = encode_sz sz type\<rparr>"
  have p: "skynet_context_push k dest ?m s1 = Some (- 1, s1)"
    using context_push_unknown [OF f(4)] assms(2) f(5) by metis
  obtain s2 where s2: "skynet_free (Some b) s1 = Some s2" "s2 = s1\<lparr>sys_heap := (sys_heap s1)(b := None)\<rparr>" "sys_inv xs hs s2" "inbox s2 = inbox s1"
    using free_inv [OF f(4), of b] f(3) by auto
  have "skynet_harbor_message_isremote dest s1 = Some False" using assms(5) f(3) by (simp add: skynet_harbor_message_isremote_def)
  then have "skynet_send k context source dest type session (Some a) sz s = Some (- 1, s2)"
    using assms(3,4,8) f(1) p s2(1) by (simp add: skynet_send_def)
  moreover have "sys_heap s2 = sys_heap s" using s2(2) f(2,3) by (simp add: fun_upd_idem)
  ultimately show ?thesis using s2 f(3,6) by simp
qed


section \<open>A sample state\<close>

text \<open>One service with handle \<open>0x01000001\<close>, and a block of three bytes.\<close>

definition sample_ctx :: skynet_context where
  "sample_ctx = \<lparr>ctx_instance = 0, ctx_mod = 0, ctx_cb_ud = None, ctx_cb = None, ctx_queue = 0, ctx_logfile = None,
     ctx_cpu_cost = 0, ctx_cpu_start = 0, ctx_result = [], ctx_handle = 0x01000001, ctx_session_id = 0, ctx_ref = 1,
     ctx_message_count = 0, ctx_init = True, ctx_endless = False, ctx_profile = False\<rparr>"

definition sample_sys :: sys where
  "sample_sys = \<lparr>mqs = [0 \<mapsto> new_mq 0x01000001], mq_brk = 1, gQ = Some \<lparr>gq_head = None, gq_tail = None\<rparr>,
     sys_H = (skynet_handle_init 1)\<lparr>hs_slot := [None, Some 0, None, None], hs_handle_index := 2\<rparr>,
     sys_ctxs = [0 \<mapsto> sample_ctx], sys_heap = [5 \<mapsto> Bytes [1, 2, 3]], sys_brk = 6,
     sys_node = \<lparr>node_total = 1, node_init = 1, node_monitor_exit = 0, node_profile = False\<rparr>, sys_current = 0,
     sys_TI = timer_create_timer, sys_M = \<lparr>mod_count = 0, mod_path = [], mod_m = []\<rparr>, sys_env = Map.empty,
     sys_REMOTE = None, sys_HARBOR = 0x01000000, sys_logger = 0, sys_files = Map.empty, sys_stderr = []\<rparr>"

lemma sample_inv: "sys_inv [] {0} sample_sys \<and> services sample_sys 0x01000001 = Some 0 \<and>
    inbox_room sample_sys 0x01000001 \<and> services sample_sys 0x01000002 = None"
proof -
  have "sched_inv [] (mq_view {0} sample_sys)"
    using sched_inv_create [OF sched_inv_init, of "0x01000001"]
    by (simp add: skynet_mq_create_def world_init_def skynet_mq_init_def mq_put_def mq_view_def sample_sys_def)
  moreover have slots: "slots_wf (handle_of sample_sys) 2 (sys_H sample_sys)"
    by (auto simp: slots_wf_def sample_sys_def handle_of_def sample_ctx_def skynet_handle_init_def DEFAULT_SLOT_SIZE_def
        HANDLE_REMOTE_SHIFT_def HANDLE_MASK_def nth_Cons' split: if_splits)
  moreover have "names_wf (sys_H sample_sys)"
    by (simp add: names_wf_def sample_sys_def skynet_handle_init_def MAX_SLOT_SIZE_def name_list_def)
  moreover have "ctx_ok sample_sys sample_ctx"
    by (simp add: ctx_ok_def sample_ctx_def sample_sys_def new_mq_def)
  ultimately have "sys_inv [] {0} sample_sys"
    unfolding sys_inv_def by (auto simp: sample_sys_def)
  moreover have "services sample_sys 0x01000001 = Some 0" "services sample_sys 0x01000002 = None"
    by (simp_all add: handle_table_def slot_hash_def sample_sys_def handle_of_def sample_ctx_def skynet_handle_init_def DEFAULT_SLOT_SIZE_def)
  moreover have "inbox_room sample_sys 0x01000001"
    by (simp add: inbox_room_def sample_sys_def new_mq_def DEFAULT_QUEUE_SIZE_def sample_ctx_def)
  ultimately show ?thesis by blast
qed

definition sample_code :: code where
  "sample_code = \<lparr>call_create = (\<lambda>_ s. Some (None, s)), call_init = (\<lambda>_ _ _ _ s. Some (0, s)), call_release = (\<lambda>_ _ s. Some s),
     call_signal = (\<lambda>_ _ _ s. Some s), call_cb = (\<lambda>_ _ _ _ _ _ _ _ s. Some (0, s)), dlopen = (\<lambda>_. None), dlsym = (\<lambda>_ _. None),
     dlerror = [], fopen_ok = (\<lambda>_. False), ctime = (\<lambda>_. []), fmt_lf = (\<lambda>_. []), thread_clock = (\<lambda>_. (0, 0))\<rparr>"

theorem context_push_delivers_witness:
  "\<exists>s'. skynet_context_push sample_code 0x01000001 (timer_message 3) sample_sys = Some (0, s') \<and>
     inbox s' 0x01000001 = inbox sample_sys 0x01000001 @ [timer_message 3]"
  using context_push_delivers [of "[]" "{0}" sample_sys "0x01000001" sample_code "timer_message 3"] sample_inv by auto

lemma sample_local: "skynet_harbor_message_isremote 0x01000001 sample_sys = Some False"
    "skynet_harbor_message_isremote 0x01000002 sample_sys = Some False"
  by (simp_all add: skynet_harbor_message_isremote_def sample_sys_def HANDLE_MASK_def)

lemma sample_block: "sys_heap sample_sys 5 = Some (Bytes [1, 2, 3])" "2 AND MESSAGE_TYPE_MASK = 2"
  by (simp_all add: sample_sys_def MESSAGE_TYPE_MASK_def mask_eq_exp_minus_1)

theorem send_delivers_witness:
  "\<exists>s' m. skynet_send sample_code None 9 0x01000001 10 4 (Some 5) 2 sample_sys = Some (4, s') \<and>
     inbox s' 0x01000001 = inbox sample_sys 0x01000001 @ [m] \<and> uint (drop_bit MESSAGE_TYPE_SHIFT (msg_sz m)) = 10"
  using send_delivers [of "[]" "{0}" sample_sys "0x01000001" 9 10 2 5 "[1, 2, 3]" sample_code None 4]
    sample_inv sample_local sample_block by auto

theorem send_unknown_frees_witness:
  "\<exists>s'. skynet_send sample_code None 9 0x01000002 10 4 (Some 5) 2 sample_sys = Some (- 1, s') \<and> sys_heap s' = sys_heap sample_sys"
  using send_unknown_frees [of "[]" "{0}" sample_sys "0x01000002" 9 10 2 5 "[1, 2, 3]" sample_code None 4]
    sample_inv sample_local sample_block by auto


section \<open>Undeliverable messages\<close>

lemma free_opt_inv:
  assumes inv: "sys_inv xs hs s" and d: "\<And>a. d = Some a \<Longrightarrow> sys_heap s a \<noteq> None"
  shows "\<exists>s1. skynet_free d s = Some s1 \<and> sys_inv xs hs s1 \<and> services s1 = services s \<and> inbox s1 = inbox s \<and>
    sys_heap s1 = (case d of None \<Rightarrow> sys_heap s | Some a \<Rightarrow> (sys_heap s)(a := None)) \<and> sys_HARBOR s1 = sys_HARBOR s \<and>
    (\<forall>h. inbox_room s1 h = inbox_room s h)"
proof (cases d)
  case None
  then show ?thesis using inv by (simp add: skynet_free_def)
next
  case (Some a)
  then obtain b where "sys_heap s a = Some b" using d by blast
  from free_inv [OF inv this] obtain s1 where s1: "skynet_free (Some a) s = Some s1"
    "s1 = s\<lparr>sys_heap := (sys_heap s)(a := None)\<rparr>" "sys_inv xs hs s1" "services s1 = services s" "inbox s1 = inbox s" by blast
  then have "inbox_room s1 h = inbox_room s h" for h by (simp add: inbox_room_def)
  then show ?thesis using s1 Some by simp
qed

text \<open>C13: when the queue of a dead service is dropped, each message is freed and its sender, if it is a
  local service in use, receives exactly one message of type \<open>PTYPE_ERROR\<close> in the name of the
  dead service; no other service notices.\<close>

theorem drop_message_reports:
  assumes "sys_inv xs hs s" "handle \<noteq> 0" "\<And>a. msg_data m = Some a \<Longrightarrow> sys_heap s a \<noteq> None"
    "msg_source m \<noteq> 0" "skynet_harbor_message_isremote (msg_source m) s = Some False"
    "services s (msg_source m) \<noteq> None" "inbox_room s (msg_source m)"
  shows "\<exists>ys s' e. drop_message k handle m s = Some s' \<and> sys_inv ys hs s' \<and>
     inbox s' (msg_source m) = inbox s (msg_source m) @ [e] \<and> (\<forall>h. h \<noteq> msg_source m \<longrightarrow> inbox s' h = inbox s h) \<and>
     msg_source e = handle \<and> msg_session e = 0 \<and> msg_data e = None \<and>
     uint (drop_bit MESSAGE_TYPE_SHIFT (msg_sz e)) = PTYPE_ERROR \<and>
     (\<forall>a. msg_data m = Some a \<longrightarrow> sys_heap s' a = None)"
proof -
  obtain s1 where s1: "skynet_free (msg_data m) s = Some s1" "sys_inv xs hs s1" "services s1 = services s" "inbox s1 = inbox s"
    "sys_heap s1 = (case msg_data m of None \<Rightarrow> sys_heap s | Some a \<Rightarrow> (sys_heap s)(a := None))" "sys_HARBOR s1 = sys_HARBOR s"
    "\<And>h. inbox_room s1 h = inbox_room s h"
    using free_opt_inv [OF assms(1), of "msg_data m"] assms(3) by blast
  let ?e = "\<lparr>msg_source = handle, msg_session = 0, msg_data = None, msg_sz = encode_sz 0 PTYPE_ERROR\<rparr>"
  obtain ys s' where p: "skynet_context_push k (msg_source m) ?e s1 = Some (0, s')" "sys_inv ys hs s'"
     "s' = s1\<lparr>mqs := mqs s', gQ := gQ s'\<rparr>"
     "inbox s' (msg_source m) = inbox s1 (msg_source m) @ [?e]" "\<forall>h'. h' \<noteq> msg_source m \<longrightarrow> inbox s' h' = inbox s1 h'"
    using context_push_ok [OF s1(2), of "msg_source m"] assms(6,7) s1(3,7) by (metis not_None_eq)
  have "filter_args None PTYPE_ERROR 0 None 0 s1 = Some ((0, None, encode_sz 0 PTYPE_ERROR), s1)"
    by (simp add: filter_args_def PTYPE_ERROR_def PTYPE_TAG_ALLOCSESSION_def PTYPE_TAG_DONTCOPY_def)
  moreover have "skynet_harbor_message_isremote (msg_source m) s1 = Some False"
    using assms(5) s1(6) by (simp add: skynet_harbor_message_isremote_def)
  ultimately have "drop_message k handle m s = Some s'"
    using s1(1) p(1) assms(2,4) by (simp add: drop_message_def skynet_send_def)
  moreover have "sys_heap s' = sys_heap s1" using arg_cong [OF p(3), of sys_heap] by simp
  moreover have "uint (drop_bit MESSAGE_TYPE_SHIFT (msg_sz ?e)) = PTYPE_ERROR"
    using decode_encode [of 0 PTYPE_ERROR] by (simp add: PTYPE_ERROR_def)
  ultimately show ?thesis using p s1(4,5) by (intro exI [of _ ys] exI [of _ s'] exI [of _ ?e]) auto
qed

theorem drop_message_reports_witness:
  "\<exists>s' e. drop_message sample_code 0x01000007 \<lparr>msg_source = 0x01000001, msg_session = 8, msg_data = Some 5, msg_sz = 2\<rparr> sample_sys = Some s' \<and>
     inbox s' 0x01000001 = inbox sample_sys 0x01000001 @ [e] \<and> msg_source e = 0x01000007 \<and> sys_heap s' 5 = None"
proof -
  let ?m = "\<lparr>msg_source = 0x01000001, msg_session = 8, msg_data = Some 5, msg_sz = 2\<rparr>"
  show ?thesis
    using drop_message_reports [of "[]" "{0}" sample_sys "0x01000007" ?m sample_code] sample_inv sample_local sample_block by auto
qed

text \<open>\<open>skynet_error\<close> ignores the result of \<open>skynet_context_push\<close>, so when the logger is gone its text stays
  allocated.\<close>

lemma error_leaks_without_logger:
  assumes inv: "sys_inv xs hs s" and l: "sys_logger s \<noteq> 0" "services s (sys_logger s) = None" and t: "length text < 256"
  shows "\<exists>s' a. skynet_error k None text s = Some s' \<and> sys_heap s a = None \<and> sys_heap s' a = Some (Bytes (text @ [0])) \<and> mqs s' = mqs s"
proof -
  obtain a s1 where m: "skynet_malloc (Bytes (text @ [0])) s = (a, s1)" by fastforce
  note mi = malloc_inv [OF inv m]
  have same: "s\<lparr>sys_logger := sys_logger s\<rparr> = s" by simp
  have "cint_ok (int (length text))" using t by (intro cint_okI) auto
  moreover have "skynet_context_push k (sys_logger s)
       \<lparr>msg_source = 0, msg_session = 0, msg_data = Some a, msg_sz = encode_sz (of_int (int (length text))) PTYPE_TEXT\<rparr> s1 = Some (- 1, s1)"
    using context_push_unknown [of xs hs s1] mi l by metis
  ultimately have "skynet_error k None text s = Some s1"
    using l(1) m t unfolding skynet_error_def by (simp add: same LOG_MESSAGE_SIZE_def)
  then show ?thesis using mi by auto
qed

section \<open>Sessions\<close>

text \<open>A new session is positive and is the successor of the last one, so two sessions of a context
  never agree before the counter is exhausted.\<close>

lemma newsession_positive:
  assumes "sys_ctxs s c = Some ctx" "0 \<le> ctx_session_id ctx" "ctx_session_id ctx < 2 ^ 31 - 1"
  shows "\<exists>s'. skynet_context_newsession c s = Some (ctx_session_id ctx + 1, s') \<and> 0 < ctx_session_id ctx + 1 \<and>
     s' = ctx_put c (ctx\<lparr>ctx_session_id := ctx_session_id ctx + 1\<rparr>) s"
proof -
  have "cint_ok (ctx_session_id ctx + 1)" using assms by (intro cint_okI) auto
  then show ?thesis using assms by (simp add: skynet_context_newsession_def)
qed

section \<open>Handles as text\<close>

text \<open>C14: the text form of a handle, as \<open>id_to_hex\<close> (the result of \<open>LAUNCH\<close>) or \<open>:%x\<close> (\<open>REG\<close>, \<open>QUERY\<close>,
  \<open>MONITOR\<close>) print it, is read back as the same handle by \<open>skynet_queryname\<close> and by \<open>tohandle\<close>, and
  fits the 32 byte result buffer.\<close>

theorem handle_text_roundtrip:
  "skynet_queryname k ctx (id_to_hex h) s = Some (h, s) \<and> skynet_queryname k ctx (58 # fmt_x h) s = Some (h, s) \<and>
   tohandle k c (Some (id_to_hex h)) s = Some (h, s) \<and> tohandle k c (Some (58 # fmt_x h)) s = Some (h, s) \<and>
   length (id_to_hex h) < 32"
proof -
  have id: "id_to_hex h = 58 # tl (id_to_hex h)" by (simp add: id_to_hex_def)
  have u: "(ucast (ucast h :: u64) :: u32) = h" by (simp add: unsigned_ucast_eq take_bit_word_eq_self)
  have "skynet_queryname k ctx (id_to_hex h) s = Some (h, s)"
    by (subst id) (simp add: skynet_queryname_def strtoul_id_to_hex u)
  moreover have "tohandle k c (Some (id_to_hex h)) s = Some (h, s)"
    by (subst id) (simp add: tohandle_def strtoul_id_to_hex u)
  ultimately show ?thesis by (simp add: skynet_queryname_def tohandle_def strtoul_fmt_x u id_to_hex_def)
qed


section \<open>Logging a socket message\<close>

text \<open>\<open>log_socket\<close> prints the data behind a socket message with \<open>"%*s"\<close>, a minimum width and not a
  maximum, so data without a terminating zero is read past its end.\<close>

lemma log_socket_overreads:
  assumes "sys_heap s a = Some (Socket m trail)" "ssm_buffer m = None" "0 \<notin> set trail" "unat (sz - SOCKET_MESSAGE_SIZE) = length trail"
  shows "log_socket f (Some a) sz s = None"
  using assms by (simp add: log_socket_def fmt_width_s_def)

end
