(* ===== verification/Skynet_Bytes.thy ===== *)
theory Skynet_Bytes
  imports Skynet_Prelude
begin

text \<open>
  Bytes and the words they are parts of: the shifts and masks with which the C sources take a 32
  bit or 16 bit integer apart and put it together again are inverse to each other.  The cipher, the
  digests, the package header and the serialisation share these lemmas.
\<close>

named_theorems byte_simps

lemma bit_byte_length: "bit (a :: byte) n \<Longrightarrow> n < 8"
  using bit_imp_le_length [of a n] by simp

lemma bit_join32:
  fixes a b c d :: byte
  shows "bit (push_bit 24 (ucast a) OR push_bit 16 (ucast b) OR push_bit 8 (ucast c) OR ucast d :: u32) n \<longleftrightarrow>
    (if n < 8 then bit d n else if n < 16 then bit c (n - 8) else if n < 24 then bit b (n - 16) else n < 32 \<and> bit a (n - 24))"
proof -
  have "bit (push_bit 24 (ucast a) OR push_bit 16 (ucast b) OR push_bit 8 (ucast c) OR ucast d :: u32) n \<longleftrightarrow>
    (n < 32 \<and> 24 \<le> n \<and> bit a (n - 24)) \<or> (n < 32 \<and> 16 \<le> n \<and> bit b (n - 16)) \<or> (n < 32 \<and> 8 \<le> n \<and> bit c (n - 8)) \<or> (n < 32 \<and> bit d n)"
    by (simp add: bit_or_iff bit_push_bit_iff bit_ucast_iff) (auto intro: less_imp_diff_less)
  also have "\<dots> \<longleftrightarrow> (if n < 8 then bit d n else if n < 16 then bit c (n - 8) else if n < 24 then bit b (n - 16) else n < 32 \<and> bit a (n - 24))"
    using bit_byte_length [of a "n - 24"] bit_byte_length [of b "n - 16"] bit_byte_length [of c "n - 8"] bit_byte_length [of d n]
    by (simp split: if_split) linarith
  finally show ?thesis .
qed

lemma bit_byte_of: "bit (ucast (drop_bit k (w :: 'a::len word)) :: byte) n \<longleftrightarrow> n < 8 \<and> bit w (k + n)"
  by (auto simp: bit_ucast_iff bit_drop_bit_eq)

lemma bit_byte_of0: "bit (ucast (w :: 'a::len word) :: byte) n \<longleftrightarrow> n < 8 \<and> bit w n"
  by (auto simp: bit_ucast_iff)

lemma join_split32 [byte_simps]:
  "push_bit 24 (ucast (ucast (drop_bit 24 n) :: byte)) OR push_bit 16 (ucast (ucast (drop_bit 16 n) :: byte)) OR
   push_bit 8 (ucast (ucast (drop_bit 8 n) :: byte)) OR ucast (ucast n :: byte) = (n :: u32)"
  by (rule bit_word_eqI) (simp only: bit_join32 bit_byte_of bit_byte_of0 bit_drop_bit_eq o_apply split: if_split, auto)

lemma byte3_join32 [byte_simps]:
  fixes a b c d :: byte
  shows "ucast (drop_bit 24 (push_bit 24 (ucast a) OR push_bit 16 (ucast b) OR push_bit 8 (ucast c) OR ucast d :: u32)) = a"
  by (rule bit_word_eqI) (simp only: bit_join32 bit_byte_of split: if_split, auto)

lemma byte2_join32 [byte_simps]:
  fixes a b c d :: byte
  shows "ucast (drop_bit 16 (push_bit 24 (ucast a) OR push_bit 16 (ucast b) OR push_bit 8 (ucast c) OR ucast d :: u32)) = b"
  by (rule bit_word_eqI) (simp only: bit_join32 bit_byte_of split: if_split, auto)

lemma byte1_join32 [byte_simps]:
  fixes a b c d :: byte
  shows "ucast (drop_bit 8 (push_bit 24 (ucast a) OR push_bit 16 (ucast b) OR push_bit 8 (ucast c) OR ucast d :: u32)) = c"
  by (rule bit_word_eqI) (simp only: bit_join32 bit_byte_of split: if_split, auto)

lemma byte0_join32 [byte_simps]:
  fixes a b c d :: byte
  shows "ucast (push_bit 24 (ucast a) OR push_bit 16 (ucast b) OR push_bit 8 (ucast c) OR ucast d :: u32) = d"
  by (rule bit_word_eqI) (simp only: bit_join32 bit_byte_of0 split: if_split, auto)

text \<open>Masking with \<open>0xff\<close> before the conversion to a byte changes nothing.\<close>

lemma mask8: "(0xff :: 'a::len word) = mask 8"
  by (simp add: mask_eq_exp_minus_1)

lemma ucast_mask8 [byte_simps]: "(ucast (w AND 0xff :: 'a::len word) :: byte) = ucast w"
  by (rule bit_word_eqI) (auto simp: bit_byte_of0 mask8 bit_and_iff bit_mask_iff dest: bit_imp_le_length)

text \<open>The little endian order of the same join.\<close>

lemma join_le32 [byte_simps]:
  fixes a b c d :: u32
  shows "d OR push_bit 8 c OR push_bit 16 b OR push_bit 24 a = push_bit 24 a OR push_bit 16 b OR push_bit 8 c OR d"
  by (simp add: ac_simps)

section \<open>Bytes of integers in memory\<close>

definition le_bytes :: "nat \<Rightarrow> 'a::len word \<Rightarrow> byte list" where
  "le_bytes n w = map (\<lambda>i. ucast (drop_bit (8 * i) w)) [0..<n]"

fun le_word :: "byte list \<Rightarrow> 'a::len word" where
  "le_word [] = 0"
| "le_word (b # bs) = ucast b OR push_bit 8 (le_word bs)"

lemma length_le_bytes [simp]: "length (le_bytes n w) = n"
  by (simp add: le_bytes_def)

lemma bit_le_word: "bit (le_word bs :: 'a::len word) j \<longleftrightarrow> j < LENGTH('a) \<and> j div 8 < length bs \<and> bit (bs ! (j div 8)) (j mod 8)"
proof (induction bs arbitrary: j)
  case (Cons b bs)
  show ?case
  proof (cases "j < 8")
    case True
    then show ?thesis by (auto simp: bit_or_iff bit_ucast_iff bit_push_bit_iff)
  next
    case False
    then have "\<not> bit b j" using bit_byte_length by blast
    have d: "j div 8 = Suc ((j - 8) div 8)" "j mod 8 = (j - 8) mod 8" using False by (simp_all add: le_div_geq le_mod_geq)
    have "bit (le_word (b # bs) :: 'a word) j \<longleftrightarrow> j < LENGTH('a) \<and> bit (le_word bs :: 'a word) (j - 8)"
      using False \<open>\<not> bit b j\<close> by (auto simp: bit_or_iff bit_ucast_iff bit_push_bit_iff)
    also have "\<dots> \<longleftrightarrow> j < LENGTH('a) \<and> (j - 8) div 8 < length bs \<and> bit (bs ! ((j - 8) div 8)) ((j - 8) mod 8)"
      unfolding Cons by auto
    finally show ?thesis unfolding d by simp
  qed
qed simp

lemma le_word_bytes:
  fixes w :: "'a::len word"
  assumes "LENGTH('a) \<le> 8 * n"
  shows "le_word (le_bytes n w) = w"
proof (rule bit_word_eqI)
  fix j assume j: "j < LENGTH('a)"
  then have "j div 8 < n" using assms by linarith
  then show "bit (le_word (le_bytes n w) :: 'a word) j = bit w j"
    using j by (simp add: bit_le_word le_bytes_def bit_byte_of)
qed

end
