(* ===== verification/Skynet_Crypt.thy ===== *)
theory Skynet_Crypt
  imports Skynet_Bytes
begin

text \<open>
  The crypto library of \<open>lualib-src/lua-crypt.c\<close>: DES with its padding, hexadecimal and base64
  text, the 64 bit hash and MAC, Diffie-Hellman key exchange, and the xor of strings.  A Lua string
  argument is a byte list.  The result of a function called from Lua is \<open>Inl\<close> for \<open>luaL_error\<close> (with the
  beginning of its text) and \<open>Inr\<close> for the value pushed.  The functions index and size their buffers
  with an \<open>int\<close>; hexadecimal and base64 compute these values through \<open>cint\<close>, so a string too long for
  them faults.  DES, the hash and xor read \<open>int\<close> positions inside their argument and are translated
  for arguments shorter than \<open>2 ^ 31\<close> bytes.
\<close>

type_synonym 'a lua = "(string + 'a) option"

section \<open>DES tables\<close>

definition SB1 :: "u32 list" where
  "SB1 =
    [0x01010400, 0x00000000, 0x00010000, 0x01010404, 0x01010004, 0x00010404, 0x00000004, 0x00010000,
     0x00000400, 0x01010400, 0x01010404, 0x00000400, 0x01000404, 0x01010004, 0x01000000, 0x00000004,
     0x00000404, 0x01000400, 0x01000400, 0x00010400, 0x00010400, 0x01010000, 0x01010000, 0x01000404,
     0x00010004, 0x01000004, 0x01000004, 0x00010004, 0x00000000, 0x00000404, 0x00010404, 0x01000000,
     0x00010000, 0x01010404, 0x00000004, 0x01010000, 0x01010400, 0x01000000, 0x01000000, 0x00000400,
     0x01010004, 0x00010000, 0x00010400, 0x01000004, 0x00000400, 0x00000004, 0x01000404, 0x00010404,
     0x01010404, 0x00010004, 0x01010000, 0x01000404, 0x01000004, 0x00000404, 0x00010404, 0x01010400,
     0x00000404, 0x01000400, 0x01000400, 0x00000000, 0x00010004, 0x00010400, 0x00000000, 0x01010004]"

definition SB2 :: "u32 list" where
  "SB2 =
    [0x80108020, 0x80008000, 0x00008000, 0x00108020, 0x00100000, 0x00000020, 0x80100020, 0x80008020,
     0x80000020, 0x80108020, 0x80108000, 0x80000000, 0x80008000, 0x00100000, 0x00000020, 0x80100020,
     0x00108000, 0x00100020, 0x80008020, 0x00000000, 0x80000000, 0x00008000, 0x00108020, 0x80100000,
     0x00100020, 0x80000020, 0x00000000, 0x00108000, 0x00008020, 0x80108000, 0x80100000, 0x00008020,
     0x00000000, 0x00108020, 0x80100020, 0x00100000, 0x80008020, 0x80100000, 0x80108000, 0x00008000,
     0x80100000, 0x80008000, 0x00000020, 0x80108020, 0x00108020, 0x00000020, 0x00008000, 0x80000000,
     0x00008020, 0x80108000, 0x00100000, 0x80000020, 0x00100020, 0x80008020, 0x80000020, 0x00100020,
     0x00108000, 0x00000000, 0x80008000, 0x00008020, 0x80000000, 0x80100020, 0x80108020, 0x00108000]"

definition SB3 :: "u32 list" where
  "SB3 =
    [0x00000208, 0x08020200, 0x00000000, 0x08020008, 0x08000200, 0x00000000, 0x00020208, 0x08000200,
     0x00020008, 0x08000008, 0x08000008, 0x00020000, 0x08020208, 0x00020008, 0x08020000, 0x00000208,
     0x08000000, 0x00000008, 0x08020200, 0x00000200, 0x00020200, 0x08020000, 0x08020008, 0x00020208,
     0x08000208, 0x00020200, 0x00020000, 0x08000208, 0x00000008, 0x08020208, 0x00000200, 0x08000000,
     0x08020200, 0x08000000, 0x00020008, 0x00000208, 0x00020000, 0x08020200, 0x08000200, 0x00000000,
     0x00000200, 0x00020008, 0x08020208, 0x08000200, 0x08000008, 0x00000200, 0x00000000, 0x08020008,
     0x08000208, 0x00020000, 0x08000000, 0x08020208, 0x00000008, 0x00020208, 0x00020200, 0x08000008,
     0x08020000, 0x08000208, 0x00000208, 0x08020000, 0x00020208, 0x00000008, 0x08020008, 0x00020200]"

definition SB4 :: "u32 list" where
  "SB4 =
    [0x00802001, 0x00002081, 0x00002081, 0x00000080, 0x00802080, 0x00800081, 0x00800001, 0x00002001,
     0x00000000, 0x00802000, 0x00802000, 0x00802081, 0x00000081, 0x00000000, 0x00800080, 0x00800001,
     0x00000001, 0x00002000, 0x00800000, 0x00802001, 0x00000080, 0x00800000, 0x00002001, 0x00002080,
     0x00800081, 0x00000001, 0x00002080, 0x00800080, 0x00002000, 0x00802080, 0x00802081, 0x00000081,
     0x00800080, 0x00800001, 0x00802000, 0x00802081, 0x00000081, 0x00000000, 0x00000000, 0x00802000,
     0x00002080, 0x00800080, 0x00800081, 0x00000001, 0x00802001, 0x00002081, 0x00002081, 0x00000080,
     0x00802081, 0x00000081, 0x00000001, 0x00002000, 0x00800001, 0x00002001, 0x00802080, 0x00800081,
     0x00002001, 0x00002080, 0x00800000, 0x00802001, 0x00000080, 0x00800000, 0x00002000, 0x00802080]"

definition SB5 :: "u32 list" where
  "SB5 =
    [0x00000100, 0x02080100, 0x02080000, 0x42000100, 0x00080000, 0x00000100, 0x40000000, 0x02080000,
     0x40080100, 0x00080000, 0x02000100, 0x40080100, 0x42000100, 0x42080000, 0x00080100, 0x40000000,
     0x02000000, 0x40080000, 0x40080000, 0x00000000, 0x40000100, 0x42080100, 0x42080100, 0x02000100,
     0x42080000, 0x40000100, 0x00000000, 0x42000000, 0x02080100, 0x02000000, 0x42000000, 0x00080100,
     0x00080000, 0x42000100, 0x00000100, 0x02000000, 0x40000000, 0x02080000, 0x42000100, 0x40080100,
     0x02000100, 0x40000000, 0x42080000, 0x02080100, 0x40080100, 0x00000100, 0x02000000, 0x42080000,
     0x42080100, 0x00080100, 0x42000000, 0x42080100, 0x02080000, 0x00000000, 0x40080000, 0x42000000,
     0x00080100, 0x02000100, 0x40000100, 0x00080000, 0x00000000, 0x40080000, 0x02080100, 0x40000100]"

definition SB6 :: "u32 list" where
  "SB6 =
    [0x20000010, 0x20400000, 0x00004000, 0x20404010, 0x20400000, 0x00000010, 0x20404010, 0x00400000,
     0x20004000, 0x00404010, 0x00400000, 0x20000010, 0x00400010, 0x20004000, 0x20000000, 0x00004010,
     0x00000000, 0x00400010, 0x20004010, 0x00004000, 0x00404000, 0x20004010, 0x00000010, 0x20400010,
     0x20400010, 0x00000000, 0x00404010, 0x20404000, 0x00004010, 0x00404000, 0x20404000, 0x20000000,
     0x20004000, 0x00000010, 0x20400010, 0x00404000, 0x20404010, 0x00400000, 0x00004010, 0x20000010,
     0x00400000, 0x20004000, 0x20000000, 0x00004010, 0x20000010, 0x20404010, 0x00404000, 0x20400000,
     0x00404010, 0x20404000, 0x00000000, 0x20400010, 0x00000010, 0x00004000, 0x20400000, 0x00404010,
     0x00004000, 0x00400010, 0x20004010, 0x00000000, 0x20404000, 0x20000000, 0x00400010, 0x20004010]"

definition SB7 :: "u32 list" where
  "SB7 =
    [0x00200000, 0x04200002, 0x04000802, 0x00000000, 0x00000800, 0x04000802, 0x00200802, 0x04200800,
     0x04200802, 0x00200000, 0x00000000, 0x04000002, 0x00000002, 0x04000000, 0x04200002, 0x00000802,
     0x04000800, 0x00200802, 0x00200002, 0x04000800, 0x04000002, 0x04200000, 0x04200800, 0x00200002,
     0x04200000, 0x00000800, 0x00000802, 0x04200802, 0x00200800, 0x00000002, 0x04000000, 0x00200800,
     0x04000000, 0x00200800, 0x00200000, 0x04000802, 0x04000802, 0x04200002, 0x04200002, 0x00000002,
     0x00200002, 0x04000000, 0x04000800, 0x00200000, 0x04200800, 0x00000802, 0x00200802, 0x04200800,
     0x00000802, 0x04000002, 0x04200802, 0x04200000, 0x00200800, 0x00000000, 0x00000002, 0x04200802,
     0x00000000, 0x00200802, 0x04200000, 0x00000800, 0x04000002, 0x04000800, 0x00000800, 0x00200002]"

definition SB8 :: "u32 list" where
  "SB8 =
    [0x10001040, 0x00001000, 0x00040000, 0x10041040, 0x10000000, 0x10001040, 0x00000040, 0x10000000,
     0x00040040, 0x10040000, 0x10041040, 0x00041000, 0x10041000, 0x00041040, 0x00001000, 0x00000040,
     0x10040000, 0x10000040, 0x10001000, 0x00001040, 0x00041000, 0x00040040, 0x10040040, 0x10041000,
     0x00001040, 0x00000000, 0x00000000, 0x10040040, 0x10000040, 0x10001000, 0x00041040, 0x00040000,
     0x00041040, 0x00040000, 0x10041000, 0x00001000, 0x00000040, 0x10040040, 0x00001000, 0x00041040,
     0x10001000, 0x00000040, 0x10000040, 0x10040000, 0x10040040, 0x10000000, 0x00040000, 0x10001040,
     0x00000000, 0x10041040, 0x00040040, 0x10000040, 0x10040000, 0x10001000, 0x10001040, 0x00000000,
     0x10041040, 0x00041000, 0x00041000, 0x00001040, 0x00001040, 0x00040040, 0x10000000, 0x10041000]"

definition LHs :: "u32 list" where
  "LHs =
    [0x00000000, 0x00000001, 0x00000100, 0x00000101, 0x00010000, 0x00010001, 0x00010100, 0x00010101,
     0x01000000, 0x01000001, 0x01000100, 0x01000101, 0x01010000, 0x01010001, 0x01010100, 0x01010101]"

definition RHs :: "u32 list" where
  "RHs =
    [0x00000000, 0x01000000, 0x00010000, 0x01010000, 0x00000100, 0x01000100, 0x00010100, 0x01010100,
     0x00000001, 0x01000001, 0x00010001, 0x01010001, 0x00000101, 0x01000101, 0x00010101, 0x01010101]"

section \<open>DES\<close>

text \<open>\<open>GET_UINT32\<close> and \<open>PUT_UINT32\<close>, big endian.\<close>

definition get_uint32 :: "byte list \<Rightarrow> nat \<Rightarrow> u32" where
  "get_uint32 b i = push_bit 24 (ucast (b ! i)) OR push_bit 16 (ucast (b ! (i + 1))) OR
     push_bit 8 (ucast (b ! (i + 2))) OR ucast (b ! (i + 3))"

definition put_uint32 :: "u32 \<Rightarrow> byte list" where
  "put_uint32 n = [ucast (drop_bit 24 n), ucast (drop_bit 16 n), ucast (drop_bit 8 n), ucast n]"

text \<open>The statement \<open>T = ((X >> s) ^ Y) & m; Y ^= T; X ^= (T << s)\<close>, on the pair (X, Y).\<close>

definition swap_bits :: "nat \<Rightarrow> u32 \<Rightarrow> u32 \<times> u32 \<Rightarrow> u32 \<times> u32" where
  "swap_bits s m p = (let (x, y) = p; t = (drop_bit s x XOR y) AND m in (x XOR push_bit s t, y XOR t))"

definition rotl1 :: "u32 \<Rightarrow> u32" where
  "rotl1 x = (push_bit 1 x OR drop_bit 31 x) AND 0xFFFFFFFF"

definition rotr1 :: "u32 \<Rightarrow> u32" where
  "rotr1 x = (push_bit 31 x OR drop_bit 1 x) AND 0xFFFFFFFF"

text \<open>The macros \<open>DES_IP(X,Y)\<close> and \<open>DES_FP(X,Y)\<close>.\<close>

definition des_ip :: "u32 \<times> u32 \<Rightarrow> u32 \<times> u32" where
  "des_ip p0 =
     (let p1 = swap_bits 4 0x0F0F0F0F p0;
          p2 = swap_bits 16 0x0000FFFF p1;
          p3 = prod.swap (swap_bits 2 0x33333333 (prod.swap p2));
          (x4, y4) = prod.swap (swap_bits 8 0x00FF00FF (prod.swap p3));
          (x5, y5) = swap_bits 0 0xAAAAAAAA (x4, rotl1 y4)
      in (rotl1 x5, y5))"

definition des_fp :: "u32 \<times> u32 \<Rightarrow> u32 \<times> u32" where
  "des_fp p0 =
     (let (x0, y0) = p0;
          (x1, y1) = swap_bits 0 0xAAAAAAAA (rotr1 x0, y0);
          p2 = (x1, rotr1 y1);
          p3 = prod.swap (swap_bits 8 0x00FF00FF (prod.swap p2));
          p4 = prod.swap (swap_bits 2 0x33333333 (prod.swap p3));
          p5 = swap_bits 16 0x0000FFFF p4
      in swap_bits 4 0x0F0F0F0F p5)"

text \<open>What \<open>DES_ROUND(X,Y)\<close> xors into \<open>Y\<close>.\<close>

definition des_f :: "u32 \<Rightarrow> u32 \<Rightarrow> u32 \<Rightarrow> u32" where
  "des_f k1 k2 x =
     (let t = k1 XOR x; u = k2 XOR (push_bit 28 x OR drop_bit 4 x) in
      SB8 ! unat (t AND 0x3F) XOR SB6 ! unat (drop_bit 8 t AND 0x3F) XOR
      SB4 ! unat (drop_bit 16 t AND 0x3F) XOR SB2 ! unat (drop_bit 24 t AND 0x3F) XOR
      SB7 ! unat (u AND 0x3F) XOR SB5 ! unat (drop_bit 8 u AND 0x3F) XOR
      SB3 ! unat (drop_bit 16 u AND 0x3F) XOR SB1 ! unat (drop_bit 24 u AND 0x3F))"

text \<open>Permuted choice 1 and the subkeys of \<open>des_main_ks\<close>.\<close>

definition des_pc1 :: "u32 \<times> u32 \<Rightarrow> u32 \<times> u32" where
  "des_pc1 p =
     (let (x0, y0) = p;
          t1 = (drop_bit 4 y0 XOR x0) AND 0x0F0F0F0F; x1 = x0 XOR t1; y1 = y0 XOR push_bit 4 t1;
          t2 = (y1 XOR x1) AND 0x10101010; x = x1 XOR t2; y = y1 XOR t2;
          x' = push_bit 3 (LHs ! unat (x AND 0xF)) OR push_bit 2 (LHs ! unat (drop_bit 8 x AND 0xF)) OR
     push_bit 1 (LHs ! unat (drop_bit 16 x AND 0xF)) OR (LHs ! unat (drop_bit 24 x AND 0xF)) OR
     push_bit 7 (LHs ! unat (drop_bit 5 x AND 0xF)) OR push_bit 6 (LHs ! unat (drop_bit 13 x AND 0xF)) OR
     push_bit 5 (LHs ! unat (drop_bit 21 x AND 0xF)) OR push_bit 4 (LHs ! unat (drop_bit 29 x AND 0xF));
          y' = push_bit 3 (RHs ! unat (drop_bit 1 y AND 0xF)) OR push_bit 2 (RHs ! unat (drop_bit 9 y AND 0xF)) OR
     push_bit 1 (RHs ! unat (drop_bit 17 y AND 0xF)) OR (RHs ! unat (drop_bit 25 y AND 0xF)) OR
     push_bit 7 (RHs ! unat (drop_bit 4 y AND 0xF)) OR push_bit 6 (RHs ! unat (drop_bit 12 y AND 0xF)) OR
     push_bit 5 (RHs ! unat (drop_bit 20 y AND 0xF)) OR push_bit 4 (RHs ! unat (drop_bit 28 y AND 0xF))
      in (x' AND 0x0FFFFFFF, y' AND 0x0FFFFFFF))"

definition subkey1 :: "u32 \<Rightarrow> u32 \<Rightarrow> u32" where
  "subkey1 x y =
     (push_bit 4 x AND 0x24000000) OR (push_bit 28 x AND 0x10000000) OR (push_bit 14 x AND 0x08000000) OR
     (push_bit 18 x AND 0x02080000) OR (push_bit 6 x AND 0x01000000) OR (push_bit 9 x AND 0x00200000) OR
     (drop_bit 1 x AND 0x00100000) OR (push_bit 10 x AND 0x00040000) OR (push_bit 2 x AND 0x00020000) OR
     (drop_bit 10 x AND 0x00010000) OR (drop_bit 13 y AND 0x00002000) OR (drop_bit 4 y AND 0x00001000) OR
     (push_bit 6 y AND 0x00000800) OR (drop_bit 1 y AND 0x00000400) OR (drop_bit 14 y AND 0x00000200) OR
     (y AND 0x00000100) OR (drop_bit 5 y AND 0x00000020) OR (drop_bit 10 y AND 0x00000010) OR
     (drop_bit 3 y AND 0x00000008) OR (drop_bit 18 y AND 0x00000004) OR (drop_bit 26 y AND 0x00000002) OR
     (drop_bit 24 y AND 0x00000001)"

definition subkey2 :: "u32 \<Rightarrow> u32 \<Rightarrow> u32" where
  "subkey2 x y =
     (push_bit 15 x AND 0x20000000) OR (push_bit 17 x AND 0x10000000) OR (push_bit 10 x AND 0x08000000) OR
     (push_bit 22 x AND 0x04000000) OR (drop_bit 2 x AND 0x02000000) OR (push_bit 1 x AND 0x01000000) OR
     (push_bit 16 x AND 0x00200000) OR (push_bit 11 x AND 0x00100000) OR (push_bit 3 x AND 0x00080000) OR
     (drop_bit 6 x AND 0x00040000) OR (push_bit 15 x AND 0x00020000) OR (drop_bit 4 x AND 0x00010000) OR
     (drop_bit 2 y AND 0x00002000) OR (push_bit 8 y AND 0x00001000) OR (drop_bit 14 y AND 0x00000808) OR
     (drop_bit 9 y AND 0x00000400) OR (y AND 0x00000200) OR (push_bit 7 y AND 0x00000100) OR
     (drop_bit 7 y AND 0x00000020) OR (drop_bit 3 y AND 0x00000011) OR (push_bit 2 y AND 0x00000004) OR
     (drop_bit 21 y AND 0x00000002)"

fun des_subkeys :: "nat list \<Rightarrow> u32 \<Rightarrow> u32 \<Rightarrow> u32 list" where
  "des_subkeys [] x y = []"
| "des_subkeys (i # is) x y =
     (let (x', y') = (if i < 2 \<or> i = 8 \<or> i = 15
            then ((push_bit 1 x OR drop_bit 27 x) AND 0x0FFFFFFF, (push_bit 1 y OR drop_bit 27 y) AND 0x0FFFFFFF)
            else ((push_bit 2 x OR drop_bit 26 x) AND 0x0FFFFFFF, (push_bit 2 y OR drop_bit 26 y) AND 0x0FFFFFFF))
      in subkey1 x' y' # subkey2 x' y' # des_subkeys is x' y')"

definition des_main_ks :: "byte list \<Rightarrow> u32 list" where
  "des_main_ks key = (let (x, y) = des_pc1 (get_uint32 key 0, get_uint32 key 4) in des_subkeys [0..<16] x y)"

text \<open>The rounds \<open>DES_ROUND(Y,X); DES_ROUND(X,Y)\<close>, repeated while there are keys.\<close>

fun des_rounds :: "u32 list \<Rightarrow> u32 \<times> u32 \<Rightarrow> u32 \<times> u32" where
  "des_rounds (k1 # k2 # k3 # k4 # ks) (x, y) =
     (let x' = x XOR des_f k1 k2 y; y' = y XOR des_f k3 k4 x' in des_rounds ks (x', y'))"
| "des_rounds _ p = p"

definition des_crypt :: "u32 list \<Rightarrow> byte list \<Rightarrow> byte list" where
  "des_crypt SK input =
     (let (x, y) = des_rounds SK (des_ip (get_uint32 input 0, get_uint32 input 4));
          (y', x') = des_fp (y, x)
      in put_uint32 y' @ put_uint32 x')"

definition des_key :: "byte list \<Rightarrow> u32 list lua" where
  "des_key key = (if length key \<noteq> 8 then Some (Inl ''Invalid key size'') else Some (Inr (des_main_ks key)))"

text \<open>The full blocks of a text, and the last block with the marker \<open>0x80\<close> and zeros.\<close>

fun des_blocks :: "u32 list \<Rightarrow> byte list \<Rightarrow> byte list \<times> byte list" where
  "des_blocks SK text =
     (if length text < 8 then ([], text)
      else let (out, rest) = des_blocks SK (drop 8 text) in (des_crypt SK (take 8 text) @ out, rest))"

declare des_blocks.simps [simp del]

definition des_tail :: "byte list \<Rightarrow> byte list" where
  "des_tail text = map (\<lambda>j. if j < length text then text ! j else if j = length text then 0x80 else 0) [0..<8]"

definition ldesencode :: "byte list \<Rightarrow> byte list \<Rightarrow> byte list lua" where
  "ldesencode key text = do {
     r \<leftarrow> des_key key;
     (case r of
        Inl e \<Rightarrow> Some (Inl e)
      | Inr SK \<Rightarrow> (let (out, rest) = des_blocks SK text in Some (Inr (out @ des_crypt SK (des_tail rest))))) }"

text \<open>The keys of decryption: the pairs in reverse order.\<close>

definition reverse_keys :: "u32 list \<Rightarrow> u32 list" where
  "reverse_keys ESK = concat (map (\<lambda>i. [ESK ! (30 - 2 * i), ESK ! (31 - 2 * i)]) [0..<16])"

text \<open>The loop over the padding counts down an \<open>int\<close> and compares it with the unsigned
  \<open>textsz - 8\<close>; a negative index is therefore above every bound.\<close>

function unpad :: "byte list \<Rightarrow> int \<Rightarrow> int \<Rightarrow> int \<Rightarrow> int lua" where
  "unpad buffer lo i padding =
     (if i < 0 \<or> i \<ge> lo then do {
        b \<leftarrow> aget buffer i;
        (if b = 0 then unpad buffer lo (i - 1) (padding + 1)
         else if b = 0x80 then Some (Inr padding)
         else Some (Inl ''Invalid des crypt text'')) }
      else Some (Inr padding))"
  by pat_completeness auto
termination
  by (relation "measure (\<lambda>(_, _, i, _). nat (i + 1))") (auto simp: aget_Some)

declare unpad.simps [simp del]

definition ldesdecode :: "byte list \<Rightarrow> byte list \<Rightarrow> byte list lua" where
  "ldesdecode key text = do {
     r \<leftarrow> des_key key;
     (case r of
        Inl e \<Rightarrow> Some (Inl e)
      | Inr ESK \<Rightarrow>
          if length text mod 8 \<noteq> 0 \<or> length text = 0 then Some (Inl ''Invalid des crypt text length'')
          else do {
            let buffer = fst (des_blocks (reverse_keys ESK) text);
            let textsz = int (length text);
            p \<leftarrow> unpad buffer (textsz - 8) (textsz - 1) 1;
            (case p of
               Inl e \<Rightarrow> Some (Inl e)
             | Inr padding \<Rightarrow>
                 if padding > 8 then Some (Inl ''Invalid des crypt text'')
                 else Some (Inr (take (nat (textsz - padding)) buffer))) }) }"

section \<open>Random keys and hash\<close>

text \<open>\<open>rnd\<close> are the eight values of \<open>random()\<close>.\<close>

definition lrandomkey :: "int list \<Rightarrow> byte list" where
  "lrandomkey rnd = (let tmp = map of_int rnd; x = fold (XOR) tmp 0 in
     if x = 0 then (hd tmp OR 1) # tl tmp else tmp)"

fun hash_loop :: "byte list \<Rightarrow> u32 \<Rightarrow> u32 \<Rightarrow> u32 \<times> u32" where
  "hash_loop [] djb js = (djb, js)"
| "hash_loop (c # cs) djb js =
     hash_loop cs (djb + (push_bit 5 djb + ucast c)) (js XOR (push_bit 5 js + ucast c + drop_bit 2 js))"

definition le_bytes32 :: "u32 \<Rightarrow> byte list" where
  "le_bytes32 w = [ucast (w AND 0xff), ucast (drop_bit 8 w AND 0xff), ucast (drop_bit 16 w AND 0xff), ucast (drop_bit 24 w AND 0xff)]"

definition Hash :: "byte list \<Rightarrow> byte list" where
  "Hash str = (let (djb, js) = hash_loop str 5381 1315423911 in le_bytes32 djb @ le_bytes32 js)"

definition lhashkey :: "byte list \<Rightarrow> byte list" where
  "lhashkey key = Hash key"

section \<open>Hexadecimal text\<close>

definition hex_lower :: "byte list" where
  "hex_lower = map of_char ''0123456789abcdef''"

text \<open>The index \<open>i*2+1\<close> of the buffer is an \<open>int\<close>.\<close>

fun tohex_loop :: "int \<Rightarrow> byte list \<Rightarrow> byte list option" where
  "tohex_loop i [] = Some []"
| "tohex_loop i (c # text) = do {
     j \<leftarrow> cint (i * 2 + 1);
     out \<leftarrow> tohex_loop (i + 1) text;
     Some (hex_lower ! unat (drop_bit 4 c) # hex_lower ! unat (c AND 0xf) # out) }"

definition ltohex :: "byte list \<Rightarrow> byte list lua" where
  "ltohex text = do { out \<leftarrow> tohex_loop 0 text; Some (Inr out) }"

text \<open>The macro \<open>HEX\<close>: \<open>char\<close> is signed, the result is stored in a \<open>uint8_t\<close>.\<close>

definition HEX :: "byte \<Rightarrow> byte" where
  "HEX c = (if 48 \<le> sint c \<and> sint c \<le> 57 then of_int (sint c - 48) else of_int (sint c - 97 + 10))"

fun fromhex_loop :: "byte list \<Rightarrow> (string + byte list)" where
  "fromhex_loop (a # b # r) =
     (let hi = HEX a; low = HEX b in
      if hi > 16 \<or> low > 16 then Inl ''Invalid hex text''
      else case fromhex_loop r of Inl e \<Rightarrow> Inl e | Inr out \<Rightarrow> Inr ((push_bit 4 hi OR low) # out))"
| "fromhex_loop _ = Inr []"

definition lfromhex :: "byte list \<Rightarrow> byte list lua" where
  "lfromhex text =
     (if odd (length text) then Some (Inl ''Invalid hex text size'')
      else do { i \<leftarrow> cint (int (length text)); Some (fromhex_loop text) })"

section \<open>The 64 bit MAC\<close>

definition md5_k :: "u32 list" where
  "md5_k =
    [0xd76aa478, 0xe8c7b756, 0x242070db, 0xc1bdceee, 0xf57c0faf, 0x4787c62a, 0xa8304613, 0xfd469501,
     0x698098d8, 0x8b44f7af, 0xffff5bb1, 0x895cd7be, 0x6b901122, 0xfd987193, 0xa679438e, 0x49b40821,
     0xf61e2562, 0xc040b340, 0x265e5a51, 0xe9b6c7aa, 0xd62f105d, 0x02441453, 0xd8a1e681, 0xe7d3fbc8,
     0x21e1cde6, 0xc33707d6, 0xf4d50d87, 0x455a14ed, 0xa9e3e905, 0xfcefa3f8, 0x676f02d9, 0x8d2a4c8a,
     0xfffa3942, 0x8771f681, 0x6d9d6122, 0xfde5380c, 0xa4beea44, 0x4bdecfa9, 0xf6bb4b60, 0xbebfbc70,
     0x289b7ec6, 0xeaa127fa, 0xd4ef3085, 0x04881d05, 0xd9d4d039, 0xe6db99e5, 0x1fa27cf8, 0xc4ac5665,
     0xf4292244, 0x432aff97, 0xab9423a7, 0xfc93a039, 0x655b59c3, 0x8f0ccc92, 0xffeff47d, 0x85845dd1,
     0x6fa87e4f, 0xfe2ce6e0, 0xa3014314, 0x4e0811a1, 0xf7537e82, 0xbd3af235, 0x2ad7d2bb, 0xeb86d391]"

definition md5_r :: "nat list" where
  "md5_r =
    [7, 12, 17, 22, 7, 12, 17, 22, 7, 12, 17, 22, 7, 12, 17, 22,
     5, 9, 14, 20, 5, 9, 14, 20, 5, 9, 14, 20, 5, 9, 14, 20,
     4, 11, 16, 23, 4, 11, 16, 23, 4, 11, 16, 23, 4, 11, 16, 23,
     6, 10, 15, 21, 6, 10, 15, 21, 6, 10, 15, 21, 6, 10, 15, 21]"

definition leftrotate :: "u32 \<Rightarrow> nat \<Rightarrow> u32" where
  "leftrotate x c = push_bit c x OR drop_bit (32 - c) x"

definition hmac_step :: "u32 list \<Rightarrow> nat \<Rightarrow> u32 \<times> u32 \<times> u32 \<times> u32 \<Rightarrow> u32 \<times> u32 \<times> u32 \<times> u32" where
  "hmac_step w i s =
     (let (a, b, c, d) = s;
          (f, g) = (if i < 16 then ((b AND c) OR (NOT b AND d), i)
                    else if i < 32 then ((d AND b) OR (NOT d AND c), (5 * i + 1) mod 16)
                    else if i < 48 then (b XOR c XOR d, (3 * i + 5) mod 16)
                    else (c XOR (b OR NOT d), (7 * i) mod 16))
      in (d, b + leftrotate (a + f + md5_k ! i + w ! g) (md5_r ! i), b, c))"

definition hmac :: "u32 \<times> u32 \<Rightarrow> u32 \<times> u32 \<Rightarrow> u32 \<times> u32" where
  "hmac x y =
     (let w = concat (replicate 4 [snd x, fst x, snd y, fst y]);
          (a, b, c, d) = fold (hmac_step w) [0..<64] (0x67452301, 0xefcdab89, 0x98badcfe, 0x10325476)
      in (c XOR d, a XOR b))"

definition le32 :: "byte list \<Rightarrow> nat \<Rightarrow> u32" where
  "le32 x i = ucast (x ! i) OR push_bit 8 (ucast (x ! (i + 1))) OR push_bit 16 (ucast (x ! (i + 2))) OR push_bit 24 (ucast (x ! (i + 3)))"

definition read64 :: "byte list \<Rightarrow> byte list \<Rightarrow> ((u32 \<times> u32) \<times> (u32 \<times> u32)) lua" where
  "read64 x y =
     (if length x \<noteq> 8 then Some (Inl ''Invalid uint64 x'')
      else if length y \<noteq> 8 then Some (Inl ''Invalid uint64 y'')
      else Some (Inr ((le32 x 0, le32 x 4), (le32 y 0, le32 y 4))))"

definition pushqword :: "u32 \<times> u32 \<Rightarrow> byte list" where
  "pushqword result = le_bytes32 (fst result) @ le_bytes32 (snd result)"

definition lhmac64 :: "byte list \<Rightarrow> byte list \<Rightarrow> byte list lua" where
  "lhmac64 x y = do {
     r \<leftarrow> read64 x y;
     Some (case r of Inl e \<Rightarrow> Inl e | Inr (a, b) \<Rightarrow> Inr (pushqword (hmac a b))) }"

definition lhmac_hash :: "byte list \<Rightarrow> byte list \<Rightarrow> byte list lua" where
  "lhmac_hash x text =
     (if length x \<noteq> 8 then Some (Inl ''Invalid uint64 key'')
      else let h = Hash text in Some (Inr (pushqword (hmac (le32 h 0, le32 h 4) (le32 x 0, le32 x 4)))))"

section \<open>Diffie-Hellman\<close>

definition P64 :: u64 where "P64 = 0xffffffffffffffc5"

function mul_loop :: "u64 \<Rightarrow> u64 \<Rightarrow> u64 \<Rightarrow> u64" where
  "mul_loop a b m =
     (if b \<noteq> 0 then
        (let m' = (if b AND 1 \<noteq> 0 then (let t = P64 - a in if m \<ge> t then m - t else m + a) else m);
             a' = (if a \<ge> P64 - a then a * 2 - P64 else a * 2)
         in mul_loop a' (drop_bit 1 b) m')
      else m)"
  by pat_completeness auto
termination
proof (relation "measure (\<lambda>(_, b, _). unat b)")
  fix a b m :: u64 and m' a'
  assume "b \<noteq> 0"
  then have "unat b \<noteq> 0" by (simp add: unat_eq_0)
  then have "unat b div 2 < unat b" by simp
  then show "((a', drop_bit 1 b, m'), a, b, m) \<in> measure (\<lambda>(_, b, _). unat b)"
    by (simp add: drop_bit_Suc unat_div)
qed simp

declare mul_loop.simps [simp del]

definition mul_mod_p :: "u64 \<Rightarrow> u64 \<Rightarrow> u64" where
  "mul_mod_p a b = mul_loop a b 0"

partial_function (option) pow_mod_p :: "u64 \<Rightarrow> u64 \<Rightarrow> u64 option" where
  "pow_mod_p a b =
     (if b = 1 then Some a
      else do {
        t \<leftarrow> pow_mod_p a (drop_bit 1 b);
        let t2 = mul_mod_p t t;
        Some (if b mod 2 \<noteq> 0 then mul_mod_p t2 a else t2) })"

definition powmodp :: "u64 \<Rightarrow> u64 \<Rightarrow> u64 option" where
  "powmodp a b = pow_mod_p (if a > P64 then a mod P64 else a) b"

definition push64 :: "u64 \<Rightarrow> byte list" where
  "push64 r = map (\<lambda>i. ucast (drop_bit (8 * i) r AND 0xff)) [0..<8]"

definition to64 :: "u32 \<times> u32 \<Rightarrow> u64" where
  "to64 x = ucast (fst x) OR push_bit 32 (ucast (snd x))"

definition ldhsecret :: "byte list \<Rightarrow> byte list \<Rightarrow> byte list lua" where
  "ldhsecret x y = do {
     r \<leftarrow> read64 x y;
     (case r of
        Inl e \<Rightarrow> Some (Inl e)
      | Inr (a, b) \<Rightarrow>
          if to64 a = 0 \<or> to64 b = 0 then Some (Inl ''Can't be 0'')
          else do { v \<leftarrow> powmodp (to64 a) (to64 b); Some (Inr (push64 v)) }) }"

definition ldhexchange :: "byte list \<Rightarrow> byte list lua" where
  "ldhexchange x =
     (if length x \<noteq> 8 then Some (Inl ''Invalid dh uint64 key'')
      else (let x64 = to64 (le32 x 0, le32 x 4) in
        if x64 = 0 then Some (Inl ''Can't be 0'')
        else do { v \<leftarrow> powmodp 5 x64; Some (Inr (push64 v)) }))"

section \<open>Base64\<close>

definition b64_encoding :: "byte list" where
  "b64_encoding = map of_char ''ABCDEFGHIJKLMNOPQRSTUVWXYZabcdefghijklmnopqrstuvwxyz0123456789+/''"

text \<open>The loop over groups of three bytes and the \<open>switch\<close> on what is left.\<close>

fun b64encode_loop :: "byte list \<Rightarrow> byte list" where
  "b64encode_loop (a # b # c # r) =
     (let v = (push_bit 16 (ucast a) OR push_bit 8 (ucast b) OR ucast c :: u32) in
      b64_encoding ! unat (drop_bit 18 v) # b64_encoding ! unat (drop_bit 12 v AND 0x3f) #
      b64_encoding ! unat (drop_bit 6 v AND 0x3f) # b64_encoding ! unat (v AND 0x3f) # b64encode_loop r)"
| "b64encode_loop [a, b] =
     (let v = (push_bit 8 (ucast a) OR ucast b :: u32) in
      [b64_encoding ! unat (drop_bit 10 v), b64_encoding ! unat (drop_bit 4 v AND 0x3f),
       b64_encoding ! unat (push_bit 2 (v AND 0xf)), 61])"
| "b64encode_loop [a] =
     (let v = (ucast a :: u32) in
      [b64_encoding ! unat (drop_bit 2 v), b64_encoding ! unat (push_bit 4 (v AND 3)), 61, 61])"
| "b64encode_loop [] = []"

text \<open>\<open>encode_sz\<close> is an \<open>int\<close>; every position of the text and of the buffer is below it.\<close>

definition lb64encode :: "byte list \<Rightarrow> byte list lua" where
  "lb64encode text = do {
     encode_sz \<leftarrow> cint ((int (length text) + 2) div 3 * 4);
     Some (Inr (b64encode_loop text)) }"

definition b64_decoding :: "int list" where
  "b64_decoding =
    [62, - 1, - 1, - 1, 63, 52, 53, 54, 55, 56, 57, 58, 59, 60, 61, - 1, - 1, - 1, - 2, - 1,
     - 1, - 1, 0, 1, 2, 3, 4, 5, 6, 7, 8, 9, 10, 11, 12, 13, 14, 15, 16, 17,
     18, 19, 20, 21, 22, 23, 24, 25, - 1, - 1, - 1, - 1, - 1, - 1, 26, 27, 28, 29, 30, 31,
     32, 33, 34, 35, 36, 37, 38, 39, 40, 41, 42, 43, 44, 45, 46, 47, 48, 49, 50, 51]"

definition b64index :: "byte \<Rightarrow> int" where
  "b64index c =
     (if c < 43 then - 1
      else (let i = unat (c - 43) in if i \<ge> length b64_decoding then - 1 else b64_decoding ! i))"

text \<open>The inner loop: \<open>n\<close> more indices, characters outside the alphabet are skipped.\<close>

fun b64_group :: "nat \<Rightarrow> byte list \<Rightarrow> (int list \<times> byte list) option" where
  "b64_group 0 text = Some ([], text)"
| "b64_group (Suc n) [] = None"
| "b64_group (Suc n) (x # xs) =
     (if b64index x = - 1 then b64_group (Suc n) xs
      else map_option (\<lambda>(cs, r). (b64index x # cs, r)) (b64_group n xs))"

definition b64_value :: "int list \<Rightarrow> (string + byte list)" where
  "b64_value cs =
     (let c = (\<lambda>i. of_int (cs ! i) :: u32); padding = length (filter (\<lambda>x. x = - 2) cs) in
      if padding = 0 then
        (let v = push_bit 18 (c 0) OR push_bit 12 (c 1) OR push_bit 6 (c 2) OR c 3 in
         Inr [ucast (drop_bit 16 v), ucast (drop_bit 8 v AND 0xff), ucast (v AND 0xff)])
      else if padding = 1 then
        (if cs ! 3 \<noteq> - 2 \<or> c 2 AND 3 \<noteq> 0 then Inl ''Invalid base64 text''
         else let v = push_bit 10 (c 0) OR push_bit 4 (c 1) OR drop_bit 2 (c 2) in
           Inr [ucast (drop_bit 8 v), ucast (v AND 0xff)])
      else if padding = 2 then
        (if cs ! 3 \<noteq> - 2 \<or> cs ! 2 \<noteq> - 2 \<or> c 1 AND 0xf \<noteq> 0 then Inl ''Invalid base64 text''
         else let v = push_bit 2 (c 0) OR drop_bit 4 (c 1) in Inr [ucast v])
      else Inl ''Invalid base64 text'')"

lemma b64_group_shorter: "b64_group n text = Some (cs, r) \<Longrightarrow> length r + n \<le> length text"
  by (induction n "text" arbitrary: cs rule: b64_group.induct) (fastforce split: if_splits)+

function b64decode_loop :: "byte list \<Rightarrow> (string + byte list)" where
  "b64decode_loop text =
     (if text = [] then Inr []
      else case b64_group 4 text of
        None \<Rightarrow> Inl ''Invalid base64 text''
      | Some (cs, r) \<Rightarrow> (case b64_value cs of
            Inl e \<Rightarrow> Inl e
          | Inr bs \<Rightarrow> (case b64decode_loop r of Inl e \<Rightarrow> Inl e | Inr out \<Rightarrow> Inr (bs @ out))))"
  by pat_completeness auto
termination
  by (relation "measure length") (auto dest: b64_group_shorter)

declare b64decode_loop.simps [simp del]

text \<open>The position \<open>i\<close> in the text and \<open>decode_sz\<close> are \<open>int\<close>s.\<close>

definition lb64decode :: "byte list \<Rightarrow> byte list lua" where
  "lb64decode text = do {
     i \<leftarrow> cint (int (length text));
     decode_sz \<leftarrow> cint ((int (length text) + 3) div 4 * 3);
     Some (b64decode_loop text) }"

section \<open>Xor\<close>

definition lxor_str :: "byte list \<Rightarrow> byte list \<Rightarrow> (string + byte list)" where
  "lxor_str s1 s2 =
     (if s2 = [] then Inl ''Can't xor empty string''
      else Inr (map (\<lambda>i. s1 ! i XOR s2 ! (i mod length s2)) [0..<length s1]))"


section \<open>The permutations of DES are inverse to each other\<close>

lemma drop_push_bit_u32:
  fixes t :: u32
  assumes "take_bit (32 - s) t = t"
  shows "drop_bit s (push_bit s t) = t"
proof (rule bit_word_eqI)
  fix n assume "n < LENGTH(32)"
  have "bit t n \<Longrightarrow> n < 32 - s"
    by (metis assms bit_take_bit_iff)
  then show "bit (drop_bit s (push_bit s t)) n = bit t n"
    using \<open>n < LENGTH(32)\<close> by (auto simp: bit_simps)
qed

lemma swap_bits_involution:
  assumes "take_bit (32 - s) m = m"
  shows "swap_bits s m (swap_bits s m p) = p"
proof -
  obtain x y where p: "p = (x, y)" by (cases p)
  define t where "t = (drop_bit s x XOR y) AND m"
  have "\<And>n. bit m n \<Longrightarrow> n < 32 - s"
    by (metis assms bit_take_bit_iff)
  then have "take_bit (32 - s) t = t"
    unfolding t_def by (intro bit_eqI) (simp only: bit_take_bit_iff bit_and_iff, blast)
  then have d: "drop_bit s (x XOR push_bit s t) = drop_bit s x XOR t"
    by (simp add: drop_push_bit_u32)
  have "(drop_bit s x XOR t) XOR (y XOR t) = drop_bit s x XOR y"
    by (intro bit_eqI) (simp only: bit_xor_iff, blast)
  then have "((drop_bit s (x XOR push_bit s t)) XOR (y XOR t)) AND m = t"
    by (simp only: d) (simp only: t_def)
  then have "swap_bits s m (x XOR push_bit s t, y XOR t) = (x, y)"
    by (simp only: swap_bits_def Let_def prod.case) (simp only: xor.assoc xor_self_eq xor.right_neutral)
  moreover have "swap_bits s m p = (x XOR push_bit s t, y XOR t)"
    by (simp only: p swap_bits_def Let_def prod.case t_def)
  ultimately show ?thesis by (simp only: p)
qed

lemma all_ones_u32: "(0xFFFFFFFF :: u32) = - 1"
  by simp

lemma bit_rotl1: "bit (rotl1 x) n \<longleftrightarrow> n < 32 \<and> (if n = 0 then bit x 31 else bit x (n - 1))"
proof -
  have "bit (rotl1 x) n \<longleftrightarrow> bit (push_bit 1 x) n \<or> bit (drop_bit 31 x) n"
    by (simp add: rotl1_def all_ones_u32 bit_or_iff del: push_bit_of_1)
  also have "\<dots> \<longleftrightarrow> n < 32 \<and> 1 \<le> n \<and> bit x (n - 1) \<or> bit x (31 + n)"
    by (simp only: bit_simps) auto
  finally show ?thesis
    using bit_imp_le_length [of x "31 + n"] by auto
qed

lemma bit_rotr1: "bit (rotr1 x) n \<longleftrightarrow> n < 32 \<and> (if n = 31 then bit x 0 else bit x (n + 1))"
proof -
  have "bit (rotr1 x) n \<longleftrightarrow> bit (push_bit 31 x) n \<or> bit (drop_bit 1 x) n"
    by (simp add: rotr1_def all_ones_u32 bit_or_iff)
  also have "\<dots> \<longleftrightarrow> n < 32 \<and> 31 \<le> n \<and> bit x (n - 31) \<or> bit x (1 + n)"
    by (simp only: bit_simps) auto
  finally show ?thesis
    using bit_imp_le_length [of x "1 + n"] by (cases "n = 31") auto
qed

lemma rotl1_rotr1 [simp]: "rotl1 (rotr1 x) = x"
  by (rule bit_word_eqI) (auto simp: bit_rotl1 bit_rotr1)

lemma rotr1_rotl1 [simp]: "rotr1 (rotl1 x) = x"
  by (rule bit_word_eqI) (auto simp: bit_rotl1 bit_rotr1)

lemmas swap_bits_inv =
  swap_bits_involution [of 4 "0x0F0F0F0F", simplified]
  swap_bits_involution [of 16 "0x0000FFFF", simplified]
  swap_bits_involution [of 2 "0x33333333", simplified]
  swap_bits_involution [of 8 "0x00FF00FF", simplified]
  swap_bits_involution [of 0 "0xAAAAAAAA", simplified]

lemma des_fp_ip: "des_fp (des_ip p) = p"
  by (simp add: des_fp_def des_ip_def split_beta Let_def swap_bits_inv)

lemma des_ip_fp: "des_ip (des_fp p) = p"
  by (simp add: des_fp_def des_ip_def split_beta Let_def swap_bits_inv)

section \<open>The rounds of DES\<close>

text \<open>The pairs of a key schedule in reverse order undo the rounds.\<close>

fun rev_pairs :: "u32 list \<Rightarrow> u32 list" where
  "rev_pairs (a # b # ks) = rev_pairs ks @ [a, b]"
| "rev_pairs _ = []"

lemma des_rounds_append:
  "length ks mod 4 = 0 \<Longrightarrow> des_rounds (ks @ ks') p = des_rounds ks' (des_rounds ks p)"
  by (induction ks p rule: des_rounds.induct) (auto simp: Let_def mod_Suc split: if_splits)

lemma xor_xor_cancel: "(x XOR (f :: u32)) XOR f = x"
  by (simp add: xor.assoc)

lemma length_rev_pairs: "even (length ks) \<Longrightarrow> length (rev_pairs ks) = length ks"
  by (induction ks rule: rev_pairs.induct) auto

lemma des_rounds_inverse:
  "length ks mod 4 = 0 \<Longrightarrow> des_rounds (rev_pairs ks) (prod.swap (des_rounds ks p)) = prod.swap p"
proof (induction ks p rule: des_rounds.induct)
  case (1 k1 k2 k3 k4 ks x y)
  define x' where "x' = x XOR des_f k1 k2 y"
  define y' where "y' = y XOR des_f k3 k4 x'"
  have l: "length ks mod 4 = 0" using "1.prems" by (simp add: mod_Suc split: if_splits)
  then have "even (length ks)" by presburger
  then have l': "length (rev_pairs ks) mod 4 = 0" using l by (simp add: length_rev_pairs)
  have "des_rounds (rev_pairs ks) (prod.swap (des_rounds ks (x', y'))) = (y', x')"
    using "1.IH" [OF x'_def y'_def l] by simp
  then have "des_rounds (rev_pairs ks @ [k3, k4, k1, k2]) (prod.swap (des_rounds ks (x', y'))) = (y, x)"
    by (simp add: des_rounds_append l' Let_def) (simp add: x'_def y'_def xor_xor_cancel)
  then show ?case
    by (simp add: Let_def x'_def y'_def)
qed (auto simp: mod_Suc split: if_splits)

lemma list_32: "length xs = 32 \<Longrightarrow> xs = map (\<lambda>i. xs ! i) [0..<32]"
  by (metis map_nth)

lemma reverse_keys_pairs:
  assumes "length ESK = 32"
  shows "reverse_keys ESK = rev_pairs ESK"
proof -
  have "rev_pairs (map (\<lambda>i. ESK ! i) [0..<32]) = reverse_keys ESK"
    by (simp add: reverse_keys_def numeral_eq_Suc)
  then show ?thesis
    using assms list_32 [of ESK] by simp
qed

lemma length_des_subkeys: "length (des_subkeys is x y) = 2 * length is"
  by (induction "is" arbitrary: x y) (auto simp: Let_def split: prod.splits)

lemma length_des_main_ks [simp]: "length (des_main_ks key) = 32"
  by (simp add: des_main_ks_def length_des_subkeys split: prod.split)

section \<open>Blocks of bytes\<close>

lemma length_put_uint32 [simp]: "length (put_uint32 n) = 4"
  by (simp add: put_uint32_def)

lemma length_des_crypt [simp]: "length (des_crypt SK b) = 8"
  by (simp add: des_crypt_def split: prod.split)


section \<open>DES decryption undoes encryption\<close>

lemma put_get_uint32:
  "put_uint32 (get_uint32 b i) = [b ! i, b ! (i + 1), b ! (i + 2), b ! (i + 3)]"
  by (simp only: put_uint32_def get_uint32_def byte_simps)

lemma get_put_uint32:
  "get_uint32 (put_uint32 m @ r) 0 = m" "get_uint32 (put_uint32 m @ put_uint32 n) 4 = n"
  by (simp_all add: get_uint32_def put_uint32_def join_split32)

lemma put_get_block:
  assumes "length b = 8"
  shows "put_uint32 (get_uint32 b 0) @ put_uint32 (get_uint32 b 4) = b"
proof -
  have "b = map ((!) b) [0..<8]" using assms by (metis map_nth)
  then show ?thesis by (simp add: put_get_uint32 upt_rec eval_nat_numeral)
qed

text \<open>The pair of words a block goes through.\<close>

definition des_pair :: "u32 list \<Rightarrow> u32 \<times> u32 \<Rightarrow> u32 \<times> u32" where
  "des_pair SK p = des_fp (prod.swap (des_rounds SK (des_ip p)))"

lemma des_crypt_pair:
  "des_crypt SK b = (let (l, r) = des_pair SK (get_uint32 b 0, get_uint32 b 4) in put_uint32 l @ put_uint32 r)"
  by (simp add: des_crypt_def des_pair_def split: prod.split)

lemma des_pair_inverse:
  "length SK = 32 \<Longrightarrow> des_pair (reverse_keys SK) (des_pair SK p) = p"
  by (simp add: des_pair_def des_ip_fp reverse_keys_pairs des_rounds_inverse des_fp_ip)

lemma des_crypt_inverse:
  assumes "length SK = 32" "length b = 8"
  shows "des_crypt (reverse_keys SK) (des_crypt SK b) = b"
proof -
  obtain l r where lr: "des_pair SK (get_uint32 b 0, get_uint32 b 4) = (l, r)" by fastforce
  have "des_pair (reverse_keys SK) (l, r) = (get_uint32 b 0, get_uint32 b 4)"
    using des_pair_inverse [OF assms(1), of "(get_uint32 b 0, get_uint32 b 4)"] by (simp add: lr)
  then show ?thesis
    using put_get_block [OF assms(2)] by (simp add: des_crypt_pair lr get_put_uint32)
qed

lemma fst_des_blocks_append:
  "length b = 8 \<Longrightarrow> des_blocks SK (b @ t) = (des_crypt SK b @ fst (des_blocks SK t), snd (des_blocks SK t))"
  by (subst des_blocks.simps) (simp add: split_beta)

lemma des_blocks_inverse:
  assumes SK: "length SK = 32"
  shows "\<exists>full. text = full @ snd (des_blocks SK text) \<and> length (snd (des_blocks SK text)) < 8 \<and>
    length full = length (fst (des_blocks SK text)) \<and> 8 dvd length full \<and>
    (\<forall>t. length t = 8 \<longrightarrow> fst (des_blocks (reverse_keys SK) (fst (des_blocks SK text) @ des_crypt SK t)) = full @ t)"
  (is "\<exists>full. ?P text full")
  using SK
proof (induction SK "text" rule: des_blocks.induct)
  case (1 SK "text")
  show ?case
  proof (cases "length text < 8")
    case True
    then have b: "des_blocks SK text = ([], text)" by (simp add: des_blocks.simps)
    have "fst (des_blocks (reverse_keys SK) (des_crypt SK t)) = t" if "length t = 8" for t
      using fst_des_blocks_append [of "des_crypt SK t" "reverse_keys SK" "[]"] that
      by (simp add: des_crypt_inverse 1 des_blocks.simps [of _ "[]"])
    then show ?thesis using True by (simp add: b)
  next
    case False
    then obtain full where IH: "drop 8 text = full @ snd (des_blocks SK (drop 8 text))" "length (snd (des_blocks SK (drop 8 text))) < 8"
      "length full = length (fst (des_blocks SK (drop 8 text)))" "8 dvd length full"
      "\<And>t. length t = 8 \<Longrightarrow> fst (des_blocks (reverse_keys SK) (fst (des_blocks SK (drop 8 text)) @ des_crypt SK t)) = full @ t"
      using 1 by blast
    have b: "des_blocks SK text = (des_crypt SK (take 8 text) @ fst (des_blocks SK (drop 8 text)), snd (des_blocks SK (drop 8 text)))"
      using False by (subst des_blocks.simps) (simp add: split_beta)
    have "text = (take 8 text @ full) @ snd (des_blocks SK (drop 8 text))"
      using IH(1) by (metis append.assoc append_take_drop_id)
    with IH False show ?thesis
      by (intro exI [of _ "take 8 text @ full"])
        (simp add: b fst_des_blocks_append des_crypt_inverse 1 del: append_take_drop_id)
  qed
qed

lemma des_tail_eq:
  "length r < 8 \<Longrightarrow> des_tail r = r @ 0x80 # replicate (7 - length r) 0"
  unfolding des_tail_def by (rule nth_equalityI) (auto simp: nth_append nth_Cons' nth_replicate)

lemma unpad_zeros:
  assumes "lo \<le> int (length pre)" "i = int (length pre + n)"
  shows "unpad (pre @ 0x80 # replicate (n + k) 0) lo i p = Some (Inr (p + int n))"
  using assms
proof (induction n arbitrary: i p k)
  case 0
  then show ?case by (subst unpad.simps) (simp add: aget_def)
next
  case (Suc n)
  have "unpad (pre @ 0x80 # replicate (n + Suc k) 0) lo (i - 1) (p + 1) = Some (Inr (p + 1 + int n))"
    by (rule Suc.IH) (use Suc.prems in auto)
  moreover have "aget (pre @ 0x80 # replicate (Suc n + k) 0) i = Some 0"
    using Suc.prems by (auto simp: aget_def nat_add_distrib nth_append nth_Cons')
  ultimately show ?case
    using Suc.prems by (subst unpad.simps) auto
qed


lemma ldesdecode_ldesencode:
  assumes "length key = 8"
  shows "\<exists>c. ldesencode key text = Some (Inr c) \<and> length c = 8 * (length text div 8 + 1) \<and>
    ldesdecode key c = Some (Inr text)"
proof -
  define SK where "SK = des_main_ks key"
  have SK: "length SK = 32" by (simp add: SK_def)
  obtain full where full: "text = full @ snd (des_blocks SK text)" and r: "length (snd (des_blocks SK text)) < 8"
    and lf: "length full = length (fst (des_blocks SK text))" "8 dvd length full"
    and inv: "\<And>t. length t = 8 \<Longrightarrow> fst (des_blocks (reverse_keys SK) (fst (des_blocks SK text) @ des_crypt SK t)) = full @ t"
    using des_blocks_inverse [OF SK, of "text"] by blast
  define rest where "rest = snd (des_blocks SK text)"
  define c where "c = fst (des_blocks SK text) @ des_crypt SK (des_tail rest)"
  have enc: "ldesencode key text = Some (Inr c)"
    by (simp add: ldesencode_def des_key_def assms SK_def [symmetric] c_def rest_def split_beta)
  have lc: "length c = length full + 8" by (simp add: c_def lf)
  have buf: "fst (des_blocks (reverse_keys SK) c) = (full @ rest) @ 0x80 # replicate (7 - length rest) 0"
    using inv [of "des_tail rest"] r by (simp add: c_def des_tail_eq rest_def)
  have "unpad ((full @ rest) @ 0x80 # replicate (7 - length rest + 0) 0) (int (length c) - 8) (int (length c) - 1) 1 =
      Some (Inr (1 + int (7 - length rest)))"
    by (rule unpad_zeros) (use r lc rest_def in auto)
  then have "ldesdecode key c = Some (Inr (full @ rest))"
    using r lc lf by (auto simp: ldesdecode_def des_key_def assms SK_def [symmetric] buf rest_def)
  moreover have "length c = 8 * (length text div 8 + 1)"
    using lf(2) r lc arg_cong [OF full, of length] by (auto simp: dvd_def)
  ultimately show ?thesis
    using enc full by (auto simp: rest_def)
qed


section \<open>Hexadecimal and base64 round trips\<close>

lemma HEX_digit: "d < 16 \<Longrightarrow> HEX (hex_lower ! d) = of_nat d"
proof -
  have "\<forall>d \<in> set [0..<16]. HEX (hex_lower ! d) = of_nat d" by code_simp
  then show "d < 16 \<Longrightarrow> HEX (hex_lower ! d) = of_nat d" by simp
qed

lemma nibble_high: "unat (drop_bit 4 (c :: byte)) < 16"
  using unsigned_less [of c, where ?'a = nat] by (simp add: drop_bit_eq_div unat_div)

lemma nibble_low: "unat (c AND 0xf :: byte) < 16"
proof -
  have "(0xf :: byte) = mask 4" by (simp add: mask_eq_exp_minus_1)
  then have "unat (c AND 0xf) = unat c mod 16"
    by (simp only: flip: take_bit_eq_mask) (simp add: take_bit_eq_mod unat_mod)
  then show ?thesis by simp
qed

lemma nibbles_join: "push_bit 4 (drop_bit 4 c) OR (c AND 0xf) = (c :: byte)"
proof -
  have m: "(0xf :: byte) = mask 4" by (simp add: mask_eq_exp_minus_1)
  show ?thesis unfolding m by (rule bit_word_eqI) (auto simp: bit_simps)
qed

lemma fromhex_step:
  fixes c :: byte
  shows "fromhex_loop (hex_lower ! unat (drop_bit 4 c) # hex_lower ! unat (c AND 0xf) # r) =
   (case fromhex_loop r of Inl e \<Rightarrow> Inl e | Inr out \<Rightarrow> Inr (c # out))"
proof -
  have "drop_bit 4 c \<le> 16" "c AND 0xf \<le> 16"
    using nibble_high [of c] nibble_low [of c] by (simp_all add: word_le_nat_alt)
  then show ?thesis
    by (auto simp: HEX_digit [OF nibble_high] HEX_digit [OF nibble_low] nibbles_join Let_def dest: leD split: sum.split)
qed

lemma tohex_loop_returns:
  assumes "0 \<le> i" "i + int (length text) \<le> 2 ^ 30"
  shows "\<exists>out. tohex_loop i text = Some out \<and> length out = 2 * length text \<and> fromhex_loop out = Inr text"
  using assms
proof (induction "text" arbitrary: i)
  case Nil
  then show ?case by simp
next
  case (Cons c "text")
  then have "cint_ok (i * 2 + 1)" by (intro cint_okI) auto
  moreover obtain out where "tohex_loop (i + 1) text = Some out" "length out = 2 * length text"
    "fromhex_loop out = Inr text" using Cons.IH [of "i + 1"] Cons.prems by auto
  ultimately show ?case by (simp add: fromhex_step del: fromhex_loop.simps(1))
qed

lemma lfromhex_ltohex:
  assumes "length text < 2 ^ 30"
  shows "\<exists>c. ltohex text = Some (Inr c) \<and> lfromhex c = Some (Inr text)"
proof -
  have "0 + int (length text) \<le> 2 ^ 30" using assms by simp
  from tohex_loop_returns [OF order.refl this] obtain out where
    out: "tohex_loop 0 text = Some out" "length out = 2 * length text" "fromhex_loop out = Inr text" by blast
  moreover have "cint_ok (int (length out))" using out(2) assms by (intro cint_okI) auto
  ultimately show ?thesis by (simp add: ltohex_def lfromhex_def)
qed

text \<open>From \<open>2 ^ 30\<close> bytes on, the index of the buffer leaves the range of \<open>int\<close>.\<close>

lemma tohex_loop_overflow:
  "0 \<le> i \<Longrightarrow> i \<le> 2 ^ 30 \<Longrightarrow> 2 ^ 30 < i + int (length text) \<Longrightarrow> tohex_loop i text = None"
proof (induction "text" arbitrary: i)
  case (Cons c "text")
  show ?case
  proof (cases "i = 2 ^ 30")
    case True
    then show ?thesis by (simp add: cint_def cint_ok_def)
  next
    case False
    then show ?thesis using Cons.IH [of "i + 1"] Cons.prems by simp
  qed
qed simp

lemma lxor_str_involution:
  assumes "s2 \<noteq> []"
  shows "\<exists>c. lxor_str s1 s2 = Inr c \<and> length c = length s1 \<and> lxor_str c s2 = Inr s1"
  using assms by (auto simp: lxor_str_def xor.assoc intro!: nth_equalityI)

lemma b64index_digit: "d < 64 \<Longrightarrow> b64index (b64_encoding ! d) = int d"
proof -
  have "\<forall>d \<in> set [0..<64]. b64index (b64_encoding ! d) = int d" by code_simp
  then show "d < 64 \<Longrightarrow> b64index (b64_encoding ! d) = int d" by simp
qed

lemma b64index_pad: "b64index 61 = - 2"
  by code_simp


lemma b64_group_4:
  assumes "b64index a \<noteq> - 1" "b64index b \<noteq> - 1" "b64index c \<noteq> - 1" "b64index d \<noteq> - 1"
  shows "b64_group 4 (a # b # c # d # r) = Some ([b64index a, b64index b, b64index c, b64index d], r)"
  using assms by (simp add: numeral_eq_Suc)

lemma b64decode_group:
  assumes "b64index a \<noteq> - 1" "b64index b \<noteq> - 1" "b64index c \<noteq> - 1" "b64index d \<noteq> - 1"
    and "b64_value [b64index a, b64index b, b64index c, b64index d] = Inr bs"
    and "b64decode_loop r = Inr out"
  shows "b64decode_loop (a # b # c # d # r) = Inr (bs @ out)"
  using assms by (subst b64decode_loop.simps) (simp add: b64_group_4)

lemma uint_not_pad [simp]: "uint (w :: 'a::len word) \<noteq> - 2"
  using uint_nonnegative [of w] by linarith

lemma uint_not_skip [simp]: "uint (w :: 'a::len word) \<noteq> - 1"
  using uint_nonnegative [of w] by linarith

lemma mask6: "(0x3f :: u32) = mask 6"
  by (simp add: mask_eq_exp_minus_1)

lemma sextet: "unat (w AND 0x3f :: u32) < 64"
  using and_mask_less' [of 6 w] by (simp add: mask6 word_less_nat_alt)

lemma b64_full:
  fixes a b c :: byte
  defines "v \<equiv> push_bit 16 (ucast a) OR push_bit 8 (ucast b) OR ucast c :: u32"
  defines "i0 \<equiv> drop_bit 18 v" and "i1 \<equiv> drop_bit 12 v AND 0x3f" and "i2 \<equiv> drop_bit 6 v AND 0x3f" and "i3 \<equiv> v AND 0x3f"
  shows "unat i0 < 64" "b64_value [int (unat i0), int (unat i1), int (unat i2), int (unat i3)] = Inr [a, b, c]"
proof -
  have bv: "bit v n \<longleftrightarrow> (if n < 8 then bit c n else if n < 16 then bit b (n - 8) else n < 24 \<and> bit a (n - 16))" for n
    using bit_join32 [of 0 a b c n] bit_byte_length [of a "n - 16"] by (auto simp: v_def)
  have "v = take_bit 24 v" by (rule bit_word_eqI) (auto simp: bv bit_take_bit_iff)
  then have "unat v < 2 ^ 24" by (metis unsigned_take_bit_eq take_bit_nat_less_exp)
  then show "unat i0 < 64"
    by (simp add: i0_def drop_bit_eq_div unat_div)
  have join: "push_bit 18 i0 OR push_bit 12 i1 OR push_bit 6 i2 OR i3 = v"
    unfolding i0_def i1_def i2_def i3_def mask6
  proof (rule bit_word_eqI)
    fix n assume "n < LENGTH(32)"
    then show "bit (push_bit 18 (drop_bit 18 v) OR push_bit 12 (drop_bit 12 v AND mask 6) OR
        push_bit 6 (drop_bit 6 v AND mask 6) OR v AND mask 6) n = bit v n"
      by (cases "n < 6"; cases "n < 12"; cases "n < 18") (auto simp: bit_simps)
  qed
  have "ucast (drop_bit 16 v) = a" "ucast (drop_bit 8 v AND 0xff) = b" "ucast (v AND 0xff) = c"
    using byte2_join32 [of 0 a b c] byte1_join32 [of 0 a b c] byte0_join32 [of 0 a b c]
    by (simp_all add: v_def ucast_mask8)
  then show "b64_value [int (unat i0), int (unat i1), int (unat i2), int (unat i3)] = Inr [a, b, c]"
    by (simp add: b64_value_def join del: drop_bit_or)
qed


lemma b64_two:
  fixes a b :: byte
  defines "v \<equiv> push_bit 8 (ucast a) OR ucast b :: u32"
  defines "i0 \<equiv> drop_bit 10 v" and "i1 \<equiv> drop_bit 4 v AND 0x3f" and "i2 \<equiv> push_bit 2 (v AND 0xf)"
  shows "unat i0 < 64" "unat i2 < 64" "b64_value [int (unat i0), int (unat i1), int (unat i2), - 2] = Inr [a, b]"
proof -
  have bv: "bit v n \<longleftrightarrow> (if n < 8 then bit b n else n < 16 \<and> bit a (n - 8))" for n
    using bit_join32 [of 0 0 a b n] bit_byte_length [of a "n - 8"] by (auto simp: v_def)
  have m4: "(0xf :: u32) = mask 4" "(3 :: u32) = mask 2" by (simp_all add: mask_eq_exp_minus_1)
  have "v = take_bit 16 v" by (rule bit_word_eqI) (auto simp: bv bit_take_bit_iff)
  then have "unat v < 2 ^ 16" by (metis unsigned_take_bit_eq take_bit_nat_less_exp)
  then show "unat i0 < 64"
    by (simp add: i0_def drop_bit_eq_div unat_div)
  have "i2 AND 0x3f = i2" unfolding i2_def m4 mask6 by (rule bit_word_eqI) (auto simp: bit_simps)
  then show "unat i2 < 64" using sextet [of i2] by simp
  have join: "push_bit 10 i0 OR push_bit 4 i1 OR drop_bit 2 i2 = v"
    unfolding i0_def i1_def i2_def m4 mask6
  proof (rule bit_word_eqI)
    fix n assume "n < LENGTH(32)"
    then show "bit (push_bit 10 (drop_bit 10 v) OR push_bit 4 (drop_bit 4 v AND mask 6) OR drop_bit 2 (push_bit 2 (v AND mask 4))) n = bit v n"
      by (cases "n < 4"; cases "n < 10") (auto simp: bit_simps)
  qed
  have low: "i2 AND 3 = 0" unfolding i2_def m4 by (rule bit_word_eqI) (auto simp: bit_simps)
  have "ucast (drop_bit 8 v) = a" "ucast (v AND 0xff) = b"
    using byte1_join32 [of 0 0 a b] byte0_join32 [of 0 0 a b] by (simp_all add: v_def ucast_mask8)
  then show "b64_value [int (unat i0), int (unat i1), int (unat i2), - 2] = Inr [a, b]"
    by (simp add: b64_value_def join low)
qed

lemma b64_one:
  fixes a :: byte
  defines "v \<equiv> ucast a :: u32"
  defines "i0 \<equiv> drop_bit 2 v" and "i1 \<equiv> push_bit 4 (v AND 3)"
  shows "unat i0 < 64" "unat i1 < 64" "b64_value [int (unat i0), int (unat i1), - 2, - 2] = Inr [a]"
proof -
  have m: "(0xf :: u32) = mask 4" "(3 :: u32) = mask 2" by (simp_all add: mask_eq_exp_minus_1)
  have "v = take_bit 8 v" unfolding v_def by (rule bit_word_eqI) (auto simp: bit_simps dest: bit_byte_length)
  then have "unat v < 2 ^ 8" by (metis unsigned_take_bit_eq take_bit_nat_less_exp)
  then show "unat i0 < 64" by (simp add: i0_def drop_bit_eq_div unat_div)
  have "i1 AND 0x3f = i1" unfolding i1_def m mask6 by (rule bit_word_eqI) (auto simp: bit_simps)
  then show "unat i1 < 64" using sextet [of i1] by simp
  have join: "push_bit 2 i0 OR drop_bit 4 i1 = v"
    unfolding i0_def i1_def m
  proof (rule bit_word_eqI)
    fix n assume "n < LENGTH(32)"
    moreover have "2 \<le> n \<Longrightarrow> Suc (Suc (n - 2)) = n" by simp
    ultimately show "bit (push_bit 2 (drop_bit 2 v) OR drop_bit 4 (push_bit 4 (v AND mask 2))) n = bit v n"
      by (cases "n < 2") (auto simp: bit_simps)
  qed
  have low: "i1 AND 0xf = 0" unfolding i1_def m by (rule bit_word_eqI) (auto simp: bit_simps)
  have "ucast v = a" using byte0_join32 [of 0 0 0 a] by (simp add: v_def)
  then show "b64_value [int (unat i0), int (unat i1), - 2, - 2] = Inr [a]"
    by (simp add: b64_value_def join low)
qed

lemma b64decode_full:
  assumes "unat i0 < 64" "unat i1 < 64" "unat i2 < 64" "unat i3 < 64"
    and "b64_value [int (unat i0), int (unat i1), int (unat i2), int (unat i3)] = Inr [a, b, c]"
    and "b64decode_loop r = Inr out"
  shows "b64decode_loop (b64_encoding ! unat i0 # b64_encoding ! unat i1 # b64_encoding ! unat i2 # b64_encoding ! unat i3 # r) =
    Inr (a # b # c # out)"
  by (rule b64decode_group [where ?bs = "[a, b, c]", simplified append.simps]) (use assms in \<open>simp_all add: b64index_digit\<close>)

lemma b64decode_two:
  assumes "unat i0 < 64" "unat i1 < 64" "unat i2 < 64"
    and "b64_value [int (unat i0), int (unat i1), int (unat i2), - 2] = Inr [a, b]"
  shows "b64decode_loop [b64_encoding ! unat i0, b64_encoding ! unat i1, b64_encoding ! unat i2, 61] = Inr [a, b]"
  by (rule b64decode_group [where ?bs = "[a, b]" and ?out = "[]", simplified append.simps])
    (use assms in \<open>simp_all add: b64index_digit b64index_pad b64decode_loop.simps [of "[]"]\<close>)

lemma b64decode_one:
  assumes "unat i0 < 64" "unat i1 < 64"
    and "b64_value [int (unat i0), int (unat i1), - 2, - 2] = Inr [a]"
  shows "b64decode_loop [b64_encoding ! unat i0, b64_encoding ! unat i1, 61, 61] = Inr [a]"
  by (rule b64decode_group [where ?bs = "[a]" and ?out = "[]", simplified append.simps])
    (use assms in \<open>simp_all add: b64index_digit b64index_pad b64decode_loop.simps [of "[]"]\<close>)

lemma b64decode_b64encode: "b64decode_loop (b64encode_loop text) = Inr text"
proof (induction "text" rule: b64encode_loop.induct)
  case (1 a b c r)
  show ?case unfolding b64encode_loop.simps Let_def
    by (rule b64decode_full [OF b64_full(1) sextet sextet sextet b64_full(2) 1 [OF refl]])
next
  case (2 a b)
  show ?case unfolding b64encode_loop.simps Let_def
    by (rule b64decode_two [OF b64_two(1) sextet b64_two(2,3)])
next
  case (3 a)
  show ?case unfolding b64encode_loop.simps Let_def
    by (rule b64decode_one [OF b64_one])
qed (simp add: b64decode_loop.simps)

lemma length_b64encode_loop: "length (b64encode_loop t) = (length t + 2) div 3 * 4"
proof (induction t rule: b64encode_loop.induct)
  case (1 a b c r)
  have "(length (a # b # c # r) + 2) div 3 = Suc ((length r + 2) div 3)" by simp
  then show ?case using 1 by (simp add: Let_def)
qed (simp_all add: Let_def)

lemma lb64decode_lb64encode:
  assumes "length t \<le> 2 ^ 30"
  shows "\<exists>c. lb64encode t = Some (Inr c) \<and> lb64decode c = Some (Inr t)"
proof -
  have len: "(length t + 2) div 3 * 4 < 2 ^ 31" using assms by simp
  then have "cint_ok ((int (length t) + 2) div 3 * 4)" by (simp add: cint_ok_def) linarith
  moreover have "cint_ok (int (length (b64encode_loop t)))"
    "cint_ok ((int (length (b64encode_loop t)) + 3) div 4 * 3)"
    unfolding length_b64encode_loop using len by (auto simp: cint_ok_def)
  ultimately show ?thesis by (simp add: lb64encode_def lb64decode_def b64decode_b64encode)
qed

section \<open>Codecs\<close>

text \<open>What the login protocol needs of an encoder and a decoder under a key, and of one applied to
  the output of another (a ciphertext sent as text).\<close>

locale codec =
  fixes enc dec :: "'k \<Rightarrow> byte list \<Rightarrow> byte list lua" and ok :: "'k \<Rightarrow> byte list \<Rightarrow> bool"
  assumes round_trip: "ok k t \<Longrightarrow> \<exists>c. enc k t = Some (Inr c) \<and> dec k c = Some (Inr t)"
begin

lemma enc_inj: "ok k s \<Longrightarrow> ok k t \<Longrightarrow> enc k s = enc k t \<Longrightarrow> s = t"
  using round_trip [of k s] round_trip [of k t] by auto

end

definition codec_then ::
  "('k \<Rightarrow> byte list \<Rightarrow> byte list lua) \<Rightarrow> ('l \<Rightarrow> byte list \<Rightarrow> byte list lua) \<Rightarrow> 'k \<times> 'l \<Rightarrow> byte list \<Rightarrow> byte list lua" where
  "codec_then f g k t =
     (case f (fst k) t of None \<Rightarrow> None | Some (Inl e) \<Rightarrow> Some (Inl e) | Some (Inr c) \<Rightarrow> g (snd k) c)"

locale codec_chain = inner: codec enc dec ok + outer: codec enc' dec' ok'
  for enc dec ok enc' dec' ok'
begin

lemma chain_round_trip:
  assumes "ok (fst k) t" "\<And>c. enc (fst k) t = Some (Inr c) \<Longrightarrow> ok' (snd k) c"
  shows "\<exists>c. codec_then enc enc' k t = Some (Inr c) \<and> codec_then dec' dec (prod.swap k) c = Some (Inr t)"
proof -
  obtain c where c: "enc (fst k) t = Some (Inr c)" "dec (fst k) c = Some (Inr t)"
    using inner.round_trip assms(1) by blast
  moreover obtain d where "enc' (snd k) c = Some (Inr d)" "dec' (snd k) d = Some (Inr c)"
    using outer.round_trip assms(2) [OF c(1)] by blast
  ultimately show ?thesis by (auto simp: codec_then_def)
qed

end

sublocale codec_chain \<subseteq> chain: codec "codec_then enc enc'" "\<lambda>k. codec_then dec' dec (prod.swap k)"
    "\<lambda>k t. ok (fst k) t \<and> (\<forall>c. enc (fst k) t = Some (Inr c) \<longrightarrow> ok' (snd k) c)"
  by unfold_locales (blast intro: chain_round_trip)

interpretation hex: codec "\<lambda>_ :: unit. ltohex" "\<lambda>_. lfromhex" "\<lambda>_ t. length t < 2 ^ 30"
  by unfold_locales (rule lfromhex_ltohex)

interpretation base64: codec "\<lambda>_ :: unit. lb64encode" "\<lambda>_. lb64decode" "\<lambda>_ t. length t \<le> 2 ^ 30"
  by unfold_locales (rule lb64decode_lb64encode)

interpretation des: codec ldesencode ldesdecode "\<lambda>key _. length key = 8"
  by unfold_locales (use ldesdecode_ldesencode in blast)

interpretation xor_codec: codec "\<lambda>key t. Some (lxor_str t key)" "\<lambda>key t. Some (lxor_str t key)" "\<lambda>key _. key \<noteq> []"
  by unfold_locales (use lxor_str_involution in fastforce)

interpretation des_text: codec_chain ldesencode ldesdecode "\<lambda>key _. length key = 8"
    "\<lambda>_ :: unit. lb64encode" "\<lambda>_. lb64decode" "\<lambda>_ t. length t \<le> 2 ^ 30" ..

text \<open>C15: With a key of eight bytes, the text that \<open>desencode\<close> returns for any byte string has the
  length of the string rounded up to the next multiple of eight beyond it, \<open>desdecode\<close> with the same
  key returns exactly the string, and two different strings have different ciphertexts.\<close>

theorem des_roundtrip:
  assumes "length key = 8"
  shows "\<exists>c. ldesencode key text = Some (Inr c) \<and> length c = 8 * (length text div 8 + 1) \<and>
    ldesdecode key c = Some (Inr text) \<and> (\<forall>other. ldesencode key other = Some (Inr c) \<longleftrightarrow> other = text)"
  using ldesdecode_ldesencode [OF assms, of "text"] des.enc_inj [OF assms assms] by metis

theorem des_roundtrip_witness:
  "\<exists>c. ldesencode [1, 2, 3, 4, 5, 6, 7, 8] [104, 105] = Some (Inr c) \<and> length c = 8 * (length [104 :: byte, 105] div 8 + 1) \<and>
    ldesdecode [1, 2, 3, 4, 5, 6, 7, 8] c = Some (Inr [104, 105]) \<and>
    (\<forall>other. ldesencode [1, 2, 3, 4, 5, 6, 7, 8] other = Some (Inr c) \<longleftrightarrow> other = [104, 105])"
  by (rule des_roundtrip) simp

text \<open>C16: For a byte string shorter than \<open>2 ^ 30\<close> bytes (1 GB, where the \<open>int\<close> index \<open>i*2+1\<close> of
  \<open>tohex\<close> still fits) the hexadecimal and the base64 encoder return, and decoding what they returned
  gives the string.  So does decrypting, with a key of eight bytes, the ciphertext that was sent as
  base64 text.\<close>

theorem text_codecs_roundtrip:
  assumes "length t < 2 ^ 30"
  shows "(\<exists>c. ltohex t = Some (Inr c) \<and> lfromhex c = Some (Inr t)) \<and>
    (\<exists>c. lb64encode t = Some (Inr c) \<and> lb64decode c = Some (Inr t)) \<and>
    (\<forall>key. length key = 8 \<longrightarrow>
      (\<exists>c. codec_then ldesencode (\<lambda>_. lb64encode) (key, ()) t = Some (Inr c) \<and>
         codec_then (\<lambda>_. lb64decode) ldesdecode ((), key) c = Some (Inr t)))"
proof -
  have "\<exists>c. codec_then ldesencode (\<lambda>_. lb64encode) (key, ()) t = Some (Inr c) \<and>
      codec_then (\<lambda>_. lb64decode) ldesdecode ((), key) c = Some (Inr t)" if key: "length key = 8" for key
  proof -
    have "length c \<le> 2 ^ 30" if "ldesencode key t = Some (Inr c)" for c
      using ldesdecode_ldesencode [OF key, of t] that assms by auto
    then show ?thesis using des_text.chain_round_trip [of "(key, ())" t] key by simp
  qed
  then show ?thesis using hex.round_trip [of t] base64.round_trip [of t] assms by auto
qed

theorem text_codecs_roundtrip_witness:
  "(\<exists>c. ltohex [0, 255] = Some (Inr c) \<and> lfromhex c = Some (Inr [0, 255])) \<and>
    (\<exists>c. lb64encode [0, 255] = Some (Inr c) \<and> lb64decode c = Some (Inr [0, 255])) \<and>
    (\<exists>c. codec_then ldesencode (\<lambda>_. lb64encode) ([1, 2, 3, 4, 5, 6, 7, 8], ()) [0, 255] = Some (Inr c) \<and>
      codec_then (\<lambda>_. lb64decode) ldesdecode ((), [1, 2, 3, 4, 5, 6, 7, 8]) c = Some (Inr [0, 255]))"
  using text_codecs_roundtrip [of "[0, 255]"] by simp

text \<open>At 1 GB \<open>tohex\<close> still works, one byte more overflows its \<open>int\<close> index.\<close>

lemma ltohex_overflow: "2 ^ 30 < length t \<Longrightarrow> ltohex t = None"
  using tohex_loop_overflow [of 0 t] by (simp add: ltohex_def)

lemma lb64encode_overflow: "2 ^ 31 \<le> (length t + 2) div 3 * 4 \<Longrightarrow> lb64encode t = None"
  by (simp add: lb64encode_def cint_def cint_ok_def) linarith

text \<open>Two deviations of the code from what its error messages say: a \<open>g\<close> passes as a hexadecimal
  digit, and a single block that decrypts to zeros makes the search for the padding read before
  the buffer.\<close>

lemma fromhex_accepts_g: "lfromhex (map of_char ''0g'') = Some (Inr [16])"
  by code_simp

lemma ldesdecode_underrun:
  assumes "length key = 8"
  shows "ldesdecode key (des_crypt (des_main_ks key) (replicate 8 0)) = None"
proof -
  have z: "fst (des_blocks (reverse_keys (des_main_ks key)) (des_crypt (des_main_ks key) (replicate 8 0))) = replicate 8 0"
    using fst_des_blocks_append [of "des_crypt (des_main_ks key) (replicate 8 0)" "reverse_keys (des_main_ks key)" "[]"]
    by (simp add: des_crypt_inverse des_blocks.simps [of _ "[]"])
  have "unpad (replicate 8 0) 0 (int n - 1) p = None" if "n \<le> 8" for n p
    using that
  proof (induction n arbitrary: p)
    case 0
    then show ?case by (subst unpad.simps) (simp add: aget_def)
  next
    case (Suc n)
    then show ?case by (subst unpad.simps) simp
  qed
  from this [of 8 1] show ?thesis
    by (simp add: ldesdecode_def des_key_def assms z)
qed


section \<open>Diffie-Hellman key agreement\<close>

definition p64 :: nat where "p64 = 18446744073709551557"

lemma unat_P64 [simp]: "unat P64 = p64"
  by (simp add: P64_def p64_def)

lemma p64_less: "p64 < 2 ^ 64"
  by (simp add: p64_def)

lemma add_mod_p:
  assumes "unat a \<le> p64" "unat m < p64"
  shows "unat (if m \<ge> P64 - a then m - (P64 - a) else m + a) = (unat m + unat a) mod p64"
proof -
  have t: "unat (P64 - a) = p64 - unat a"
    using assms by (simp add: unat_sub word_le_nat_alt)
  show ?thesis
  proof (cases "P64 - a \<le> m")
    case True
    then have "unat (m - (P64 - a)) = unat m + unat a - p64"
      using assms t by (simp add: unat_sub word_le_nat_alt)
    moreover have "p64 \<le> unat m + unat a" using True t by (simp add: word_le_nat_alt)
    ultimately show ?thesis
      using True assms by (simp add: le_mod_geq mod_if)
  next
    case False
    then have lt: "unat m + unat a < p64" using t by (simp add: word_le_nat_alt)
    then have "unat (m + a) = unat m + unat a"
      using p64_less by (simp add: unat_word_ariths)
    then show ?thesis using False lt by simp
  qed
qed

lemma double_mod_p:
  assumes "unat a \<le> p64"
  defines "d \<equiv> (if a \<ge> P64 - a then a * 2 - P64 else a * 2)"
  shows "unat d \<le> p64" "unat d mod p64 = 2 * unat a mod p64"
proof -
  have t: "unat (P64 - a) = p64 - unat a"
    using assms by (simp add: unat_sub word_le_nat_alt)
  have "unat d = (if p64 \<le> 2 * unat a then 2 * unat a - p64 else 2 * unat a)"
  proof (cases "P64 - a \<le> a")
    case True
    have e: "a * 2 - P64 = a - (P64 - a)" by simp
    have "unat d = unat a - (p64 - unat a)"
      by (simp only: d_def True if_True e unat_sub [OF True] t)
    then show ?thesis using True t assms(1) by (auto simp: word_le_nat_alt)
  next
    case False
    then have lt: "2 * unat a < p64" using t by (simp add: word_le_nat_alt)
    then have "unat (a * 2) = 2 * unat a" using p64_less by (simp add: unat_word_ariths)
    then show ?thesis using False lt by (simp add: d_def)
  qed
  then show "unat d \<le> p64" "unat d mod p64 = 2 * unat a mod p64"
    using assms(1) by (auto simp: le_mod_geq)
qed

lemma odd_u64: "(b :: u64) mod 2 \<noteq> 0 \<longleftrightarrow> unat b mod 2 = 1"
proof -
  have "unat (b mod 2) = unat b mod 2" by (simp add: unat_mod)
  then show ?thesis using unat_eq_0 [of "b mod 2"] by linarith
qed

lemma mod_add_mult: "(x + y * z) mod p = (x mod p + (y mod p) * z) mod (p :: nat)"
  by (rule mod_add_cong) (simp_all add: mod_mult_left_eq)

lemma mul_loop_correct:
  "unat a \<le> p64 \<Longrightarrow> unat m < p64 \<Longrightarrow> unat (mul_loop a b m) = (unat m + unat a * unat b) mod p64"
proof (induction a b m rule: mul_loop.induct)
  case (1 a b m)
  show ?case
  proof (cases "b = 0")
    case True
    then show ?thesis using 1 by (simp add: mul_loop.simps)
  next
    case False
    define m' where "m' = (if b AND 1 \<noteq> 0 then (let t = P64 - a in if m \<ge> t then m - t else m + a) else m)"
    define a' where "a' = (if a \<ge> P64 - a then a * 2 - P64 else a * 2)"
    have odd: "b AND 1 \<noteq> 0 \<longleftrightarrow> unat b mod 2 = 1"
      by (simp only: and_one_eq odd_u64)
    have "0 < p64" by (simp add: p64_def)
    then have m': "unat m' < p64" "unat m' = (unat m + unat a * (unat b mod 2)) mod p64"
      using add_mod_p [of a m] 1(2,3) odd by (auto simp: m'_def Let_def)
    have a': "unat a' \<le> p64" "unat a' mod p64 = 2 * unat a mod p64"
      using double_mod_p [OF 1(2)] by (simp_all add: a'_def)
    have "unat (mul_loop a b m) = unat (mul_loop a' (drop_bit 1 b) m')"
      using False by (subst mul_loop.simps) (simp add: m'_def a'_def Let_def)
    also have "\<dots> = (unat m' + unat a' * unat (drop_bit 1 b)) mod p64"
      by (rule 1(1) [OF False m'_def a'_def a'(1) m'(1)])
    also have "\<dots> = (unat m' mod p64 + (unat a' mod p64) * (unat b div 2)) mod p64"
      using mod_add_mult [of "unat m'" "unat a'" "unat b div 2"] by (simp add: drop_bit_Suc unat_div)
    also have "\<dots> = (unat m + unat a * (unat b mod 2) + 2 * unat a * (unat b div 2)) mod p64"
      using mod_add_mult [of "unat m + unat a * (unat b mod 2)" "2 * unat a" "unat b div 2"] by (simp only: a'(2) m'(2) mod_mod_trivial)
    also have "unat m + unat a * (unat b mod 2) + 2 * unat a * (unat b div 2) = unat m + unat a * unat b"
      by (metis (no_types, lifting) add.assoc add.commute distrib_left mod_mult_div_eq mult.assoc mult.left_commute)
    finally show ?thesis .
  qed
qed


lemma mul_mod_p_correct: "unat a \<le> p64 \<Longrightarrow> unat (mul_mod_p a b) = unat a * unat b mod p64"
  by (simp add: mul_mod_p_def mul_loop_correct p64_def)

lemma pow_mod_p_correct:
  assumes "unat a \<le> p64"
  shows "b \<noteq> 0 \<Longrightarrow> \<exists>r. pow_mod_p a b = Some r \<and> unat r \<le> p64 \<and> (b = 1 \<and> r = a \<or> b \<noteq> 1 \<and> unat r < p64) \<and>
    unat r mod p64 = unat a ^ unat b mod p64"
proof (induction "unat b" arbitrary: b rule: less_induct)
  case less
  show ?case
  proof (cases "b = 1")
    case True
    then show ?thesis using assms by (simp add: pow_mod_p.simps)
  next
    case False
    define h where "h = drop_bit 1 b"
    have h: "unat h = unat b div 2" by (simp add: h_def drop_bit_Suc unat_div)
    have b2: "2 \<le> unat b" using less.prems False
      by (metis One_nat_def Suc_leI le_neq_implies_less nat_neq_iff not_less_eq_eq numeral_2_eq_2 unat_1 unat_gt_0 word_unat_eq_iff)
    then have "unat h < unat b" "h \<noteq> 0" using h by (auto simp: word_unat_eq_iff)
    then obtain t where t: "pow_mod_p a h = Some t" "unat t \<le> p64" "unat t mod p64 = unat a ^ unat h mod p64"
      using less.hyps by blast
    define t2 where "t2 = mul_mod_p t t"
    have t2: "unat t2 = unat a ^ (2 * unat h) mod p64"
    proof -
      have "unat t2 = (unat t mod p64) * (unat t mod p64) mod p64"
        by (simp add: t2_def mul_mod_p_correct t(2) mod_simps)
      also have "\<dots> = unat a ^ (2 * unat h) mod p64"
        unfolding t(3) by (simp add: mod_simps mult_2 power_add)
      finally show ?thesis .
    qed
    have p0: "0 < p64" by (simp add: p64_def)
    have e: "pow_mod_p a b = Some (if b mod 2 \<noteq> 0 then mul_mod_p t2 a else t2)"
      using False t(1) by (subst pow_mod_p.simps) (simp add: h_def t2_def Let_def)
    have t2b: "unat t2 \<le> p64" using t2 p0 by (metis less_imp_le mod_less_divisor)
    have "unat (if b mod 2 \<noteq> 0 then mul_mod_p t2 a else t2) = unat a ^ unat b mod p64"
    proof (cases "unat b mod 2 = 1")
      case True
      then have "unat b = Suc (2 * unat h)" unfolding h by presburger
      then have "unat a ^ unat b = unat a ^ (2 * unat h) * unat a" by simp
      then show ?thesis using True odd_u64 [of b] mul_mod_p_correct [OF t2b, of a] by (simp add: t2 mod_simps)
    next
      case False
      then have "unat b = 2 * unat h" unfolding h by presburger
      then show ?thesis using False odd_u64 [of b] t2 by simp
    qed
    then show ?thesis using e False p0 by (auto simp: less_imp_le)
  qed
qed

lemma P64_mod: "a > P64 \<Longrightarrow> unat (a mod P64) < p64 \<and> unat (a mod P64) mod p64 = unat a mod p64"
  by (simp add: unat_mod) (simp add: p64_def)

lemma powmodp_correct:
  assumes "b \<noteq> 0" "a \<noteq> P64"
  shows "\<exists>r. powmodp a b = Some r \<and> unat r = unat a ^ unat b mod p64"
proof -
  define a' where "a' = (if a > P64 then a mod P64 else a)"
  have a': "unat a' < p64" "unat a' mod p64 = unat a mod p64"
    using P64_mod [of a] assms(2)
    by (auto simp: a'_def word_less_nat_alt not_less word_unat_eq_iff)
  obtain r where r: "pow_mod_p a' b = Some r" "b = 1 \<and> r = a' \<or> b \<noteq> 1 \<and> unat r < p64"
      "unat r mod p64 = unat a' ^ unat b mod p64"
    using pow_mod_p_correct [of a' b] a'(1) assms(1) by auto
  have "unat r = unat r mod p64" using r(2) a'(1) by auto
  also have "\<dots> = (unat a' mod p64) ^ unat b mod p64" unfolding r(3) by (simp add: power_mod)
  also have "\<dots> = unat a ^ unat b mod p64" unfolding a'(2) by (simp add: power_mod)
  finally show ?thesis using r(1) by (auto simp: powmodp_def a'_def)
qed


text \<open>The number in eight bytes, as \<open>read64\<close> and \<open>ldhexchange\<close> read it.\<close>

definition num64 :: "byte list \<Rightarrow> u64" where
  "num64 x = to64 (le32 x 0, le32 x 4)"

lemma le32_join:
  "le32 x i = push_bit 24 (ucast (x ! (i + 3))) OR push_bit 16 (ucast (x ! (i + 2))) OR
    push_bit 8 (ucast (x ! (i + 1))) OR ucast (x ! i)"
  by (simp only: le32_def join_le32)

lemma nth_push64: "i < 8 \<Longrightarrow> push64 v ! i = ucast (drop_bit (8 * i) v)"
  by (simp add: push64_def ucast_mask8 del: drop_bit_and)

lemma le32_push64: "le32 (push64 v) 0 = ucast v" "le32 (push64 v) 4 = ucast (drop_bit 32 v)"
proof -
  show "le32 (push64 v) 0 = ucast v"
  proof (rule bit_word_eqI)
    fix n assume "n < LENGTH(32)"
    then show "bit (le32 (push64 v) 0) n = bit (ucast v :: u32) n"
      by (simp only: le32_join bit_join32 nth_push64 bit_byte_of) (auto simp: bit_simps nth_push64 bit_byte_of bit_byte_of0)
  qed
  show "le32 (push64 v) 4 = ucast (drop_bit 32 v)"
  proof (rule bit_word_eqI)
    fix n assume "n < LENGTH(32)"
    then show "bit (le32 (push64 v) 4) n = bit (ucast (drop_bit 32 v) :: u32) n"
      by (simp only: le32_join bit_join32) (auto simp: bit_simps nth_push64 bit_byte_of)
  qed
qed

lemma num64_push64 [simp]: "num64 (push64 v) = v"
  unfolding num64_def le32_push64 to64_def fst_conv snd_conv
proof (rule bit_word_eqI)
  fix n assume "n < LENGTH(64)"
  then show "bit (ucast (ucast v :: u32) OR push_bit 32 (ucast (ucast (drop_bit 32 v) :: u32)) :: u64) n = bit v n"
    by (cases "n < 32") (auto simp: bit_simps dest: bit_imp_le_length)
qed

lemma length_push64 [simp]: "length (push64 v) = 8"
  by (simp add: push64_def)

lemma coprime_5_p64: "coprime 5 p64"
  unfolding p64_def by (simp add: coprime_iff_gcd_eq_1 gcd_non_0_nat)

lemma pow5_nonzero: "0 < n \<Longrightarrow> 5 ^ n mod p64 \<noteq> 0"
proof
  assume "5 ^ n mod p64 = 0"
  then have "p64 dvd 5 ^ n" by (simp add: mod_eq_0_iff_dvd)
  moreover have "coprime p64 (5 ^ n)"
    using coprime_5_p64 by (simp add: coprime_commute)
  ultimately have "is_unit p64" by (metis coprime_absorb_left)
  then show False by (simp add: p64_def)
qed

lemma ldhexchange_value:
  assumes "length x = 8" "num64 x \<noteq> 0"
  shows "\<exists>X. ldhexchange x = Some (Inr X) \<and> length X = 8 \<and> unat (num64 X) = 5 ^ unat (num64 x) mod p64"
proof -
  have "(5 :: u64) \<noteq> P64" by (simp add: P64_def)
  then obtain r where "powmodp 5 (num64 x) = Some r" "unat r = unat (5 :: u64) ^ unat (num64 x) mod p64"
    using powmodp_correct assms by blast
  then show ?thesis
    using assms by (auto simp: ldhexchange_def num64_def [symmetric] Let_def)
qed

lemma ldhsecret_value:
  assumes "length x = 8" "length y = 8" "num64 x \<noteq> 0" "num64 x \<noteq> P64" "num64 y \<noteq> 0"
  shows "\<exists>s. ldhsecret x y = Some (Inr s) \<and> length s = 8 \<and> unat (num64 s) = unat (num64 x) ^ unat (num64 y) mod p64 \<and> s = push64 (num64 s)"
proof -
  obtain r where "powmodp (num64 x) (num64 y) = Some r" "unat r = unat (num64 x) ^ unat (num64 y) mod p64"
    using powmodp_correct assms by blast
  then show ?thesis
    using assms by (auto simp: ldhsecret_def read64_def num64_def [symmetric])
qed

text \<open>C17: Two parties that choose secrets of eight bytes other than zero and exchange the results of
  \<open>dhexchange\<close> compute the same secret with \<open>dhsecret\<close>, namely the eight bytes of 5 raised to the
  product of the secrets modulo 18446744073709551557; no step raises an error or diverges.\<close>

theorem dh_agreement:
  assumes "length x = 8" "length y = 8" "num64 x \<noteq> 0" "num64 y \<noteq> 0"
  shows "\<exists>X Y s. ldhexchange x = Some (Inr X) \<and> ldhexchange y = Some (Inr Y) \<and>
    ldhsecret X y = Some (Inr s) \<and> ldhsecret Y x = Some (Inr s) \<and> length s = 8 \<and>
    unat (num64 s) = 5 ^ (unat (num64 x) * unat (num64 y)) mod 18446744073709551557"
proof -
  have pos: "0 < unat (num64 x)" "0 < unat (num64 y)" using assms by (simp_all add: unat_gt_0)
  obtain X where X: "ldhexchange x = Some (Inr X)" "length X = 8" "unat (num64 X) = 5 ^ unat (num64 x) mod p64"
    using ldhexchange_value assms by blast
  obtain Y where Y: "ldhexchange y = Some (Inr Y)" "length Y = 8" "unat (num64 Y) = 5 ^ unat (num64 y) mod p64"
    using ldhexchange_value assms by blast
  have ok: "num64 Z \<noteq> 0 \<and> num64 Z \<noteq> P64" if "unat (num64 Z) = 5 ^ n mod p64" "0 < n" for Z n
    using pow5_nonzero [OF that(2)] that(1) unat_P64 mod_less_divisor [of p64 "5 ^ n"]
    by (metis less_irrefl p64_def unat_eq_0 zero_less_numeral)
  obtain s where s: "ldhsecret X y = Some (Inr s)" "length s = 8" "s = push64 (num64 s)"
      "unat (num64 s) = (5 ^ unat (num64 x) mod p64) ^ unat (num64 y) mod p64"
    using ldhsecret_value [OF X(2) assms(2)] ok [OF X(3) pos(1)] assms(4) X(3) by metis
  obtain s' where s': "ldhsecret Y x = Some (Inr s')" "s' = push64 (num64 s')"
      "unat (num64 s') = (5 ^ unat (num64 y) mod p64) ^ unat (num64 x) mod p64"
    using ldhsecret_value [OF Y(2) assms(1)] ok [OF Y(3) pos(2)] assms(3) Y(3) by metis
  have v: "unat (num64 s) = 5 ^ (unat (num64 x) * unat (num64 y)) mod p64"
    using s(4) by (simp add: power_mod power_mult)
  moreover have "unat (num64 s') = 5 ^ (unat (num64 x) * unat (num64 y)) mod p64"
    using s'(3) by (simp add: power_mod mult.commute flip: power_mult)
  ultimately have "s' = s" using s(3) s'(2) by (metis word_unat_eq_iff)
  then show ?thesis
    using X(1) Y(1) s s'(1) v by (auto simp: p64_def)
qed

theorem dh_agreement_witness:
  "\<exists>X Y s. ldhexchange [3, 0, 0, 0, 0, 0, 0, 0] = Some (Inr X) \<and> ldhexchange [0, 0, 0, 0, 0, 0, 0, 255] = Some (Inr Y) \<and>
    ldhsecret X [0, 0, 0, 0, 0, 0, 0, 255] = Some (Inr s) \<and> ldhsecret Y [3, 0, 0, 0, 0, 0, 0, 0] = Some (Inr s) \<and> length s = 8 \<and>
    unat (num64 s) = 5 ^ (unat (num64 [3, 0, 0, 0, 0, 0, 0, 0]) * unat (num64 [0, 0, 0, 0, 0, 0, 0, 255])) mod 18446744073709551557"
  by (rule dh_agreement) (simp, simp, code_simp, code_simp)

text \<open>The modulus itself is not reduced.\<close>

lemma powmodp_unreduced: "powmodp P64 1 = Some P64"
  by (simp add: powmodp_def pow_mod_p.simps)

end
