(* ===== verification/Skynet_Sha1.thy ===== *)
theory Skynet_Sha1
  imports Skynet_Bytes
begin

text \<open>
  The SHA-1 digest and its keyed variant, \<open>lualib-src/lsha1.c\<close>, for a little endian machine
  (\<open>WORDS_BIGENDIAN\<close> undefined) with 64 bit \<open>size_t\<close>.  The unrolled rounds rename the five working
  variables from line to line; here the tuple rotates instead.  The second half states the digest
  of FIPS 180-1 over a whole message and shows that the incremental code computes it.
\<close>

section \<open>The context and one block\<close>

record SHA1_CTX =
  state :: "u32 list"
  count0 :: u32
  count1 :: u32
  buffer :: "byte list"

definition SHA1_DIGEST_SIZE :: nat where "SHA1_DIGEST_SIZE = 20"

definition rol :: "u32 \<Rightarrow> nat \<Rightarrow> u32" where
  "rol x n = push_bit n x OR drop_bit (32 - n) x"

text \<open>The union \<open>CHAR64LONG16\<close>, read as words.\<close>

definition block_l :: "byte list \<Rightarrow> u32 list" where
  "block_l b = map (\<lambda>i. push_bit 24 (ucast (b ! (4 * i + 3))) OR push_bit 16 (ucast (b ! (4 * i + 2))) OR
     push_bit 8 (ucast (b ! (4 * i + 1))) OR ucast (b ! (4 * i))) [0..<16]"

definition blk0 :: "nat \<Rightarrow> u32 list \<Rightarrow> u32 list" where
  "blk0 i l = l[i := (rol (l ! i) 24 AND 0xFF00FF00) OR (rol (l ! i) 8 AND 0x00FF00FF)]"

definition blk :: "nat \<Rightarrow> u32 list \<Rightarrow> u32 list" where
  "blk i l = l[i mod 16 := rol (l ! ((i + 13) mod 16) XOR l ! ((i + 8) mod 16) XOR l ! ((i + 2) mod 16) XOR l ! (i mod 16)) 1]"

type_synonym vars = "u32 \<times> u32 \<times> u32 \<times> u32 \<times> u32"

text \<open>The macros \<open>R0\<close> to \<open>R4\<close>: the new value of \<open>z\<close> uses the word of the block that the macro
  computes; the result lists the variables in the order in which the next line uses them.\<close>

definition round_step :: "u32 \<Rightarrow> u32 \<Rightarrow> u32 \<Rightarrow> vars \<Rightarrow> vars" where
  "round_step f k b s = (let (v, w, x, y, z) = s in (z + (f + b + k + rol v 5), v, rol w 30, x, y))"

definition R :: "nat \<Rightarrow> vars \<times> u32 list \<Rightarrow> vars \<times> u32 list" where
  "R i p =
     (let (s, l) = p; (v, w, x, y, z) = s; l' = (if i < 16 then blk0 i l else blk i l); b = l' ! (i mod 16) in
      (if i < 20 then round_step ((w AND (x XOR y)) XOR y) 0x5A827999 b s
       else if i < 40 then round_step (w XOR x XOR y) 0x6ED9EBA1 b s
       else if i < 60 then round_step (((w OR x) AND y) OR (w AND x)) 0x8F1BBCDC b s
       else round_step (w XOR x XOR y) 0xCA62C1D6 b s, l'))"

definition SHA1_Transform :: "u32 list \<Rightarrow> byte list \<Rightarrow> u32 list" where
  "SHA1_Transform st b =
     (let (a, b, c, d, e) = fst (fold R [0..<80] ((st ! 0, st ! 1, st ! 2, st ! 3, st ! 4), block_l b)) in
      [st ! 0 + a, st ! 1 + b, st ! 2 + c, st ! 3 + d, st ! 4 + e])"

section \<open>Init, update, final\<close>

definition sat_SHA1_Init :: "byte list \<Rightarrow> SHA1_CTX" where
  "sat_SHA1_Init garbage = \<lparr>state = [0x67452301, 0xEFCDAB89, 0x98BADCFE, 0x10325476, 0xC3D2E1F0],
     count0 = 0, count1 = 0, buffer = garbage\<rparr>"

text \<open>\<open>memcpy(&buffer[j], data, n)\<close>.\<close>

definition copy_at :: "byte list \<Rightarrow> nat \<Rightarrow> byte list \<Rightarrow> byte list" where
  "copy_at buf j d = take j buf @ d @ drop (j + length d) buf"

text \<open>The loop \<open>for ( ; i + 63 < len; i += 64)\<close>: the new state and the rest of the data.\<close>

fun transform_loop :: "u32 list \<Rightarrow> byte list \<Rightarrow> u32 list \<times> byte list" where
  "transform_loop st d = (if 63 < length d then transform_loop (SHA1_Transform st (take 64 d)) (drop 64 d) else (st, d))"

declare transform_loop.simps [simp del]

text \<open>\<open>len << 3\<close> is a \<open>size_t\<close>; \<open>count[0]\<close> is truncated before it is compared with it.\<close>

definition count_update :: "u32 \<Rightarrow> u32 \<Rightarrow> u64 \<Rightarrow> u32 \<times> u32" where
  "count_update c0 c1 len =
     (let c0' = c0 + ucast (push_bit 3 len); c1' = (if (ucast c0' :: u64) < push_bit 3 len then c1 + 1 else c1)
      in (c0', c1' + ucast (drop_bit 29 len)))"

definition sat_SHA1_Update :: "SHA1_CTX \<Rightarrow> byte list \<Rightarrow> SHA1_CTX" where
  "sat_SHA1_Update ctx data =
     (let j = unat (drop_bit 3 (count0 ctx) AND 63); len = length data;
          (c0, c1) = count_update (count0 ctx) (count1 ctx) (of_nat len) in
      if j + len > 63 then
        (let buf = copy_at (buffer ctx) j (take (64 - j) data);
             (st, rest) = transform_loop (SHA1_Transform (state ctx) buf) (drop (64 - j) data)
         in \<lparr>state = st, count0 = c0, count1 = c1, buffer = copy_at buf 0 rest\<rparr>)
      else \<lparr>state = state ctx, count0 = c0, count1 = c1, buffer = copy_at (buffer ctx) j data\<rparr>)"

lemma update_count: "count0 (sat_SHA1_Update ctx d) = count0 ctx + ucast (push_bit 3 (of_nat (length d) :: u64))"
  by (simp add: sat_SHA1_Update_def count_update_def Let_def split_beta)

text \<open>The loop that pads with zeros, until eight bytes are left in the block.\<close>

definition fill :: "u32 \<Rightarrow> nat" where
  "fill c = (unat c div 8) mod 64"

lemma fill_mask: "c AND 504 = 448 \<longleftrightarrow> fill c = 56"
proof -
  have m: "(504 :: u32) = push_bit 3 (mask 6)" by (simp add: mask_eq_exp_minus_1)
  have "c AND 504 = push_bit 3 (drop_bit 3 c AND mask 6)"
    unfolding m by (rule bit_word_eqI) (auto simp: bit_simps)
  also have "unat \<dots> = 8 * fill c"
  proof -
    have "unat (drop_bit 3 c AND mask 6) = fill c"
      by (simp only: fill_def flip: take_bit_eq_mask)
        (simp add: take_bit_eq_mod drop_bit_eq_div unat_div unat_mod)
    moreover have "fill c < 64" by (simp add: fill_def)
    ultimately show ?thesis
      by (simp add: push_bit_eq_mult unat_word_ariths)
  qed
  finally have "unat (c AND 504) = 8 * fill c" .
  then show ?thesis by (auto simp: word_unat_eq_iff)
qed

lemma fill_add: "fill (c + 8) = (fill c + 1) mod 64"
proof -
  have "unat (c + 8) = (unat c + 8) mod 2 ^ 32" by (simp add: unat_word_ariths)
  then have "fill (c + 8) = ((unat c + 8) mod 4294967296 div 8) mod 64" by (simp add: fill_def)
  also have "\<dots> = ((unat c + 8) div 8) mod 64"
    using mod_mult2_eq [of "unat c + 8" 8 536870912] by (simp add: mod_mod_cancel)
  also have "\<dots> = Suc (unat c div 8) mod 64" by (metis Suc_eq_plus1 div_add_self2 zero_neq_numeral)
  also have "\<dots> = (fill c + 1) mod 64" by (simp add: fill_def mod_simps)
  finally show ?thesis .
qed


lemma fill_step: "fill c \<noteq> 56 \<Longrightarrow> (120 - Suc (fill c) mod 64) mod 64 < (120 - fill c) mod 64"
proof -
  have "\<forall>n \<in> set [0..<64]. n \<noteq> 56 \<longrightarrow> (120 - Suc n mod 64) mod 64 < (120 - n :: nat) mod 64" by code_simp
  then show "fill c \<noteq> 56 \<Longrightarrow> (120 - Suc (fill c) mod 64) mod 64 < (120 - fill c) mod 64"
    by (simp add: fill_def)
qed

function pad_zeros :: "SHA1_CTX \<Rightarrow> SHA1_CTX" where
  "pad_zeros ctx = (if count0 ctx AND 504 \<noteq> 448 then pad_zeros (sat_SHA1_Update ctx [0]) else ctx)"
  by pat_completeness auto
termination
  by (relation "measure (\<lambda>ctx. (120 - fill (count0 ctx)) mod 64)")
    (auto simp: update_count fill_mask fill_add fill_step)

declare pad_zeros.simps [simp del]

definition finalcount :: "SHA1_CTX \<Rightarrow> byte list" where
  "finalcount ctx = map (\<lambda>i. ucast (drop_bit ((3 - i mod 4) * 8) (if i \<ge> 4 then count0 ctx else count1 ctx) AND 255)) [0..<8]"

text \<open>The digest; the context is wiped.\<close>

definition digest_of :: "u32 list \<Rightarrow> byte list" where
  "digest_of st = map (\<lambda>i. ucast (drop_bit ((3 - i mod 4) * 8) (st ! (i div 4)) AND 255)) [0..<SHA1_DIGEST_SIZE]"

definition sat_SHA1_Final :: "SHA1_CTX \<Rightarrow> byte list" where
  "sat_SHA1_Final ctx = digest_of (state (sat_SHA1_Update (pad_zeros (sat_SHA1_Update ctx [0x80])) (finalcount ctx)))"

text \<open>\<open>garbage\<close> is the uninitialised buffer of the context.\<close>

definition lsha1 :: "byte list \<Rightarrow> byte list \<Rightarrow> byte list" where
  "lsha1 garbage b = sat_SHA1_Final (sat_SHA1_Update (sat_SHA1_Init garbage) b)"

section \<open>The keyed digest\<close>

definition BLOCKSIZE :: nat where "BLOCKSIZE = 64"

definition xor_key :: "byte list \<Rightarrow> u32 \<Rightarrow> byte list" where
  "xor_key key x = map (\<lambda>i. key ! i XOR ucast (drop_bit (8 * (i mod 4)) x)) [0..<BLOCKSIZE]"

definition lhmac_sha1 :: "byte list \<Rightarrow> byte list \<Rightarrow> byte list \<Rightarrow> byte list" where
  "lhmac_sha1 garbage key text =
     (let zero = replicate BLOCKSIZE 0;
          rkey = (if length key > BLOCKSIZE then copy_at zero 0 (lsha1 garbage key) else copy_at zero 0 key);
          rkey1 = xor_key rkey 0x5c5c5c5c;
          ctx1 = sat_SHA1_Update (sat_SHA1_Init garbage) rkey1;
          rkey2 = xor_key rkey1 (0x5c5c5c5c XOR 0x36363636);
          ctx2 = sat_SHA1_Update (sat_SHA1_Update (sat_SHA1_Init garbage) rkey2) text;
          digest2 = sat_SHA1_Final ctx2
      in sat_SHA1_Final (sat_SHA1_Update ctx1 digest2))"


section \<open>The digest of FIPS 180-1\<close>

definition sha1_f :: "nat \<Rightarrow> u32 \<Rightarrow> u32 \<Rightarrow> u32 \<Rightarrow> u32" where
  "sha1_f t x y z =
     (if t < 20 then (x AND y) OR (NOT x AND z)
      else if t < 40 then x XOR y XOR z
      else if t < 60 then (x AND y) OR (x AND z) OR (y AND z)
      else x XOR y XOR z)"

definition sha1_K :: "nat \<Rightarrow> u32" where
  "sha1_K t = (if t < 20 then 0x5A827999 else if t < 40 then 0x6ED9EBA1 else if t < 60 then 0x8F1BBCDC else 0xCA62C1D6)"

text \<open>The message schedule of a block of 64 bytes.\<close>

definition word_be :: "byte list \<Rightarrow> nat \<Rightarrow> u32" where
  "word_be b i = push_bit 24 (ucast (b ! (4 * i))) OR push_bit 16 (ucast (b ! (4 * i + 1))) OR
     push_bit 8 (ucast (b ! (4 * i + 2))) OR ucast (b ! (4 * i + 3))"

primrec sha1_sched :: "byte list \<Rightarrow> nat \<Rightarrow> u32 list" where
  "sha1_sched b 0 = []"
| "sha1_sched b (Suc t) =
     (let W = sha1_sched b t in
      W @ [if t < 16 then word_be b t else word_rotl 1 (W ! (t - 3) XOR W ! (t - 8) XOR W ! (t - 14) XOR W ! (t - 16))])"

definition sha1_W :: "byte list \<Rightarrow> nat \<Rightarrow> u32" where
  "sha1_W b t = sha1_sched b (Suc t) ! t"

definition sha1_step :: "byte list \<Rightarrow> nat \<Rightarrow> vars \<Rightarrow> vars" where
  "sha1_step b t s =
     (let (A, B, C, D, E) = s; TEMP = word_rotl 5 A + sha1_f t B C D + E + sha1_W b t + sha1_K t in
      (TEMP, A, word_rotl 30 B, C, D))"

definition sha1_block :: "u32 list \<Rightarrow> byte list \<Rightarrow> u32 list" where
  "sha1_block H b =
     (let (A, B, C, D, E) = fold (sha1_step b) [0..<80] (H ! 0, H ! 1, H ! 2, H ! 3, H ! 4) in
      [H ! 0 + A, H ! 1 + B, H ! 2 + C, H ! 3 + D, H ! 4 + E])"

text \<open>The blocks of a message and the padding.\<close>

fun sha1_blocks :: "u32 list \<Rightarrow> byte list \<Rightarrow> u32 list" where
  "sha1_blocks H m = (if length m < 64 then H else sha1_blocks (sha1_block H (take 64 m)) (drop 64 m))"

declare sha1_blocks.simps [simp del]

definition sha1_init :: "u32 list" where
  "sha1_init = [0x67452301, 0xEFCDAB89, 0x98BADCFE, 0x10325476, 0xC3D2E1F0]"

definition sha1_padded :: "byte list \<Rightarrow> byte list" where
  "sha1_padded m = m @ [0x80] @ replicate ((119 - length m mod 64) mod 64) 0 @
     map (\<lambda>i. of_nat (8 * length m div 256 ^ (7 - i))) [0..<8]"

definition sha1 :: "byte list \<Rightarrow> byte list" where
  "sha1 m = concat (map (\<lambda>w. map (\<lambda>i. ucast (drop_bit (24 - 8 * i) w)) [0..<4]) (sha1_blocks sha1_init (sha1_padded m)))"

definition hmac_sha1 :: "byte list \<Rightarrow> byte list \<Rightarrow> byte list" where
  "hmac_sha1 key m =
     (let k = (if length key > 64 then sha1 key else key); k' = k @ replicate (64 - length k) 0 in
      sha1 (map (\<lambda>x. x XOR 0x5c) k' @ sha1 (map (\<lambda>x. x XOR 0x36) k' @ m)))"

section \<open>One block\<close>

lemma rol_rotl:
  assumes "0 < n" "n < 32"
  shows "rol x n = word_rotl n x"
proof (rule bit_word_eqI)
  fix k assume k: "k < LENGTH(32)"
  have "bit (word_rotl n x) k = bit x ((k + (32 - n)) mod 32)"
    using k assms by (simp add: bit_word_rotl_iff)
  also have "(k + (32 - n)) mod 32 = (if n \<le> k then k - n else 32 - n + k)"
    using assms k by (auto simp: mod_if)
  also have "bit x \<dots> = bit (rol x n) k"
    using assms k bit_imp_le_length [of x "32 - n + k"]
    by (simp add: rol_def bit_or_iff bit_push_bit_iff bit_drop_bit_eq) auto
  finally show "bit (rol x n) k = bit (word_rotl n x) k" by simp
qed

lemma length_sched [simp]: "length (sha1_sched b t) = t"
  by (induction t) (simp_all add: Let_def)

lemma sched_nth: "t < n \<Longrightarrow> sha1_sched b n ! t = sha1_W b t"
proof (induction n)
  case (Suc n)
  show ?case
  proof (cases "t = n")
    case True
    then show ?thesis by (simp add: sha1_W_def)
  next
    case False
    with Suc show ?thesis by (simp add: Let_def nth_append)
  qed
qed simp

lemma sha1_W_rec:
  "sha1_W b t = (if t < 16 then word_be b t
     else word_rotl 1 (sha1_W b (t - 3) XOR sha1_W b (t - 8) XOR sha1_W b (t - 14) XOR sha1_W b (t - 16)))"
  by (simp add: sha1_W_def [of b t] Let_def nth_append sched_nth)

lemma swap_bytes:
  fixes a b c d :: byte
  defines "w \<equiv> push_bit 24 (ucast d) OR push_bit 16 (ucast c) OR push_bit 8 (ucast b) OR ucast a :: u32"
  shows "(rol w 24 AND 0xFF00FF00) OR (rol w 8 AND 0x00FF00FF) =
    push_bit 24 (ucast a) OR push_bit 16 (ucast b) OR push_bit 8 (ucast c) OR ucast d"
proof (rule bit_word_eqI)
  fix n assume n: "n < LENGTH(32)"
  have m1: "bit (0xFF00FF00 :: u32) n \<longleftrightarrow> (8 \<le> n \<and> n < 16) \<or> 24 \<le> n"
   and m2: "bit (0x00FF00FF :: u32) n \<longleftrightarrow> n < 8 \<or> (16 \<le> n \<and> n < 24)"
  proof -
    have "\<forall>n \<in> set [0..<32]. (bit (0xFF00FF00 :: u32) n \<longleftrightarrow> (8 \<le> n \<and> n < 16) \<or> 24 \<le> n)" by code_simp
    then show "bit (0xFF00FF00 :: u32) n \<longleftrightarrow> (8 \<le> n \<and> n < 16) \<or> 24 \<le> n" using n by simp
    have "\<forall>n \<in> set [0..<32]. (bit (0x00FF00FF :: u32) n \<longleftrightarrow> n < 8 \<or> (16 \<le> n \<and> n < 24))" by code_simp
    then show "bit (0x00FF00FF :: u32) n \<longleftrightarrow> n < 8 \<or> (16 \<le> n \<and> n < 24)" using n by simp
  qed
  have r: "bit (rol w 24) n = bit w ((n + 8) mod 32)" "bit (rol w 8) n = bit w ((n + 24) mod 32)"
    using n by (simp_all add: rol_rotl bit_word_rotl_iff)
  have "n < 8 \<or> 8 \<le> n \<and> n < 16 \<or> 16 \<le> n \<and> n < 24 \<or> 24 \<le> n" by linarith
  then show "bit ((rol w 24 AND 0xFF00FF00) OR (rol w 8 AND 0x00FF00FF)) n =
    bit (push_bit 24 (ucast a) OR push_bit 16 (ucast b) OR push_bit 8 (ucast c) OR ucast d :: u32) n"
    unfolding bit_or_iff [of "_ AND _" "_ AND _"] bit_and_iff m1 m2 r unfolding w_def bit_join32 using n by (auto simp: mod_if)
qed

lemma choose_eq: "(w AND (x XOR y)) XOR y = (w AND x) OR (NOT w AND (y :: u32))"
  by (rule bit_word_eqI) (auto simp: bit_simps)

lemma major_eq: "((w OR x) AND y) OR (w AND x) = (w AND x) OR (w AND y) OR (x AND (y :: u32))"
  by (rule bit_word_eqI) (auto simp: bit_simps)

text \<open>The sixteen words of the block before round \<open>t\<close>.\<close>

definition ring_inv :: "byte list \<Rightarrow> nat \<Rightarrow> u32 list \<Rightarrow> bool" where
  "ring_inv b t l \<longleftrightarrow> length l = 16 \<and> (\<forall>s < t. t \<le> s + 16 \<longrightarrow> l ! (s mod 16) = sha1_W b s) \<and>
     (\<forall>s < 16. t \<le> s \<longrightarrow> l ! s = block_l b ! s)"

lemma blk0_step:
  assumes "ring_inv b t l" "t < 16"
  shows "ring_inv b (Suc t) (blk0 t l) \<and> blk0 t l ! (t mod 16) = sha1_W b t"
proof -
  have "l ! t = block_l b ! t" using assms by (simp add: ring_inv_def)
  then have v: "(rol (l ! t) 24 AND 0xFF00FF00) OR (rol (l ! t) 8 AND 0x00FF00FF) = sha1_W b t"
    using assms(2) by (simp only: block_l_def length_map length_upt nth_map nth_upt swap_bytes) (simp add: swap_bytes sha1_W_rec word_be_def)
  then show ?thesis
    using assms by (auto simp: ring_inv_def blk0_def nth_list_update less_Suc_eq)
qed


lemma ring_neq: "s < t \<Longrightarrow> t < s + 16 \<Longrightarrow> s mod 16 \<noteq> t mod (16 :: nat)"
proof
  assume "s < t" "t < s + 16" "s mod 16 = t mod 16"
  then have "16 dvd t - s" by (metis mod_eq_dvd_iff_nat less_imp_le)
  then show False using \<open>s < t\<close> \<open>t < s + 16\<close> by (auto dest: dvd_imp_le)
qed

lemma blk_step:
  assumes "ring_inv b t l" "16 \<le> t"
  shows "ring_inv b (Suc t) (blk t l) \<and> blk t l ! (t mod 16) = sha1_W b t"
proof -
  have e: "l ! (s mod 16) = sha1_W b s" if "s < t" "t \<le> s + 16" for s
    using assms(1) that by (simp add: ring_inv_def)
  have m: "(t + 13) mod 16 = (t - 3) mod 16" "(t + 8) mod 16 = (t - 8) mod 16" "(t + 2) mod 16 = (t - 14) mod 16" "t mod 16 = (t - 16) mod 16"
    using assms(2) mod_add_self2 [of "t - 3" 16] mod_add_self2 [of "t - 8" 16] mod_add_self2 [of "t - 14" 16] mod_add_self2 [of "t - 16" 16]
    by (simp_all add: add.commute)
  have "l ! ((t + 13) mod 16) = sha1_W b (t - 3)" "l ! ((t + 8) mod 16) = sha1_W b (t - 8)"
    "l ! ((t + 2) mod 16) = sha1_W b (t - 14)" "l ! (t mod 16) = sha1_W b (t - 16)"
    unfolding m by (rule e; use assms(2) in simp)+
  then have v: "blk t l = l[t mod 16 := sha1_W b t]"
    using assms(2) by (simp add: blk_def rol_rotl sha1_W_rec [of b t])
  have "ring_inv b (Suc t) (l[t mod 16 := sha1_W b t])"
    using assms by (auto simp: ring_inv_def nth_list_update less_Suc_eq ring_neq dest!: ring_neq)
  then show ?thesis using assms(1) by (simp add: v ring_inv_def)
qed

lemma R_step:
  assumes "ring_inv b t l"
  shows "\<exists>l'. R t (s, l) = (sha1_step b t s, l') \<and> ring_inv b (Suc t) l'"
proof -
  define l' where "l' = (if t < 16 then blk0 t l else blk t l)"
  have l': "ring_inv b (Suc t) l'" "l' ! (t mod 16) = sha1_W b t"
    using blk0_step [OF assms] blk_step [OF assms] by (auto simp: l'_def)
  obtain v w x y z where s: "s = (v, w, x, y, z)" by (cases s)
  have "R t (s, l) = (sha1_step b t s, l')"
    unfolding R_def l'_def [symmetric] s
    using l'(2) blk_step [OF assms] by (auto simp: Let_def l'_def [symmetric] round_step_def sha1_step_def sha1_f_def sha1_K_def rol_rotl choose_eq major_eq add.commute add.left_commute)
  then show ?thesis using l'(1) by blast
qed

lemma R_fold:
  "\<exists>l'. fold R [0..<t] (s, block_l b) = (fold (sha1_step b) [0..<t] s, l') \<and> ring_inv b t l'"
proof (induction t)
  case 0
  have "ring_inv b 0 (block_l b)" by (simp add: ring_inv_def block_l_def)
  then show ?case by simp
next
  case (Suc t)
  then obtain l where "fold R [0..<t] (s, block_l b) = (fold (sha1_step b) [0..<t] s, l)" "ring_inv b t l" by blast
  then show ?case using R_step [of b t l "fold (sha1_step b) [0..<t] s"] by auto
qed

lemma transform_block: "SHA1_Transform st b = sha1_block st b"
  using R_fold [where ?t = 80 and ?b = b] unfolding SHA1_Transform_def sha1_block_def by (metis (no_types, lifting) fst_conv)


section \<open>The incremental digest\<close>

definition leftover :: "byte list \<Rightarrow> byte list" where
  "leftover m = drop (64 * (length m div 64)) m"

lemma length_leftover [simp]: "length (leftover m) = length m mod 64"
  by (simp add: leftover_def minus_mult_div_eq_mod)

lemma leftover_append: "64 dvd length a \<Longrightarrow> leftover (a @ x) = leftover x"
  by (auto simp: leftover_def dvd_def)

lemma leftover_short: "length x < 64 \<Longrightarrow> leftover x = x"
  by (simp add: leftover_def)

lemma split_leftover: "\<exists>a. m = a @ leftover m \<and> 64 dvd length a"
  by (rule exI [of _ "take (64 * (length m div 64)) m"]) (simp add: leftover_def min_absorb2)

lemma sha1_blocks_short: "length x < 64 \<Longrightarrow> sha1_blocks H x = H"
  by (simp add: sha1_blocks.simps)

lemma sha1_blocks_cons: "length b = 64 \<Longrightarrow> sha1_blocks H (b @ m) = sha1_blocks (sha1_block H b) m"
  by (subst sha1_blocks.simps) simp

lemma sha1_blocks_append: "64 dvd length a \<Longrightarrow> sha1_blocks H (a @ x) = sha1_blocks (sha1_blocks H a) x"
proof (induction H a rule: sha1_blocks.induct)
  case (1 H a)
  show ?case
  proof (cases "length a < 64")
    case True
    then have "a = []" using 1(2) by (auto simp: dvd_def)
    then show ?thesis by (simp add: sha1_blocks_short)
  next
    case False
    then have "sha1_blocks H (take 64 a @ (drop 64 a @ x)) = sha1_blocks (sha1_block H (take 64 a)) (drop 64 a @ x)"
      by (intro sha1_blocks_cons) simp
    moreover have "64 dvd length (drop 64 a)" using 1(2) by (simp add: dvd_diff_nat)
    ultimately show ?thesis
      using False 1(1) [OF False] by (simp add: sha1_blocks.simps [of H a] flip: append.assoc)
  qed
qed

lemma transform_loop_eq: "transform_loop st d = (sha1_blocks st d, leftover d)"
proof (induction st d rule: transform_loop.induct)
  case (1 st d)
  show ?case
  proof (cases "63 < length d")
    case True
    have "leftover (take 64 d @ drop 64 d) = leftover (drop 64 d)"
      using True by (intro leftover_append) (simp add: min_absorb2)
    then show ?thesis using True 1
      by (simp add: transform_loop.simps [of st d] sha1_blocks.simps [of st d] transform_block)
  qed (simp add: transform_loop.simps [of st d] sha1_blocks_short leftover_short)
qed

definition sha1_inv :: "byte list \<Rightarrow> SHA1_CTX \<Rightarrow> bool" where
  "sha1_inv m ctx \<longleftrightarrow> state ctx = sha1_blocks sha1_init m \<and> length (buffer ctx) = 64 \<and>
     take (length m mod 64) (buffer ctx) = leftover m \<and> count0 ctx = of_nat (8 * length m)"

lemma bits_len: "ucast (push_bit 3 (of_nat n :: u64)) = (of_nat (8 * n) :: u32)"
proof -
  have "push_bit 3 (of_nat n :: u64) = of_nat (8 * n)" by (simp add: push_bit_eq_mult mult.commute)
  moreover have "ucast (of_nat k :: u64) = (of_nat k :: u32)" for k
    by (simp add: word_unat_eq_iff unsigned_ucast_eq unat_of_nat take_bit_eq_mod mod_mod_cancel)
  ultimately show ?thesis by (simp only:)
qed

lemma offset_len: "unat (drop_bit 3 (of_nat (8 * n) :: u32) AND 63) = n mod 64"
proof -
  have m: "(63 :: u32) = mask 6" by (simp add: mask_eq_exp_minus_1)
  have "unat (drop_bit 3 (of_nat (8 * n) :: u32) AND 63) = ((8 * n) mod 2 ^ 32 div 8) mod 64"
    unfolding m by (simp only: flip: take_bit_eq_mask)
      (simp add: take_bit_eq_mod drop_bit_eq_div unat_div unat_mod unat_of_nat del: of_nat_mult)
  also have "\<dots> = n mod 64"
    using mod_mult2_eq [of "8 * n" 8 536870912] by (simp add: mod_mod_cancel)
  finally show ?thesis .
qed

lemma copy_at_prefix:
  assumes "j + length d \<le> length buf" "take j buf = r" "j \<le> length buf"
  shows "take (j + length d) (copy_at buf j d) = r @ d" "length (copy_at buf j d) = length buf"
  using assms by (auto simp: copy_at_def)

lemma update_inv:
  assumes "sha1_inv m ctx"
  shows "sha1_inv (m @ d) (sat_SHA1_Update ctx d)"
proof -
  define j where "j = length m mod 64"
  obtain a where a: "m = a @ leftover m" "64 dvd length a" using split_leftover by blast
  have inv: "state ctx = sha1_blocks sha1_init a" "length (buffer ctx) = 64" "take j (buffer ctx) = leftover m"
      "count0 ctx = of_nat (8 * length m)" "length (leftover m) = j" "j < 64"
    using assms a sha1_blocks_append [of a sha1_init "leftover m"]
    by (simp_all add: sha1_inv_def j_def sha1_blocks_short)
  have st: "sha1_blocks sha1_init (m @ d) = sha1_blocks (state ctx) (leftover m @ d)"
   and lo: "leftover (m @ d) = leftover (leftover m @ d)"
    using a inv(1) sha1_blocks_append [of a _ "leftover m @ d"] leftover_append [of a "leftover m @ d"] by (metis append.assoc)+
  have c: "count0 (sat_SHA1_Update ctx d) = of_nat (8 * length (m @ d))"
    by (simp add: update_count inv(4) bits_len distrib_left)
  have j: "unat (drop_bit 3 (count0 ctx) AND 63) = j" by (simp only: inv(4) offset_len j_def)
  show ?thesis
  proof (cases "j + length d > 63")
    case True
    define buf where "buf = copy_at (buffer ctx) j (take (64 - j) d)"
    have lt: "length (take (64 - j) d) = 64 - j" using True inv(6) by simp
    have buf: "buf = leftover m @ take (64 - j) d"
      using copy_at_prefix [of j "take (64 - j) d" "buffer ctx" "leftover m"] inv lt by (simp add: buf_def)
    have b64: "length buf = 64" using lt inv by (simp add: buf)
    have eq: "leftover m @ d = buf @ drop (64 - j) d" by (simp add: buf)
    have s: "state (sat_SHA1_Update ctx d) = sha1_blocks (sha1_block (state ctx) buf) (drop (64 - j) d)"
     and b: "buffer (sat_SHA1_Update ctx d) = copy_at buf 0 (leftover (drop (64 - j) d))"
      using True by (simp_all add: sat_SHA1_Update_def j Let_def split_beta transform_loop_eq transform_block flip: buf_def)
    have lo': "leftover (m @ d) = leftover (drop (64 - j) d)"
      using lo eq leftover_append [of buf] b64 by simp
    have "length (m @ d) mod 64 = length (leftover (drop (64 - j) d))" by (metis length_leftover lo')
    then show ?thesis
      using copy_at_prefix [of 0 "leftover (drop (64 - j) d)" buf "[]"] b64 c s b lo' st eq sha1_blocks_cons [OF b64]
      by (simp add: sha1_inv_def)
  next
    case False
    then have sh: "length (leftover m @ d) < 64" using inv by simp
    have s: "state (sat_SHA1_Update ctx d) = state ctx"
     and b: "buffer (sat_SHA1_Update ctx d) = copy_at (buffer ctx) j d"
      using False by (simp_all add: sat_SHA1_Update_def j Let_def split_beta)
    have "length (m @ d) mod 64 = j + length d" using lo leftover_short [OF sh] inv by (metis length_append length_leftover)
    then show ?thesis
      using copy_at_prefix [of j d "buffer ctx" "leftover m"] inv False c s b lo leftover_short [OF sh] st sha1_blocks_short [OF sh]
      by (simp add: sha1_inv_def)
  qed
qed


lemma fill_len: "fill (of_nat (8 * n)) = n mod 64"
  using mod_mult2_eq [of "8 * n" 8 536870912]
  by (simp add: fill_def unat_of_nat mod_mod_cancel del: of_nat_mult)

lemma pad_zeros_inv:
  "sha1_inv m ctx \<Longrightarrow> sha1_inv (m @ replicate ((120 - length m mod 64) mod 64) 0) (pad_zeros ctx)"
proof (induction ctx arbitrary: m rule: pad_zeros.induct)
  case (1 ctx)
  define n where "n = length m mod 64"
  have f: "fill (count0 ctx) = n"
    using 1(2) by (simp add: sha1_inv_def fill_len n_def del: of_nat_mult)
  show ?case
  proof (cases "n = 56")
    case True
    then show ?thesis using 1(2) f by (subst pad_zeros.simps) (simp add: fill_mask n_def [symmetric])
  next
    case False
    have "\<forall>n \<in> set [0..<64]. n \<noteq> 56 \<longrightarrow> Suc ((120 - Suc n mod 64) mod 64) = (120 - n :: nat) mod 64" by code_simp
    then have k: "Suc ((120 - Suc n mod 64) mod 64) = (120 - n) mod 64" using False by (simp add: n_def)
    have "sha1_inv ((m @ [0]) @ replicate ((120 - length (m @ [0]) mod 64) mod 64) 0) (pad_zeros (sat_SHA1_Update ctx [0]))"
      using False f by (intro 1(1) update_inv 1(2)) (simp add: fill_mask)
    moreover have "length (m @ [0]) mod 64 = Suc n mod 64" by (simp add: n_def mod_Suc_eq)
    ultimately show ?thesis
      using False f k by (subst pad_zeros.simps) (simp add: fill_mask n_def [symmetric] flip: replicate_Suc)
  qed
qed

lemma length_state: "length H = 5 \<Longrightarrow> length (sha1_blocks H m) = 5"
  by (induction H m rule: sha1_blocks.induct) (subst sha1_blocks.simps, simp add: sha1_block_def Let_def split_beta)

lemma digest_of_eq:
  assumes "length st = 5"
  shows "digest_of st = concat (map (\<lambda>w. map (\<lambda>i. ucast (drop_bit (24 - 8 * i) w)) [0..<4]) st)"
proof -
  obtain a b c d e where "st = [a, b, c, d, e]"
    using assms by (auto simp: length_Suc_conv numeral_eq_Suc)
  moreover have "[0..<20] = [0, 1, 2, 3, 4, 5, 6, 7, 8, 9, 10, 11, 12, 13, 14, 15, 16, 17, 18, 19 :: nat]" "[0..<4] = [0, 1, 2, 3 :: nat]"
    by (simp_all add: upt_rec)
  ultimately show ?thesis
    unfolding digest_of_def SHA1_DIGEST_SIZE_def ucast_mask8 by simp
qed

lemma count1_update:
  assumes "count0 ctx = of_nat (8 * n)" "n + length d < 2 ^ 29"
  shows "count1 (sat_SHA1_Update ctx d) = count1 ctx"
proof -
  have "unat (push_bit 3 (of_nat (length d) :: u64)) = 8 * length d"
    using assms(2) by (simp add: push_bit_eq_mult unat_word_ariths unat_of_nat mult.commute)
  moreover have "unat (count0 ctx + ucast (push_bit 3 (of_nat (length d) :: u64))) = 8 * (n + length d)"
  proof -
    have "count0 ctx + ucast (push_bit 3 (of_nat (length d) :: u64)) = of_nat (8 * (n + length d))"
      by (simp add: bits_len assms(1) distrib_left)
    then show ?thesis using assms(2) by (simp only: unat_of_nat) simp
  qed
  ultimately have "\<not> ucast (count0 ctx + ucast (push_bit 3 (of_nat (length d) :: u64))) < push_bit 3 (of_nat (length d) :: u64)"
    using assms(2) by (simp add: word_less_nat_alt unsigned_ucast_eq take_bit_eq_mod)
  moreover have "drop_bit 29 (of_nat (length d) :: u64) = 0"
    using assms(2) by (simp add: word_unat_eq_iff drop_bit_eq_div unat_div unat_of_nat)
  ultimately show ?thesis
    by (simp add: sat_SHA1_Update_def count_update_def Let_def split_beta)
qed


lemma finalcount_eq:
  assumes "count0 ctx = of_nat (8 * n)" "count1 ctx = 0" "n < 2 ^ 29"
  shows "finalcount ctx = map (\<lambda>i. of_nat (8 * n div 256 ^ (7 - i))) [0..<8]"
proof (unfold finalcount_def, rule map_cong [OF refl])
  fix i assume "i \<in> set [0..<8 :: nat]"
  then have i: "i < 8" by simp
  show "ucast (drop_bit ((3 - i mod 4) * 8) (if i \<ge> 4 then count0 ctx else count1 ctx) AND 255) = (of_nat (8 * n div 256 ^ (7 - i)) :: byte)"
  proof (cases "4 \<le> i")
    case True
    have "(3 - i mod 4) * 8 = 8 * (7 - i)" using True i by (simp add: mod_if)
    moreover have "(256 :: nat) ^ (7 - i) = 2 ^ (8 * (7 - i))" by (simp add: power_mult)
    moreover have "unat (of_nat (8 * n) :: u32) = 8 * n" using assms(3) by (simp add: unat_of_nat del: of_nat_mult)
    moreover from this have "unat (drop_bit k (of_nat (8 * n) :: u32)) = 8 * n div 2 ^ k" for k
      by (simp only: unat_drop_bit_eq) (simp only: drop_bit_eq_div)
    ultimately show ?thesis
      using True unfolding ucast_mask8
      by (simp add: assms(1) word_unat_eq_iff unsigned_ucast_eq take_bit_eq_mod unat_of_nat mult.commute del: of_nat_mult)
  next
    case False
    then have "7 - i = 4 + (3 - i)" by simp
    moreover have "(256 :: nat) ^ (4 + (3 - i)) = 2 ^ 32 * 256 ^ (3 - i)" by (simp only: power_add) simp
    ultimately have "(256 :: nat) ^ (7 - i) = 2 ^ 32 * 256 ^ (3 - i)" by (simp only:)
    moreover have "(2 :: nat) ^ 32 * 1 \<le> 2 ^ 32 * 256 ^ (3 - i)" by (intro mult_le_mono2) simp
    moreover have "8 * n < 2 ^ 32 * 1" using assms(3) by simp
    ultimately have "8 * n < 256 ^ (7 - i)" by linarith
    then show ?thesis using False by (simp add: assms(2))
  qed
qed


lemma final_eq:
  assumes "sha1_inv m ctx" "count1 ctx = 0" "length m < 2 ^ 29"
  shows "sat_SHA1_Final ctx = sha1 m"
proof -
  define k where "k = (119 - length m mod 64) mod 64"
  have "\<forall>n \<in> set [0..<64]. (120 - Suc n mod 64) mod 64 = (119 - n :: nat) mod 64" by code_simp
  then have "(120 - Suc (length m mod 64) mod 64) mod 64 = k" by (simp add: k_def)
  then have k: "(120 - length (m @ [0x80]) mod 64) mod 64 = k" by (simp add: mod_Suc_eq)
  have fc: "finalcount ctx = map (\<lambda>i. of_nat (8 * length m div 256 ^ (7 - i))) [0..<8]"
    by (rule finalcount_eq) (use assms in \<open>simp_all add: sha1_inv_def\<close>)
  have "sha1_inv (((m @ [0x80]) @ replicate k 0) @ finalcount ctx)
      (sat_SHA1_Update (pad_zeros (sat_SHA1_Update ctx [0x80])) (finalcount ctx))"
    using pad_zeros_inv [OF update_inv [OF assms(1), of "[0x80]"]] unfolding k by (rule update_inv)
  then have "state (sat_SHA1_Update (pad_zeros (sat_SHA1_Update ctx [0x80])) (finalcount ctx)) = sha1_blocks sha1_init (sha1_padded m)"
    by (simp add: sha1_inv_def sha1_padded_def fc k_def)
  then show ?thesis
    by (simp add: sat_SHA1_Final_def sha1_def digest_of_eq length_state sha1_init_def)
qed

lemma init_inv: "length garbage = 64 \<Longrightarrow> sha1_inv [] (sat_SHA1_Init garbage)"
  by (simp add: sha1_inv_def sat_SHA1_Init_def sha1_init_def sha1_blocks_short leftover_def)

lemma lsha1_eq:
  assumes "length garbage = 64" "length m < 2 ^ 29"
  shows "lsha1 garbage m = sha1 m"
  unfolding lsha1_def
proof (rule final_eq)
  show "sha1_inv m (sat_SHA1_Update (sat_SHA1_Init garbage) m)"
    using update_inv [OF init_inv [OF assms(1)]] by simp
  show "count1 (sat_SHA1_Update (sat_SHA1_Init garbage) m) = 0"
    using count1_update [of "sat_SHA1_Init garbage" 0 m] assms(2) by (simp add: sat_SHA1_Init_def)
qed (rule assms(2))

lemma length_sha1: "length (sha1 m) = 20"
  using length_state [of sha1_init "sha1_padded m"]
  by (simp add: sha1_def length_concat o_def sha1_init_def sum_list_triv)

lemma xor_key_uniform:
  assumes "length key = 64" "\<And>i. i < 4 \<Longrightarrow> ucast (drop_bit (8 * i) x) = (c :: byte)"
  shows "xor_key key x = map (\<lambda>b. b XOR c) key"
  by (rule nth_equalityI) (simp_all add: xor_key_def BLOCKSIZE_def assms)

lemma lhmac_sha1_eq:
  assumes "length garbage = 64" "length key < 2 ^ 29" "length text + 64 < 2 ^ 29"
  shows "lhmac_sha1 garbage key text = hmac_sha1 key text"
proof -
  define k where "k = (if length key > 64 then sha1 key else key)"
  define k' where "k' = k @ replicate (64 - length k) 0"
  have lk: "length k \<le> 64" by (simp add: k_def length_sha1)
  then have lk': "length k' = 64" by (simp add: k'_def)
  have rkey: "(if length key > BLOCKSIZE then copy_at (replicate BLOCKSIZE 0) 0 (lsha1 garbage key) else copy_at (replicate BLOCKSIZE 0) 0 key) = k'"
    using lk assms by (auto simp: k'_def k_def copy_at_def BLOCKSIZE_def lsha1_eq)
  have u4: "i < 4 \<Longrightarrow> i = 0 \<or> i = 1 \<or> i = 2 \<or> i = (3 :: nat)" for i by linarith
  have k1: "xor_key k' 0x5c5c5c5c = map (\<lambda>b. b XOR 0x5c) k'"
    by (rule xor_key_uniform [OF lk']) (auto dest!: u4)
  have k2: "xor_key (map (\<lambda>b. b XOR 0x5c) k') (0x5c5c5c5c XOR 0x36363636) = map (\<lambda>b. b XOR 0x36) k'"
  proof -
    have "xor_key (map (\<lambda>b. b XOR 0x5c) k') (0x5c5c5c5c XOR 0x36363636) = map (\<lambda>b. b XOR 0x6a) (map (\<lambda>b. b XOR 0x5c) k')"
      by (rule xor_key_uniform) (auto simp: lk' dest!: u4)
    then show ?thesis by (simp add: o_def xor.assoc)
  qed
  define ctx2 where "ctx2 = sat_SHA1_Update (sat_SHA1_Init garbage) (map (\<lambda>b. b XOR 0x36) k')"
  have c2: "sha1_inv (map (\<lambda>b. b XOR 0x36) k') ctx2" "count1 ctx2 = 0"
    using update_inv [OF init_inv [OF assms(1)]] count1_update [of "sat_SHA1_Init garbage" 0 "map (\<lambda>b. b XOR 0x36) k'"] lk'
    by (simp_all add: ctx2_def sat_SHA1_Init_def)
  have d2: "sat_SHA1_Final (sat_SHA1_Update ctx2 text) = sha1 (map (\<lambda>b. b XOR 0x36) k' @ text)"
  proof (rule final_eq [OF update_inv [OF c2(1)]])
    show "count1 (sat_SHA1_Update ctx2 text) = 0"
      using count1_update [of ctx2 64 "text"] c2 assms(3) lk' by (simp add: sha1_inv_def)
  qed (use assms(3) lk' in simp)
  define ctx1 where "ctx1 = sat_SHA1_Update (sat_SHA1_Init garbage) (map (\<lambda>b. b XOR 0x5c) k')"
  have c1: "sha1_inv (map (\<lambda>b. b XOR 0x5c) k') ctx1" "count1 ctx1 = 0"
    using update_inv [OF init_inv [OF assms(1)]] count1_update [of "sat_SHA1_Init garbage" 0 "map (\<lambda>b. b XOR 0x5c) k'"] lk'
    by (simp_all add: ctx1_def sat_SHA1_Init_def)
  have d1: "sat_SHA1_Final (sat_SHA1_Update ctx1 d) = sha1 (map (\<lambda>b. b XOR 0x5c) k' @ d)" if "length d = 20" for d
  proof (rule final_eq [OF update_inv [OF c1(1)]])
    show "count1 (sat_SHA1_Update ctx1 d) = 0"
      using count1_update [of ctx1 64 d] c1 that lk' by (simp add: sha1_inv_def)
  qed (use that lk' in simp)
  show ?thesis
    unfolding lhmac_sha1_def hmac_sha1_def Let_def rkey k1 k2
    by (simp add: d1 d2 length_sha1 flip: ctx1_def ctx2_def k_def k'_def)
qed


lemma updates_inv:
  assumes "sha1_inv m ctx" "count1 ctx = 0" "length m + length (concat ds) < 2 ^ 29"
  shows "sha1_inv (m @ concat ds) (foldl sat_SHA1_Update ctx ds) \<and> count1 (foldl sat_SHA1_Update ctx ds) = 0"
  using assms
proof (induction ds arbitrary: m ctx)
  case (Cons d ds)
  have "count1 (sat_SHA1_Update ctx d) = 0"
    using count1_update [of ctx "length m" d] Cons.prems by (simp add: sha1_inv_def)
  then show ?case
    using Cons.IH [OF update_inv [OF Cons.prems(1)], of d] Cons.prems(3) by simp
qed simp

section \<open>Properties\<close>

text \<open>C18: However a message of less than 512 MB is split into pieces, initialising a context with any
  contents of its buffer, updating it with the pieces in turn and finishing it gives the SHA-1
  digest of the whole message as FIPS 180-1 defines it; in particular \<open>sha1\<close> called from Lua does.\<close>

theorem sha1_incremental:
  assumes "length garbage = 64" "length (concat pieces) < 2 ^ 29"
  shows "sat_SHA1_Final (foldl sat_SHA1_Update (sat_SHA1_Init garbage) pieces) = sha1 (concat pieces) \<and>
    lsha1 garbage (concat pieces) = sha1 (concat pieces)"
proof -
  have "count1 (sat_SHA1_Init garbage) = 0" by (simp add: sat_SHA1_Init_def)
  then show ?thesis
    using updates_inv [OF init_inv [OF assms(1)], of pieces] assms final_eq lsha1_eq by simp
qed

theorem sha1_incremental_witness:
  "sat_SHA1_Final (foldl sat_SHA1_Update (sat_SHA1_Init (replicate 64 7)) [[97], [98, 99]]) = sha1 (concat [[97], [98, 99]]) \<and>
    lsha1 (replicate 64 7) (concat [[97], [98, 99]]) = sha1 (concat [[97], [98, 99]])"
  by (rule sha1_incremental) simp_all

text \<open>C19: The keyed digest called from Lua is HMAC over SHA-1 for keys of any length, shorter or
  longer than a block, and texts that fit with the block of the key in 512 MB.\<close>

theorem hmac_sha1_correct:
  assumes "length garbage = 64" "length key < 2 ^ 29" "length text + 64 < 2 ^ 29"
  shows "lhmac_sha1 garbage key text = hmac_sha1 key text \<and> length (lhmac_sha1 garbage key text) = 20"
  using lhmac_sha1_eq [OF assms] by (simp add: hmac_sha1_def Let_def length_sha1)

theorem hmac_sha1_correct_witness:
  "lhmac_sha1 (replicate 64 0) (replicate 70 1) [104, 105] = hmac_sha1 (replicate 70 1) [104, 105] \<and>
    length (lhmac_sha1 (replicate 64 0) (replicate 70 1) [104, 105]) = 20"
  by (rule hmac_sha1_correct) simp_all

text \<open>Beyond 512 MB the bit counter is wrong: the comparison that detects its carry compares the
  truncated 32 bit counter with a 64 bit length, so an update of \<open>2 ^ 29\<close> bytes counts \<open>2 ^ 33\<close> bits.\<close>

lemma sha1_count_of_512MB: "count_update 0 0 (2 ^ 29) = (0, 2)"
  by code_simp

end
