(* ===== verification/Skynet_Netpack.thy ===== *)
theory Skynet_Netpack
  imports Skynet_Server Skynet_Bytes
begin

text \<open>
  The package splitter \<open>lualib-src/lua-netpack.c\<close>, which cuts the byte streams of the client
  connections into packages with a two byte big endian size.  A queue userdata holds a ring of
  complete packages and a hash table of the incomplete package of each connection.  The Lua
  argument 1 is \<open>NoQueue\<close> until the first package needs a queue.  Blocks of memory are
  values here (\<open>Skynet_Netpack_Mem\<close> has the memory of a queue and \<open>clear\<close>); the buffer of an incomplete package holds the bytes written so far of its \<open>pack.size\<close> bytes.
\<close>

section \<open>Data\<close>

definition QUEUESIZE :: nat where "QUEUESIZE = 1024"
definition HASHSIZE :: nat where "HASHSIZE = 4096"

record netpack =
  np_id :: int
  np_size :: int
  np_buffer :: "byte list"

record uncomplete =
  uc_pack :: netpack
  uc_read :: int
  uc_header :: int

record queue =
  q_cap :: nat
  q_head :: nat
  q_tail :: nat
  q_hash :: "uncomplete list list"
  q_queue :: "netpack option list"

datatype arg = NoQueue | Userdata queue

text \<open>What \<open>filter\<close> returns besides the queue.\<close>

datatype filtered =
    Silent
  | Data int "byte list" int
  | More
  | Error int "byte list"
  | Open int "byte list"
  | Close int
  | Warning int int

section \<open>The table of incomplete packages\<close>

definition hash_fd :: "int \<Rightarrow> nat" where
  "hash_fd fd = nat ((fd div 2 ^ 24 + fd div 2 ^ 12 + fd) mod 2 ^ 32 mod int HASHSIZE)"

fun take_uncomplete :: "int \<Rightarrow> uncomplete list \<Rightarrow> uncomplete option \<times> uncomplete list" where
  "take_uncomplete fd [] = (None, [])"
| "take_uncomplete fd (uc # us) =
     (if np_id (uc_pack uc) = fd then (Some uc, us)
      else let (r, us') = take_uncomplete fd us in (r, uc # us'))"

definition find_uncomplete :: "arg \<Rightarrow> int \<Rightarrow> uncomplete option \<times> arg" where
  "find_uncomplete L fd =
     (case L of
        NoQueue \<Rightarrow> (None, NoQueue)
      | Userdata q \<Rightarrow>
          (let h = hash_fd fd; (r, us) = take_uncomplete fd (q_hash q ! h)
           in (r, Userdata (q\<lparr>q_hash := (q_hash q)[h := us]\<rparr>))))"

definition put_uncomplete :: "uncomplete \<Rightarrow> queue \<Rightarrow> queue" where
  "put_uncomplete uc q =
     (let h = hash_fd (np_id (uc_pack uc)) in q\<lparr>q_hash := (q_hash q)[h := uc # q_hash q ! h]\<rparr>)"

definition get_queue :: "arg \<Rightarrow> queue" where
  "get_queue L =
     (case L of
        NoQueue \<Rightarrow> \<lparr>q_cap = QUEUESIZE, q_head = 0, q_tail = 0, q_hash = replicate HASHSIZE [],
                q_queue = replicate QUEUESIZE None\<rparr>
      | Userdata q \<Rightarrow> q)"

text \<open>\<open>save_uncomplete\<close> with the assignments that its three callers make to the new record.\<close>

definition save_uncomplete :: "arg \<Rightarrow> int \<Rightarrow> int \<Rightarrow> int \<Rightarrow> int \<Rightarrow> byte list \<Rightarrow> queue" where
  "save_uncomplete L fd rd header sz buffer =
     put_uncomplete \<lparr>uc_pack = \<lparr>np_id = fd, np_size = sz, np_buffer = buffer\<rparr>, uc_read = rd, uc_header = header\<rparr> (get_queue L)"

section \<open>The ring of packages\<close>

definition np_expand_queue :: "queue \<Rightarrow> queue option" where
  "np_expand_queue q = do {
     ncap \<leftarrow> cint (int (q_cap q) + int QUEUESIZE);
     elems \<leftarrow> those (map (\<lambda>i. aget (q_queue q) (int ((q_head q + i) mod q_cap q))) [0..<q_cap q]);
     Some (q\<lparr>q_cap := nat ncap, q_head := 0, q_tail := q_cap q, q_queue := elems @ replicate QUEUESIZE None\<rparr>) }"

definition push_pack :: "netpack \<Rightarrow> queue \<Rightarrow> queue option" where
  "push_pack np q = do {
     arr \<leftarrow> aset (q_queue q) (int (q_tail q)) (Some np);
     let tail = (if q_tail q + 1 \<ge> q_cap q then q_tail q + 1 - q_cap q else q_tail q + 1);
     let q' = q\<lparr>q_tail := tail, q_queue := arr\<rparr>;
     (if q_head q' = q_tail q' then np_expand_queue q' else Some q') }"

definition push_data :: "arg \<Rightarrow> int \<Rightarrow> byte list \<Rightarrow> int \<Rightarrow> bool \<Rightarrow> queue option" where
  "push_data L fd buffer sz clone = do {
     require (0 \<le> sz \<and> (clone \<longrightarrow> sz \<le> int (length buffer)));
     push_pack \<lparr>np_id = fd, np_size = sz, np_buffer = (if clone then take (nat sz) buffer else buffer)\<rparr> (get_queue L) }"

definition pop_pack :: "queue \<Rightarrow> (netpack option \<times> queue) option" where
  "pop_pack q =
     (if q_head q = q_tail q then Some (None, q)
      else do {
        np \<leftarrow> aget (q_queue q) (int (q_head q));
        np \<leftarrow> np;
        Some (Some np, q\<lparr>q_head := (if q_head q + 1 \<ge> q_cap q then 0 else q_head q + 1)\<rparr>) })"

definition lpop :: "arg \<Rightarrow> (netpack option \<times> arg) option" where
  "lpop L =
     (case L of
        NoQueue \<Rightarrow> Some (None, NoQueue)
      | Userdata q \<Rightarrow> map_option (\<lambda>(np, q'). (np, Userdata q')) (pop_pack q))"

section \<open>Splitting a stream\<close>

definition read_size :: "byte \<Rightarrow> byte \<Rightarrow> int" where
  "read_size b0 b1 = push_bit 8 (uint b0) OR uint b1"

function push_more :: "arg \<Rightarrow> int \<Rightarrow> byte list \<Rightarrow> queue option" where
  "push_more L fd [] = None"
| "push_more L fd [b] = Some (save_uncomplete L fd (- 1) (uint b) 0 [])"
| "push_more L fd (b0 # b1 # buffer) =
     (let pack_size = read_size b0 b1 in
      if int (length buffer) < pack_size then Some (save_uncomplete L fd (int (length buffer)) 0 pack_size buffer)
      else do {
        q \<leftarrow> push_data L fd buffer pack_size True;
        let rest = drop (nat pack_size) buffer;
        (if rest \<noteq> [] then push_more (Userdata q) fd rest else Some q) })"
  by pat_completeness auto
termination
  by (relation "measure (\<lambda>(_, _, b). length b)") auto

text \<open>The two halves of \<open>filter_data_\<close>: a connection with an incomplete package, and one without.\<close>

definition uc_start :: "uncomplete \<Rightarrow> byte list \<Rightarrow> (uncomplete \<times> byte list) option" where
  "uc_start uc buffer =
     (if uc_read uc < 0 then do {
        require (uc_read uc = - 1);
        (case buffer of
           [] \<Rightarrow> None
         | b # bs \<Rightarrow> Some (uc\<lparr>uc_pack := (uc_pack uc)\<lparr>np_size := uint b OR push_bit 8 (uc_header uc), np_buffer := []\<rparr>, uc_read := 0\<rparr>, bs)) }
      else Some (uc, buffer))"

definition uc_copy :: "uncomplete \<Rightarrow> byte list \<Rightarrow> uncomplete option" where
  "uc_copy uc bs = do {
     require (uc_read uc + int (length bs) \<le> np_size (uc_pack uc) \<and> 0 \<le> uc_read uc \<and> uc_read uc \<le> int (length (np_buffer (uc_pack uc))));
     Some (uc\<lparr>uc_pack := (uc_pack uc)\<lparr>np_buffer := take (nat (uc_read uc)) (np_buffer (uc_pack uc)) @ bs\<rparr>\<rparr>) }"

definition filter_fill :: "queue \<Rightarrow> int \<Rightarrow> uncomplete \<Rightarrow> byte list \<Rightarrow> (arg \<times> filtered) option" where
  "filter_fill q fd uc0 buffer0 = do {
     (uc, buffer) \<leftarrow> uc_start uc0 buffer0;
     let need = np_size (uc_pack uc) - uc_read uc;
     (if int (length buffer) < need then do {
        uc' \<leftarrow> uc_copy uc buffer;
        Some (Userdata (put_uncomplete (uc'\<lparr>uc_read := uc_read uc' + int (length buffer)\<rparr>) q), Silent) }
      else do {
        require (0 \<le> need);
        uc' \<leftarrow> uc_copy uc (take (nat need) buffer);
        let rest = drop (nat need) buffer;
        (if rest = [] then Some (Userdata q, Data fd (np_buffer (uc_pack uc')) (np_size (uc_pack uc')))
         else do {
           q1 \<leftarrow> push_data (Userdata q) fd (np_buffer (uc_pack uc')) (np_size (uc_pack uc')) False;
           q2 \<leftarrow> push_more (Userdata q1) fd rest;
           Some (Userdata q2, More) }) }) }"

definition filter_fresh :: "arg \<Rightarrow> int \<Rightarrow> byte list \<Rightarrow> (arg \<times> filtered) option" where
  "filter_fresh L fd buffer0 =
     (case buffer0 of
        [] \<Rightarrow> None
      | [b] \<Rightarrow> Some (Userdata (save_uncomplete L fd (- 1) (uint b) 0 []), Silent)
      | b0 # b1 # buffer \<Rightarrow>
          (let pack_size = read_size b0 b1; size = int (length buffer) in
           if size < pack_size then Some (Userdata (save_uncomplete L fd size 0 pack_size buffer), Silent)
           else if size = pack_size then Some (L, Data fd buffer size)
           else do {
             q \<leftarrow> push_data L fd buffer pack_size True;
             q' \<leftarrow> push_more (Userdata q) fd (drop (nat pack_size) buffer);
             Some (Userdata q', More) }))"

definition filter_data :: "arg \<Rightarrow> int \<Rightarrow> byte list \<Rightarrow> (arg \<times> filtered) option" where
  "filter_data L fd buffer =
     (case find_uncomplete L fd of
        (Some uc, Userdata q) \<Rightarrow> filter_fill q fd uc buffer
      | (_, L') \<Rightarrow> filter_fresh L' fd buffer)"


section \<open>The functions called from Lua\<close>

definition SKYNET_SOCKET_TYPE_DATA :: int where "SKYNET_SOCKET_TYPE_DATA = 1"
definition SKYNET_SOCKET_TYPE_CONNECT :: int where "SKYNET_SOCKET_TYPE_CONNECT = 2"
definition SKYNET_SOCKET_TYPE_CLOSE :: int where "SKYNET_SOCKET_TYPE_CLOSE = 3"
definition SKYNET_SOCKET_TYPE_ACCEPT :: int where "SKYNET_SOCKET_TYPE_ACCEPT = 4"
definition SKYNET_SOCKET_TYPE_ERROR :: int where "SKYNET_SOCKET_TYPE_ERROR = 5"
definition SKYNET_SOCKET_TYPE_UDP :: int where "SKYNET_SOCKET_TYPE_UDP = 6"
definition SKYNET_SOCKET_TYPE_WARNING :: int where "SKYNET_SOCKET_TYPE_WARNING = 7"

lemmas socket_types = SKYNET_SOCKET_TYPE_DATA_def SKYNET_SOCKET_TYPE_CONNECT_def SKYNET_SOCKET_TYPE_CLOSE_def
  SKYNET_SOCKET_TYPE_ACCEPT_def SKYNET_SOCKET_TYPE_ERROR_def SKYNET_SOCKET_TYPE_UDP_def SKYNET_SOCKET_TYPE_WARNING_def

definition close_uncomplete :: "arg \<Rightarrow> int \<Rightarrow> arg" where
  "close_uncomplete L fd = snd (find_uncomplete L fd)"

text \<open>\<open>pushstring\<close>: the padding string has \<open>sz\<close> bytes; a block from the socket thread comes with size -1.\<close>

definition pushstring :: "byte list \<Rightarrow> int \<Rightarrow> byte list option" where
  "pushstring msg sz = do { require (0 \<le> sz \<and> sz \<le> int (length msg)); Some (take (nat sz) msg) }"

text \<open>\<open>content m\<close> is the block that the \<open>buffer\<close> field of the message points to; a message without
  one is followed by \<open>padding\<close>.\<close>

definition lfilter :: "(addr \<Rightarrow> byte list) \<Rightarrow> arg \<Rightarrow> skynet_socket_message \<Rightarrow> byte list \<Rightarrow> (arg \<times> filtered) option" where
  "lfilter content L message padding =
     (let (buffer, sz) = (case ssm_buffer message of None \<Rightarrow> (padding, int (length padding)) | Some a \<Rightarrow> (content a, - 1)) in
      if ssm_type message = SKYNET_SOCKET_TYPE_DATA then do {
        require (sz = - 1 \<and> ssm_ud message = int (length buffer));
        filter_data L (ssm_id message) buffer }
      else if ssm_type message = SKYNET_SOCKET_TYPE_CONNECT then Some (L, Silent)
      else if ssm_type message = SKYNET_SOCKET_TYPE_CLOSE then
        Some (close_uncomplete L (ssm_id message), Close (ssm_id message))
      else if ssm_type message = SKYNET_SOCKET_TYPE_ACCEPT then do {
        s \<leftarrow> pushstring buffer sz;
        Some (L, Open (ssm_ud message) s) }
      else if ssm_type message = SKYNET_SOCKET_TYPE_ERROR then do {
        s \<leftarrow> pushstring buffer sz;
        Some (close_uncomplete L (ssm_id message), Error (ssm_id message) s) }
      else if ssm_type message = SKYNET_SOCKET_TYPE_WARNING then
        Some (L, Warning (ssm_id message) (ssm_ud message))
      else Some (L, Silent))"

definition write_size :: "int \<Rightarrow> byte list" where
  "write_size len = [of_int (drop_bit 8 len AND 0xff), of_int (len AND 0xff)]"

definition lpack :: "byte list \<Rightarrow> (string + byte list)" where
  "lpack data =
     (if length data \<ge> 0x10000 then Inl ''Invalid size (too long) of data''
      else Inr (write_size (int (length data)) @ data))"

definition ltostring :: "byte list option \<Rightarrow> int \<Rightarrow> byte list option" where
  "ltostring ptr sz =
     (case ptr of
        None \<Rightarrow> Some []
      | Some b \<Rightarrow> do { require (0 \<le> sz \<and> sz \<le> int (length b)); Some (take (nat sz) b) })"


section \<open>The ring of packages is a FIFO queue\<close>

definition np_wf :: "queue \<Rightarrow> bool" where
  "np_wf q \<longleftrightarrow> 1 < q_cap q \<and> q_head q < q_cap q \<and> q_tail q < q_cap q \<and> length (q_queue q) = q_cap q \<and>
     (\<forall>i < (q_tail q + q_cap q - q_head q) mod q_cap q. q_queue q ! ((q_head q + i) mod q_cap q) \<noteq> None)"

definition np_len :: "queue \<Rightarrow> nat" where
  "np_len q = (q_tail q + q_cap q - q_head q) mod q_cap q"

definition np_list :: "queue \<Rightarrow> netpack list" where
  "np_list q = map (\<lambda>i. the (q_queue q ! ((q_head q + i) mod q_cap q))) [0..<np_len q]"

lemma length_np_list [simp]: "length (np_list q) = np_len q"
  by (simp add: np_list_def)

lemma np_len_cases:
  assumes "np_wf q"
  shows "np_len q = (if q_head q \<le> q_tail q then q_tail q - q_head q else q_tail q + q_cap q - q_head q)"
  using assms by (auto simp: np_wf_def np_len_def mod_if)

lemma np_slot:
  assumes "np_wf q" "i < np_len q"
  shows "q_queue q ! ((q_head q + i) mod q_cap q) = Some (np_list q ! i)"
  using assms by (auto simp: np_wf_def np_len_def np_list_def)

lemma np_listI:
  assumes "1 < q_cap q" "q_head q < q_cap q" "q_tail q < q_cap q" "length (q_queue q) = q_cap q" "np_len q = length ys"
    and "\<And>i. i < length ys \<Longrightarrow> q_queue q ! ((q_head q + i) mod q_cap q) = Some (ys ! i)"
  shows "np_wf q \<and> np_list q = ys"
  using assms by (auto simp: np_wf_def np_list_def np_len_def intro!: nth_equalityI)

lemma pop_pack_Nil: "np_wf q \<Longrightarrow> np_list q = [] \<Longrightarrow> pop_pack q = Some (None, q)"
  using np_len_cases [of q] by (auto simp: pop_pack_def np_list_def np_wf_def split: if_splits)

lemma pop_pack_Cons:
  assumes wf: "np_wf q" and l: "np_list q = m # ms"
  shows "\<exists>q'. pop_pack q = Some (Some m, q') \<and> np_wf q' \<and> np_list q' = ms \<and> q_hash q' = q_hash q \<and> q_cap q' = q_cap q"
proof -
  have len: "np_len q = Suc (length ms)" using l by (metis length_Cons length_np_list)
  define q' where "q' = q\<lparr>q_head := (if q_head q + 1 \<ge> q_cap q then 0 else q_head q + 1)\<rparr>"
  have b: "1 < q_cap q" "q_head q < q_cap q" "q_tail q < q_cap q" "length (q_queue q) = q_cap q"
    using wf by (auto simp: np_wf_def)
  have h': "q_head q' = (q_head q + 1) mod q_cap q" using b by (auto simp: q'_def mod_if)
  have "np_len q' = length ms"
    using np_len_cases [OF wf] len b by (auto simp: np_len_def q'_def mod_if split: if_splits)
  moreover have "q_queue q' ! ((q_head q' + i) mod q_cap q') = Some (ms ! i)" if "i < length ms" for i
  proof -
    have "(q_head q' + i) mod q_cap q = (q_head q + Suc i) mod q_cap q" by (simp add: h' mod_simps)
    then show ?thesis using np_slot [OF wf, of "Suc i"] that len l by (simp add: q'_def)
  qed
  ultimately have "np_wf q' \<and> np_list q' = ms"
    by (intro np_listI) (use b in \<open>auto simp: q'_def\<close>)
  moreover have "pop_pack q = Some (Some m, q')"
  proof -
    have "q_head q \<noteq> q_tail q" using len np_len_cases [OF wf] by auto
    moreover have "q_queue q ! q_head q = Some m" using np_slot [OF wf, of 0] len l b by simp
    ultimately show ?thesis using b by (simp add: pop_pack_def q'_def)
  qed
  ultimately show ?thesis by (auto simp: q'_def)
qed

lemma mod_wrap: "(a :: nat) < 2 * c \<Longrightarrow> a mod c = (if a < c then a else a - c)"
  by (simp add: le_mod_geq)

lemma tail_slot:
  assumes "np_wf q"
  shows "(q_head q + np_len q) mod q_cap q = q_tail q"
    and "i < np_len q \<Longrightarrow> (q_head q + i) mod q_cap q \<noteq> q_tail q"
proof -
  have b: "q_head q < q_cap q" "q_tail q < q_cap q" using assms by (auto simp: np_wf_def)
  have len: "np_len q < q_cap q" using b by (simp add: np_len_def)
  show "(q_head q + np_len q) mod q_cap q = q_tail q"
    using np_len_cases [OF assms] b len mod_wrap [of "q_head q + np_len q" "q_cap q"] by (simp split: if_splits)
  show "i < np_len q \<Longrightarrow> (q_head q + i) mod q_cap q \<noteq> q_tail q"
    using np_len_cases [OF assms] b len mod_wrap [of "q_head q + i" "q_cap q"] by (simp split: if_splits)
qed

lemma push_pack_plain:
  fixes m :: netpack
  assumes wf: "np_wf q" and full: "np_len q + 1 \<noteq> q_cap q"
  defines "q' \<equiv> q\<lparr>q_tail := (if q_tail q + 1 \<ge> q_cap q then q_tail q + 1 - q_cap q else q_tail q + 1), q_queue := (q_queue q)[q_tail q := Some m]\<rparr>"
  shows "push_pack m q = Some q' \<and> np_wf q' \<and> np_list q' = np_list q @ [m]"
proof -
  have b: "1 < q_cap q" "q_head q < q_cap q" "q_tail q < q_cap q" "length (q_queue q) = q_cap q"
    using wf by (auto simp: np_wf_def)
  have ne: "q_head q' \<noteq> q_tail q'"
    using np_len_cases [OF wf] b full by (auto simp: q'_def split: if_splits)
  have len: "np_len q' = np_len q + 1"
    using np_len_cases [OF wf] b full by (auto simp: np_len_def q'_def mod_if split: if_splits)
  note t = tail_slot(1) [OF wf] and ts = tail_slot(2) [OF wf]
  have "np_wf q' \<and> np_list q' = np_list q @ [m]"
  proof (rule np_listI)
    fix i assume "i < length (np_list q @ [m])"
    then have "i < np_len q \<or> i = np_len q" by auto
    then show "q_queue q' ! ((q_head q' + i) mod q_cap q') = Some ((np_list q @ [m]) ! i)"
      using np_slot [OF wf, of i] ts [of i] t b by (auto simp: q'_def nth_append)
  qed (use b len in \<open>auto simp: q'_def split: if_splits\<close>)
  then show ?thesis using b ne by (auto simp: push_pack_def q'_def Let_def split: if_splits)
qed


lemma push_pack_full:
  assumes wf: "np_wf q" and full: "np_len q + 1 = q_cap q" and cap: "int (q_cap q) + 1024 < 2 ^ 31"
  shows "\<exists>q'. push_pack m q = Some q' \<and> np_wf q' \<and> np_list q' = np_list q @ [m] \<and> q_hash q' = q_hash q \<and> q_cap q' = q_cap q + 1024"
proof -
  have b: "1 < q_cap q" "q_head q < q_cap q" "q_tail q < q_cap q" "length (q_queue q) = q_cap q"
    using wf by (auto simp: np_wf_def)
  define arr where "arr = (q_queue q)[q_tail q := Some m]"
  define q1 where "q1 = q\<lparr>q_tail := (if q_tail q + 1 \<ge> q_cap q then q_tail q + 1 - q_cap q else q_tail q + 1), q_queue := arr\<rparr>"
  have eq: "q_head q1 = q_tail q1"
    using np_len_cases [OF wf] b full by (auto simp: q1_def split: if_splits)
  note t = tail_slot(1) [OF wf] and ts = tail_slot(2) [OF wf]
  have slots: "arr ! ((q_head q + i) mod q_cap q) = Some ((np_list q @ [m]) ! i)" if "i < q_cap q" for i
  proof -
    have "i < np_len q \<or> i = np_len q" using that full by auto
    then show ?thesis using np_slot [OF wf, of i] ts [of i] t b by (auto simp: arr_def nth_append)
  qed
  define elems where "elems = map (\<lambda>i. arr ! ((q_head q + i) mod q_cap q)) [0..<q_cap q]"
  define q2 where "q2 = q1\<lparr>q_cap := q_cap q + 1024, q_head := 0, q_tail := q_cap q, q_queue := elems @ replicate QUEUESIZE None\<rparr>"
  have "those (map (\<lambda>i. aget arr (int ((q_head q + i) mod q_cap q))) [0..<q_cap q]) = Some elems"
    unfolding elems_def by (rule those_map_Some) (use b in \<open>simp add: arr_def\<close>)
  moreover have "cint (int (q_cap q) + int QUEUESIZE) = Some (int (q_cap q + 1024))"
    using cap by (simp add: cint_def cint_ok_def QUEUESIZE_def)
  ultimately have "np_expand_queue q1 = Some q2"
    by (simp add: np_expand_queue_def q1_def q2_def nat_int_add flip: of_nat_add)
  moreover have "push_pack m q = (if q_head q1 = q_tail q1 then np_expand_queue q1 else Some q1)"
    using b by (simp add: push_pack_def arr_def q1_def Let_def)
  ultimately have "push_pack m q = Some q2" using eq by simp
  moreover have "np_wf q2 \<and> np_list q2 = np_list q @ [m]"
  proof (rule np_listI)
    show "np_len q2 = length (np_list q @ [m])" using full unfolding np_len_def [of q2] by (simp add: q2_def le_mod_geq)
    fix i assume "i < length (np_list q @ [m])"
    then have "i < q_cap q" using full by simp
    then show "q_queue q2 ! ((q_head q2 + i) mod q_cap q2) = Some ((np_list q @ [m]) ! i)"
      using slots [of i] by (simp add: q2_def elems_def nth_append)
  qed (use b in \<open>auto simp: q2_def elems_def QUEUESIZE_def\<close>)
  ultimately show ?thesis by (auto simp: q2_def q1_def)
qed

definition np_room :: "nat \<Rightarrow> queue \<Rightarrow> bool" where
  "np_room n q \<longleftrightarrow> q_cap q \<le> 2 ^ 30 \<and> np_len q + n \<le> 2 ^ 29"

lemma push_pack_law:
  assumes wf: "np_wf q" and room: "np_room (Suc n) q"
  shows "\<exists>q'. push_pack m q = Some q' \<and> np_wf q' \<and> np_room n q' \<and> np_list q' = np_list q @ [m] \<and> q_hash q' = q_hash q"
proof -
  have len: "np_len q' = np_len q + 1" if "np_list q' = np_list q @ [m]" for q'
    using that length_np_list [of q'] by simp
  show ?thesis
  proof (cases "np_len q + 1 = q_cap q")
    case True
    moreover have "int (q_cap q) + 1024 < 2 ^ 31" using room True by (simp add: np_room_def)
    ultimately obtain q' where "push_pack m q = Some q'" "np_wf q'" "np_list q' = np_list q @ [m]" "q_hash q' = q_hash q" "q_cap q' = q_cap q + 1024"
      using push_pack_full [OF wf] by blast
    then show ?thesis using room True len [of q'] by (auto simp: np_room_def)
  next
    case False
    show ?thesis using push_pack_plain [OF wf False, of m] room len by (auto simp: np_room_def)
  qed
qed

interpretation packs: fifo np_wf np_list np_room push_pack pop_pack
proof (unfold_locales, goal_cases)
  case (1 q n m)
  then show ?case using push_pack_law by blast
next
  case (2 q n m ms)
  then obtain q' where "pop_pack q = Some (Some m, q')" "np_wf q'" "np_list q' = ms" "q_cap q' = q_cap q"
    using pop_pack_Cons by blast
  then show ?case
    using 2 length_np_list [of q] length_np_list [of q'] by (auto simp: np_room_def simp del: length_np_list)
next
  case (3 q n)
  then show ?case by (auto simp: pop_pack_Nil)
qed


section \<open>The table of incomplete packages\<close>

abbreviation uc_id :: "uncomplete \<Rightarrow> int" where
  "uc_id uc \<equiv> np_id (uc_pack uc)"

definition uc_ok :: "uncomplete \<Rightarrow> bool" where
  "uc_ok uc \<longleftrightarrow>
     (uc_read uc = - 1 \<and> 0 \<le> uc_header uc \<and> uc_header uc < 256) \<or>
     (0 \<le> uc_read uc \<and> uc_read uc < np_size (uc_pack uc) \<and> np_size (uc_pack uc) < 65536 \<and>
      int (length (np_buffer (uc_pack uc))) = uc_read uc)"

text \<open>The bytes of its stream that an incomplete package stands for.\<close>

definition uc_bytes :: "uncomplete \<Rightarrow> byte list" where
  "uc_bytes uc = (if uc_read uc < 0 then [of_int (uc_header uc)] else write_size (np_size (uc_pack uc)) @ np_buffer (uc_pack uc))"

definition tab_wf :: "uncomplete list list \<Rightarrow> bool" where
  "tab_wf t \<longleftrightarrow> length t = HASHSIZE \<and>
     (\<forall>h < HASHSIZE. distinct (map uc_id (t ! h)) \<and> (\<forall>uc \<in> set (t ! h). uc_ok uc \<and> hash_fd (uc_id uc) = h))"

definition tab_find :: "uncomplete list list \<Rightarrow> int \<Rightarrow> uncomplete option" where
  "tab_find t fd = List.find (\<lambda>uc. uc_id uc = fd) (t ! hash_fd fd)"

definition tab_pending :: "uncomplete list list \<Rightarrow> int \<Rightarrow> byte list" where
  "tab_pending t fd = (case tab_find t fd of None \<Rightarrow> [] | Some uc \<Rightarrow> uc_bytes uc)"

lemma hash_fd_less [simp]: "hash_fd fd < HASHSIZE"
  by (simp add: hash_fd_def HASHSIZE_def nat_less_iff)

lemma take_uncomplete_fst: "fst (take_uncomplete fd us) = List.find (\<lambda>uc. uc_id uc = fd) us"
  by (induction us) (auto simp: split_beta)

lemma take_uncomplete_snd:
  "distinct (map uc_id us) \<Longrightarrow> snd (take_uncomplete fd us) = filter (\<lambda>uc. uc_id uc \<noteq> fd) us"
proof (induction us)
  case (Cons uc us)
  have "uc_id uc = fd \<Longrightarrow> filter (\<lambda>uc. uc_id uc \<noteq> fd) us = us"
    using Cons.prems by (auto simp: filter_id_conv image_iff)
  then show ?case using Cons by (auto simp: split_beta)
qed simp

lemma find_filter_neq: "fd' \<noteq> fd \<Longrightarrow> List.find (\<lambda>uc. uc_id uc = fd') (filter (\<lambda>uc. uc_id uc \<noteq> fd) us) = List.find (\<lambda>uc. uc_id uc = fd') us"
  by (induction us) auto

lemma find_filter_eq: "List.find (\<lambda>uc. uc_id uc = fd) (filter (\<lambda>uc. uc_id uc \<noteq> fd) us) = None"
  by (simp add: find_None_iff)

lemma uc_bytes_nonempty: "uc_bytes uc \<noteq> []"
  by (simp add: uc_bytes_def write_size_def)

lemma tab_pending_Nil: "tab_pending t fd = [] \<longleftrightarrow> tab_find t fd = None"
  by (simp add: tab_pending_def uc_bytes_nonempty split: option.split)

lemma tab_find_ok:
  assumes "tab_wf t" "tab_find t fd = Some uc"
  shows "uc_ok uc \<and> uc_id uc = fd"
proof -
  have "uc \<in> set (t ! hash_fd fd)" "uc_id uc = fd"
    using assms(2) by (auto simp: tab_find_def find_Some_iff)
  then show ?thesis using assms(1) hash_fd_less [of fd] unfolding tab_wf_def by blast
qed

lemma tab_remove:
  fixes fd :: int
  assumes "tab_wf t"
  defines "t' \<equiv> t[hash_fd fd := snd (take_uncomplete fd (t ! hash_fd fd))]"
  shows "tab_wf t' \<and> tab_pending t' = (tab_pending t)(fd := [])"
proof -
  have d: "snd (take_uncomplete fd (t ! hash_fd fd)) = filter (\<lambda>uc. uc_id uc \<noteq> fd) (t ! hash_fd fd)"
    using assms(1) by (intro take_uncomplete_snd) (simp add: tab_wf_def)
  have "tab_find t' g = (if g = fd then None else tab_find t g)" for g
    using assms(1) by (auto simp: tab_find_def t'_def d nth_list_update tab_wf_def find_filter_neq find_filter_eq)
  then have "tab_pending t' = (tab_pending t)(fd := [])" by (auto simp: tab_pending_def fun_eq_iff)
  moreover have "tab_wf t'"
    using assms(1) by (auto simp: tab_wf_def t'_def d nth_list_update distinct_map_filter)
  ultimately show ?thesis by blast
qed

lemma tab_insert:
  assumes "tab_wf t" "tab_pending t (uc_id uc) = []" "uc_ok uc"
  defines "t' \<equiv> t[hash_fd (uc_id uc) := uc # t ! hash_fd (uc_id uc)]"
  shows "tab_wf t' \<and> tab_pending t' = (tab_pending t)(uc_id uc := uc_bytes uc)"
proof -
  have n: "\<forall>u \<in> set (t ! hash_fd (uc_id uc)). uc_id u \<noteq> uc_id uc"
    using assms(2) by (auto simp: tab_pending_Nil tab_find_def find_None_iff)
  have "tab_find t' g = (if g = uc_id uc then Some uc else tab_find t g)" for g
    using assms(1) by (auto simp: tab_find_def t'_def nth_list_update tab_wf_def)
  then have "tab_pending t' = (tab_pending t)(uc_id uc := uc_bytes uc)" by (auto simp: tab_pending_def fun_eq_iff)
  moreover have "tab_wf t'"
    using assms(1,3) n by (auto simp: tab_wf_def t'_def nth_list_update)
  ultimately show ?thesis by blast
qed

section \<open>The queue as an abstract state\<close>

definition arg_wf :: "arg \<Rightarrow> bool" where
  "arg_wf L \<longleftrightarrow> np_wf (get_queue L) \<and> q_cap (get_queue L) \<le> 2 ^ 30 \<and> tab_wf (q_hash (get_queue L))"

definition unread :: "arg \<Rightarrow> int \<Rightarrow> byte list" where
  "unread L = tab_pending (q_hash (get_queue L))"

definition queued :: "arg \<Rightarrow> netpack list" where
  "queued L = np_list (get_queue L)"

definition arg_room :: "nat \<Rightarrow> arg \<Rightarrow> bool" where
  "arg_room n L \<longleftrightarrow> np_room n (get_queue L)"

definition mk_pack :: "int \<Rightarrow> byte list \<Rightarrow> netpack" where
  "mk_pack fd p = \<lparr>np_id = fd, np_size = int (length p), np_buffer = p\<rparr>"

lemma get_queue_Userdata [simp]: "get_queue (Userdata q) = q"
  by (simp add: get_queue_def)

lemma NoQueue_wf [simp]: "arg_wf NoQueue" "unread NoQueue = (\<lambda>_. [])" "queued NoQueue = []"
  by (auto simp: arg_wf_def get_queue_def np_wf_def tab_wf_def HASHSIZE_def QUEUESIZE_def unread_def tab_pending_def tab_find_def
      queued_def np_list_def np_len_def fun_eq_iff nth_replicate [of "hash_fd _" 4096, OF hash_fd_less [unfolded HASHSIZE_def]])

lemma np_hash_update [simp]:
  "np_wf (q\<lparr>q_hash := t\<rparr>) = np_wf q" "np_list (q\<lparr>q_hash := t\<rparr>) = np_list q" "np_room n (q\<lparr>q_hash := t\<rparr>) = np_room n q"
  by (simp_all add: np_wf_def np_list_def np_len_def np_room_def)

lemma find_uncomplete_spec:
  assumes "arg_wf L"
  shows "\<exists>L'. find_uncomplete L fd = (tab_find (q_hash (get_queue L)) fd, L') \<and> arg_wf L' \<and> unread L' = (unread L)(fd := []) \<and>
    queued L' = queued L \<and> (\<forall>n. arg_room n L' = arg_room n L) \<and> (L' = NoQueue \<longleftrightarrow> L = NoQueue)"
proof (cases L)
  case NoQueue
  then have "tab_find (q_hash (get_queue L)) fd = None"
    by (metis NoQueue_wf(2) unread_def tab_pending_Nil)
  then show ?thesis using NoQueue by (simp add: find_uncomplete_def fun_eq_iff)
next
  case (Userdata q)
  then show ?thesis
    using assms tab_remove [of "q_hash q" fd]
    by (simp add: find_uncomplete_def arg_wf_def unread_def queued_def arg_room_def tab_find_def split_beta take_uncomplete_fst Let_def)
qed

lemma put_uncomplete_spec:
  assumes "arg_wf (Userdata q)" "unread (Userdata q) (uc_id uc) = []" "uc_ok uc"
  shows "arg_wf (Userdata (put_uncomplete uc q)) \<and>
    unread (Userdata (put_uncomplete uc q)) = (unread (Userdata q))(uc_id uc := uc_bytes uc) \<and>
    queued (Userdata (put_uncomplete uc q)) = queued (Userdata q)"
  using assms tab_insert [of "q_hash q" uc]
  by (simp add: put_uncomplete_def arg_wf_def unread_def queued_def Let_def)

lemma get_queue_same: "arg_wf (Userdata (get_queue L)) = arg_wf L" "unread (Userdata (get_queue L)) = unread L"
  "queued (Userdata (get_queue L)) = queued L" "arg_room n (Userdata (get_queue L)) = arg_room n L"
  by (simp_all add: arg_wf_def unread_def queued_def arg_room_def)

lemma push_pack_spec:
  assumes "arg_wf L" "arg_room (Suc n) L"
  shows "\<exists>q. push_pack m (get_queue L) = Some q \<and> arg_wf (Userdata q) \<and> unread (Userdata q) = unread L \<and>
    queued (Userdata q) = queued L @ [m] \<and> arg_room n (Userdata q)"
  using push_pack_law [of "get_queue L" n m] assms by (auto simp: arg_wf_def arg_room_def unread_def queued_def np_room_def)

lemma arg_roomI: "arg_wf L \<Longrightarrow> length (queued L) + n \<le> 2 ^ 29 \<Longrightarrow> arg_room n L"
  by (simp add: arg_wf_def arg_room_def np_room_def queued_def)


section \<open>Splitting a stream into packages\<close>

text \<open>The packages at the front of a stream and what is left of it.\<close>

function split_packs :: "byte list \<Rightarrow> byte list list \<times> byte list" where
  "split_packs (b0 # b1 # r) =
     (let n = 256 * unat b0 + unat b1 in
      if length r < n then ([], b0 # b1 # r)
      else let (ps, rem) = split_packs (drop n r) in (take n r # ps, rem))"
| "split_packs [] = ([], [])"
| "split_packs [b] = ([], [b])"
  by pat_completeness auto
termination
  by (relation "measure length") auto

lemma read_size_eq: "read_size b0 b1 = int (256 * unat b0 + unat b1)"
proof -
  have "uint b1 = take_bit 8 (uint b1)"
    using unsigned_less [of b1, where ?'a = int] by (simp add: take_bit_int_eq_self)
  then have "push_bit 8 (uint b0) OR uint b1 = push_bit 8 (uint b0) + uint b1"
    by (metis add.commute concat_bit_def concat_bit_eq or.commute)
  then show ?thesis by (simp add: read_size_def push_bit_eq_mult)
qed

lemma header_or_eq: "0 \<le> h \<Longrightarrow> h < 256 \<Longrightarrow> uint b OR push_bit 8 h = read_size (of_int h) b"
  by (simp add: read_size_def or.commute take_bit_int_eq_self uint_word_of_int)

lemma read_size_bounds: "0 \<le> read_size b0 b1" "read_size b0 b1 < 65536"
  using unsigned_less [of b0, where ?'a = int] unsigned_less [of b1, where ?'a = int] by (simp_all add: read_size_eq)

lemma write_size_eq: "write_size n = [of_int (n div 256), of_int n]"
proof -
  have m: "(0xff :: int) = mask 8" by (simp add: mask_eq_exp_minus_1)
  have "(of_int (take_bit 8 k) :: byte) = of_int k" for k
    by (rule bit_word_eqI) (simp add: bit_word_of_int_iff bit_take_bit_iff)
  then show ?thesis
    unfolding write_size_def m take_bit_eq_mask [symmetric] by (simp add: drop_bit_eq_div)
qed

lemma write_read_size: "write_size (read_size b0 b1) = [b0, b1]"
proof -
  have "(256 * uint b0 + uint b1) div 256 = uint b0"
    using unsigned_less [of b1, where ?'a = int] by simp
  moreover have "(of_int (256 * uint b0 + uint b1) :: byte) = b1"
  proof -
    have "(256 :: byte) = 0" by simp
    then show ?thesis by (simp only: of_int_add of_int_mult of_int_numeral) simp
  qed
  ultimately show ?thesis by (simp add: write_size_eq read_size_eq)
qed

lemma read_write_size:
  assumes "0 \<le> n" "n < 65536"
  shows "\<exists>b0 b1. write_size n = [b0, b1] \<and> read_size b0 b1 = n"
proof -
  have "uint (of_int (n div 256) :: byte) = n div 256" "uint (of_int n :: byte) = n mod 256"
    using assms by (simp_all add: uint_word_of_int)
  then have "read_size (of_int (n div 256)) (of_int n) = n"
    by (simp add: read_size_eq)
  then show ?thesis by (simp add: write_size_eq)
qed

lemma save_uncomplete_spec:
  assumes "arg_wf L" "unread L fd = []"
    and "uc_ok \<lparr>uc_pack = \<lparr>np_id = fd, np_size = sz, np_buffer = b\<rparr>, uc_read = rd, uc_header = h\<rparr>" (is "uc_ok ?uc")
  shows "arg_wf (Userdata (save_uncomplete L fd rd h sz b)) \<and>
    unread (Userdata (save_uncomplete L fd rd h sz b)) = (unread L)(fd := uc_bytes ?uc) \<and>
    queued (Userdata (save_uncomplete L fd rd h sz b)) = queued L"
  using put_uncomplete_spec [of "get_queue L" ?uc] assms by (simp add: save_uncomplete_def get_queue_same)

lemma save_one:
  assumes "arg_wf L" "unread L fd = []"
  shows "arg_wf (Userdata (save_uncomplete L fd (- 1) (uint b) 0 [])) \<and>
    unread (Userdata (save_uncomplete L fd (- 1) (uint b) 0 [])) = (unread L)(fd := [b]) \<and>
    queued (Userdata (save_uncomplete L fd (- 1) (uint b) 0 [])) = queued L"
  using save_uncomplete_spec [OF assms, of 0 "[]" "- 1" "uint b"] unsigned_less [of b, where ?'a = int]
  by (simp add: uc_ok_def uc_bytes_def)

lemma save_part:
  assumes "arg_wf L" "unread L fd = []" "int (length r) < read_size b0 b1"
  shows "arg_wf (Userdata (save_uncomplete L fd (int (length r)) 0 (read_size b0 b1) r)) \<and>
    unread (Userdata (save_uncomplete L fd (int (length r)) 0 (read_size b0 b1) r)) = (unread L)(fd := b0 # b1 # r) \<and>
    queued (Userdata (save_uncomplete L fd (int (length r)) 0 (read_size b0 b1) r)) = queued L"
  using save_uncomplete_spec [OF assms(1,2), of "read_size b0 b1" r "int (length r)" 0] assms(3) read_size_bounds [of b0 b1]
  by (simp add: uc_ok_def uc_bytes_def write_read_size)

lemma push_data_spec:
  assumes "arg_wf L" "arg_room (Suc n) L" "int (length p) = sz" "b = p \<or> clone \<and> p = take (nat sz) b \<and> sz \<le> int (length b)"
  shows "\<exists>q. push_data L fd b sz clone = Some q \<and> arg_wf (Userdata q) \<and> unread (Userdata q) = unread L \<and>
    queued (Userdata q) = queued L @ [mk_pack fd p] \<and> arg_room n (Userdata q)"
  using push_pack_spec [OF assms(1,2), of "mk_pack fd p"] assms(3,4) by (auto simp: push_data_def mk_pack_def)

lemma push_more_spec:
  "arg_wf L \<Longrightarrow> unread L fd = [] \<Longrightarrow> b \<noteq> [] \<Longrightarrow> arg_room (length (fst (split_packs b))) L \<Longrightarrow>
   \<exists>q. push_more L fd b = Some q \<and> arg_wf (Userdata q) \<and> unread (Userdata q) = (unread L)(fd := snd (split_packs b)) \<and>
     queued (Userdata q) = queued L @ map (mk_pack fd) (fst (split_packs b))"
proof (induction L fd b rule: push_more.induct)
  case (2 L fd b)
  then show ?case using save_one [of L fd b] by (simp add: fun_eq_iff)
next
  case (3 L fd b0 b1 r)
  define n where "n = 256 * unat b0 + unat b1"
  have sz: "read_size b0 b1 = int n" by (simp add: read_size_eq n_def)
  show ?case
  proof (cases "length r < n")
    case True
    then show ?thesis using save_part [of L fd r b0 b1] 3 by (simp add: sz n_def [symmetric] Let_def fun_eq_iff)
  next
    case False
    define ps rem where "ps = fst (split_packs (drop n r))" and "rem = snd (split_packs (drop n r))"
    have sp: "split_packs (b0 # b1 # r) = (take n r # ps, rem)"
      using False by (simp add: n_def [symmetric] ps_def rem_def split_beta Let_def)
    obtain q where q: "push_data L fd r (int n) True = Some q" "arg_wf (Userdata q)" "unread (Userdata q) = unread L"
        "queued (Userdata q) = queued L @ [mk_pack fd (take n r)]" "arg_room (length ps) (Userdata q)"
      using push_data_spec [of L "length ps" "take n r" "int n" r True fd] 3 sp False by auto
    show ?thesis
    proof (cases "drop n r = []")
      case True
      then have "ps = []" "rem = []" by (simp_all add: ps_def rem_def)
      then show ?thesis using q True False sp 3 by (simp add: sz Let_def fun_eq_iff)
    next
      case nonempty: False
      have "\<exists>q'. push_more (Userdata q) fd (drop n r) = Some q' \<and> arg_wf (Userdata q') \<and>
          unread (Userdata q') = (unread (Userdata q))(fd := rem) \<and> queued (Userdata q') = queued (Userdata q) @ map (mk_pack fd) ps"
        unfolding ps_def rem_def
        using 3(1) [of "int n" q "drop n r"] False nonempty q 3(3) by (auto simp: sz ps_def fun_eq_iff)
      then show ?thesis using q False nonempty sp by (auto simp: sz Let_def)
    qed
  qed
qed simp


text \<open>What one call of \<open>filter\<close> for received data does: no complete package, exactly one and
  nothing else, or packages for the queue.\<close>

definition outcome :: "int \<Rightarrow> byte list list \<Rightarrow> byte list \<Rightarrow> filtered" where
  "outcome fd ps rem =
     (if ps = [] then Silent
      else if tl ps = [] \<and> rem = [] then Data fd (hd ps) (int (length (hd ps)))
      else More)"

definition to_queue :: "int \<Rightarrow> byte list list \<Rightarrow> byte list \<Rightarrow> netpack list" where
  "to_queue fd ps rem = (if outcome fd ps rem = More then map (mk_pack fd) ps else [])"

lemma split_packs_step:
  "split_packs (b0 # b1 # r) =
     (if int (length r) < read_size b0 b1 then ([], b0 # b1 # r)
      else (take (nat (read_size b0 b1)) r # fst (split_packs (drop (nat (read_size b0 b1)) r)),
            snd (split_packs (drop (nat (read_size b0 b1)) r))))"
proof -
  have "nat (read_size b0 b1) = 256 * unat b0 + unat b1" by (simp only: read_size_eq nat_int)
  moreover have "int (length r) < read_size b0 b1 \<longleftrightarrow> length r < 256 * unat b0 + unat b1"
    by (simp only: read_size_eq of_nat_less_iff)
  ultimately show ?thesis by (simp only: split_packs.simps Let_def split_beta)
qed

declare split_packs.simps(1) [simp del]

lemma split_packs_complete:
  assumes "\<not> int (length r) < read_size b0 b1"
  defines "rest \<equiv> drop (nat (read_size b0 b1)) r"
  shows "outcome fd (fst (split_packs (b0 # b1 # r))) (snd (split_packs (b0 # b1 # r))) =
    (if rest = [] then Data fd r (int (length r)) else More)"
proof (cases "rest = []")
  case True
  then show ?thesis using assms(1) by (simp add: split_packs_step outcome_def rest_def)
next
  case False
  have "fst (split_packs rest) \<noteq> [] \<or> snd (split_packs rest) \<noteq> []"
    using False by (cases rest rule: split_packs.cases) (auto simp: split_packs_step)
  then show ?thesis using assms(1) False by (auto simp: split_packs_step outcome_def rest_def)
qed

definition splits :: "arg \<Rightarrow> int \<Rightarrow> byte list \<Rightarrow> arg \<Rightarrow> filtered \<Rightarrow> bool" where
  "splits L fd stream L' r \<longleftrightarrow>
     (let (ps, rem) = split_packs stream in
      r = outcome fd ps rem \<and> arg_wf L' \<and> unread L' = (unread L)(fd := rem) \<and> queued L' = queued L @ to_queue fd ps rem)"

lemma push_rest:
  assumes L: "arg_wf L" "unread L fd = []" and more: "\<not> int (length r) < read_size b0 b1" "drop (nat (read_size b0 b1)) r \<noteq> []"
    and room: "arg_room (length (fst (split_packs (b0 # b1 # r)))) L"
    and b: "b = take (nat (read_size b0 b1)) r \<or> clone \<and> b = r"
  shows "\<exists>q q'. push_data L fd b (read_size b0 b1) clone = Some q \<and>
    push_more (Userdata q) fd (drop (nat (read_size b0 b1)) r) = Some q' \<and>
    splits L fd (b0 # b1 # r) (Userdata q') More"
proof -
  define n where "n = nat (read_size b0 b1)"
  have n: "read_size b0 b1 = int n" using read_size_bounds [of b0 b1] by (simp add: n_def)
  have sp: "split_packs (b0 # b1 # r) = (take n r # fst (split_packs (drop n r)), snd (split_packs (drop n r)))"
    using more(1) by (simp add: split_packs_step n)
  obtain q where q: "push_data L fd b (int n) clone = Some q" "arg_wf (Userdata q)" "unread (Userdata q) = unread L"
      "queued (Userdata q) = queued L @ [mk_pack fd (take n r)]" "arg_room (length (fst (split_packs (drop n r)))) (Userdata q)"
    using push_data_spec [of L "length (fst (split_packs (drop n r)))" "take n r" "int n" b clone fd] L room sp more(1) b
    by (auto simp: n)
  obtain q' where q': "push_more (Userdata q) fd (drop n r) = Some q'" "arg_wf (Userdata q')"
      "unread (Userdata q') = (unread L)(fd := snd (split_packs (drop n r)))"
      "queued (Userdata q') = queued (Userdata q) @ map (mk_pack fd) (fst (split_packs (drop n r)))"
    using push_more_spec [of "Userdata q" fd "drop n r"] q L more(2) by (auto simp: n fun_eq_iff)
  have "outcome fd (take n r # fst (split_packs (drop n r))) (snd (split_packs (drop n r))) = More"
    using split_packs_complete [OF more(1), of fd] more(2) sp by (simp add: n)
  then show ?thesis
    using q q' by (simp add: splits_def sp n to_queue_def)
qed

lemma filter_fresh_spec:
  assumes "arg_wf L" "unread L fd = []" "data \<noteq> []" "arg_room (length (fst (split_packs data))) L"
  shows "\<exists>L' r. filter_fresh L fd data = Some (L', r) \<and> splits L fd data L' r"
proof (cases data rule: split_packs.cases)
  case (1 b0 b1 r)
  consider "int (length r) < read_size b0 b1" | "int (length r) = read_size b0 b1"
    | "\<not> int (length r) < read_size b0 b1" "int (length r) \<noteq> read_size b0 b1" by blast
  then show ?thesis
  proof cases
    case a: 1
    then show ?thesis using save_part [OF assms(1,2) a]
      by (simp add: 1 filter_fresh_def Let_def splits_def split_packs_step outcome_def to_queue_def)
  next
    case 2
    then show ?thesis using assms(1,2)
      by (simp add: 1 filter_fresh_def Let_def splits_def split_packs_step outcome_def to_queue_def fun_eq_iff flip: 2)
  next
    case 3
    then have "drop (nat (read_size b0 b1)) r \<noteq> []" using read_size_bounds [of b0 b1] by simp
    with push_rest [OF assms(1,2) 3(1) this, of r True] assms(4) 3 show ?thesis
      by (auto simp: 1 filter_fresh_def Let_def)
  qed
next
  case (3 b)
  then show ?thesis using save_one [OF assms(1,2), of b]
    by (simp add: filter_fresh_def splits_def outcome_def to_queue_def)
qed (use assms in simp)

lemma uc_start_spec:
  assumes "uc_ok uc" "data \<noteq> []"
  shows "\<exists>uc' bs b0 b1. uc_start uc data = Some (uc', bs) \<and> uc_id uc' = uc_id uc \<and> np_size (uc_pack uc') = read_size b0 b1 \<and>
    uc_read uc' = int (length (np_buffer (uc_pack uc'))) \<and> uc_read uc' \<le> read_size b0 b1 \<and>
    uc_bytes uc @ data = b0 # b1 # np_buffer (uc_pack uc') @ bs"
proof (cases "uc_read uc < 0")
  case True
  obtain b bs where data: "data = b # bs" using assms(2) by (cases data) auto
  have h: "uc_read uc = - 1" "0 \<le> uc_header uc" "uc_header uc < 256" using assms(1) True by (auto simp: uc_ok_def)
  then show ?thesis
    using read_size_bounds [of "of_int (uc_header uc)" b]
    by (auto simp: uc_start_def data uc_bytes_def header_or_eq)
next
  case False
  then have h: "0 \<le> uc_read uc" "uc_read uc < np_size (uc_pack uc)" "np_size (uc_pack uc) < 65536"
      "int (length (np_buffer (uc_pack uc))) = uc_read uc" using assms(1) by (auto simp: uc_ok_def)
  then obtain b0 b1 where "write_size (np_size (uc_pack uc)) = [b0, b1]" "read_size b0 b1 = np_size (uc_pack uc)"
    using read_write_size [of "np_size (uc_pack uc)"] by auto
  then show ?thesis using h by (auto simp: uc_start_def uc_bytes_def)
qed


lemma filter_fill_spec:
  assumes q: "arg_wf (Userdata q)" "unread (Userdata q) (uc_id uc) = []" and uc: "uc_ok uc" and data: "data \<noteq> []"
    and room: "arg_room (length (fst (split_packs (uc_bytes uc @ data)))) (Userdata q)"
  shows "\<exists>L' r. filter_fill q (uc_id uc) uc data = Some (L', r) \<and> splits (Userdata q) (uc_id uc) (uc_bytes uc @ data) L' r"
proof -
  obtain uc' bs b0 b1 where st: "uc_start uc data = Some (uc', bs)" "uc_id uc' = uc_id uc" "np_size (uc_pack uc') = read_size b0 b1"
      "uc_read uc' = int (length (np_buffer (uc_pack uc')))" "uc_read uc' \<le> read_size b0 b1"
      "uc_bytes uc @ data = b0 # b1 # np_buffer (uc_pack uc') @ bs"
    using uc_start_spec [OF uc data] by blast
  define buf n where "buf = np_buffer (uc_pack uc')" and "n = nat (read_size b0 b1)"
  have n: "read_size b0 b1 = int n" "length buf \<le> n" "n < 65536"
    using read_size_bounds [of b0 b1] st(4,5) by (auto simp: n_def buf_def)
  have ucr: "uc_read uc' = int (length buf)" using st(4) by (simp add: buf_def)
  note stream = st(6) [folded buf_def]
  show ?thesis
  proof (cases "length (buf @ bs) < n")
    case True
    define uc2 where "uc2 = uc'\<lparr>uc_pack := (uc_pack uc')\<lparr>np_buffer := buf @ bs\<rparr>, uc_read := int (length (buf @ bs))\<rparr>"
    have "filter_fill q (uc_id uc) uc data = Some (Userdata (put_uncomplete uc2 q), Silent)"
      using True n st by (simp add: filter_fill_def uc_copy_def ucr uc2_def buf_def [symmetric] Let_def)
    moreover have "uc_ok uc2" "uc_id uc2 = uc_id uc" "uc_bytes uc2 = b0 # b1 # buf @ bs"
      using True n st write_read_size [of b0 b1] by (auto simp: uc_ok_def uc2_def uc_bytes_def)
    ultimately show ?thesis
      using put_uncomplete_spec [OF q(1), of uc2] q(2) True
      by (simp add: stream splits_def split_packs_step n outcome_def to_queue_def)
  next
    case False
    define pk where "pk = take n (buf @ bs)"
    have pk: "pk = buf @ take (n - length buf) bs" using n by (simp add: pk_def)
    have need: "nat (read_size b0 b1 - uc_read uc') = n - length buf" by (simp add: n ucr)
    have rest: "drop (n - length buf) bs = drop n (buf @ bs)" using n by simp
    have "filter_fill q (uc_id uc) uc data =
        (if drop n (buf @ bs) = [] then Some (Userdata q, Data (uc_id uc) pk (int n))
         else do {
           q1 \<leftarrow> push_data (Userdata q) (uc_id uc) pk (int n) False;
           q2 \<leftarrow> push_more (Userdata q1) (uc_id uc) (drop n (buf @ bs));
           Some (Userdata q2, More) })"
      using False n st need unfolding rest [symmetric]
      by (simp add: filter_fill_def uc_copy_def ucr buf_def [symmetric] Let_def pk min_def) (auto simp: require_def)
    moreover have "splits (Userdata q) (uc_id uc) (b0 # b1 # buf @ bs) (Userdata q) (Data (uc_id uc) pk (int n))" if "drop n (buf @ bs) = []"
    proof -
      have "n = length (buf @ bs)" using that False by (simp only: drop_eq_Nil)
      then show ?thesis using q split_packs_complete [of "buf @ bs" b0 b1 "uc_id uc"]
      by (simp add: splits_def split_packs_step n outcome_def to_queue_def pk_def fun_eq_iff)
    qed
    moreover have "\<exists>q1 q2. push_data (Userdata q) (uc_id uc) pk (int n) False = Some q1 \<and>
        push_more (Userdata q1) (uc_id uc) (drop n (buf @ bs)) = Some q2 \<and>
        splits (Userdata q) (uc_id uc) (b0 # b1 # buf @ bs) (Userdata q2) More" if "drop n (buf @ bs) \<noteq> []"
      using push_rest [OF q, of "buf @ bs" b0 b1 pk False] that False room by (simp add: n stream pk_def)
    ultimately show ?thesis by (auto simp: stream)
  qed
qed

lemma filter_data_spec:
  assumes "arg_wf L" "data \<noteq> []" "arg_room (length (fst (split_packs (unread L fd @ data)))) L"
  shows "\<exists>L' r. filter_data L fd data = Some (L', r) \<and> splits L fd (unread L fd @ data) L' r"
proof -
  obtain L1 where L1: "find_uncomplete L fd = (tab_find (q_hash (get_queue L)) fd, L1)" "arg_wf L1" "unread L1 = (unread L)(fd := [])"
      "queued L1 = queued L" "\<And>n. arg_room n L1 = arg_room n L" "L1 = NoQueue \<longleftrightarrow> L = NoQueue"
    using find_uncomplete_spec [OF assms(1), of fd] by blast
  have same: "splits L1 fd s L' r = splits L fd s L' r" for s L' r
    by (simp add: splits_def L1 split_beta)
  show ?thesis
  proof (cases "tab_find (q_hash (get_queue L)) fd")
    case None
    then have "unread L fd = []" by (simp add: unread_def tab_pending_Nil)
    with None show ?thesis
      using filter_fresh_spec [OF L1(2), of fd data] assms L1 by (simp add: filter_data_def same)
  next
    case (Some uc)
    then have "L \<noteq> NoQueue" by (metis NoQueue_wf(2) option.distinct(1) tab_pending_Nil unread_def)
    then obtain q where q: "L1 = Userdata q" using L1(6) by (cases L1) auto
    have uc: "uc_ok uc" "uc_id uc = fd" using tab_find_ok Some assms(1) by (auto simp: arg_wf_def)
    have "unread L fd = uc_bytes uc" using Some by (simp add: unread_def tab_pending_def)
    with Some show ?thesis
      using filter_fill_spec [of q uc data] uc assms L1 by (auto simp: filter_data_def q same [unfolded q])
  qed
qed


lemma split_packs_append:
  "split_packs (a @ b) =
     (fst (split_packs a) @ fst (split_packs (snd (split_packs a) @ b)), snd (split_packs (snd (split_packs a) @ b)))"
proof (induction a rule: split_packs.induct)
  case (1 b0 b1 r)
  define n where "n = nat (read_size b0 b1)"
  have n: "read_size b0 b1 = int n" "n = 256 * unat b0 + unat b1" unfolding n_def read_size_eq by (simp_all only: nat_int)
  show ?case
  proof (cases "length r < n")
    case False
    then have d: "drop n (r @ b) = drop n r @ b" "take n (r @ b) = take n r" by simp_all
    have "split_packs (drop n r @ b) = (fst (split_packs (drop n r)) @ fst (split_packs (snd (split_packs (drop n r)) @ b)),
        snd (split_packs (snd (split_packs (drop n r)) @ b)))"
      using 1 [OF n(2)] False by blast
    then show ?thesis using False by (simp add: split_packs_step n(1) d)
  qed (simp add: split_packs_step n(1))
qed simp_all

lemma length_split_packs: "length (fst (split_packs s)) \<le> length s"
proof (induction s rule: split_packs.induct)
  case (1 b0 b1 r)
  define n where "n = 256 * unat b0 + unat b1"
  have "\<not> length r < n \<Longrightarrow> length (fst (split_packs (drop n r))) \<le> length (drop n r)"
    using 1 by (simp add: n_def)
  then show ?case by (cases "length r < n") (simp_all add: split_packs.simps(1) n_def [symmetric] Let_def split_beta)
qed simp_all

lemma length_unread: "arg_wf L \<Longrightarrow> length (unread L fd) < 65538"
  using tab_find_ok [of "q_hash (get_queue L)" fd]
  by (auto simp: arg_wf_def unread_def tab_pending_def uc_ok_def uc_bytes_def write_size_def split: option.split)

section \<open>Any number of connections\<close>

text \<open>A consumer that takes all packages out of the queue when \<open>filter\<close> returns \<open>more\<close>.\<close>

partial_function (option) drain :: "arg \<Rightarrow> (netpack list \<times> arg) option" where
  "drain L = do {
     (np, L') \<leftarrow> lpop L;
     (case np of
        None \<Rightarrow> Some ([], L')
      | Some p \<Rightarrow> do { (ps, L'') \<leftarrow> drain L'; Some (p # ps, L'') }) }"

fun feed :: "(int \<times> byte list) list \<Rightarrow> arg \<Rightarrow> ((int \<times> byte list) list \<times> arg) option" where
  "feed [] L = Some ([], L)"
| "feed ((fd, data) # ms) L = do {
     (L1, r) \<leftarrow> filter_data L fd data;
     (out, L2) \<leftarrow> (case r of
         Data f b sz \<Rightarrow> Some ([(f, b)], L1)
       | More \<Rightarrow> map_option (\<lambda>(ps, L2). (map (\<lambda>p. (np_id p, np_buffer p)) ps, L2)) (drain L1)
       | _ \<Rightarrow> Some ([], L1));
     (outs, L3) \<leftarrow> feed ms L2;
     Some (out @ outs, L3) }"

definition of_fd :: "int \<Rightarrow> (int \<times> byte list) list \<Rightarrow> byte list list" where
  "of_fd fd ms = map snd (filter (\<lambda>m. fst m = fd) ms)"

lemma drain_spec:
  "arg_wf L \<Longrightarrow> \<exists>L'. drain L = Some (queued L, L') \<and> arg_wf L' \<and> unread L' = unread L \<and> queued L' = []"
proof (induction "queued L" arbitrary: L)
  case Nil
  then have "lpop L = Some (None, L)"
    using pop_pack_Nil by (cases L) (auto simp: lpop_def queued_def arg_wf_def)
  then show ?case using Nil by (subst drain.simps) (simp add: Nil)
next
  case (Cons m ms)
  then obtain q where L: "L = Userdata q" by (cases L) auto
  obtain q' where q': "pop_pack q = Some (Some m, q')" "np_wf q'" "np_list q' = ms" "q_hash q' = q_hash q" "q_cap q' = q_cap q"
    using pop_pack_Cons [of q m ms] Cons by (auto simp: L arg_wf_def queued_def)
  have w: "arg_wf (Userdata q')" "queued (Userdata q') = ms" "unread (Userdata q') = unread L"
    using q' Cons(3) by (simp_all add: L arg_wf_def queued_def unread_def)
  obtain L' where "drain (Userdata q') = Some (ms, L')" "arg_wf L'" "unread L' = unread L" "queued L' = []"
    using Cons(1) [of "Userdata q'"] w by auto
  moreover have "queued L = m # ms" using Cons(2) by simp
  ultimately show ?case using q' by (subst drain.simps) (simp add: L lpop_def)
qed


lemma outcome_deliver:
  assumes "r = outcome fd ps rem" "arg_wf L1" "queued L1 = to_queue fd ps rem"
  shows "\<exists>L2. (case r of
         Data f b sz \<Rightarrow> Some ([(f, b)], L1)
       | More \<Rightarrow> map_option (\<lambda>(ps, L2). (map (\<lambda>p. (np_id p, np_buffer p)) ps, L2)) (drain L1)
       | _ \<Rightarrow> Some ([], L1)) = Some (map (Pair fd) ps, L2) \<and> arg_wf L2 \<and> unread L2 = unread L1 \<and> queued L2 = []"
proof -
  consider "ps = []" | p where "ps = [p]" "rem = []" | "r = More"
    using assms(1) by (cases ps) (auto simp: outcome_def split: if_splits)
  then show ?thesis
  proof cases
    case 3
    then obtain L2 where "drain L1 = Some (map (mk_pack fd) ps, L2)" "arg_wf L2" "unread L2 = unread L1" "queued L2 = []"
      using drain_spec [OF assms(2)] assms by (auto simp: to_queue_def)
    then show ?thesis using 3 by (simp add: mk_pack_def o_def)
  qed (use assms in \<open>auto simp: outcome_def to_queue_def\<close>)
qed

lemma feed_spec:
  "arg_wf L \<Longrightarrow> queued L = [] \<Longrightarrow> \<forall>(fd, d) \<in> set ms. d \<noteq> [] \<and> length d < 2 ^ 28 \<Longrightarrow>
   \<exists>out L'. feed ms L = Some (out, L') \<and> arg_wf L' \<and> queued L' = [] \<and>
     (\<forall>fd. split_packs (unread L fd @ concat (of_fd fd ms)) = (of_fd fd out, unread L' fd))"
proof (induction ms arbitrary: L)
  case Nil
  have "split_packs (unread L fd) = ([], unread L fd)" for fd
  proof (cases "tab_find (q_hash (get_queue L)) fd")
    case (Some uc)
    then have uc: "uc_ok uc" "unread L fd = uc_bytes uc"
      using tab_find_ok Nil(1) by (auto simp: arg_wf_def unread_def tab_pending_def)
    show ?thesis
    proof (cases "uc_read uc < 0")
      case False
      then obtain b0 b1 where "write_size (np_size (uc_pack uc)) = [b0, b1]" "read_size b0 b1 = np_size (uc_pack uc)"
        using read_write_size [of "np_size (uc_pack uc)"] uc by (auto simp: uc_ok_def)
      then show ?thesis using False uc by (simp add: uc_bytes_def split_packs_step uc_ok_def)
    qed (simp add: uc uc_bytes_def)
  qed (simp add: unread_def tab_pending_def)
  then show ?case using Nil by (simp add: of_fd_def)
next
  case (Cons m ms)
  obtain fd d where m: "m = (fd, d)" by (cases m)
  define s where "s = unread L fd @ d"
  have d: "d \<noteq> []" "length d < 2 ^ 28" using Cons.prems by (auto simp: m)
  have "length (fst (split_packs s)) \<le> 2 ^ 29"
    using length_split_packs [of s] length_unread [OF Cons.prems(1), of fd] d by (simp add: s_def)
  then have room: "arg_room (length (fst (split_packs s))) L"
    using Cons.prems by (intro arg_roomI) simp_all
  obtain L1 r where f: "filter_data L fd d = Some (L1, r)" "splits L fd s L1 r"
    using filter_data_spec [OF Cons.prems(1) d(1), of fd] room by (auto simp: s_def)
  define ps rem where "ps = fst (split_packs s)" and "rem = snd (split_packs s)"
  have L1: "r = outcome fd ps rem" "arg_wf L1" "unread L1 = (unread L)(fd := rem)" "queued L1 = to_queue fd ps rem"
    using f(2) Cons.prems(2) by (auto simp: splits_def ps_def rem_def split_beta)
  obtain L2 where L2: "(case r of
         Data f b sz \<Rightarrow> Some ([(f, b)], L1)
       | More \<Rightarrow> map_option (\<lambda>(ps, L2). (map (\<lambda>p. (np_id p, np_buffer p)) ps, L2)) (drain L1)
       | _ \<Rightarrow> Some ([], L1)) = Some (map (Pair fd) ps, L2)" "arg_wf L2" "unread L2 = unread L1" "queued L2 = []"
    using outcome_deliver [OF L1(1,2,4)] by blast
  obtain out L' where IH: "feed ms L2 = Some (out, L')" "arg_wf L'" "queued L' = []"
      "\<And>g. split_packs (unread L2 g @ concat (of_fd g ms)) = (of_fd g out, unread L' g)"
    using Cons.IH [OF L2(2,4)] Cons.prems(3) by auto
  have "feed (m # ms) L = Some (map (Pair fd) ps @ out, L')"
    using f(1) L2(1) IH(1) by (simp add: m)
  moreover have "split_packs (unread L g @ concat (of_fd g (m # ms))) = (of_fd g (map (Pair fd) ps @ out), unread L' g)" for g
  proof (cases "g = fd")
    case True
    have "split_packs (s @ concat (of_fd fd ms)) = (ps @ of_fd fd out, unread L' fd)"
      using split_packs_append [of s "concat (of_fd fd ms)"] IH(4) [of fd] by (simp add: L2 L1 ps_def rem_def)
    then show ?thesis using True by (simp add: s_def m of_fd_def filter_map o_def)
  next
    case False
    then show ?thesis using IH(4) [of g] by (simp add: L2 L1 m of_fd_def filter_map o_def)
  qed
  ultimately show ?case using IH by blast
qed


lemma split_packs_lpack:
  assumes "\<forall>p \<in> set ps. length p < 65536"
  shows "split_packs (concat (map (\<lambda>p. write_size (int (length p)) @ p) ps)) = (ps, [])"
  using assms
proof (induction ps)
  case (Cons p ps)
  then obtain b0 b1 where "write_size (int (length p)) = [b0, b1]" "read_size b0 b1 = int (length p)"
    using read_write_size [of "int (length p)"] by auto
  then show ?case using Cons by (simp add: split_packs_step)
qed simp

section \<open>Properties\<close>

text \<open>C20: Whatever non-empty pieces (of less than 256 MB) of any number of connections arrive in
  whatever order, a consumer that takes the package returned by \<open>filter\<close>, and empties the queue when
  told that there is more, receives for every connection exactly the packages at the front of the
  stream of that connection, in order; the incomplete rest is kept, per connection, and the queue is
  empty again.  No call faults, through every growth of the ring.\<close>

theorem netpack_streams:
  assumes "\<forall>(fd, d) \<in> set ms. d \<noteq> [] \<and> length d < 2 ^ 28"
  shows "\<exists>out L. feed ms NoQueue = Some (out, L) \<and> queued L = [] \<and>
    (\<forall>fd. split_packs (concat (of_fd fd ms)) = (of_fd fd out, unread L fd))"
  using feed_spec [of NoQueue ms] assms by auto

theorem netpack_streams_witness:
  "\<exists>out L. feed [(1, [0]), (2, [0, 1]), (1, [1, 7, 0]), (2, [9]), (1, [0])] NoQueue = Some (out, L) \<and> queued L = [] \<and>
    (\<forall>fd. split_packs (concat (of_fd fd [(1, [0]), (2, [0, 1]), (1, [1, 7, 0]), (2, [9]), (1, [0])])) = (of_fd fd out, unread L fd))"
  by (rule netpack_streams) simp

text \<open>C21: Packages built with \<open>pack\<close>, written to a connection one after the other and received in
  pieces of any sizes, mixed with the pieces of other connections, are received unchanged and in
  order, and nothing is left over.\<close>

theorem netpack_roundtrip:
  assumes "\<forall>(fd, d) \<in> set ms. d \<noteq> [] \<and> length d < 2 ^ 28"
    and "map lpack packs = map Inr wire" and "concat (of_fd fd ms) = concat wire"
  shows "\<exists>out L. feed ms NoQueue = Some (out, L) \<and> of_fd fd out = packs \<and> unread L fd = []"
proof -
  have len: "\<forall>p \<in> set packs. length p < 65536"
  proof
    fix p assume "p \<in> set packs"
    then have "lpack p \<in> set (map Inr wire)" using assms(2) by (metis image_eqI list.set_map)
    then show "length p < 65536" by (auto simp: lpack_def split: if_splits)
  qed
  then have "wire = map (\<lambda>p. write_size (int (length p)) @ p) packs"
    using assms(2)
    by (induction packs arbitrary: wire) (auto simp: lpack_def split: if_splits)
  then have sp: "split_packs (concat wire) = (packs, [])" using split_packs_lpack [OF len] by simp
  obtain out L where "feed ms NoQueue = Some (out, L)" "\<forall>g. split_packs (concat (of_fd g ms)) = (of_fd g out, unread L g)"
    using feed_spec [of NoQueue ms] assms(1) by auto
  then show ?thesis using sp assms(3) by (metis prod.inject)
qed

theorem netpack_roundtrip_witness:
  "\<exists>out L. feed [(5, [0, 2, 104, 105, 0]), (6, [1]), (5, [1, 33])] NoQueue = Some (out, L) \<and> of_fd 5 out = [[104, 105], [33]] \<and> unread L 5 = []"
proof (rule netpack_roundtrip [where wire = "[[0, 2, 104, 105], [0, 1, 33]]"])
  show "map lpack [[104, 105], [33]] = map Inr [[0, 2, 104, 105], [0, 1, 33]]" by (simp add: lpack_def write_size_eq)
qed (simp_all add: of_fd_def)

text \<open>When a connection is closed or fails, \<open>filter\<close> reports it and forgets the incomplete
  package of that connection and of no other; the complete packages stay in the queue.\<close>

lemma lfilter_close_forgets:
  assumes "arg_wf L" "ssm_buffer msg = None" "ssm_type msg = SKYNET_SOCKET_TYPE_CLOSE \<or> ssm_type msg = SKYNET_SOCKET_TYPE_ERROR"
  shows "\<exists>L'. lfilter content L msg padding =
      Some (L', if ssm_type msg = SKYNET_SOCKET_TYPE_CLOSE then Close (ssm_id msg) else Error (ssm_id msg) padding) \<and>
    arg_wf L' \<and> unread L' = (unread L)(ssm_id msg := []) \<and> queued L' = queued L"
  using find_uncomplete_spec [OF assms(1), of "ssm_id msg"] assms(2,3)
  by (auto simp: lfilter_def socket_types close_uncomplete_def pushstring_def)

end
