(* ===== verification/Skynet_Netpack_Mem.thy ===== *)
theory Skynet_Netpack_Mem
  imports Skynet_Netpack
begin

text \<open>
  The memory of the package splitter.  \<open>Skynet_Netpack\<close> computes with the contents of the queue;
  here the queue, the nodes of its hash chains and the buffers of its packages are blocks at
  addresses, with the pointers of the source, so that a block freed twice and a read of a freed
  node fault.  \<open>clear\<close> is translated on this memory, and \<open>queue_repr\<close> says how a queue is laid out: every
  node and buffer is a live block of its own.
\<close>

section \<open>Pointers and blocks\<close>

record c_netpack =
  cp_id :: int
  cp_size :: int
  cp_buffer :: "addr option"

record c_uncomplete =
  cu_pack :: c_netpack
  cu_next :: "addr option"
  cu_read :: int
  cu_header :: int

record c_queue =
  cq_cap :: nat
  cq_head :: nat
  cq_tail :: nat
  cq_hash :: "addr option list"
  cq_queue :: "c_netpack option list"

datatype np_block = Pack_Buffer "byte list" | Pack_Node c_uncomplete

type_synonym np_mem = "addr \<rightharpoonup> np_block"

definition np_free :: "addr option \<Rightarrow> np_mem \<Rightarrow> np_mem option" where
  "np_free p m =
     (case p of
        None \<Rightarrow> Some m
      | Some a \<Rightarrow> do { require (m a \<noteq> None); Some (m(a := None)) })"

definition node_at :: "np_mem \<Rightarrow> addr \<Rightarrow> c_uncomplete option" where
  "node_at m a = (case m a of Some (Pack_Node uc) \<Rightarrow> Some uc | _ \<Rightarrow> None)"

section \<open>Clearing a queue\<close>

text \<open>The buffer is freed first, \<open>next\<close> is read from the node while it is still allocated, then
  the node is freed.\<close>

partial_function (option) clear_list :: "addr option \<Rightarrow> np_mem \<Rightarrow> np_mem option" where
  "clear_list uc m =
     (case uc of
        None \<Rightarrow> Some m
      | Some tmp \<Rightarrow> do {
          node \<leftarrow> node_at m tmp;
          m1 \<leftarrow> np_free (cp_buffer (cu_pack node)) m;
          node1 \<leftarrow> node_at m1 tmp;
          m2 \<leftarrow> np_free (Some tmp) m1;
          clear_list (cu_next node1) m2 })"

fun clear_hash :: "addr option list \<Rightarrow> np_mem \<Rightarrow> np_mem option" where
  "clear_hash [] m = Some m"
| "clear_hash (uc # hash) m = do { m1 \<leftarrow> clear_list uc m; clear_hash hash m1 }"

fun clear_packs :: "c_netpack option list \<Rightarrow> nat \<Rightarrow> nat list \<Rightarrow> np_mem \<Rightarrow> np_mem option" where
  "clear_packs queue cap [] m = Some m"
| "clear_packs queue cap (i # is) m = do {
     slot \<leftarrow> aget queue (int (i mod cap));
     np \<leftarrow> slot;
     m1 \<leftarrow> np_free (cp_buffer np) m;
     clear_packs queue cap is m1 }"

definition lclear :: "c_queue option \<Rightarrow> np_mem \<Rightarrow> (c_queue option \<times> np_mem) option" where
  "lclear L m =
     (case L of
        None \<Rightarrow> Some (None, m)
      | Some q \<Rightarrow> do {
          m1 \<leftarrow> clear_hash (cq_hash q) m;
          tail \<leftarrow> (if cq_head q > cq_tail q then cint (int (cq_tail q) + int (cq_cap q)) else Some (int (cq_tail q)));
          m2 \<leftarrow> clear_packs (cq_queue q) (cq_cap q) [cq_head q..<nat tail] m1;
          Some (Some (q\<lparr>cq_hash := map (\<lambda>_. None) (cq_hash q), cq_head := 0, cq_tail := 0\<rparr>), m2) })"

section \<open>How a queue is laid out\<close>

text \<open>\<open>bs\<close> are the addresses of the blocks.  A node whose size is not known yet has no buffer
  (\<open>memset\<close> cleared the pointer).\<close>

definition buffer_repr :: "np_mem \<Rightarrow> addr option \<Rightarrow> byte list \<Rightarrow> addr list \<Rightarrow> bool" where
  "buffer_repr m p data bs \<longleftrightarrow> (case p of None \<Rightarrow> False | Some b \<Rightarrow> m b = Some (Pack_Buffer data) \<and> bs = [b])"

definition node_repr :: "np_mem \<Rightarrow> c_uncomplete \<Rightarrow> uncomplete \<Rightarrow> addr list \<Rightarrow> bool" where
  "node_repr m c uc bs \<longleftrightarrow> cp_id (cu_pack c) = np_id (uc_pack uc) \<and> cp_size (cu_pack c) = np_size (uc_pack uc) \<and>
     cu_read c = uc_read uc \<and> cu_header c = uc_header uc \<and>
     (if uc_read uc < 0 then cp_buffer (cu_pack c) = None \<and> bs = []
      else buffer_repr m (cp_buffer (cu_pack c)) (np_buffer (uc_pack uc)) bs)"

fun chain_repr :: "np_mem \<Rightarrow> addr option \<Rightarrow> uncomplete list \<Rightarrow> addr list \<Rightarrow> bool" where
  "chain_repr m p [] as \<longleftrightarrow> p = None \<and> as = []"
| "chain_repr m p (uc # us) as \<longleftrightarrow>
     (\<exists>a c bs as'. p = Some a \<and> m a = Some (Pack_Node c) \<and> node_repr m c uc bs \<and>
        chain_repr m (cu_next c) us as' \<and> as = a # bs @ as')"

fun hash_repr :: "np_mem \<Rightarrow> addr option list \<Rightarrow> uncomplete list list \<Rightarrow> addr list \<Rightarrow> bool" where
  "hash_repr m [] [] as \<longleftrightarrow> as = []"
| "hash_repr m (p # ps) (us # uss) as \<longleftrightarrow>
     (\<exists>bs cs. chain_repr m p us bs \<and> hash_repr m ps uss cs \<and> as = bs @ cs)"
| "hash_repr m _ _ as \<longleftrightarrow> False"

definition pack_repr :: "np_mem \<Rightarrow> c_netpack \<Rightarrow> netpack \<Rightarrow> addr \<Rightarrow> bool" where
  "pack_repr m c np a \<longleftrightarrow> cp_id c = np_id np \<and> cp_size c = np_size np \<and> cp_buffer c = Some a \<and>
     m a = Some (Pack_Buffer (np_buffer np))"

text \<open>The slots of the ring between head and tail hold the packages of the queue in order.\<close>

definition ring_repr :: "np_mem \<Rightarrow> c_queue \<Rightarrow> netpack list \<Rightarrow> addr list \<Rightarrow> bool" where
  "ring_repr m cq nps as \<longleftrightarrow> length (cq_queue cq) = cq_cap cq \<and> length as = length nps \<and>
     (\<forall>i < length nps. \<exists>c. cq_queue cq ! ((cq_head cq + i) mod cq_cap cq) = Some c \<and> pack_repr m c (nps ! i) (as ! i))"

definition queue_repr :: "np_mem \<Rightarrow> c_queue \<Rightarrow> queue \<Rightarrow> addr list \<Rightarrow> bool" where
  "queue_repr m cq q as \<longleftrightarrow> cq_cap cq = q_cap q \<and> cq_head cq = q_head q \<and> cq_tail cq = q_tail q \<and> distinct as \<and>
     (\<exists>bs cs. hash_repr m (cq_hash cq) (q_hash q) bs \<and> ring_repr m cq (np_list q) cs \<and> as = bs @ cs)"

section \<open>Every block is freed once\<close>

abbreviation forget :: "np_mem \<Rightarrow> addr set \<Rightarrow> np_mem" where
  "forget m A \<equiv> m |` (- A)"

lemma forget_Nil [simp]: "forget m {} = m"
  by (simp add: restrict_map_def)

lemma node_repr_frame:
  "node_repr m c uc bs \<Longrightarrow> A \<inter> set bs = {} \<Longrightarrow> node_repr (forget m A) c uc bs"
  by (auto simp: node_repr_def buffer_repr_def restrict_map_def split: option.splits if_splits)

lemma chain_repr_frame:
  "chain_repr m p us as \<Longrightarrow> A \<inter> set as = {} \<Longrightarrow> chain_repr (forget m A) p us as"
proof (induction us arbitrary: p as)
  case (Cons uc us)
  then obtain a c bs as' where "p = Some a" "m a = Some (Pack_Node c)" "node_repr m c uc bs"
    "chain_repr m (cu_next c) us as'" "as = a # bs @ as'" by auto
  moreover from this Cons.prems(2) have "forget m A a = Some (Pack_Node c)" by (simp add: restrict_map_def)
  moreover have "node_repr (forget m A) c uc bs"
    using calculation Cons.prems(2) by (intro node_repr_frame) auto
  moreover have "chain_repr (forget m A) (cu_next c) us as'"
    using calculation Cons by auto
  ultimately show ?case by auto
qed simp

lemma hash_repr_frame:
  "hash_repr m ps uss as \<Longrightarrow> A \<inter> set as = {} \<Longrightarrow> hash_repr (forget m A) ps uss as"
  by (induction m ps uss as rule: hash_repr.induct) (fastforce intro: chain_repr_frame)+

lemma free_node:
  assumes "node_repr m c uc bs" "m a = Some (Pack_Node c)" "distinct (a # bs)"
  shows "\<exists>m1. np_free (cp_buffer (cu_pack c)) m = Some m1 \<and> node_at m1 a = Some c \<and>
    np_free (Some a) m1 = Some (forget m (set (a # bs)))"
proof (cases "cp_buffer (cu_pack c)")
  case None
  then have "bs = []" using assms(1) by (auto simp: node_repr_def buffer_repr_def split: if_splits)
  then show ?thesis using None assms(2) by (auto simp: np_free_def node_at_def restrict_map_def)
next
  case (Some b)
  then have "bs = [b]" "m b \<noteq> None"
    using assms(1) by (auto simp: node_repr_def buffer_repr_def split: if_splits)
  then show ?thesis using Some assms(2,3)
    by (intro exI [of _ "m(b := None)"]) (auto simp: np_free_def node_at_def restrict_map_def)
qed

lemma clear_list_frees:
  "chain_repr m p us as \<Longrightarrow> distinct as \<Longrightarrow> clear_list p m = Some (forget m (set as))"
proof (induction us arbitrary: m p as)
  case Nil
  then show ?case by (simp add: clear_list.simps)
next
  case (Cons uc us)
  then obtain a c bs as' where p: "p = Some a" "m a = Some (Pack_Node c)" "node_repr m c uc bs"
    "chain_repr m (cu_next c) us as'" "as = a # bs @ as'" by auto
  obtain m1 where m1: "np_free (cp_buffer (cu_pack c)) m = Some m1" "node_at m1 a = Some c"
    "np_free (Some a) m1 = Some (forget m (set (a # bs)))"
    using free_node [OF p(3,2)] Cons.prems(2) p(5) by auto
  have "chain_repr (forget m (set (a # bs))) (cu_next c) us as'"
    using p(4) by (rule chain_repr_frame) (use Cons.prems(2) p(5) in auto)
  then have "clear_list (cu_next c) (forget m (set (a # bs))) = Some (forget (forget m (set (a # bs))) (set as'))"
    using Cons.IH Cons.prems(2) p(5) by auto
  moreover have "- set (a # bs) \<inter> - set as' = - set as" using p(5) by auto
  ultimately have "clear_list (cu_next c) (forget m (set (a # bs))) = Some (forget m (set as))"
    by (simp only: restrict_restrict)
  then show ?case using p(1,2) m1 by (subst clear_list.simps) (simp add: node_at_def)
qed

lemma clear_hash_frees:
  "hash_repr m ps uss as \<Longrightarrow> distinct as \<Longrightarrow> clear_hash ps m = Some (forget m (set as))"
proof (induction ps arbitrary: m uss as)
  case Nil
  then show ?case by (cases uss) auto
next
  case (Cons p ps)
  then obtain us uss' bs cs where u: "chain_repr m p us bs" "hash_repr m ps uss' cs" "as = bs @ cs"
    by (cases uss) auto
  have "hash_repr (forget m (set bs)) ps uss' cs"
    using u(2) by (rule hash_repr_frame) (use Cons.prems(2) u(3) in auto)
  then have "clear_hash ps (forget m (set bs)) = Some (forget (forget m (set bs)) (set cs))"
    using Cons.IH Cons.prems(2) u(3) by auto
  moreover have "- set bs \<inter> - set cs = - set as" using u(3) by auto
  ultimately have "clear_hash ps (forget m (set bs)) = Some (forget m (set as))"
    by (simp only: restrict_restrict)
  then show ?case using clear_list_frees [OF u(1)] Cons.prems(2) u(3) by simp
qed

lemma clear_packs_frees:
  assumes "length queue = cap" "0 < cap" "length as = length is" "distinct as"
    and "\<And>k. k < length is \<Longrightarrow> \<exists>c. queue ! (is ! k mod cap) = Some c \<and> cp_buffer c = Some (as ! k) \<and> m (as ! k) \<noteq> None"
  shows "clear_packs queue cap is m = Some (forget m (set as))"
  using assms
proof (induction "is" as arbitrary: m rule: list_induct2')
  case (4 i "is" a as)
  obtain c where c: "queue ! (i mod cap) = Some c" "cp_buffer c = Some a" "m a \<noteq> None"
    using 4(6) [of 0] by auto
  have "clear_packs queue cap is (m(a := None)) = Some (forget (m(a := None)) (set as))"
  proof (rule 4(1))
    fix k assume k: "k < length is"
    then show "\<exists>c. queue ! (is ! k mod cap) = Some c \<and> cp_buffer c = Some (as ! k) \<and> (m(a := None)) (as ! k) \<noteq> None"
      using 4(6) [of "Suc k"] 4(4,5) by auto
  qed (use 4 in auto)
  moreover have "forget (m(a := None)) (set as) = forget m (set (a # as))"
    by (auto simp: restrict_map_def)
  ultimately show ?case using c 4(2,3) by (simp add: np_free_def)
qed auto

lemma ring_slots_upt:
  assumes "np_wf q"
  defines "t \<equiv> (if q_head q > q_tail q then q_tail q + q_cap q else q_tail q)"
  shows "[q_head q..<t] = map (\<lambda>i. q_head q + i) [0..<np_len q]"
  using np_len_cases [OF assms(1)] assms(1) by (intro nth_equalityI) (auto simp: t_def np_wf_def)

lemma queue_repr_clear:
  assumes wf: "np_wf q" and cap: "q_cap q \<le> 2 ^ 30" and repr: "queue_repr m cq q as"
  shows "lclear (Some cq) m =
    Some (Some (cq\<lparr>cq_hash := map (\<lambda>_. None) (cq_hash cq), cq_head := 0, cq_tail := 0\<rparr>), forget m (set as))"
proof -
  obtain bs cs where h: "hash_repr m (cq_hash cq) (q_hash q) bs" and r: "ring_repr m cq (np_list q) cs"
    and as: "as = bs @ cs" "distinct as" and eq: "cq_cap cq = q_cap q" "cq_head cq = q_head q" "cq_tail cq = q_tail q"
    using repr by (auto simp: queue_repr_def)
  have b: "0 < q_cap q" "q_tail q < q_cap q" using wf by (auto simp: np_wf_def)
  define t where "t = (if q_head q > q_tail q then q_tail q + q_cap q else q_tail q)"
  have t: "(if cq_head cq > cq_tail cq then cint (int (cq_tail cq) + int (cq_cap cq)) else Some (int (cq_tail cq))) = Some (int t)"
    using b cap eq by (auto simp: t_def cint_def cint_ok_def)
  have upt: "[q_head q..<t] = map (\<lambda>i. q_head q + i) [0..<np_len q]"
    using ring_slots_upt [OF wf] by (simp add: t_def)
  have lc: "length cs = np_len q" using r by (simp add: ring_repr_def)
  have "clear_packs (cq_queue cq) (q_cap q) [q_head q..<t] (forget m (set bs)) = Some (forget (forget m (set bs)) (set cs))"
  proof (rule clear_packs_frees)
    show "length cs = length [q_head q..<t]" using lc upt by simp
    fix k assume "k < length [q_head q..<t]"
    then have k: "k < np_len q" "[q_head q..<t] ! k = q_head q + k" using upt by auto
    then obtain c where c: "cq_queue cq ! ((q_head q + k) mod q_cap q) = Some c" "pack_repr m c (np_list q ! k) (cs ! k)"
      using r eq by (auto simp: ring_repr_def)
    moreover have "cs ! k \<notin> set bs" using as k(1) lc by (metis disjoint_iff distinct_append nth_mem)
    ultimately show "\<exists>c. cq_queue cq ! ([q_head q..<t] ! k mod q_cap q) = Some c \<and> cp_buffer c = Some (cs ! k) \<and>
        forget m (set bs) (cs ! k) \<noteq> None"
      using k(2) by (auto simp: pack_repr_def restrict_map_def)
  qed (use r eq b as in \<open>auto simp: ring_repr_def\<close>)
  moreover have "- set bs \<inter> - set cs = - set as" using as by auto
  ultimately have "clear_packs (cq_queue cq) (q_cap q) [q_head q..<t] (forget m (set bs)) = Some (forget m (set as))"
    by (simp only: restrict_restrict)
  then show ?thesis using clear_hash_frees [OF h] as t eq by (simp add: lclear_def)
qed

lemma hash_repr_None: "hash_repr m (replicate n None) (replicate n []) []"
  by (induction n) auto

lemma hash_repr_length: "hash_repr m ps uss as \<Longrightarrow> length ps = length uss"
  by (induction m ps uss as rule: hash_repr.induct) auto

definition cleared :: "queue \<Rightarrow> queue" where
  "cleared q = q\<lparr>q_hash := replicate HASHSIZE [], q_head := 0, q_tail := 0\<rparr>"

text \<open>C22: \<open>clear\<close> on a queue laid out in memory returns normally (so it frees no block twice and
  reads no freed node), frees exactly the blocks of the queue, which are the nodes of the incomplete
  packages, their buffers and the buffers of the packages still in the ring, leaves every other block
  as it was, and leaves the layout of an empty queue.\<close>

theorem lclear_frees_all:
  assumes wf: "arg_wf (Userdata q)" and repr: "queue_repr m cq q as"
  shows "\<exists>cq'. lclear (Some cq) m = Some (Some cq', m |` (- set as)) \<and>
    queue_repr (m |` (- set as)) cq' (cleared q) [] \<and> arg_wf (Userdata (cleared q)) \<and>
    queued (Userdata (cleared q)) = [] \<and> unread (Userdata (cleared q)) = (\<lambda>_. [])"
proof -
  define cq' where "cq' = cq\<lparr>cq_hash := map (\<lambda>_. None) (cq_hash cq), cq_head := 0, cq_tail := 0\<rparr>"
  have q: "np_wf q" "q_cap q \<le> 2 ^ 30" "length (q_hash q) = HASHSIZE"
    using wf by (auto simp: arg_wf_def tab_wf_def)
  have wf': "arg_wf (Userdata (cleared q)) \<and> queued (Userdata (cleared q)) = []"
    using wf by (auto simp: arg_wf_def cleared_def np_wf_def tab_wf_def queued_def np_list_def np_len_def)
  moreover have "unread (Userdata (cleared q)) = (\<lambda>_. [])"
    by (auto simp: cleared_def unread_def tab_pending_def tab_find_def fun_eq_iff)
  moreover have "queue_repr (m |` (- set as)) cq' (cleared q) []"
  proof -
    obtain bs cs where h: "hash_repr m (cq_hash cq) (q_hash q) bs" and r: "ring_repr m cq (np_list q) cs"
      and eq: "cq_cap cq = q_cap q" using repr by (auto simp: queue_repr_def)
    have "cq_hash cq' = replicate HASHSIZE None"
      using hash_repr_length [OF h] q(3) by (simp add: cq'_def map_replicate_const)
    then have "hash_repr (m |` (- set as)) (cq_hash cq') (q_hash (cleared q)) []"
      using hash_repr_None by (simp add: cleared_def)
    then show ?thesis using wf' r eq
      by (auto simp: queue_repr_def cq'_def cleared_def ring_repr_def queued_def)
  qed
  ultimately show ?thesis using queue_repr_clear [OF q(1,2) repr] by (auto simp: cq'_def)
qed

text \<open>Two incomplete packages in one chain, the first with only one byte of its size, and one package
  in the ring.\<close>

definition sample_chain :: "uncomplete list" where
  "sample_chain =
     [\<lparr>uc_pack = \<lparr>np_id = 6, np_size = 0, np_buffer = []\<rparr>, uc_read = - 1, uc_header = 0\<rparr>,
      \<lparr>uc_pack = \<lparr>np_id = 4101, np_size = 3, np_buffer = [104]\<rparr>, uc_read = 1, uc_header = 0\<rparr>]"

definition sample_queue :: queue where
  "sample_queue = \<lparr>q_cap = QUEUESIZE, q_head = 0, q_tail = 1, q_hash = (replicate HASHSIZE [])[6 := sample_chain],
     q_queue = (replicate QUEUESIZE None)[0 := Some \<lparr>np_id = 5, np_size = 2, np_buffer = [1, 2]\<rparr>]\<rparr>"

definition sample_cqueue :: c_queue where
  "sample_cqueue = \<lparr>cq_cap = QUEUESIZE, cq_head = 0, cq_tail = 1, cq_hash = (replicate HASHSIZE None)[6 := Some 10],
     cq_queue = (replicate QUEUESIZE None)[0 := Some \<lparr>cp_id = 5, cp_size = 2, cp_buffer = Some 13\<rparr>]\<rparr>"

definition sample_mem :: np_mem where
  "sample_mem = [10 \<mapsto> Pack_Node \<lparr>cu_pack = \<lparr>cp_id = 6, cp_size = 0, cp_buffer = None\<rparr>, cu_next = Some 11, cu_read = - 1, cu_header = 0\<rparr>,
     11 \<mapsto> Pack_Node \<lparr>cu_pack = \<lparr>cp_id = 4101, cp_size = 3, cp_buffer = Some 12\<rparr>, cu_next = None, cu_read = 1, cu_header = 0\<rparr>,
     12 \<mapsto> Pack_Buffer [104], 13 \<mapsto> Pack_Buffer [1, 2], 14 \<mapsto> Pack_Buffer [9]]"

lemma hash_repr_one:
  "i < n \<Longrightarrow> chain_repr m p us as \<Longrightarrow> hash_repr m ((replicate n None)[i := p]) ((replicate n [])[i := us]) as"
proof (induction n arbitrary: i)
  case (Suc n)
  then show ?case using hash_repr_None [of m n] by (cases i) auto
qed simp

lemma sample_queue_wf: "arg_wf (Userdata sample_queue)"
proof -
  have "hash_fd 6 = 6" "hash_fd 4101 = 6" by (simp_all add: hash_fd_def HASHSIZE_def)
  moreover have "q_hash sample_queue ! h = (if h = 6 then sample_chain else [])" if "h < HASHSIZE" for h
    using that by (cases "h = 6") (simp_all add: sample_queue_def)
  ultimately have "tab_wf (q_hash sample_queue)"
    unfolding tab_wf_def
    by (intro conjI allI impI) (auto simp: sample_chain_def uc_ok_def, simp add: sample_queue_def)
  moreover have "np_wf sample_queue"
    by (simp add: np_wf_def sample_queue_def QUEUESIZE_def)
  ultimately show ?thesis by (simp add: arg_wf_def) (simp add: sample_queue_def QUEUESIZE_def)
qed

lemma sample_queue_repr: "queue_repr sample_mem sample_cqueue sample_queue [10, 11, 12, 13]"
proof -
  have "chain_repr sample_mem (Some 10) sample_chain [10, 11, 12]"
    by (simp add: sample_mem_def sample_chain_def node_repr_def buffer_repr_def)
  then have "hash_repr sample_mem (cq_hash sample_cqueue) (q_hash sample_queue) [10, 11, 12]"
    unfolding sample_cqueue_def sample_queue_def c_queue.simps queue.simps
    by (intro hash_repr_one) (simp_all add: HASHSIZE_def)
  moreover have "np_list sample_queue = [\<lparr>np_id = 5, np_size = 2, np_buffer = [1, 2]\<rparr>]"
    by (simp add: np_list_def np_len_def sample_queue_def QUEUESIZE_def)
  then have "ring_repr sample_mem sample_cqueue (np_list sample_queue) [13]"
    by (simp add: ring_repr_def sample_cqueue_def pack_repr_def sample_mem_def QUEUESIZE_def)
  ultimately have "hash_repr sample_mem (cq_hash sample_cqueue) (q_hash sample_queue) [10, 11, 12] \<and>
      ring_repr sample_mem sample_cqueue (np_list sample_queue) [13] \<and> [10, 11, 12, 13] = [10, 11, 12] @ [13 :: addr]" by simp
  then show ?thesis unfolding queue_repr_def
    by (intro conjI exI [of _ "[10, 11, 12]"] exI [of _ "[13]"]) (simp_all add: sample_cqueue_def sample_queue_def)
qed

theorem lclear_frees_all_witness:
  "\<exists>cq'. lclear (Some sample_cqueue) sample_mem = Some (Some cq', [14 \<mapsto> Pack_Buffer [9]]) \<and>
    queue_repr [14 \<mapsto> Pack_Buffer [9]] cq' (cleared sample_queue) []"
proof -
  have "sample_mem |` (- set [10, 11, 12, 13]) = [14 \<mapsto> Pack_Buffer [9]]"
    by (auto simp: sample_mem_def restrict_map_def)
  with lclear_frees_all [OF sample_queue_wf sample_queue_repr] show ?thesis by auto
qed

end
