(* ===== verification/Skynet_Calls.thy ===== *)
theory Skynet_Calls
  imports Skynet_Server Skynet_Netpack
begin

text \<open>
  What the services written in C share: the calls they make to the core and to the socket layer, which are recorded in order, the messages that the socket layer
  sends them, and two pieces of string handling.
\<close>

text \<open>A send names the source (0 for the service itself), the destination, the type with its tags, the
  session and the data.\<close>

datatype call =
    Send u32 u32 int int "byte list"
  | SocketClose int
  | SocketStart int
  | SocketSend int "byte list"
  | SocketListen cstring int int
  | Callback
  | HarborStart
  | Error cstring
  | FreeBuffer "byte list"

text \<open>A message of the socket layer: type, id, ud, the \<open>ud\<close> bytes of the buffer of a data message, and
  the bytes behind the structure.\<close>

record socket_message =
  m_type :: int
  m_id :: int
  m_ud :: int
  m_buffer :: "byte list"
  m_tail :: "byte list"

text \<open>The C string that starts at the beginning of a buffer.\<close>

definition cstr :: "byte list \<Rightarrow> cstring" where
  "cstr buf = takeWhile (\<lambda>b. b \<noteq> 0) buf"

definition dontcopy :: "int \<Rightarrow> int" where
  "dontcopy ty = ty OR 2 ^ PTYPE_TAG_DONTCOPY"

text \<open>The conversion \<open>%d\<close> of \<open>sscanf\<close>: the number and the rest of the text.\<close>

definition scan_int :: "cstring \<Rightarrow> int option \<times> cstring" where
  "scan_int s = (let (neg, n, r) = read_number 10 s in
     if r = s then (None, s) else (Some (to_int (strtol s 10)), r))"

end
