(* ===== verification/Skynet_Databuffer.thy ===== *)
theory Skynet_Databuffer
  imports Skynet_Prelude
begin

text \<open>
  The input buffers of the gate, \<open>service-src/databuffer.h\<close>: the blocks received on a connection
  in a linked list, read as one stream of bytes.  The list from \<open>head\<close> to \<open>tail\<close> is a list of
  byte lists; the pool of list nodes is modelled by the number of its arrays and of its free nodes.
  The value \<open>None\<close> stands for a failed assertion or a null pointer dereference.
\<close>

section \<open>Model\<close>

definition MESSAGEPOOL :: nat where "MESSAGEPOOL = 1023"

record databuffer =
  db_header :: int
  db_offset :: nat
  db_size :: int
  db_msgs :: "byte list list"

record messagepool =
  mp_pool :: nat
  mp_freelist :: nat

definition messagepool_free :: "messagepool \<Rightarrow> messagepool" where
  "messagepool_free pool = \<lparr>mp_pool = 0, mp_freelist = 0\<rparr>"

definition db_zero :: databuffer where
  "db_zero = \<lparr>db_header = 0, db_offset = 0, db_size = 0, db_msgs = []\<rparr>"

definition return_message :: "databuffer \<Rightarrow> messagepool \<Rightarrow> (databuffer \<times> messagepool) option" where
  "return_message db mp =
     (case db_msgs db of
        [] \<Rightarrow> None
      | m # ms \<Rightarrow> Some (db\<lparr>db_msgs := ms\<rparr>, mp\<lparr>mp_freelist := mp_freelist mp + 1\<rparr>))"

text \<open>The loop of \<open>databuffer_read\<close>; the blocks get fewer in every iteration that does not return.\<close>

function read_loop :: "databuffer \<Rightarrow> messagepool \<Rightarrow> nat \<Rightarrow> (byte list \<times> databuffer \<times> messagepool) option" where
  "read_loop db mp sz =
     (case db_msgs db of
        [] \<Rightarrow> None
      | m # ms \<Rightarrow>
          (let cur = drop (db_offset db) m; bsz = length cur in
           if bsz > sz then Some (take sz cur, db\<lparr>db_offset := db_offset db + sz\<rparr>, mp)
           else if bsz = sz then
             map_option (\<lambda>(db', mp'). (cur, db', mp')) (return_message (db\<lparr>db_offset := 0\<rparr>) mp)
           else
             (case return_message db mp of
                None \<Rightarrow> None
              | Some (db', mp') \<Rightarrow>
                  map_option (\<lambda>(bs, r). (cur @ bs, r)) (read_loop (db'\<lparr>db_offset := 0\<rparr>) mp' (sz - bsz)))))"
  by pat_completeness auto
termination
  by (relation "measure (\<lambda>(db, _, _). length (db_msgs db))") (auto simp: return_message_def)

declare read_loop.simps [simp del]

definition databuffer_read :: "databuffer \<Rightarrow> messagepool \<Rightarrow> nat \<Rightarrow> (byte list \<times> databuffer \<times> messagepool) option" where
  "databuffer_read db mp sz = do {
     require (db_size db \<ge> int sz);
     read_loop (db\<lparr>db_size := db_size db - int sz\<rparr>) mp sz }"

definition databuffer_push :: "databuffer \<Rightarrow> messagepool \<Rightarrow> byte list \<Rightarrow> (databuffer \<times> messagepool) option" where
  "databuffer_push db mp data = do {
     let mp' = (if mp_freelist mp > 0 then mp\<lparr>mp_freelist := mp_freelist mp - 1\<rparr>
                else \<lparr>mp_pool = mp_pool mp + 1, mp_freelist = MESSAGEPOOL - 1\<rparr>);
     n \<leftarrow> cint (db_size db + int (length data));
     Some (db\<lparr>db_size := n, db_msgs := db_msgs db @ [data]\<rparr>, mp') }"

text \<open>A big endian header of two bytes, or of four bytes stored in a signed integer.\<close>

definition header_value :: "nat \<Rightarrow> byte list \<Rightarrow> int" where
  "header_value header_size plen =
     (if header_size = 2 then push_bit 8 (uint (plen ! 0)) OR uint (plen ! 1)
      else sint (push_bit 24 (ucast (plen ! 0)) OR push_bit 16 (ucast (plen ! 1)) OR push_bit 8 (ucast (plen ! 2)) OR ucast (plen ! 3) :: u32))"

definition databuffer_readheader :: "databuffer \<Rightarrow> messagepool \<Rightarrow> nat \<Rightarrow> (int \<times> databuffer \<times> messagepool) option" where
  "databuffer_readheader db mp header_size =
     (if db_header db = 0 then
        (if db_size db < int header_size then Some (- 1, db, mp)
         else do {
           (plen, db1, mp1) \<leftarrow> databuffer_read db mp header_size;
           let db2 = db1\<lparr>db_header := header_value header_size plen\<rparr>;
           (if db_size db2 < db_header db2 then Some (- 1, db2, mp1) else Some (db_header db2, db2, mp1)) })
      else if db_size db < db_header db then Some (- 1, db, mp)
      else Some (db_header db, db, mp))"

definition databuffer_reset :: "databuffer \<Rightarrow> databuffer" where
  "databuffer_reset db = db\<lparr>db_header := 0\<rparr>"

definition databuffer_clear :: "databuffer \<Rightarrow> messagepool \<Rightarrow> databuffer \<times> messagepool" where
  "databuffer_clear db mp = (db_zero, mp\<lparr>mp_freelist := mp_freelist mp + length (db_msgs db)\<rparr>)"

section \<open>A stream of bytes\<close>

text \<open>
  The contract of a buffer between a producer of blocks and a consumer of byte counts: what was
  pushed comes out in order, whatever the boundaries of the blocks.
\<close>

datatype stream_op = Block "byte list" | Take nat

fun stream_run :: "('b \<Rightarrow> byte list \<Rightarrow> 'b option) \<Rightarrow> ('b \<Rightarrow> nat \<Rightarrow> (byte list \<times> 'b) option) \<Rightarrow> stream_op list \<Rightarrow> 'b \<Rightarrow> (byte list list \<times> 'b) option" where
  "stream_run push read [] b = Some ([], b)"
| "stream_run push read (Block d # ops) b = do { b' \<leftarrow> push b d; stream_run push read ops b' }"
| "stream_run push read (Take n # ops) b = do {
     (bs, b') \<leftarrow> read b n;
     (out, b'') \<leftarrow> stream_run push read ops b';
     Some (bs # out, b'') }"

fun blocks :: "stream_op list \<Rightarrow> byte list list" where
  "blocks [] = []"
| "blocks (Block d # ops) = d # blocks ops"
| "blocks (Take n # ops) = blocks ops"

text \<open>No read asks for more than has arrived before it, and less than 2 GB are waiting at any time.\<close>

fun covered :: "nat \<Rightarrow> stream_op list \<Rightarrow> bool" where
  "covered k [] \<longleftrightarrow> True"
| "covered k (Block d # ops) \<longleftrightarrow> k + length d < 2 ^ 31 \<and> covered (k + length d) ops"
| "covered k (Take n # ops) \<longleftrightarrow> 0 < n \<and> n \<le> k \<and> covered (k - n) ops"

fun takes :: "stream_op list \<Rightarrow> nat list" where
  "takes [] = []"
| "takes (Block d # ops) = takes ops"
| "takes (Take n # ops) = n # takes ops"

locale stream_buffer =
  fixes inv :: "'b \<Rightarrow> bool" and contents :: "'b \<Rightarrow> byte list"
    and push :: "'b \<Rightarrow> byte list \<Rightarrow> 'b option" and read :: "'b \<Rightarrow> nat \<Rightarrow> (byte list \<times> 'b) option"
  assumes push_law: "inv b \<Longrightarrow> length (contents b) + length d < 2 ^ 31 \<Longrightarrow> \<exists>b'. push b d = Some b' \<and> inv b' \<and> contents b' = contents b @ d"
    and read_law: "inv b \<Longrightarrow> 0 < n \<Longrightarrow> n \<le> length (contents b) \<Longrightarrow>
      \<exists>b'. read b n = Some (take n (contents b), b') \<and> inv b' \<and> contents b' = drop n (contents b)"
begin

lemma run_is_stream:
  "inv b \<Longrightarrow> covered (length (contents b)) ops \<Longrightarrow>
   \<exists>out b'. stream_run push read ops b = Some (out, b') \<and> inv b' \<and> map length out = takes ops \<and>
     concat out @ contents b' = contents b @ concat (blocks ops)"
proof (induction ops arbitrary: b)
  case (Cons op ops)
  show ?case
  proof (cases op)
    case (Block d)
    obtain b' where "push b d = Some b'" "inv b'" "contents b' = contents b @ d"
      using push_law [OF Cons.prems(1), of d] Cons.prems(2) Block by auto
    with Cons.IH [of b'] Cons.prems Block show ?thesis by simp
  next
    case (Take n)
    with Cons.prems have n: "0 < n" "n \<le> length (contents b)" "covered (length (contents b) - n) ops" by simp_all
    obtain b' where b': "read b n = Some (take n (contents b), b')" "inv b'" "contents b' = drop n (contents b)"
      using read_law [OF Cons.prems(1) n(1,2)] by blast
    obtain out b'' where "stream_run push read ops b' = Some (out, b'')" "inv b''" "map length out = takes ops"
        "concat out @ contents b'' = contents b' @ concat (blocks ops)"
      using Cons.IH [OF b'(2)] n(3) b'(3) by auto
    then show ?thesis
      using Take b' n by (simp flip: append.assoc)
  qed
qed simp

end

section \<open>The buffer is a stream\<close>

definition db_bytes :: "databuffer \<Rightarrow> byte list" where
  "db_bytes db = drop (db_offset db) (concat (db_msgs db))"

definition db_wf :: "databuffer \<Rightarrow> bool" where
  "db_wf db \<longleftrightarrow> db_offset db \<le> (case db_msgs db of [] \<Rightarrow> 0 | m # _ \<Rightarrow> length m) \<and> db_size db = int (length (db_bytes db))"

text \<open>Every node of the pool is free or holds a block.\<close>

definition pool_of :: "databuffer \<Rightarrow> messagepool \<Rightarrow> nat" where
  "pool_of db mp = length (db_msgs db) + mp_freelist mp"

lemma read_loop_spec:
  assumes "db_offset db \<le> (case db_msgs db of [] \<Rightarrow> 0 | m # _ \<Rightarrow> length m)" "0 < n" "n \<le> length (db_bytes db)"
  shows "\<exists>db' mp'. read_loop db mp n = Some (take n (db_bytes db), db', mp') \<and>
    db_offset db' \<le> (case db_msgs db' of [] \<Rightarrow> 0 | m # _ \<Rightarrow> length m) \<and> db_bytes db' = drop n (db_bytes db) \<and>
    db_size db' = db_size db \<and> db_header db' = db_header db \<and> pool_of db' mp' = pool_of db mp \<and> mp_pool mp' = mp_pool mp"
  using assms
proof (induction db mp n rule: read_loop.induct)
  case (1 db mp n)
  obtain m ms where ms: "db_msgs db = m # ms"
    using 1(3,4) by (cases "db_msgs db") (auto simp: db_bytes_def)
  define cur where "cur = drop (db_offset db) m"
  have bytes: "db_bytes db = cur @ concat ms" using 1(2) ms by (simp add: db_bytes_def cur_def)
  have lc: "length cur = length m - db_offset db" by (simp add: cur_def)
  consider "length cur > n" | "length cur = n" | "length cur < n" by linarith
  then show ?case
  proof cases
    case a: 1
    then have "read_loop db mp n = Some (take n cur, db\<lparr>db_offset := db_offset db + n\<rparr>, mp)"
      using ms by (subst read_loop.simps) (simp add: Let_def cur_def [symmetric])
    moreover have "db_bytes (db\<lparr>db_offset := db_offset db + n\<rparr>) = drop n (db_bytes db)"
      by (simp add: db_bytes_def add.commute)
    ultimately show ?thesis using a ms bytes lc by (simp add: pool_of_def)
  next
    case a: 2
    then show ?thesis using ms bytes
      by (subst read_loop.simps) (auto simp: Let_def cur_def [symmetric] return_message_def db_bytes_def pool_of_def split: list.split)
  next
    case a: 3
    define db' where "db' = db\<lparr>db_msgs := ms, db_offset := 0\<rparr>"
    define mp' where "mp' = mp\<lparr>mp_freelist := mp_freelist mp + 1\<rparr>"
    have rm: "return_message db mp = Some (db\<lparr>db_msgs := ms\<rparr>, mp')" by (simp add: return_message_def ms mp'_def)
    have b': "db_bytes db' = concat ms" by (simp add: db'_def db_bytes_def)
    have "\<exists>db'' mp''. read_loop db' mp' (n - length cur) = Some (take (n - length cur) (db_bytes db'), db'', mp'') \<and>
        db_offset db'' \<le> (case db_msgs db'' of [] \<Rightarrow> 0 | m # _ \<Rightarrow> length m) \<and> db_bytes db'' = drop (n - length cur) (db_bytes db') \<and>
        db_size db'' = db_size db' \<and> db_header db'' = db_header db' \<and> pool_of db'' mp'' = pool_of db' mp' \<and> mp_pool mp'' = mp_pool mp'"
      using 1(1) [OF ms cur_def refl _ _ rm refl] a 1(4) bytes b'
      by (simp add: db'_def split: list.split)
    then show ?thesis using a rm ms bytes b'
      by (subst read_loop.simps) (auto simp: Let_def cur_def [symmetric] db'_def mp'_def pool_of_def)
  qed
qed

lemma databuffer_read_spec:
  assumes "db_wf db" "0 < n" "n \<le> length (db_bytes db)"
  shows "\<exists>db' mp'. databuffer_read db mp n = Some (take n (db_bytes db), db', mp') \<and> db_wf db' \<and>
    db_bytes db' = drop n (db_bytes db) \<and> db_header db' = db_header db \<and> pool_of db' mp' = pool_of db mp \<and> mp_pool mp' = mp_pool mp"
proof -
  have b: "db_bytes (db\<lparr>db_size := s\<rparr>) = db_bytes db" for s by (simp add: db_bytes_def)
  show ?thesis
    using read_loop_spec [of "db\<lparr>db_size := db_size db - int n\<rparr>" n mp] assms
    by (auto simp: databuffer_read_def db_wf_def b pool_of_def)
qed

lemma databuffer_push_spec:
  assumes "db_wf db" "length (db_bytes db) + length d < 2 ^ 31"
  shows "\<exists>db' mp'. databuffer_push db mp d = Some (db', mp') \<and> db_wf db' \<and> db_bytes db' = db_bytes db @ d \<and>
    db_header db' = db_header db \<and> db_msgs db' \<noteq> []"
proof -
  have "cint (db_size db + int (length d)) = Some (db_size db + int (length d))"
    using assms by (simp add: db_wf_def cint_def cint_ok_def)
  then show ?thesis
    using assms by (cases "db_msgs db") (auto simp: databuffer_push_def db_wf_def db_bytes_def Let_def)
qed

interpretation input: stream_buffer "\<lambda>(db, mp). db_wf db" "\<lambda>(db, mp). db_bytes db" "\<lambda>(db, mp) d. databuffer_push db mp d" "\<lambda>(db, mp) n. databuffer_read db mp n"
proof (unfold_locales, goal_cases)
  case (1 b d)
  then show ?case using databuffer_push_spec [of "fst b" d "snd b"] by (auto simp: split_beta)
next
  case (2 b n)
  obtain db mp where b: "b = (db, mp)" by (cases b)
  from 2 show ?case using databuffer_read_spec [of db n mp] by (auto simp: b)
qed

section \<open>Properties\<close>

text \<open>C27: Blocks pushed into a buffer and reads of any sizes that have been received before are
  answered as from one stream of bytes: each read returns as many bytes as it asks for, and what was
  read, followed by what is left, is what was pushed.  No read faults, whatever the block boundaries.\<close>

theorem databuffer_is_stream:
  assumes "covered 0 ops"
  shows "\<exists>out db mp. stream_run (\<lambda>(db, mp) d. databuffer_push db mp d) (\<lambda>(db, mp) n. databuffer_read db mp n) ops
      (db_zero, \<lparr>mp_pool = 0, mp_freelist = 0\<rparr>) = Some (out, db, mp) \<and>
    map length out = takes ops \<and> concat out @ db_bytes db = concat (blocks ops)"
proof -
  have z: "db_wf db_zero" "db_bytes db_zero = []" by (simp_all add: db_zero_def db_wf_def db_bytes_def)
  show ?thesis
    using input.run_is_stream [of "(db_zero, \<lparr>mp_pool = 0, mp_freelist = 0\<rparr>)" ops] z assms by auto
qed

theorem databuffer_is_stream_witness:
  "\<exists>out db mp. stream_run (\<lambda>(db, mp) d. databuffer_push db mp d) (\<lambda>(db, mp) n. databuffer_read db mp n)
      [Block [1, 2, 3], Take 2, Block [4], Block [5, 6], Take 3]
      (db_zero, \<lparr>mp_pool = 0, mp_freelist = 0\<rparr>) = Some (out, db, mp) \<and>
    map length out = takes [Block [1, 2, 3], Take 2, Block [4], Block [5, 6], Take 3] \<and>
    concat out @ db_bytes db = concat (blocks [Block [1, 2, 3], Take 2, Block [4], Block [5, 6], Take 3])"
  by (rule databuffer_is_stream) simp

end
