(* ===== verification/Skynet_Hashid.thy ===== *)
theory Skynet_Hashid
  imports Skynet_Prelude
begin

text \<open>
  The table that maps socket ids to slots, \<open>service-src/hashid.h\<close>.  The nodes are addressed by
  their index, the difference \<open>c - hi->id\<close> that the functions return; a bucket is the list of the
  indices of its chain, so the \<open>next\<close> pointers are not stored in the nodes: \<open>next\<close> of a node is the
  index behind it in its chain, and \<open>NULL\<close> for the last node and for a node in no chain.
\<close>

section \<open>Model\<close>

record hashid =
  hi_hashmod :: int
  hi_cap :: int
  hi_count :: int
  hi_id :: "int list"
  hi_hash :: "nat list list"

function hashcap :: "int \<Rightarrow> int \<Rightarrow> int option" where
  "hashcap cap mx = (if cap < mx then (if 0 < cap then do { c \<leftarrow> cint (cap * 2); hashcap c mx } else None) else Some cap)"
  by pat_completeness auto
termination
  by (relation "measure (\<lambda>(c, m). nat (m - c))") (auto simp: cint_Some)

declare hashcap.simps [simp del]

definition hashid_init :: "int \<Rightarrow> hashid option" where
  "hashid_init mx = do {
     cap \<leftarrow> hashcap 16 mx;
     Some \<lparr>hi_hashmod = cap - 1, hi_cap = mx, hi_count = 0, hi_id = replicate (nat mx) (- 1), hi_hash = replicate (nat cap) []\<rparr> }"

definition hashid_clear :: "hashid \<Rightarrow> hashid" where
  "hashid_clear hi = \<lparr>hi_hashmod = 1, hi_cap = 0, hi_count = 0, hi_id = [], hi_hash = []\<rparr>"

text \<open>Walking the chain of a bucket: the index of the node with the id.\<close>

fun chain_find :: "int list \<Rightarrow> int \<Rightarrow> nat list \<Rightarrow> nat option option" where
  "chain_find ids i [] = Some None"
| "chain_find ids i (c # cs) = do {
     v \<leftarrow> aget ids (int c);
     (if v = i then Some (Some c) else chain_find ids i cs) }"

definition hashid_lookup :: "hashid \<Rightarrow> int \<Rightarrow> int option" where
  "hashid_lookup hi i = do {
     chain \<leftarrow> aget (hi_hash hi) (i AND hi_hashmod hi);
     r \<leftarrow> chain_find (hi_id hi) i chain;
     Some (case r of None \<Rightarrow> - 1 | Some c \<Rightarrow> int c) }"

definition hashid_remove :: "hashid \<Rightarrow> int \<Rightarrow> (int \<times> hashid) option" where
  "hashid_remove hi i = do {
     let h = i AND hi_hashmod hi;
     chain \<leftarrow> aget (hi_hash hi) h;
     r \<leftarrow> chain_find (hi_id hi) i chain;
     (case r of
        None \<Rightarrow> Some (- 1, hi)
      | Some c \<Rightarrow> do {
          hash \<leftarrow> aset (hi_hash hi) h (remove1 c chain);
          ids \<leftarrow> aset (hi_id hi) (int c) (- 1);
          Some (int c, hi\<lparr>hi_hash := hash, hi_id := ids, hi_count := hi_count hi - 1\<rparr>) }) }"

text \<open>The operator \<open>%\<close> of C has the sign of the left operand.\<close>

definition c_rem :: "int \<Rightarrow> int \<Rightarrow> int" where
  "c_rem a b = (if a < 0 then - ((- a) mod b) else a mod b)"

text \<open>The search for a free node, starting at \<open>id % cap\<close>.\<close>

fun free_scan :: "hashid \<Rightarrow> int \<Rightarrow> nat list \<Rightarrow> nat option option" where
  "free_scan hi i [] = Some None"
| "free_scan hi i (k # ks) = do {
     s \<leftarrow> cint (int k + i);
     let index = c_rem s (hi_cap hi);
     v \<leftarrow> aget (hi_id hi) index;
     (if v = - 1 then Some (Some (nat index)) else free_scan hi i ks) }"

text \<open>\<open>c->next == NULL\<close>: no node stands behind \<open>c\<close> in a chain.\<close>

definition next_null :: "nat list list \<Rightarrow> nat \<Rightarrow> bool" where
  "next_null hash c \<longleftrightarrow> list_all (\<lambda>chain. c \<notin> set (butlast chain)) hash"

definition hashid_insert :: "hashid \<Rightarrow> int \<Rightarrow> (int \<times> hashid) option" where
  "hashid_insert hi i = do {
     r \<leftarrow> free_scan hi i [0..<nat (hi_cap hi)];
     c \<leftarrow> r;
     ids \<leftarrow> aset (hi_id hi) (int c) i;
     require (next_null (hi_hash hi) c);
     let h = i AND hi_hashmod hi;
     chain \<leftarrow> aget (hi_hash hi) h;
     hash \<leftarrow> aset (hi_hash hi) h (c # chain);
     Some (int c, hi\<lparr>hi_count := hi_count hi + 1, hi_id := ids, hi_hash := hash\<rparr>) }"

definition hashid_full :: "hashid \<Rightarrow> bool" where
  "hashid_full hi \<longleftrightarrow> hi_count hi = hi_cap hi"

section \<open>The interface\<close>

text \<open>
  What a client of a slot table relies on.  \<open>tab\<close> is the finite map from ids to slots below
  \<open>cap\<close>; \<open>room i\<close> says that the arithmetic on the id \<open>i\<close> stays in range.
\<close>

datatype table_op = Insert int | Remove int | Lookup int

fun table_run :: "('t \<Rightarrow> int \<Rightarrow> int option) \<Rightarrow> ('t \<Rightarrow> int \<Rightarrow> (int \<times> 't) option) \<Rightarrow> ('t \<Rightarrow> int \<Rightarrow> (int \<times> 't) option) \<Rightarrow>
    table_op list \<Rightarrow> 't \<Rightarrow> (int list \<times> 't) option" where
  "table_run lk ins del [] t = Some ([], t)"
| "table_run lk ins del (op # ops) t = do {
     (r, t1) \<leftarrow> (case op of Insert i \<Rightarrow> ins t i | Remove i \<Rightarrow> del t i | Lookup i \<Rightarrow> map_option (\<lambda>r. (r, t)) (lk t i));
     (rs, t2) \<leftarrow> table_run lk ins del ops t1;
     Some (r # rs, t2) }"

text \<open>The results a finite map may give: an insertion picks any free slot.\<close>

definition slot_result :: "(int \<rightharpoonup> nat) \<Rightarrow> int \<Rightarrow> int" where
  "slot_result m i = (case m i of None \<Rightarrow> - 1 | Some c \<Rightarrow> int c)"

inductive map_trace :: "nat \<Rightarrow> (int \<rightharpoonup> nat) \<Rightarrow> table_op list \<Rightarrow> int list \<Rightarrow> (int \<rightharpoonup> nat) \<Rightarrow> bool" for n where
  map_trace_Nil: "map_trace n m [] [] m"
| map_trace_Insert: "c < n \<Longrightarrow> c \<notin> ran m \<Longrightarrow> map_trace n (m(i \<mapsto> c)) ops rs m' \<Longrightarrow> map_trace n m (Insert i # ops) (int c # rs) m'"
| map_trace_Remove: "map_trace n (m(i := None)) ops rs m' \<Longrightarrow> map_trace n m (Remove i # ops) (slot_result m i # rs) m'"
| map_trace_Lookup: "map_trace n m ops rs m' \<Longrightarrow> map_trace n m (Lookup i # ops) (slot_result m i # rs) m'"

text \<open>The clients insert only ids that are not in the table, and only while it is not full.\<close>

fun admissible :: "nat \<Rightarrow> (int \<Rightarrow> bool) \<Rightarrow> int list \<Rightarrow> table_op list \<Rightarrow> bool" where
  "admissible n rm S [] \<longleftrightarrow> True"
| "admissible n rm S (Insert i # ops) \<longleftrightarrow> 0 \<le> i \<and> rm i \<and> i \<notin> set S \<and> length S < n \<and> admissible n rm (i # S) ops"
| "admissible n rm S (Remove i # ops) \<longleftrightarrow> admissible n rm (removeAll i S) ops"
| "admissible n rm S (Lookup i # ops) \<longleftrightarrow> admissible n rm S ops"

locale slot_table =
  fixes wf :: "'t \<Rightarrow> bool" and tab :: "'t \<Rightarrow> int \<rightharpoonup> nat" and cap :: "'t \<Rightarrow> nat" and room :: "'t \<Rightarrow> int \<Rightarrow> bool"
    and lookup :: "'t \<Rightarrow> int \<Rightarrow> int option" and insert :: "'t \<Rightarrow> int \<Rightarrow> (int \<times> 't) option"
    and remove :: "'t \<Rightarrow> int \<Rightarrow> (int \<times> 't) option" and full :: "'t \<Rightarrow> bool"
  assumes inj: "wf t \<Longrightarrow> inj_on (tab t) (dom (tab t))"
    and bound: "wf t \<Longrightarrow> tab t i = Some c \<Longrightarrow> c < cap t \<and> 0 \<le> i"
    and full_law: "wf t \<Longrightarrow> full t \<longleftrightarrow> card (dom (tab t)) = cap t"
    and lookup_law: "wf t \<Longrightarrow> lookup t i = Some (case tab t i of None \<Rightarrow> - 1 | Some c \<Rightarrow> int c)"
    and insert_law: "wf t \<Longrightarrow> 0 \<le> i \<Longrightarrow> room t i \<Longrightarrow> \<not> full t \<Longrightarrow> tab t i = None \<Longrightarrow>
      \<exists>c t'. insert t i = Some (int c, t') \<and> wf t' \<and> cap t' = cap t \<and> room t' = room t \<and> tab t' = (tab t)(i \<mapsto> c) \<and> c \<notin> ran (tab t)"
    and remove_law: "wf t \<Longrightarrow>
      \<exists>t'. remove t i = Some (case tab t i of None \<Rightarrow> - 1 | Some c \<Rightarrow> int c, t') \<and> wf t' \<and> cap t' = cap t \<and> room t' = room t \<and>
        tab t' = (tab t)(i := None)"
begin

text \<open>A slot belongs to at most one id.\<close>

lemma slot_unique: "wf t \<Longrightarrow> tab t i = Some c \<Longrightarrow> tab t j = Some c \<Longrightarrow> i = j"
  using inj [of t] by (metis domI inj_on_def)

text \<open>An id that was inserted is found in its slot until it is removed, and the slot is free again afterwards.\<close>

lemma insert_then_lookup:
  assumes "wf t" "0 \<le> i" "room t i" "\<not> full t" "tab t i = None"
  shows "\<exists>c t'. insert t i = Some (int c, t') \<and> lookup t' j = (if j = i then Some (int c) else lookup t j)"
proof -
  obtain c t' where t': "insert t i = Some (int c, t')" "wf t'" "tab t' = (tab t)(i \<mapsto> c)"
    using insert_law [OF assms(1-5)] by blast
  then show ?thesis using lookup_law [OF t'(2), of j] lookup_law [OF assms(1), of j] by auto
qed

lemma remove_then_lookup:
  assumes "wf t"
  shows "\<exists>r t'. remove t i = Some (r, t') \<and> lookup t i = Some r \<and> lookup t' j = (if j = i then Some (- 1) else lookup t j)"
proof -
  obtain t' where t': "remove t i = Some (case tab t i of None \<Rightarrow> - 1 | Some c \<Rightarrow> int c, t')" "wf t'" "tab t' = (tab t)(i := None)"
    using remove_law [OF assms] by blast
  then show ?thesis using lookup_law [OF t'(2), of j] lookup_law [OF assms, of j] lookup_law [OF assms, of i] by auto
qed

lemma run_is_map:
  "wf t \<Longrightarrow> admissible (cap t) (room t) S ops \<Longrightarrow> distinct S \<Longrightarrow> set S = dom (tab t) \<Longrightarrow>
   \<exists>rs t'. table_run lookup insert remove ops t = Some (rs, t') \<and> wf t' \<and> map_trace (cap t) (tab t) ops rs (tab t')"
proof (induction ops arbitrary: t S)
  case Nil
  then show ?case by (auto intro: map_trace_Nil)
next
  case (Cons op ops)
  show ?case
  proof (cases op)
    case (Insert i)
    with Cons.prems have i: "0 \<le> i" "room t i" "i \<notin> set S" "length S < cap t" "admissible (cap t) (room t) (i # S) ops" by simp_all
    have "\<not> full t" "tab t i = None"
      using i(3,4) Cons.prems full_law [of t] distinct_card [of S] by auto
    then obtain c t1 where t1: "insert t i = Some (int c, t1)" "wf t1" "cap t1 = cap t" "room t1 = room t"
        "tab t1 = (tab t)(i \<mapsto> c)" "c \<notin> ran (tab t)"
      using insert_law [OF Cons.prems(1) i(1,2)] by blast
    moreover have "c < cap t" using bound [OF t1(2), of i c] t1(3,5) by simp
    moreover have "set (i # S) = dom (tab t1)" "distinct (i # S)" using t1(5) Cons.prems i(3) by auto
    ultimately obtain rs t' where "table_run lookup insert remove ops t1 = Some (rs, t')" "wf t'" "map_trace (cap t) ((tab t)(i \<mapsto> c)) ops rs (tab t')"
      using Cons.IH [of t1 "i # S"] i(5) by (metis (no_types, lifting))
    then show ?thesis
      using Insert t1(1) map_trace_Insert [OF \<open>c < cap t\<close> t1(6), of i ops rs "tab t'"] by simp
  next
    case (Remove i)
    with Cons.prems have i: "admissible (cap t) (room t) (removeAll i S) ops" by simp
    obtain t1 where t1: "remove t i = Some (slot_result (tab t) i, t1)" "wf t1" "cap t1 = cap t" "room t1 = room t" "tab t1 = (tab t)(i := None)"
      using remove_law [OF Cons.prems(1), of i] by (auto simp: slot_result_def)
    moreover have "set (removeAll i S) = dom (tab t1)" "distinct (removeAll i S)" using t1(5) Cons.prems by (auto simp: distinct_removeAll)
    ultimately obtain rs t' where "table_run lookup insert remove ops t1 = Some (rs, t')" "wf t'" "map_trace (cap t) ((tab t)(i := None)) ops rs (tab t')"
      using Cons.IH [of t1 "removeAll i S"] i by (metis (no_types, lifting))
    then show ?thesis using Remove t1(1) map_trace_Remove [of "cap t" "tab t" i ops rs "tab t'"] by simp
  next
    case (Lookup i)
    with Cons.prems have i: "admissible (cap t) (room t) S ops" by simp
    have "lookup t i = Some (slot_result (tab t) i)" using lookup_law [OF Cons.prems(1), of i] by (simp add: slot_result_def)
    moreover obtain rs t' where "table_run lookup insert remove ops t = Some (rs, t')" "wf t'" "map_trace (cap t) (tab t) ops rs (tab t')"
      using Cons.IH [OF Cons.prems(1) i] Cons.prems(3,4) by auto
    ultimately show ?thesis using Lookup map_trace_Lookup [of "cap t" "tab t" ops rs "tab t'" i] by simp
  qed
qed

end

section \<open>Well-formed tables\<close>

definition hi_wf :: "hashid \<Rightarrow> bool" where
  "hi_wf hi \<longleftrightarrow> 0 < hi_cap hi \<and> length (hi_id hi) = nat (hi_cap hi) \<and>
     (\<exists>k. hi_hashmod hi = mask k \<and> length (hi_hash hi) = 2 ^ k) \<and>
     (\<forall>v \<in> set (hi_id hi). - 1 \<le> v) \<and>
     (\<forall>c < length (hi_id hi). \<forall>d < length (hi_id hi). hi_id hi ! c = hi_id hi ! d \<longrightarrow> hi_id hi ! c \<noteq> - 1 \<longrightarrow> c = d) \<and>
     (\<forall>h < length (hi_hash hi). distinct (hi_hash hi ! h) \<and>
        set (hi_hash hi ! h) = {c. c < length (hi_id hi) \<and> hi_id hi ! c \<noteq> - 1 \<and> hi_id hi ! c AND hi_hashmod hi = int h}) \<and>
     hi_count hi = int (card {c. c < length (hi_id hi) \<and> hi_id hi ! c \<noteq> - 1})"

definition hi_tab :: "hashid \<Rightarrow> int \<rightharpoonup> nat" where
  "hi_tab hi i = (if i < 0 then None else List.find (\<lambda>c. hi_id hi ! c = i) [0..<length (hi_id hi)])"

definition hi_room :: "hashid \<Rightarrow> int \<Rightarrow> bool" where
  "hi_room hi i \<longleftrightarrow> i + hi_cap hi < 2 ^ 31"

lemma find_upt: "List.find P [0..<n] = Some c \<Longrightarrow> c < n \<and> P c" "List.find P [0..<n] = None \<Longrightarrow> c < n \<Longrightarrow> \<not> P c"
  by (auto simp: find_Some_iff find_None_iff)

lemma hi_wfD:
  assumes "hi_wf hi"
  shows "0 < hi_cap hi" "length (hi_id hi) = nat (hi_cap hi)" "\<forall>v \<in> set (hi_id hi). - 1 \<le> v"
    and "c < length (hi_id hi) \<Longrightarrow> d < length (hi_id hi) \<Longrightarrow> hi_id hi ! c = hi_id hi ! d \<Longrightarrow> hi_id hi ! c \<noteq> - 1 \<Longrightarrow> c = d"
    and "h < length (hi_hash hi) \<Longrightarrow> distinct (hi_hash hi ! h)"
    and "h < length (hi_hash hi) \<Longrightarrow> set (hi_hash hi ! h) =
      {c. c < length (hi_id hi) \<and> hi_id hi ! c \<noteq> - 1 \<and> hi_id hi ! c AND hi_hashmod hi = int h}"
    and "hi_count hi = int (card {c. c < length (hi_id hi) \<and> hi_id hi ! c \<noteq> - 1})"
  using assms by (simp_all add: hi_wf_def)

lemma hash_range:
  assumes "hi_wf hi"
  shows "0 \<le> i AND hi_hashmod hi" "i AND hi_hashmod hi < int (length (hi_hash hi))"
proof -
  obtain k where k: "hi_hashmod hi = mask k" "length (hi_hash hi) = 2 ^ k" using assms by (auto simp: hi_wf_def)
  then have "i AND hi_hashmod hi = i mod 2 ^ k" by (simp add: take_bit_eq_mod flip: take_bit_eq_mask)
  then show "0 \<le> i AND hi_hashmod hi" "i AND hi_hashmod hi < int (length (hi_hash hi))" by (simp_all add: k(2))
qed

lemma hi_tab_Some:
  assumes "hi_wf hi"
  shows "hi_tab hi i = Some c \<longleftrightarrow> 0 \<le> i \<and> c < length (hi_id hi) \<and> hi_id hi ! c = i"
proof
  assume "hi_tab hi i = Some c"
  then show "0 \<le> i \<and> c < length (hi_id hi) \<and> hi_id hi ! c = i"
    using find_upt(1) by (fastforce simp: hi_tab_def split: if_splits)
next
  assume i: "0 \<le> i \<and> c < length (hi_id hi) \<and> hi_id hi ! c = i"
  show "hi_tab hi i = Some c"
  proof (cases "hi_tab hi i")
    case None
    then show ?thesis using i find_upt(2) [of "\<lambda>c. hi_id hi ! c = i"] by (auto simp: hi_tab_def split: if_splits)
  next
    case (Some d)
    then have "d < length (hi_id hi) \<and> hi_id hi ! d = i"
      using find_upt(1) by (fastforce simp: hi_tab_def split: if_splits)
    then have "d = c" using hi_wfD(4) [OF assms, of d c] i by auto
    then show ?thesis using Some by simp
  qed
qed

lemma hi_tab_None:
  assumes "hi_wf hi" "i \<noteq> - 1"
  shows "hi_tab hi i = None \<longleftrightarrow> i \<notin> set (hi_id hi)"
proof (cases "0 \<le> i")
  case True
  then show ?thesis using hi_tab_Some [OF assms(1), of i] by (metis in_set_conv_nth not_None_eq)
next
  case False
  then show ?thesis using hi_wfD(3) [OF assms(1)] assms(2) by (auto simp: hi_tab_def)
qed

lemma chain_find_spec:
  "\<forall>c \<in> set cs. c < length ids \<Longrightarrow> chain_find ids i cs = Some (List.find (\<lambda>c. ids ! c = i) cs)"
  by (induction cs) auto

lemma lookup_chain:
  fixes i :: int
  assumes "hi_wf hi"
  defines "h \<equiv> nat (i AND hi_hashmod hi)"
  shows "aget (hi_hash hi) (i AND hi_hashmod hi) = Some (hi_hash hi ! h) \<and> h < length (hi_hash hi) \<and>
    chain_find (hi_id hi) i (hi_hash hi ! h) = Some (hi_tab hi i)"
proof -
  note r = hash_range [OF assms(1)]
  have h: "h < length (hi_hash hi)" "int h = i AND hi_hashmod hi" using r by (simp_all add: h_def nat_less_iff)
  have cf: "chain_find (hi_id hi) i (hi_hash hi ! h) = Some (List.find (\<lambda>c. hi_id hi ! c = i) (hi_hash hi ! h))"
    using hi_wfD(6) [OF assms(1) h(1)] by (intro chain_find_spec) auto
  have "List.find (\<lambda>c. hi_id hi ! c = i) (hi_hash hi ! h) = hi_tab hi i"
  proof (cases "hi_tab hi i")
    case None
    have "hi_id hi ! c \<noteq> i" if "c \<in> set (hi_hash hi ! h)" for c
    proof -
      have "c < length (hi_id hi)" "hi_id hi ! c \<noteq> - 1" using that hi_wfD(6) [OF assms(1) h(1)] by simp_all
      then show ?thesis using None hi_tab_None [OF assms(1), of i] by (metis nth_mem)
    qed
    then show ?thesis using None by (simp add: find_None_iff)
  next
    case (Some c)
    then have c: "c < length (hi_id hi)" "hi_id hi ! c = i" "0 \<le> i" using hi_tab_Some [OF assms(1)] by auto
    then have "c \<in> set (hi_hash hi ! h)" using hi_wfD(6) [OF assms(1) h(1)] h(2) c(3) by auto
    then obtain d where d: "List.find (\<lambda>c. hi_id hi ! c = i) (hi_hash hi ! h) = Some d"
      using c(2) by (cases "List.find (\<lambda>c. hi_id hi ! c = i) (hi_hash hi ! h)") (auto simp: find_None_iff)
    then have "d \<in> set (hi_hash hi ! h)" "hi_id hi ! d = i" by (auto simp: find_Some_iff)
    then have "d = c" using hi_wfD(4) [OF assms(1), of d c] c hi_wfD(6) [OF assms(1) h(1)] by auto
    then show ?thesis using Some d by simp
  qed
  then show ?thesis using cf h r by (simp add: h_def)
qed

lemma hashid_lookup_spec:
  "hi_wf hi \<Longrightarrow> hashid_lookup hi i = Some (case hi_tab hi i of None \<Rightarrow> - 1 | Some c \<Rightarrow> int c)"
  using lookup_chain [of hi i] by (simp add: hashid_lookup_def)

lemma mask_hash: "hi_wf hi \<Longrightarrow> \<exists>k. hi_hashmod hi = mask k \<and> length (hi_hash hi) = 2 ^ k"
  by (simp add: hi_wf_def)

lemma hi_wf_set:
  assumes wf: "hi_wf hi" and c: "c < length (hi_id hi)" and v: "- 1 \<le> v" "v = - 1 \<or> hi_id hi ! c = - 1 \<and> v \<notin> set (hi_id hi)"
    and hash: "length hash = length (hi_hash hi)"
      "\<And>h. h < length hash \<Longrightarrow> distinct (hash ! h)"
      "\<And>h. h < length hash \<Longrightarrow> set (hash ! h) = (set (hi_hash hi ! h) - {c}) \<union> (if v \<noteq> - 1 \<and> v AND hi_hashmod hi = int h then {c} else {})"
    and cnt: "cnt = hi_count hi + (if v = - 1 then 0 else 1) - (if hi_id hi ! c = - 1 then 0 else 1)"
  shows "hi_wf (hi\<lparr>hi_count := cnt, hi_id := (hi_id hi)[c := v], hi_hash := hash\<rparr>)"
proof -
  let ?ids = "(hi_id hi)[c := v]"
  have set1: "set (hash ! h) = {d. d < length ?ids \<and> ?ids ! d \<noteq> - 1 \<and> ?ids ! d AND hi_hashmod hi = int h}" if "h < length hash" for h
    using hash(3) [OF that] hi_wfD(6) [OF wf, of h] that hash(1) c by (auto simp: nth_list_update split: if_splits)
  have uniq: "d = e" if "d < length ?ids" "e < length ?ids" "?ids ! d = ?ids ! e" "?ids ! d \<noteq> - 1" for d e
  proof -
    have "v \<noteq> - 1 \<Longrightarrow> d' < length (hi_id hi) \<Longrightarrow> hi_id hi ! d' \<noteq> v" for d' using v(2) by (auto simp: in_set_conv_nth)
    then show ?thesis using that hi_wfD(4) [OF wf, of d e] by (cases "d = c"; cases "e = c") force+
  qed
  define A where "A = {d. d < length (hi_id hi) \<and> hi_id hi ! d \<noteq> - 1}"
  have A: "finite A" "c \<in> A \<longleftrightarrow> hi_id hi ! c \<noteq> - 1" "hi_count hi = int (card A)"
    using c hi_wfD(7) [OF wf] by (auto simp: A_def)
  have "{d. d < length ?ids \<and> ?ids ! d \<noteq> - 1} = (if v = - 1 then A - {c} else insert c (A - {c}))"
    using c by (auto simp: A_def nth_list_update split: if_splits)
  moreover have "int (card (A - {c})) = int (card A) - (if hi_id hi ! c = - 1 then 0 else 1)"
    using card_Suc_Diff1 [OF A(1), of c] A(2) by (cases "c \<in> A") auto
  moreover have "int (card (insert c (A - {c}))) = int (card (A - {c})) + 1"
    using A(1) by (subst card_insert_disjoint) auto
  ultimately have "int (card {d. d < length ?ids \<and> ?ids ! d \<noteq> - 1}) = cnt"
    using cnt A(3) by simp
  then show ?thesis
    using hi_wfD(1,2,3) [OF wf] mask_hash [OF wf] set1 uniq hash(1,2) v(1) cnt
    by (auto simp: hi_wf_def dest!: set_update_subset_insert [THEN subsetD])
qed


lemma hi_tab_set:
  assumes wf: "hi_wf hi" and wf': "hi_wf hi'" and ids: "hi_id hi' = (hi_id hi)[c := v]" and c: "c < length (hi_id hi)"
  shows "hi_tab hi' j = (if 0 \<le> j \<and> j = v then Some c else if 0 \<le> j \<and> hi_tab hi j = Some c then None else hi_tab hi j)"
proof (cases "0 \<le> j \<and> j = v")
  case True
  then show ?thesis using hi_tab_Some [OF wf', of j c] c ids by simp
next
  case False
  have "hi_tab hi' j = Some d \<longleftrightarrow> hi_tab hi j = Some d \<and> d \<noteq> c" for d
    using hi_tab_Some [OF wf', of j d] hi_tab_Some [OF wf, of j d] False c ids by (auto simp: nth_list_update split: if_splits)
  then have *: "\<And>d. hi_tab hi' j = Some d \<longleftrightarrow> hi_tab hi j = Some d \<and> d \<noteq> c" .
  show ?thesis
  proof (cases "hi_tab hi j")
    case None
    then have "hi_tab hi' j = None" using * by (metis not_None_eq)
    then show ?thesis using None False by simp
  next
    case (Some d)
    then have "0 \<le> j" using hi_tab_Some [OF wf] by auto
    moreover have "hi_tab hi' j = (if d = c then None else Some d)"
      using * Some by (metis not_None_eq option.inject)
    ultimately show ?thesis using Some False by simp
  qed
qed

lemma hashid_remove_spec:
  assumes wf: "hi_wf hi"
  shows "\<exists>hi'. hashid_remove hi i = Some (case hi_tab hi i of None \<Rightarrow> - 1 | Some c \<Rightarrow> int c, hi') \<and> hi_wf hi' \<and>
    hi_cap hi' = hi_cap hi \<and> hi_tab hi' = (hi_tab hi)(i := None)"
proof (cases "hi_tab hi i")
  case None
  then have "(hi_tab hi)(i := None) = hi_tab hi" by auto
  then show ?thesis using None lookup_chain [OF wf, of i] wf by (simp add: hashid_remove_def Let_def)
next
  case (Some c)
  define h where "h = nat (i AND hi_hashmod hi)"
  have L: "aget (hi_hash hi) (i AND hi_hashmod hi) = Some (hi_hash hi ! h)" "h < length (hi_hash hi)"
      "chain_find (hi_id hi) i (hi_hash hi ! h) = Some (Some c)" "int h = i AND hi_hashmod hi"
    using lookup_chain [OF wf, of i] hash_range [OF wf, of i] Some by (simp_all add: h_def)
  have c: "c < length (hi_id hi)" "hi_id hi ! c = i" and i: "0 \<le> i" using hi_tab_Some [OF wf] Some by auto
  define hash where "hash = (hi_hash hi)[h := remove1 c (hi_hash hi ! h)]"
  define hi' where "hi' = hi\<lparr>hi_count := hi_count hi - 1, hi_id := (hi_id hi)[c := - 1], hi_hash := hash\<rparr>"
  have only: "c \<notin> set (hi_hash hi ! g)" if "g < length (hi_hash hi)" "g \<noteq> h" for g
    using hi_wfD(6) [OF wf that(1)] c L(4) that(2) by auto
  have wf': "hi_wf hi'" unfolding hi'_def
  proof (rule hi_wf_set [OF wf c(1)])
    show "set (hash ! g) = set (hi_hash hi ! g) - {c} \<union> (if - 1 \<noteq> (- 1 :: int) \<and> - 1 AND hi_hashmod hi = int g then {c} else {})"
      if "g < length hash" for g
      using that only [of g] hi_wfD(5) [OF wf, of g] L(2) by (auto simp: hash_def nth_list_update)
    show "distinct (hash ! g)" if "g < length hash" for g
      using that hi_wfD(5) [OF wf, of g] by (cases "g = h") (auto simp: hash_def distinct_remove1)
  qed (use c i in \<open>auto simp: hash_def\<close>)
  have "hi_tab hi' j = (if j = i then None else hi_tab hi j)" for j
  proof -
    have "hi_tab hi j = Some c \<longleftrightarrow> j = i" using hi_tab_Some [OF wf] c Some by metis
    moreover have "hi_id hi' = (hi_id hi)[c := - 1]" by (simp add: hi'_def)
    ultimately show ?thesis using hi_tab_set [OF wf wf' _ c(1), of "- 1" j] i by auto
  qed
  then have "hi_tab hi' = (hi_tab hi)(i := None)" by auto
  moreover have "hashid_remove hi i = Some (int c, hi')"
    using L(1-3) c by (simp add: hashid_remove_def Let_def hi'_def hash_def flip: L(4))
  ultimately show ?thesis using wf' Some by (auto simp: hi'_def)
qed

lemma free_scan_spec:
  assumes "length (hi_id hi) = nat (hi_cap hi)" "0 < hi_cap hi" "0 \<le> i" "\<forall>k \<in> set ks. int k + i < 2 ^ 31"
  shows "free_scan hi i ks = Some (map_option (\<lambda>k. nat ((int k + i) mod hi_cap hi)) (List.find (\<lambda>k. hi_id hi ! nat ((int k + i) mod hi_cap hi) = - 1) ks))"
  using assms(4)
proof (induction ks)
  case (Cons k ks)
  have "cint_ok (int k + i)" using Cons.prems assms(3) by (auto simp: cint_ok_def)
  moreover have "aget (hi_id hi) ((int k + i) mod hi_cap hi) = Some (hi_id hi ! nat ((int k + i) mod hi_cap hi))"
    using assms(1,2) by (simp add: aget_def)
  moreover have "c_rem (int k + i) (hi_cap hi) = (int k + i) mod hi_cap hi" using assms(3) by (simp add: c_rem_def)
  ultimately show ?case using Cons by (simp add: Let_def)
qed simp

lemma hashid_insert_spec:
  assumes wf: "hi_wf hi" and i: "0 \<le> i" and room: "hi_room hi i" and full: "\<not> hashid_full hi" and new: "hi_tab hi i = None"
  shows "\<exists>c hi'. hashid_insert hi i = Some (int c, hi') \<and> hi_wf hi' \<and> hi_cap hi' = hi_cap hi \<and>
    hi_tab hi' = (hi_tab hi)(i \<mapsto> c) \<and> c \<notin> ran (hi_tab hi)"
proof -
  note W = hi_wfD [OF wf]
  let ?f = "\<lambda>k. nat ((int k + i) mod hi_cap hi)"
  have ex: "\<exists>d < length (hi_id hi). hi_id hi ! d = - 1"
  proof (rule ccontr)
    assume "\<not> ?thesis"
    then have "{c. c < length (hi_id hi) \<and> hi_id hi ! c \<noteq> - 1} = {..<length (hi_id hi)}" by auto
    then show False using W(1,2,7) full by (simp add: hashid_full_def)
  qed
  then obtain d where d: "d < length (hi_id hi)" "hi_id hi ! d = - 1" by blast
  define k where "k = nat ((int d - i) mod hi_cap hi)"
  have fk: "?f k = d" "k < nat (hi_cap hi)"
    using W(1,2) d(1) by (simp_all add: k_def mod_simps nat_less_iff)
  have scan: "free_scan hi i [0..<nat (hi_cap hi)] =
      Some (map_option ?f (List.find (\<lambda>k. hi_id hi ! ?f k = - 1) [0..<nat (hi_cap hi)]))"
    using W(1,2) i room by (intro free_scan_spec) (auto simp: hi_room_def)
  obtain k' where k': "List.find (\<lambda>k. hi_id hi ! ?f k = - 1) [0..<nat (hi_cap hi)] = Some k'"
    using find_upt(2) [of "\<lambda>k. hi_id hi ! ?f k = - 1" "nat (hi_cap hi)" k] fk d(2) by fastforce
  define c where "c = ?f k'"
  have c: "c < length (hi_id hi)" "hi_id hi ! c = - 1"
    using find_upt(1) [OF k'] W(1,2) by (simp_all add: c_def nat_less_iff)
  define h where "h = nat (i AND hi_hashmod hi)"
  have h: "h < length (hi_hash hi)" "int h = i AND hi_hashmod hi" "aget (hi_hash hi) (int h) = Some (hi_hash hi ! h)"
    using hash_range [OF wf, of i] by (simp_all add: h_def nat_less_iff)
  have nc: "c \<notin> set (hi_hash hi ! g)" if "g < length (hi_hash hi)" for g using W(6) [OF that] c(2) by simp
  have nn: "next_null (hi_hash hi) c"
    using nc by (auto simp: next_null_def list_all_length dest: in_set_butlastD)
  define hash where "hash = (hi_hash hi)[h := c # hi_hash hi ! h]"
  define hi' where "hi' = hi\<lparr>hi_count := hi_count hi + 1, hi_id := (hi_id hi)[c := i], hi_hash := hash\<rparr>"
  have wf': "hi_wf hi'" unfolding hi'_def
  proof (rule hi_wf_set [OF wf c(1)])
    show "set (hash ! g) = set (hi_hash hi ! g) - {c} \<union> (if i \<noteq> - 1 \<and> i AND hi_hashmod hi = int g then {c} else {})"
      if "g < length hash" for g
      using that nc [of g] h i by (auto simp: hash_def nth_list_update)
    show "distinct (hash ! g)" if "g < length hash" for g
      using that W(5) [of g] nc [of g] by (cases "g = h") (auto simp: hash_def)
    show "i = - 1 \<or> hi_id hi ! c = - 1 \<and> i \<notin> set (hi_id hi)" using c(2) new hi_tab_None [OF wf, of i] i by simp
  qed (use c i in \<open>auto simp: hash_def\<close>)
  have "hi_tab hi' j = (if j = i then Some c else hi_tab hi j)" for j
  proof -
    have "0 \<le> j \<Longrightarrow> hi_tab hi j \<noteq> Some c" using hi_tab_Some [OF wf, of j c] c(2) by auto
    moreover have "hi_id hi' = (hi_id hi)[c := i]" by (simp add: hi'_def)
    ultimately show ?thesis using hi_tab_set [OF wf wf' _ c(1), of i j] i by auto
  qed
  then have t: "hi_tab hi' = (hi_tab hi)(i \<mapsto> c)" by auto
  have "c \<notin> ran (hi_tab hi)" using c(2) hi_tab_Some [OF wf, of _ c] by (auto simp: ran_def)
  moreover have "hashid_insert hi i = Some (int c, hi')"
  proof -
    have "free_scan hi i [0..<nat (hi_cap hi)] = Some (Some c)" using scan k' by (simp add: c_def)
    then show ?thesis using c h nn by (simp add: hashid_insert_def Let_def hi'_def hash_def flip: h(2))
  qed
  ultimately show ?thesis using wf' t by (auto simp: hi'_def)
qed


lemma hi_tab_card:
  assumes wf: "hi_wf hi"
  shows "int (card (dom (hi_tab hi))) = hi_count hi"
proof -
  have "bij_betw (\<lambda>c. hi_id hi ! c) {c. c < length (hi_id hi) \<and> hi_id hi ! c \<noteq> - 1} (dom (hi_tab hi))"
  proof (rule bij_betwI')
    fix x assume "x \<in> {c. c < length (hi_id hi) \<and> hi_id hi ! c \<noteq> - 1}"
    then have x: "x < length (hi_id hi)" "hi_id hi ! x \<noteq> - 1" by auto
    then have "- 1 \<le> hi_id hi ! x" using hi_wfD(3) [OF wf] nth_mem by blast
    with x have "x < length (hi_id hi)" "0 \<le> hi_id hi ! x" by linarith+
    then show "hi_id hi ! x \<in> dom (hi_tab hi)" using hi_tab_Some [OF wf, of "hi_id hi ! x" x] by auto
  next
    fix y assume "y \<in> dom (hi_tab hi)"
    then obtain c where "hi_tab hi y = Some c" by auto
    then show "\<exists>x \<in> {c. c < length (hi_id hi) \<and> hi_id hi ! c \<noteq> - 1}. y = hi_id hi ! x"
      using hi_tab_Some [OF wf, of y c] by force
  qed (use hi_wfD(4) [OF wf] in auto)
  then show ?thesis using hi_wfD(7) [OF wf] bij_betw_same_card by fastforce
qed

interpretation slots: slot_table hi_wf hi_tab "\<lambda>hi. nat (hi_cap hi)" hi_room hashid_lookup hashid_insert hashid_remove hashid_full
proof (unfold_locales, goal_cases)
  case (1 t)
  then show ?case unfolding inj_on_def using hi_tab_Some [of t] by (metis domD)
next
  case (2 t i c)
  then show ?case using hi_tab_Some [of t] hi_wfD(2) [of t] by auto
next
  case (3 t)
  then show ?case using hi_tab_card [of t] hi_wfD(1) [of t] by (auto simp: hashid_full_def)
next
  case (4 t i)
  then show ?case by (rule hashid_lookup_spec)
next
  case (5 t i)
  then show ?case using hashid_insert_spec [of t i] by (auto simp: hi_room_def fun_eq_iff)
next
  case (6 t i)
  then show ?case using hashid_remove_spec [of t i] by (auto simp: hi_room_def fun_eq_iff)
qed

lemma hashcap_spec:
  "0 < c \<Longrightarrow> c \<le> 2 ^ 30 \<Longrightarrow> m \<le> 2 ^ 30 \<Longrightarrow> c = 2 ^ j \<Longrightarrow> \<exists>k. hashcap c m = Some (2 ^ k) \<and> m \<le> 2 ^ k"
proof (induction c m arbitrary: j rule: hashcap.induct)
  case (1 c m)
  show ?case
  proof (cases "c < m")
    case True
    then have lt: "c < 2 ^ 30" using "1.prems" by simp
    then have "c \<le> 2 ^ 29"
      using "1.prems"(4) power_strict_increasing_iff [of "2 :: int" j 30] power_increasing_iff [of "2 :: int" j 29] by auto
    then have "c * 2 \<le> 2 ^ 30" "cint (c * 2) = Some (c * 2)" using "1.prems"(1) by (simp_all add: cint_def cint_ok_def)
    moreover have "c * 2 = 2 ^ Suc j" using "1.prems"(4) by simp
    ultimately show ?thesis
      using 1(1) [OF True _ \<open>cint (c * 2) = Some (c * 2)\<close>, of "Suc j"] "1.prems" True by (subst hashcap.simps) simp
  qed (use "1.prems" in \<open>auto simp: hashcap.simps\<close>)
qed

lemma hashid_init_spec:
  assumes "0 < mx" "mx \<le> 2 ^ 30"
  shows "\<exists>hi. hashid_init mx = Some hi \<and> hi_wf hi \<and> hi_cap hi = mx \<and> hi_tab hi = Map.empty"
proof -
  have "\<exists>k. hashcap 16 mx = Some (2 ^ k) \<and> mx \<le> 2 ^ k"
    by (rule hashcap_spec [where j = 4]) (use assms(2) in simp_all)
  then obtain k where k: "hashcap 16 mx = Some (2 ^ k)" by blast
  define hi where "hi = \<lparr>hi_hashmod = 2 ^ k - 1, hi_cap = mx, hi_count = 0, hi_id = replicate (nat mx) (- 1 :: int), hi_hash = replicate (2 ^ k) []\<rparr>"
  have free: "hi_id hi ! c = - 1" if "c < length (hi_id hi)" for c using that by (simp add: hi_def)
  then have none: "{c. c < length (hi_id hi) \<and> hi_id hi ! c \<noteq> - 1} = {}"
    "{c. c < length (hi_id hi) \<and> hi_id hi ! c \<noteq> - 1 \<and> hi_id hi ! c AND hi_hashmod hi = int h} = {}" for h by blast+
  have wf: "hi_wf hi"
    unfolding hi_wf_def none
  proof (intro conjI)
    show "\<exists>k'. hi_hashmod hi = mask k' \<and> length (hi_hash hi) = 2 ^ k'"
      by (rule exI [of _ k]) (simp add: hi_def mask_eq_exp_minus_1)
    show "\<forall>c<length (hi_id hi). \<forall>d<length (hi_id hi). hi_id hi ! c = hi_id hi ! d \<longrightarrow> hi_id hi ! c \<noteq> - 1 \<longrightarrow> c = d"
      using free by blast
  qed (use assms in \<open>simp_all add: hi_def\<close>)
  moreover have "hi_tab hi = Map.empty"
  proof
    fix i show "hi_tab hi i = None"
    proof (cases "hi_tab hi i")
      case (Some c)
      then show ?thesis using hi_tab_Some [OF wf, of i c] free [of c] by linarith
    qed
  qed
  moreover have "hashid_init mx = Some hi" using k by (simp add: hashid_init_def hi_def nat_power_eq)
  moreover have "hi_cap hi = mx" by (simp add: hi_def)
  ultimately show ?thesis by blast
qed

section \<open>Properties\<close>



end
