(* ===== verification/Skynet_Gate.thy ===== *)
theory Skynet_Gate
  imports Skynet_Calls Skynet_Databuffer Skynet_Hashid
begin

text \<open>
  The gate service, \<open>service-src/service_gate.c\<close>: it accepts connections, cuts what they send into
  packages by a header of two or four bytes, and forwards the packages to a broker, to the agent of the
  connection or to the watchdog.  The calls it makes to the core and to the socket layer are recorded,
  in order, in the state; what these calls answer (\<open>skynet_queryname\<close>, \<open>skynet_socket_listen\<close>) is an
  argument.
\<close>

section \<open>Model\<close>

definition BACKLOG :: int where "BACKLOG = 32"

record connection =
  c_id :: int
  c_agent :: u32
  c_client :: u32
  c_remote_name :: cstring
  c_buffer :: databuffer

record gate =
  g_listen_id :: int
  g_watchdog :: u32
  g_broker :: u32
  g_client_tag :: int
  g_header_size :: nat
  g_max_connection :: int
  g_hash :: hashid
  g_conn :: "connection list"
  g_mp :: messagepool
  g_calls :: "call list"

definition gcall :: "call \<Rightarrow> gate \<Rightarrow> gate" where
  "gcall e g = g\<lparr>g_calls := g_calls g @ [e]\<rparr>"

definition conn_zero :: connection where
  "conn_zero = \<lparr>c_id = 0, c_agent = 0, c_client = 0, c_remote_name = [], c_buffer = db_zero\<rparr>"

definition hashid_zero :: hashid where
  "hashid_zero = \<lparr>hi_hashmod = 0, hi_cap = 0, hi_count = 0, hi_id = [], hi_hash = []\<rparr>"

definition gate_create :: gate where
  "gate_create = \<lparr>g_listen_id = - 1, g_watchdog = 0, g_broker = 0, g_client_tag = 0, g_header_size = 0,
     g_max_connection = 0, g_hash = hashid_zero, g_conn = [], g_mp = \<lparr>mp_pool = 0, mp_freelist = 0\<rparr>, g_calls = []\<rparr>"

fun close_all :: "connection list \<Rightarrow> gate \<Rightarrow> gate" where
  "close_all [] g = g"
| "close_all (c # cs) g = close_all cs (if c_id c \<ge> 0 then gcall (SocketClose (c_id c)) g else g)"

definition gate_release :: "gate \<Rightarrow> gate" where
  "gate_release g =
     (let g1 = close_all (take (nat (g_max_connection g)) (g_conn g)) g;
          g2 = (if g_listen_id g1 \<ge> 0 then gcall (SocketClose (g_listen_id g1)) g1 else g1)
      in g2\<lparr>g_mp := messagepool_free (g_mp g2), g_hash := hashid_clear (g_hash g2), g_conn := []\<rparr>)"

text \<open>\<open>_parm\<close> works on the buffer \<open>tmp[sz+1]\<close>: the parameter moves to the front, the bytes behind its
  new terminator stay.\<close>

definition parm :: "byte list \<Rightarrow> nat \<Rightarrow> nat \<Rightarrow> byte list" where
  "parm tmp sz command_sz =
     (let rest = dropWhile (\<lambda>b. b = 32) (drop command_sz (take sz tmp))
      in rest @ [0] @ drop (length rest + 1) tmp)"

definition forward_agent :: "gate \<Rightarrow> int \<Rightarrow> u32 \<Rightarrow> u32 \<Rightarrow> gate option" where
  "forward_agent g fd agentaddr clientaddr = do {
     ident \<leftarrow> hashid_lookup (g_hash g) fd;
     (if ident \<ge> 0 then do {
        c \<leftarrow> aget (g_conn g) ident;
        conn \<leftarrow> aset (g_conn g) ident (c\<lparr>c_agent := agentaddr, c_client := clientaddr\<rparr>);
        Some (g\<lparr>g_conn := conn\<rparr>) }
      else Some g) }"

text \<open>\<open>memcmp(command, "...", i) == 0\<close>: the literal has a terminating zero and nothing behind it.\<close>

definition memcmp_eq :: "byte list \<Rightarrow> cstring \<Rightarrow> nat \<Rightarrow> bool option" where
  "memcmp_eq command lit i =
     (let b = lit @ [0]; k = min i (length b) in
      if take k command \<noteq> take k b then Some False else if i \<le> length b then Some True else None)"

text \<open>\<open>strtoul(p + 1, NULL, 16)\<close> for a string \<open>p\<close>; \<open>behind\<close> is what follows its terminator.\<close>

definition handle_after :: "cstring \<Rightarrow> byte list \<Rightarrow> u32 option" where
  "handle_after p behind =
     (case p of
        _ # p1 \<Rightarrow> Some (ucast (strtoul p1 16))
      | [] \<Rightarrow> if behind = [] then None else Some (ucast (strtoul (cstr behind) 16)))"

definition ctrl_kick :: "gate \<Rightarrow> byte list \<Rightarrow> gate option" where
  "ctrl_kick g tmp = do {
     let uid = to_int (strtol (cstr tmp) 10);
     ident \<leftarrow> hashid_lookup (g_hash g) uid;
     Some (if ident \<ge> 0 then gcall (SocketClose uid) g else g) }"

definition ctrl_forward :: "gate \<Rightarrow> byte list \<Rightarrow> gate option" where
  "ctrl_forward g tmp =
     (case strsep (Some (cstr tmp)) [32] of
        (Some idstr, Some client) \<Rightarrow>
          (case strsep (Some client) [32] of
             (Some agent, Some client') \<Rightarrow> do {
               agent_handle \<leftarrow> handle_after agent (client' @ [0]);
               client_handle \<leftarrow> handle_after client' (drop (length (cstr tmp) + 1) tmp);
               forward_agent g (to_int (strtol idstr 10)) agent_handle client_handle }
           | _ \<Rightarrow> Some g)
      | _ \<Rightarrow> Some g)"

definition ctrl_start :: "gate \<Rightarrow> byte list \<Rightarrow> gate option" where
  "ctrl_start g tmp = do {
     let uid = to_int (strtol (cstr tmp) 10);
     ident \<leftarrow> hashid_lookup (g_hash g) uid;
     Some (if ident \<ge> 0 then gcall (SocketStart uid) g else g) }"

definition ctrl_close :: "gate \<Rightarrow> gate" where
  "ctrl_close g =
     (if g_listen_id g \<ge> 0 then (gcall (SocketClose (g_listen_id g)) g)\<lparr>g_listen_id := - 1\<rparr> else g)"

definition ctrl :: "(cstring \<Rightarrow> u32) \<Rightarrow> gate \<Rightarrow> byte list \<Rightarrow> gate option" where
  "ctrl queryname g msg =
     (let sz = length msg; tmp = msg @ [0]; i = length (takeWhile (\<lambda>b. b \<noteq> 32) msg) in
      if sz = 0 then Some g
      else do {
        kick \<leftarrow> memcmp_eq tmp (bytes ''kick'') i;
        (if kick then ctrl_kick g (parm tmp sz i) else do {
        forward \<leftarrow> memcmp_eq tmp (bytes ''forward'') i;
        (if forward then ctrl_forward g (parm tmp sz i) else do {
        broker \<leftarrow> memcmp_eq tmp (bytes ''broker'') i;
        (if broker then Some (g\<lparr>g_broker := queryname (cstr (parm tmp sz i))\<rparr>) else do {
        start \<leftarrow> memcmp_eq tmp (bytes ''start'') i;
        (if start then ctrl_start g (parm tmp sz i) else do {
        close \<leftarrow> memcmp_eq tmp (bytes ''close'') i;
        Some (if close then ctrl_close g
              else gcall (Error (bytes ''[gate] Unkown command : '' @ cstr tmp)) g) }) }) }) }) })"

text \<open>\<open>_report\<close>: the text is printed into 1024 bytes, and as many bytes as it has are sent.\<close>

definition report :: "gate \<Rightarrow> cstring \<Rightarrow> gate option" where
  "report g data =
     (if g_watchdog g = 0 then Some g
      else do {
        require (length data < 1024);
        Some (gcall (Send 0 (g_watchdog g) PTYPE_TEXT 0 data) g) })"

definition read_conn :: "gate \<Rightarrow> nat \<Rightarrow> nat \<Rightarrow> (byte list \<times> gate) option" where
  "read_conn g k n = do {
     c \<leftarrow> aget (g_conn g) (int k);
     (temp, db, mp) \<leftarrow> databuffer_read (c_buffer c) (g_mp g) n;
     Some (temp, g\<lparr>g_conn := (g_conn g)[k := c\<lparr>c_buffer := db\<rparr>], g_mp := mp\<rparr>) }"

definition forward :: "gate \<Rightarrow> nat \<Rightarrow> nat \<Rightarrow> gate option" where
  "forward g k n =
     (let c = g_conn g ! k in
      if g_broker g \<noteq> 0 then do {
        (temp, g') \<leftarrow> read_conn g k n;
        Some (gcall (Send 0 (g_broker g) (dontcopy (g_client_tag g)) 1 temp) g') }
      else if c_agent c \<noteq> 0 then do {
        (temp, g') \<leftarrow> read_conn g k n;
        Some (gcall (Send (c_client c) (c_agent c) (dontcopy (g_client_tag g)) 1 temp) g') }
      else if g_watchdog g \<noteq> 0 then do {
        (temp, g') \<leftarrow> read_conn g k n;
        Some (gcall (Send 0 (g_watchdog g) (dontcopy PTYPE_TEXT) 1 (fmt_d (c_id c) @ bytes '' data '' @ temp)) g') }
      else Some g)"

definition set_buffer :: "gate \<Rightarrow> nat \<Rightarrow> databuffer \<times> messagepool \<Rightarrow> gate" where
  "set_buffer g k b = g\<lparr>g_conn := (g_conn g)[k := (g_conn g ! k)\<lparr>c_buffer := fst b\<rparr>], g_mp := snd b\<rparr>"

partial_function (option) dispatch_loop :: "gate \<Rightarrow> nat \<Rightarrow> int \<Rightarrow> gate option" where
  "dispatch_loop g k ident = do {
     (n, b) \<leftarrow> databuffer_readheader (c_buffer (g_conn g ! k)) (g_mp g) (g_header_size g);
     let g1 = set_buffer g k b;
     (if n < 0 then Some g1
      else if n > 0 then
        (if n \<ge> 0x1000000 then
           (let g2 = set_buffer g1 k (databuffer_clear (c_buffer (g_conn g1 ! k)) (g_mp g1))
            in Some (gcall (Error (bytes ''Recv socket message > 16M'')) (gcall (SocketClose ident) g2)))
         else do {
           g2 \<leftarrow> forward g1 k (nat n);
           dispatch_loop (set_buffer g2 k (databuffer_reset (c_buffer (g_conn g2 ! k)), g_mp g2)) k ident })
      else dispatch_loop g1 k ident) }"

definition dispatch_message :: "gate \<Rightarrow> nat \<Rightarrow> int \<Rightarrow> byte list \<Rightarrow> gate option" where
  "dispatch_message g k ident data = do {
     c \<leftarrow> aget (g_conn g) (int k);
     b \<leftarrow> databuffer_push (c_buffer c) (g_mp g) data;
     dispatch_loop (set_buffer g k b) k ident }"

definition gate_data :: "gate \<Rightarrow> socket_message \<Rightarrow> gate option" where
  "gate_data g m = do {
     ident \<leftarrow> hashid_lookup (g_hash g) (m_id m);
     (if ident \<ge> 0 then do {
        require (m_ud m = int (length (m_buffer m)));
        dispatch_message g (nat ident) (m_id m) (m_buffer m) }
      else Some (gcall (FreeBuffer (m_buffer m)) (gcall (SocketClose (m_id m))
             (gcall (Error (bytes ''Drop unknown connection '' @ fmt_d (m_id m) @ bytes '' message'')) g)))) }"

definition gate_connect :: "gate \<Rightarrow> socket_message \<Rightarrow> gate option" where
  "gate_connect g m =
     (if m_id m = g_listen_id g then Some g
      else do {
        ident \<leftarrow> hashid_lookup (g_hash g) (m_id m);
        Some (if ident < 0 then gcall (SocketClose (m_id m)) (gcall (Error (bytes ''Close unknown connection '' @ fmt_d (m_id m))) g)
              else g) })"

definition gate_closed :: "gate \<Rightarrow> socket_message \<Rightarrow> gate option" where
  "gate_closed g m = do {
     (ident, hash) \<leftarrow> hashid_remove (g_hash g) (m_id m);
     let g1 = g\<lparr>g_hash := hash\<rparr>;
     (if ident \<ge> 0 then do {
        c \<leftarrow> aget (g_conn g1) ident;
        let (db, mp) = databuffer_clear (c_buffer c) (g_mp g1);
        conn \<leftarrow> aset (g_conn g1) ident (conn_zero\<lparr>c_id := - 1\<rparr>);
        report (g1\<lparr>g_conn := conn, g_mp := mp\<rparr>) (fmt_d (m_id m) @ bytes '' close'') }
      else Some g1) }"

definition gate_accept :: "gate \<Rightarrow> socket_message \<Rightarrow> gate option" where
  "gate_accept g m = do {
     require (g_listen_id g = m_id m);
     (if hashid_full (g_hash g) then Some (gcall (SocketClose (m_ud m)) g)
      else do {
        (ident, hash) \<leftarrow> hashid_insert (g_hash g) (m_ud m);
        let g1 = g\<lparr>g_hash := hash\<rparr>;
        c \<leftarrow> aget (g_conn g1) ident;
        let name = cstr (take (min 31 (length (m_tail m))) (m_tail m));
        conn \<leftarrow> aset (g_conn g1) ident (c\<lparr>c_id := m_ud m, c_remote_name := name\<rparr>);
        g2 \<leftarrow> report (g1\<lparr>g_conn := conn\<rparr>) (fmt_d (m_ud m) @ bytes '' open '' @ fmt_d (m_ud m) @ bytes '' '' @ name @ bytes '':0'');
        Some (gcall (Error (bytes ''socket open: '' @ fmt_x (of_int (m_ud m)))) g2) }) }"

definition gate_warning :: "gate \<Rightarrow> socket_message \<Rightarrow> gate" where
  "gate_warning g m = gcall (Error (bytes ''fd ('' @ fmt_d (m_id m) @ bytes '') send buffer ('' @ fmt_d (m_ud m) @ bytes '')K'')) g"

definition dispatch_socket_message :: "gate \<Rightarrow> socket_message \<Rightarrow> gate option" where
  "dispatch_socket_message g m =
     (if m_type m = SKYNET_SOCKET_TYPE_DATA then gate_data g m
      else if m_type m = SKYNET_SOCKET_TYPE_CONNECT then gate_connect g m
      else if m_type m = SKYNET_SOCKET_TYPE_CLOSE \<or> m_type m = SKYNET_SOCKET_TYPE_ERROR then gate_closed g m
      else if m_type m = SKYNET_SOCKET_TYPE_ACCEPT then gate_accept g m
      else if m_type m = SKYNET_SOCKET_TYPE_WARNING then Some (gate_warning g m)
      else Some g)"

text \<open>A message to the service: bytes, or the structure of the socket layer.\<close>

datatype gate_msg = Bytes "byte list" | Socket socket_message

definition client_id :: "byte list \<Rightarrow> u32" where
  "client_id idbuf = ucast (idbuf ! 0) OR push_bit 8 (ucast (idbuf ! 1)) OR push_bit 16 (ucast (idbuf ! 2)) OR push_bit 24 (ucast (idbuf ! 3))"

definition gate_client :: "gate \<Rightarrow> u32 \<Rightarrow> byte list \<Rightarrow> (int \<times> gate) option" where
  "gate_client g source msg =
     (let sz = length msg in
      if sz \<le> 4 then Some (0, gcall (Error (bytes ''Invalid client message from '' @ fmt_x source)) g)
      else do {
        let uid = client_id (drop (sz - 4) msg);
        ident \<leftarrow> hashid_lookup (g_hash g) (sint uid);
        Some (if ident \<ge> 0 then (1, gcall (SocketSend (sint uid) (take (sz - 4) msg)) g)
              else (0, gcall (Error (bytes ''Invalid client id '' @ fmt_d (sint uid) @ bytes '' from '' @ fmt_x source)) g)) })"

definition gate_cb :: "(cstring \<Rightarrow> u32) \<Rightarrow> gate \<Rightarrow> int \<Rightarrow> u32 \<Rightarrow> gate_msg \<Rightarrow> (int \<times> gate) option" where
  "gate_cb queryname g ty source msg =
     (case msg of
        Bytes b \<Rightarrow>
          if ty = PTYPE_TEXT then map_option (\<lambda>g'. (0, g')) (ctrl queryname g b)
          else if ty = PTYPE_CLIENT then gate_client g source b
          else if ty = PTYPE_SOCKET then None
          else Some (0, g)
      | Socket m \<Rightarrow>
          if ty = PTYPE_TEXT \<or> ty = PTYPE_CLIENT then None
          else if ty = PTYPE_SOCKET then map_option (\<lambda>g'. (0, g')) (dispatch_socket_message g m)
          else Some (0, g))"

definition start_listen :: "(cstring \<Rightarrow> int \<Rightarrow> int \<Rightarrow> int) \<Rightarrow> gate \<Rightarrow> cstring \<Rightarrow> int \<times> gate" where
  "start_listen listen g listen_addr =
     (let (host, port) =
            (case strchr listen_addr 58 of
               None \<Rightarrow> ([], to_int (strtol listen_addr 10))
             | Some portstr \<Rightarrow> (takeWhile (\<lambda>b. b \<noteq> 58) listen_addr, to_int (strtol (drop 1 portstr) 10)))
      in if port \<le> 0 then (1, gcall (Error (bytes ''Invalid gate address '' @ listen_addr)) g)
         else
           (let l = listen host port BACKLOG;
                g1 = (gcall (SocketListen host port BACKLOG) g)\<lparr>g_listen_id := l\<rparr>
            in if l < 0 then (1, g1) else (0, gcall (SocketStart l) g1)))"

text \<open>\<open>sscanf(parm, "%c %s %s %d %d", ...)\<close>: the items that were read, in order.\<close>

record gate_parm =
  p_items :: nat
  p_header :: byte
  p_watchdog :: cstring
  p_binding :: cstring
  p_client_tag :: int
  p_max :: int

definition scan_parm :: "cstring \<Rightarrow> gate_parm" where
  "scan_parm s =
     (let p0 = \<lparr>p_items = 0, p_header = 0, p_watchdog = [], p_binding = [], p_client_tag = 0, p_max = 0\<rparr> in
      case s of [] \<Rightarrow> p0 | h # r0 \<Rightarrow>
        (let p1 = p0\<lparr>p_items := 1, p_header := h\<rparr> in
         case scan_word r0 of (None, _) \<Rightarrow> p1 | (Some w, r1) \<Rightarrow>
           (let p2 = p1\<lparr>p_items := 2, p_watchdog := w\<rparr> in
            case scan_word r1 of (None, _) \<Rightarrow> p2 | (Some b, r2) \<Rightarrow>
              (let p3 = p2\<lparr>p_items := 3, p_binding := b\<rparr> in
               case scan_int r2 of (None, _) \<Rightarrow> p3 | (Some t, r3) \<Rightarrow>
                 (let p4 = p3\<lparr>p_items := 4, p_client_tag := t\<rparr> in
                  case scan_int r3 of (None, _) \<Rightarrow> p4 | (Some m, _) \<Rightarrow> p4\<lparr>p_items := 5, p_max := m\<rparr>)))))"

definition gate_init ::
  "(cstring \<Rightarrow> u32) \<Rightarrow> (cstring \<Rightarrow> int \<Rightarrow> int \<Rightarrow> int) \<Rightarrow> gate \<Rightarrow> cstring option \<Rightarrow> (int \<times> gate) option" where
  "gate_init queryname listen g prm =
     (case prm of None \<Rightarrow> Some (1, g) | Some s \<Rightarrow>
       (let p = scan_parm s in
        if p_items p < 4 then Some (1, gcall (Error (bytes ''Invalid gate parm '' @ s)) g)
        else if p_max p \<le> 0 then Some (1, gcall (Error (bytes ''Need max connection'')) g)
        else if p_header p \<noteq> of_char CHR ''S'' \<and> p_header p \<noteq> of_char CHR ''L'' then
          Some (1, gcall (Error (bytes ''Invalid data header style'')) g)
        else
          (let tag = (if p_client_tag p = 0 then PTYPE_CLIENT else p_client_tag p);
               wd = (if hd (p_watchdog p) = of_char CHR ''!'' then 0 else queryname (p_watchdog p));
               g0 = g\<lparr>g_watchdog := wd\<rparr>
           in if hd (p_watchdog p) \<noteq> of_char CHR ''!'' \<and> wd = 0 then
                Some (1, gcall (Error (bytes ''Invalid watchdog '' @ p_watchdog p)) g0)
              else do {
                hash \<leftarrow> hashid_init (p_max p);
                let g1 = g0\<lparr>g_hash := hash, g_conn := replicate (nat (p_max p)) (conn_zero\<lparr>c_id := - 1\<rparr>),
                   g_max_connection := p_max p, g_client_tag := tag,
                   g_header_size := (if p_header p = of_char CHR ''S'' then 2 else 4)\<rparr>;
                Some (start_listen listen (gcall Callback g1) (p_binding p)) })))"


section \<open>Cutting a stream into packages\<close>

text \<open>The packages of a byte stream, what is left of it, and whether a package of 16 MB or more was
  complete.  A package with a header that reads as a negative number is never complete.  The first argument
  tells whether there is somebody to send the packages to: without, the loop of \<open>dispatch_message\<close> leaves
  the package in the buffer and reads its next header there.\<close>

function split_stream :: "bool \<Rightarrow> nat \<Rightarrow> byte list \<Rightarrow> byte list list \<times> byte list \<times> bool" where
  "split_stream d hs bs =
     (if hs = 0 \<or> length bs < hs then ([], bs, False)
      else
        (let n = header_value hs (take hs bs); rest = drop hs bs in
         if n < 0 \<or> int (length rest) < n then ([], bs, False)
         else if n \<ge> 0x1000000 then ([], [], True)
         else
           (let (fs, r, over) = split_stream d hs (if d then drop (nat n) rest else rest)
            in ((if n = 0 \<or> \<not> d then fs else take (nat n) rest # fs), r, over))))"
  by pat_completeness auto
termination
  by (relation "measure (\<lambda>(_, _, bs). length bs)") auto

declare split_stream.simps [simp del]

text \<open>The bytes that a buffer stands for: a header that was read is still part of the stream.\<close>

definition holds :: "nat \<Rightarrow> databuffer \<Rightarrow> byte list \<Rightarrow> bool" where
  "holds hs db bs \<longleftrightarrow> db_wf db \<and>
     (if db_header db = 0 then bs = db_bytes db
      else hs \<le> length bs \<and> header_value hs (take hs bs) = db_header db \<and> drop hs bs = db_bytes db)"

lemma holdsD: "holds hs db bs \<Longrightarrow> db_wf db"
  by (simp add: holds_def)

lemma db_bytes_header [simp]: "db_bytes (db\<lparr>db_header := h\<rparr>) = db_bytes db"
  by (simp add: db_bytes_def)

lemma db_wf_header [simp]: "db_wf (db\<lparr>db_header := h\<rparr>) = db_wf db"
  by (simp add: db_wf_def)

lemma holds_push:
  assumes "holds hs db bs" "length (db_bytes db) + length d < 2 ^ 31"
  shows "\<exists>db' mp'. databuffer_push db mp d = Some (db', mp') \<and> holds hs db' (bs @ d)"
  using databuffer_push_spec [OF holdsD [OF assms(1)] assms(2), of mp] assms(1) by (auto simp: holds_def)

lemma readheader_short:
  assumes "holds hs db bs" "length bs < hs"
  shows "databuffer_readheader db mp hs = Some (- 1, db, mp)"
  using assms by (auto simp: holds_def databuffer_readheader_def db_wf_def split: if_splits)

lemma readheader_spec:
  assumes "holds hs db bs" "0 < hs" "hs \<le> length bs"
  defines "n \<equiv> header_value hs (take hs bs)"
  shows "\<exists>db' mp'. databuffer_readheader db mp hs = Some (if int (length (drop hs bs)) < n then - 1 else n, db', mp') \<and>
    db_wf db' \<and> db_header db' = n \<and> db_bytes db' = drop hs bs"
proof (cases "db_header db = 0")
  case True
  then have bs: "bs = db_bytes db" "db_wf db" using assms(1) by (simp_all add: holds_def)
  obtain db1 mp1 where r: "databuffer_read db mp hs = Some (take hs bs, db1, mp1)" "db_wf db1" "db_bytes db1 = drop hs bs"
    using databuffer_read_spec [OF bs(2) assms(2), of mp] assms(3) bs(1) by auto
  moreover have "\<not> db_size db < int hs" using assms(3) bs by (simp add: db_wf_def)
  moreover have "db_size db1 = int (length (drop hs bs))" using r by (simp add: db_wf_def)
  ultimately show ?thesis using True by (simp add: databuffer_readheader_def n_def)
next
  case False
  then have "db_header db = n" "db_bytes db = drop hs bs" "db_wf db" "db_size db = int (length (drop hs bs))"
    using assms(1) by (auto simp: holds_def n_def db_wf_def)
  then show ?thesis using False by (simp add: databuffer_readheader_def)
qed

section \<open>The dispatch loop\<close>

definition upd :: "gate \<Rightarrow> nat \<Rightarrow> databuffer \<Rightarrow> messagepool \<Rightarrow> call list \<Rightarrow> gate" where
  "upd g k db mp cs = g\<lparr>g_conn := (g_conn g)[k := (g_conn g ! k)\<lparr>c_buffer := db\<rparr>], g_mp := mp, g_calls := g_calls g @ cs\<rparr>"

abbreviation buffer_of :: "gate \<Rightarrow> nat \<Rightarrow> databuffer" where
  "buffer_of g k \<equiv> c_buffer (g_conn g ! k)"

lemma upd_simps [simp]:
  "g_listen_id (upd g k db mp cs) = g_listen_id g" "g_watchdog (upd g k db mp cs) = g_watchdog g" "g_broker (upd g k db mp cs) = g_broker g"
  "g_client_tag (upd g k db mp cs) = g_client_tag g" "g_header_size (upd g k db mp cs) = g_header_size g"
  "g_max_connection (upd g k db mp cs) = g_max_connection g" "g_hash (upd g k db mp cs) = g_hash g"
  "length (g_conn (upd g k db mp cs)) = length (g_conn g)" "g_mp (upd g k db mp cs) = mp" "g_calls (upd g k db mp cs) = g_calls g @ cs"
  "k < length (g_conn g) \<Longrightarrow> g_conn (upd g k db mp cs) ! k = (g_conn g ! k)\<lparr>c_buffer := db\<rparr>"
  "k < length (g_conn g) \<Longrightarrow> upd (upd g k db mp cs) k db' mp' cs' = upd g k db' mp' (cs @ cs')"
  by (simp_all add: upd_def)

lemma set_buffer_upd: "set_buffer g k b = upd g k (fst b) (snd b) []"
  by (simp add: set_buffer_def upd_def)

lemma gcall_upd: "gcall e (upd g k db mp cs) = upd g k db mp (cs @ [e])"
  by (simp add: gcall_def upd_def)

text \<open>Where the packages of a connection go.\<close>

definition destined :: "gate \<Rightarrow> nat \<Rightarrow> bool" where
  "destined g k \<longleftrightarrow> g_broker g \<noteq> 0 \<or> c_agent (g_conn g ! k) \<noteq> 0 \<or> g_watchdog g \<noteq> 0"

definition deliver :: "gate \<Rightarrow> nat \<Rightarrow> byte list \<Rightarrow> call" where
  "deliver g k p =
     (let c = g_conn g ! k in
      if g_broker g \<noteq> 0 then Send 0 (g_broker g) (dontcopy (g_client_tag g)) 1 p
      else if c_agent c \<noteq> 0 then Send (c_client c) (c_agent c) (dontcopy (g_client_tag g)) 1 p
      else Send 0 (g_watchdog g) (dontcopy PTYPE_TEXT) 1 (fmt_d (c_id c) @ bytes '' data '' @ p))"

lemma deliver_upd [simp]: "k < length (g_conn g) \<Longrightarrow> deliver (upd g k db mp cs) k = deliver g k"
  by (simp add: fun_eq_iff deliver_def Let_def)

lemma destined_upd [simp]: "k < length (g_conn g) \<Longrightarrow> destined (upd g k db mp cs) k = destined g k"
  by (simp add: destined_def)

lemma forward_spec:
  assumes "k < length (g_conn g)" "destined g k" "db_wf (buffer_of g k)" "0 < n" "n \<le> length (db_bytes (buffer_of g k))"
  shows "\<exists>db mp. forward g k n = Some (upd g k db mp [deliver g k (take n (db_bytes (buffer_of g k)))]) \<and>
    db_wf db \<and> db_bytes db = drop n (db_bytes (buffer_of g k))"
proof -
  obtain db mp where r: "databuffer_read (buffer_of g k) (g_mp g) n = Some (take n (db_bytes (buffer_of g k)), db, mp)" "db_wf db"
      "db_bytes db = drop n (db_bytes (buffer_of g k))"
    using databuffer_read_spec [OF assms(3-5), of "g_mp g"] by blast
  then have "read_conn g k n = Some (take n (db_bytes (buffer_of g k)), upd g k db mp [])"
    using assms(1) by (simp add: read_conn_def upd_def)
  then show ?thesis using assms(1,2) r by (auto simp: forward_def destined_def deliver_def gcall_upd Let_def)
qed

definition too_long :: "int \<Rightarrow> call list" where
  "too_long ident = [SocketClose ident, Error (bytes ''Recv socket message > 16M'')]"

lemma dispatch_loop_spec:
  assumes "k < length (g_conn g)" "g_header_size g = hs" "0 < hs" "holds hs (buffer_of g k) bs"
    and "split_stream (destined g k) hs bs = (fs, rest, over)"
  shows "\<exists>db mp. dispatch_loop g k ident = Some (upd g k db mp (map (deliver g k) fs @ (if over then too_long ident else []))) \<and> holds hs db rest"
  using assms
proof (induction "length bs" arbitrary: bs g fs rule: less_induct)
  case less
  note k = less.prems(1) and hs = less.prems(2,3) and H = less.prems(4) and S = less.prems(5)
  show ?case
  proof (cases "length bs < hs")
    case True
    then have "fs = [] \<and> rest = bs \<and> \<not> over" using S by (subst (asm) split_stream.simps) simp
    moreover have "dispatch_loop g k ident = Some (upd g k (buffer_of g k) (g_mp g) [])"
      using readheader_short [OF H True, of "g_mp g"] hs(1) by (subst dispatch_loop.simps) (simp add: set_buffer_upd)
    ultimately show ?thesis using H by auto
  next
    case False
    define n where "n = header_value hs (take hs bs)"
    define tl where "tl = drop hs bs"
    obtain db mp where R: "databuffer_readheader (buffer_of g k) (g_mp g) (g_header_size g) = Some (if int (length tl) < n then - 1 else n, db, mp)"
        "db_wf db" "db_header db = n" "db_bytes db = tl"
      using readheader_spec [OF H hs(2), of "g_mp g"] False hs(1) unfolding n_def tl_def by auto
    define g1 where "g1 = upd g k db mp []"
    have g1: "set_buffer g k (db, mp) = g1" by (simp add: set_buffer_upd g1_def)
    have b1: "buffer_of g1 k = db" "g_mp g1 = mp" "length (g_conn g1) = length (g_conn g)" using k by (simp_all add: g1_def)
    consider "n < 0 \<or> int (length tl) < n" | "0x1000000 \<le> n" "n \<le> int (length tl)" | "n = 0 \<or> \<not> destined g k" "0 \<le> n" "n < 0x1000000" "n \<le> int (length tl)" | "destined g k" "0 < n" "n < 0x1000000" "n \<le> int (length tl)"
      by linarith
    then show ?thesis
    proof cases
      case 1
      then have "fs = [] \<and> rest = bs \<and> \<not> over" using S False hs(2) by (subst (asm) split_stream.simps) (simp flip: n_def tl_def)
      moreover have "dispatch_loop g k ident = Some g1"
        using 1 R(1) by (subst dispatch_loop.simps) (auto simp: g1)
      moreover have "holds hs db bs" using R 1 False by (auto simp: holds_def n_def tl_def)
      ultimately show ?thesis by (auto simp: g1_def)
    next
      case 2
      then have "fs = [] \<and> rest = [] \<and> over" using S False hs(2) by (subst (asm) split_stream.simps) (simp flip: n_def tl_def)
      moreover have "dispatch_loop g k ident = Some (upd g k db_zero (mp\<lparr>mp_freelist := mp_freelist mp + length (db_msgs db)\<rparr>) (too_long ident))"
        using 2 R(1) k by (subst dispatch_loop.simps) (simp add: g1 b1 databuffer_clear_def set_buffer_upd, simp add: g1_def gcall_upd too_long_def)
      moreover have "holds hs db_zero []" by (simp add: holds_def db_zero_def db_wf_def db_bytes_def)
      ultimately show ?thesis by auto
    next
      case 3
      obtain fs' where S': "split_stream (destined g k) hs tl = (fs', rest, over)" "fs = fs'"
        using S False 3 hs(2) split_stream.simps [of "destined g k" hs bs] by (auto simp flip: n_def tl_def split: prod.splits if_splits)
      define g2 where "g2 = upd g k (databuffer_reset db) mp []"
      have "forward g1 k (nat n) = Some g1" if "\<not> destined g k"
        using that k by (simp add: g1_def forward_def destined_def Let_def)
      moreover have "g1 = g2" if "n = 0" using that R(3) by (cases db) (simp add: g1_def g2_def databuffer_reset_def)
      moreover have "set_buffer g1 k (databuffer_reset (buffer_of g1 k), g_mp g1) = g2"
        using k by (simp add: b1 set_buffer_upd) (simp add: g1_def g2_def)
      ultimately have "dispatch_loop g k ident = dispatch_loop g2 k ident"
        using 3 R(1) by (subst dispatch_loop.simps) (auto simp: g1 Let_def)
      moreover have "holds hs (buffer_of g2 k) tl" using R k by (simp add: g2_def holds_def databuffer_reset_def)
      ultimately show ?thesis
        using less.hyps [of tl g2 fs'] False hs k S' by (auto simp: tl_def g2_def)
    next
      case 4
      obtain fs' where S': "split_stream True hs (drop (nat n) tl) = (fs', rest, over)" "fs = take (nat n) tl # fs'"
        using S False 4 hs(2) split_stream.simps [of "destined g k" hs bs] by (auto simp flip: n_def tl_def split: prod.splits)
      obtain db2 mp2 where F: "forward g1 k (nat n) = Some (upd g1 k db2 mp2 [deliver g k (take (nat n) tl)])" "db_wf db2" "db_bytes db2 = drop (nat n) tl"
        using forward_spec [of k g1 "nat n"] k R 4 b1 by (auto simp: g1_def nat_le_iff)
      define g2 where "g2 = upd g k (databuffer_reset db2) mp2 [deliver g k (take (nat n) tl)]"
      have "dispatch_loop g k ident = dispatch_loop g2 k ident"
        using 4 R(1) F(1) k by (subst dispatch_loop.simps) (simp add: g1, simp add: g1_def set_buffer_upd g2_def)
      moreover have "holds hs (buffer_of g2 k) (drop (nat n) tl)"
        using F k by (simp add: g2_def holds_def databuffer_reset_def)
      ultimately show ?thesis
        using less.hyps [of "drop (nat n) tl" g2 fs'] False hs k S' 4(1) by (auto simp: tl_def g2_def)
    qed
  qed
qed


lemma dispatch_message_spec:
  assumes "k < length (g_conn g)" "0 < g_header_size g" "holds (g_header_size g) (buffer_of g k) bs" "length (db_bytes (buffer_of g k)) + length d < 2 ^ 31"
    and "split_stream (destined g k) (g_header_size g) (bs @ d) = (fs, rest, over)"
  shows "\<exists>db mp. dispatch_message g k ident d = Some (upd g k db mp (map (deliver g k) fs @ (if over then too_long ident else []))) \<and>
    holds (g_header_size g) db rest"
proof -
  obtain db mp where P: "databuffer_push (buffer_of g k) (g_mp g) d = Some (db, mp)" "holds (g_header_size g) db (bs @ d)"
    using holds_push [OF assms(3), of d "g_mp g"] assms(4) by auto
  then show ?thesis
    using dispatch_loop_spec [of k "upd g k db mp []" "g_header_size g" "bs @ d" fs rest over ident] assms
    by (auto simp: dispatch_message_def set_buffer_upd)
qed

section \<open>The state of the gate\<close>

definition closed_conn :: connection where
  "closed_conn = conn_zero\<lparr>c_id := - 1\<rparr>"

text \<open>
  The invariant: the table of ids and the array of connections agree; a slot that is not in use has no
  agent, no client and no bytes, so that nothing of a closed connection is left for the next one; every
  buffer holds some suffix of a stream.
\<close>

definition gate_inv :: "gate \<Rightarrow> bool" where
  "gate_inv g \<longleftrightarrow> hi_wf (g_hash g) \<and> length (g_conn g) = nat (hi_cap (g_hash g)) \<and> g_max_connection g = hi_cap (g_hash g) \<and>
     g_header_size g \<in> {2, 4} \<and>
     (\<forall>i k. hi_tab (g_hash g) i = Some k \<longleftrightarrow> 0 \<le> i \<and> k < length (g_conn g) \<and> c_id (g_conn g ! k) = i) \<and>
     (\<forall>c \<in> set (g_conn g). (0 \<le> c_id c \<or> c = closed_conn) \<and> (\<exists>bs. holds (g_header_size g) (c_buffer c) bs))"

lemma gate_invD:
  assumes "gate_inv g"
  shows "hi_wf (g_hash g)" "length (g_conn g) = nat (hi_cap (g_hash g))" "g_max_connection g = hi_cap (g_hash g)" "g_header_size g \<in> {2, 4}"
    and "hi_tab (g_hash g) i = Some k \<longleftrightarrow> 0 \<le> i \<and> k < length (g_conn g) \<and> c_id (g_conn g ! k) = i"
    and "c \<in> set (g_conn g) \<Longrightarrow> 0 \<le> c_id c \<or> c = closed_conn"
    and "c \<in> set (g_conn g) \<Longrightarrow> \<exists>bs. holds (g_header_size g) (c_buffer c) bs"
    and "0 < g_header_size g"
proof -
  note inv = assms [unfolded gate_inv_def]
  show "hi_wf (g_hash g)" "length (g_conn g) = nat (hi_cap (g_hash g))" "g_max_connection g = hi_cap (g_hash g)" "g_header_size g \<in> {2, 4}"
    using inv by blast+
  then show "0 < g_header_size g" by auto
  show "hi_tab (g_hash g) i = Some k \<longleftrightarrow> 0 \<le> i \<and> k < length (g_conn g) \<and> c_id (g_conn g ! k) = i" using inv by blast
  show "0 \<le> c_id c \<or> c = closed_conn" "\<exists>bs. holds (g_header_size g) (c_buffer c) bs" if "c \<in> set (g_conn g)"
    using inv that by blast+
qed

lemma closed_holds [simp]: "holds hs (c_buffer closed_conn) []"
  by (simp add: closed_conn_def conn_zero_def db_zero_def holds_def db_wf_def db_bytes_def)

text \<open>Changing one connection in place.\<close>

lemma gate_inv_update:
  assumes inv: "gate_inv g" and k: "k < length (g_conn g)" "0 \<le> c_id (g_conn g ! k)" and c: "c_id c = c_id (g_conn g ! k)" "holds (g_header_size g) (c_buffer c) bs"
    and g': "g_conn g' = (g_conn g)[k := c]" "g_hash g' = g_hash g" "g_max_connection g' = g_max_connection g" "g_header_size g' = g_header_size g"
  shows "gate_inv g'"
proof -
  have "c_id (g_conn g' ! j) = c_id (g_conn g ! j)" if "j < length (g_conn g)" for j
    using c g'(1) k(1) that by (cases "j = k") simp_all
  moreover have "d = c \<or> d \<in> set (g_conn g)" if "d \<in> set (g_conn g')" for d
    using that set_update_subset_insert [of "g_conn g" k c] g'(1) by auto
  ultimately show ?thesis
    unfolding gate_inv_def
  proof (intro conjI ballI allI, goal_cases)
    case (5 i j)
    then show ?case using gate_invD(5) [OF inv, of i j] g' by auto
  qed (use gate_invD [OF inv] c k g' in fastforce)+
qed

lemma gate_inv_calls: "gate_inv g \<Longrightarrow> gate_inv (gcall e g)"
  by (simp add: gate_inv_def gcall_def)

lemma lookup_conn:
  assumes "gate_inv g"
  shows "hashid_lookup (g_hash g) i = Some (slot_result (hi_tab (g_hash g)) i)"
    and "0 \<le> slot_result (hi_tab (g_hash g)) i \<Longrightarrow> \<exists>k < length (g_conn g). hi_tab (g_hash g) i = Some k \<and> slot_result (hi_tab (g_hash g)) i = int k \<and>
      c_id (g_conn g ! k) = i \<and> 0 \<le> i"
  using slots.lookup_law [OF gate_invD(1) [OF assms], of i] gate_invD(5) [OF assms, of i]
  by (auto simp: slot_result_def split: option.splits)

text \<open>The handlers keep the invariant.\<close>

named_theorems gate_keeps \<open>the handlers keep the invariant of the gate\<close>

lemma gate_inv_fields [simp]:
  "gate_inv (g\<lparr>g_broker := b\<rparr>) = gate_inv g" "gate_inv (g\<lparr>g_listen_id := l\<rparr>) = gate_inv g" "gate_inv (gcall e g) = gate_inv g"
  "gate_inv (g\<lparr>g_mp := mp\<rparr>) = gate_inv g"
  by (simp_all add: gate_inv_def gcall_def)

lemma forward_agent_total:
  assumes "gate_inv g"
  shows "\<exists>g'. forward_agent g fd a c = Some g' \<and> gate_inv g'"
proof (cases "0 \<le> slot_result (hi_tab (g_hash g)) fd")
  case True
  then obtain k where k: "k < length (g_conn g)" "slot_result (hi_tab (g_hash g)) fd = int k" "0 \<le> c_id (g_conn g ! k)"
    using lookup_conn(2) [OF assms] by metis
  obtain bs where "holds (g_header_size g) (buffer_of g k) bs" using gate_invD(7) [OF assms, of "g_conn g ! k"] k(1) by auto
  then have "gate_inv (g\<lparr>g_conn := (g_conn g)[k := (g_conn g ! k)\<lparr>c_agent := a, c_client := c\<rparr>]\<rparr>)"
    using k by (intro gate_inv_update [OF assms k(1,3), where bs = bs and c = "(g_conn g ! k)\<lparr>c_agent := a, c_client := c\<rparr>"]) simp_all
  then show ?thesis using k lookup_conn(1) [OF assms, of fd] by (simp add: forward_agent_def)
next
  case False
  then show ?thesis using lookup_conn(1) [OF assms, of fd] assms by (simp add: forward_agent_def)
qed

lemma ctrl_keeps [gate_keeps]:
  assumes "gate_inv g" "ctrl queryname g msg = Some g'"
  shows "gate_inv g'"
proof -
  note L = lookup_conn(1) [OF assms(1)]
  have "gate_inv h" if "ctrl_kick g tmp = Some h" for h tmp using that assms(1) L by (auto simp: ctrl_kick_def Let_def split: if_splits)
  moreover have "gate_inv h" if "ctrl_start g tmp = Some h" for h tmp using that assms(1) L by (auto simp: ctrl_start_def Let_def split: if_splits)
  moreover have "gate_inv h" if "ctrl_forward g tmp = Some h" for h tmp
    using that assms(1) forward_agent_total [OF assms(1)]
    by (auto simp: ctrl_forward_def bind_eq_Some_conv split: prod.splits option.splits) (metis option.inject)
  moreover have "gate_inv (ctrl_close g)" using assms(1) by (simp add: ctrl_close_def)
  ultimately show ?thesis using assms by (auto simp: ctrl_def Let_def bind_eq_Some_conv split: if_splits)
qed

lemma gate_client_total:
  assumes "gate_inv g"
  shows "\<exists>r g'. gate_client g source msg = Some (r, g') \<and> gate_inv g'"
  using assms lookup_conn(1) [OF assms] by (auto simp: gate_client_def Let_def)

lemma gate_connect_total:
  assumes "gate_inv g"
  shows "\<exists>g'. gate_connect g m = Some g' \<and> gate_inv g'"
  using assms lookup_conn(1) [OF assms] by (auto simp: gate_connect_def)

lemma databuffer_push_bound:
  "db_wf db \<Longrightarrow> databuffer_push db mp d = Some r \<Longrightarrow> length (db_bytes db) + length d < 2 ^ 31"
  by (auto simp: databuffer_push_def bind_eq_Some_conv cint_Some cint_ok_def db_wf_def)

lemma gate_data_keeps [gate_keeps]:
  assumes "gate_inv g" "gate_data g m = Some g'"
  shows "gate_inv g'"
proof (cases "0 \<le> slot_result (hi_tab (g_hash g)) (m_id m)")
  case True
  then obtain k where k: "k < length (g_conn g)" "slot_result (hi_tab (g_hash g)) (m_id m) = int k" "0 \<le> c_id (g_conn g ! k)"
    using lookup_conn(2) [OF assms(1)] by metis
  obtain bs where bs: "holds (g_header_size g) (buffer_of g k) bs" using gate_invD(7) [OF assms(1), of "g_conn g ! k"] k(1) by auto
  have D: "dispatch_message g k (m_id m) (m_buffer m) = Some g'"
    using assms(2) k lookup_conn(1) [OF assms(1)] by (auto simp: gate_data_def bind_eq_Some_conv)
  then obtain r where "databuffer_push (buffer_of g k) (g_mp g) (m_buffer m) = Some r"
    using k(1) by (auto simp: dispatch_message_def bind_eq_Some_conv)
  then have room: "length (db_bytes (buffer_of g k)) + length (m_buffer m) < 2 ^ 31"
    using databuffer_push_bound holdsD [OF bs] by blast
  obtain fs rest over where S: "split_stream (destined g k) (g_header_size g) (bs @ m_buffer m) = (fs, rest, over)"
    using prod_cases3 by blast
  obtain db mp cs where "g' = upd g k db mp cs" "holds (g_header_size g) db rest"
    using dispatch_message_spec [OF k(1) gate_invD(8) [OF assms(1)] bs room S, of "m_id m"] D by auto
  then show ?thesis
    by (intro gate_inv_update [OF assms(1) k(1,3), where bs = rest and c = "(g_conn g ! k)\<lparr>c_buffer := db\<rparr>"]) (simp_all add: upd_def)
next
  case False
  then show ?thesis using assms lookup_conn(1) [OF assms(1)] by (auto simp: gate_data_def)
qed

lemma report_keeps: "report g t = Some g' \<Longrightarrow> gate_inv g' = gate_inv g"
  by (auto simp: report_def bind_eq_Some_conv split: if_splits)

lemma gate_closed_step:
  assumes "gate_inv g"
  shows "\<exists>hash conn mp. gate_inv (g\<lparr>g_hash := hash, g_conn := conn, g_mp := mp\<rparr>) \<and>
    gate_closed g m = (if hi_tab (g_hash g) (m_id m) = None then Some (g\<lparr>g_hash := hash, g_conn := conn, g_mp := mp\<rparr>)
      else report (g\<lparr>g_hash := hash, g_conn := conn, g_mp := mp\<rparr>) (fmt_d (m_id m) @ bytes '' close'')) \<and>
    hi_tab hash = (hi_tab (g_hash g))(m_id m := None)"
proof -
  note I = gate_invD [OF assms]
  obtain hash where H: "hashid_remove (g_hash g) (m_id m) = Some (slot_result (hi_tab (g_hash g)) (m_id m), hash)" "hi_wf hash"
      "hi_cap hash = hi_cap (g_hash g)" "hi_tab hash = (hi_tab (g_hash g))(m_id m := None)"
    using hashid_remove_spec [OF I(1), of "m_id m"] by (auto simp: slot_result_def)
  show ?thesis
  proof (cases "hi_tab (g_hash g) (m_id m)")
    case None
    then have "(hi_tab (g_hash g))(m_id m := None) = hi_tab (g_hash g)" by auto
    then have "gate_inv (g\<lparr>g_hash := hash\<rparr>)" using assms H by (simp add: gate_inv_def)
    moreover have "g\<lparr>g_hash := hash\<rparr> = g\<lparr>g_hash := hash, g_conn := g_conn g, g_mp := g_mp g\<rparr>" by simp
    moreover have "gate_closed g m = Some (g\<lparr>g_hash := hash\<rparr>)"
      using H(1) None by (simp add: gate_closed_def slot_result_def)
    ultimately show ?thesis using None H(4) by metis
  next
    case (Some k)
    then have k: "k < length (g_conn g)" "c_id (g_conn g ! k) = m_id m" "0 \<le> m_id m" using I(5) by auto
    define conn where "conn = (g_conn g)[k := closed_conn]"
    define mp where "mp = snd (databuffer_clear (buffer_of g k) (g_mp g))"
    define g' where "g' = g\<lparr>g_hash := hash, g_conn := conn, g_mp := mp\<rparr>"
    have "gate_inv g'"
      unfolding gate_inv_def
    proof (intro conjI allI ballI, goal_cases)
      case (5 i j)
      have "c_id closed_conn < 0" by (simp add: closed_conn_def)
      then have "0 \<le> i \<and> j < length conn \<and> c_id (conn ! j) = i \<longleftrightarrow> i \<noteq> m_id m \<and> hi_tab (g_hash g) i = Some j"
        using k I(5) [of i j] I(5) [of "m_id m" j] Some by (cases "j = k") (auto simp: conn_def)
      then show ?case by (simp add: g'_def H(4))
    next
      case (6 c)
      then have "c \<in> set conn" by (simp add: g'_def)
      then have "c = closed_conn \<or> c \<in> set (g_conn g)" using set_update_subset_insert [of "g_conn g" k closed_conn] by (auto simp: conn_def)
      then show ?case using I(6) by blast
    next
      case (7 c)
      then have "c \<in> set conn" by (simp add: g'_def)
      then have "c = closed_conn \<or> c \<in> set (g_conn g)" using set_update_subset_insert [of "g_conn g" k closed_conn] by (auto simp: conn_def)
      moreover have "g_header_size g' = g_header_size g" by (simp add: g'_def)
      ultimately show ?case using I(7) closed_holds by metis
    qed (use H I in \<open>simp_all add: g'_def conn_def\<close>)
    moreover have "gate_closed g m = report g' (fmt_d (m_id m) @ bytes '' close'')"
      using H(1) Some k(1) by (simp add: gate_closed_def slot_result_def g'_def conn_def mp_def databuffer_clear_def closed_conn_def Let_def)
    ultimately show ?thesis using Some H(4) unfolding g'_def by auto
  qed
qed

text \<open>What the socket layer promises of an accept: the id is new, and small enough for the arithmetic of the table.\<close>

definition fresh_id :: "gate \<Rightarrow> int \<Rightarrow> bool" where
  "fresh_id g i \<longleftrightarrow> 0 \<le> i \<and> hi_room (g_hash g) i \<and> hi_tab (g_hash g) i = None"

definition conn_text :: "int \<Rightarrow> cstring \<Rightarrow> cstring" where
  "conn_text i name = fmt_d i @ bytes '' open '' @ fmt_d i @ bytes '' '' @ name @ bytes '':0''"

lemma gate_accept_step:
  assumes "gate_inv g" "\<not> hashid_full (g_hash g)" "fresh_id g (m_ud m)" "g_listen_id g = m_id m"
  defines "name \<equiv> cstr (take (min 31 (length (m_tail m))) (m_tail m))"
  shows "\<exists>k hash conn. gate_inv (g\<lparr>g_hash := hash, g_conn := conn\<rparr>) \<and>
    gate_accept g m = map_option (gcall (Error (bytes ''socket open: '' @ fmt_x (of_int (m_ud m)))))
      (report (g\<lparr>g_hash := hash, g_conn := conn\<rparr>) (conn_text (m_ud m) name)) \<and>
    hi_tab hash = (hi_tab (g_hash g))(m_ud m \<mapsto> k) \<and>
    conn = (g_conn g)[k := closed_conn\<lparr>c_id := m_ud m, c_remote_name := name\<rparr>] \<and> g_conn g ! k = closed_conn"
proof -
  note I = gate_invD [OF assms(1)]
  let ?i = "m_ud m"
  obtain k hash where H: "hashid_insert (g_hash g) ?i = Some (int k, hash)" "hi_wf hash" "hi_cap hash = hi_cap (g_hash g)"
      "hi_tab hash = (hi_tab (g_hash g))(?i \<mapsto> k)" "k \<notin> ran (hi_tab (g_hash g))"
    using hashid_insert_spec [OF I(1), of ?i] assms(2,3) by (auto simp: fresh_id_def)
  have k: "k < length (g_conn g)" using slots.bound [OF H(2), of ?i k] H(3,4) I(2) by simp
  have "\<not> 0 \<le> c_id (g_conn g ! k)" using I(5) [of "c_id (g_conn g ! k)" k] k H(5) by (auto simp: ran_def)
  then have ck: "g_conn g ! k = closed_conn" using I(6) [of "g_conn g ! k"] k by auto
  define c where "c = closed_conn\<lparr>c_id := ?i, c_remote_name := name\<rparr>"
  define conn where "conn = (g_conn g)[k := c]"
  define g' where "g' = g\<lparr>g_hash := hash, g_conn := conn\<rparr>"
  have ch: "holds (g_header_size g) (c_buffer c) []" "0 \<le> c_id c"
    using assms(3) by (simp_all add: c_def fresh_id_def)
  have "gate_inv g'"
    unfolding gate_inv_def
  proof (intro conjI allI ballI, goal_cases)
    case (5 i j)
    have "0 \<le> i \<and> j < length conn \<and> c_id (conn ! j) = i \<longleftrightarrow> ((hi_tab (g_hash g))(?i \<mapsto> k)) i = Some j"
      using k I(5) [of i j] H(5) assms(3) by (cases "j = k") (auto simp: conn_def c_def fresh_id_def ran_def)
    then show ?case by (simp add: g'_def H(4))
  next
    case (6 d)
    then have "d = c \<or> d \<in> set (g_conn g)" using set_update_subset_insert [of "g_conn g" k c] by (auto simp: conn_def g'_def)
    then show ?case using I(6) ch by blast
  next
    case (7 d)
    then have "d = c \<or> d \<in> set (g_conn g)" using set_update_subset_insert [of "g_conn g" k c] by (auto simp: conn_def g'_def)
    moreover have "g_header_size g' = g_header_size g" by (simp add: g'_def)
    ultimately show ?case using I(7) ch by metis
  qed (use H I in \<open>simp_all add: g'_def conn_def\<close>)
  moreover have "gate_accept g m = map_option (gcall (Error (bytes ''socket open: '' @ fmt_x (of_int ?i)))) (report g' (conn_text ?i name))"
    using H(1) k assms(2,4) ck
    by (cases "report g' (conn_text ?i name)") (simp_all add: gate_accept_def name_def [symmetric] g'_def conn_def c_def conn_text_def Let_def)
  ultimately show ?thesis using H(4) ck unfolding g'_def conn_def c_def by blast
qed


lemma gate_accept_keeps [gate_keeps]:
  assumes "gate_inv g" "fresh_id g (m_ud m)" "gate_accept g m = Some g'"
  shows "gate_inv g'"
proof (cases "hashid_full (g_hash g)")
  case True
  then show ?thesis using assms by (auto simp: gate_accept_def bind_eq_Some_conv)
next
  case False
  moreover have "g_listen_id g = m_id m" using assms(3) by (auto simp: gate_accept_def bind_eq_Some_conv)
  ultimately obtain h e t where "gate_inv h" "gate_accept g m = map_option (gcall e) (report h t)"
    using gate_accept_step [OF assms(1) _ assms(2)] by blast
  then show ?thesis using assms(3) report_keeps [of h t] by (cases "report h t") auto
qed

lemma gate_closed_keeps [gate_keeps]:
  assumes "gate_inv g" "gate_closed g m = Some g'"
  shows "gate_inv g'"
proof -
  obtain h t where "gate_inv h" "gate_closed g m = Some h \<or> gate_closed g m = report h t"
    using gate_closed_step [OF assms(1), of m] by metis
  then show ?thesis using assms(2) report_keeps [of h t] by auto
qed

definition accept_ok :: "gate \<Rightarrow> gate_msg \<Rightarrow> bool" where
  "accept_ok g msg = (case msg of Socket m \<Rightarrow> m_type m = SKYNET_SOCKET_TYPE_ACCEPT \<longrightarrow> fresh_id g (m_ud m) | Bytes _ \<Rightarrow> True)"

lemma gate_cb_keeps:
  assumes "gate_inv g" "accept_ok g msg" "gate_cb queryname g ty source msg = Some (r, g')"
  shows "gate_inv g'"
proof (cases msg)
  case (Bytes b)
  then show ?thesis
    using assms gate_client_total [OF assms(1), of source b] by (auto simp: gate_cb_def split: if_splits intro: gate_keeps)
next
  case (Socket m)
  have "gate_inv h" if "dispatch_socket_message g m = Some h" for h
    using that assms(1,2) gate_connect_total [OF assms(1), of m] Socket
    by (auto simp: dispatch_socket_message_def accept_ok_def gate_warning_def split: if_splits intro: gate_keeps)
  then show ?thesis using assms Socket by (auto simp: gate_cb_def split: if_splits)
qed

section \<open>Starting and running\<close>

lemma hashcap_large: "c = 2 ^ j \<Longrightarrow> c \<le> 2 ^ 30 \<Longrightarrow> 2 ^ 30 < m \<Longrightarrow> hashcap c m = None"
proof (induction c m arbitrary: j rule: hashcap.induct)
  case (1 c m)
  show ?case
  proof (cases "cint (c * 2)")
    case None
    then show ?thesis using "1.prems" by (subst hashcap.simps) simp
  next
    case (Some d)
    then have d: "d = 2 ^ Suc j" "d < 2 ^ 31" using "1.prems"(1) by (auto simp: cint_Some cint_ok_def)
    then have "Suc j < 31" using power_less_imp_less_exp [of "2 :: int" "Suc j" 31] by simp
    then have "d \<le> 2 ^ 30" unfolding d(1) by (intro power_increasing) simp_all
    then show ?thesis using "1.IH" [OF _ _ Some d(1)] "1.prems" Some by (subst hashcap.simps) simp
  qed
qed

lemma hashid_init_Some: "hashid_init mx = Some hi \<Longrightarrow> mx \<le> 2 ^ 30"
  using hashcap_large [of 16 4 mx] by (cases "mx \<le> 2 ^ 30") (auto simp: hashid_init_def)

lemma start_listen_keeps: "start_listen listen g a = (r, g') \<Longrightarrow> gate_inv g' = gate_inv g"
  by (auto simp: start_listen_def Let_def split: if_splits option.splits prod.splits)

lemma gate_init_inv:
  assumes "gate_init queryname listen g p = Some (0, g')"
  shows "gate_inv g'"
proof -
  obtain s where s: "p = Some s" using assms by (cases p) (auto simp: gate_init_def)
  define prm where "prm = scan_parm s"
  define wd where "wd = (if hd (p_watchdog prm) = of_char CHR ''!'' then 0 else queryname (p_watchdog prm))"
  define tag where "tag = (if p_client_tag prm = 0 then PTYPE_CLIENT else p_client_tag prm)"
  define hs :: nat where "hs = (if p_header prm = of_char CHR ''S'' then 2 else 4)"
  have "0 < p_max prm" using assms by (auto simp: gate_init_def s prm_def [symmetric] Let_def gcall_def split: if_splits)
  have "hashid_init (p_max prm) \<noteq> None"
    using assms by (cases "hashid_init (p_max prm)") (simp_all add: gate_init_def s prm_def [symmetric] Let_def split: if_splits)
  then obtain hash where hash: "hashid_init (p_max prm) = Some hash" by blast
  define g1 where "g1 = gcall Callback (g\<lparr>g_watchdog := wd, g_hash := hash, g_conn := replicate (nat (p_max prm)) closed_conn,
    g_max_connection := p_max prm, g_client_tag := tag, g_header_size := hs\<rparr>)"
  have sl: "start_listen listen g1 (p_binding prm) = (0, g')"
    using assms hash unfolding g1_def closed_conn_def
    by (simp add: gate_init_def s Let_def wd_def tag_def hs_def prm_def [symmetric] split: if_splits)
  note H = hash \<open>0 < p_max prm\<close>
  obtain hi where hi: "hashid_init (p_max prm) = Some hi" "hi_wf hi" "hi_cap hi = p_max prm" "hi_tab hi = Map.empty"
    using hashid_init_spec [OF H(2) hashid_init_Some [OF H(1)]] by blast
  have "hash = hi" using hi(1) H(1) by simp
  moreover have "c_id closed_conn < 0" by (simp add: closed_conn_def)
  ultimately have "gate_inv g1"
    unfolding gate_inv_def using hi by (auto simp: g1_def gcall_def hs_def intro: closed_holds)
  then show ?thesis using start_listen_keeps [OF sl] by simp
qed

text \<open>The states of a gate: the service is started, and handles messages one at a time.\<close>

inductive gate_reach :: "(cstring \<Rightarrow> u32) \<Rightarrow> (cstring \<Rightarrow> int \<Rightarrow> int \<Rightarrow> int) \<Rightarrow> gate \<Rightarrow> bool" for queryname listen where
  gate_started: "gate_init queryname listen gate_create p = Some (0, g) \<Longrightarrow> gate_reach queryname listen g"
| gate_message: "gate_reach queryname listen g \<Longrightarrow> accept_ok g msg \<Longrightarrow> gate_cb queryname g ty source msg = Some (r, g') \<Longrightarrow>
    gate_reach queryname listen g'"

inductive_cases gate_reachE: "gate_reach queryname listen g"

lemma gate_reach_inv: "gate_reach queryname listen g \<Longrightarrow> gate_inv g"
  by (induction rule: gate_reach.induct) (auto intro: gate_init_inv gate_cb_keeps)

text \<open>Decimal numbers are short.\<close>

lemma length_show_radix: "n < 10 ^ d \<Longrightarrow> 0 < d \<Longrightarrow> length (show_radix 10 n) \<le> d"
proof (induction d arbitrary: n)
  case (Suc d)
  show ?case
  proof (cases "n < 10")
    case True
    then show ?thesis by (subst show_radix.simps) simp
  next
    case False
    then have "n div 10 < 10 ^ d" "0 < d" using Suc.prems by (auto intro!: gr0I)
    then show ?thesis using Suc.IH [of "n div 10"] False by (subst show_radix.simps) simp
  qed
qed simp

lemma length_fmt_d: "cint_ok i \<Longrightarrow> length (fmt_d i) \<le> 11"
  using length_show_radix [of "nat i" 10] length_show_radix [of "nat (- i)" 10] by (auto simp: fmt_d_def cint_ok_def nat_less_iff)


section \<open>Streams over many messages\<close>

lemma split_stream_append:
  "split_stream d hs bs = (fs, rest, False) \<Longrightarrow> split_stream d hs (rest @ e) = (fs', r, over) \<Longrightarrow> split_stream d hs (bs @ e) = (fs @ fs', r, over)"
proof (induction d hs bs arbitrary: fs rule: split_stream.induct)
  case (1 d hs bs)
  define n where "n = header_value hs (take hs bs)"
  define t where "t = drop hs bs"
  note S = split_stream.simps [of d hs bs, folded n_def t_def]
  show ?case
  proof (cases "hs = 0 \<or> length bs < hs \<or> n < 0 \<or> int (length t) < n")
    case True
    then have "fs = [] \<and> rest = bs" using "1.prems"(1) S by (auto simp: Let_def split: if_splits)
    then show ?thesis using "1.prems"(2) by simp
  next
    case False
    then have e: "take hs (bs @ e) = take hs bs" "drop hs (bs @ e) = t @ e" by (simp_all add: t_def)
    note S' = split_stream.simps [of d hs "bs @ e", unfolded e, folded n_def]
    have small: "n < 0x1000000" using "1.prems"(1) S False by (cases "n < 0x1000000") (simp_all add: Let_def)
    then obtain fs1 where f1: "split_stream d hs (if d then drop (nat n) t else t) = (fs1, rest, False)"
        "fs = (if n = 0 \<or> \<not> d then fs1 else take (nat n) t # fs1)"
      using "1.prems"(1) S False by (auto simp: Let_def split: prod.splits)
    moreover have "split_stream d hs ((if d then drop (nat n) t else t) @ e) = (fs1 @ fs', r, over)"
      using "1.IH" [OF _ n_def t_def _ _ f1(1) "1.prems"(2)] small False by simp
    moreover have "(if d then drop (nat n) (t @ e) else t @ e) = (if d then drop (nat n) t else t) @ e" "take (nat n) (t @ e) = take (nat n) t"
      using False by (simp_all add: nat_le_iff)
    ultimately show ?thesis using S' False small by (simp add: Let_def)
  qed
qed

lemma split_stream_over:
  "split_stream d hs bs = (fs, rest, True) \<Longrightarrow> snd (snd (split_stream d hs (bs @ e)))"
proof (induction d hs bs arbitrary: fs rule: split_stream.induct)
  case (1 d hs bs)
  define n where "n = header_value hs (take hs bs)"
  define t where "t = drop hs bs"
  note S = split_stream.simps [of d hs bs, folded n_def t_def]
  have ok: "\<not> (hs = 0 \<or> length bs < hs)" "\<not> (n < 0 \<or> int (length t) < n)" using "1.prems" S by (auto simp: Let_def split: if_splits)
  then have e: "take hs (bs @ e) = take hs bs" "drop hs (bs @ e) = t @ e" by (simp_all add: t_def)
  note S' = split_stream.simps [of d hs "bs @ e", unfolded e, folded n_def]
  show ?case
  proof (cases "0x1000000 \<le> n")
    case True
    then show ?thesis using S' ok by simp
  next
    case False
    then obtain fs1 where f1: "split_stream d hs (if d then drop (nat n) t else t) = (fs1, rest, True)"
      using "1.prems" S ok by (auto simp: Let_def split: prod.splits)
    have "(if d then drop (nat n) (t @ e) else t @ e) = (if d then drop (nat n) t else t) @ e" using ok by (simp add: nat_le_iff)
    then show ?thesis using "1.IH" [OF ok(1) n_def t_def ok(2) False f1] S' ok False by (simp add: Let_def split_beta)
  qed
qed

lemma split_stream_rest: "length (fst (snd (split_stream d hs bs))) \<le> length bs"
proof (induction d hs bs rule: split_stream.induct)
  case (1 d hs bs)
  define n where "n = header_value hs (take hs bs)"
  define t where "t = drop hs bs"
  note S = split_stream.simps [of d hs bs, folded n_def t_def]
  show ?case
  proof (cases "hs = 0 \<or> length bs < hs \<or> n < 0 \<or> int (length t) < n \<or> 0x1000000 \<le> n")
    case True
    then show ?thesis using S by (auto simp: Let_def)
  next
    case False
    then have "length (fst (snd (split_stream d hs (if d then drop (nat n) t else t)))) \<le> length (if d then drop (nat n) t else t)"
      using 1 [OF _ n_def t_def] by simp
    also have "\<dots> \<le> length bs" by (simp add: t_def)
    finally show ?thesis using False S by (simp add: Let_def split_beta)
  qed
qed

text \<open>Data messages of one connection.\<close>

definition data_msg :: "int \<Rightarrow> byte list \<Rightarrow> gate_msg" where
  "data_msg fd d = Socket \<lparr>m_type = SKYNET_SOCKET_TYPE_DATA, m_id = fd, m_ud = int (length d), m_buffer = d, m_tail = []\<rparr>"

fun gate_feed :: "(cstring \<Rightarrow> u32) \<Rightarrow> int \<Rightarrow> byte list list \<Rightarrow> gate \<Rightarrow> gate option" where
  "gate_feed queryname fd [] g = Some g"
| "gate_feed queryname fd (d # ds) g = do {
     (r, g') \<leftarrow> gate_cb queryname g PTYPE_SOCKET 0 (data_msg fd d);
     gate_feed queryname fd ds g' }"

lemma gate_cb_data:
  assumes "gate_inv g" "hi_tab (g_hash g) fd = Some k"
  shows "gate_cb queryname g PTYPE_SOCKET src (data_msg fd d) = map_option (\<lambda>g'. (0, g')) (dispatch_message g k fd d)"
  using lookup_conn(1) [OF assms(1), of fd] assms(2)
  by (simp add: gate_cb_def data_msg_def dispatch_socket_message_def gate_data_def slot_result_def PTYPE_SOCKET_def PTYPE_TEXT_def PTYPE_CLIENT_def)

lemma gate_feed_spec:
  assumes "gate_inv g" "hi_tab (g_hash g) fd = Some k" "holds (g_header_size g) (buffer_of g k) bs" "split_stream (destined g k) (g_header_size g) bs = ([], bs, False)"
    and "split_stream (destined g k) (g_header_size g) (bs @ concat ds) = (fs, rest, False)" "length bs + length (concat ds) < 2 ^ 31"
  shows "\<exists>db mp. gate_feed queryname fd ds g = Some (upd g k db mp (map (deliver g k) fs)) \<and> holds (g_header_size g) db rest"
  using assms
proof (induction ds arbitrary: g bs fs)
  case Nil
  have "g = upd g k (buffer_of g k) (g_mp g) []" by (simp add: upd_def)
  moreover have "fs = []" "rest = bs" using Nil.prems(4,5) by simp_all
  ultimately show ?case using Nil.prems(3) by (metis gate_feed.simps(1) list.simps(8))
next
  case (Cons d ds)
  note inv = gate_invD [OF Cons.prems(1)]
  have k: "k < length (g_conn g)" "0 \<le> c_id (g_conn g ! k)" using inv(5) [of fd k] Cons.prems(2) by simp_all
  obtain fs1 r1 o1 where S1: "split_stream (destined g k) (g_header_size g) (bs @ d) = (fs1, r1, o1)" using prod_cases3 by blast
  have "\<not> o1" using split_stream_over [of "destined g k" "g_header_size g" "bs @ d" fs1 r1 "concat ds"] S1 Cons.prems(5) by (cases o1) auto
  have b: "length (db_bytes (buffer_of g k)) \<le> length bs"
    using Cons.prems(3) unfolding holds_def by (metis diff_le_self length_drop order_refl)
  obtain db mp where D: "dispatch_message g k fd d = Some (upd g k db mp (map (deliver g k) fs1))" "holds (g_header_size g) db r1"
    using dispatch_message_spec [OF k(1) inv(8) Cons.prems(3) _ S1, of fd] \<open>\<not> o1\<close> b Cons.prems(6) by auto
  define g1 where "g1 = upd g k db mp (map (deliver g k) fs1)"
  obtain fs2 r2 o2 where S2: "split_stream (destined g k) (g_header_size g) (r1 @ concat ds) = (fs2, r2, o2)" using prod_cases3 by blast
  have fs: "fs = fs1 @ fs2" "r2 = rest" "\<not> o2" using split_stream_append [OF _ S2, of "bs @ d" fs1] S1 \<open>\<not> o1\<close> Cons.prems(5) by auto
  have done1: "split_stream (destined g k) (g_header_size g) r1 = ([], r1, False)"
  proof -
    obtain f r ov where R: "split_stream (destined g k) (g_header_size g) r1 = (f, r, ov)" using prod_cases3 by blast
    then have "split_stream (destined g k) (g_header_size g) (bs @ d) = (fs1 @ f, r, ov)"
      using split_stream_append [of "destined g k" "g_header_size g" "bs @ d" fs1 r1 "[]" f r ov] S1 \<open>\<not> o1\<close> by simp
    then show ?thesis using R S1 \<open>\<not> o1\<close> by simp
  qed
  have "gate_inv g1"
    by (rule gate_inv_update [OF Cons.prems(1) k, where bs = r1 and c = "(g_conn g ! k)\<lparr>c_buffer := db\<rparr>"]) (use D in \<open>simp_all add: g1_def upd_def\<close>)
  moreover have "length r1 \<le> length (bs @ d)" using split_stream_rest [of "destined g k" "g_header_size g" "bs @ d"] S1 by simp
  ultimately obtain db' mp' where "gate_feed queryname fd ds g1 = Some (upd g1 k db' mp' (map (deliver g k) fs2))" "holds (g_header_size g) db' rest"
    using Cons.IH [of g1 r1 fs2] Cons.prems(2,6) S2 D k fs done1 by (auto simp: g1_def)
  then show ?case
    using gate_cb_data [OF Cons.prems(1,2), of queryname 0 d] D(1) k fs by (auto simp: g1_def)
qed

text \<open>A stream that \<open>lpack\<close> of \<open>lua-netpack.c\<close> writes.\<close>

lemma header_value_2: "header_value 2 [b0, b1] = read_size b0 b1"
  by (simp add: header_value_def read_size_def)

lemma split_packed:
  assumes "\<forall>p \<in> set ps. length p < 0x10000"
  shows "split_stream True 2 (concat (map (\<lambda>p. write_size (int (length p)) @ p) ps)) = (filter (\<lambda>p. p \<noteq> []) ps, [], False)"
  using assms
proof (induction ps)
  case Nil
  show ?case by (subst split_stream.simps) simp
next
  case (Cons p ps)
  obtain b0 b1 where b: "write_size (int (length p)) = [b0, b1]" "read_size b0 b1 = int (length p)"
    using read_write_size [of "int (length p)"] Cons.prems by auto
  have "int (length p) < 0x1000000" using Cons.prems by simp
  then show ?case using Cons b by (subst split_stream.simps) (simp add: header_value_2 Let_def)
qed

lemma waiting_empty [simp]: "0 < hs \<Longrightarrow> split_stream d hs [] = ([], [], False)"
  by (subst split_stream.simps) simp

section \<open>Properties\<close>

text \<open>C24: In every state of a running gate the table of ids and the array of connections agree: an id
  is in the table exactly if the slot it is mapped to holds that id, a free slot has no agent, no client and no
  bytes (nothing of a closed connection reaches the next one), and every buffer holds part of a stream.\<close>

theorem gate_connections:
  assumes "gate_reach queryname listen g"
  shows "gate_inv g"
  using assms by (rule gate_reach_inv)

text \<open>C23: The gate cuts what a connection sends into the packages that the headers announce, however
  the bytes are spread over messages, and hands each package, once and in order, to the broker, to the agent
  of the connection or to the watchdog; the rest stays in the buffer of that connection, and nothing else changes.\<close>

theorem gate_forwards_packages:
  assumes "gate_reach queryname listen g" "hi_tab (g_hash g) fd = Some k" "destined g k"
    and "holds (g_header_size g) (buffer_of g k) []"
    and "split_stream True (g_header_size g) (concat ds) = (fs, rest, False)" "length (concat ds) < 2 ^ 31"
  shows "\<exists>db mp. gate_feed queryname fd ds g =
      Some (g\<lparr>g_conn := (g_conn g)[k := (g_conn g ! k)\<lparr>c_buffer := db\<rparr>], g_mp := mp, g_calls := g_calls g @ map (deliver g k) fs\<rparr>) \<and>
    holds (g_header_size g) db rest"
proof -
  have inv: "gate_inv g" using assms(1) by (rule gate_reach_inv)
  then show ?thesis
    using gate_feed_spec [OF inv assms(2,4), of ds fs rest queryname] assms(3,5,6) gate_invD(8) [OF inv] by (simp add: upd_def)
qed


text \<open>C26: Messages that \<open>lpack\<close> of the package library has packed are sent over a connection of a gate
  with the two byte header, cut into blocks in any way.  The gate then sends on, in their order, exactly the
  messages that are not empty (an empty package is dropped), one \<open>skynet_send\<close> each: to the broker if there is
  one, else to the agent of the connection on behalf of its client, in both cases with the bytes of the message
  and nothing else; and if there is neither, to the watchdog, with the text \<open>"<id> data "\<close> put before them.  No
  byte is left in the buffer of the connection.\<close>

theorem gate_delivers_packed:
  assumes "gate_reach queryname listen g" "g_header_size g = 2" "hi_tab (g_hash g) fd = Some k" "destined g k"
    and "holds 2 (buffer_of g k) []" "list_all2 (\<lambda>p s. lpack p = Inr s) ps ss" "concat ds = concat ss" "length (concat ds) < 2 ^ 31"
  shows "\<exists>g'. gate_feed queryname fd ds g = Some g' \<and> holds 2 (buffer_of g' k) [] \<and>
    g_calls g' = g_calls g @ map (\<lambda>p.
      if g_broker g \<noteq> 0 then Send 0 (g_broker g) (dontcopy (g_client_tag g)) 1 p
      else if c_agent (g_conn g ! k) \<noteq> 0 then
        Send (c_client (g_conn g ! k)) (c_agent (g_conn g ! k)) (dontcopy (g_client_tag g)) 1 p
      else Send 0 (g_watchdog g) (dontcopy PTYPE_TEXT) 1 (fmt_d (c_id (g_conn g ! k)) @ bytes '' data '' @ p))
     (filter (\<lambda>p. p \<noteq> []) ps)"
proof -
  have inv: "gate_inv g" using assms(1) by (rule gate_reach_inv)
  have k: "k < length (g_conn g)" using gate_invD(5) [OF inv, of fd k] assms(3) by simp
  have "ss = map (\<lambda>p. write_size (int (length p)) @ p) ps \<and> (\<forall>p \<in> set ps. length p < 0x10000)"
    using assms(6) by (induction ps ss rule: list_all2_induct) (auto simp: lpack_def split: if_splits)
  then have "split_stream True 2 ([] @ concat ds) = (filter (\<lambda>p. p \<noteq> []) ps, [], False)"
    using split_packed [of ps] assms(7) by simp
  then show ?thesis
    using gate_feed_spec [OF inv assms(3), of "[]" ds "filter (\<lambda>p. p \<noteq> []) ps" "[]" queryname] assms(2,4,5,8) k
    by (auto simp: deliver_def Let_def)
qed

text \<open>The states that the witnesses use: a gate that has accepted connection 5 for the watchdog 7.\<close>

definition sample_parm :: cstring where "sample_parm = bytes ''S wd 8888 0 4''"

definition sample_start :: gate where
  "sample_start = snd (the (gate_init (\<lambda>_. 7) (\<lambda>_ _ _. 3) gate_create (Some sample_parm)))"

definition sample_accept :: gate_msg where
  "sample_accept = Socket \<lparr>m_type = SKYNET_SOCKET_TYPE_ACCEPT, m_id = 3, m_ud = 5, m_buffer = [], m_tail = bytes ''10.0.0.1:99''\<rparr>"

definition sample_gate :: gate where
  "sample_gate = snd (the (gate_cb (\<lambda>_. 7) sample_start PTYPE_SOCKET 0 sample_accept))"

lemma sample_reach: "gate_reach (\<lambda>_. 7) (\<lambda>_ _ _. 3) sample_gate"
proof -
  have "gate_init (\<lambda>_. 7) (\<lambda>_ _ _. 3) gate_create (Some sample_parm) \<noteq> None" "fst (the (gate_init (\<lambda>_. 7) (\<lambda>_ _ _. 3) gate_create (Some sample_parm))) = 0"
    by code_simp+
  then have "gate_init (\<lambda>_. 7) (\<lambda>_ _ _. 3) gate_create (Some sample_parm) = Some (0, sample_start)"
    by (auto simp: sample_start_def)
  then have start: "gate_reach (\<lambda>_. 7) (\<lambda>_ _ _. 3) sample_start" by (rule gate_started)
  have "accept_ok sample_start sample_accept" by code_simp
  moreover have "gate_cb (\<lambda>_. 7) sample_start PTYPE_SOCKET 0 sample_accept \<noteq> None" by code_simp
  then have "gate_cb (\<lambda>_. 7) sample_start PTYPE_SOCKET 0 sample_accept = Some (fst (the (gate_cb (\<lambda>_. 7) sample_start PTYPE_SOCKET 0 sample_accept)), sample_gate)"
    by (auto simp: sample_gate_def)
  ultimately show ?thesis by (rule gate_message [OF start])
qed

lemma sample_facts:
  "hi_tab (g_hash sample_gate) 5 = Some 1" "destined sample_gate 1" "g_header_size sample_gate = 2" "holds 2 (buffer_of sample_gate 1) []"
  by code_simp+

theorem gate_forwards_packages_witness:
  "\<exists>db mp. gate_feed (\<lambda>_. 7) 5 [[0, 2, 65], [66, 0], [1, 67, 0, 9]] sample_gate =
      Some (sample_gate\<lparr>g_conn := (g_conn sample_gate)[1 := (g_conn sample_gate ! 1)\<lparr>c_buffer := db\<rparr>], g_mp := mp,
        g_calls := g_calls sample_gate @ map (deliver sample_gate 1) [[65, 66], [67]]\<rparr>) \<and>
    holds (g_header_size sample_gate) db [0, 9]"
proof (rule gate_forwards_packages [OF sample_reach sample_facts(1,2)])
  show "split_stream True (g_header_size sample_gate) (concat [[0, 2, 65], [66, 0], [1, 67, 0, 9]]) = ([[65, 66], [67]], [0, 9], False)"
    unfolding sample_facts by code_simp
qed (use sample_facts in simp_all)

theorem gate_connections_witness: "gate_inv sample_gate \<and> hi_tab (g_hash sample_gate) 5 = Some 1"
  using gate_connections [OF sample_reach] sample_facts(1) by simp

text \<open>The same gate after the command \<open>forward 5 :10 :20\<close>: connection 5 has an agent and a client.\<close>

lemma strtoul_code [code]:
  "strtoul s b = (let (neg, n, _) = read_number b s in
     if int n \<ge> 2 ^ 64 then - 1 else if neg then - of_nat n else of_nat n)"
  by (simp add: strtoul_def)

definition sample_agent :: gate where
  "sample_agent = snd (the (gate_cb (\<lambda>_. 7) sample_gate PTYPE_TEXT 0 (Bytes (bytes ''forward 5 :10 :20''))))"

lemma sample_agent_reach: "gate_reach (\<lambda>_. 7) (\<lambda>_ _ _. 3) sample_agent"
proof (rule gate_message [OF sample_reach])
  have "gate_cb (\<lambda>_. 7) sample_gate PTYPE_TEXT 0 (Bytes (bytes ''forward 5 :10 :20'')) \<noteq> None"
    "map_option fst (gate_cb (\<lambda>_. 7) sample_gate PTYPE_TEXT 0 (Bytes (bytes ''forward 5 :10 :20''))) = Some 0" by code_simp+
  then show "gate_cb (\<lambda>_. 7) sample_gate PTYPE_TEXT 0 (Bytes (bytes ''forward 5 :10 :20'')) = Some (0, sample_agent)"
    by (auto simp: sample_agent_def)
qed (simp add: accept_ok_def)

lemma sample_agent_facts:
  "hi_tab (g_hash sample_agent) 5 = Some 1" "destined sample_agent 1" "g_header_size sample_agent = 2" "holds 2 (buffer_of sample_agent 1) []"
  "g_broker sample_agent = 0" "c_agent (g_conn sample_agent ! 1) = 0x10" "c_client (g_conn sample_agent ! 1) = 0x20"
  "g_client_tag sample_agent = PTYPE_CLIENT"
  by code_simp+

theorem gate_delivers_packed_witness:
  "\<exists>g'. gate_feed (\<lambda>_. 7) 5 [[0, 2, 65], [66, 0, 0, 0, 1, 67]] sample_agent = Some g' \<and> holds 2 (buffer_of g' 1) [] \<and>
    g_calls g' = g_calls sample_agent @
      [Send 0x20 0x10 (dontcopy PTYPE_CLIENT) 1 [65, 66], Send 0x20 0x10 (dontcopy PTYPE_CLIENT) 1 [67]]"
proof -
  have "list_all2 (\<lambda>p s. lpack p = Inr s) [[65, 66], [], [67]] [[0, 2, 65, 66], [0, 0], [0, 1, 67]]"
    by (simp add: lpack_def write_size_eq)
  from gate_delivers_packed [OF sample_agent_reach sample_agent_facts(3,1,2,4) this, of "[[0, 2, 65], [66, 0, 0, 0, 1, 67]]"]
  show ?thesis by (simp only: sample_agent_facts) simp
qed

text \<open>What the socket layer promises of its messages: an accepted socket has an id that is not in use, a block of
  data comes with its length, and less than 2 GB of one connection are waiting.\<close>

definition socket_promise :: "gate \<Rightarrow> socket_message \<Rightarrow> bool" where
  "socket_promise g m \<longleftrightarrow> cint_ok (m_id m) \<and> cint_ok (m_ud m) \<and>
     (m_type m = SKYNET_SOCKET_TYPE_ACCEPT \<longrightarrow> fresh_id g (m_ud m)) \<and>
     (m_type m = SKYNET_SOCKET_TYPE_DATA \<longrightarrow> m_ud m = int (length (m_buffer m)) \<and>
        (\<forall>k < length (g_conn g). length (db_bytes (buffer_of g k)) + length (m_buffer m) < 2 ^ 31))"

lemma report_total: "length t < 1024 \<Longrightarrow> \<exists>g'. report g t = Some g'"
  by (simp add: report_def)

lemma length_cstr: "length (cstr b) \<le> length b"
  by (simp add: cstr_def length_takeWhile_le)

lemma gate_data_total:
  assumes "gate_inv g" "socket_promise g m" "m_type m = SKYNET_SOCKET_TYPE_DATA"
  shows "\<exists>g'. gate_data g m = Some g'"
proof (cases "hi_tab (g_hash g) (m_id m)")
  case None
  then show ?thesis using lookup_conn(1) [OF assms(1)] by (simp add: gate_data_def slot_result_def)
next
  case (Some k)
  then have k: "k < length (g_conn g)" using gate_invD(5) [OF assms(1)] by blast
  obtain bs where bs: "holds (g_header_size g) (buffer_of g k) bs" using gate_invD(7) [OF assms(1), of "g_conn g ! k"] k by auto
  obtain fs rest over where S: "split_stream (destined g k) (g_header_size g) (bs @ m_buffer m) = (fs, rest, over)"
    using prod_cases3 by blast
  show ?thesis
    using dispatch_message_spec [OF k gate_invD(8) [OF assms(1)] bs _ S, of "m_id m"] assms(2,3) Some k lookup_conn(1) [OF assms(1)]
    by (auto simp: gate_data_def slot_result_def socket_promise_def)
qed

lemma gate_accept_total:
  assumes "gate_inv g" "g_listen_id g = m_id m" "fresh_id g (m_ud m)" "cint_ok (m_ud m)"
  shows "\<exists>g'. gate_accept g m = Some g'"
proof (cases "hashid_full (g_hash g)")
  case True
  then show ?thesis using assms(2) by (simp add: gate_accept_def)
next
  case False
  define name where "name = cstr (take (min 31 (length (m_tail m))) (m_tail m))"
  have "length name \<le> 31" using length_cstr [of "take (min 31 (length (m_tail m))) (m_tail m)"] by (simp add: name_def)
  then have "length (conn_text (m_ud m) name) < 1024"
    using length_fmt_d [OF assms(4)] by (simp add: conn_text_def bytes_def)
  then have "\<exists>h. report h' (conn_text (m_ud m) name) = Some h" for h' by (rule report_total)
  then show ?thesis using gate_accept_step [OF assms(1) False assms(3,2)] unfolding name_def by (metis option.simps(9))
qed

lemma gate_closed_total:
  assumes "gate_inv g" "cint_ok (m_id m)"
  shows "\<exists>g'. gate_closed g m = Some g'"
proof -
  have "length (fmt_d (m_id m) @ bytes '' close'') < 1024" using length_fmt_d [OF assms(2)] by (simp add: bytes_def)
  then have "\<exists>h. report h' (fmt_d (m_id m) @ bytes '' close'') = Some h" for h' by (rule report_total)
  then show ?thesis using gate_closed_step [OF assms(1), of m] by metis
qed


text \<open>After the command \<open>close\<close> the gate has no listening socket, while an accept may still wait in its queue.\<close>

definition sample_closed :: gate where
  "sample_closed = snd (the (gate_cb (\<lambda>_. 7) sample_gate PTYPE_TEXT 0 (Bytes (bytes ''close''))))"

lemma sample_closed_reach: "gate_reach (\<lambda>_. 7) (\<lambda>_ _ _. 3) sample_closed"
proof (rule gate_message [OF sample_reach])
  have "gate_cb (\<lambda>_. 7) sample_gate PTYPE_TEXT 0 (Bytes (bytes ''close'')) \<noteq> None"
    "map_option fst (gate_cb (\<lambda>_. 7) sample_gate PTYPE_TEXT 0 (Bytes (bytes ''close''))) = Some 0" by code_simp+
  then show "gate_cb (\<lambda>_. 7) sample_gate PTYPE_TEXT 0 (Bytes (bytes ''close'')) = Some (0, sample_closed)"
    by (auto simp: sample_closed_def)
qed (simp add: accept_ok_def)

definition late_accept :: socket_message where
  "late_accept = \<lparr>m_type = SKYNET_SOCKET_TYPE_ACCEPT, m_id = 3, m_ud = 6, m_buffer = [], m_tail = bytes ''10.0.0.1:99''\<rparr>"

lemma close_then_accept_aborts:
  "gate_reach (\<lambda>_. 7) (\<lambda>_ _ _. 3) sample_closed \<and> gate_cb (\<lambda>_. 7) sample_closed PTYPE_SOCKET 0 (Socket late_accept) = None"
proof -
  have "dispatch_socket_message sample_closed late_accept = None" by code_simp
  then show ?thesis using sample_closed_reach by (simp add: gate_cb_def PTYPE_SOCKET_def PTYPE_TEXT_def PTYPE_CLIENT_def)
qed


section \<open>Streams that are not forwarded\<close>

text \<open>Without a broker, an agent and a watchdog a package is not taken out of the buffer, and its first bytes are
  read as the next header.\<close>

lemma gate_unclaimed_desync: "split_stream False 2 [0, 3, 0, 1, 65] = ([], [65], False)"
  by code_simp

text \<open>A four byte header with the highest bit set is negative: nothing is forwarded, and the connection is not closed.\<close>

lemma gate_negative_header:
  assumes "bit b0 7"
  shows "split_stream d 4 ([b0, b1, b2, b3] @ bs) = ([], [b0, b1, b2, b3] @ bs, False)"
proof -
  let ?w = "push_bit 24 (ucast b0) OR push_bit 16 (ucast b1) OR push_bit 8 (ucast b2) OR ucast b3 :: u32"
  have "bit ?w 31" using assms by (simp add: bit_simps)
  then have "sint ?w < 0" using bit_last_iff [of ?w] by simp
  then have "header_value 4 (take 4 ([b0, b1, b2, b3] @ bs)) < 0" by (simp add: header_value_def)
  then show ?thesis by (subst split_stream.simps) (simp add: Let_def)
qed

text \<open>A message of 16 MB or more is noticed only when all of it is in the buffer.\<close>

lemma gate_late_limit:
  assumes "length bs < 0x1000000"
  shows "split_stream d 4 ([1, 0, 0, 0] @ bs) = ([], [1, 0, 0, 0] @ bs, False)"
proof -
  have "header_value 4 (take 4 ([1, 0, 0, 0] @ bs)) = 0x1000000" by (simp add: header_value_def)
  then show ?thesis using assms by (subst split_stream.simps) (simp add: Let_def)
qed

text \<open>The command word is compared by its own length: a word that starts a command is taken for it, and so is the empty word.\<close>

lemma ctrl_prefix: "memcmp_eq (bytes ''k 5'' @ [0]) (bytes ''kick'') 1 = Some True" "memcmp_eq (bytes '' 5'' @ [0]) (bytes ''kick'') 0 = Some True"
  by code_simp+

end
