(* ===== verification/Skynet_Socket_Server.thy ===== *)
theory Skynet_Socket_Server
  imports Skynet_Text
begin

text \<open>
  The socket server, \<open>skynet-src/socket_server.c\<close>: sockets in slots that are addressed by the low bits of
  their ids, requests that other threads send through a pipe, and two lists of buffers per socket that wait
  to be written.  The operating system is an argument, a record of functions that answer a call made at a
  point of time; the calls with an effect are recorded in the state, in order.  The pipe is the list of the requests in it.
  Addresses of the network are kept in the form of \<open>udp_address\<close>: protocol, port and address bytes.
\<close>

section \<open>Constants and data\<close>

definition MAX_SOCKET :: int where "MAX_SOCKET = 65536"
definition MIN_READ_BUFFER :: int where "MIN_READ_BUFFER = 64"
definition MAX_UDP_PACKAGE :: int where "MAX_UDP_PACKAGE = 65535"
definition MAX_EVENT :: nat where "MAX_EVENT = 64"

definition SOCKET_TYPE_INVALID :: int where "SOCKET_TYPE_INVALID = 0"
definition SOCKET_TYPE_RESERVE :: int where "SOCKET_TYPE_RESERVE = 1"
definition SOCKET_TYPE_PLISTEN :: int where "SOCKET_TYPE_PLISTEN = 2"
definition SOCKET_TYPE_LISTEN :: int where "SOCKET_TYPE_LISTEN = 3"
definition SOCKET_TYPE_CONNECTING :: int where "SOCKET_TYPE_CONNECTING = 4"
definition SOCKET_TYPE_CONNECTED :: int where "SOCKET_TYPE_CONNECTED = 5"
definition SOCKET_TYPE_HALFCLOSE :: int where "SOCKET_TYPE_HALFCLOSE = 6"
definition SOCKET_TYPE_PACCEPT :: int where "SOCKET_TYPE_PACCEPT = 7"
definition SOCKET_TYPE_BIND :: int where "SOCKET_TYPE_BIND = 8"

definition PROTOCOL_TCP :: int where "PROTOCOL_TCP = 0"
definition PROTOCOL_UDP :: int where "PROTOCOL_UDP = 1"
definition PROTOCOL_UDPv6 :: int where "PROTOCOL_UDPv6 = 2"
definition UDP_ADDRESS_SIZE :: nat where "UDP_ADDRESS_SIZE = 19"

definition SOCKET_DATA :: int where "SOCKET_DATA = 0"
definition SOCKET_CLOSE :: int where "SOCKET_CLOSE = 1"
definition SOCKET_OPEN :: int where "SOCKET_OPEN = 2"
definition SOCKET_ACCEPT :: int where "SOCKET_ACCEPT = 3"
definition SOCKET_ERROR :: int where "SOCKET_ERROR = 4"
definition SOCKET_EXIT :: int where "SOCKET_EXIT = 5"
definition SOCKET_UDP :: int where "SOCKET_UDP = 6"

lemmas socket_states = SOCKET_TYPE_INVALID_def SOCKET_TYPE_RESERVE_def SOCKET_TYPE_PLISTEN_def SOCKET_TYPE_LISTEN_def
  SOCKET_TYPE_CONNECTING_def SOCKET_TYPE_CONNECTED_def SOCKET_TYPE_HALFCLOSE_def SOCKET_TYPE_PACCEPT_def SOCKET_TYPE_BIND_def

lemmas socket_results = SOCKET_DATA_def SOCKET_CLOSE_def SOCKET_OPEN_def SOCKET_ACCEPT_def SOCKET_ERROR_def SOCKET_EXIT_def SOCKET_UDP_def

lemmas protocols = PROTOCOL_TCP_def PROTOCOL_UDP_def PROTOCOL_UDPv6_def

definition HASH_ID :: "int \<Rightarrow> nat" where
  "HASH_ID i = nat ((i mod 2 ^ 32) mod MAX_SOCKET)"

datatype errno = EINTR | EAGAIN | EMFILE | ENFILE | EINPROGRESS | EOTHER int

datatype ret = Ret int | Fail errno

text \<open>A write buffer: the pointer to free, the pointer to the first byte not yet written and how many bytes follow it.
  The union \<open>p\<close> of a socket is two fields, the size of the next read and the address of the peer: the size is used for TCP only
  and \<open>new_fd\<close> sets it, the address is used for UDP only and \<open>add_udp_socket\<close> sets it; the requests that set an address have
  protocol 1 or 2 in its first byte, so the address of a TCP socket is not written.\<close>

record write_buffer =
  wb_buffer :: addr
  wb_ptr :: addr
  wb_sz :: int
  wb_userobject :: bool
  wb_udp_address :: "byte list"

record socket =
  s_opaque :: nat
  s_high :: "write_buffer list"
  s_low :: "write_buffer list"
  s_wb_size :: int
  s_fd :: int
  s_id :: int
  s_protocol :: int
  s_type :: int
  s_size :: int
  s_udp_address :: "byte list"

datatype payload = NoData | Text cstring | Buffer "byte list"

record result =
  r_id :: int
  r_opaque :: nat
  r_ud :: int
  r_data :: payload

record request_send =
  rs_id :: int
  rs_sz :: int
  rs_buffer :: addr

datatype request =
    ReqOpen int int nat cstring
  | ReqSend bool request_send
  | ReqSendUdp request_send "byte list"
  | ReqSetUdp int "byte list"
  | ReqClose int bool nat
  | ReqListen int int nat
  | ReqBind int int nat
  | ReqStart int nat
  | ReqSetopt int int int
  | ReqUdp int int bool nat
  | ReqExit

text \<open>A polled event: the slot (none for the pipe), and what the socket is ready for.\<close>

record event =
  e_s :: "nat option"
  e_read :: bool
  e_write :: bool

datatype sys_call =
    SysWrite int "byte list"
  | SysSendto int "byte list" "byte list"
  | SysClose int
  | SysSpAdd int
  | SysSpDel int
  | SysSpWrite int bool
  | SysSpRelease
  | SysNonblocking int
  | SysKeepalive int
  | SysSetsockopt int int int
  | SysFree addr
  | SysFreeObject addr
  | SysStderr cstring

record socket_server =
  ss_checkctrl :: bool
  ss_alloc_id :: int
  ss_event_index :: nat
  ss_ev :: "event list"
  ss_slot :: "nat \<Rightarrow> socket"
  ss_pipe :: "request list"
  ss_result :: result
  ss_more :: bool
  ss_time :: nat
  ss_calls :: "sys_call list"

text \<open>The operating system, the memory of the buffers to send and the user object interface.  The address of a peer is its
  protocol, the bytes of port and address, and its text.  Every function has the time of the call as its first argument.\<close>

record os =
  os_mem :: "addr \<Rightarrow> byte"
  soi_buffer :: "addr \<Rightarrow> addr"
  soi_size :: "addr \<Rightarrow> int"
  os_write :: "nat \<Rightarrow> int \<Rightarrow> byte list \<Rightarrow> ret"
  os_sendto :: "nat \<Rightarrow> int \<Rightarrow> byte list \<Rightarrow> byte list \<Rightarrow> ret"
  os_read :: "nat \<Rightarrow> int \<Rightarrow> int \<Rightarrow> errno + byte list"
  os_recvfrom :: "nat \<Rightarrow> int \<Rightarrow> errno + (byte list \<times> bool \<times> byte list)"
  os_sp_add :: "nat \<Rightarrow> int \<Rightarrow> errno option"
  os_sp_wait :: "nat \<Rightarrow> event list"
  os_select :: "nat \<Rightarrow> bool"
  os_getsockopt :: "nat \<Rightarrow> int \<Rightarrow> errno + int"
  os_getpeername :: "nat \<Rightarrow> int \<Rightarrow> cstring option"
  os_accept :: "nat \<Rightarrow> int \<Rightarrow> errno + (int \<times> cstring option \<times> int)"
  os_getaddrinfo :: "nat \<Rightarrow> cstring \<Rightarrow> cstring \<Rightarrow> cstring + (bool \<times> byte list \<times> cstring option) list"
  os_socket :: "nat \<Rightarrow> bool \<Rightarrow> ret"
  os_connect :: "nat \<Rightarrow> int \<Rightarrow> byte list \<Rightarrow> ret"
  os_bind :: "nat \<Rightarrow> int \<Rightarrow> byte list \<Rightarrow> ret"
  os_listen :: "nat \<Rightarrow> int \<Rightarrow> int \<Rightarrow> ret"
  os_reuse :: "nat \<Rightarrow> int \<Rightarrow> ret"
  os_strerror :: "errno \<Rightarrow> cstring"

abbreviation no_result :: result where
  "no_result \<equiv> \<lparr>r_id = 0, r_opaque = 0, r_ud = 0, r_data = NoData\<rparr>"

definition tick :: "socket_server \<Rightarrow> socket_server" where
  "tick ss = ss\<lparr>ss_time := ss_time ss + 1\<rparr>"

definition syscall :: "sys_call \<Rightarrow> socket_server \<Rightarrow> socket_server" where
  "syscall c ss = ss\<lparr>ss_calls := ss_calls ss @ [c]\<rparr>"

definition put_slot :: "nat \<Rightarrow> socket \<Rightarrow> socket_server \<Rightarrow> socket_server" where
  "put_slot k s ss = ss\<lparr>ss_slot := (ss_slot ss)(k := s)\<rparr>"

definition put_result :: "result \<Rightarrow> socket_server \<Rightarrow> socket_server" where
  "put_result r ss = ss\<lparr>ss_result := r\<rparr>"

definition bytes_at :: "os \<Rightarrow> addr \<Rightarrow> int \<Rightarrow> byte list" where
  "bytes_at os p n = map (\<lambda>i. os_mem os (p + i)) [0..<nat n]"

section \<open>Buffers\<close>

text \<open>\<open>send_object_init\<close>: the buffer, its size and whether the object is freed by the user's function.\<close>

definition send_object_init :: "os \<Rightarrow> addr \<Rightarrow> int \<Rightarrow> addr \<times> int \<times> bool" where
  "send_object_init os object sz = (if sz < 0 then (soi_buffer os object, soi_size os object, True) else (object, sz, False))"

definition free_object :: "bool \<Rightarrow> addr \<Rightarrow> sys_call" where
  "free_object user p = (if user then SysFreeObject p else SysFree p)"

definition write_buffer_free :: "write_buffer \<Rightarrow> socket_server \<Rightarrow> socket_server" where
  "write_buffer_free wb ss = syscall (free_object (wb_userobject wb) (wb_buffer wb)) ss"

text \<open>\<open>reserve_id\<close> runs in the threads of the services without a lock.  It is one step here: the compare-and-swap of a slot that was seen
  free succeeds, and the branch that tries again is for a thread that lost the slot to another one in between.\<close>

definition reserve_step :: "int \<Rightarrow> int" where
  "reserve_step a = (let i = to_int (a + 1) in if i < 0 then to_int (i AND 0x7fffffff) else i)"

fun reserve_loop :: "nat \<Rightarrow> socket_server \<Rightarrow> int \<times> socket_server" where
  "reserve_loop n ss =
     (if n = 0 then (- 1, ss)
      else
        (let i = reserve_step (ss_alloc_id ss); ss1 = ss\<lparr>ss_alloc_id := i\<rparr>; s = ss_slot ss1 (HASH_ID i) in
         if s_type s = SOCKET_TYPE_INVALID then (i, put_slot (HASH_ID i) (s\<lparr>s_type := SOCKET_TYPE_RESERVE, s_id := i, s_fd := - 1\<rparr>) ss1)
         else reserve_loop (n - 1) ss1))"

declare reserve_loop.simps [simp del]

definition reserve_id :: "socket_server \<Rightarrow> int \<times> socket_server" where
  "reserve_id ss = reserve_loop (nat MAX_SOCKET) ss"

definition socket_zero :: socket where
  "socket_zero = \<lparr>s_opaque = 0, s_high = [], s_low = [], s_wb_size = 0, s_fd = 0, s_id = 0, s_protocol = 0,
     s_type = SOCKET_TYPE_INVALID, s_size = 0, s_udp_address = []\<rparr>"

text \<open>\<open>socket_server_create\<close>, given whether the event pool and the pipe can be made and the pipe can be polled; \<open>None\<close> is
  the result \<open>NULL\<close>.  The memory of the slots is arbitrary but for the fields that are set.\<close>

definition socket_server_create :: "bool \<Rightarrow> bool \<Rightarrow> bool \<Rightarrow> (nat \<Rightarrow> socket) \<Rightarrow> socket_server option" where
  "socket_server_create has_pool has_pipe added garbage =
     (if has_pool \<and> has_pipe \<and> added then
        Some \<lparr>ss_checkctrl = True, ss_alloc_id = 0, ss_event_index = 0, ss_ev = [],
          ss_slot = (\<lambda>k. (garbage k)\<lparr>s_type := SOCKET_TYPE_INVALID, s_high := [], s_low := []\<rparr>),
          ss_pipe = [], ss_result = no_result, ss_more = True, ss_time = 0, ss_calls = []\<rparr>
      else None)"

fun free_wb_list :: "write_buffer list \<Rightarrow> socket_server \<Rightarrow> socket_server" where
  "free_wb_list [] ss = ss"
| "free_wb_list (wb # wbs) ss = free_wb_list wbs (write_buffer_free wb ss)"

definition force_close :: "nat \<Rightarrow> socket_server \<Rightarrow> socket_server option" where
  "force_close k ss =
     (let s = ss_slot ss k;
          ss1 = put_result \<lparr>r_id = s_id s, r_opaque = s_opaque s, r_ud = 0, r_data = NoData\<rparr> ss in
      if s_type s = SOCKET_TYPE_INVALID then Some ss1
      else do {
        require (s_type s \<noteq> SOCKET_TYPE_RESERVE);
        let ss2 = free_wb_list (s_low s) (free_wb_list (s_high s) ss1);
        let ss3 = (if s_type s \<noteq> SOCKET_TYPE_PACCEPT \<and> s_type s \<noteq> SOCKET_TYPE_PLISTEN then syscall (SysSpDel (s_fd s)) ss2 else ss2);
        let ss4 = (if s_type s \<noteq> SOCKET_TYPE_BIND then syscall (SysClose (s_fd s)) ss3 else ss3);
        Some (put_slot k (s\<lparr>s_high := [], s_low := [], s_type := SOCKET_TYPE_INVALID\<rparr>) ss4) })"

fun release_slots :: "nat list \<Rightarrow> socket_server \<Rightarrow> socket_server option" where
  "release_slots [] ss = Some ss"
| "release_slots (k # ks) ss = do {
     ss' \<leftarrow> (if s_type (ss_slot ss k) \<noteq> SOCKET_TYPE_RESERVE then force_close k ss else Some ss);
     release_slots ks ss' }"

definition socket_server_release :: "int \<Rightarrow> int \<Rightarrow> socket_server \<Rightarrow> socket_server option" where
  "socket_server_release sendctrl_fd recvctrl_fd ss = do {
     ss1 \<leftarrow> release_slots [0..<nat MAX_SOCKET] ss;
     Some (syscall SysSpRelease (syscall (SysClose recvctrl_fd) (syscall (SysClose sendctrl_fd) ss1))) }"

text \<open>\<open>new_fd\<close>: whether the slot was taken, and the new state.\<close>

definition new_fd :: "os \<Rightarrow> int \<Rightarrow> int \<Rightarrow> int \<Rightarrow> nat \<Rightarrow> bool \<Rightarrow> socket_server \<Rightarrow> (bool \<times> socket_server) option" where
  "new_fd os i fd protocol opaque add ss = do {
     let k = HASH_ID i;
     let s = ss_slot ss k;
     require (s_type s = SOCKET_TYPE_RESERVE);
     let failed = (add \<and> os_sp_add os (ss_time ss) fd \<noteq> None);
     let ss1 = (if add then syscall (SysSpAdd fd) (tick ss) else ss);
     (if failed then Some (False, put_slot k (s\<lparr>s_type := SOCKET_TYPE_INVALID\<rparr>) ss1)
      else do {
        require (s_high s = []);
        require (s_low s = []);
        Some (True, put_slot k (s\<lparr>s_id := i, s_fd := fd, s_protocol := protocol, s_size := MIN_READ_BUFFER, s_opaque := opaque, s_wb_size := 0\<rparr>) ss1) }) }"

definition set_type :: "nat \<Rightarrow> int \<Rightarrow> socket_server \<Rightarrow> socket_server" where
  "set_type k ty ss = put_slot k ((ss_slot ss k)\<lparr>s_type := ty\<rparr>) ss"

section \<open>Opening a connection\<close>

text \<open>The loop over the addresses: the socket that connects or has connected, with its address and whether it has
  connected; or the last error.\<close>

fun connect_loop :: "os \<Rightarrow> (bool \<times> byte list \<times> cstring option) list \<Rightarrow> errno \<Rightarrow> socket_server \<Rightarrow>
    (errno + (int \<times> bool \<times> cstring option)) \<times> socket_server" where
  "connect_loop os [] e ss = (Inl e, ss)"
| "connect_loop os ((v4, a, name) # as) e ss =
     (case os_socket os (ss_time ss) v4 of
        Fail e' \<Rightarrow> connect_loop os as e' (tick ss)
      | Ret sock \<Rightarrow>
          if sock < 0 then connect_loop os as e (tick ss)
          else
            (let ss1 = syscall (SysNonblocking sock) (syscall (SysKeepalive sock) (tick ss)) in
             case os_connect os (ss_time ss1) sock a of
               Ret _ \<Rightarrow> (Inr (sock, True, name), tick ss1)
             | Fail e' \<Rightarrow>
                 if e' = EINPROGRESS then (Inr (sock, False, name), tick ss1)
                 else connect_loop os as e' (syscall (SysClose sock) (tick ss1))))"

definition open_failed :: "nat \<Rightarrow> int \<Rightarrow> nat \<Rightarrow> cstring \<Rightarrow> socket_server \<Rightarrow> int \<times> socket_server" where
  "open_failed k i opaque msg ss =
     (SOCKET_ERROR, set_type k SOCKET_TYPE_INVALID (put_result \<lparr>r_id = i, r_opaque = opaque, r_ud = 0, r_data = Text msg\<rparr> ss))"

definition open_socket :: "os \<Rightarrow> int \<Rightarrow> int \<Rightarrow> nat \<Rightarrow> cstring \<Rightarrow> socket_server \<Rightarrow> (int \<times> socket_server) option" where
  "open_socket os i port opaque host ss =
     (let k = HASH_ID i; ss0 = tick ss in
      case os_getaddrinfo os (ss_time ss) host (fmt_d port) of
        Inl msg \<Rightarrow> Some (open_failed k i opaque msg ss0)
      | Inr ais \<Rightarrow>
          (case connect_loop os ais (EOTHER 0) ss0 of
             (Inl e, ss1) \<Rightarrow> Some (open_failed k i opaque (os_strerror os e) ss1)
           | (Inr (sock, connected, name), ss1) \<Rightarrow> do {
               (ok, ss2) \<leftarrow> new_fd os i sock PROTOCOL_TCP opaque True ss1;
               (if \<not> ok then Some (open_failed k i opaque (bytes ''reach skynet socket number limit'') (syscall (SysClose sock) ss2))
                else if connected then
                  Some (SOCKET_OPEN, put_result \<lparr>r_id = i, r_opaque = opaque, r_ud = 0,
                      r_data = (case name of None \<Rightarrow> NoData | Some n \<Rightarrow> Text n)\<rparr> (set_type k SOCKET_TYPE_CONNECTED ss2))
                else
                  Some (- 1, syscall (SysSpWrite sock True) (put_result \<lparr>r_id = i, r_opaque = opaque, r_ud = 0, r_data = NoData\<rparr>
                      (set_type k SOCKET_TYPE_CONNECTING ss2)))) }))"

section \<open>Writing\<close>

definition wlist :: "bool \<Rightarrow> socket \<Rightarrow> write_buffer list" where
  "wlist high s = (if high then s_high s else s_low s)"

definition set_wlist :: "bool \<Rightarrow> write_buffer list \<Rightarrow> socket \<Rightarrow> socket" where
  "set_wlist high l s = (if high then s\<lparr>s_high := l\<rparr> else s\<lparr>s_low := l\<rparr>)"

partial_function (option) send_list_tcp :: "os \<Rightarrow> bool \<Rightarrow> nat \<Rightarrow> socket_server \<Rightarrow> (int \<times> socket_server) option" where
  "send_list_tcp os high k ss =
     (let s = ss_slot ss k in
      case wlist high s of
        [] \<Rightarrow> Some (- 1, ss)
      | tmp # rest \<Rightarrow>
          (case os_write os (ss_time ss) (s_fd s) (bytes_at os (wb_ptr tmp) (wb_sz tmp)) of
             Fail e \<Rightarrow>
               if e = EINTR then send_list_tcp os high k (tick ss)
               else if e = EAGAIN then Some (- 1, tick ss)
               else do { ss' \<leftarrow> force_close k (tick ss); Some (SOCKET_CLOSE, ss') }
           | Ret n \<Rightarrow>
               (let ss1 = syscall (SysWrite (s_fd s) (take (nat n) (bytes_at os (wb_ptr tmp) (wb_sz tmp)))) (tick ss);
                    s1 = s\<lparr>s_wb_size := s_wb_size s - n\<rparr> in
                if n \<noteq> wb_sz tmp then
                  Some (- 1, put_slot k (set_wlist high (tmp\<lparr>wb_ptr := wb_ptr tmp + nat n, wb_sz := wb_sz tmp - n\<rparr> # rest) s1) ss1)
                else send_list_tcp os high k (write_buffer_free tmp (put_slot k (set_wlist high rest s1) ss1)))))"

text \<open>The destination of a datagram: port and address, or nothing when the address is of another protocol.\<close>

definition udp_socket_address :: "socket \<Rightarrow> byte list \<Rightarrow> byte list option" where
  "udp_socket_address s udp_address = do {
     ty \<leftarrow> aget udp_address 0;
     Some (if uint ty \<noteq> s_protocol s then []
           else if s_protocol s = PROTOCOL_UDP then take 6 (drop 1 udp_address)
           else if s_protocol s = PROTOCOL_UDPv6 then take 18 (drop 1 udp_address)
           else []) }"

partial_function (option) send_list_udp :: "os \<Rightarrow> bool \<Rightarrow> nat \<Rightarrow> socket_server \<Rightarrow> (int \<times> socket_server) option" where
  "send_list_udp os high k ss =
     (let s = ss_slot ss k in
      case wlist high s of
        [] \<Rightarrow> Some (- 1, ss)
      | tmp # rest \<Rightarrow> do {
          sa \<leftarrow> udp_socket_address s (wb_udp_address tmp);
          (case os_sendto os (ss_time ss) (s_fd s) (bytes_at os (wb_ptr tmp) (wb_sz tmp)) sa of
             Fail e \<Rightarrow>
               if e = EINTR \<or> e = EAGAIN then Some (- 1, tick ss)
               else Some (- 1, syscall (SysStderr (bytes ''socket-server : udp ('' @ fmt_d (s_id s) @ bytes '') sendto error '' @ os_strerror os e @ bytes ''.'' @ [10])) (tick ss))
           | Ret _ \<Rightarrow>
               send_list_udp os high k (write_buffer_free tmp (put_slot k (set_wlist high rest (s\<lparr>s_wb_size := s_wb_size s - wb_sz tmp\<rparr>))
                 (syscall (SysSendto (s_fd s) (bytes_at os (wb_ptr tmp) (wb_sz tmp)) sa) (tick ss))))) })"

definition send_list :: "os \<Rightarrow> bool \<Rightarrow> nat \<Rightarrow> socket_server \<Rightarrow> (int \<times> socket_server) option" where
  "send_list os high k ss =
     (if s_protocol (ss_slot ss k) = PROTOCOL_TCP then send_list_tcp os high k ss else send_list_udp os high k ss)"

definition list_uncomplete :: "write_buffer list \<Rightarrow> bool" where
  "list_uncomplete l = (case l of [] \<Rightarrow> False | wb # _ \<Rightarrow> wb_ptr wb \<noteq> wb_buffer wb)"

definition raise_uncomplete :: "nat \<Rightarrow> socket_server \<Rightarrow> socket_server option" where
  "raise_uncomplete k ss =
     (let s = ss_slot ss k in
      case s_low s of
        [] \<Rightarrow> None
      | tmp # rest \<Rightarrow> do {
          require (s_high s = []);
          Some (put_slot k (s\<lparr>s_low := rest, s_high := [tmp]\<rparr>) ss) })"

definition send_buffer :: "os \<Rightarrow> nat \<Rightarrow> socket_server \<Rightarrow> (int \<times> socket_server) option" where
  "send_buffer os k ss = do {
     require (\<not> list_uncomplete (s_low (ss_slot ss k)));
     (r1, ss1) \<leftarrow> send_list os True k ss;
     (if r1 = SOCKET_CLOSE then Some (SOCKET_CLOSE, ss1)
      else if s_high (ss_slot ss1 k) \<noteq> [] then Some (- 1, ss1)
      else if s_low (ss_slot ss1 k) \<noteq> [] then do {
        (r2, ss2) \<leftarrow> send_list os False k ss1;
        (if r2 = SOCKET_CLOSE then Some (SOCKET_CLOSE, ss2)
         else if list_uncomplete (s_low (ss_slot ss2 k)) then do { ss3 \<leftarrow> raise_uncomplete k ss2; Some (- 1, ss3) }
         else Some (- 1, ss2)) }
      else do {
        let ss2 = syscall (SysSpWrite (s_fd (ss_slot ss1 k)) False) ss1;
        (if s_type (ss_slot ss2 k) = SOCKET_TYPE_HALFCLOSE then do { ss3 \<leftarrow> force_close k ss2; Some (SOCKET_CLOSE, ss3) }
         else Some (- 1, ss2)) }) }"

definition append_sendbuffer :: "os \<Rightarrow> bool \<Rightarrow> nat \<Rightarrow> request_send \<Rightarrow> int \<Rightarrow> byte list \<Rightarrow> socket_server \<Rightarrow> socket_server" where
  "append_sendbuffer os high k request n udp_address ss =
     (let s = ss_slot ss k;
          (buf, sz, user) = send_object_init os (rs_buffer request) (rs_sz request);
          wb = \<lparr>wb_buffer = rs_buffer request, wb_ptr = buf + nat n, wb_sz = sz - n, wb_userobject = user, wb_udp_address = udp_address\<rparr>;
          s1 = set_wlist high (wlist high s @ [wb]) s
      in put_slot k (s1\<lparr>s_wb_size := s_wb_size s1 + wb_sz wb\<rparr>) ss)"

definition send_buffer_empty :: "socket \<Rightarrow> bool" where
  "send_buffer_empty s \<longleftrightarrow> s_high s = [] \<and> s_low s = []"

text \<open>The direct write when nothing is waiting: the number of bytes that were written, unless the socket was closed.\<close>

definition write_direct :: "os \<Rightarrow> nat \<Rightarrow> request_send \<Rightarrow> socket_server \<Rightarrow> ((int option) \<times> socket_server) option" where
  "write_direct os k request ss =
     (let s = ss_slot ss k;
          (buf, sz, user) = send_object_init os (rs_buffer request) (rs_sz request) in
      case os_write os (ss_time ss) (s_fd s) (bytes_at os buf sz) of
        Ret n \<Rightarrow> Some (Some n, syscall (SysWrite (s_fd s) (take (nat n) (bytes_at os buf sz))) (tick ss))
      | Fail e \<Rightarrow>
          if e = EINTR \<or> e = EAGAIN then Some (Some 0, tick ss)
          else do {
            ss1 \<leftarrow> force_close k (syscall (SysStderr (bytes ''socket-server: write to '' @ fmt_d (rs_id request) @ bytes '' (fd='' @ fmt_d (s_fd s) @
              bytes '') error :'' @ os_strerror os e @ bytes ''.'' @ [10])) (tick ss));
            Some (None, syscall (free_object user (rs_buffer request)) ss1) })"

definition send_socket :: "os \<Rightarrow> request_send \<Rightarrow> bool \<Rightarrow> byte list option \<Rightarrow> socket_server \<Rightarrow> (int \<times> socket_server) option" where
  "send_socket os request high udp_address ss =
     (let i = rs_id request; k = HASH_ID i; s = ss_slot ss k;
          (buf, sz, user) = send_object_init os (rs_buffer request) (rs_sz request);
          free = free_object user (rs_buffer request);
          ua = (case udp_address of None \<Rightarrow> s_udp_address s | Some a \<Rightarrow> a) in
      if s_type s = SOCKET_TYPE_INVALID \<or> s_id s \<noteq> i \<or> s_type s = SOCKET_TYPE_HALFCLOSE \<or> s_type s = SOCKET_TYPE_PACCEPT then
        Some (- 1, syscall free ss)
      else if s_type s = SOCKET_TYPE_PLISTEN \<or> s_type s = SOCKET_TYPE_LISTEN then
        Some (- 1, syscall free (syscall (SysStderr (bytes ''socket-server: write to listen fd '' @ fmt_d i @ bytes ''.'' @ [10])) ss))
      else if send_buffer_empty s \<and> s_type s = SOCKET_TYPE_CONNECTED then
        (if s_protocol s = PROTOCOL_TCP then do {
           (r, ss1) \<leftarrow> write_direct os k request ss;
           (case r of
              None \<Rightarrow> Some (SOCKET_CLOSE, ss1)
            | Some n \<Rightarrow>
                if n = sz then Some (- 1, syscall free ss1)
                else Some (- 1, syscall (SysSpWrite (s_fd s) True) (append_sendbuffer os True k request n [] ss1))) }
         else do {
           sa \<leftarrow> udp_socket_address s ua;
           let ret = os_sendto os (ss_time ss) (s_fd s) (bytes_at os buf sz) sa;
           let ss1 = (case ret of Ret _ \<Rightarrow> syscall (SysSendto (s_fd s) (bytes_at os buf sz) sa) (tick ss) | Fail _ \<Rightarrow> tick ss);
           (if ret \<noteq> Ret sz then Some (- 1, syscall (SysSpWrite (s_fd s) True) (append_sendbuffer os high k request 0 ua ss1))
            else Some (- 1, syscall free ss1)) })
      else if s_protocol s = PROTOCOL_TCP then Some (- 1, append_sendbuffer os high k request 0 [] ss)
      else Some (- 1, append_sendbuffer os high k request 0 ua ss))"

section \<open>Requests\<close>

definition number_limit :: cstring where "number_limit = bytes ''reach skynet socket number limit''"

definition listen_socket :: "os \<Rightarrow> int \<Rightarrow> int \<Rightarrow> nat \<Rightarrow> socket_server \<Rightarrow> (int \<times> socket_server) option" where
  "listen_socket os i listen_fd opaque ss = do {
     (ok, ss1) \<leftarrow> new_fd os i listen_fd PROTOCOL_TCP opaque False ss;
     Some (if ok then (- 1, set_type (HASH_ID i) SOCKET_TYPE_PLISTEN ss1)
           else open_failed (HASH_ID i) i opaque number_limit (syscall (SysClose listen_fd) ss1)) }"

definition close_socket :: "os \<Rightarrow> int \<Rightarrow> bool \<Rightarrow> nat \<Rightarrow> socket_server \<Rightarrow> (int \<times> socket_server) option" where
  "close_socket os i shutdown opaque ss =
     (let k = HASH_ID i; s = ss_slot ss k in
      if s_type s = SOCKET_TYPE_INVALID \<or> s_id s \<noteq> i then
        Some (SOCKET_CLOSE, put_result \<lparr>r_id = i, r_opaque = opaque, r_ud = 0, r_data = NoData\<rparr> ss)
      else do {
        (ty, ss1) \<leftarrow> (if send_buffer_empty s then Some (- 1, ss) else send_buffer os k ss);
        (if ty \<noteq> - 1 then Some (ty, ss1)
         else if shutdown \<or> send_buffer_empty (ss_slot ss1 k) then do {
           ss2 \<leftarrow> force_close k ss1;
           Some (SOCKET_CLOSE, ss2\<lparr>ss_result := (ss_result ss2)\<lparr>r_id := i, r_opaque := opaque\<rparr>\<rparr>) }
         else Some (- 1, set_type k SOCKET_TYPE_HALFCLOSE ss1)) })"

definition bind_socket :: "os \<Rightarrow> int \<Rightarrow> int \<Rightarrow> nat \<Rightarrow> socket_server \<Rightarrow> (int \<times> socket_server) option" where
  "bind_socket os i fd opaque ss = do {
     (ok, ss1) \<leftarrow> new_fd os i fd PROTOCOL_TCP opaque True ss;
     Some (if \<not> ok then (SOCKET_ERROR, put_result \<lparr>r_id = i, r_opaque = opaque, r_ud = 0, r_data = Text number_limit\<rparr> ss1)
           else (SOCKET_OPEN, put_result \<lparr>r_id = i, r_opaque = opaque, r_ud = 0, r_data = Text (bytes ''binding'')\<rparr>
                   (set_type (HASH_ID i) SOCKET_TYPE_BIND (syscall (SysNonblocking fd) ss1)))) }"

definition start_socket :: "os \<Rightarrow> int \<Rightarrow> nat \<Rightarrow> socket_server \<Rightarrow> (int \<times> socket_server) option" where
  "start_socket os i opaque ss =
     (let k = HASH_ID i; s = ss_slot ss k; r = \<lparr>r_id = i, r_opaque = opaque, r_ud = 0, r_data = NoData\<rparr> in
      if s_type s = SOCKET_TYPE_INVALID \<or> s_id s \<noteq> i then Some (SOCKET_ERROR, put_result (r\<lparr>r_data := Text (bytes ''invalid socket'')\<rparr>) ss)
      else if s_type s = SOCKET_TYPE_PACCEPT \<or> s_type s = SOCKET_TYPE_PLISTEN then
        (let ss1 = syscall (SysSpAdd (s_fd s)) (tick ss) in
         case os_sp_add os (ss_time ss) (s_fd s) of
           Some e \<Rightarrow> do {
             ss2 \<leftarrow> force_close k ss1;
             Some (SOCKET_ERROR, ss2\<lparr>ss_result := (ss_result ss2)\<lparr>r_data := Text (os_strerror os e)\<rparr>\<rparr>) }
         | None \<Rightarrow>
           Some (SOCKET_OPEN, put_result (r\<lparr>r_data := Text (bytes ''start'')\<rparr>)
             (put_slot k (s\<lparr>s_type := (if s_type s = SOCKET_TYPE_PACCEPT then SOCKET_TYPE_CONNECTED else SOCKET_TYPE_LISTEN), s_opaque := opaque\<rparr>) ss1)))
      else if s_type s = SOCKET_TYPE_CONNECTED then
        Some (SOCKET_OPEN, put_result (r\<lparr>r_data := Text (bytes ''transfer'')\<rparr>) (put_slot k (s\<lparr>s_opaque := opaque\<rparr>) ss))
      else Some (- 1, put_result r ss))"

definition setopt_socket :: "int \<Rightarrow> int \<Rightarrow> int \<Rightarrow> socket_server \<Rightarrow> socket_server" where
  "setopt_socket i what val ss =
     (let s = ss_slot ss (HASH_ID i) in
      if s_type s = SOCKET_TYPE_INVALID \<or> s_id s \<noteq> i then ss else syscall (SysSetsockopt (s_fd s) what val) ss)"

definition has_cmd :: "os \<Rightarrow> socket_server \<Rightarrow> bool" where
  "has_cmd os ss \<longleftrightarrow> ss_pipe ss \<noteq> [] \<and> os_select os (ss_time ss)"

definition add_udp_socket :: "os \<Rightarrow> int \<Rightarrow> int \<Rightarrow> bool \<Rightarrow> nat \<Rightarrow> socket_server \<Rightarrow> socket_server option" where
  "add_udp_socket os i fd v6 opaque ss = do {
     let k = HASH_ID i;
     (ok, ss1) \<leftarrow> new_fd os i fd (if v6 then PROTOCOL_UDPv6 else PROTOCOL_UDP) opaque True ss;
     Some (if \<not> ok then set_type k SOCKET_TYPE_INVALID (syscall (SysClose fd) ss1)
           else put_slot k ((ss_slot ss1 k)\<lparr>s_type := SOCKET_TYPE_CONNECTED, s_udp_address := replicate UDP_ADDRESS_SIZE 0\<rparr>) ss1) }"

definition set_udp_address :: "int \<Rightarrow> byte list \<Rightarrow> socket_server \<Rightarrow> (int \<times> socket_server) option" where
  "set_udp_address i address ss =
     (let k = HASH_ID i; s = ss_slot ss k in
      if s_type s = SOCKET_TYPE_INVALID \<or> s_id s \<noteq> i then Some (- 1, ss)
      else do {
        ty \<leftarrow> aget address 0;
        (if uint ty \<noteq> s_protocol s then
           Some (SOCKET_ERROR, put_result \<lparr>r_id = s_id s, r_opaque = s_opaque s, r_ud = 0, r_data = Text (bytes ''protocol mismatch'')\<rparr> ss)
         else
           (let n = (if uint ty = PROTOCOL_UDP then 7 else 19)
            in Some (- 1, put_slot k (s\<lparr>s_udp_address := take n address @ drop n (s_udp_address s)\<rparr>) ss))) })"

definition ctrl_cmd :: "os \<Rightarrow> socket_server \<Rightarrow> (int \<times> socket_server) option" where
  "ctrl_cmd os ss =
     (case ss_pipe ss of
        [] \<Rightarrow> None
      | r # rs \<Rightarrow>
          (let ss1 = ss\<lparr>ss_pipe := rs\<rparr> in
           case r of
             ReqStart i opaque \<Rightarrow> start_socket os i opaque ss1
           | ReqBind i fd opaque \<Rightarrow> bind_socket os i fd opaque ss1
           | ReqListen i fd opaque \<Rightarrow> listen_socket os i fd opaque ss1
           | ReqClose i shutdown opaque \<Rightarrow> close_socket os i shutdown opaque ss1
           | ReqOpen i port opaque host \<Rightarrow> open_socket os i port opaque host ss1
           | ReqExit \<Rightarrow> Some (SOCKET_EXIT, put_result no_result ss1)
           | ReqSend high request \<Rightarrow> send_socket os request high None ss1
           | ReqSendUdp request address \<Rightarrow> send_socket os request True (Some address) ss1
           | ReqSetUdp i address \<Rightarrow> set_udp_address i address ss1
           | ReqSetopt i what val \<Rightarrow> Some (- 1, setopt_socket i what val ss1)
           | ReqUdp i fd v6 opaque \<Rightarrow> map_option (\<lambda>s. (- 1, s)) (add_udp_socket os i fd v6 opaque ss1)))"

section \<open>Events\<close>

definition forward_message_tcp :: "os \<Rightarrow> nat \<Rightarrow> socket_server \<Rightarrow> (int \<times> socket_server) option" where
  "forward_message_tcp os k ss =
     (let s = ss_slot ss k; sz = s_size s; ss1 = tick ss in
      case os_read os (ss_time ss) (s_fd s) sz of
        Inl e \<Rightarrow>
          if e = EINTR then Some (- 1, ss1)
          else if e = EAGAIN then Some (- 1, syscall (SysStderr (bytes ''socket-server: EAGAIN capture.'' @ [10])) ss1)
          else do {
            ss2 \<leftarrow> force_close k ss1;
            Some (SOCKET_ERROR, ss2\<lparr>ss_result := (ss_result ss2)\<lparr>r_data := Text (os_strerror os e)\<rparr>\<rparr>) }
      | Inr data \<Rightarrow>
          (let n = int (length data) in
           if n = 0 then do { ss2 \<leftarrow> force_close k ss1; Some (SOCKET_CLOSE, ss2) }
           else if s_type s = SOCKET_TYPE_HALFCLOSE then Some (- 1, ss1)
           else do {
             size' \<leftarrow> (if n = sz then cint (sz * 2) else if sz > MIN_READ_BUFFER \<and> n * 2 < sz then Some (sz div 2) else Some sz);
             Some (SOCKET_DATA, put_result \<lparr>r_id = s_id s, r_opaque = s_opaque s, r_ud = n, r_data = Buffer data\<rparr>
                (put_slot k (s\<lparr>s_size := size'\<rparr>) ss1)) }))"

definition gen_udp_address :: "int \<Rightarrow> byte list \<Rightarrow> byte list" where
  "gen_udp_address protocol a = of_int protocol # take (if protocol = PROTOCOL_UDP then 6 else 18) a"

definition forward_message_udp :: "os \<Rightarrow> nat \<Rightarrow> socket_server \<Rightarrow> (int \<times> socket_server) option" where
  "forward_message_udp os k ss =
     (let s = ss_slot ss k; ss1 = tick ss in
      case os_recvfrom os (ss_time ss) (s_fd s) of
        Inl e \<Rightarrow>
          if e = EINTR \<or> e = EAGAIN then Some (- 1, ss1)
          else do {
            ss2 \<leftarrow> force_close k ss1;
            Some (SOCKET_ERROR, ss2\<lparr>ss_result := (ss_result ss2)\<lparr>r_data := Text (os_strerror os e)\<rparr>\<rparr>) }
      | Inr (data, v4, a) \<Rightarrow>
          (let protocol = (if v4 then PROTOCOL_UDP else PROTOCOL_UDPv6) in
           if s_protocol s \<noteq> protocol then Some (- 1, ss1)
           else Some (SOCKET_UDP, put_result \<lparr>r_id = s_id s, r_opaque = s_opaque s, r_ud = int (length data),
                   r_data = Buffer (data @ gen_udp_address protocol a)\<rparr> ss1)))"

definition report_connect :: "os \<Rightarrow> nat \<Rightarrow> socket_server \<Rightarrow> (int \<times> socket_server) option" where
  "report_connect os k ss =
     (let s = ss_slot ss k; ss1 = tick ss;
          failed = (\<lambda>msg. do { ss2 \<leftarrow> force_close k ss1; Some (SOCKET_ERROR, ss2\<lparr>ss_result := (ss_result ss2)\<lparr>r_data := Text msg\<rparr>\<rparr>) }) in
      case os_getsockopt os (ss_time ss) (s_fd s) of
        Inl e \<Rightarrow> failed (os_strerror os e)
      | Inr err \<Rightarrow>
          if err \<noteq> 0 then failed (os_strerror os (EOTHER err))
          else
            (let ss2 = set_type k SOCKET_TYPE_CONNECTED ss1;
                 ss3 = (if send_buffer_empty s then syscall (SysSpWrite (s_fd s) False) ss2 else ss2);
                 name = os_getpeername os (ss_time ss3) (s_fd s)
             in Some (SOCKET_OPEN, put_result \<lparr>r_id = s_id s, r_opaque = s_opaque s, r_ud = 0,
                  r_data = (case name of None \<Rightarrow> NoData | Some n \<Rightarrow> Text n)\<rparr> (tick ss3))))"

text \<open>The result is positive for a new connection, negative for a file limit and zero for a failure.\<close>

definition report_accept :: "os \<Rightarrow> nat \<Rightarrow> socket_server \<Rightarrow> (int \<times> socket_server) option" where
  "report_accept os k ss =
     (let s = ss_slot ss k; ss1 = tick ss in
      case os_accept os (ss_time ss) (s_fd s) of
        Inl e \<Rightarrow>
          Some (if e = EMFILE \<or> e = ENFILE then
                  (- 1, put_result \<lparr>r_id = s_id s, r_opaque = s_opaque s, r_ud = 0, r_data = Text (os_strerror os e)\<rparr> ss1)
                else (0, ss1))
      | Inr (client_fd, name, port) \<Rightarrow>
          (let (i, ss2) = reserve_id ss1 in
           if i < 0 then Some (0, syscall (SysClose client_fd) ss2)
           else do {
             let ss3 = syscall (SysNonblocking client_fd) (syscall (SysKeepalive client_fd) ss2);
             (ok, ss4) \<leftarrow> new_fd os i client_fd PROTOCOL_TCP (s_opaque s) False ss3;
             Some (if \<not> ok then (0, syscall (SysClose client_fd) ss4)
                   else (1, put_result \<lparr>r_id = s_id s, r_opaque = s_opaque s, r_ud = i,
                      r_data = (case name of None \<Rightarrow> NoData | Some n \<Rightarrow> Text (take 127 (n @ bytes '':'' @ fmt_d port)))\<rparr>
                      (set_type (HASH_ID i) SOCKET_TYPE_PACCEPT ss4))) }))"

fun clear_event :: "(nat \<Rightarrow> socket) \<Rightarrow> int \<Rightarrow> event list \<Rightarrow> event list" where
  "clear_event slot i [] = []"
| "clear_event slot i (e # es) =
     (case e_s e of
        Some k \<Rightarrow> if s_type (slot k) = SOCKET_TYPE_INVALID \<and> s_id (slot k) = i then e\<lparr>e_s := None\<rparr> # es else e # clear_event slot i es
      | None \<Rightarrow> e # clear_event slot i es)"

definition clear_closed_event :: "int \<Rightarrow> socket_server \<Rightarrow> socket_server" where
  "clear_closed_event ty ss =
     (if ty = SOCKET_CLOSE \<or> ty = SOCKET_ERROR then
        ss\<lparr>ss_ev := take (ss_event_index ss) (ss_ev ss) @
            clear_event (ss_slot ss) (r_id (ss_result ss)) (drop (ss_event_index ss) (ss_ev ss))\<rparr>
      else ss)"

text \<open>An event of a socket that is neither connecting nor listening: \<open>None\<close> in the result means that the loop of
  \<open>socket_server_poll\<close> goes on.\<close>

definition poll_rw :: "os \<Rightarrow> event \<Rightarrow> nat \<Rightarrow> socket_server \<Rightarrow> (int option \<times> socket_server) option" where
  "poll_rw os e k ss =
     (if e_read e then
        (if s_protocol (ss_slot ss k) = PROTOCOL_TCP then do {
           (ty, ss1) \<leftarrow> forward_message_tcp os k ss;
           let ss2 = (if e_write e \<and> ty \<noteq> SOCKET_CLOSE \<and> ty \<noteq> SOCKET_ERROR then
                 ss1\<lparr>ss_ev := (ss_ev ss1)[ss_event_index ss1 - 1 := e\<lparr>e_read := False\<rparr>], ss_event_index := ss_event_index ss1 - 1\<rparr> else ss1);
           Some (if ty = - 1 then None else Some ty, ss2) }
         else do {
           (ty, ss1) \<leftarrow> forward_message_udp os k ss;
           (if ty = SOCKET_UDP then Some (Some SOCKET_UDP, ss1\<lparr>ss_event_index := ss_event_index ss1 - 1\<rparr>)
            else do {
              let ss2 = (if e_write e \<and> ty \<noteq> SOCKET_CLOSE \<and> ty \<noteq> SOCKET_ERROR then
                    ss1\<lparr>ss_ev := (ss_ev ss1)[ss_event_index ss1 - 1 := e\<lparr>e_read := False\<rparr>], ss_event_index := ss_event_index ss1 - 1\<rparr> else ss1);
              Some (if ty = - 1 then None else Some ty, ss2) }) })
      else if e_write e then do {
        (ty, ss1) \<leftarrow> send_buffer os k ss;
        Some (if ty = - 1 then None else Some ty, ss1) }
      else Some (None, ss))"

definition poll_event :: "os \<Rightarrow> socket_server \<Rightarrow> (int option \<times> socket_server) option" where
  "poll_event os ss = do {
     e \<leftarrow> aget (ss_ev ss) (int (ss_event_index ss));
     let ss1 = ss\<lparr>ss_event_index := ss_event_index ss + 1\<rparr>;
     (case e_s e of
        None \<Rightarrow> Some (None, ss1)
      | Some k \<Rightarrow>
          (let ty = s_type (ss_slot ss1 k) in
           if ty = SOCKET_TYPE_CONNECTING then map_option (\<lambda>(r, s). (Some r, s)) (report_connect os k ss1)
           else if ty = SOCKET_TYPE_LISTEN then do {
             (ok, ss2) \<leftarrow> report_accept os k ss1;
             Some (if ok > 0 then Some SOCKET_ACCEPT else if ok < 0 then Some SOCKET_ERROR else None, ss2) }
           else if ty = SOCKET_TYPE_INVALID then Some (None, syscall (SysStderr (bytes ''socket-server: invalid socket'' @ [10])) ss1)
           else poll_rw os e k ss1)) }"

text \<open>One iteration of the loop of \<open>socket_server_poll\<close>, and the loop.  The iteration is one step: what other threads do to the slots
  through \<open>reserve_id\<close> happens before or after it.\<close>

definition poll_step :: "os \<Rightarrow> socket_server \<Rightarrow> (int option \<times> socket_server) option" where
  "poll_step os ss =
     (if ss_checkctrl ss \<and> has_cmd os ss then do {
        (ty, ss1) \<leftarrow> ctrl_cmd os (tick ss);
        Some (if ty \<noteq> - 1 then (Some ty, clear_closed_event ty ss1) else (None, ss1)) }
      else do {
        let ss1 = (if ss_checkctrl ss then (tick ss)\<lparr>ss_checkctrl := False\<rparr> else ss);
        let waits = (ss_event_index ss1 = length (ss_ev ss1));
        let ss2 = (if waits then (tick ss1)\<lparr>ss_ev := take MAX_EVENT (os_sp_wait os (ss_time ss1)), ss_checkctrl := True, ss_more := False, ss_event_index := 0\<rparr> else ss1);
        (if waits \<and> ss_ev ss2 = [] then Some (Some (- 1), ss2) else poll_event os ss2) })"

partial_function (option) socket_server_poll :: "os \<Rightarrow> socket_server \<Rightarrow> (int \<times> socket_server) option" where
  "socket_server_poll os ss = do {
     (r, ss1) \<leftarrow> poll_step os ss;
     (case r of Some ty \<Rightarrow> Some (ty, ss1) | None \<Rightarrow> socket_server_poll os ss1) }"

declare send_list_tcp.simps [code] send_list_udp.simps [code] socket_server_poll.simps [code]

section \<open>The interface for other threads\<close>

definition send_request :: "request \<Rightarrow> socket_server \<Rightarrow> socket_server" where
  "send_request r ss = ss\<lparr>ss_pipe := ss_pipe ss @ [r]\<rparr>"

definition socket_server_connect :: "nat \<Rightarrow> cstring \<Rightarrow> int \<Rightarrow> socket_server \<Rightarrow> int \<times> socket_server" where
  "socket_server_connect opaque a port ss =
     (if length a + 24 \<ge> 256 then (- 1, syscall (SysStderr (bytes ''socket-server : Invalid addr '' @ a @ bytes ''.'' @ [10])) ss)
      else
        (let (i, ss1) = reserve_id ss in
         if i < 0 then (- 1, ss1) else (i, send_request (ReqOpen i port opaque a) ss1)))"

definition free_buffer :: "os \<Rightarrow> addr \<Rightarrow> int \<Rightarrow> socket_server \<Rightarrow> socket_server" where
  "free_buffer os buffer sz ss = (let (_, _, user) = send_object_init os buffer sz in syscall (free_object user buffer) ss)"

definition socket_server_send :: "os \<Rightarrow> int \<Rightarrow> addr \<Rightarrow> int \<Rightarrow> socket_server \<Rightarrow> int \<times> socket_server" where
  "socket_server_send os i buffer sz ss =
     (let s = ss_slot ss (HASH_ID i) in
      if s_id s \<noteq> i \<or> s_type s = SOCKET_TYPE_INVALID then (- 1, free_buffer os buffer sz ss)
      else (s_wb_size s, send_request (ReqSend True \<lparr>rs_id = i, rs_sz = sz, rs_buffer = buffer\<rparr>) ss))"

definition socket_server_send_lowpriority :: "os \<Rightarrow> int \<Rightarrow> addr \<Rightarrow> int \<Rightarrow> socket_server \<Rightarrow> socket_server" where
  "socket_server_send_lowpriority os i buffer sz ss =
     (let s = ss_slot ss (HASH_ID i) in
      if s_id s \<noteq> i \<or> s_type s = SOCKET_TYPE_INVALID then free_buffer os buffer sz ss
      else send_request (ReqSend False \<lparr>rs_id = i, rs_sz = sz, rs_buffer = buffer\<rparr>) ss)"

definition socket_server_exit :: "socket_server \<Rightarrow> socket_server" where
  "socket_server_exit ss = send_request ReqExit ss"

definition socket_server_close :: "nat \<Rightarrow> int \<Rightarrow> socket_server \<Rightarrow> socket_server" where
  "socket_server_close opaque i ss = send_request (ReqClose i False opaque) ss"

definition socket_server_shutdown :: "nat \<Rightarrow> int \<Rightarrow> socket_server \<Rightarrow> socket_server" where
  "socket_server_shutdown opaque i ss = send_request (ReqClose i True opaque) ss"

text \<open>\<open>do_bind\<close> on the first address that is found: the descriptor and whether it is of IPv6, or nothing.\<close>

definition do_bind :: "os \<Rightarrow> cstring option \<Rightarrow> int \<Rightarrow> socket_server \<Rightarrow> ((int \<times> bool) option \<times> socket_server) option" where
  "do_bind os host port ss =
     (let h = (case host of None \<Rightarrow> bytes ''0.0.0.0'' | Some a \<Rightarrow> if a = [] then bytes ''0.0.0.0'' else a); ss1 = tick ss in
      case os_getaddrinfo os (ss_time ss) h (fmt_d port) of
        Inl _ \<Rightarrow> Some (None, ss1)
      | Inr [] \<Rightarrow> None
      | Inr ((v4, a, _) # _) \<Rightarrow>
          (case os_socket os (ss_time ss1) v4 of
             Fail _ \<Rightarrow> Some (None, tick ss1)
           | Ret fd \<Rightarrow>
               if fd < 0 then Some (None, tick ss1)
               else
                 (let ss2 = tick ss1 in
                  case os_reuse os (ss_time ss2) fd of
                    Fail _ \<Rightarrow> Some (None, syscall (SysClose fd) (tick ss2))
                  | Ret _ \<Rightarrow>
                      (let ss3 = tick ss2 in
                       case os_bind os (ss_time ss3) fd a of
                         Fail _ \<Rightarrow> Some (None, syscall (SysClose fd) (tick ss3))
                       | Ret _ \<Rightarrow> Some (Some (fd, \<not> v4), tick ss3)))))"

definition do_listen :: "os \<Rightarrow> cstring option \<Rightarrow> int \<Rightarrow> int \<Rightarrow> socket_server \<Rightarrow> (int option \<times> socket_server) option" where
  "do_listen os host port backlog ss = do {
     (r, ss1) \<leftarrow> do_bind os host port ss;
     (case r of
        None \<Rightarrow> Some (None, ss1)
      | Some (fd, _) \<Rightarrow>
          (case os_listen os (ss_time ss1) fd backlog of
             Fail _ \<Rightarrow> Some (None, syscall (SysClose fd) (tick ss1))
           | Ret _ \<Rightarrow> Some (Some fd, tick ss1))) }"

definition socket_server_listen :: "os \<Rightarrow> nat \<Rightarrow> cstring option \<Rightarrow> int \<Rightarrow> int \<Rightarrow> socket_server \<Rightarrow> (int \<times> socket_server) option" where
  "socket_server_listen os opaque a port backlog ss = do {
     (r, ss1) \<leftarrow> do_listen os a port backlog ss;
     (case r of
        None \<Rightarrow> Some (- 1, ss1)
      | Some fd \<Rightarrow>
          (let (i, ss2) = reserve_id ss1
           in Some (if i < 0 then (i, syscall (SysClose fd) ss2) else (i, send_request (ReqListen i fd opaque) ss2)))) }"

definition socket_server_bind :: "nat \<Rightarrow> int \<Rightarrow> socket_server \<Rightarrow> int \<times> socket_server" where
  "socket_server_bind opaque fd ss =
     (let (i, ss1) = reserve_id ss in if i < 0 then (- 1, ss1) else (i, send_request (ReqBind i fd opaque) ss1))"

definition socket_server_start :: "nat \<Rightarrow> int \<Rightarrow> socket_server \<Rightarrow> socket_server" where
  "socket_server_start opaque i ss = send_request (ReqStart i opaque) ss"

definition TCP_NODELAY :: int where "TCP_NODELAY = 1"

definition socket_server_nodelay :: "int \<Rightarrow> socket_server \<Rightarrow> socket_server" where
  "socket_server_nodelay i ss = send_request (ReqSetopt i TCP_NODELAY 1) ss"

definition socket_server_udp :: "os \<Rightarrow> nat \<Rightarrow> cstring option \<Rightarrow> int \<Rightarrow> socket_server \<Rightarrow> (int \<times> socket_server) option" where
  "socket_server_udp os opaque a port ss = do {
     (r, ss1) \<leftarrow> (if port \<noteq> 0 \<or> a \<noteq> None then do_bind os a port ss
        else Some (case os_socket os (ss_time ss) True of Ret fd \<Rightarrow> if fd < 0 then None else Some (fd, False) | Fail _ \<Rightarrow> None, tick ss));
     (case r of
        None \<Rightarrow> Some (- 1, ss1)
      | Some (fd, v6) \<Rightarrow>
          (let (i, ss2) = reserve_id (syscall (SysNonblocking fd) ss1)
           in Some (if i < 0 then (- 1, syscall (SysClose fd) ss2) else (i, send_request (ReqUdp i fd v6 opaque) ss2)))) }"

definition address_size :: "byte list \<Rightarrow> nat option option" where
  "address_size a = do {
     ty \<leftarrow> aget a 0;
     Some (if uint ty = PROTOCOL_UDP then Some 7 else if uint ty = PROTOCOL_UDPv6 then Some 19 else None) }"

definition socket_server_udp_send :: "os \<Rightarrow> int \<Rightarrow> byte list \<Rightarrow> addr \<Rightarrow> int \<Rightarrow> socket_server \<Rightarrow> (int \<times> socket_server) option" where
  "socket_server_udp_send os i a buffer sz ss =
     (let s = ss_slot ss (HASH_ID i) in
      if s_id s \<noteq> i \<or> s_type s = SOCKET_TYPE_INVALID then Some (- 1, free_buffer os buffer sz ss)
      else do {
        addrsz \<leftarrow> address_size a;
        Some (case addrsz of
                None \<Rightarrow> (- 1, free_buffer os buffer sz ss)
              | Some n \<Rightarrow> (s_wb_size s, send_request (ReqSendUdp \<lparr>rs_id = i, rs_sz = sz, rs_buffer = buffer\<rparr> (take n a)) ss)) })"

definition socket_server_udp_connect :: "os \<Rightarrow> int \<Rightarrow> cstring \<Rightarrow> int \<Rightarrow> socket_server \<Rightarrow> (int \<times> socket_server) option" where
  "socket_server_udp_connect os i a port ss =
     (case os_getaddrinfo os (ss_time ss) a (fmt_d port) of
        Inl _ \<Rightarrow> Some (- 1, tick ss)
      | Inr [] \<Rightarrow> None
      | Inr ((v4, b, _) # _) \<Rightarrow>
          Some (0, send_request (ReqSetUdp i (gen_udp_address (if v4 then PROTOCOL_UDP else PROTOCOL_UDPv6) b)) (tick ss)))"

definition socket_server_udp_address :: "byte list \<Rightarrow> int \<Rightarrow> (byte list option) option" where
  "socket_server_udp_address data ud = do {
     let address = drop (nat ud) data;
     n \<leftarrow> address_size address;
     Some (map_option (\<lambda>k. take k address) n) }"


section \<open>What is written\<close>

fun written :: "int \<Rightarrow> sys_call list \<Rightarrow> byte list" where
  "written fd [] = []"
| "written fd (SysWrite f b # cs) = (if f = fd then b else []) @ written fd cs"
| "written fd (_ # cs) = written fd cs"

lemma written_append [simp]: "written fd (xs @ ys) = written fd xs @ written fd ys"
  by (induction fd xs rule: written.induct) auto

definition wb_bytes :: "os \<Rightarrow> write_buffer \<Rightarrow> byte list" where
  "wb_bytes os wb = bytes_at os (wb_ptr wb) (wb_sz wb)"

definition list_bytes :: "os \<Rightarrow> write_buffer list \<Rightarrow> byte list" where
  "list_bytes os l = concat (map (wb_bytes os) l)"

lemma list_bytes_simps [simp]:
  "list_bytes os [] = []" "list_bytes os (wb # l) = wb_bytes os wb @ list_bytes os l" "list_bytes os (l @ m) = list_bytes os l @ list_bytes os m"
  by (simp_all add: list_bytes_def)

lemma length_bytes_at [simp]: "length (bytes_at os p n) = nat n"
  by (simp add: bytes_at_def)

lemma bytes_at_split:
  assumes "0 \<le> n" "n \<le> m"
  shows "bytes_at os p m = bytes_at os p n @ bytes_at os (p + nat n) (m - n)" "take (nat n) (bytes_at os p m) = bytes_at os p n"
proof -
  have "nat m = nat n + nat (m - n)" using assms by simp
  moreover have "[0..<a + b] = [0..<a] @ map (\<lambda>i. a + i) [0..<b]" for a b :: nat
    by (induction b) simp_all
  ultimately show eq: "bytes_at os p m = bytes_at os p n @ bytes_at os (p + nat n) (m - n)"
    by (simp add: bytes_at_def add.assoc)
  show "take (nat n) (bytes_at os p m) = bytes_at os p n" unfolding eq by simp
qed

text \<open>A buffer of which \<open>n\<close> bytes have been written, and what is left of a list after some of it was.\<close>

definition advance :: "int \<Rightarrow> write_buffer \<Rightarrow> write_buffer" where
  "advance n wb = wb\<lparr>wb_ptr := wb_ptr wb + nat n, wb_sz := wb_sz wb - n\<rparr>"

definition left_of :: "write_buffer list \<Rightarrow> write_buffer list \<Rightarrow> bool" where
  "left_of l l' \<longleftrightarrow> l' = [] \<or> (\<exists>pre wb rest n. l = pre @ wb # rest \<and> l' = advance n wb # rest \<and> 0 \<le> n \<and> n \<le> wb_sz wb)"

lemma advance_0 [simp]: "advance 0 wb = wb"
  by (simp add: advance_def)

lemma left_of_refl: "\<forall>wb \<in> set l. 0 \<le> wb_sz wb \<Longrightarrow> left_of l l"
  unfolding left_of_def by (cases l) (auto intro!: exI [of _ 0] exI [of _ "[]"])

lemma left_of_Cons: "left_of l l' \<Longrightarrow> left_of (wb # l) l'"
  unfolding left_of_def by (metis append_Cons)

lemma wb_bytes_advance: "0 \<le> n \<Longrightarrow> n \<le> wb_sz wb \<Longrightarrow> wb_bytes os wb = bytes_at os (wb_ptr wb) n @ wb_bytes os (advance n wb)"
  using bytes_at_split(1) [of n "wb_sz wb" os "wb_ptr wb"] by (simp add: wb_bytes_def advance_def)

text \<open>What the code relies on of \<open>write\<close>: it writes at most what it is given, and is not interrupted for ever.\<close>

definition os_ok :: "os \<Rightarrow> bool" where
  "os_ok os \<longleftrightarrow> (\<forall>t fd b n. os_write os t fd b = Ret n \<longrightarrow> 0 \<le> n \<and> n \<le> int (length b)) \<and>
     (\<forall>t. \<exists>d. \<forall>fd b. os_write os (t + d) fd b \<noteq> Fail EINTR)"

lemma os_writeD: "os_ok os \<Longrightarrow> os_write os t fd b = Ret n \<Longrightarrow> 0 \<le> n \<and> n \<le> int (length b)"
  by (simp add: os_ok_def)

lemma ss_simps [simp]:
  "ss_slot (tick ss) = ss_slot ss" "ss_calls (tick ss) = ss_calls ss" "ss_time (tick ss) = ss_time ss + 1"
  "ss_slot (syscall c ss) = ss_slot ss" "ss_calls (syscall c ss) = ss_calls ss @ [c]" "ss_time (syscall c ss) = ss_time ss"
  "ss_slot (put_slot k s ss) = (ss_slot ss)(k := s)" "ss_calls (put_slot k s ss) = ss_calls ss" "ss_time (put_slot k s ss) = ss_time ss"
  "ss_slot (put_result r ss) = ss_slot ss" "ss_calls (put_result r ss) = ss_calls ss"
  by (simp_all add: tick_def syscall_def put_slot_def put_result_def)

lemma free_wb_list_simps [simp]:
  "ss_slot (free_wb_list l ss) = ss_slot ss" "written fd (ss_calls (free_wb_list l ss)) = written fd (ss_calls ss)"
  by (induction l arbitrary: ss) (simp_all add: write_buffer_free_def free_object_def)

definition live :: "socket \<Rightarrow> bool" where
  "live s \<longleftrightarrow> s_type s \<noteq> SOCKET_TYPE_INVALID \<and> s_type s \<noteq> SOCKET_TYPE_RESERVE"

lemma force_close_spec:
  assumes "live (ss_slot ss k)"
  shows "\<exists>ss'. force_close k ss = Some ss' \<and> ss_slot ss' = (ss_slot ss)(k := (ss_slot ss k)\<lparr>s_high := [], s_low := [], s_type := SOCKET_TYPE_INVALID\<rparr>) \<and>
    written fd (ss_calls ss') = written fd (ss_calls ss)"
  using assms by (simp add: force_close_def live_def Let_def)

lemma wlist_set [simp]: "wlist h (set_wlist h l s) = l" "live (set_wlist h l s) = live s" "s_fd (set_wlist h l s) = s_fd s" "s_type (set_wlist h l s) = s_type s"
  "set_wlist h l (set_wlist h l' s) = set_wlist h l s" "s_wb_size (set_wlist h l s) = s_wb_size s"
  by (simp_all add: wlist_def set_wlist_def live_def)

lemma live_size [simp]: "live (s\<lparr>s_wb_size := n\<rparr>) = live s" "wlist h (s\<lparr>s_wb_size := n\<rparr>) = wlist h s"
  by (simp_all add: live_def wlist_def)

text \<open>How a call of \<open>send_list_tcp\<close> ends: a prefix of the list is written, and either the rest is left or the socket is closed.\<close>

definition sends :: "os \<Rightarrow> bool \<Rightarrow> nat \<Rightarrow> socket_server \<Rightarrow> int \<Rightarrow> socket_server \<Rightarrow> bool" where
  "sends os high k ss r ss' \<longleftrightarrow>
     (let s = ss_slot ss k; s' = ss_slot ss' k in
      \<exists>W rest. written (s_fd s) (ss_calls ss') = written (s_fd s) (ss_calls ss) @ W \<and> W @ rest = list_bytes os (wlist high s) \<and>
        (r = SOCKET_CLOSE \<and> s_type s' = SOCKET_TYPE_INVALID \<and> s_id s' = s_id s \<or>
         r = - 1 \<and> (\<exists>l. s' = (set_wlist high l s)\<lparr>s_wb_size := s_wb_size s - int (length W)\<rparr> \<and> rest = list_bytes os l \<and> left_of (wlist high s) l)))"

text \<open>One answer of \<open>write\<close> other than an interruption, given that the rest of the list can be sent.\<close>

lemma send_list_tcp_step:
  assumes os: "os_ok os" and live: "live (ss_slot ss k)" and wb: "wlist high (ss_slot ss k) = wb # l" and sz: "\<forall>w \<in> set (wb # l). 0 \<le> wb_sz w"
    and wr: "os_write os (ss_time ss) (s_fd (ss_slot ss k)) (bytes_at os (wb_ptr wb) (wb_sz wb)) \<noteq> Fail EINTR"
    and rest: "\<And>ss1. live (ss_slot ss1 k) \<Longrightarrow> wlist high (ss_slot ss1 k) = l \<Longrightarrow> \<exists>r ss'. send_list_tcp os high k ss1 = Some (r, ss') \<and> sends os high k ss1 r ss'"
  shows "\<exists>r ss'. send_list_tcp os high k ss = Some (r, ss') \<and> sends os high k ss r ss'"
proof (cases "os_write os (ss_time ss) (s_fd (ss_slot ss k)) (bytes_at os (wb_ptr wb) (wb_sz wb))")
  case (Fail e)
  define s where "s = ss_slot ss k"
  show ?thesis
  proof (cases "e = EAGAIN")
    case True
    have "(set_wlist high (wb # l) s)\<lparr>s_wb_size := s_wb_size s\<rparr> = s" using wb by (auto simp: s_def wlist_def set_wlist_def)
    then have "sends os high k ss (- 1) (tick ss)"
      using wb left_of_refl [OF sz] by (auto simp: sends_def s_def [symmetric] intro!: exI [of _ "wb # l"])
    then show ?thesis using True Fail wb by (subst send_list_tcp.simps) simp
  next
    case False
    obtain ss' where "force_close k (tick ss) = Some ss'" "s_type (ss_slot ss' k) = SOCKET_TYPE_INVALID" "s_id (ss_slot ss' k) = s_id (ss_slot ss k)"
        "written (s_fd (ss_slot ss k)) (ss_calls ss') = written (s_fd (ss_slot ss k)) (ss_calls ss)"
      using force_close_spec [of "tick ss" k "s_fd (ss_slot ss k)"] live by auto
    then show ?thesis using False Fail wb wr by (subst send_list_tcp.simps) (simp add: sends_def)
  qed
next
  case (Ret n)
  define s where "s = ss_slot ss k"
  have n: "0 \<le> n" "n \<le> wb_sz wb" using os_writeD [OF os Ret] sz by simp_all
  note split = bytes_at_split [OF n, of os "wb_ptr wb"]
  define ss1 where "ss1 = syscall (SysWrite (s_fd s) (bytes_at os (wb_ptr wb) n)) (tick ss)"
  define s1 where "s1 = s\<lparr>s_wb_size := s_wb_size s - n\<rparr>"
  show ?thesis
  proof (cases "n = wb_sz wb")
    case False
    define ss' where "ss' = put_slot k (set_wlist high (advance n wb # l) s1) ss1"
    have "send_list_tcp os high k ss = Some (- 1, ss')"
      using False Ret wb split(2) by (subst send_list_tcp.simps) (simp add: Let_def ss'_def ss1_def s1_def s_def advance_def)
    moreover have "set_wlist high (advance n wb # l) s1 = (set_wlist high (advance n wb # l) s)\<lparr>s_wb_size := s_wb_size s - n\<rparr>"
      by (simp add: s1_def set_wlist_def)
    moreover have "left_of (wb # l) (advance n wb # l)"
      unfolding left_of_def using n by (intro disjI2 exI [of _ "[]"] exI [of _ wb] exI [of _ l] exI [of _ n]) simp
    ultimately show ?thesis
      using wb_bytes_advance [OF n, of os] wb n(1)
      by (auto simp: sends_def ss'_def ss1_def s_def [symmetric] intro!: exI [of _ "bytes_at os (wb_ptr wb) n"] exI [of _ "advance n wb # l"])
  next
    case True
    define ss2 where "ss2 = write_buffer_free wb (put_slot k (set_wlist high l s1) ss1)"
    have "send_list_tcp os high k ss = send_list_tcp os high k ss2"
      using True Ret wb split(2) by (subst send_list_tcp.simps) (simp add: Let_def ss2_def ss1_def s1_def s_def)
    moreover have k2: "ss_slot ss2 k = set_wlist high l s1" "written fd (ss_calls ss2) = written fd (ss_calls ss) @ (if fd = s_fd s then wb_bytes os wb else [])" for fd
      using True by (simp_all add: ss2_def ss1_def write_buffer_free_def free_object_def wb_bytes_def)
    moreover have "live (ss_slot ss2 k)" "wlist high (ss_slot ss2 k) = l" using live by (simp_all add: k2 s1_def s_def)
    then obtain r ss' where r: "send_list_tcp os high k ss2 = Some (r, ss')" "sends os high k ss2 r ss'" using rest by blast
    have fd: "s_fd (ss_slot ss2 k) = s_fd s" "s_id (ss_slot ss2 k) = s_id s" by (simp_all add: k2 s1_def set_wlist_def)
    obtain W rs where W: "written (s_fd s) (ss_calls ss') = written (s_fd s) (ss_calls ss2) @ W" "W @ rs = list_bytes os l"
        "r = SOCKET_CLOSE \<and> s_type (ss_slot ss' k) = SOCKET_TYPE_INVALID \<and> s_id (ss_slot ss' k) = s_id s \<or>
         r = - 1 \<and> (\<exists>l'. ss_slot ss' k = (set_wlist high l' (ss_slot ss2 k))\<lparr>s_wb_size := s_wb_size (ss_slot ss2 k) - int (length W)\<rparr> \<and>
           rs = list_bytes os l' \<and> left_of l l')"
      using r(2) \<open>wlist high (ss_slot ss2 k) = l\<close> unfolding sends_def Let_def fd by blast
    have "(set_wlist high l' (ss_slot ss2 k))\<lparr>s_wb_size := s_wb_size (ss_slot ss2 k) - int (length W)\<rparr> =
        (set_wlist high l' s)\<lparr>s_wb_size := s_wb_size s - int (length (wb_bytes os wb @ W))\<rparr>" for l'
      using True n by (simp add: k2 s1_def set_wlist_def wb_bytes_def)
    then have "sends os high k ss r ss'"
      unfolding sends_def Let_def s_def [symmetric] using W k2(2) wb left_of_Cons [of l _ wb] fd
      by (intro exI [of _ "wb_bytes os wb @ W"] exI [of _ rs]) (auto simp: s_def)
    then show ?thesis using r(1) \<open>send_list_tcp os high k ss = send_list_tcp os high k ss2\<close> by simp
  qed
qed

lemma send_list_tcp_spec:
  assumes "os_ok os" "live (ss_slot ss k)" "\<forall>wb \<in> set (wlist high (ss_slot ss k)). 0 \<le> wb_sz wb"
  shows "\<exists>r ss'. send_list_tcp os high k ss = Some (r, ss') \<and> sends os high k ss r ss'"
proof -
  have fair: "\<exists>d. \<forall>fd b. os_write os (t + d) fd b \<noteq> Fail EINTR" for t using assms(1) by (simp add: os_ok_def)
  have "\<exists>r ss'. send_list_tcp os high k ss = Some (r, ss') \<and> sends os high k ss r ss'"
    if "live (ss_slot ss k)" "wlist high (ss_slot ss k) = l" "\<forall>wb \<in> set l. 0 \<le> wb_sz wb" for l ss
    using that
  proof (induction l arbitrary: ss)
    case Nil
    have "(set_wlist high [] (ss_slot ss k))\<lparr>s_wb_size := s_wb_size (ss_slot ss k)\<rparr> = ss_slot ss k"
      using Nil.prems(2) by (simp add: wlist_def set_wlist_def split: if_splits)
    then show ?case using Nil.prems(2) by (subst send_list_tcp.simps) (simp add: sends_def left_of_def)
  next
    case (Cons wb l)
    have step: "\<exists>r ss'. send_list_tcp os high k ss = Some (r, ss') \<and> sends os high k ss r ss'" if "live (ss_slot ss k)" "wlist high (ss_slot ss k) = wb # l"
        "os_write os (ss_time ss) (s_fd (ss_slot ss k)) (bytes_at os (wb_ptr wb) (wb_sz wb)) \<noteq> Fail EINTR" for ss
      by (rule send_list_tcp_step [OF assms(1) that(1,2) Cons.prems(3) that(3)]) (use Cons.IH Cons.prems(3) in simp)
    obtain d where d: "\<forall>fd b. os_write os (ss_time ss + d) fd b \<noteq> Fail EINTR" using fair by blast
    from d Cons.prems(1,2) show ?case
    proof (induction d arbitrary: ss)
      case 0
      then show ?case by (intro step) simp_all
    next
      case (Suc d)
      show ?case
      proof (cases "os_write os (ss_time ss) (s_fd (ss_slot ss k)) (bytes_at os (wb_ptr wb) (wb_sz wb)) = Fail EINTR")
        case True
        then have "send_list_tcp os high k ss = send_list_tcp os high k (tick ss)" using Suc.prems(3) by (subst send_list_tcp.simps) simp
        moreover have "sends os high k (tick ss) r ss' = sends os high k ss r ss'" for r ss' by (simp add: sends_def)
        ultimately show ?thesis using Suc.IH [of "tick ss"] Suc.prems by simp
      next
        case False
        then show ?thesis using Suc.prems by (intro step)
      qed
    qed
  qed
  then show ?thesis using assms(2,3) by blast
qed


section \<open>Order of the packages\<close>

text \<open>The packages that were accepted appear in the stream whole and one after the other, those of each priority in the
  order of their requests: \<open>D\<close> are the packages whose bytes are written or in the high list, \<open>Ls\<close> the packages of low priority among them.\<close>

definition ordered :: "os \<Rightarrow> socket \<Rightarrow> byte list \<Rightarrow> byte list list \<Rightarrow> byte list list \<Rightarrow> bool" where
  "ordered os s W H L \<longleftrightarrow> (\<exists>D Ls. D \<in> shuffles H Ls \<and> concat D = W @ list_bytes os (s_high s) \<and> L = Ls @ map (wb_bytes os) (s_low s))"

definition unsent :: "os \<Rightarrow> socket \<Rightarrow> byte list" where
  "unsent os s = list_bytes os (s_high s @ s_low s)"

definition tcp_ok :: "os \<Rightarrow> socket \<Rightarrow> bool" where
  "tcp_ok os s \<longleftrightarrow> live s \<and> s_protocol s = PROTOCOL_TCP \<and> (\<forall>wb \<in> set (s_high s @ s_low s). 0 \<le> wb_sz wb) \<and>
     (\<forall>wb \<in> set (s_low s). wb_ptr wb = wb_buffer wb) \<and> s_wb_size s = int (length (unsent os s))"

lemma shuffles_snoc_left: "D \<in> shuffles H L \<Longrightarrow> D @ [p] \<in> shuffles (H @ [p]) L"
proof (induction H L arbitrary: D rule: shuffles.induct)
  case (1 ys)
  then show ?case by (induction ys arbitrary: D) (auto simp: Cons_in_shuffles_iff)
next
  case (3 x xs y ys)
  then show ?case by (cases D) (auto simp: Cons_in_shuffles_iff)
qed auto

lemma shuffles_append_right: "D \<in> shuffles H L \<Longrightarrow> D @ ps \<in> shuffles H (L @ ps)"
proof (induction ps arbitrary: D L)
  case (Cons p ps)
  have "D @ [p] \<in> shuffles H (L @ [p])"
    using shuffles_snoc_left [of D L H p] Cons.prems by (simp add: shuffles_commutes)
  then show ?case using Cons.IH by fastforce
qed simp

lemma ordered_unsent:
  assumes "ordered os s W H L"
  shows "\<exists>D \<in> shuffles H L. W @ unsent os s = concat D"
proof -
  obtain D Ls where D: "D \<in> shuffles H Ls" "concat D = W @ list_bytes os (s_high s)" "L = Ls @ map (wb_bytes os) (s_low s)"
    using assms unfolding ordered_def by blast
  then have "W @ unsent os s = concat (D @ map (wb_bytes os) (s_low s))" by (simp add: unsent_def) (simp add: list_bytes_def)
  then show ?thesis using shuffles_append_right [OF D(1)] D(3) by blast
qed

lemma left_of_cases:
  assumes "left_of l l'"
  obtains "l' = []" | pre wb rest n where "l = pre @ wb # rest" "l' = advance n wb # rest" "0 \<le> n" "n \<le> wb_sz wb"
  using assms unfolding left_of_def by blast

lemma left_of_sz: "left_of l l' \<Longrightarrow> \<forall>wb \<in> set l. 0 \<le> wb_sz wb \<Longrightarrow> \<forall>wb \<in> set l'. 0 \<le> wb_sz wb"
  by (erule left_of_cases) (auto simp: advance_def)

text \<open>How writing ends: the socket is closed after a prefix of what was waiting, or the order of the packages is kept.\<close>

definition writes :: "os \<Rightarrow> nat \<Rightarrow> socket_server \<Rightarrow> int \<Rightarrow> socket_server \<Rightarrow> bool" where
  "writes os k ss r ss' \<longleftrightarrow>
     (let s = ss_slot ss k; s' = ss_slot ss' k in
      \<exists>W. written (s_fd s) (ss_calls ss') = written (s_fd s) (ss_calls ss) @ W \<and> s_id s' = s_id s \<and>
        (r = SOCKET_CLOSE \<and> s_type s' = SOCKET_TYPE_INVALID \<and> (\<exists>rest. W @ rest = unsent os s) \<or>
         r = - 1 \<and> tcp_ok os s' \<and> s_fd s' = s_fd s \<and> s_type s' = s_type s \<and> W @ unsent os s' = unsent os s \<and>
           (\<forall>W0 H L. ordered os s W0 H L \<longrightarrow> ordered os s' (W0 @ W) H L)))"

text \<open>The low list after the high list is empty.\<close>

lemma send_low_ordered:
  assumes s: "s_high s = []" "\<forall>wb \<in> set (s_low s). 0 \<le> wb_sz wb \<and> wb_ptr wb = wb_buffer wb" and l: "left_of (s_low s) l" "W @ list_bytes os l = list_bytes os (s_low s)"
    and ord: "ordered os s W0 H L"
  shows "list_uncomplete l \<Longrightarrow> s_high s' = [hd l] \<Longrightarrow> s_low s' = tl l \<Longrightarrow> ordered os s' (W0 @ W) H L"
    and "\<not> list_uncomplete l \<Longrightarrow> s_high s' = [] \<Longrightarrow> s_low s' = l \<Longrightarrow> ordered os s' (W0 @ W) H L"
proof -
  obtain D Ls where D: "D \<in> shuffles H Ls" "concat D = W0" "L = Ls @ map (wb_bytes os) (s_low s)"
    using ord s(1) by (auto simp: ordered_def)
  have app: "D @ map (wb_bytes os) ps \<in> shuffles H (Ls @ map (wb_bytes os) ps)" for ps using shuffles_append_right [OF D(1)] .
  show "ordered os s' (W0 @ W) H L" if "list_uncomplete l" "s_high s' = [hd l]" "s_low s' = tl l"
    using l(1)
  proof (cases rule: left_of_cases)
    case (2 pre wb rest n)
    then have "W @ wb_bytes os (advance n wb) = list_bytes os (pre @ [wb])" using l(2) by simp
    then show ?thesis unfolding ordered_def
      by (intro exI [of _ "D @ map (wb_bytes os) (pre @ [wb])"] exI [of _ "Ls @ map (wb_bytes os) (pre @ [wb])"])
        (use 2 that D app [of "pre @ [wb]"] in \<open>simp add: list_bytes_def\<close>)
  qed (use that in \<open>simp add: list_uncomplete_def\<close>)
  show "ordered os s' (W0 @ W) H L" if "\<not> list_uncomplete l" "s_high s' = []" "s_low s' = l"
    using l(1)
  proof (cases rule: left_of_cases)
    case 1
    then show ?thesis unfolding ordered_def
      by (intro exI [of _ "D @ map (wb_bytes os) (s_low s)"] exI [of _ "Ls @ map (wb_bytes os) (s_low s)"])
        (use that D app [of "s_low s"] l(2) in \<open>simp add: list_bytes_def\<close>)
  next
    case (2 pre wb rest n)
    then have "n = 0" using that(1) s(2) by (simp add: list_uncomplete_def advance_def)
    then have "W = list_bytes os pre" using l(2) 2 by simp
    then show ?thesis unfolding ordered_def
      by (intro exI [of _ "D @ map (wb_bytes os) pre"] exI [of _ "Ls @ map (wb_bytes os) pre"])
        (use 2 \<open>n = 0\<close> that D app [of pre] in \<open>simp add: list_bytes_def\<close>)
  qed
qed

lemma left_of_whole:
  assumes "\<forall>wb \<in> set l. wb_ptr wb = wb_buffer wb" "left_of l l'"
  shows "\<forall>wb \<in> set (tl l'). wb_ptr wb = wb_buffer wb" "\<not> list_uncomplete l' \<Longrightarrow> \<forall>wb \<in> set l'. wb_ptr wb = wb_buffer wb"
proof -
  show tl: "\<forall>wb \<in> set (tl l'). wb_ptr wb = wb_buffer wb" using assms(2) by (cases rule: left_of_cases) (use assms(1) in auto)
  show "\<forall>wb \<in> set l'. wb_ptr wb = wb_buffer wb" if "\<not> list_uncomplete l'"
    using tl that by (cases l') (auto simp: list_uncomplete_def)
qed

lemma unsent_simps: "unsent os s = list_bytes os (s_high s) @ list_bytes os (s_low s)"
  by (simp add: unsent_def)

lemma writes_closeI:
  assumes "written (s_fd (ss_slot ss k)) (ss_calls ss') = written (s_fd (ss_slot ss k)) (ss_calls ss) @ W" "s_id (ss_slot ss' k) = s_id (ss_slot ss k)"
    "s_type (ss_slot ss' k) = SOCKET_TYPE_INVALID" "W @ rest = unsent os (ss_slot ss k)"
  shows "writes os k ss SOCKET_CLOSE ss'"
  unfolding writes_def Let_def using assms by blast

lemma writes_keepI:
  assumes "written (s_fd (ss_slot ss k)) (ss_calls ss') = written (s_fd (ss_slot ss k)) (ss_calls ss) @ W" "s_id (ss_slot ss' k) = s_id (ss_slot ss k)"
    "s_fd (ss_slot ss' k) = s_fd (ss_slot ss k)" "s_type (ss_slot ss' k) = s_type (ss_slot ss k)" "tcp_ok os (ss_slot ss' k)"
    "W @ unsent os (ss_slot ss' k) = unsent os (ss_slot ss k)"
    "\<And>W0 H L. ordered os (ss_slot ss k) W0 H L \<Longrightarrow> ordered os (ss_slot ss' k) (W0 @ W) H L"
  shows "writes os k ss (- 1) ss'"
  unfolding writes_def Let_def using assms by blast

lemma writes_keepE:
  assumes "writes os k ss (- 1) ss'"
  obtains W where "written (s_fd (ss_slot ss k)) (ss_calls ss') = written (s_fd (ss_slot ss k)) (ss_calls ss) @ W" "s_id (ss_slot ss' k) = s_id (ss_slot ss k)"
    "s_fd (ss_slot ss' k) = s_fd (ss_slot ss k)" "s_type (ss_slot ss' k) = s_type (ss_slot ss k)" "tcp_ok os (ss_slot ss' k)"
    "W @ unsent os (ss_slot ss' k) = unsent os (ss_slot ss k)"
    "\<And>W0 H L. ordered os (ss_slot ss k) W0 H L \<Longrightarrow> ordered os (ss_slot ss' k) (W0 @ W) H L"
  using assms unfolding writes_def Let_def SOCKET_CLOSE_def by auto

lemma writes_trans:
  assumes "writes os k ss (- 1) ss1" "writes os k ss1 r ss2"
  shows "writes os k ss r ss2"
proof -
  obtain W1 where W1: "written (s_fd (ss_slot ss k)) (ss_calls ss1) = written (s_fd (ss_slot ss k)) (ss_calls ss) @ W1" "s_id (ss_slot ss1 k) = s_id (ss_slot ss k)"
    "s_fd (ss_slot ss1 k) = s_fd (ss_slot ss k)" "s_type (ss_slot ss1 k) = s_type (ss_slot ss k)" "tcp_ok os (ss_slot ss1 k)"
    "W1 @ unsent os (ss_slot ss1 k) = unsent os (ss_slot ss k)"
    "\<And>W0 H L. ordered os (ss_slot ss k) W0 H L \<Longrightarrow> ordered os (ss_slot ss1 k) (W0 @ W1) H L"
    using writes_keepE [OF assms(1)] by blast
  obtain W2 where W2: "written (s_fd (ss_slot ss k)) (ss_calls ss2) = written (s_fd (ss_slot ss k)) (ss_calls ss1) @ W2" "s_id (ss_slot ss2 k) = s_id (ss_slot ss1 k)"
    and r: "r = SOCKET_CLOSE \<and> s_type (ss_slot ss2 k) = SOCKET_TYPE_INVALID \<and> (\<exists>rest. W2 @ rest = unsent os (ss_slot ss1 k)) \<or>
       r = - 1 \<and> writes os k ss1 (- 1) ss2"
    using assms(2) W1(3) unfolding writes_def Let_def by metis
  from r show ?thesis
  proof (elim disjE conjE exE)
    fix rest assume "r = SOCKET_CLOSE" "s_type (ss_slot ss2 k) = SOCKET_TYPE_INVALID" "W2 @ rest = unsent os (ss_slot ss1 k)"
    then show ?thesis using writes_closeI [of ss k ss2 "W1 @ W2" rest os] W1 W2 by simp
  next
    assume r: "r = - 1" "writes os k ss1 (- 1) ss2"
    then obtain W2 where W2: "written (s_fd (ss_slot ss1 k)) (ss_calls ss2) = written (s_fd (ss_slot ss1 k)) (ss_calls ss1) @ W2" "s_id (ss_slot ss2 k) = s_id (ss_slot ss1 k)"
      "s_fd (ss_slot ss2 k) = s_fd (ss_slot ss1 k)" "s_type (ss_slot ss2 k) = s_type (ss_slot ss1 k)" "tcp_ok os (ss_slot ss2 k)"
      "W2 @ unsent os (ss_slot ss2 k) = unsent os (ss_slot ss1 k)"
      "\<And>W0 H L. ordered os (ss_slot ss1 k) W0 H L \<Longrightarrow> ordered os (ss_slot ss2 k) (W0 @ W2) H L"
      using writes_keepE [OF r(2)] by blast
    have "ordered os (ss_slot ss2 k) (W0 @ W1 @ W2) H L" if "ordered os (ss_slot ss k) W0 H L" for W0 H L
      using W2(7) [OF W1(7) [OF that]] by simp
    then show ?thesis unfolding r(1) using W1 W2 by (intro writes_keepI [where W = "W1 @ W2"]) simp_all
  qed
qed

lemma tcp_okD:
  assumes "tcp_ok os s"
  shows "live s" "s_protocol s = PROTOCOL_TCP" "\<forall>wb \<in> set (s_high s). 0 \<le> wb_sz wb" "\<forall>wb \<in> set (s_low s). 0 \<le> wb_sz wb \<and> wb_ptr wb = wb_buffer wb"
      "s_wb_size s = int (length (unsent os s))" "\<not> list_uncomplete (s_low s)"
  using assms by (cases "s_low s"; auto simp: tcp_ok_def list_uncomplete_def)+

lemma send_high_spec:
  assumes os: "os_ok os" and ok: "tcp_ok os (ss_slot ss k)"
  shows "\<exists>r ss'. send_list os True k ss = Some (r, ss') \<and> writes os k ss r ss' \<and> (r \<noteq> SOCKET_CLOSE \<longrightarrow> r = - 1 \<and> s_low (ss_slot ss' k) = s_low (ss_slot ss k))"
proof -
  define s where "s = ss_slot ss k"
  note s = tcp_okD [OF ok, folded s_def]
  obtain r ss' where S1: "send_list os True k ss = Some (r, ss')" "sends os True k ss r ss'"
    using send_list_tcp_spec [OF os, of ss k True] s by (auto simp: send_list_def s_def wlist_def)
  obtain W x where W: "written (s_fd s) (ss_calls ss') = written (s_fd s) (ss_calls ss) @ W" "W @ x = list_bytes os (s_high s)"
      "r = SOCKET_CLOSE \<and> s_type (ss_slot ss' k) = SOCKET_TYPE_INVALID \<and> s_id (ss_slot ss' k) = s_id s \<or>
       r = - 1 \<and> (\<exists>l. ss_slot ss' k = s\<lparr>s_high := l, s_wb_size := s_wb_size s - int (length W)\<rparr> \<and> x = list_bytes os l \<and> left_of (s_high s) l)"
    using S1(2) by (auto simp: sends_def s_def wlist_def set_wlist_def Let_def)
  from W(3) show ?thesis
  proof (elim disjE conjE exE)
    assume "r = SOCKET_CLOSE" "s_type (ss_slot ss' k) = SOCKET_TYPE_INVALID" "s_id (ss_slot ss' k) = s_id s"
    then show ?thesis using S1(1) W writes_closeI [of ss k ss' W "x @ list_bytes os (s_low s)" os] by (simp add: unsent_simps s_def)
  next
    fix l assume r: "r = - 1" and s': "ss_slot ss' k = s\<lparr>s_high := l, s_wb_size := s_wb_size s - int (length W)\<rparr>" and x: "x = list_bytes os l" and l: "left_of (s_high s) l"
    have "W @ unsent os (ss_slot ss' k) = unsent os s" using W(2) x by (simp add: s' unsent_simps)
    moreover from arg_cong [OF this, of length] have "tcp_ok os (ss_slot ss' k)"
      using s left_of_sz [OF l] by (auto simp: tcp_ok_def s' live_def)
    moreover have "ordered os (ss_slot ss' k) (W0 @ W) H L" if "ordered os s W0 H L" for W0 H L
      using that W(2) x by (auto simp: ordered_def s')
    ultimately have "writes os k ss (- 1) ss'" using W(1) by (intro writes_keepI [where W = W]) (simp_all add: s' s_def)
    then show ?thesis using S1(1) r by (simp add: s' s_def)
  qed
qed

text \<open>Sending the low list, and raising a buffer that was cut.\<close>

lemma send_low_spec:
  assumes os: "os_ok os" and ok: "tcp_ok os (ss_slot ss k)" and high: "s_high (ss_slot ss k) = []"
  shows "\<exists>r ss'. send_list os False k ss = Some (r, ss') \<and>
    (r = SOCKET_CLOSE \<and> writes os k ss r ss' \<or>
     r = - 1 \<and> (\<exists>ss3. (if list_uncomplete (s_low (ss_slot ss' k)) then raise_uncomplete k ss' else Some ss') = Some ss3 \<and> writes os k ss (- 1) ss3))"
proof -
  define s where "s = ss_slot ss k"
  note s = tcp_okD [OF ok, folded s_def] and h = high [folded s_def]
  obtain r ss' where S1: "send_list os False k ss = Some (r, ss')" "sends os False k ss r ss'"
    using send_list_tcp_spec [OF os, of ss k False] s by (auto simp: send_list_def s_def wlist_def)
  obtain W x where W: "written (s_fd s) (ss_calls ss') = written (s_fd s) (ss_calls ss) @ W" "W @ x = list_bytes os (s_low s)"
      "r = SOCKET_CLOSE \<and> s_type (ss_slot ss' k) = SOCKET_TYPE_INVALID \<and> s_id (ss_slot ss' k) = s_id s \<or>
       r = - 1 \<and> (\<exists>l. ss_slot ss' k = s\<lparr>s_low := l, s_wb_size := s_wb_size s - int (length W)\<rparr> \<and> x = list_bytes os l \<and> left_of (s_low s) l)"
    using S1(2) by (auto simp: sends_def s_def wlist_def set_wlist_def Let_def)
  from W(3) show ?thesis
  proof (elim disjE conjE exE)
    assume "r = SOCKET_CLOSE" "s_type (ss_slot ss' k) = SOCKET_TYPE_INVALID" "s_id (ss_slot ss' k) = s_id s"
    then show ?thesis using S1(1) W h writes_closeI [of ss k ss' W x os] by (simp add: unsent_simps s_def)
  next
    fix l assume r: "r = - 1" and s': "ss_slot ss' k = s\<lparr>s_low := l, s_wb_size := s_wb_size s - int (length W)\<rparr>" and x: "x = list_bytes os l" and l: "left_of (s_low s) l"
    define s3 where "s3 = (if list_uncomplete l then (ss_slot ss' k)\<lparr>s_low := tl l, s_high := [hd l]\<rparr> else ss_slot ss' k)"
    define ss3 where "ss3 = (if list_uncomplete l then put_slot k s3 ss' else ss')"
    have k3: "ss_slot ss3 k = s3" by (simp add: ss3_def s3_def)
    have cut: "l = hd l # tl l" if "list_uncomplete l" using that by (cases l) (auto simp: list_uncomplete_def)
    note low = send_low_ordered [OF h s(4) l W(2) [unfolded x]]
    have p3: "W @ unsent os s3 = unsent os s"
      using W(2) x h cut by (cases l) (auto simp: s3_def s' unsent_simps list_uncomplete_def)
    have "s_fd s3 = s_fd s" "s_id s3 = s_id s" "s_type s3 = s_type s" "live s3" "s_protocol s3 = PROTOCOL_TCP" "s_wb_size s3 = s_wb_size s - int (length W)"
      using s by (simp_all add: s3_def s' live_def)
    moreover have "\<forall>wb \<in> set (s_high s3 @ s_low s3). 0 \<le> wb_sz wb" "\<forall>wb \<in> set (s_low s3). wb_ptr wb = wb_buffer wb"
    proof -
      have "set (s_high s3 @ s_low s3) = set l" using h cut by (cases l) (auto simp: s3_def s' list_uncomplete_def)
      then show "\<forall>wb \<in> set (s_high s3 @ s_low s3). 0 \<le> wb_sz wb" using left_of_sz [OF l] s(4) by blast
      show "\<forall>wb \<in> set (s_low s3). wb_ptr wb = wb_buffer wb"
        using left_of_whole [OF _ l] s(4) by (cases "list_uncomplete l") (simp_all add: s3_def s')
    qed
    moreover have "s_wb_size s3 = int (length (unsent os s3))" using s(5) calculation(6) arg_cong [OF p3, of length] by simp
    moreover have "ordered os s3 (W0 @ W) H L" if "ordered os s W0 H L" for W0 H L
      using low(1,2) [OF that, of s3] h by (cases "list_uncomplete l") (simp_all add: s3_def s')
    ultimately have "writes os k ss (- 1) ss3"
      using W(1) p3 by (intro writes_keepI [where W = W]) (simp_all add: k3 s_def tcp_ok_def, simp_all add: ss3_def)
    moreover have "(if list_uncomplete (s_low (ss_slot ss' k)) then raise_uncomplete k ss' else Some ss') = Some ss3"
      using cut h by (cases l) (auto simp: s' ss3_def s3_def raise_uncomplete_def Let_def)
    ultimately show ?thesis using S1(1) r by blast
  qed
qed

lemma send_buffer_spec:
  assumes os: "os_ok os" and ok: "tcp_ok os (ss_slot ss k)"
  shows "\<exists>r ss'. send_buffer os k ss = Some (r, ss') \<and> writes os k ss r ss'"
proof -
  note whole = tcp_okD(6) [OF ok]
  obtain r1 ss1 where S1: "send_list os True k ss = Some (r1, ss1)" "writes os k ss r1 ss1"
      "r1 \<noteq> SOCKET_CLOSE \<longrightarrow> r1 = - 1 \<and> s_low (ss_slot ss1 k) = s_low (ss_slot ss k)"
    using send_high_spec [OF os ok] by blast
  show ?thesis
  proof (cases "r1 = SOCKET_CLOSE")
    case True
    then show ?thesis using S1 whole by (simp add: send_buffer_def)
  next
    case False
    then have w1: "writes os k ss (- 1) ss1" using S1 by simp
    then have ok1: "tcp_ok os (ss_slot ss1 k)" by (elim writes_keepE)
    consider "s_high (ss_slot ss1 k) \<noteq> []" | "s_high (ss_slot ss1 k) = []" "s_low (ss_slot ss1 k) \<noteq> []" | "s_high (ss_slot ss1 k) = []" "s_low (ss_slot ss1 k) = []"
      by blast
    then show ?thesis
    proof cases
      case 1
      then show ?thesis using S1 False whole w1 by (simp add: send_buffer_def)
    next
      case 2
      then show ?thesis using send_low_spec [OF os ok1] writes_trans [OF w1] S1 False whole by (fastforce simp: send_buffer_def SOCKET_CLOSE_def split: if_splits)
    next
      case 3
      define ss2 where "ss2 = syscall (SysSpWrite (s_fd (ss_slot ss1 k)) False) ss1"
      have w2: "writes os k ss1 (- 1) ss2" using ok1 by (intro writes_keepI [where W = "[]"]) (simp_all add: ss2_def)
      have nil: "unsent os (ss_slot ss2 k) = []" using 3 by (simp add: unsent_simps ss2_def)
      obtain ss3 where "force_close k ss2 = Some ss3" "s_type (ss_slot ss3 k) = SOCKET_TYPE_INVALID" "s_id (ss_slot ss3 k) = s_id (ss_slot ss2 k)"
          "written (s_fd (ss_slot ss2 k)) (ss_calls ss3) = written (s_fd (ss_slot ss2 k)) (ss_calls ss2)"
        using force_close_spec [of ss2 k "s_fd (ss_slot ss2 k)"] tcp_okD(1) [OF ok1] by (auto simp: ss2_def)
      moreover from this have "writes os k ss2 SOCKET_CLOSE ss3" using nil by (intro writes_closeI [where W = "[]"]) simp_all
      ultimately show ?thesis
        using S1 False whole 3 writes_trans [OF w1 w2] writes_trans [OF writes_trans [OF w1 w2]] by (cases "s_type (ss_slot ss1 k) = SOCKET_TYPE_HALFCLOSE") (simp_all add: send_buffer_def ss2_def Let_def)
    qed
  qed
qed

section \<open>Requests to send\<close>

definition plain_request :: "int \<Rightarrow> addr \<Rightarrow> int \<Rightarrow> request_send" where
  "plain_request i p n = \<lparr>rs_id = i, rs_sz = n, rs_buffer = p\<rparr>"

definition whole_wb :: "addr \<Rightarrow> int \<Rightarrow> write_buffer" where
  "whole_wb p n = \<lparr>wb_buffer = p, wb_ptr = p, wb_sz = n, wb_userobject = False, wb_udp_address = []\<rparr>"

lemma append_plain:
  assumes "0 \<le> n" "0 \<le> m" "m \<le> n"
  shows "append_sendbuffer os high k (plain_request i p n) m [] ss =
    put_slot k ((set_wlist high (wlist high (ss_slot ss k) @ [advance m (whole_wb p n)]) (ss_slot ss k))\<lparr>s_wb_size := s_wb_size (ss_slot ss k) + (n - m)\<rparr>) ss"
  using assms by (simp add: append_sendbuffer_def plain_request_def send_object_init_def whole_wb_def advance_def Let_def)

text \<open>What a request to send does to an open socket: nothing but the package is added to what is written or waiting.\<close>

definition accepts :: "os \<Rightarrow> nat \<Rightarrow> bool \<Rightarrow> byte list \<Rightarrow> socket_server \<Rightarrow> int \<Rightarrow> socket_server \<Rightarrow> bool" where
  "accepts os k high p ss r ss' \<longleftrightarrow>
     (let s = ss_slot ss k; s' = ss_slot ss' k in
      \<exists>W. written (s_fd s) (ss_calls ss') = written (s_fd s) (ss_calls ss) @ W \<and> s_id s' = s_id s \<and>
        (r = SOCKET_CLOSE \<and> s_type s' = SOCKET_TYPE_INVALID \<and> unsent os s = [] \<and> W = [] \<or>
         r = - 1 \<and> tcp_ok os s' \<and> s_fd s' = s_fd s \<and> s_type s' = s_type s \<and>
           (\<forall>W0 H L. ordered os s W0 H L \<longrightarrow> ordered os s' (W0 @ W) (if high then H @ [p] else H) (if high then L else L @ [p]))))"

lemma ordered_snoc_high:
  assumes "ordered os s W0 H L" "W @ list_bytes os (s_high s') = list_bytes os (s_high s) @ p" "s_low s' = s_low s"
  shows "ordered os s' (W0 @ W) (H @ [p]) L"
proof -
  obtain D Ls where "D \<in> shuffles H Ls" "concat D = W0 @ list_bytes os (s_high s)" "L = Ls @ map (wb_bytes os) (s_low s)"
    using assms(1) unfolding ordered_def by blast
  then show ?thesis
    unfolding ordered_def using assms(2,3) shuffles_snoc_left [of D H Ls p] by (intro exI [of _ "D @ [p]"] exI [of _ Ls]) simp
qed

lemma ordered_snoc_low:
  assumes "ordered os s W0 H L" "s_low s = []" "W @ list_bytes os (s_high s') = list_bytes os (s_high s) @ p" "s_low s' = []"
  shows "ordered os s' (W0 @ W) H (L @ [p])"
proof -
  obtain D where "D \<in> shuffles H L" "concat D = W0 @ list_bytes os (s_high s)"
    using assms(1,2) unfolding ordered_def by auto
  then show ?thesis
    unfolding ordered_def using assms(3,4) shuffles_append_right [of D H L "[p]"] by (intro exI [of _ "D @ [p]"] exI [of _ "L @ [p]"]) simp
qed

lemma ordered_snoc_waiting:
  assumes "ordered os s W0 H L" "s_high s' = s_high s" "s_low s' = s_low s @ [wb]"
  shows "ordered os s' W0 H (L @ [wb_bytes os wb])"
  using assms by (auto simp: ordered_def)

lemma accepts_keepI:
  assumes "written (s_fd (ss_slot ss k)) (ss_calls ss') = written (s_fd (ss_slot ss k)) (ss_calls ss) @ W" "s_id (ss_slot ss' k) = s_id (ss_slot ss k)"
    "tcp_ok os (ss_slot ss' k)" "s_fd (ss_slot ss' k) = s_fd (ss_slot ss k)" "s_type (ss_slot ss' k) = s_type (ss_slot ss k)"
    "\<And>W0 H L. ordered os (ss_slot ss k) W0 H L \<Longrightarrow> ordered os (ss_slot ss' k) (W0 @ W) (if high then H @ [p] else H) (if high then L else L @ [p])"
  shows "accepts os k high p ss (- 1) ss'"
  unfolding accepts_def Let_def using assms by blast

lemma send_socket_eq:
  assumes "k = HASH_ID i" "s = ss_slot ss k" "s_protocol s = PROTOCOL_TCP" "s_id s = i" "s_type s = SOCKET_TYPE_CONNECTED" "0 \<le> n"
  shows "send_socket os (plain_request i p n) high None ss =
      (if send_buffer_empty s then do {
         (r, ss1) \<leftarrow> write_direct os k (plain_request i p n) ss;
         (case r of
            None \<Rightarrow> Some (SOCKET_CLOSE, ss1)
          | Some m \<Rightarrow>
              if m = n then Some (- 1, syscall (SysFree p) ss1)
              else Some (- 1, syscall (SysSpWrite (s_fd s) True) (append_sendbuffer os True k (plain_request i p n) m [] ss1))) }
       else Some (- 1, append_sendbuffer os high k (plain_request i p n) 0 [] ss))"
  using assms(3-6) unfolding assms(2) unfolding assms(1) plain_request_def
  by (simp add: send_socket_def send_object_init_def free_object_def Let_def socket_states)

lemma tcp_ok_append:
  assumes ok: "tcp_ok os s" and wb: "0 \<le> wb_sz wb" "\<not> high \<Longrightarrow> wb_ptr wb = wb_buffer wb"
  shows "tcp_ok os ((set_wlist high (wlist high s @ [wb]) s)\<lparr>s_wb_size := s_wb_size s + wb_sz wb\<rparr>)"
  using ok wb by (auto simp: tcp_ok_def live_def unsent_simps set_wlist_def wlist_def wb_bytes_def)

lemma append_waiting_spec:
  assumes ok: "tcp_ok os (ss_slot ss k)" and n: "0 \<le> n"
  shows "accepts os k high (bytes_at os p n) ss (- 1) (append_sendbuffer os high k (plain_request i p n) 0 [] ss)"
proof -
  define s' where "s' = (set_wlist high (wlist high (ss_slot ss k) @ [whole_wb p n]) (ss_slot ss k))\<lparr>s_wb_size := s_wb_size (ss_slot ss k) + n\<rparr>"
  have wb: "wb_bytes os (whole_wb p n) = bytes_at os p n" by (simp add: wb_bytes_def whole_wb_def)
  have "tcp_ok os s'" using tcp_ok_append [OF ok, of "whole_wb p n" high] n by (simp add: s'_def whole_wb_def)
  moreover have "ordered os s' W0 (if high then H @ [bytes_at os p n] else H) (if high then L else L @ [bytes_at os p n])" if "ordered os (ss_slot ss k) W0 H L" for W0 H L
    using ordered_snoc_high [OF that, of "[]" s' "bytes_at os p n"] ordered_snoc_waiting [OF that, of s' "whole_wb p n"] wb
    by (cases high) (simp_all add: s'_def set_wlist_def wlist_def)
  ultimately show ?thesis
    using append_plain [of n 0 os high k i p ss] n by (intro accepts_keepI [where W = "[]"]) (simp_all flip: s'_def, simp_all add: s'_def set_wlist_def)
qed

lemma append_rest_spec:
  assumes ok: "tcp_ok os (ss_slot ss k)" and n: "0 \<le> m" "m \<le> n" and nil: "send_buffer_empty (ss_slot ss k)"
    and ss1: "ss_slot ss1 = ss_slot ss" "written (s_fd (ss_slot ss k)) (ss_calls ss1) = written (s_fd (ss_slot ss k)) (ss_calls ss) @ bytes_at os p m"
  shows "accepts os k high (bytes_at os p n) ss (- 1) (syscall (SysSpWrite (s_fd (ss_slot ss k)) True) (append_sendbuffer os True k (plain_request i p n) m [] ss1))"
proof -
  define wb where "wb = advance m (whole_wb p n)"
  define s' where "s' = (set_wlist True (wlist True (ss_slot ss k) @ [wb]) (ss_slot ss k))\<lparr>s_wb_size := s_wb_size (ss_slot ss k) + (n - m)\<rparr>"
  have wb: "bytes_at os p m @ wb_bytes os wb = bytes_at os p n" "wb_sz wb = n - m"
    using bytes_at_split(1) [OF n, of os p] by (simp_all add: wb_def wb_bytes_def whole_wb_def advance_def)
  have e: "s_high (ss_slot ss k) = []" "s_low (ss_slot ss k) = []" using nil by (simp_all add: send_buffer_empty_def)
  have "tcp_ok os s'" using tcp_ok_append [OF ok, of wb True] n wb(2) by (simp add: s'_def)
  moreover have "ordered os s' (W0 @ bytes_at os p m) (if high then H @ [bytes_at os p n] else H) (if high then L else L @ [bytes_at os p n])" if "ordered os (ss_slot ss k) W0 H L" for W0 H L
    using ordered_snoc_high [OF that, of "bytes_at os p m" s' "bytes_at os p n"] ordered_snoc_low [OF that, of "bytes_at os p m" s' "bytes_at os p n"] wb(1) e
    by (cases high) (simp_all add: s'_def set_wlist_def wlist_def)
  ultimately show ?thesis
    using append_plain [of n m os True k i p ss1] n ss1 by (intro accepts_keepI [where W = "bytes_at os p m"]) (simp_all flip: s'_def wb_def, simp_all add: s'_def set_wlist_def)
qed

lemma write_direct_spec:
  assumes os: "os_ok os" and live: "live (ss_slot ss k)" and n: "0 \<le> n"
  shows "(\<exists>m ss1. write_direct os k (plain_request i p n) ss = Some (Some m, ss1) \<and> 0 \<le> m \<and> m \<le> n \<and> ss_slot ss1 = ss_slot ss \<and>
      written (s_fd (ss_slot ss k)) (ss_calls ss1) = written (s_fd (ss_slot ss k)) (ss_calls ss) @ bytes_at os p m) \<or>
    (\<exists>ss1. write_direct os k (plain_request i p n) ss = Some (None, ss1) \<and> s_type (ss_slot ss1 k) = SOCKET_TYPE_INVALID \<and> s_id (ss_slot ss1 k) = s_id (ss_slot ss k) \<and>
      written (s_fd (ss_slot ss k)) (ss_calls ss1) = written (s_fd (ss_slot ss k)) (ss_calls ss))"
proof (cases "os_write os (ss_time ss) (s_fd (ss_slot ss k)) (bytes_at os p n)")
  case (Ret m)
  then have "0 \<le> m" "m \<le> n" using os_writeD [OF os Ret] n by simp_all
  then show ?thesis using Ret n bytes_at_split(2) [of m n os p] by (simp add: write_direct_def plain_request_def send_object_init_def)
next
  case (Fail e)
  show ?thesis
  proof (cases "e = EINTR \<or> e = EAGAIN")
    case True
    then show ?thesis using Fail n by (auto simp: write_direct_def plain_request_def send_object_init_def bytes_at_def)
  next
    case False
    define ss0 where "ss0 = syscall (SysStderr (bytes ''socket-server: write to '' @ fmt_d i @ bytes '' (fd='' @ fmt_d (s_fd (ss_slot ss k)) @ bytes '') error :'' @ os_strerror os e @ bytes ''.'' @ [10])) (tick ss)"
    obtain ss1 where "force_close k ss0 = Some ss1" "s_type (ss_slot ss1 k) = SOCKET_TYPE_INVALID" "s_id (ss_slot ss1 k) = s_id (ss_slot ss k)"
        "written (s_fd (ss_slot ss k)) (ss_calls ss1) = written (s_fd (ss_slot ss k)) (ss_calls ss0)"
      using force_close_spec [of ss0 k "s_fd (ss_slot ss k)"] live by (auto simp: ss0_def)
    then show ?thesis using Fail False n
      by (auto simp: write_direct_def plain_request_def send_object_init_def free_object_def ss0_def)
  qed
qed

lemma send_socket_spec:
  assumes os: "os_ok os" and k: "k = HASH_ID i" and ok: "tcp_ok os (ss_slot ss k)" and s: "s_id (ss_slot ss k) = i" "s_type (ss_slot ss k) = SOCKET_TYPE_CONNECTED" and n: "0 \<le> n"
  shows "\<exists>r ss'. send_socket os (plain_request i p n) high None ss = Some (r, ss') \<and> accepts os k high (bytes_at os p n) ss r ss'"
proof (cases "send_buffer_empty (ss_slot ss k)")
  case False
  then show ?thesis using send_socket_eq [OF k refl tcp_okD(2) [OF ok] s n] append_waiting_spec [OF ok n] by simp
next
  case True
  note eq = send_socket_eq [OF k refl tcp_okD(2) [OF ok] s n, of os p high]
  from write_direct_spec [OF os tcp_okD(1) [OF ok] n, of i p] show ?thesis
  proof (elim disjE exE conjE)
    fix m ss1 assume w: "write_direct os k (plain_request i p n) ss = Some (Some m, ss1)" "0 \<le> m" "m \<le> n" "ss_slot ss1 = ss_slot ss"
      "written (s_fd (ss_slot ss k)) (ss_calls ss1) = written (s_fd (ss_slot ss k)) (ss_calls ss) @ bytes_at os p m"
    have e: "s_high (ss_slot ss k) = []" "s_low (ss_slot ss k) = []" using True by (simp_all add: send_buffer_empty_def)
    have "accepts os k high (bytes_at os p n) ss (- 1) (syscall (SysFree p) ss1)" if "m = n"
    proof (rule accepts_keepI)
      fix W0 H L assume ord: "ordered os (ss_slot ss k) W0 H L"
      show "ordered os (ss_slot (syscall (SysFree p) ss1) k) (W0 @ bytes_at os p n) (if high then H @ [bytes_at os p n] else H) (if high then L else L @ [bytes_at os p n])"
        using ordered_snoc_high [OF ord, of "bytes_at os p n" "ss_slot ss k"] ordered_snoc_low [OF ord, of "bytes_at os p n" "ss_slot ss k"] e w(4) by simp
    qed (use w ok that in simp_all)
    then show ?thesis using append_rest_spec [OF ok w(2,3) True w(4,5), of high i] True w(1) eq by (cases "m = n") simp_all
  next
    fix ss1 assume w: "write_direct os k (plain_request i p n) ss = Some (None, ss1)" "s_type (ss_slot ss1 k) = SOCKET_TYPE_INVALID" "s_id (ss_slot ss1 k) = s_id (ss_slot ss k)"
      "written (s_fd (ss_slot ss k)) (ss_calls ss1) = written (s_fd (ss_slot ss k)) (ss_calls ss)"
    have "accepts os k high (bytes_at os p n) ss SOCKET_CLOSE ss1"
      using w True by (simp add: accepts_def unsent_simps send_buffer_empty_def)
    then show ?thesis using w(1) True eq by simp
  qed
qed


section \<open>Ids\<close>

lemma reserve_step_eq:
  assumes "0 \<le> a" "a < 2 ^ 31"
  shows "reserve_step a = (a + 1) mod 2 ^ 31"
proof (cases "a + 1 < 2 ^ 31")
  case True
  then show ?thesis using assms to_int_id [of "a + 1"] by (simp add: reserve_step_def)
next
  case False
  then have "a + 1 = 2 ^ 31" using assms by simp
  then show ?thesis by (simp add: reserve_step_def to_int_def)
qed

lemma HASH_ID_eq: "HASH_ID i = nat (i mod 65536)"
  by (simp add: HASH_ID_def MAX_SOCKET_def mod_mod_cancel)

lemma HASH_ID_wrap: "HASH_ID (x mod 2 ^ 31) = nat (x mod 65536)"
  by (simp add: HASH_ID_eq mod_mod_cancel)

definition reserved :: "int \<Rightarrow> socket_server \<Rightarrow> socket_server \<Rightarrow> bool" where
  "reserved i ss ss' \<longleftrightarrow> 0 \<le> i \<and> i < 2 ^ 31 \<and> s_type (ss_slot ss (HASH_ID i)) = SOCKET_TYPE_INVALID \<and>
     ss' = put_slot (HASH_ID i) ((ss_slot ss (HASH_ID i))\<lparr>s_type := SOCKET_TYPE_RESERVE, s_id := i, s_fd := - 1\<rparr>) (ss\<lparr>ss_alloc_id := i\<rparr>)"

lemma reserve_loop_spec:
  assumes "0 \<le> ss_alloc_id ss" "ss_alloc_id ss < 2 ^ 31"
  shows "(\<exists>i ss'. reserve_loop n ss = (i, ss') \<and> reserved i ss ss') \<or>
    (\<exists>a. reserve_loop n ss = (- 1, ss\<lparr>ss_alloc_id := a\<rparr>) \<and> 0 \<le> a \<and> a < 2 ^ 31 \<and>
      (\<forall>j \<in> {1..n}. s_type (ss_slot ss (HASH_ID ((ss_alloc_id ss + int j) mod 2 ^ 31))) \<noteq> SOCKET_TYPE_INVALID))"
  using assms
proof (induction n arbitrary: ss)
  case 0
  have "reserve_loop 0 ss = (- 1, ss\<lparr>ss_alloc_id := ss_alloc_id ss\<rparr>)" by (subst reserve_loop.simps) simp
  then show ?case by (intro disjI2 exI [of _ "ss_alloc_id ss"]) (use "0.prems" in simp)
next
  case (Suc n)
  define i where "i = reserve_step (ss_alloc_id ss)"
  define ss1 where "ss1 = ss\<lparr>ss_alloc_id := i\<rparr>"
  have i: "i = (ss_alloc_id ss + 1) mod 2 ^ 31" "0 \<le> i" "i < 2 ^ 31"
    using reserve_step_eq [OF Suc.prems] by (simp_all add: i_def)
  have slot: "ss_slot ss1 = ss_slot ss" "ss_alloc_id ss1 = i" by (simp_all add: ss1_def)
  note L = reserve_loop.simps [of "Suc n" ss, folded i_def ss1_def]
  show ?case
  proof (cases "s_type (ss_slot ss (HASH_ID i)) = SOCKET_TYPE_INVALID")
    case True
    then have "reserve_loop (Suc n) ss = (i, put_slot (HASH_ID i) ((ss_slot ss (HASH_ID i))\<lparr>s_type := SOCKET_TYPE_RESERVE, s_id := i, s_fd := - 1\<rparr>) ss1)"
      using L slot by (simp add: i_def [symmetric] ss1_def [symmetric] Let_def)
    then show ?thesis using True i by (simp add: reserved_def ss1_def)
  next
    case False
    then have eq: "reserve_loop (Suc n) ss = reserve_loop n ss1" using L slot by (simp add: i_def [symmetric] ss1_def [symmetric] Let_def)
    have shift: "(i + int j) mod 2 ^ 31 = (ss_alloc_id ss + int (Suc j)) mod 2 ^ 31" for j
      unfolding i(1) by (simp add: mod_simps algebra_simps)
    have "(\<exists>i' ss'. reserve_loop n ss1 = (i', ss') \<and> reserved i' ss1 ss') \<or>
      (\<exists>a. reserve_loop n ss1 = (- 1, ss1\<lparr>ss_alloc_id := a\<rparr>) \<and> 0 \<le> a \<and> a < 2 ^ 31 \<and> (\<forall>j \<in> {1..n}. s_type (ss_slot ss (HASH_ID ((i + int j) mod 2 ^ 31))) \<noteq> SOCKET_TYPE_INVALID))"
      using Suc.IH [of ss1] slot i by simp
    then show ?thesis
    proof (elim disjE exE conjE)
      fix i' ss' assume "reserve_loop n ss1 = (i', ss')" "reserved i' ss1 ss'"
      then show ?thesis using eq by (simp add: reserved_def ss1_def)
    next
      fix a assume a: "reserve_loop n ss1 = (- 1, ss1\<lparr>ss_alloc_id := a\<rparr>)" and b: "0 \<le> a" "a < 2 ^ 31" and c: "\<forall>j \<in> {1..n}. s_type (ss_slot ss (HASH_ID ((i + int j) mod 2 ^ 31))) \<noteq> SOCKET_TYPE_INVALID"
      have "s_type (ss_slot ss (HASH_ID ((ss_alloc_id ss + int j) mod 2 ^ 31))) \<noteq> SOCKET_TYPE_INVALID" if "j \<in> {1..Suc n}" for j
      proof (cases "j = 1")
        case True
        then show ?thesis using False i(1) by simp
      next
        case False
        then have "j = Suc (j - 1)" "j - 1 \<in> {1..n}" using that by auto
        then show ?thesis using c shift [of "j - 1"] by metis
      qed
      then show ?thesis using eq a b by (auto simp: ss1_def)
    qed
  qed
qed

lemma every_slot: "k < 65536 \<Longrightarrow> \<exists>j \<in> {1..nat MAX_SOCKET}. HASH_ID ((a + int j) mod 2 ^ 31) = k"
proof -
  assume k: "k < 65536"
  define j where "j = (if (int k - a) mod 65536 = 0 then 65536 else (int k - a) mod 65536)"
  have "1 \<le> j" "j \<le> 65536" using pos_mod_bound [of 65536 "int k - a"] pos_mod_sign [of 65536 "int k - a"] by (auto simp: j_def)
  moreover have "j mod 65536 = (int k - a) mod 65536" by (simp add: j_def)
  then have "(a + j) mod 65536 = (a + (int k - a)) mod 65536" by (metis mod_add_right_eq)
  then have "(a + j) mod 65536 = int k" using k by simp
  ultimately show ?thesis by (intro bexI [of _ "nat j"]) (use HASH_ID_wrap [of "a + j"] in \<open>auto simp: MAX_SOCKET_def\<close>)
qed

section \<open>Sequences of requests and events of one socket\<close>

datatype sock_op = Put bool addr int | Writable

fun sock_run :: "os \<Rightarrow> int \<Rightarrow> sock_op list \<Rightarrow> socket_server \<Rightarrow> socket_server option" where
  "sock_run os i [] ss = Some ss"
| "sock_run os i (Put high p n # ops) ss = do {
     (r, ss1) \<leftarrow> send_socket os (plain_request i p n) high None ss;
     sock_run os i ops ss1 }"
| "sock_run os i (Writable # ops) ss = do {
     (r, ss1) \<leftarrow> (if s_type (ss_slot ss (HASH_ID i)) = SOCKET_TYPE_INVALID then Some (- 1, ss) else send_buffer os (HASH_ID i) ss);
     sock_run os i ops ss1 }"

fun packages :: "os \<Rightarrow> bool \<Rightarrow> sock_op list \<Rightarrow> byte list list" where
  "packages os high [] = []"
| "packages os high (Put h p n # ops) = (if h = high then [bytes_at os p n] else []) @ packages os high ops"
| "packages os high (Writable # ops) = packages os high ops"

fun sizes_ok :: "sock_op list \<Rightarrow> bool" where
  "sizes_ok [] \<longleftrightarrow> True"
| "sizes_ok (Put h p n # ops) \<longleftrightarrow> 0 \<le> n \<and> sizes_ok ops"
| "sizes_ok (Writable # ops) \<longleftrightarrow> sizes_ok ops"

definition open_sock :: "os \<Rightarrow> int \<Rightarrow> socket \<Rightarrow> bool" where
  "open_sock os i s \<longleftrightarrow> tcp_ok os s \<and> s_id s = i \<and> s_type s = SOCKET_TYPE_CONNECTED"

text \<open>The state after some requests: \<open>H\<close> and \<open>L\<close> are the packages of high and of low priority so far.\<close>

definition sock_inv :: "os \<Rightarrow> int \<Rightarrow> int \<Rightarrow> byte list \<Rightarrow> byte list list \<Rightarrow> byte list list \<Rightarrow> socket_server \<Rightarrow> bool" where
  "sock_inv os i fd w0 H L ss \<longleftrightarrow>
     (let s = ss_slot ss (HASH_ID i) in
      \<exists>W. written fd (ss_calls ss) = w0 @ W \<and>
        (open_sock os i s \<and> s_fd s = fd \<and> ordered os s W H L \<or>
         s_type s = SOCKET_TYPE_INVALID \<and> (\<exists>D rest. D \<in> shuffles H L \<and> W @ rest = concat D)))"

lemma sock_inv_put:
  assumes os: "os_ok os" and inv: "sock_inv os i fd w0 H L ss" and n: "0 \<le> n"
  shows "\<exists>r ss'. send_socket os (plain_request i p n) high None ss = Some (r, ss') \<and>
    sock_inv os i fd w0 (if high then H @ [bytes_at os p n] else H) (if high then L else L @ [bytes_at os p n]) ss'"
proof -
  define k where "k = HASH_ID i"
  obtain W where W: "written fd (ss_calls ss) = w0 @ W"
      "open_sock os i (ss_slot ss k) \<and> s_fd (ss_slot ss k) = fd \<and> ordered os (ss_slot ss k) W H L \<or>
       s_type (ss_slot ss k) = SOCKET_TYPE_INVALID \<and> (\<exists>D rest. D \<in> shuffles H L \<and> W @ rest = concat D)"
    using inv by (auto simp: sock_inv_def k_def Let_def)
  have more: "\<exists>D rest. D \<in> shuffles (if high then H @ [q] else H) (if high then L else L @ [q]) \<and> W @ rest = concat D"
    if "D \<in> shuffles H L" "W @ rest = concat D" for q D rest
    using that shuffles_snoc_left [OF that(1), of q] shuffles_append_right [OF that(1), of "[q]"]
    by (intro exI [of _ "D @ [q]"] exI [of _ "rest @ q"]) simp
  show ?thesis
  proof (cases "s_type (ss_slot ss k) = SOCKET_TYPE_INVALID")
    case True
    then obtain D rest where D: "D \<in> shuffles H L" "W @ rest = concat D" using W(2) by (auto simp: open_sock_def socket_states)
    have "send_socket os (plain_request i p n) high None ss = Some (- 1, syscall (SysFree p) ss)"
      using True n by (simp add: send_socket_def plain_request_def k_def send_object_init_def free_object_def)
    then show ?thesis using True W(1) more [OF D, of "bytes_at os p n"] by (simp add: sock_inv_def k_def Let_def)
  next
    case False
    then have o: "tcp_ok os (ss_slot ss k)" "s_id (ss_slot ss k) = i" "s_type (ss_slot ss k) = SOCKET_TYPE_CONNECTED" "s_fd (ss_slot ss k) = fd" "ordered os (ss_slot ss k) W H L"
      using W(2) by (auto simp: open_sock_def)
    obtain r ss' where S: "send_socket os (plain_request i p n) high None ss = Some (r, ss')" "accepts os k high (bytes_at os p n) ss r ss'"
      using send_socket_spec [OF os k_def o(1-3) n] by blast
    obtain W' where W': "written fd (ss_calls ss') = w0 @ W @ W'" "s_id (ss_slot ss' k) = i"
        "r = SOCKET_CLOSE \<and> s_type (ss_slot ss' k) = SOCKET_TYPE_INVALID \<and> unsent os (ss_slot ss k) = [] \<and> W' = [] \<or>
         tcp_ok os (ss_slot ss' k) \<and> s_fd (ss_slot ss' k) = fd \<and> s_type (ss_slot ss' k) = SOCKET_TYPE_CONNECTED \<and>
         ordered os (ss_slot ss' k) (W @ W') (if high then H @ [bytes_at os p n] else H) (if high then L else L @ [bytes_at os p n])"
      using S(2) o W(1) unfolding accepts_def Let_def by auto
    obtain D where "D \<in> shuffles H L" "W @ unsent os (ss_slot ss k) = concat D" using ordered_unsent [OF o(5)] by blast
    note d = more [OF this, of "bytes_at os p n"]
    show ?thesis
      using S(1) W' d unfolding sock_inv_def open_sock_def k_def [symmetric] Let_def by (intro exI conjI) (assumption, auto)
  qed
qed

lemma sock_inv_writable:
  assumes os: "os_ok os" and inv: "sock_inv os i fd w0 H L ss" and open_: "s_type (ss_slot ss (HASH_ID i)) \<noteq> SOCKET_TYPE_INVALID"
  shows "\<exists>r ss'. send_buffer os (HASH_ID i) ss = Some (r, ss') \<and> sock_inv os i fd w0 H L ss'"
proof -
  define k where "k = HASH_ID i"
  obtain W where W: "written fd (ss_calls ss) = w0 @ W" and o: "tcp_ok os (ss_slot ss k)" "s_id (ss_slot ss k) = i" "s_type (ss_slot ss k) = SOCKET_TYPE_CONNECTED"
      "s_fd (ss_slot ss k) = fd" "ordered os (ss_slot ss k) W H L"
    using inv open_ by (auto simp: sock_inv_def open_sock_def k_def Let_def)
  obtain r ss' where S: "send_buffer os k ss = Some (r, ss')" "writes os k ss r ss'" using send_buffer_spec [OF os o(1)] by blast
  obtain D where D: "D \<in> shuffles H L" "W @ unsent os (ss_slot ss k) = concat D" using ordered_unsent [OF o(5)] by blast
  obtain W' where W': "written fd (ss_calls ss') = w0 @ W @ W'" "s_id (ss_slot ss' k) = i"
      "s_type (ss_slot ss' k) = SOCKET_TYPE_INVALID \<and> (\<exists>rest. W' @ rest = unsent os (ss_slot ss k)) \<or>
       tcp_ok os (ss_slot ss' k) \<and> s_fd (ss_slot ss' k) = fd \<and> s_type (ss_slot ss' k) = SOCKET_TYPE_CONNECTED \<and> ordered os (ss_slot ss' k) (W @ W') H L"
    using S(2) o W unfolding writes_def Let_def by auto
  have "sock_inv os i fd w0 H L ss'"
    unfolding sock_inv_def open_sock_def k_def [symmetric] Let_def
  proof (intro exI [of _ "W @ W'"] conjI)
    show "written fd (ss_calls ss') = w0 @ W @ W'" by (rule W'(1))
    show "(tcp_ok os (ss_slot ss' k) \<and> s_id (ss_slot ss' k) = i \<and> s_type (ss_slot ss' k) = SOCKET_TYPE_CONNECTED) \<and>
        s_fd (ss_slot ss' k) = fd \<and> ordered os (ss_slot ss' k) (W @ W') H L \<or>
        s_type (ss_slot ss' k) = SOCKET_TYPE_INVALID \<and> (\<exists>D rest. D \<in> shuffles H L \<and> (W @ W') @ rest = concat D)"
      using W'(2,3) D by (metis append.assoc)
  qed
  then show ?thesis using S(1) by (auto simp: k_def)
qed

lemma sock_run_spec:
  assumes "os_ok os" "sizes_ok ops" "sock_inv os i fd w0 H L ss"
  shows "\<exists>ss'. sock_run os i ops ss = Some ss' \<and> sock_inv os i fd w0 (H @ packages os True ops) (L @ packages os False ops) ss'"
  using assms
proof (induction ops arbitrary: ss H L)
  case (Cons op ops)
  show ?case
  proof (cases op)
    case (Put high p n)
    obtain r ss1 where o: "send_socket os (plain_request i p n) high None ss = Some (r, ss1)"
        "sock_inv os i fd w0 (if high then H @ [bytes_at os p n] else H) (if high then L else L @ [bytes_at os p n]) ss1"
      using sock_inv_put [OF Cons.prems(1,3), of n p high] Cons.prems(2) Put by auto
    have "sizes_ok ops" using Cons.prems(2) Put by simp
    from Cons.IH [OF Cons.prems(1) this o(2)] show ?thesis using o(1) Put by (cases high) simp_all
  next
    case Writable
    show ?thesis
    proof (cases "s_type (ss_slot ss (HASH_ID i)) = SOCKET_TYPE_INVALID")
      case True
      then show ?thesis using Cons.IH [OF Cons.prems(1) _ Cons.prems(3)] Cons.prems(2) Writable by simp
    next
      case False
      then obtain r ss1 where o: "send_buffer os (HASH_ID i) ss = Some (r, ss1)" "sock_inv os i fd w0 H L ss1"
        using sock_inv_writable [OF Cons.prems(1,3)] by blast
      show ?thesis using Cons.IH [OF Cons.prems(1) _ o(2)] o(1) Cons.prems(2) Writable False by simp
    qed
  qed
qed simp

section \<open>Properties\<close>

text \<open>C32: while some slot is free, \<open>reserve_id\<close> returns an id that is not negative and whose slot was free, reserves that
  slot and no other, even when the counter wraps around; it returns -1 only when none of the 65536 slots is free, and then
  changes no slot.  The counter stays in its range.\<close>

theorem reserve_id_fresh:
  assumes "0 \<le> ss_alloc_id ss" "ss_alloc_id ss < 2 ^ 31"
  shows "case reserve_id ss of (i, ss') \<Rightarrow>
    0 \<le> ss_alloc_id ss' \<and> ss_alloc_id ss' < 2 ^ 31 \<and>
    (if \<exists>k < 65536. s_type (ss_slot ss k) = SOCKET_TYPE_INVALID then
       0 \<le> i \<and> s_type (ss_slot ss (HASH_ID i)) = SOCKET_TYPE_INVALID \<and> s_type (ss_slot ss' (HASH_ID i)) = SOCKET_TYPE_RESERVE \<and>
       s_id (ss_slot ss' (HASH_ID i)) = i \<and> (\<forall>k. k \<noteq> HASH_ID i \<longrightarrow> ss_slot ss' k = ss_slot ss k)
     else i = - 1 \<and> ss_slot ss' = ss_slot ss)"
  using reserve_loop_spec [OF assms, of "nat MAX_SOCKET"]
proof (elim disjE exE conjE)
  fix i ss' assume r: "reserve_loop (nat MAX_SOCKET) ss = (i, ss')" "reserved i ss ss'"
  have "HASH_ID i < 65536" by (simp add: HASH_ID_eq nat_less_iff)
  with r(2) have "\<exists>k < 65536. s_type (ss_slot ss k) = SOCKET_TYPE_INVALID" unfolding reserved_def by blast
  with r show ?thesis by (simp add: reserve_id_def reserved_def) (simp add: put_slot_def)
next
  fix a assume r: "reserve_loop (nat MAX_SOCKET) ss = (- 1, ss\<lparr>ss_alloc_id := a\<rparr>)" "0 \<le> a" "a < 2 ^ 31"
      "\<forall>j \<in> {1..nat MAX_SOCKET}. s_type (ss_slot ss (HASH_ID ((ss_alloc_id ss + int j) mod 2 ^ 31))) \<noteq> SOCKET_TYPE_INVALID"
  have none: "\<not> (\<exists>k < 65536. s_type (ss_slot ss k) = SOCKET_TYPE_INVALID)" using r(4) every_slot by metis
  then show ?thesis unfolding reserve_id_def r(1) if_not_P [OF none] prod.case using r(2,3) by simp
qed

definition demo_server :: socket_server where
  "demo_server = \<lparr>ss_checkctrl = True, ss_alloc_id = 2 ^ 31 - 1, ss_event_index = 0, ss_ev = [],
     ss_slot = (\<lambda>k. if k = 0 then socket_zero\<lparr>s_type := SOCKET_TYPE_CONNECTED, s_fd := 5, s_size := 64\<rparr> else socket_zero),
     ss_pipe = [], ss_result = no_result, ss_more = True, ss_time = 0, ss_calls = []\<rparr>"

theorem reserve_id_fresh_witness:
  "0 \<le> ss_alloc_id demo_server \<and> fst (reserve_id demo_server) = 1 \<and>
    s_type (ss_slot (snd (reserve_id demo_server)) 1) = SOCKET_TYPE_RESERVE"
proof -
  have H: "0 \<le> ss_alloc_id demo_server" "ss_alloc_id demo_server < 2 ^ 31" by (simp_all add: demo_server_def)
  have "MAX_SOCKET = 65536" by (simp add: MAX_SOCKET_def)
  then have r: "fst (reserve_id demo_server) = 1"
    by (simp add: reserve_id_def reserve_loop.simps demo_server_def reserve_step_eq HASH_ID_eq socket_states socket_zero_def Let_def)
  have "\<exists>k < 65536. s_type (ss_slot demo_server k) = SOCKET_TYPE_INVALID"
    by (intro exI [of _ 1]) (simp add: demo_server_def socket_zero_def)
  then show ?thesis using reserve_id_fresh [OF H] H r by (auto simp: HASH_ID_eq split: prod.splits)
qed

text \<open>C29: after any sequence of requests to send to a TCP connection and of writable events, for every system whose \<open>write\<close>
  takes any part of a buffer, refuses or fails, and is not interrupted for ever: the requests return, no assertion fails, and
  the bytes written to the connection followed by those that wait are the requested packages, each one whole, the packages of
  each priority in the order of the requests.  When an error of \<open>write\<close> has closed the socket, what was written is a prefix
  of such an order.\<close>

theorem packages_in_order:
  assumes "os_ok os" and "sizes_ok ops" and "open_sock os i (ss_slot ss (HASH_ID i))" and "send_buffer_empty (ss_slot ss (HASH_ID i))"
  shows "\<exists>ss' W D rest. sock_run os i ops ss = Some ss' \<and>
    written (s_fd (ss_slot ss (HASH_ID i))) (ss_calls ss') = written (s_fd (ss_slot ss (HASH_ID i))) (ss_calls ss) @ W \<and>
    D \<in> shuffles (packages os True ops) (packages os False ops) \<and> W @ rest = concat D \<and>
    (s_type (ss_slot ss' (HASH_ID i)) \<noteq> SOCKET_TYPE_INVALID \<longrightarrow> rest = unsent os (ss_slot ss' (HASH_ID i)))"
proof -
  define fd where "fd = s_fd (ss_slot ss (HASH_ID i))"
  define w0 where "w0 = written fd (ss_calls ss)"
  have "ordered os (ss_slot ss (HASH_ID i)) [] [] []" using assms(4) by (simp add: ordered_def send_buffer_empty_def)
  then have "sock_inv os i fd w0 [] [] ss" using assms(3) by (simp add: sock_inv_def Let_def fd_def w0_def)
  from sock_run_spec [OF assms(1,2) this] obtain ss' where ss': "sock_run os i ops ss = Some ss'"
      "sock_inv os i fd w0 (packages os True ops) (packages os False ops) ss'" by auto
  from ss'(2) obtain W where W: "written fd (ss_calls ss') = w0 @ W"
      "ordered os (ss_slot ss' (HASH_ID i)) W (packages os True ops) (packages os False ops) \<or>
       s_type (ss_slot ss' (HASH_ID i)) = SOCKET_TYPE_INVALID \<and> (\<exists>D rest. D \<in> shuffles (packages os True ops) (packages os False ops) \<and> W @ rest = concat D)"
    unfolding sock_inv_def Let_def by blast
  then show ?thesis unfolding fd_def [symmetric] w0_def [symmetric] using ss'(1) ordered_unsent by (metis (no_types, lifting))
qed


text \<open>A system that takes two bytes, then is busy, then takes three bytes, then all of them.\<close>

definition demo_write :: "nat \<Rightarrow> byte list \<Rightarrow> ret" where
  "demo_write t b = (if t = 0 then Ret (min 2 (int (length b))) else if t = 1 then Fail EAGAIN else if t = 2 then Fail EINTR
     else if t = 3 then Ret (min 3 (int (length b))) else Ret (int (length b)))"

definition demo_os :: os where
  "demo_os = \<lparr>os_mem = of_nat, soi_buffer = (\<lambda>p. p + 100), soi_size = (\<lambda>p. 4), os_write = (\<lambda>t fd. demo_write t),
     os_sendto = (\<lambda>t fd b a. Fail (EOTHER 90)), os_read = (\<lambda>t fd n. Inr []), os_recvfrom = (\<lambda>t fd. Inl EAGAIN), os_sp_add = (\<lambda>t fd. None),
     os_sp_wait = (\<lambda>t. []), os_select = (\<lambda>t. True), os_getsockopt = (\<lambda>t fd. Inr 0), os_getpeername = (\<lambda>t fd. None),
     os_accept = (\<lambda>t fd. Inl EAGAIN), os_getaddrinfo = (\<lambda>t h p. Inr []), os_socket = (\<lambda>t v. Ret 7), os_connect = (\<lambda>t fd a. Ret 0),
     os_bind = (\<lambda>t fd a. Ret 0), os_listen = (\<lambda>t fd n. Ret 0), os_reuse = (\<lambda>t fd. Ret 0), os_strerror = (\<lambda>e. bytes ''error'')\<rparr>"

lemma demo_os_ok: "os_ok demo_os"
proof -
  have "0 \<le> n \<and> n \<le> int (length b)" if "demo_write t b = Ret n" for t b n
    using that by (auto simp: demo_write_def split: if_splits)
  moreover have "demo_write (t + 4) b \<noteq> Fail EINTR" for t b by (simp add: demo_write_def)
  ultimately show ?thesis unfolding os_ok_def demo_os_def by (auto intro!: exI [of _ 4])
qed

abbreviation demo_ops :: "sock_op list" where
  "demo_ops \<equiv> [Put True 10 4, Put False 20 3, Put True 30 2, Writable, Writable, Writable]"

lemma demo_ready: "sizes_ok demo_ops" "open_sock demo_os 0 (ss_slot demo_server (HASH_ID 0))" "send_buffer_empty (ss_slot demo_server (HASH_ID 0))"
  by (simp_all add: open_sock_def tcp_ok_def live_def demo_server_def socket_zero_def HASH_ID_eq socket_states unsent_def send_buffer_empty_def PROTOCOL_TCP_def)

theorem packages_in_order_witness:
  "\<exists>ss' W D rest. sock_run demo_os 0 demo_ops demo_server = Some ss' \<and> written 5 (ss_calls ss') = W \<and>
    D \<in> shuffles [bytes_at demo_os 10 4, bytes_at demo_os 30 2] [bytes_at demo_os 20 3] \<and> W @ rest = concat D \<and>
    (s_type (ss_slot ss' 0) \<noteq> SOCKET_TYPE_INVALID \<longrightarrow> rest = unsent demo_os (ss_slot ss' 0))"
  using packages_in_order [OF demo_os_ok demo_ready] by (simp add: demo_server_def HASH_ID_eq)

section \<open>What the code does not do\<close>

text \<open>A buffer of a user object starts at another address than the object, so \<open>list_uncomplete\<close> takes a whole buffer of the
  low list for one that was partly written: the assertion of \<open>send_buffer\<close> fails when the socket becomes writable.\<close>

lemma user_object_aborts:
  assumes "rs_sz request < 0" "soi_buffer os (rs_buffer request) \<noteq> rs_buffer request" "s_low (ss_slot ss k) = []"
  shows "send_buffer os k (append_sendbuffer os False k request 0 [] ss) = None"
  using assms by (simp add: send_buffer_def append_sendbuffer_def send_object_init_def wlist_def set_wlist_def list_uncomplete_def Let_def)

text \<open>A datagram that the system refuses for good is never dropped: it stays at the head of its list, and nothing behind it is sent.\<close>

lemma refused_datagram_stays:
  assumes "s_protocol s = PROTOCOL_UDP" "s_high s = wb # wbs" "s_low s = []" "wb_udp_address wb = 1 # a" "s = ss_slot ss k"
    and "\<And>t. os_sendto os t (s_fd s) (bytes_at os (wb_ptr wb) (wb_sz wb)) (take 6 a) = Fail (EOTHER e)"
  shows "\<exists>ss'. send_buffer os k ss = Some (- 1, ss') \<and> ss_slot ss' = ss_slot ss"
  using assms(1-4,6) unfolding assms(5)
  by (simp add: send_buffer_def send_list_def list_uncomplete_def protocols send_list_udp.simps [of os True] wlist_def udp_socket_address_def aget_def SOCKET_CLOSE_def)

end
