(* ===== verification/Skynet_Socket_Inv.thy ===== *)
theory Skynet_Socket_Inv
  imports Skynet_Socket_Server
begin

text \<open>
  The invariant of the socket server: what every slot, the pipe and the events of a round satisfy in every state that is reached by
  calls of other threads and by rounds of the loop of \<open>socket_server_poll\<close>.  A call and a round are one step each: the threads
  of services meet the thread of the sockets in the pipe and, without a lock, in \<open>reserve_id\<close>, and a reservation in the middle of a
  round is outside the model (the lemma \<open>reserve_race\<close> at the end shows one that matters).  In these runs, and as long as no id is
  reserved that a waiting request names, no assertion of \<open>socket_server.c\<close> fails and no field is read before it is set.
\<close>

section \<open>Slots\<close>

definition buffers_ok :: "os \<Rightarrow> socket \<Rightarrow> bool" where
  "buffers_ok os s \<longleftrightarrow> (\<forall>wb \<in> set (s_high s @ s_low s). 0 \<le> wb_sz wb) \<and> (\<forall>wb \<in> set (s_low s). wb_ptr wb = wb_buffer wb) \<and>
     s_wb_size s = int (length (unsent os s)) \<and>
     (s_protocol s \<noteq> PROTOCOL_TCP \<longrightarrow> s_udp_address s \<noteq> [] \<and> (\<forall>wb \<in> set (s_high s @ s_low s). wb_udp_address wb \<noteq> []))"

text \<open>The size of the next read: the least size doubled some times, and in the range of \<open>int\<close>.\<close>

definition size_ok :: "int \<Rightarrow> bool" where
  "size_ok z \<longleftrightarrow> (\<exists>m \<le> 24. z = MIN_READ_BUFFER * 2 ^ m)"

definition sock_ok :: "os \<Rightarrow> socket \<Rightarrow> bool" where
  "sock_ok os s \<longleftrightarrow> buffers_ok os s \<and> s_protocol s \<in> {PROTOCOL_TCP, PROTOCOL_UDP, PROTOCOL_UDPv6} \<and> size_ok (s_size s)"

definition slot_ok :: "os \<Rightarrow> socket \<Rightarrow> bool" where
  "slot_ok os s \<longleftrightarrow> s_type s \<in> {SOCKET_TYPE_INVALID..SOCKET_TYPE_BIND} \<and>
     (if live s then sock_ok os s else s_high s = [] \<and> s_low s = [])"

lemma slot_ok_tcp: "slot_ok os s \<Longrightarrow> live s \<Longrightarrow> s_protocol s = PROTOCOL_TCP \<Longrightarrow> tcp_ok os s"
  by (simp add: slot_ok_def sock_ok_def buffers_ok_def tcp_ok_def)

text \<open>The state apart from the slots, and what a change of one slot keeps.\<close>

definition server_rest :: "socket_server \<Rightarrow> bool \<times> int \<times> nat \<times> event list \<times> request list" where
  "server_rest ss = (ss_checkctrl ss, ss_alloc_id ss, ss_event_index ss, ss_ev ss, ss_pipe ss)"

lemma server_rest_simps [simp]:
  "server_rest (tick ss) = server_rest ss" "server_rest (syscall c ss) = server_rest ss" "server_rest (put_slot k s ss) = server_rest ss"
  "server_rest (put_result r ss) = server_rest ss" "server_rest (ss\<lparr>ss_result := r\<rparr>) = server_rest ss"
  "server_rest (set_type k ty ss) = server_rest ss" "server_rest (append_sendbuffer os high k request n a ss) = server_rest ss"
  by (simp_all add: server_rest_def tick_def syscall_def put_slot_def put_result_def set_type_def append_sendbuffer_def Let_def split: prod.split)

definition keeps :: "nat \<Rightarrow> socket_server \<Rightarrow> socket_server \<Rightarrow> bool" where
  "keeps k ss ss' \<longleftrightarrow> server_rest ss' = server_rest ss \<and> (\<forall>j. j \<noteq> k \<longrightarrow> ss_slot ss' j = ss_slot ss j) \<and>
     (let s = ss_slot ss k; s' = ss_slot ss' k in s_id s' = s_id s \<and> s_protocol s' = s_protocol s \<and> s_size s' = s_size s \<and> s_udp_address s' = s_udp_address s)"

text \<open>How a write ends: the slot is closed and the result names it, or it keeps its type.\<close>

definition ends :: "nat \<Rightarrow> socket_server \<Rightarrow> int \<Rightarrow> socket_server \<Rightarrow> bool" where
  "ends k ss r ss' \<longleftrightarrow>
     (if r = SOCKET_CLOSE then s_type (ss_slot ss' k) = SOCKET_TYPE_INVALID \<and> s_high (ss_slot ss' k) = [] \<and> s_low (ss_slot ss' k) = [] \<and>
        r_id (ss_result ss') = s_id (ss_slot ss k)
      else r = - 1 \<and> s_type (ss_slot ss' k) = s_type (ss_slot ss k))"

lemma keeps_trans: "keeps k ss1 ss2 \<Longrightarrow> keeps k ss2 ss3 \<Longrightarrow> keeps k ss1 ss3"
  by (simp add: keeps_def Let_def)

lemma ends_trans: "s_id (ss_slot ss2 k) = s_id (ss_slot ss1 k) \<Longrightarrow> s_type (ss_slot ss2 k) = s_type (ss_slot ss1 k) \<Longrightarrow> ends k ss2 r ss3 \<Longrightarrow> ends k ss1 r ss3"
  by (simp add: ends_def)

lemma free_wb_list_rest [simp]:
  "server_rest (free_wb_list wbs ss) = server_rest ss" "ss_result (free_wb_list wbs ss) = ss_result ss" "ss_slot (free_wb_list wbs ss) = ss_slot ss"
  by (induction wbs arbitrary: ss) (simp_all add: write_buffer_free_def, simp_all add: syscall_def server_rest_def)

lemma result_simps [simp]:
  "ss_result (put_result r ss) = r" "ss_result (syscall c ss) = ss_result ss" "ss_result (tick ss) = ss_result ss" "ss_result (put_slot k s ss) = ss_result ss"
  "ss_result (set_type k ty ss) = ss_result ss" "ss_slot (set_type k ty ss) = (ss_slot ss)(k := (ss_slot ss k)\<lparr>s_type := ty\<rparr>)" "ss_slot (write_buffer_free wb ss) = ss_slot ss"
  "server_rest (write_buffer_free wb ss) = server_rest ss"
  by (simp_all add: put_result_def syscall_def tick_def put_slot_def set_type_def write_buffer_free_def server_rest_def)

lemma force_close_keeps:
  assumes "live (ss_slot ss k)"
  shows "\<exists>ss'. force_close k ss = Some ss' \<and> keeps k ss ss' \<and> ends k ss SOCKET_CLOSE ss'"
  using assms by (simp add: force_close_def live_def Let_def keeps_def ends_def)

lemma write_keeps:
  assumes "s = ss_slot ss k" "ss_slot t = ss_slot ss" "server_rest t = server_rest ss"
  shows "keeps k ss (put_slot k (set_wlist high l (s\<lparr>s_wb_size := n\<rparr>)) t)" "s_type (set_wlist high l (s\<lparr>s_wb_size := n\<rparr>)) = s_type s"
  using assms by (simp_all add: keeps_def set_wlist_def Let_def)

lemma live_cong: "s_type s = s_type s' \<Longrightarrow> live s = live s'"
  by (simp add: live_def)

lemma tcp_body_keeps:
  fixes f :: "os \<Rightarrow> bool \<Rightarrow> nat \<Rightarrow> socket_server \<Rightarrow> (int \<times> socket_server) option"
  assumes IH: "\<And>os high k ss x. f os high k ss = Some x \<Longrightarrow> live (ss_slot ss k) \<longrightarrow> keeps k ss (snd x) \<and> ends k ss (fst x) (snd x)"
    and live_slot: "live (ss_slot ss k)"
    and body: "(let s = ss_slot ss k in
      case wlist high s of
        [] \<Rightarrow> Some (- 1, ss)
      | tmp # rest \<Rightarrow>
          (case os_write os (ss_time ss) (s_fd s) (bytes_at os (wb_ptr tmp) (wb_sz tmp)) of
             Ret n \<Rightarrow>
               (let ss1 = syscall (SysWrite (s_fd s) (take (nat n) (bytes_at os (wb_ptr tmp) (wb_sz tmp)))) (tick ss);
                    s1 = s\<lparr>s_wb_size := s_wb_size s - n\<rparr> in
                if n \<noteq> wb_sz tmp then
                  Some (- 1, put_slot k (set_wlist high (tmp\<lparr>wb_ptr := wb_ptr tmp + nat n, wb_sz := wb_sz tmp - n\<rparr> # rest) s1) ss1)
                else f os high k (write_buffer_free tmp (put_slot k (set_wlist high rest s1) ss1)))
           | Fail e \<Rightarrow>
               if e = EINTR then f os high k (tick ss)
               else if e = EAGAIN then Some (- 1, tick ss)
               else do { ss' \<leftarrow> force_close k (tick ss); Some (SOCKET_CLOSE, ss') })) = Some x"
  shows "keeps k ss (snd x) \<and> ends k ss (fst x) (snd x)"
proof -
  define s where "s = ss_slot ss k"
  have live: "live s" using live_slot by (simp add: s_def)
  have same: "keeps k ss ss1 \<and> ends k ss (- 1) ss1" if "ss_slot ss1 = ss_slot ss" "server_rest ss1 = server_rest ss" for ss1
    using that by (simp add: keeps_def ends_def SOCKET_CLOSE_def Let_def)
  have step: "keeps k ss (snd x) \<and> ends k ss (fst x) (snd x)"
    if "keeps k ss ss1" "s_type (ss_slot ss1 k) = s_type s" "f os high k ss1 = Some x" for ss1
  proof -
    have "keeps k ss1 (snd x) \<and> ends k ss1 (fst x) (snd x)" using IH [OF that(3)] live live_cong [OF that(2)] by simp
    then show ?thesis using that keeps_trans [OF that(1)] ends_trans [of ss1 k ss "fst x" "snd x"] by (simp add: keeps_def s_def Let_def)
  qed
  show "keeps k ss (snd x) \<and> ends k ss (fst x) (snd x)"
  proof (cases "wlist high s")
    case Nil
    then show ?thesis using body same [of ss] by (auto simp: s_def Let_def)
  next
    case (Cons tmp rest)
    show ?thesis
    proof (cases "os_write os (ss_time ss) (s_fd s) (bytes_at os (wb_ptr tmp) (wb_sz tmp))")
      case (Ret n)
      define ss1 where "ss1 = syscall (SysWrite (s_fd s) (take (nat n) (bytes_at os (wb_ptr tmp) (wb_sz tmp)))) (tick ss)"
      have ss1: "ss_slot ss1 = ss_slot ss" "server_rest ss1 = server_rest ss" by (simp_all add: ss1_def)
      note put = write_keeps [OF s_def ss1]
      show ?thesis
      proof (cases "n = wb_sz tmp")
        case True
        define ss2 where "ss2 = write_buffer_free tmp (put_slot k (set_wlist high rest (s\<lparr>s_wb_size := s_wb_size s - n\<rparr>)) ss1)"
        have "f os high k ss2 = Some x"
          using body Cons Ret True by (simp add: Let_def ss2_def ss1_def flip: s_def)
        moreover have "keeps k ss ss2" "s_type (ss_slot ss2 k) = s_type s"
          using put by (simp_all add: ss2_def keeps_def)
        ultimately show ?thesis using step by blast
      next
        case False
        then have "x = (- 1, put_slot k (set_wlist high (tmp\<lparr>wb_ptr := wb_ptr tmp + nat n, wb_sz := wb_sz tmp - n\<rparr> # rest) (s\<lparr>s_wb_size := s_wb_size s - n\<rparr>)) ss1)"
          using body Cons Ret by (simp add: Let_def ss1_def flip: s_def)
        then show ?thesis using put by (simp add: ends_def SOCKET_CLOSE_def flip: s_def)
      qed
    next
      case (Fail e)
      consider "e = EINTR" | "e = EAGAIN" | "e \<noteq> EINTR" "e \<noteq> EAGAIN" by blast
      then show ?thesis
      proof cases
        case 1
        then show ?thesis using body Cons Fail step [of "tick ss"] same [of "tick ss"] by (simp add: Let_def flip: s_def)
      next
        case 2
        then show ?thesis using body Cons Fail same [of "tick ss"] by (auto simp: Let_def simp flip: s_def)
      next
        case 3
        then show ?thesis using body Cons Fail force_close_keeps [of "tick ss" k] live by (auto simp: Let_def keeps_def ends_def simp flip: s_def)
      qed
    qed
  qed
qed

lemma send_list_tcp_keeps:
  assumes "send_list_tcp os high k ss = Some (r, ss')" "live (ss_slot ss k)"
  shows "keeps k ss ss' \<and> ends k ss r ss'"
proof -
  have "live (ss_slot ss k) \<longrightarrow> keeps k ss (snd x) \<and> ends k ss (fst x) (snd x)" if "send_list_tcp os high k ss = Some x" for x
    by (rule send_list_tcp.raw_induct [OF _ that, of "\<lambda>os high k ss x. live (ss_slot ss k) \<longrightarrow> keeps k ss (snd x) \<and> ends k ss (fst x) (snd x)"])
      (intro impI, rule tcp_body_keeps)
  then show ?thesis using assms by fastforce
qed

lemma list_bytes_length: "\<forall>wb \<in> set l. 0 \<le> wb_sz wb \<Longrightarrow> int (length (list_bytes os l)) = sum_list (map wb_sz l)"
  by (induction l) (simp_all add: wb_bytes_def)

lemma send_list_udp_spec:
  assumes "s_protocol (ss_slot ss k) \<noteq> PROTOCOL_TCP" "\<forall>wb \<in> set (wlist high (ss_slot ss k)). wb_udp_address wb \<noteq> []"
  shows "\<exists>ss' pre l. send_list_udp os high k ss = Some (- 1, ss') \<and> wlist high (ss_slot ss k) = pre @ l \<and> server_rest ss' = server_rest ss \<and>
    ss_slot ss' = (ss_slot ss)(k := (set_wlist high l (ss_slot ss k))\<lparr>s_wb_size := s_wb_size (ss_slot ss k) - sum_list (map wb_sz pre)\<rparr>)"
  using assms
proof (induction "wlist high (ss_slot ss k)" arbitrary: ss)
  case Nil
  have "set_wlist high [] (ss_slot ss k) = ss_slot ss k" using Nil.hyps by (simp add: wlist_def set_wlist_def split: if_splits)
  then have "(ss_slot ss)(k := (set_wlist high [] (ss_slot ss k))\<lparr>s_wb_size := s_wb_size (ss_slot ss k)\<rparr>) = ss_slot ss" by simp
  then show ?case using Nil.hyps by (subst send_list_udp.simps) (simp flip: Nil.hyps)
next
  case (Cons tmp rest)
  define s where "s = ss_slot ss k"
  note w = Cons.hyps(2) [symmetric, folded s_def]
  have keep: "(set_wlist high (tmp # rest) s)\<lparr>s_wb_size := s_wb_size s\<rparr> = s" using w by (simp add: wlist_def set_wlist_def split: if_splits)
  obtain sa where sa: "udp_socket_address s (wb_udp_address tmp) = Some sa"
    using Cons.prems(2) by (cases "wb_udp_address tmp") (simp_all add: udp_socket_address_def aget_def flip: Cons.hyps(2))
  show ?case
  proof (cases "os_sendto os (ss_time ss) (s_fd s) (bytes_at os (wb_ptr tmp) (wb_sz tmp)) sa")
    case (Fail e)
    then have "\<exists>ss'. send_list_udp os high k ss = Some (- 1, ss') \<and> ss_slot ss' = ss_slot ss \<and> server_rest ss' = server_rest ss"
      using w sa by (subst send_list_udp.simps) (simp add: Let_def flip: s_def)
    then obtain ss' where "send_list_udp os high k ss = Some (- 1, ss')" "ss_slot ss' = ss_slot ss" "server_rest ss' = server_rest ss" by blast
    moreover have "(ss_slot ss)(k := (set_wlist high (tmp # rest) s)\<lparr>s_wb_size := s_wb_size s\<rparr>) = ss_slot ss" unfolding keep by (simp add: s_def)
    ultimately show ?thesis using w unfolding s_def [symmetric] by (intro exI [of _ ss'] exI [of _ "[]"] exI [of _ "tmp # rest"]) simp
  next
    case (Ret n)
    define s1 where "s1 = set_wlist high rest (s\<lparr>s_wb_size := s_wb_size s - wb_sz tmp\<rparr>)"
    define ss1 where "ss1 = write_buffer_free tmp (put_slot k s1 (syscall (SysSendto (s_fd s) (bytes_at os (wb_ptr tmp) (wb_sz tmp)) sa) (tick ss)))"
    have eq: "send_list_udp os high k ss = send_list_udp os high k ss1"
      using w sa Ret by (subst send_list_udp.simps) (simp add: Let_def ss1_def s1_def flip: s_def)
    have k1: "ss_slot ss1 = (ss_slot ss)(k := s1)" "server_rest ss1 = server_rest ss" by (simp_all add: ss1_def)
    have s1: "wlist high s1 = rest" "s_protocol s1 = s_protocol s" "s_wb_size s1 = s_wb_size s - wb_sz tmp"
        "(set_wlist high l s1)\<lparr>s_wb_size := m\<rparr> = (set_wlist high l s)\<lparr>s_wb_size := m\<rparr>" for l m
      by (simp_all add: s1_def wlist_def set_wlist_def)
    obtain ss' pre l where "send_list_udp os high k ss1 = Some (- 1, ss')" "rest = pre @ l" "server_rest ss' = server_rest ss1"
        "ss_slot ss' = (ss_slot ss1)(k := (set_wlist high l s1)\<lparr>s_wb_size := s_wb_size s1 - sum_list (map wb_sz pre)\<rparr>)"
      using Cons.hyps(1) [of ss1] Cons.prems [folded s_def, unfolded w] s1 k1 by auto
    then show ?thesis using eq w s1 k1 unfolding s_def [symmetric]
      by (intro exI [of _ ss'] exI [of _ "tmp # pre"] exI [of _ l]) (simp add: algebra_simps)
  qed
qed

lemma buffers_ok_suffix:
  assumes "buffers_ok os s" "wlist high s = pre @ l"
  shows "buffers_ok os ((set_wlist high l s)\<lparr>s_wb_size := s_wb_size s - sum_list (map wb_sz pre)\<rparr>)"
proof -
  have "\<forall>wb \<in> set pre. 0 \<le> wb_sz wb" using assms by (cases high) (auto simp: buffers_ok_def wlist_def)
  from list_bytes_length [OF this, of os] show ?thesis
    using assms by (cases high) (auto simp: buffers_ok_def wlist_def set_wlist_def unsent_simps)
qed

lemma send_list_udp_ok:
  assumes "sock_ok os (ss_slot ss k)" "s_protocol (ss_slot ss k) \<noteq> PROTOCOL_TCP"
  shows "\<exists>ss'. send_list os high k ss = Some (- 1, ss') \<and> keeps k ss ss' \<and> ends k ss (- 1) ss' \<and> sock_ok os (ss_slot ss' k)"
proof -
  have "\<forall>wb \<in> set (wlist high (ss_slot ss k)). wb_udp_address wb \<noteq> []" using assms by (auto simp: sock_ok_def buffers_ok_def wlist_def)
  from send_list_udp_spec [OF assms(2) this, of os]
  obtain ss' pre l where ss': "send_list_udp os high k ss = Some (- 1, ss')" "wlist high (ss_slot ss k) = pre @ l" "server_rest ss' = server_rest ss"
      "ss_slot ss' = (ss_slot ss)(k := (set_wlist high l (ss_slot ss k))\<lparr>s_wb_size := s_wb_size (ss_slot ss k) - sum_list (map wb_sz pre)\<rparr>)" by blast
  have "buffers_ok os (ss_slot ss' k)" using buffers_ok_suffix [OF _ ss'(2)] assms(1) ss'(4) by (simp add: sock_ok_def)
  then show ?thesis using ss' assms
    by (auto simp: send_list_def keeps_def ends_def sock_ok_def set_wlist_def SOCKET_CLOSE_def Let_def)
qed

lemma raise_uncomplete_keeps:
  assumes "raise_uncomplete k ss = Some ss'"
  shows "keeps k ss ss' \<and> s_type (ss_slot ss' k) = s_type (ss_slot ss k)"
  using assms by (auto simp: raise_uncomplete_def require_def keeps_def Let_def split: list.splits if_splits)

lemma keepsD:
  assumes "keeps k ss ss'"
  shows "server_rest ss' = server_rest ss" "j \<noteq> k \<Longrightarrow> ss_slot ss' j = ss_slot ss j" "s_id (ss_slot ss' k) = s_id (ss_slot ss k)"
    "s_protocol (ss_slot ss' k) = s_protocol (ss_slot ss k)" "s_size (ss_slot ss' k) = s_size (ss_slot ss k)" "s_udp_address (ss_slot ss' k) = s_udp_address (ss_slot ss k)"
  using assms by (simp_all add: keeps_def Let_def)

lemma ends_open: "ends k ss r ss' \<Longrightarrow> r \<noteq> SOCKET_CLOSE \<Longrightarrow> r = - 1 \<and> s_type (ss_slot ss' k) = s_type (ss_slot ss k)"
  by (simp add: ends_def)

text \<open>What follows once the high list is empty: a step of the state that the high list left.\<close>

lemma send_buffer_tcp_keeps:
  assumes "send_buffer os k ss = Some (r, ss')" "live (ss_slot ss k)" "s_protocol (ss_slot ss k) = PROTOCOL_TCP"
  shows "keeps k ss ss' \<and> ends k ss r ss'"
proof -
  obtain r1 ss1 where L: "send_list os True k ss = Some (r1, ss1)" using assms(1) by (auto simp: send_buffer_def require_def split: if_splits bind_splits)
  have 1: "keeps k ss ss1" "ends k ss r1 ss1" using L send_list_tcp_keeps assms(2,3) by (simp_all add: send_list_def)
  show ?thesis
  proof (cases "r1 = SOCKET_CLOSE")
    case True
    then show ?thesis using assms(1) L 1 by (simp add: send_buffer_def require_def split: if_splits)
  next
    case False
    then have t1: "r1 = - 1" "s_type (ss_slot ss1 k) = s_type (ss_slot ss k)" using ends_open [OF 1(2)] by simp_all
    then have live1: "live (ss_slot ss1 k)" "s_protocol (ss_slot ss1 k) = PROTOCOL_TCP" using assms(2,3) keepsD(4) [OF 1(1)] by (simp_all add: live_def)
    have go: "keeps k ss ss' \<and> ends k ss r ss'" if "keeps k ss1 ss'" "ends k ss1 r ss'"
      using keeps_trans [OF 1(1) that(1)] ends_trans [OF keepsD(3) [OF 1(1)] t1(2) that(2)] by simp
    consider "s_high (ss_slot ss1 k) \<noteq> []" | "s_high (ss_slot ss1 k) = []" "s_low (ss_slot ss1 k) \<noteq> []" | "s_high (ss_slot ss1 k) = []" "s_low (ss_slot ss1 k) = []"
      by blast
    then show ?thesis
    proof cases
      case 1
      then have "r = - 1" "ss' = ss1" using assms(1) L False by (simp_all add: send_buffer_def require_def split: if_splits)
      then show ?thesis using go by (simp add: keeps_def ends_def SOCKET_CLOSE_def Let_def)
    next
      case 2
      then obtain r2 ss2 where L2: "send_list os False k ss1 = Some (r2, ss2)" using assms(1) L False by (auto simp: send_buffer_def require_def split: if_splits bind_splits)
      then have 3: "keeps k ss1 ss2" "ends k ss1 r2 ss2" using send_list_tcp_keeps live1 by (simp_all add: send_list_def)
      have "r = r2 \<and> ss' = ss2 \<or> r2 \<noteq> SOCKET_CLOSE \<and> r = - 1 \<and> raise_uncomplete k ss2 = Some ss'"
        using assms(1) L L2 False 2 ends_open [OF 3(2)] by (auto simp: send_buffer_def require_def split: if_splits bind_splits)
      then show ?thesis
      proof (elim disjE conjE)
        assume r: "r2 \<noteq> SOCKET_CLOSE" "r = - 1" "raise_uncomplete k ss2 = Some ss'"
        note u = raise_uncomplete_keeps [OF r(3)]
        have "ends k ss1 r ss'" using u ends_open [OF 3(2) r(1)] r(2) by (simp add: ends_def SOCKET_CLOSE_def)
        with u show ?thesis using go keeps_trans [OF 3(1)] by blast
      qed (use go 3 in simp)
    next
      case 3
      define ss2 where "ss2 = syscall (SysSpWrite (s_fd (ss_slot ss1 k)) False) ss1"
      have k2: "keeps k ss1 ss2" "ends k ss1 (- 1) ss2" by (simp_all add: ss2_def keeps_def ends_def SOCKET_CLOSE_def Let_def)
      obtain ss3 where k3: "force_close k ss2 = Some ss3" "keeps k ss2 ss3" "ends k ss2 SOCKET_CLOSE ss3"
        using force_close_keeps [of ss2 k] live1(1) by (auto simp: ss2_def)
      have "ends k ss1 SOCKET_CLOSE ss3" using ends_trans [OF _ _ k3(3), of ss1] by (simp add: ss2_def)
      moreover have "r = SOCKET_CLOSE \<and> ss' = ss3 \<or> r = - 1 \<and> ss' = ss2"
        using assms(1) L False 3 k3(1) unfolding ss2_def send_buffer_def require_def Let_def by (simp split: if_splits)
      ultimately show ?thesis using go k2 keeps_trans [OF k2(1) k3(2)] by blast
    qed
  qed
qed

lemma slot_okI_closed: "s_type s = SOCKET_TYPE_INVALID \<Longrightarrow> s_high s = [] \<Longrightarrow> s_low s = [] \<Longrightarrow> slot_ok os s"
  by (simp add: slot_ok_def live_def socket_states)

lemma slot_okI_live: "live s \<Longrightarrow> s_type s \<in> {SOCKET_TYPE_INVALID..SOCKET_TYPE_BIND} \<Longrightarrow> sock_ok os s \<Longrightarrow> slot_ok os s"
  by (simp add: slot_ok_def)

lemma sock_ok_whole: "sock_ok os s \<Longrightarrow> \<not> list_uncomplete (s_low s)"
  by (cases "s_low s") (auto simp: sock_ok_def buffers_ok_def list_uncomplete_def)

lemma tcp_ok_sock_ok: "tcp_ok os s \<Longrightarrow> size_ok (s_size s) \<Longrightarrow> sock_ok os s"
  by (simp add: tcp_ok_def sock_ok_def buffers_ok_def)

text \<open>What a change of slot \<open>k\<close> with result \<open>r\<close> gives: the slot is well-formed, and when it is closed the result names it.\<close>

definition moves :: "os \<Rightarrow> nat \<Rightarrow> socket_server \<Rightarrow> int \<Rightarrow> socket_server \<Rightarrow> bool" where
  "moves os k ss r ss' \<longleftrightarrow> server_rest ss' = server_rest ss \<and> (\<forall>j. j \<noteq> k \<longrightarrow> ss_slot ss' j = ss_slot ss j) \<and>
     slot_ok os (ss_slot ss' k) \<and> s_id (ss_slot ss' k) = s_id (ss_slot ss k) \<and>
     (s_type (ss_slot ss' k) = SOCKET_TYPE_RESERVE \<longrightarrow> s_type (ss_slot ss k) = SOCKET_TYPE_RESERVE) \<and>
     (live (ss_slot ss k) \<longrightarrow> live (ss_slot ss' k) \<or>
        (r = SOCKET_CLOSE \<or> r = SOCKET_ERROR) \<and> s_type (ss_slot ss' k) = SOCKET_TYPE_INVALID \<and> r_id (ss_result ss') = s_id (ss_slot ss k))"

lemma moves_close:
  assumes "keeps k ss ss'" "ends k ss SOCKET_CLOSE ss'"
  shows "moves os k ss SOCKET_CLOSE ss'"
  using assms slot_okI_closed [of "ss_slot ss' k" os] by (simp add: moves_def keepsD [OF assms(1)] ends_def) (simp add: socket_states)

lemma moves_keep:
  assumes "keeps k ss ss'" "s_type (ss_slot ss' k) = s_type (ss_slot ss k)" "slot_ok os (ss_slot ss' k)"
  shows "moves os k ss r ss'"
  using assms by (simp add: moves_def keepsD [OF assms(1)] live_def)

lemma send_buffer_tcp_ok:
  assumes os: "os_ok os" and ok: "slot_ok os (ss_slot ss k)" "live (ss_slot ss k)" and tcp: "s_protocol (ss_slot ss k) = PROTOCOL_TCP"
  shows "\<exists>r ss'. send_buffer os k ss = Some (r, ss') \<and> keeps k ss ss' \<and> ends k ss r ss' \<and> slot_ok os (ss_slot ss' k)"
proof -
  obtain r ss' where S: "send_buffer os k ss = Some (r, ss')" "writes os k ss r ss'" using send_buffer_spec [OF os slot_ok_tcp [OF ok tcp]] by blast
  note K = send_buffer_tcp_keeps [OF S(1) ok(2) tcp]
  have "slot_ok os (ss_slot ss' k)"
  proof (cases "r = SOCKET_CLOSE")
    case True
    then show ?thesis using K slot_okI_closed by (simp add: ends_def)
  next
    case False
    then have "tcp_ok os (ss_slot ss' k)" using S(2) by (auto simp: writes_def Let_def)
    then have "sock_ok os (ss_slot ss' k)" using tcp_ok_sock_ok K ok by (simp add: keeps_def slot_ok_def sock_ok_def Let_def)
    then show ?thesis using False K ok by (simp add: ends_def slot_ok_def live_def)
  qed
  with S K show ?thesis by blast
qed

lemma send_buffer_udp_ok:
  assumes ok: "slot_ok os (ss_slot ss k)" "live (ss_slot ss k)" and udp: "s_protocol (ss_slot ss k) \<noteq> PROTOCOL_TCP"
  shows "\<exists>r ss'. send_buffer os k ss = Some (r, ss') \<and> keeps k ss ss' \<and> ends k ss r ss' \<and> slot_ok os (ss_slot ss' k)"
proof -
  have sock: "sock_ok os (ss_slot ss k)" using ok by (simp add: slot_ok_def)
  obtain ss1 where L1: "send_list os True k ss = Some (- 1, ss1)" and k1: "keeps k ss ss1" "ends k ss (- 1) ss1" "sock_ok os (ss_slot ss1 k)"
    using send_list_udp_ok [OF sock udp, of True] by blast
  have slot1: "slot_ok os (ss_slot ss1 k)" "live (ss_slot ss1 k)" and t1: "s_type (ss_slot ss1 k) = s_type (ss_slot ss k)"
    using k1 ok by (simp_all add: ends_def SOCKET_CLOSE_def slot_ok_def live_def)
  obtain ss2 where L2: "send_list os False k ss1 = Some (- 1, ss2)" and k2: "keeps k ss1 ss2" "ends k ss1 (- 1) ss2" "sock_ok os (ss_slot ss2 k)"
    using send_list_udp_ok [OF k1(3), of False] keepsD(4) [OF k1(1)] udp by auto
  have slot2: "slot_ok os (ss_slot ss2 k)" using k2 slot1 by (simp add: ends_def SOCKET_CLOSE_def slot_ok_def live_def)
  have e2: "ends k ss (- 1) ss2" by (rule ends_trans [OF keepsD(3) [OF k1(1)] t1 k2(2)])
  define ss3 where "ss3 = syscall (SysSpWrite (s_fd (ss_slot ss1 k)) False) ss1"
  have k3: "keeps k ss ss3" "ends k ss (- 1) ss3" "slot_ok os (ss_slot ss3 k)" "live (ss_slot ss3 k)"
    using k1 slot1 by (simp_all add: ss3_def keeps_def ends_def)
  obtain ss4 where k4: "force_close k ss3 = Some ss4" "keeps k ss3 ss4" "ends k ss3 SOCKET_CLOSE ss4" using force_close_keeps [OF k3(4)] by blast
  have e4: "ends k ss SOCKET_CLOSE ss4" using ends_trans [OF _ _ k4(3), of ss] k3 by (simp add: keeps_def ends_def Let_def SOCKET_CLOSE_def)
  have slot4: "slot_ok os (ss_slot ss4 k)" using k4(3) slot_okI_closed by (simp add: ends_def)
  have "send_buffer os k ss = (if s_high (ss_slot ss1 k) \<noteq> [] then Some (- 1, ss1) else if s_low (ss_slot ss1 k) \<noteq> [] then Some (- 1, ss2)
      else if s_type (ss_slot ss3 k) = SOCKET_TYPE_HALFCLOSE then Some (SOCKET_CLOSE, ss4) else Some (- 1, ss3))"
    using L1 L2 k4(1) sock_ok_whole [OF sock] sock_ok_whole [OF k2(3)] by (simp add: send_buffer_def SOCKET_CLOSE_def ss3_def Let_def)
  then show ?thesis using k1 slot1 keeps_trans [OF k1(1) k2(1)] e2 slot2 k3 keeps_trans [OF k3(1) k4(2)] e4 slot4 by (simp split: if_splits)
qed

lemma send_buffer_ok:
  assumes "os_ok os" "slot_ok os (ss_slot ss k)" "live (ss_slot ss k)"
  shows "\<exists>r ss'. send_buffer os k ss = Some (r, ss') \<and> keeps k ss ss' \<and> ends k ss r ss' \<and> slot_ok os (ss_slot ss' k)"
  using send_buffer_tcp_ok [OF assms] send_buffer_udp_ok [OF assms(2,3)] by blast

lemma send_buffer_moves:
  assumes "os_ok os" "slot_ok os (ss_slot ss k)" "live (ss_slot ss k)"
  shows "\<exists>r ss'. send_buffer os k ss = Some (r, ss') \<and> moves os k ss r ss' \<and> (r = - 1 \<and> keeps k ss ss' \<and> s_type (ss_slot ss' k) = s_type (ss_slot ss k) \<or> r = SOCKET_CLOSE)"
  using send_buffer_ok [OF assms] moves_close [of k ss] moves_keep [of k ss] by (metis ends_open)

section \<open>Requests\<close>

lemma moves_same:
  assumes "ss_slot ss' = ss_slot ss" "server_rest ss' = server_rest ss" "slot_ok os (ss_slot ss k)"
  shows "moves os k ss r ss'"
  using assms by (simp add: moves_def)

lemma moves_put:
  assumes "ss_slot ss' = (ss_slot ss)(k := s')" "server_rest ss' = server_rest ss" "slot_ok os s'" "s_id s' = s_id (ss_slot ss k)" "live s'"
  shows "moves os k ss r ss'"
  using assms by (simp add: moves_def live_def)

lemma moves_result: "moves os k ss r ss' \<Longrightarrow> r_id x = s_id (ss_slot ss k) \<Longrightarrow> moves os k ss r (ss'\<lparr>ss_result := x\<rparr>)"
  by (auto simp: moves_def)

lemma moves_trans:
  assumes "keeps k ss ss1" "s_type (ss_slot ss1 k) = s_type (ss_slot ss k)" "moves os k ss1 r ss2"
  shows "moves os k ss r ss2"
  using assms(2,3) live_cong [OF assms(2)] unfolding moves_def keepsD(1,3) [OF assms(1)] using keepsD(2) [OF assms(1)] by simp

lemma force_close_moves:
  assumes "live (ss_slot ss k)"
  shows "\<exists>ss'. force_close k ss = Some ss' \<and> moves os k ss SOCKET_CLOSE ss' \<and> moves os k ss SOCKET_ERROR ss' \<and> r_id (ss_result ss') = s_id (ss_slot ss k)"
proof -
  obtain ss' where F: "force_close k ss = Some ss'" "keeps k ss ss'" "ends k ss SOCKET_CLOSE ss'" using force_close_keeps [OF assms] by blast
  have M: "moves os k ss SOCKET_CLOSE ss'" using moves_close [OF F(2,3)] .
  then have "moves os k ss SOCKET_ERROR ss'" using F(3) by (simp add: moves_def ends_def)
  with F M show ?thesis by (simp add: ends_def)
qed

text \<open>A request that does not open a socket is not handled while its id is only reserved.\<close>

definition unreserved :: "int \<Rightarrow> (nat \<Rightarrow> socket) \<Rightarrow> bool" where
  "unreserved i slot \<longleftrightarrow> \<not> (s_type (slot (HASH_ID i)) = SOCKET_TYPE_RESERVE \<and> s_id (slot (HASH_ID i)) = i)"

lemma close_socket_moves:
  assumes os: "os_ok os" and ok: "slot_ok os (ss_slot ss (HASH_ID i))" and un: "unreserved i (ss_slot ss)"
  shows "\<exists>r ss'. close_socket os i shutdown opaque ss = Some (r, ss') \<and> moves os (HASH_ID i) ss r ss'"
proof -
  define k where "k = HASH_ID i"
  define s where "s = ss_slot ss k"
  show ?thesis
  proof (cases "s_type s = SOCKET_TYPE_INVALID \<or> s_id s \<noteq> i")
    case True
    then show ?thesis using ok moves_same by (simp add: close_socket_def flip: k_def s_def)
  next
    case False
    then have live: "live s" and id: "s_id s = i" using un by (auto simp: unreserved_def live_def s_def k_def)
    obtain r ss1 where S: "(if send_buffer_empty s then Some (- 1, ss) else send_buffer os k ss) = Some (r, ss1)" "moves os k ss r ss1"
        "r = - 1 \<and> keeps k ss ss1 \<and> s_type (ss_slot ss1 k) = s_type s \<or> r = SOCKET_CLOSE"
      using send_buffer_moves [OF os, of ss k] ok live moves_same [of ss ss os k "- 1"]
      by (cases "send_buffer_empty s") (auto simp: s_def k_def keeps_def)
    show ?thesis
    proof (cases "r = - 1")
      case False
      then show ?thesis using S \<open>\<not> (s_type s = SOCKET_TYPE_INVALID \<or> s_id s \<noteq> i)\<close>
        by (simp add: close_socket_def Let_def flip: k_def s_def)
    next
      case True
      then have k1: "keeps k ss ss1" "s_type (ss_slot ss1 k) = s_type s" using S(3) by (simp_all add: SOCKET_CLOSE_def)
      then have live1: "live (ss_slot ss1 k)" using live by (simp add: live_def)
      obtain ss2 where F: "force_close k ss1 = Some ss2" "moves os k ss1 SOCKET_CLOSE ss2" using force_close_moves [OF live1] by blast
      have "moves os k ss SOCKET_CLOSE (ss2\<lparr>ss_result := (ss_result ss2)\<lparr>r_id := i, r_opaque := opaque\<rparr>\<rparr>)"
        using moves_result [OF moves_trans [OF k1 [unfolded s_def] F(2)]] id by (simp add: s_def)
      moreover have "slot_ok os ((ss_slot ss1 k)\<lparr>s_type := SOCKET_TYPE_HALFCLOSE\<rparr>)"
        using S(2) live1 by (auto simp: moves_def slot_ok_def live_def socket_states sock_ok_def buffers_ok_def unsent_def)
      then have "moves os k ss (- 1) (set_type k SOCKET_TYPE_HALFCLOSE ss1)"
        using S(2) by (simp add: moves_def) (simp add: live_def socket_states)
      ultimately show ?thesis using S(1) True F(1) \<open>\<not> (s_type s = SOCKET_TYPE_INVALID \<or> s_id s \<noteq> i)\<close>
        by (simp add: close_socket_def Let_def flip: k_def s_def)
    qed
  qed
qed

lemma start_socket_moves:
  assumes ok: "slot_ok os (ss_slot ss (HASH_ID i))" and un: "unreserved i (ss_slot ss)"
  shows "\<exists>r ss'. start_socket os i opaque ss = Some (r, ss') \<and> moves os (HASH_ID i) ss r ss'"
proof -
  define k where "k = HASH_ID i"
  define s where "s = ss_slot ss k"
  have ok': "slot_ok os s" using ok by (simp add: s_def k_def)
  have re: "slot_ok os (s\<lparr>s_type := ty, s_opaque := opaque\<rparr>) \<and> live (s\<lparr>s_type := ty, s_opaque := opaque\<rparr>)" if "live s" "ty \<in> {SOCKET_TYPE_LISTEN..SOCKET_TYPE_BIND}" for ty
    using ok' that by (auto simp: slot_ok_def live_def socket_states sock_ok_def buffers_ok_def unsent_def)
  have f: "\<exists>ss2. force_close k (syscall (SysSpAdd (s_fd s)) (tick ss)) = Some ss2 \<and> moves os k ss SOCKET_ERROR (ss2\<lparr>ss_result := (ss_result ss2)\<lparr>r_data := d\<rparr>\<rparr>)" if "live s" for d
  proof -
    define ss1 where "ss1 = syscall (SysSpAdd (s_fd s)) (tick ss)"
    have "keeps k ss ss1" "s_type (ss_slot ss1 k) = s_type (ss_slot ss k)" "live (ss_slot ss1 k)" using that by (simp_all add: ss1_def keeps_def s_def)
    moreover obtain ss2 where "force_close k ss1 = Some ss2" "moves os k ss1 SOCKET_ERROR ss2" "r_id (ss_result ss2) = s_id (ss_slot ss1 k)"
      using force_close_moves [OF calculation(3)] by blast
    ultimately show ?thesis using moves_result [OF moves_trans] by (fastforce simp: ss1_def)
  qed
  consider "s_type s = SOCKET_TYPE_INVALID \<or> s_id s \<noteq> i" | "s_id s = i" "s_type s = SOCKET_TYPE_PACCEPT \<or> s_type s = SOCKET_TYPE_PLISTEN"
    | "s_id s = i" "s_type s = SOCKET_TYPE_CONNECTED" | "s_id s = i" "s_type s \<notin> {SOCKET_TYPE_INVALID, SOCKET_TYPE_PACCEPT, SOCKET_TYPE_PLISTEN, SOCKET_TYPE_CONNECTED}" by blast
  then show ?thesis
  proof cases
    case 1
    then show ?thesis using ok moves_same by (simp add: start_socket_def Let_def flip: k_def s_def)
  next
    case 2
    then have "live s" by (auto simp: live_def socket_states)
    show ?thesis
    proof (cases "os_sp_add os (ss_time ss) (s_fd s)")
      case None
      then show ?thesis using 2 re [OF \<open>live s\<close>] moves_put [of _ ss k _ os]
        by (auto simp: start_socket_def Let_def socket_states s_def simp flip: k_def)
    next
      case (Some e)
      obtain ss2 where "force_close k (syscall (SysSpAdd (s_fd s)) (tick ss)) = Some ss2"
          "moves os k ss SOCKET_ERROR (ss2\<lparr>ss_result := (ss_result ss2)\<lparr>r_data := Text (os_strerror os e)\<rparr>\<rparr>)"
        using f [OF \<open>live s\<close>] by blast
      then show ?thesis using 2 Some by (auto simp: start_socket_def Let_def socket_states simp flip: k_def s_def)
    qed
  next
    case 3
    then have "slot_ok os (s\<lparr>s_opaque := opaque\<rparr>)" "live (s\<lparr>s_opaque := opaque\<rparr>)"
      using ok' by (simp_all add: slot_ok_def live_def socket_states sock_ok_def buffers_ok_def unsent_def)
    then show ?thesis using 3 moves_put [of _ ss k _ os] by (simp add: start_socket_def Let_def socket_states s_def flip: k_def)
  next
    case 4
    then show ?thesis using ok moves_same by (simp add: start_socket_def Let_def flip: k_def s_def)
  qed
qed


lemma setopt_socket_moves:
  assumes "slot_ok os (ss_slot ss (HASH_ID i))"
  shows "moves os (HASH_ID i) ss r (setopt_socket i what val ss)"
  using assms moves_same by (simp add: setopt_socket_def Let_def)

lemma set_udp_address_moves:
  assumes ok: "slot_ok os (ss_slot ss (HASH_ID i))" and un: "unreserved i (ss_slot ss)" and a: "address \<noteq> []"
  shows "\<exists>r ss'. set_udp_address i address ss = Some (r, ss') \<and> moves os (HASH_ID i) ss r ss'"
proof -
  define k where "k = HASH_ID i"
  define s where "s = ss_slot ss k"
  obtain ty rest where a: "address = ty # rest" using a by (cases address) auto
  define s' where "s' = s\<lparr>s_udp_address := take (if uint ty = PROTOCOL_UDP then 7 else 19) address @ drop (if uint ty = PROTOCOL_UDP then 7 else 19) (s_udp_address s)\<rparr>"
  have "moves os k ss (- 1) (put_slot k s' ss)" if "s_type s \<noteq> SOCKET_TYPE_INVALID" "s_id s = i"
  proof (rule moves_put)
    have live: "live s" using that un by (auto simp: live_def unreserved_def s_def k_def)
    then show "live s'" by (simp add: s'_def live_def)
    show "slot_ok os s'" using live ok a by (auto simp: slot_ok_def sock_ok_def buffers_ok_def s'_def live_def unsent_def s_def k_def)
  qed (simp_all add: s'_def s_def)
  moreover have "moves os k ss r (put_result x ss)" "moves os k ss r ss" for r x using ok moves_same by (simp_all add: k_def)
  ultimately show ?thesis by (auto simp: set_udp_address_def a aget_def Let_def s'_def simp flip: k_def s_def)
qed

section \<open>Requests to send\<close>

lemma sock_ok_append:
  assumes "sock_ok os s" "0 \<le> wb_sz wb" "\<not> high \<Longrightarrow> wb_ptr wb = wb_buffer wb" "s_protocol s \<noteq> PROTOCOL_TCP \<Longrightarrow> wb_udp_address wb \<noteq> []"
  shows "sock_ok os ((set_wlist high (wlist high s @ [wb]) s)\<lparr>s_wb_size := s_wb_size s + wb_sz wb\<rparr>)"
  using assms by (auto simp: sock_ok_def buffers_ok_def unsent_simps set_wlist_def wlist_def wb_bytes_def)

lemma append_moves:
  assumes ok: "slot_ok os (ss_slot ss k)" "live (ss_slot ss k)" and n: "0 \<le> m" "m \<le> rs_sz request" "\<not> high \<Longrightarrow> m = 0"
    and a: "s_protocol (ss_slot ss k) \<noteq> PROTOCOL_TCP \<Longrightarrow> a \<noteq> []" and t: "ss_slot t = ss_slot ss" "server_rest t = server_rest ss"
  shows "moves os k ss r (append_sendbuffer os high k request m a t)"
proof -
  define wb where "wb = \<lparr>wb_buffer = rs_buffer request, wb_ptr = rs_buffer request + nat m, wb_sz = rs_sz request - m, wb_userobject = False, wb_udp_address = a\<rparr>"
  define s' where "s' = (set_wlist high (wlist high (ss_slot ss k) @ [wb]) (ss_slot ss k))\<lparr>s_wb_size := s_wb_size (ss_slot ss k) + wb_sz wb\<rparr>"
  have e: "append_sendbuffer os high k request m a t = put_slot k s' t"
    using n by (simp add: append_sendbuffer_def send_object_init_def s'_def wb_def set_wlist_def t Let_def)
  have "sock_ok os s'" unfolding s'_def using ok n a by (intro sock_ok_append) (auto simp: slot_ok_def wb_def)
  moreover have "s_type s' = s_type (ss_slot ss k)" by (simp add: s'_def set_wlist_def)
  ultimately have s': "slot_ok os s'" "live s'" using ok by (simp_all add: slot_ok_def live_def)
  show ?thesis unfolding e by (rule moves_put [OF _ _ s'(1) _ s'(2)]) (simp_all add: t, simp add: s'_def set_wlist_def)
qed


lemma write_direct_moves:
  assumes os: "os_ok os" and live: "live (ss_slot ss k)" and n: "0 \<le> rs_sz request"
  shows "\<exists>r ss'. write_direct os k request ss = Some (r, ss') \<and>
    (case r of Some m \<Rightarrow> 0 \<le> m \<and> m \<le> rs_sz request \<and> ss_slot ss' = ss_slot ss \<and> server_rest ss' = server_rest ss | None \<Rightarrow> moves os k ss SOCKET_CLOSE ss')"
proof (cases "os_write os (ss_time ss) (s_fd (ss_slot ss k)) (bytes_at os (rs_buffer request) (rs_sz request))")
  case (Ret m)
  then show ?thesis using os_writeD [OF os Ret] n by (simp add: write_direct_def send_object_init_def)
next
  case (Fail e)
  define ss0 where "ss0 = syscall (SysStderr (bytes ''socket-server: write to '' @ fmt_d (rs_id request) @ bytes '' (fd='' @ fmt_d (s_fd (ss_slot ss k)) @
      bytes '') error :'' @ os_strerror os e @ bytes ''.'' @ [10])) (tick ss)"
  have k0: "keeps k ss ss0" "s_type (ss_slot ss0 k) = s_type (ss_slot ss k)" "live (ss_slot ss0 k)" using live by (simp_all add: ss0_def keeps_def)
  obtain ss1 where F: "force_close k ss0 = Some ss1" "moves os k ss0 SOCKET_CLOSE ss1" using force_close_moves [OF k0(3)] by blast
  have "moves os k ss SOCKET_CLOSE (syscall c ss1)" for c using moves_trans [OF k0(1,2) F(2)] by (simp add: moves_def)
  then show ?thesis using Fail F(1) n by (simp add: write_direct_def send_object_init_def flip: ss0_def)
qed

lemma moves_syscall: "moves os k ss r ss' \<Longrightarrow> moves os k ss r (syscall c ss')"
  by (simp add: moves_def)

lemma send_connected_moves:
  assumes os: "os_ok os" and ok: "slot_ok os (ss_slot ss k)" and n: "0 \<le> rs_sz request" and a: "s_protocol (ss_slot ss k) \<noteq> PROTOCOL_TCP \<Longrightarrow> ua \<noteq> []"
    and s: "s = ss_slot ss k" "k = HASH_ID (rs_id request)" "s_id s = rs_id request" "s_type s = SOCKET_TYPE_CONNECTED" "send_buffer_empty s"
    and ua: "ua = (case udp_address of None \<Rightarrow> s_udp_address s | Some a \<Rightarrow> a)"
  shows "\<exists>r ss'. send_socket os request high udp_address ss = Some (r, ss') \<and> moves os k ss r ss'"
proof -
  have live: "live (ss_slot ss k)" using s by (simp add: live_def socket_states)
  note app = append_moves [OF ok live]
  show ?thesis
  proof (cases "s_protocol s = PROTOCOL_TCP")
    case True
    obtain r ss1 where W: "write_direct os k request ss = Some (r, ss1)"
        "case r of Some m \<Rightarrow> 0 \<le> m \<and> m \<le> rs_sz request \<and> ss_slot ss1 = ss_slot ss \<and> server_rest ss1 = server_rest ss | None \<Rightarrow> moves os k ss SOCKET_CLOSE ss1"
      using write_direct_moves [OF os live n] by blast
    then have eq: "send_socket os request high udp_address ss = Some (case r of None \<Rightarrow> (SOCKET_CLOSE, ss1)
        | Some m \<Rightarrow> (- 1, if m = rs_sz request then syscall (free_object False (rs_buffer request)) ss1
            else syscall (SysSpWrite (s_fd s) True) (append_sendbuffer os True k request m [] ss1)))"
      using s True n by (simp add: send_socket_def Let_def send_object_init_def socket_states split: option.split)
    then show ?thesis using W(2) app [where high = True and a = "[]" and t = ss1] moves_same [of ss1 ss os k "- 1"] True s(1) ok
      by (auto intro!: moves_syscall split: option.splits)
  next
    case False
    obtain sa where sa: "udp_socket_address s ua = Some sa" using a False s(1) by (cases ua) (auto simp: udp_socket_address_def aget_def)
    define ret where "ret = os_sendto os (ss_time ss) (s_fd s) (bytes_at os (rs_buffer request) (rs_sz request)) sa"
    define ss1 where "ss1 = (case ret of Ret _ \<Rightarrow> syscall (SysSendto (s_fd s) (bytes_at os (rs_buffer request) (rs_sz request)) sa) (tick ss) | Fail _ \<Rightarrow> tick ss)"
    have ss1: "ss_slot ss1 = ss_slot ss" "server_rest ss1 = server_rest ss" by (simp_all add: ss1_def split: ret.split)
    have "send_socket os request high udp_address ss = Some (- 1, if ret \<noteq> Ret (rs_sz request) then syscall (SysSpWrite (s_fd s) True) (append_sendbuffer os high k request 0 ua ss1)
        else syscall (free_object False (rs_buffer request)) ss1)"
      using False n sa s(3-5) unfolding send_socket_def Let_def s(2) [symmetric] s(1) [symmetric] ua [symmetric] send_object_init_def ret_def ss1_def
      by (simp add: socket_states)
    then show ?thesis using app [OF _ n, of high ua ss1 "- 1"] a ss1 moves_same [OF ss1 ok] by (auto intro!: moves_syscall)
  qed
qed

lemma send_socket_moves:
  assumes os: "os_ok os" and ok: "slot_ok os (ss_slot ss k)" and k: "k = HASH_ID (rs_id request)" and un: "unreserved (rs_id request) (ss_slot ss)"
    and n: "0 \<le> rs_sz request" and a: "udp_address \<noteq> Some []"
  shows "\<exists>r ss'. send_socket os request high udp_address ss = Some (r, ss') \<and> moves os k ss r ss'"
proof -
  define s where "s = ss_slot ss k"
  define ua where "ua = (case udp_address of None \<Rightarrow> s_udp_address s | Some a \<Rightarrow> a)"
  have live: "live s" if "s_type s \<noteq> SOCKET_TYPE_INVALID" "s_id s = rs_id request" using that un by (simp add: unreserved_def live_def s_def k)
  have same: "moves os k ss r (syscall c ss)" "moves os k ss r (syscall c (syscall d ss))" for r c d using ok moves_same by simp_all
  consider "s_type s = SOCKET_TYPE_INVALID \<or> s_id s \<noteq> rs_id request \<or> s_type s = SOCKET_TYPE_HALFCLOSE \<or> s_type s = SOCKET_TYPE_PACCEPT"
    | "s_id s = rs_id request" "s_type s = SOCKET_TYPE_PLISTEN \<or> s_type s = SOCKET_TYPE_LISTEN"
    | "s_id s = rs_id request" "live s" "s_type s = SOCKET_TYPE_CONNECTED" "send_buffer_empty s"
    | "s_id s = rs_id request" "live s" "s_type s \<noteq> SOCKET_TYPE_INVALID" "s_type s \<noteq> SOCKET_TYPE_HALFCLOSE" "s_type s \<noteq> SOCKET_TYPE_PACCEPT"
        "s_type s \<noteq> SOCKET_TYPE_PLISTEN" "s_type s \<noteq> SOCKET_TYPE_LISTEN"
        "\<not> (send_buffer_empty s \<and> s_type s = SOCKET_TYPE_CONNECTED)"
    using live by blast
  then show ?thesis
  proof cases
    case 1
    then show ?thesis using same by (auto simp: send_socket_def Let_def s_def k split: prod.split)
  next
    case 2
    then show ?thesis using same by (auto simp: send_socket_def Let_def s_def k socket_states split: prod.split)
  next
    case 3
    then have "s_protocol s \<noteq> PROTOCOL_TCP \<Longrightarrow> ua \<noteq> []" using ok a by (auto simp: ua_def slot_ok_def sock_ok_def buffers_ok_def s_def split: option.split)
    then show ?thesis using send_connected_moves [OF os ok n _ s_def k 3(1,3,4) ua_def] by (simp add: s_def)
  next
    case 4
    then have ua: "s_protocol s \<noteq> PROTOCOL_TCP \<Longrightarrow> ua \<noteq> []" using ok a by (auto simp: ua_def slot_ok_def sock_ok_def buffers_ok_def s_def split: option.split)
    have "send_socket os request high udp_address ss = Some (- 1, append_sendbuffer os high k request 0 (if s_protocol s = PROTOCOL_TCP then [] else ua) ss)"
      using 4 n unfolding send_socket_def Let_def k [symmetric] s_def [symmetric] ua_def [symmetric] send_object_init_def by auto
    then show ?thesis using append_moves [OF ok _ _ n, of high "if s_protocol s = PROTOCOL_TCP then [] else ua" ss "- 1"] 4(2) ua by (simp add: s_def)
  qed
qed

section \<open>Requests that open a socket\<close>

text \<open>A reserved slot is taken: it is free again or holds an open socket.\<close>

definition reserved_slot :: "os \<Rightarrow> int \<Rightarrow> socket_server \<Rightarrow> bool" where
  "reserved_slot os i ss \<longleftrightarrow> (let s = ss_slot ss (HASH_ID i) in slot_ok os s \<and> s_type s = SOCKET_TYPE_RESERVE \<and> s_id s = i)"

definition takes_slot :: "os \<Rightarrow> int \<Rightarrow> socket_server \<Rightarrow> socket_server \<Rightarrow> bool" where
  "takes_slot os i ss ss' \<longleftrightarrow> server_rest ss' = server_rest ss \<and> (\<forall>j. j \<noteq> HASH_ID i \<longrightarrow> ss_slot ss' j = ss_slot ss j) \<and>
     slot_ok os (ss_slot ss' (HASH_ID i)) \<and> s_id (ss_slot ss' (HASH_ID i)) = i \<and> s_type (ss_slot ss' (HASH_ID i)) \<noteq> SOCKET_TYPE_RESERVE"

lemma takes_moves: "reserved_slot os i ss \<Longrightarrow> takes_slot os i ss ss' \<Longrightarrow> moves os (HASH_ID i) ss r ss'"
  by (simp add: reserved_slot_def takes_slot_def moves_def live_def Let_def)

lemma takes_simps [simp]:
  "takes_slot os i ss (syscall c ss') = takes_slot os i ss ss'" "takes_slot os i ss (put_result r ss') = takes_slot os i ss ss'"
  by (simp_all add: takes_slot_def)

lemma takes_closed:
  assumes "\<And>j. j \<noteq> HASH_ID i \<Longrightarrow> ss_slot ss' j = ss_slot ss j" "server_rest ss' = server_rest ss" "s = ss_slot ss' (HASH_ID i)"
    "s_id s = i" "s_type s = SOCKET_TYPE_INVALID" "s_high s = []" "s_low s = []"
  shows "takes_slot os i ss ss'"
  using assms slot_okI_closed [of s os] by (simp add: takes_slot_def) (simp add: socket_states)

lemma takes_open:
  assumes "\<And>j. j \<noteq> HASH_ID i \<Longrightarrow> ss_slot ss' j = ss_slot ss j" "server_rest ss' = server_rest ss" "s = ss_slot ss' (HASH_ID i)"
    "s_id s = i" "s_type s \<in> {SOCKET_TYPE_PLISTEN..SOCKET_TYPE_BIND}" "s_high s = []" "s_low s = []" "s_wb_size s = 0" "s_size s = MIN_READ_BUFFER"
    "s_protocol s = PROTOCOL_TCP \<or> s_protocol s \<in> {PROTOCOL_UDP, PROTOCOL_UDPv6} \<and> s_udp_address s \<noteq> []"
  shows "takes_slot os i ss ss'"
  using assms by (auto simp: takes_slot_def slot_ok_def live_def sock_ok_def buffers_ok_def unsent_def socket_states size_ok_def intro: exI [of _ 0])

lemma reserved_slotD:
  assumes "reserved_slot os i ss"
  shows "s_type (ss_slot ss (HASH_ID i)) = SOCKET_TYPE_RESERVE" "s_id (ss_slot ss (HASH_ID i)) = i" "s_high (ss_slot ss (HASH_ID i)) = []" "s_low (ss_slot ss (HASH_ID i)) = []"
  using assms by (simp_all add: reserved_slot_def slot_ok_def live_def Let_def)

lemma new_fd_spec:
  assumes "reserved_slot os i ss" "ss_slot t = ss_slot ss" "server_rest t = server_rest ss"
  shows "\<exists>ok t'. new_fd os i fd protocol opaque add t = Some (ok, t') \<and> server_rest t' = server_rest ss \<and> (\<not> add \<longrightarrow> ok) \<and>
    (if ok then ss_slot t' = (ss_slot ss)(HASH_ID i := (ss_slot ss (HASH_ID i))\<lparr>s_id := i, s_fd := fd, s_protocol := protocol, s_size := MIN_READ_BUFFER, s_opaque := opaque, s_wb_size := 0\<rparr>)
     else ss_slot t' = (ss_slot ss)(HASH_ID i := (ss_slot ss (HASH_ID i))\<lparr>s_type := SOCKET_TYPE_INVALID\<rparr>))"
  using reserved_slotD [OF assms(1)] assms(2,3) by (auto simp: new_fd_def Let_def)

lemma open_failed_takes:
  assumes "reserved_slot os i ss" "ss_slot t = ss_slot ss \<or> ss_slot t = (ss_slot ss)(HASH_ID i := (ss_slot ss (HASH_ID i))\<lparr>s_type := ty\<rparr>)" "server_rest t = server_rest ss"
  shows "\<exists>ss'. open_failed (HASH_ID i) i opaque msg t = (SOCKET_ERROR, ss') \<and> takes_slot os i ss ss'"
proof -
  define ss' where "ss' = set_type (HASH_ID i) SOCKET_TYPE_INVALID (put_result \<lparr>r_id = i, r_opaque = opaque, r_ud = 0, r_data = Text msg\<rparr> t)"
  have "takes_slot os i ss ss'"
    by (rule takes_closed [OF _ _ refl]) (use assms(2,3) reserved_slotD [OF assms(1)] in \<open>auto simp: ss'_def\<close>)
  then show ?thesis by (simp add: open_failed_def ss'_def)
qed

lemma new_socket_takes:
  assumes "reserved_slot os i ss" "ty \<in> {SOCKET_TYPE_PLISTEN..SOCKET_TYPE_BIND}"
    "ss_slot t = (ss_slot ss)(HASH_ID i := (ss_slot ss (HASH_ID i))\<lparr>s_id := i, s_fd := fd, s_protocol := PROTOCOL_TCP, s_size := MIN_READ_BUFFER, s_opaque := opaque, s_wb_size := 0\<rparr>)"
    "server_rest t = server_rest ss"
  shows "takes_slot os i ss (set_type (HASH_ID i) ty t)"
  using assms reserved_slotD [OF assms(1)] by (intro takes_open [OF _ _ refl]) simp_all

lemma connect_loop_same:
  "ss_slot (snd (connect_loop os as e ss)) = ss_slot ss \<and> server_rest (snd (connect_loop os as e ss)) = server_rest ss"
proof (induction as arbitrary: e ss)
  case (Cons a as)
  then show ?case by (cases a) (simp split: ret.split, simp add: Let_def split: ret.split)
qed simp

lemma open_socket_takes:
  assumes r: "reserved_slot os i ss"
  shows "\<exists>r ss'. open_socket os i port opaque host ss = Some (r, ss') \<and> takes_slot os i ss ss'"
proof (cases "os_getaddrinfo os (ss_time ss) host (fmt_d port)")
  case (Inl msg)
  then show ?thesis using open_failed_takes [OF r, of "tick ss" _ opaque msg] by (auto simp: open_socket_def)
next
  case (Inr ais)
  obtain res t where L: "connect_loop os ais (EOTHER 0) (tick ss) = (res, t)" by fastforce
  then have t: "ss_slot t = ss_slot ss" "server_rest t = server_rest ss" using connect_loop_same [of os ais "EOTHER 0" "tick ss"] by simp_all
  show ?thesis
  proof (cases res)
    case (Inl e)
    then show ?thesis using open_failed_takes [OF r, of t _ opaque "os_strerror os e"] Inr L t by (auto simp: open_socket_def)
  next
    case (Inr x)
    obtain sock connected name where x: "x = (sock, connected, name)" by (cases x)
    obtain ok t' where N: "new_fd os i sock PROTOCOL_TCP opaque True t = Some (ok, t')" "server_rest t' = server_rest ss"
      "if ok then ss_slot t' = (ss_slot ss)(HASH_ID i := (ss_slot ss (HASH_ID i))\<lparr>s_id := i, s_fd := sock, s_protocol := PROTOCOL_TCP, s_size := MIN_READ_BUFFER, s_opaque := opaque, s_wb_size := 0\<rparr>)
       else ss_slot t' = (ss_slot ss)(HASH_ID i := (ss_slot ss (HASH_ID i))\<lparr>s_type := SOCKET_TYPE_INVALID\<rparr>)"
      using new_fd_spec [OF r t, of sock PROTOCOL_TCP opaque True] by blast
    show ?thesis
    proof (cases ok)
      case True
      then show ?thesis using N \<open>os_getaddrinfo _ _ _ _ = Inr ais\<close> L Inr x new_socket_takes [OF r, where t = t' and fd = sock and opaque = opaque]
        by (simp add: open_socket_def Let_def socket_states)
    next
      case False
      then obtain ss' where "open_failed (HASH_ID i) i opaque (bytes ''reach skynet socket number limit'') (syscall (SysClose sock) t') = (SOCKET_ERROR, ss')" "takes_slot os i ss ss'"
        using open_failed_takes [OF r, of "syscall (SysClose sock) t'" SOCKET_TYPE_INVALID] N(2,3) by auto
      then show ?thesis using N(1) False \<open>os_getaddrinfo _ _ _ _ = Inr ais\<close> L Inr x by (simp add: open_socket_def Let_def)
    qed
  qed
qed

lemma listen_socket_takes:
  assumes r: "reserved_slot os i ss"
  shows "\<exists>r ss'. listen_socket os i fd opaque ss = Some (r, ss') \<and> takes_slot os i ss ss'"
proof -
  obtain t' where N: "new_fd os i fd PROTOCOL_TCP opaque False ss = Some (True, t')" "server_rest t' = server_rest ss"
      "ss_slot t' = (ss_slot ss)(HASH_ID i := (ss_slot ss (HASH_ID i))\<lparr>s_id := i, s_fd := fd, s_protocol := PROTOCOL_TCP, s_size := MIN_READ_BUFFER, s_opaque := opaque, s_wb_size := 0\<rparr>)"
    using new_fd_spec [OF r refl refl, of fd PROTOCOL_TCP opaque False] by auto
  then show ?thesis using new_socket_takes [OF r _ N(3,2), of SOCKET_TYPE_PLISTEN] by (simp add: listen_socket_def socket_states)
qed

lemma bind_socket_takes:
  assumes r: "reserved_slot os i ss"
  shows "\<exists>r ss'. bind_socket os i fd opaque ss = Some (r, ss') \<and> takes_slot os i ss ss'"
proof -
  obtain ok t' where N: "new_fd os i fd PROTOCOL_TCP opaque True ss = Some (ok, t')" "server_rest t' = server_rest ss"
      "if ok then ss_slot t' = (ss_slot ss)(HASH_ID i := (ss_slot ss (HASH_ID i))\<lparr>s_id := i, s_fd := fd, s_protocol := PROTOCOL_TCP, s_size := MIN_READ_BUFFER, s_opaque := opaque, s_wb_size := 0\<rparr>)
       else ss_slot t' = (ss_slot ss)(HASH_ID i := (ss_slot ss (HASH_ID i))\<lparr>s_type := SOCKET_TYPE_INVALID\<rparr>)"
    using new_fd_spec [OF r refl refl, of fd PROTOCOL_TCP opaque True] by auto
  have "takes_slot os i ss (set_type (HASH_ID i) SOCKET_TYPE_BIND (syscall (SysNonblocking fd) t'))" if ok
    using N that new_socket_takes [OF r, where t = "syscall (SysNonblocking fd) t'" and ty = SOCKET_TYPE_BIND and fd = fd and opaque = opaque] by (simp add: socket_states)
  moreover have "takes_slot os i ss t'" if "\<not> ok" using N that reserved_slotD [OF r] by (intro takes_closed [OF _ _ refl]) simp_all
  ultimately show ?thesis using N(1) by (cases ok) (simp_all add: bind_socket_def)
qed

lemma add_udp_socket_takes:
  assumes r: "reserved_slot os i ss"
  shows "\<exists>ss'. add_udp_socket os i fd v6 opaque ss = Some ss' \<and> takes_slot os i ss ss'"
proof -
  define p where "p = (if v6 then PROTOCOL_UDPv6 else PROTOCOL_UDP)"
  obtain ok t' where N: "new_fd os i fd p opaque True ss = Some (ok, t')" "server_rest t' = server_rest ss"
      "if ok then ss_slot t' = (ss_slot ss)(HASH_ID i := (ss_slot ss (HASH_ID i))\<lparr>s_id := i, s_fd := fd, s_protocol := p, s_size := MIN_READ_BUFFER, s_opaque := opaque, s_wb_size := 0\<rparr>)
       else ss_slot t' = (ss_slot ss)(HASH_ID i := (ss_slot ss (HASH_ID i))\<lparr>s_type := SOCKET_TYPE_INVALID\<rparr>)"
    using new_fd_spec [OF r refl refl, of fd p opaque True] by auto
  have "takes_slot os i ss (put_slot (HASH_ID i) ((ss_slot t' (HASH_ID i))\<lparr>s_type := SOCKET_TYPE_CONNECTED, s_udp_address := replicate UDP_ADDRESS_SIZE 0\<rparr>) t')" if ok
    using N that reserved_slotD [OF r] by (intro takes_open [OF _ _ refl]) (simp_all add: p_def socket_states UDP_ADDRESS_SIZE_def)
  moreover have "takes_slot os i ss (set_type (HASH_ID i) SOCKET_TYPE_INVALID (syscall (SysClose fd) t'))" if "\<not> ok"
    using N that reserved_slotD [OF r] by (intro takes_closed [OF _ _ refl]) simp_all
  ultimately show ?thesis using N(1) by (cases ok) (simp_all add: add_udp_socket_def Let_def flip: p_def)
qed

section \<open>The pipe\<close>

fun opens :: "request \<Rightarrow> int option" where
  "opens (ReqOpen i port opaque host) = Some i"
| "opens (ReqListen i fd opaque) = Some i"
| "opens (ReqBind i fd opaque) = Some i"
| "opens (ReqUdp i fd v6 opaque) = Some i"
| "opens _ = None"

fun target :: "request \<Rightarrow> int option" where
  "target (ReqSend high r) = Some (rs_id r)"
| "target (ReqSendUdp r a) = Some (rs_id r)"
| "target (ReqSetUdp i a) = Some i"
| "target (ReqClose i shutdown opaque) = Some i"
| "target (ReqStart i opaque) = Some i"
| "target (ReqSetopt i what val) = Some i"
| "target _ = None"

fun request_ok :: "request \<Rightarrow> bool" where
  "request_ok (ReqSend high r) \<longleftrightarrow> 0 \<le> rs_sz r"
| "request_ok (ReqSendUdp r a) \<longleftrightarrow> 0 \<le> rs_sz r \<and> a \<noteq> []"
| "request_ok (ReqSetUdp i a) \<longleftrightarrow> a \<noteq> []"
| "request_ok _ \<longleftrightarrow> True"

text \<open>Every reserved id has one request in the pipe that opens it, and no request that names it is before that one.\<close>

fun pipe_ok :: "int set \<Rightarrow> request list \<Rightarrow> bool" where
  "pipe_ok R [] \<longleftrightarrow> R = {}"
| "pipe_ok R (r # rs) \<longleftrightarrow> request_ok r \<and>
     (case opens r of Some i \<Rightarrow> i \<in> R \<and> pipe_ok (R - {i}) rs | None \<Rightarrow> (\<forall>i. target r = Some i \<longrightarrow> i \<notin> R) \<and> pipe_ok R rs)"

definition names :: "request list \<Rightarrow> int set" where
  "names rs = {i. \<exists>r \<in> set rs. target r = Some i}"

lemma pipe_ok_send: "pipe_ok R rs \<Longrightarrow> opens r = None \<Longrightarrow> request_ok r \<Longrightarrow> pipe_ok R (rs @ [r])"
  by (induction R rs rule: pipe_ok.induct) (auto split: option.splits)

lemma pipe_ok_open: "pipe_ok R rs \<Longrightarrow> opens r = Some i \<Longrightarrow> request_ok r \<Longrightarrow> i \<notin> R \<Longrightarrow> i \<notin> names rs \<Longrightarrow> pipe_ok (insert i R) (rs @ [r])"
proof (induction R rs rule: pipe_ok.induct)
  case (2 R q rs)
  then show ?case by (cases "opens q") (auto simp: names_def insert_Diff_if)
qed simp

definition reserved_ids :: "(nat \<Rightarrow> socket) \<Rightarrow> int set" where
  "reserved_ids slot = {s_id (slot k) |k. s_type (slot k) = SOCKET_TYPE_RESERVE}"

lemma ctrl_open:
  assumes "ss_pipe ss = r # rs" "opens r = Some i" "reserved_slot os i (ss\<lparr>ss_pipe := rs\<rparr>)"
  shows "\<exists>ty ss'. ctrl_cmd os ss = Some (ty, ss') \<and> takes_slot os i (ss\<lparr>ss_pipe := rs\<rparr>) ss'"
  using assms open_socket_takes [OF assms(3)] listen_socket_takes [OF assms(3)] bind_socket_takes [OF assms(3)] add_udp_socket_takes [OF assms(3)]
  by (cases r) (simp_all add: ctrl_cmd_def)

lemma ctrl_target:
  assumes "os_ok os" "ss_pipe ss = r # rs" "target r = Some i" "request_ok r" "slot_ok os (ss_slot ss (HASH_ID i))" "unreserved i (ss_slot ss)"
  shows "\<exists>ty ss'. ctrl_cmd os ss = Some (ty, ss') \<and> moves os (HASH_ID i) (ss\<lparr>ss_pipe := rs\<rparr>) ty ss'"
proof -
  define t where "t = ss\<lparr>ss_pipe := rs\<rparr>"
  have t: "slot_ok os (ss_slot t (HASH_ID i))" "unreserved i (ss_slot t)" using assms(5,6) by (simp_all add: t_def)
  show ?thesis using assms(2-4) close_socket_moves [OF assms(1) t] start_socket_moves [OF t] setopt_socket_moves [OF t(1)] set_udp_address_moves [OF t]
      send_socket_moves [OF assms(1) t(1) _ _ _ , where udp_address = None] send_socket_moves [OF assms(1) t(1) _ _ _ , where udp_address = "Some a" for a] t(2)
    by (cases r) (auto simp: ctrl_cmd_def simp flip: t_def)
qed

lemma ctrl_none:
  assumes "ss_pipe ss = r # rs" "target r = None" "opens r = None"
  shows "\<exists>ty ss'. ctrl_cmd os ss = Some (ty, ss') \<and> ss_slot ss' = ss_slot ss \<and> server_rest ss' = server_rest (ss\<lparr>ss_pipe := rs\<rparr>)"
  using assms by (cases r) (simp_all add: ctrl_cmd_def)

text \<open>A request for an id that is not in its slot changes no slot.\<close>

lemma ctrl_other:
  assumes "ctrl_cmd os ss = Some (ty, ss')" "ss_pipe ss = r # rs" "target r = Some i" "s_id (ss_slot ss (HASH_ID i)) \<noteq> i"
  shows "ss_slot ss' = ss_slot ss"
  using assms by (cases r) (auto simp: ctrl_cmd_def close_socket_def start_socket_def setopt_socket_def set_udp_address_def send_socket_def Let_def split: prod.splits)

section \<open>Events\<close>

text \<open>The events that are left of a round are for different sockets, and those are open.\<close>

definition event_slots :: "event list \<Rightarrow> nat list" where
  "event_slots es = List.map_filter e_s es"

definition events_ok :: "(nat \<Rightarrow> socket) \<Rightarrow> event list \<Rightarrow> bool" where
  "events_ok slot es \<longleftrightarrow> distinct (event_slots es) \<and> (\<forall>k \<in> set (event_slots es). live (slot k))"

lemma event_slots_simps [simp]:
  "event_slots [] = []" "event_slots (e # es) = (case e_s e of None \<Rightarrow> event_slots es | Some k \<Rightarrow> k # event_slots es)"
  by (simp_all add: event_slots_def split: option.split)

lemma event_slots_clear: "set (event_slots (clear_event slot i es)) \<subseteq> set (event_slots es) \<and> (distinct (event_slots es) \<longrightarrow> distinct (event_slots (clear_event slot i es)))"
  by (induction slot i es rule: clear_event.induct) (auto split: option.splits)

lemma clear_event_removes:
  assumes "distinct (event_slots es)" "\<forall>j \<in> set (event_slots es). j \<noteq> k \<longrightarrow> s_type (slot j) \<noteq> SOCKET_TYPE_INVALID" "s_type (slot k) = SOCKET_TYPE_INVALID"
  shows "k \<notin> set (event_slots (clear_event slot (s_id (slot k)) es))"
  using assms
proof (induction es)
  case (Cons e es)
  then show ?case by (cases "e_s e") (auto split: if_splits)
qed simp

definition server_ok :: "os \<Rightarrow> socket_server \<Rightarrow> bool" where
  "server_ok os ss \<longleftrightarrow>
     (\<forall>k. slot_ok os (ss_slot ss k) \<and> (s_type (ss_slot ss k) = SOCKET_TYPE_RESERVE \<longrightarrow> HASH_ID (s_id (ss_slot ss k)) = k)) \<and>
     pipe_ok (reserved_ids (ss_slot ss)) (ss_pipe ss) \<and> 0 \<le> ss_alloc_id ss \<and> ss_alloc_id ss < 2 ^ 31 \<and>
     ss_event_index ss \<le> length (ss_ev ss) \<and> events_ok (ss_slot ss) (drop (ss_event_index ss) (ss_ev ss))"

lemma reserved_ids_iff:
  assumes "\<forall>k. s_type (slot k) = SOCKET_TYPE_RESERVE \<longrightarrow> HASH_ID (s_id (slot k)) = k"
  shows "i \<in> reserved_ids slot \<longleftrightarrow> s_type (slot (HASH_ID i)) = SOCKET_TYPE_RESERVE \<and> s_id (slot (HASH_ID i)) = i"
  using assms unfolding reserved_ids_def by force

lemma server_rest_eq:
  assumes "server_rest ss' = server_rest ss"
  shows "ss_checkctrl ss' = ss_checkctrl ss" "ss_alloc_id ss' = ss_alloc_id ss" "ss_event_index ss' = ss_event_index ss" "ss_ev ss' = ss_ev ss" "ss_pipe ss' = ss_pipe ss"
  using assms by (simp_all add: server_rest_def)

text \<open>The parts of the invariant, after a change of slot \<open>k\<close>.\<close>

lemma moves_slots:
  assumes "\<forall>j. slot_ok os (ss_slot ss j) \<and> (s_type (ss_slot ss j) = SOCKET_TYPE_RESERVE \<longrightarrow> HASH_ID (s_id (ss_slot ss j)) = j)" "moves os k ss r ss'"
  shows "\<forall>j. slot_ok os (ss_slot ss' j) \<and> (s_type (ss_slot ss' j) = SOCKET_TYPE_RESERVE \<longrightarrow> HASH_ID (s_id (ss_slot ss' j)) = j)"
proof
  fix j show "slot_ok os (ss_slot ss' j) \<and> (s_type (ss_slot ss' j) = SOCKET_TYPE_RESERVE \<longrightarrow> HASH_ID (s_id (ss_slot ss' j)) = j)"
    using assms by (cases "j = k") (auto simp: moves_def)
qed

lemma moves_events:
  assumes "moves os k ss r ss'" "events_ok (ss_slot ss) es" "k \<notin> set (event_slots es) \<or> live (ss_slot ss' k)"
  shows "events_ok (ss_slot ss') es"
proof -
  have "live (ss_slot ss' j)" if "j \<in> set (event_slots es)" for j
    using assms that by (cases "j = k") (auto simp: moves_def events_ok_def)
  then show ?thesis using assms(2) by (simp add: events_ok_def)
qed

lemma moves_cleared:
  assumes M: "moves os k ss r ss'" and ev: "events_ok (ss_slot ss) es"
  shows "events_ok (ss_slot ss') (if r = SOCKET_CLOSE \<or> r = SOCKET_ERROR then clear_event (ss_slot ss') (r_id (ss_result ss')) es else es)"
proof (cases "k \<in> set (event_slots es) \<and> \<not> live (ss_slot ss' k)")
  case False
  then have "events_ok (ss_slot ss') es" using moves_events [OF M ev] by blast
  then show ?thesis using event_slots_clear [of "ss_slot ss'" "r_id (ss_result ss')" es] by (auto simp: events_ok_def)
next
  case True
  then have c: "r = SOCKET_CLOSE \<or> r = SOCKET_ERROR" "s_type (ss_slot ss' k) = SOCKET_TYPE_INVALID" "r_id (ss_result ss') = s_id (ss_slot ss' k)"
    using M ev by (auto simp: moves_def events_ok_def)
  have other: "live (ss_slot ss' j)" if "j \<in> set (event_slots es)" "j \<noteq> k" for j using M ev that by (simp add: moves_def events_ok_def)
  then have "k \<notin> set (event_slots (clear_event (ss_slot ss') (s_id (ss_slot ss' k)) es))"
    using ev c by (intro clear_event_removes) (auto simp: events_ok_def live_def)
  then have "\<forall>j \<in> set (event_slots (clear_event (ss_slot ss') (s_id (ss_slot ss' k)) es)). live (ss_slot ss' j)"
    using event_slots_clear [of "ss_slot ss'" "s_id (ss_slot ss' k)" es] other by blast
  then show ?thesis using c event_slots_clear [of "ss_slot ss'" "s_id (ss_slot ss' k)" es] ev by (auto simp: events_ok_def)
qed

lemma reserved_ids_moves:
  assumes M: "moves os k ss r ss'" and keep: "s_type (ss_slot ss k) = SOCKET_TYPE_RESERVE \<longrightarrow> s_type (ss_slot ss' k) = SOCKET_TYPE_RESERVE"
  shows "reserved_ids (ss_slot ss') = reserved_ids (ss_slot ss)"
proof -
  have "s_type (ss_slot ss' j) = SOCKET_TYPE_RESERVE \<longleftrightarrow> s_type (ss_slot ss j) = SOCKET_TYPE_RESERVE" "s_id (ss_slot ss' j) = s_id (ss_slot ss j)" for j
    using assms by (cases "j = k"; simp add: moves_def; blast)+
  then show ?thesis by (simp add: reserved_ids_def)
qed

lemma reserved_ids_takes:
  assumes "takes_slot os i ss ss'" "\<forall>k. s_type (ss_slot ss k) = SOCKET_TYPE_RESERVE \<longrightarrow> HASH_ID (s_id (ss_slot ss k)) = k" "reserved_slot os i ss"
  shows "reserved_ids (ss_slot ss') = reserved_ids (ss_slot ss) - {i}"
proof -
  have "s_type (ss_slot ss' j) = SOCKET_TYPE_RESERVE \<longleftrightarrow> s_type (ss_slot ss j) = SOCKET_TYPE_RESERVE \<and> s_id (ss_slot ss j) \<noteq> i" for j
    using assms by (cases "j = HASH_ID i") (auto simp: takes_slot_def reserved_slot_def Let_def)
  moreover have "s_id (ss_slot ss' j) = s_id (ss_slot ss j)" for j
    using assms by (cases "j = HASH_ID i") (auto simp: takes_slot_def reserved_slot_def Let_def)
  ultimately show ?thesis by (auto simp: reserved_ids_def)
qed

text \<open>A request of the pipe keeps the invariant, once the events of a socket that it closed are cleared.\<close>

lemma clear_closed_simps:
  "ss_slot (clear_closed_event ty ss) = ss_slot ss" "ss_pipe (clear_closed_event ty ss) = ss_pipe ss" "ss_alloc_id (clear_closed_event ty ss) = ss_alloc_id ss"
  "ss_event_index (clear_closed_event ty ss) = ss_event_index ss"
  "ss_event_index ss \<le> length (ss_ev ss) \<Longrightarrow> drop (ss_event_index ss) (ss_ev (clear_closed_event ty ss)) =
     (if ty = SOCKET_CLOSE \<or> ty = SOCKET_ERROR then clear_event (ss_slot ss) (r_id (ss_result ss)) (drop (ss_event_index ss) (ss_ev ss)) else drop (ss_event_index ss) (ss_ev ss))"
  "ss_event_index ss \<le> length (ss_ev ss) \<Longrightarrow> ss_event_index ss \<le> length (ss_ev (clear_closed_event ty ss))"
  by (simp_all add: clear_closed_event_def)

lemma server_okI:
  assumes M: "moves os k ss r ss'" and slots: "\<forall>j. slot_ok os (ss_slot ss j) \<and> (s_type (ss_slot ss j) = SOCKET_TYPE_RESERVE \<longrightarrow> HASH_ID (s_id (ss_slot ss j)) = j)"
    and rest: "0 \<le> ss_alloc_id ss" "ss_alloc_id ss < 2 ^ 31" "ss_event_index ss \<le> length (ss_ev ss)" "events_ok (ss_slot ss) (drop (ss_event_index ss) (ss_ev ss))"
    and pipe: "pipe_ok (reserved_ids (ss_slot ss')) (ss_pipe ss)"
  shows "server_ok os (clear_closed_event r ss')"
proof -
  have "server_rest ss' = server_rest ss" using M by (simp add: moves_def)
  note eq = server_rest_eq [OF this]
  show ?thesis
    using moves_slots [OF slots M] rest pipe moves_cleared [OF M rest(4)] clear_closed_simps(5,6) [of ss' r]
    unfolding server_ok_def clear_closed_simps(1-4) eq by simp
qed

lemma clear_closed_open: "ty \<noteq> SOCKET_CLOSE \<Longrightarrow> ty \<noteq> SOCKET_ERROR \<Longrightarrow> clear_closed_event ty ss = ss"
  by (simp add: clear_closed_event_def)

lemma ctrl_cmd_ok:
  assumes os: "os_ok os" and ok: "server_ok os ss" and pipe: "ss_pipe ss = r # rs"
  shows "\<exists>ty ss'. ctrl_cmd os ss = Some (ty, ss') \<and> server_ok os (clear_closed_event ty ss')"
proof -
  define t where "t = ss\<lparr>ss_pipe := rs\<rparr>"
  have slots: "\<forall>j. slot_ok os (ss_slot t j) \<and> (s_type (ss_slot t j) = SOCKET_TYPE_RESERVE \<longrightarrow> HASH_ID (s_id (ss_slot t j)) = j)"
    and rest: "0 \<le> ss_alloc_id t" "ss_alloc_id t < 2 ^ 31" "ss_event_index t \<le> length (ss_ev t)" "events_ok (ss_slot t) (drop (ss_event_index t) (ss_ev t))"
    and p: "pipe_ok (reserved_ids (ss_slot t)) (r # rs)" and t: "ss_pipe t = rs" "ss_slot t = ss_slot ss"
    using ok by (simp_all add: t_def server_ok_def pipe)
  note R = reserved_ids_iff [of "ss_slot t"]
  note okI = server_okI [OF _ slots rest, unfolded t(1)]
  show ?thesis
  proof (cases "opens r")
    case (Some i)
    then have i: "i \<in> reserved_ids (ss_slot t)" "pipe_ok (reserved_ids (ss_slot t) - {i}) rs" using p by simp_all
    then have res: "reserved_slot os i t" using R slots by (simp add: reserved_slot_def Let_def)
    obtain ty ss' where C: "ctrl_cmd os ss = Some (ty, ss')" "takes_slot os i t ss'" using ctrl_open [OF pipe Some] res unfolding t_def by blast
    have "pipe_ok (reserved_ids (ss_slot ss')) rs" using reserved_ids_takes [OF C(2) _ res] slots i by simp
    then show ?thesis using C okI [OF takes_moves [OF res C(2)]] by blast
  next
    case None
    then have q: "request_ok r" "pipe_ok (reserved_ids (ss_slot t)) rs" "\<And>i. target r = Some i \<Longrightarrow> i \<notin> reserved_ids (ss_slot t)" using p by simp_all
    show ?thesis
    proof (cases "target r")
      case (Some i)
      then have un: "unreserved i (ss_slot ss)" using q(3) R slots by (simp add: unreserved_def t(2))
      obtain ty ss' where C: "ctrl_cmd os ss = Some (ty, ss')" "moves os (HASH_ID i) t ty ss'"
        using ctrl_target [OF os pipe Some q(1) _ un] slots by (auto simp: t_def)
      have "reserved_ids (ss_slot ss') = reserved_ids (ss_slot t)"
        using reserved_ids_moves [OF C(2)] ctrl_other [OF C(1) pipe Some] un by (auto simp: unreserved_def t(2))
      then show ?thesis using C okI q(2) by metis
    next
      case None
      obtain ty ss' where C: "ctrl_cmd os ss = Some (ty, ss')" "ss_slot ss' = ss_slot ss" "server_rest ss' = server_rest t"
        using ctrl_none [OF pipe None \<open>opens r = None\<close>] unfolding t_def by blast
      have "moves os 0 t ty ss'" using moves_same [of ss' t os 0 ty] C slots t(2) by simp
      moreover have "pipe_ok (reserved_ids (ss_slot ss')) rs" using q(2) C(2) t(2) by simp
      ultimately show ?thesis using C(1) okI by blast
    qed
  qed
qed

section \<open>Messages\<close>

definition read_ok :: "os \<Rightarrow> bool" where
  "read_ok os \<longleftrightarrow> (\<forall>t fd n data. os_read os t fd n = Inr data \<longrightarrow> length data < 2 ^ 30)"

lemma fail_moves:
  assumes "live (ss_slot ss k)" "ss_slot t = ss_slot ss" "server_rest t = server_rest ss"
  shows "\<exists>t'. force_close k t = Some t' \<and> moves os k ss SOCKET_ERROR (t'\<lparr>ss_result := (ss_result t')\<lparr>r_data := d\<rparr>\<rparr>) \<and> moves os k ss SOCKET_CLOSE t'"
proof -
  have kt: "keeps k ss t" "s_type (ss_slot t k) = s_type (ss_slot ss k)" "live (ss_slot t k)" using assms by (simp_all add: keeps_def)
  obtain t' where "force_close k t = Some t'" "moves os k t SOCKET_CLOSE t'" "moves os k t SOCKET_ERROR t'" "r_id (ss_result t') = s_id (ss_slot t k)"
    using force_close_moves [OF kt(3)] by blast
  then show ?thesis using moves_trans [OF kt(1,2)] moves_result [OF moves_trans [OF kt(1,2)]] assms(2) by (intro exI [of _ t']) simp
qed

definition next_size :: "int \<Rightarrow> int \<Rightarrow> int option" where
  "next_size n sz = (if n = sz then cint (sz * 2) else if sz > MIN_READ_BUFFER \<and> n * 2 < sz then Some (sz div 2) else Some sz)"

lemma next_size_ok:
  assumes "n < 2 ^ 30" "size_ok sz"
  shows "\<exists>z. next_size (int n) sz = Some z \<and> size_ok z"
proof -
  obtain m where m: "m \<le> 24" "sz = MIN_READ_BUFFER * 2 ^ m" using assms(2) by (auto simp: size_ok_def)
  consider "int n = sz" | "int n \<noteq> sz" "sz > MIN_READ_BUFFER" "int n * 2 < sz" | "int n \<noteq> sz" "\<not> (sz > MIN_READ_BUFFER \<and> int n * 2 < sz)" by blast
  then show ?thesis
  proof cases
    case 1
    then have "64 * 2 ^ m < (2 :: int) ^ 30" using m assms(1) by (simp add: MIN_READ_BUFFER_def)
    then have "(2 :: int) ^ m < 2 ^ 24" by simp
    then have "m < 24" by (metis one_less_numeral_iff power_strict_increasing_iff semiring_norm(76))
    then have "size_ok (sz * 2)" unfolding size_ok_def m(2) by (intro exI [of _ "Suc m"]) simp
    moreover have "sz * 2 < 2 ^ 31" "0 \<le> sz" using 1 assms(1) by simp_all
    ultimately show ?thesis using 1 by (simp add: next_size_def cint_okI)
  next
    case 2
    then obtain m' where "m = Suc m'" using m(2) by (cases m) simp_all
    then have "size_ok (sz div 2)" using m by (auto simp: size_ok_def intro!: exI [of _ m'])
    then show ?thesis using 2 by (simp add: next_size_def)
  next
    case 3
    then show ?thesis using assms(2) by (auto simp: next_size_def)
  qed
qed

lemma forward_tcp_moves:
  assumes r: "read_ok os" and ok: "slot_ok os (ss_slot ss k)" "live (ss_slot ss k)"
  shows "\<exists>ty ss'. forward_message_tcp os k ss = Some (ty, ss') \<and> moves os k ss ty ss' \<and> ty \<noteq> SOCKET_UDP"
proof -
  define s where "s = ss_slot ss k"
  have same: "moves os k ss r (syscall c (tick ss))" "moves os k ss r (tick ss)" for r c using moves_same ok(1) by simp_all
  show ?thesis
  proof (cases "os_read os (ss_time ss) (s_fd s) (s_size s)")
    case (Inl e)
    obtain t' where "force_close k (tick ss) = Some t'" "moves os k ss SOCKET_ERROR (t'\<lparr>ss_result := (ss_result t')\<lparr>r_data := Text (os_strerror os e)\<rparr>\<rparr>)"
      using fail_moves [OF ok(2), of "tick ss"] by auto
    then show ?thesis using Inl same by (auto simp: forward_message_tcp_def Let_def socket_results simp flip: s_def)
  next
    case (Inr data)
    have sz: "length data < 2 ^ 30" "size_ok (s_size s)" using r Inr ok by (auto simp: read_ok_def s_def slot_ok_def sock_ok_def)
    consider "data = []" | "data \<noteq> []" "s_type s = SOCKET_TYPE_HALFCLOSE" | "data \<noteq> []" "s_type s \<noteq> SOCKET_TYPE_HALFCLOSE" by blast
    then show ?thesis
    proof cases
      case 1
      obtain t' where "force_close k (tick ss) = Some t'" "moves os k ss SOCKET_CLOSE t'" using fail_moves [OF ok(2), of "tick ss"] by auto
      with 1 show ?thesis using Inr by (simp add: forward_message_tcp_def Let_def socket_results flip: s_def)
    next
      case 2
      then show ?thesis using Inr same by (simp add: forward_message_tcp_def Let_def socket_results flip: s_def)
    next
      case 3
      obtain z where z: "next_size (int (length data)) (s_size s) = Some z" "size_ok z" using next_size_ok sz by blast
      have "moves os k ss SOCKET_DATA (put_result \<lparr>r_id = s_id s, r_opaque = s_opaque s, r_ud = int (length data), r_data = Buffer data\<rparr> (put_slot k (s\<lparr>s_size := z\<rparr>) (tick ss)))"
        using ok z(2) by (intro moves_put [where s' = "s\<lparr>s_size := z\<rparr>"]) (simp_all add: s_def slot_ok_def sock_ok_def buffers_ok_def live_def unsent_def)
      then show ?thesis using 3 Inr z(1) by (simp add: forward_message_tcp_def Let_def socket_results next_size_def flip: s_def)
    qed
  qed
qed


lemma forward_udp_moves:
  assumes ok: "slot_ok os (ss_slot ss k)" "live (ss_slot ss k)"
  shows "\<exists>ty ss'. forward_message_udp os k ss = Some (ty, ss') \<and> moves os k ss ty ss' \<and> (ty = SOCKET_UDP \<longrightarrow> ss_slot ss' = ss_slot ss)"
proof -
  have same: "moves os k ss r (put_result x (tick ss))" "moves os k ss r (tick ss)" for r x using moves_same ok(1) by simp_all
  show ?thesis
  proof (cases "os_recvfrom os (ss_time ss) (s_fd (ss_slot ss k))")
    case (Inl e)
    obtain t' where "force_close k (tick ss) = Some t'" "moves os k ss SOCKET_ERROR (t'\<lparr>ss_result := (ss_result t')\<lparr>r_data := Text (os_strerror os e)\<rparr>\<rparr>)"
      using fail_moves [OF ok(2), of "tick ss"] by auto
    then show ?thesis using Inl same by (auto simp: forward_message_udp_def Let_def socket_results)
  next
    case (Inr x)
    then show ?thesis using same by (cases x) (auto simp: forward_message_udp_def Let_def socket_results)
  qed
qed

lemma report_connect_moves:
  assumes ok: "slot_ok os (ss_slot ss k)" "live (ss_slot ss k)"
  shows "\<exists>ty ss'. report_connect os k ss = Some (ty, ss') \<and> moves os k ss ty ss'"
proof -
  define s where "s = ss_slot ss k"
  have fail: "\<exists>t'. force_close k (tick ss) = Some t' \<and> moves os k ss SOCKET_ERROR (t'\<lparr>ss_result := (ss_result t')\<lparr>r_data := d\<rparr>\<rparr>)" for d
    using fail_moves [OF ok(2), of "tick ss"] by auto
  have "slot_ok os (s\<lparr>s_type := SOCKET_TYPE_CONNECTED\<rparr>)" "live (s\<lparr>s_type := SOCKET_TYPE_CONNECTED\<rparr>)"
    using ok by (simp_all add: s_def slot_ok_def live_def sock_ok_def buffers_ok_def unsent_def socket_states)
  then have "moves os k ss r (put_result x (tick (set_type k SOCKET_TYPE_CONNECTED (tick ss))))"
      "moves os k ss r (put_result x (tick (syscall c (set_type k SOCKET_TYPE_CONNECTED (tick ss)))))" for r x c
    using moves_put [where s' = "s\<lparr>s_type := SOCKET_TYPE_CONNECTED\<rparr>" and k = k and ss = ss] by (simp_all add: s_def)
  moreover obtain t' where "force_close k (tick ss) = Some t'" "\<And>d. moves os k ss SOCKET_ERROR (t'\<lparr>ss_result := (ss_result t')\<lparr>r_data := d\<rparr>\<rparr>)"
    using fail by (metis option.inject)
  ultimately show ?thesis by (auto simp: report_connect_def Let_def split: sum.split)
qed

section \<open>New ids\<close>

lemma reserve_id_cases:
  assumes "0 \<le> ss_alloc_id ss" "ss_alloc_id ss < 2 ^ 31"
  obtains i ss' where "reserve_id ss = (i, ss')" "reserved i ss ss'" | a where "reserve_id ss = (- 1, ss\<lparr>ss_alloc_id := a\<rparr>)" "0 \<le> a" "a < 2 ^ 31"
  using reserve_loop_spec [OF assms, of "nat MAX_SOCKET"] by (auto simp: reserve_id_def)

lemma reserved_ok:
  assumes "reserved i ss ss'" "\<forall>k. slot_ok os (ss_slot ss k)"
  shows "reserved_slot os i ss'" "\<And>j. j \<noteq> HASH_ID i \<Longrightarrow> ss_slot ss' j = ss_slot ss j" "s_type (ss_slot ss (HASH_ID i)) = SOCKET_TYPE_INVALID"
    "0 \<le> i" "i < 2 ^ 31" "ss_alloc_id ss' = i" "ss_ev ss' = ss_ev ss" "ss_event_index ss' = ss_event_index ss" "ss_pipe ss' = ss_pipe ss"
proof -
  have "s_high (ss_slot ss (HASH_ID i)) = []" "s_low (ss_slot ss (HASH_ID i)) = []"
    using assms by (auto simp: reserved_def slot_ok_def live_def)
  then show "reserved_slot os i ss'" using assms(1) by (simp add: reserved_def reserved_slot_def slot_ok_def live_def socket_states Let_def)
qed (use assms(1) in \<open>auto simp: reserved_def put_slot_def\<close>)

section \<open>One round of the loop\<close>

lemma server_okD:
  assumes "server_ok os ss"
  shows "slot_ok os (ss_slot ss k)" "s_type (ss_slot ss k) = SOCKET_TYPE_RESERVE \<Longrightarrow> HASH_ID (s_id (ss_slot ss k)) = k"
    "pipe_ok (reserved_ids (ss_slot ss)) (ss_pipe ss)" "0 \<le> ss_alloc_id ss" "ss_alloc_id ss < 2 ^ 31" "ss_event_index ss \<le> length (ss_ev ss)"
    "events_ok (ss_slot ss) (drop (ss_event_index ss) (ss_ev ss))"
  using assms by (auto simp: server_ok_def)

lemma server_ok_same:
  assumes "ss_slot ss' = ss_slot ss" "server_rest ss' = server_rest ss"
  shows "server_ok os ss' = server_ok os ss"
  using server_rest_eq [OF assms(2)] assms(1) by (simp add: server_ok_def)

lemma server_ok_slot:
  assumes ok: "server_ok os ss" and other: "\<And>j. j \<noteq> k \<Longrightarrow> ss_slot ss' j = ss_slot ss j" and k: "slot_ok os (ss_slot ss' k)"
    and r: "s_type (ss_slot ss k) \<noteq> SOCKET_TYPE_RESERVE" "s_type (ss_slot ss' k) \<noteq> SOCKET_TYPE_RESERVE"
    and rest: "ss_pipe ss' = ss_pipe ss" "0 \<le> ss_alloc_id ss'" "ss_alloc_id ss' < 2 ^ 31" "ss_event_index ss' \<le> length (ss_ev ss')"
    and ev: "drop (ss_event_index ss') (ss_ev ss') = es" "events_ok (ss_slot ss) es" "k \<notin> set (event_slots es) \<or> live (ss_slot ss' k)"
  shows "server_ok os ss'"
proof -
  have slots: "slot_ok os (ss_slot ss' j) \<and> (s_type (ss_slot ss' j) = SOCKET_TYPE_RESERVE \<longrightarrow> HASH_ID (s_id (ss_slot ss' j)) = j)" for j
    using server_okD(1,2) [OF ok, of j] other [of j] k r by (cases "j = k") auto
  have "s_type (ss_slot ss' j) = SOCKET_TYPE_RESERVE \<and> s_id (ss_slot ss' j) = i \<longleftrightarrow> s_type (ss_slot ss j) = SOCKET_TYPE_RESERVE \<and> s_id (ss_slot ss j) = i" for i j
    using other [of j] r by (cases "j = k") auto
  then have ids: "reserved_ids (ss_slot ss') = reserved_ids (ss_slot ss)" unfolding reserved_ids_def by blast
  have "live (ss_slot ss' j)" if "j \<in> set (event_slots es)" for j using ev(2,3) other [of j] that by (cases "j = k") (auto simp: events_ok_def)
  then have "events_ok (ss_slot ss') es" using ev(2) by (simp add: events_ok_def)
  with slots ids show ?thesis using server_okD(3) [OF ok] rest ev(1) by (simp add: server_ok_def)
qed

text \<open>The state in which an event of socket \<open>k\<close> is handled: the event is the one before the index.\<close>

definition handling :: "os \<Rightarrow> event \<Rightarrow> nat \<Rightarrow> socket_server \<Rightarrow> bool" where
  "handling os e k ss \<longleftrightarrow> server_ok os ss \<and> e_s e = Some k \<and> live (ss_slot ss k) \<and> k \<notin> set (event_slots (drop (ss_event_index ss) (ss_ev ss))) \<and>
     0 < ss_event_index ss \<and> ss_ev ss ! (ss_event_index ss - 1) = e"

lemma handling_done:
  assumes h: "handling os e k ss" and M: "moves os k ss r ss'"
  shows "server_ok os ss'"
proof -
  have rest: "server_rest ss' = server_rest ss" using M by (simp add: moves_def)
  note D = server_okD [of os ss]
  show ?thesis
  proof (rule server_ok_slot [where k = k and ss = ss])
    show "s_type (ss_slot ss k) \<noteq> SOCKET_TYPE_RESERVE" using h by (auto simp: handling_def live_def)
    then show "s_type (ss_slot ss' k) \<noteq> SOCKET_TYPE_RESERVE" using M by (auto simp: moves_def)
  qed (use h M D in \<open>auto simp: handling_def moves_def server_rest_eq [OF rest]\<close>)
qed

lemma handling_again:
  assumes h: "handling os e k ss" and M: "moves os k ss r ss'" and live: "live (ss_slot ss' k)" and e': "e_s e' = Some k"
    and ss2: "ss_slot ss2 = ss_slot ss'" "ss_pipe ss2 = ss_pipe ss'" "ss_alloc_id ss2 = ss_alloc_id ss'" "ss_event_index ss2 = ss_event_index ss' - 1"
      "ss_ev ss2 = (ss_ev ss')[ss_event_index ss' - 1 := e']"
  shows "server_ok os ss2"
proof -
  have ok': "server_ok os ss'" by (rule handling_done [OF h M])
  have rest: "server_rest ss' = server_rest ss" using M by (simp add: moves_def)
  note eq = server_rest_eq [OF rest]
  define i where "i = ss_event_index ss' - 1"
  have i: "ss_event_index ss' = Suc i" "i < length (ss_ev ss')" using h server_okD(6) [of os ss] by (auto simp: i_def handling_def eq)
  have d: "drop i ((ss_ev ss')[i := e']) = e' # drop (Suc i) (ss_ev ss')" using i by (metis Cons_nth_drop_Suc drop_update_cancel length_list_update lessI nth_list_update_eq)
  have "events_ok (ss_slot ss') (e' # drop (Suc i) (ss_ev ss'))"
    using server_okD(7) [OF ok'] h e' live by (auto simp: events_ok_def handling_def i eq) (metis eq(3) i(1))
  then show ?thesis using ok' ss2 i d by (simp add: server_ok_def)
qed

lemma poll_rw_ok:
  assumes os: "os_ok os" "read_ok os" and h: "handling os e k ss"
  shows "\<exists>r ss'. poll_rw os e k ss = Some (r, ss') \<and> server_ok os ss'"
proof -
  have ok: "slot_ok os (ss_slot ss k)" "live (ss_slot ss k)" using h server_okD(1) by (auto simp: handling_def)
  have e: "e_s (e\<lparr>e_read := False\<rparr>) = Some k" using h by (simp add: handling_def)
  have live: "live (ss_slot ss' k)" if "moves os k ss ty ss'" "ty \<noteq> SOCKET_CLOSE" "ty \<noteq> SOCKET_ERROR" for ty ss' using that ok by (auto simp: moves_def)
  define again where "again = (\<lambda>ss1 :: socket_server. ss1\<lparr>ss_ev := (ss_ev ss1)[ss_event_index ss1 - 1 := e\<lparr>e_read := False\<rparr>], ss_event_index := ss_event_index ss1 - 1\<rparr>)"
  have go: "server_ok os (if e_write e \<and> ty \<noteq> SOCKET_CLOSE \<and> ty \<noteq> SOCKET_ERROR then again ss1 else ss1)" if M: "moves os k ss ty ss1" for ty ss1
    using handling_done [OF h M] handling_again [OF h M live [OF M] e, of "again ss1"] by (simp add: again_def)
  show ?thesis
  proof (cases "e_read e")
    case False
    obtain r ss' where "send_buffer os k ss = Some (r, ss')" "moves os k ss r ss'" using send_buffer_moves [OF os(1) ok] by blast
    then show ?thesis using False handling_done [OF h] h by (auto simp: poll_rw_def handling_def)
  next
    case True
    show ?thesis
    proof (cases "s_protocol (ss_slot ss k) = PROTOCOL_TCP")
      case tcp: True
      obtain ty ss1 where F: "forward_message_tcp os k ss = Some (ty, ss1)" "moves os k ss ty ss1" using forward_tcp_moves [OF os(2) ok] by blast
      then show ?thesis using True tcp go [OF F(2)] unfolding poll_rw_def again_def Let_def by simp
    next
      case udp: False
      obtain ty ss1 where F: "forward_message_udp os k ss = Some (ty, ss1)" "moves os k ss ty ss1" "ty = SOCKET_UDP \<longrightarrow> ss_slot ss1 = ss_slot ss"
        using forward_udp_moves [OF ok] by blast
      have rest: "server_rest ss1 = server_rest ss" using F(2) by (simp add: moves_def)
      have "server_ok os (ss1\<lparr>ss_event_index := ss_event_index ss1 - 1\<rparr>)" if "ty = SOCKET_UDP"
      proof -
        have "ss_ev ss1 = (ss_ev ss1)[ss_event_index ss1 - 1 := e]" using h by (simp add: handling_def server_rest_eq [OF rest]) (metis list_update_id)
        then show ?thesis using handling_again [OF h F(2), of e "ss1\<lparr>ss_event_index := ss_event_index ss1 - 1\<rparr>"] F(3) that h by (simp add: handling_def)
      qed
      then show ?thesis using True udp F(1) go [OF F(2)] unfolding poll_rw_def again_def Let_def by simp
    qed
  qed
qed

lemma report_accept_ok:
  assumes ok: "server_ok os ss"
  shows "\<exists>r ss'. report_accept os k ss = Some (r, ss') \<and> server_ok os ss'"
proof (cases "os_accept os (ss_time ss) (s_fd (ss_slot ss k))")
  case (Inl e)
  have "server_ok os (put_result x (tick ss)) = server_ok os ss" "server_ok os (tick ss) = server_ok os ss" for x by (rule server_ok_same; simp)+
  then show ?thesis using Inl ok by (simp add: report_accept_def Let_def)
next
  case (Inr x)
  obtain fd name port where x: "x = (fd, name, port)" by (cases x)
  define t where "t = tick ss"
  have okt: "server_ok os t" using ok server_ok_same [of t ss] by (simp add: t_def)
  note D = server_okD [OF okt]
  show ?thesis
  proof (cases rule: reserve_id_cases [OF D(4,5)])
    case (2 a)
    have "server_ok os (syscall c (t\<lparr>ss_alloc_id := a\<rparr>))" for c
      using okt 2 by (subst server_ok_same [of _ "t\<lparr>ss_alloc_id := a\<rparr>"]) (simp_all add: server_ok_def)
    then show ?thesis using Inr x 2 by (simp add: report_accept_def Let_def flip: t_def)
  next
    case (1 i ss2)
    note R = reserved_ok [OF 1(2), of os]
    have all: "\<forall>k. slot_ok os (ss_slot t k)" using D(1) by simp
    define ss3 where "ss3 = syscall (SysNonblocking fd) (syscall (SysKeepalive fd) ss2)"
    obtain t' where N: "new_fd os i fd PROTOCOL_TCP (s_opaque (ss_slot ss k)) False ss3 = Some (True, t')" "server_rest t' = server_rest ss2"
      "ss_slot t' = (ss_slot ss2)(HASH_ID i := (ss_slot ss2 (HASH_ID i))\<lparr>s_id := i, s_fd := fd, s_protocol := PROTOCOL_TCP, s_size := MIN_READ_BUFFER, s_opaque := s_opaque (ss_slot ss k), s_wb_size := 0\<rparr>)"
      using new_fd_spec [OF R(1) [OF all], of ss3 fd PROTOCOL_TCP "s_opaque (ss_slot ss k)" False] by (auto simp: ss3_def)
    have T: "takes_slot os i ss2 (set_type (HASH_ID i) SOCKET_TYPE_PACCEPT t')" by (rule new_socket_takes [OF R(1) [OF all] _ N(3,2)]) (simp add: socket_states)
    have "server_ok os (put_result y (set_type (HASH_ID i) SOCKET_TYPE_PACCEPT t'))" for y
    proof (rule server_ok_slot [OF okt, where k = "HASH_ID i"])
      have rest: "server_rest (put_result y (set_type (HASH_ID i) SOCKET_TYPE_PACCEPT t')) = server_rest ss2" using N(2) by simp
      note eq = server_rest_eq [OF rest]
      show "drop (ss_event_index (put_result y (set_type (HASH_ID i) SOCKET_TYPE_PACCEPT t'))) (ss_ev (put_result y (set_type (HASH_ID i) SOCKET_TYPE_PACCEPT t'))) = drop (ss_event_index t) (ss_ev t)"
        using R [OF all] eq by simp
      show "HASH_ID i \<notin> set (event_slots (drop (ss_event_index t) (ss_ev t))) \<or> live (ss_slot (put_result y (set_type (HASH_ID i) SOCKET_TYPE_PACCEPT t')) (HASH_ID i))"
        by (simp add: live_def socket_states)
      show "ss_event_index (put_result y (set_type (HASH_ID i) SOCKET_TYPE_PACCEPT t')) \<le> length (ss_ev (put_result y (set_type (HASH_ID i) SOCKET_TYPE_PACCEPT t')))"
        using R [OF all] eq D(6) by simp
    qed (use R [OF all] T N(2) D(7) server_rest_eq [OF N(2)] in \<open>auto simp: takes_slot_def set_type_def put_slot_def put_result_def socket_states\<close>)
    then show ?thesis using Inr x 1 N(1) R(4) [OF all] by (simp add: report_accept_def Let_def flip: t_def ss3_def)
  qed
qed

lemma poll_event_ok:
  assumes os: "os_ok os" "read_ok os" and ok: "server_ok os ss" and i: "ss_event_index ss < length (ss_ev ss)"
  shows "\<exists>r ss'. poll_event os ss = Some (r, ss') \<and> server_ok os ss'"
proof -
  define e where "e = ss_ev ss ! ss_event_index ss"
  define ss1 where "ss1 = ss\<lparr>ss_event_index := ss_event_index ss + 1\<rparr>"
  have d: "drop (ss_event_index ss) (ss_ev ss) = e # drop (Suc (ss_event_index ss)) (ss_ev ss)" using i by (simp add: Cons_nth_drop_Suc e_def)
  have e: "aget (ss_ev ss) (int (ss_event_index ss)) = Some e" using i by (simp add: aget_def e_def)
  have ok1: "server_ok os ss1" using ok i d by (auto simp: server_ok_def ss1_def events_ok_def split: option.splits)
  show ?thesis
  proof (cases "e_s e")
    case None
    then show ?thesis using e ok1 unfolding poll_event_def Let_def ss1_def [symmetric] by simp
  next
    case (Some k)
    then have h: "handling os e k ss1" using ok ok1 i d by (auto simp: handling_def server_ok_def events_ok_def ss1_def e_def)
    then have l: "slot_ok os (ss_slot ss1 k)" "live (ss_slot ss1 k)" using server_okD(1) by (auto simp: handling_def)
    obtain ty ss2 where C: "report_connect os k ss1 = Some (ty, ss2)" "moves os k ss1 ty ss2" using report_connect_moves [OF l] by blast
    obtain r ss3 where A: "report_accept os k ss1 = Some (r, ss3)" "server_ok os ss3" using report_accept_ok [OF ok1] by blast
    obtain q ss4 where W: "poll_rw os e k ss1 = Some (q, ss4)" "server_ok os ss4" using poll_rw_ok [OF os h] by blast
    show ?thesis using e Some l(2) C(1) A W handling_done [OF h C(2)]
      unfolding poll_event_def Let_def ss1_def [symmetric] by (simp add: live_def)
  qed
qed

text \<open>What the code relies on of \<open>epoll_wait\<close> and its variants: one event for a descriptor, and only for those that were added.\<close>

definition wait_ok :: "os \<Rightarrow> socket_server \<Rightarrow> bool" where
  "wait_ok os ss \<longleftrightarrow> (\<forall>t \<in> {ss_time ss, ss_time ss + 1}. events_ok (ss_slot ss) (os_sp_wait os t))"

lemma event_slots_take: "set (event_slots (take n es)) \<subseteq> set (event_slots es) \<and> (distinct (event_slots es) \<longrightarrow> distinct (event_slots (take n es)))"
proof (induction es arbitrary: n)
  case (Cons e es)
  from Cons [of "n - 1"] show ?case by (cases n) (auto split: option.splits)
qed simp

lemma events_ok_take: "events_ok slot es \<Longrightarrow> events_ok slot (take n es)"
  using event_slots_take [of n es] by (auto simp: events_ok_def)

lemma poll_step_ok:
  assumes os: "os_ok os" "read_ok os" and ok: "server_ok os ss" and w: "wait_ok os ss"
  shows "\<exists>r ss'. poll_step os ss = Some (r, ss') \<and> server_ok os ss'"
proof (cases "ss_checkctrl ss \<and> has_cmd os ss")
  case True
  then obtain r rs where "ss_pipe (tick ss) = r # rs" by (cases "ss_pipe ss") (auto simp: has_cmd_def tick_def)
  moreover have "server_ok os (tick ss)" using ok server_ok_same [of "tick ss" ss] by simp
  ultimately obtain ty ss' where C: "ctrl_cmd os (tick ss) = Some (ty, ss')" "server_ok os (clear_closed_event ty ss')" using ctrl_cmd_ok [OF os(1)] by blast
  then show ?thesis using True clear_closed_open [of ty ss'] by (cases "ty = - 1") (auto simp: poll_step_def SOCKET_CLOSE_def SOCKET_ERROR_def)
next
  case False
  define ss1 where "ss1 = (if ss_checkctrl ss then (tick ss)\<lparr>ss_checkctrl := False\<rparr> else ss)"
  have ok1: "server_ok os ss1" using ok by (auto simp: ss1_def server_ok_def tick_def)
  have t1: "ss_time ss1 \<in> {ss_time ss, ss_time ss + 1}" "ss_slot ss1 = ss_slot ss" by (simp_all add: ss1_def)
  define ss2 where "ss2 = (tick ss1)\<lparr>ss_ev := take MAX_EVENT (os_sp_wait os (ss_time ss1)), ss_checkctrl := True, ss_more := False, ss_event_index := 0\<rparr>"
  have ok2: "server_ok os ss2"
    using ok1 w t1 events_ok_take [of "ss_slot ss" "os_sp_wait os (ss_time ss1)" MAX_EVENT] by (auto simp: server_ok_def ss2_def wait_ok_def tick_def)
  show ?thesis
  proof (cases "ss_event_index ss1 = length (ss_ev ss1)")
    case waits: True
    have "poll_step os ss = (if ss_ev ss2 = [] then Some (Some (- 1), ss2) else poll_event os ss2)"
      using False waits unfolding poll_step_def Let_def ss1_def [symmetric] ss2_def [symmetric] by auto
    moreover have "ss_event_index ss2 < length (ss_ev ss2)" if "ss_ev ss2 \<noteq> []" using that by (simp add: ss2_def)
    ultimately show ?thesis using poll_event_ok [OF os ok2] ok2 by auto
  next
    case nowait: False
    have "poll_step os ss = poll_event os ss1" using False nowait unfolding poll_step_def Let_def ss1_def [symmetric] by auto
    then show ?thesis using poll_event_ok [OF os ok1] server_okD(6) [OF ok1] nowait by simp
  qed
qed

section \<open>Calls of other threads\<close>

lemma send_request_ok:
  assumes "server_ok os ss" "opens r = None" "request_ok r"
  shows "server_ok os (send_request r ss)"
  using assms pipe_ok_send by (simp add: server_ok_def send_request_def)

lemma mem_reserved_ids: "x \<in> reserved_ids slot \<longleftrightarrow> (\<exists>j. s_type (slot j) = SOCKET_TYPE_RESERVE \<and> s_id (slot j) = x)"
  by (auto simp: reserved_ids_def)

lemma open_request_ok:
  assumes ok: "server_ok os ss" and R: "reserve_id ss = (i, ss1)" and i: "0 \<le> i" "i \<notin> names (ss_pipe ss)" and r: "opens r = Some i" "request_ok r"
  shows "server_ok os (send_request r ss1)"
proof (cases rule: reserve_id_cases [OF server_okD(4,5) [OF ok]])
  case (2 a)
  then show ?thesis using R i by simp
next
  case (1 i' ss1')
  then have R: "reserved i ss ss1" using R by simp
  have all: "\<forall>k. slot_ok os (ss_slot ss k)" using server_okD(1) [OF ok] by simp
  note D = reserved_ok [OF R all] and S = reserved_slotD [OF reserved_ok(1) [OF R all]]
  have slots: "slot_ok os (ss_slot ss1 j) \<and> (s_type (ss_slot ss1 j) = SOCKET_TYPE_RESERVE \<longrightarrow> HASH_ID (s_id (ss_slot ss1 j)) = j)" for j
    using server_okD(1,2) [OF ok, of j] D(1,2) S by (cases "j = HASH_ID i") (auto simp: reserved_slot_def Let_def)
  have "s_type (ss_slot ss1 j) = SOCKET_TYPE_RESERVE \<and> s_id (ss_slot ss1 j) = x \<longleftrightarrow>
      (j = HASH_ID i \<and> x = i) \<or> s_type (ss_slot ss j) = SOCKET_TYPE_RESERVE \<and> s_id (ss_slot ss j) = x" for j x
    using D(2,3) S by (cases "j = HASH_ID i") (auto simp: socket_states)
  then have ids: "reserved_ids (ss_slot ss1) = insert i (reserved_ids (ss_slot ss))" by (intro set_eqI) (simp only: mem_reserved_ids insert_iff, blast)
  have "i \<notin> reserved_ids (ss_slot ss)" using server_okD(2) [OF ok] D(3) by (auto simp: reserved_ids_def socket_states)
  then have pipe: "pipe_ok (reserved_ids (ss_slot ss1)) (ss_pipe ss @ [r])" unfolding ids using pipe_ok_open [OF server_okD(3) [OF ok] r] i(2) by simp
  have "live (ss_slot ss1 j)" if "j \<in> set (event_slots (drop (ss_event_index ss) (ss_ev ss)))" for j
    using server_okD(7) [OF ok] that D(2) [of j] D(3) by (cases "j = HASH_ID i") (auto simp: events_ok_def live_def)
  then have "events_ok (ss_slot ss1) (drop (ss_event_index ss) (ss_ev ss))" using server_okD(7) [OF ok] by (simp add: events_ok_def)
  then show ?thesis using slots pipe D server_okD(6) [OF ok] by (simp add: server_ok_def send_request_def)
qed

lemma failed_reserve_ok:
  assumes ok: "server_ok os ss" and R: "reserve_id ss = (i, ss1)" and i: "i < 0"
  shows "server_ok os ss1"
proof (cases rule: reserve_id_cases [OF server_okD(4,5) [OF ok]])
  case (1 i' ss')
  then show ?thesis using R i by (simp add: reserved_def)
next
  case (2 a)
  then show ?thesis using R ok by (simp add: server_ok_def)
qed

lemma reserving_ok:
  assumes ok: "server_ok os ss" and R: "reserve_id ss = (i, ss1)" and n: "i \<notin> names (ss_pipe ss)" and r: "opens r = Some i" "request_ok r"
  shows "server_ok os (if i < 0 then ss1 else send_request r ss1)"
  using open_request_ok [OF ok R _ n r] failed_reserve_ok [OF ok R] by simp

lemma free_buffer_ok: "server_ok os (free_buffer os' buffer sz ss) = server_ok os ss"
  by (rule server_ok_same) (simp_all add: free_buffer_def split: prod.split)

lemma server_ok_simps:
  "server_ok os (tick ss) = server_ok os ss" "server_ok os (syscall c ss) = server_ok os ss"
  by (rule server_ok_same; simp)+

text \<open>What other threads and the thread of the sockets do.  Requests may name any id.  An id that is reserved is new: no request that
  waits in the pipe names it.  This is a restriction of the runs (\<open>early_close_aborts\<close> below shows why it is there); it holds by
  itself while services name only ids they have been given and the counter of ids has not wrapped (\<open>reserved_id_new\<close>).  The
  sizes of buffers are not negative: no user objects are sent.\<close>

inductive server_step :: "os \<Rightarrow> socket_server \<Rightarrow> socket_server \<Rightarrow> bool" for os where
  connect: "socket_server_connect opaque a port ss = (i, ss') \<Longrightarrow> i \<notin> names (ss_pipe ss) \<Longrightarrow> server_step os ss ss'"
| listen: "socket_server_listen os opaque host port backlog ss = Some (i, ss') \<Longrightarrow> i \<notin> names (ss_pipe ss) \<Longrightarrow> server_step os ss ss'"
| bind: "socket_server_bind opaque fd ss = (i, ss') \<Longrightarrow> i \<notin> names (ss_pipe ss) \<Longrightarrow> server_step os ss ss'"
| udp: "socket_server_udp os opaque host port ss = Some (i, ss') \<Longrightarrow> i \<notin> names (ss_pipe ss) \<Longrightarrow> server_step os ss ss'"
| send: "socket_server_send os i buffer sz ss = (r, ss') \<Longrightarrow> 0 \<le> sz \<Longrightarrow> server_step os ss ss'"
| send_lowpriority: "socket_server_send_lowpriority os i buffer sz ss = ss' \<Longrightarrow> 0 \<le> sz \<Longrightarrow> server_step os ss ss'"
| udp_send: "socket_server_udp_send os i address buffer sz ss = Some (r, ss') \<Longrightarrow> 0 \<le> sz \<Longrightarrow> server_step os ss ss'"
| udp_connect: "socket_server_udp_connect os i a port ss = Some (r, ss') \<Longrightarrow> server_step os ss ss'"
| close: "server_step os ss (socket_server_close opaque i ss)"
| shutdown: "server_step os ss (socket_server_shutdown opaque i ss)"
| start: "server_step os ss (socket_server_start opaque i ss)"
| nodelay: "server_step os ss (socket_server_nodelay i ss)"
| exit: "server_step os ss (socket_server_exit ss)"
| poll: "poll_step os ss = Some (r, ss') \<Longrightarrow> wait_ok os ss \<Longrightarrow> server_step os ss ss'"

lemma reserve_loop_above:
  "reserve_loop n ss = (i, ss') \<Longrightarrow> 0 \<le> ss_alloc_id ss \<Longrightarrow> ss_alloc_id ss + int n < 2 ^ 31 \<Longrightarrow> 0 \<le> i \<Longrightarrow> ss_alloc_id ss < i"
proof (induction n arbitrary: ss)
  case 0
  then show ?case by (simp add: reserve_loop.simps)
next
  case (Suc n)
  have step: "reserve_step (ss_alloc_id ss) = ss_alloc_id ss + 1" using Suc.prems(2,3) by (simp add: reserve_step_eq)
  show ?case
    using Suc.prems Suc.IH [of "ss\<lparr>ss_alloc_id := ss_alloc_id ss + 1\<rparr>"] reserve_loop.simps [of "Suc n" ss]
    by (auto simp: step Let_def split: if_splits)
qed

lemma reserved_id_new:
  assumes "reserve_id ss = (i, ss')" "0 \<le> ss_alloc_id ss" "ss_alloc_id ss + MAX_SOCKET < 2 ^ 31" "\<forall>j \<in> names (ss_pipe ss). 0 \<le> j \<and> j \<le> ss_alloc_id ss"
  shows "i \<notin> names (ss_pipe ss)"
  using reserve_loop_above [of "nat MAX_SOCKET" ss i ss'] assms by (force simp: reserve_id_def MAX_SOCKET_def)

lemma do_bind_same:
  "do_bind os host port ss = Some (r, ss') \<Longrightarrow> server_ok os ss' = server_ok os ss \<and> ss_pipe ss' = ss_pipe ss"
  using server_rest_eq(5) [of ss' ss]
  by (auto simp: do_bind_def Let_def server_ok_simps split: sum.splits list.splits ret.splits if_splits)

lemma tick_pipe: "ss_pipe (tick ss) = ss_pipe ss" "ss_pipe (syscall c ss) = ss_pipe ss"
  by (simp_all add: tick_def syscall_def)

lemma do_listen_same:
  "do_listen os host port backlog ss = Some (r, ss') \<Longrightarrow> server_ok os ss' = server_ok os ss \<and> ss_pipe ss' = ss_pipe ss"
  using do_bind_same by (fastforce simp: do_listen_def server_ok_simps tick_pipe split: bind_splits option.splits ret.splits)


lemma server_step_ok:
  assumes os: "os_ok os" "read_ok os" and ok: "server_ok os ss" and step: "server_step os ss ss'"
  shows "server_ok os ss'"
  using step
proof cases
  case (connect opaque a port i)
  obtain i' ss1 where R: "reserve_id ss = (i', ss1)" by fastforce
  then show ?thesis using connect reserving_ok [OF ok R, of "ReqOpen i' port opaque a"] ok failed_reserve_ok [OF ok R]
    by (auto simp: socket_server_connect_def server_ok_simps split: if_splits)
next
  case (listen opaque host port backlog i)
  obtain r ss1 where L: "do_listen os host port backlog ss = Some (r, ss1)" using listen by (auto simp: socket_server_listen_def split: bind_splits)
  note L' = do_listen_same [OF L]
  then have ok1: "server_ok os ss1" using ok by simp
  show ?thesis
  proof (cases r)
    case None
    then show ?thesis using listen L ok1 unfolding socket_server_listen_def by simp
  next
    case (Some fd)
    obtain i' ss2 where R: "reserve_id ss1 = (i', ss2)" by fastforce
    show ?thesis using listen L L' Some R reserving_ok [OF ok1 R, of "ReqListen i' fd opaque"] failed_reserve_ok [OF ok1 R]
      unfolding socket_server_listen_def by (auto simp: server_ok_simps split: if_splits)
  qed
next
  case (bind opaque fd i)
  obtain i' ss1 where R: "reserve_id ss = (i', ss1)" by fastforce
  then show ?thesis using bind reserving_ok [OF ok R, of "ReqBind i' fd opaque"] failed_reserve_ok [OF ok R]
    by (auto simp: socket_server_bind_def split: if_splits)
next
  case (udp opaque host port i)
  obtain r ss1 where L: "(if port \<noteq> 0 \<or> host \<noteq> None then do_bind os host port ss
        else Some (case os_socket os (ss_time ss) True of Ret fd \<Rightarrow> if fd < 0 then None else Some (fd, False) | Fail _ \<Rightarrow> None, tick ss)) = Some (r, ss1)"
    using udp by (auto simp: socket_server_udp_def split: bind_splits if_splits)
  then have L': "server_ok os ss1" "ss_pipe ss1 = ss_pipe ss" using do_bind_same ok by (auto simp: server_ok_simps tick_pipe split: if_splits)
  show ?thesis
  proof (cases r)
    case None
    then show ?thesis using udp L L' unfolding socket_server_udp_def by simp
  next
    case (Some x)
    obtain fd v6 where x: "x = (fd, v6)" by fastforce
    obtain i' ss2 where R: "reserve_id (syscall (SysNonblocking fd) ss1) = (i', ss2)" by fastforce
    have "server_ok os (syscall (SysNonblocking fd) ss1)" using L' by (simp add: server_ok_simps)
    then show ?thesis using udp L L' Some x R reserving_ok [OF _ R, of os "ReqUdp i' fd v6 opaque"] failed_reserve_ok [OF _ R, of os]
      unfolding socket_server_udp_def by (auto simp: tick_pipe server_ok_simps split: if_splits)
  qed
next
  case (udp_send i address buffer sz r)
  obtain n where "address_size address = Some n \<or> ss' = free_buffer os buffer sz ss"
    using udp_send by (auto simp: socket_server_udp_send_def Let_def split: if_splits bind_splits)
  then show ?thesis using udp_send ok send_request_ok [OF ok] free_buffer_ok
    by (auto simp: socket_server_udp_send_def Let_def address_size_def aget_def split: if_splits option.splits bind_splits)
qed (use ok send_request_ok [OF ok] send_request_ok [of os "tick ss"] free_buffer_ok poll_step_ok [OF os ok] in
  \<open>auto simp: socket_server_send_def socket_server_send_lowpriority_def socket_server_udp_connect_def socket_server_close_def socket_server_shutdown_def
     socket_server_start_def socket_server_nodelay_def socket_server_exit_def gen_udp_address_def Let_def server_ok_simps split: if_splits sum.splits list.splits\<close>)


section \<open>Reachable states\<close>

lemma server_created: "socket_server_create has_pool has_pipe added garbage = Some ss \<Longrightarrow> server_ok os ss"
  by (auto simp: socket_server_create_def server_ok_def reserved_ids_def events_ok_def slot_okI_closed socket_states split: if_splits)

lemma server_reachable_ok:
  assumes "os_ok os" "read_ok os" "socket_server_create has_pool has_pipe added garbage = Some ss0" "(server_step os)\<^sup>*\<^sup>* ss0 ss"
  shows "server_ok os ss"
  using assms(4)
proof (induction rule: rtranclp_induct)
  case base
  then show ?case using server_created [OF assms(3)] .
next
  case (step y z)
  then show ?case using server_step_ok [OF assms(1,2)] by blast
qed

text \<open>C31: in every state that is reached from \<open>socket_server_create\<close> by calls of other threads and rounds of the loop, every slot is well
  formed: its type is one of the nine, a slot that is free or only reserved has no buffers, an open socket has a known protocol, a
  read size that is 64 times a power of two, \<open>wb_size\<close> is the number of bytes that wait, and no buffer of its low list was
  partly written.  A reserved slot is the one of its id.\<close>

theorem slots_well_formed:
  assumes "os_ok os" "read_ok os" "socket_server_create has_pool has_pipe added garbage = Some ss0" "(server_step os)\<^sup>*\<^sup>* ss0 ss"
  shows "slot_ok os (ss_slot ss k) \<and> (s_type (ss_slot ss k) = SOCKET_TYPE_RESERVE \<longrightarrow> HASH_ID (s_id (ss_slot ss k)) = k)"
  using server_okD(1,2) [OF server_reachable_ok [OF assms]] by blast

text \<open>C30: in every state that is reached from \<open>socket_server_create\<close> by steps, each of them a whole call of another thread or a whole
  round of the loop of \<open>socket_server_poll\<close>, in which no id is reserved that a request waiting in the pipe names, the next
  round returns: no assertion fails, whatever requests wait in the pipe and whatever the system answers, as long as it reports
  events of open sockets only and reads less than \<open>2 ^ 30\<close> bytes at once.  After the round no event is left for a socket that is
  closed.  A call of \<open>reserve_id\<close> in the middle of a round is not covered.\<close>

theorem poll_never_aborts:
  assumes "os_ok os" "read_ok os" "socket_server_create has_pool has_pipe added garbage = Some ss0" "(server_step os)\<^sup>*\<^sup>* ss0 ss" "wait_ok os ss"
  shows "\<exists>r ss'. poll_step os ss = Some (r, ss') \<and>
    (\<forall>k \<in> set (event_slots (drop (ss_event_index ss') (ss_ev ss'))). live (ss_slot ss' k))"
  using poll_step_ok [OF assms(1,2) server_reachable_ok [OF assms(1-4)] assms(5)] by (auto simp: server_ok_def events_ok_def)

definition demo_start :: socket_server where
  "demo_start = \<lparr>ss_checkctrl = True, ss_alloc_id = 0, ss_event_index = 0, ss_ev = [],
     ss_slot = (\<lambda>k. socket_zero\<lparr>s_type := SOCKET_TYPE_INVALID, s_high := [], s_low := []\<rparr>),
     ss_pipe = [], ss_result = no_result, ss_more = True, ss_time = 0, ss_calls = []\<rparr>"

abbreviation demo_opened :: socket_server where
  "demo_opened \<equiv> socket_server_close 9 1 (snd (socket_server_connect 9 (bytes ''host'') 80 demo_start))"

lemma demo_reachable: "(server_step demo_os)\<^sup>*\<^sup>* demo_start demo_opened" "socket_server_create True True True (\<lambda>_. socket_zero) = Some demo_start"
proof -
  define ss1 where "ss1 = snd (socket_server_connect 9 (bytes ''host'') 80 demo_start)"
  have "server_step demo_os demo_start ss1"
    by (rule server_step.connect [of 9 "bytes ''host''" 80 _ "fst (socket_server_connect 9 (bytes ''host'') 80 demo_start)"])
      (simp_all add: ss1_def, simp add: names_def demo_start_def)
  then show "(server_step demo_os)\<^sup>*\<^sup>* demo_start demo_opened"
    using server_step.close [of demo_os ss1 9 1] by (simp add: ss1_def [symmetric])
  show "socket_server_create True True True (\<lambda>_. socket_zero) = Some demo_start" by (simp add: socket_server_create_def demo_start_def)
qed

lemma demo_reads: "read_ok demo_os"
  by (simp add: read_ok_def demo_os_def)

theorem slots_well_formed_witness: "s_type (ss_slot demo_opened 1) = SOCKET_TYPE_RESERVE \<and> slot_ok demo_os (ss_slot demo_opened 1)"
proof -
  have "MAX_SOCKET = 65536" by (simp add: MAX_SOCKET_def)
  then have "s_type (ss_slot demo_opened 1) = SOCKET_TYPE_RESERVE"
    by (simp add: socket_server_close_def socket_server_connect_def bytes_def reserve_id_def reserve_loop.simps demo_start_def reserve_step_eq HASH_ID_eq
        socket_states socket_zero_def send_request_def put_slot_def Let_def)
  then show ?thesis using slots_well_formed [OF demo_os_ok demo_reads demo_reachable(2,1)] by blast
qed

theorem poll_never_aborts_witness: "ss_pipe demo_opened \<noteq> [] \<and> (\<exists>r ss'. poll_step demo_os demo_opened = Some (r, ss'))"
proof -
  have "wait_ok demo_os demo_opened" by (simp add: wait_ok_def demo_os_def events_ok_def)
  then show ?thesis using poll_never_aborts [OF demo_os_ok demo_reads demo_reachable(2,1)]
    by (auto simp: socket_server_close_def send_request_def)
qed

text \<open>The two restrictions are needed.  The close of an id that was never given out fails an assertion when the id is reserved before
  the request is handled.  And when another thread reserves the slot of a socket between its \<open>force_close\<close> and the search of
  \<open>clear_closed_event\<close>, the search passes over it, because it looks for a slot that is free, and an event of the closed socket stays
  in the list for the slot of the new one.\<close>

lemma early_close_aborts:
  assumes "s_type (ss_slot ss (HASH_ID i)) = SOCKET_TYPE_RESERVE" "s_id (ss_slot ss (HASH_ID i)) = i" "send_buffer_empty (ss_slot ss (HASH_ID i))"
  shows "close_socket os i shutdown opaque ss = None"
  using assms by (simp add: close_socket_def force_close_def Let_def socket_states)

lemma clear_event_keeps:
  "s_type (slot k) \<noteq> SOCKET_TYPE_INVALID \<Longrightarrow> k \<in> set (event_slots es) \<Longrightarrow> k \<in> set (event_slots (clear_event slot i es))"
  by (induction slot i es rule: clear_event.induct) (auto split: option.splits if_splits)

lemma reserve_race:
  assumes "reserved j ss ss'" "HASH_ID j \<in> set (event_slots (drop (ss_event_index ss) (ss_ev ss)))" "ty = SOCKET_CLOSE"
    "ss_event_index ss \<le> length (ss_ev ss)"
  shows "HASH_ID j \<in> set (event_slots (drop (ss_event_index ss) (ss_ev (clear_closed_event ty ss')))) \<and>
    \<not> live (ss_slot (clear_closed_event ty ss') (HASH_ID j))"
proof -
  have s': "s_type (ss_slot ss' (HASH_ID j)) = SOCKET_TYPE_RESERVE" "ss_ev ss' = ss_ev ss" "ss_event_index ss' = ss_event_index ss"
    using assms(1) by (simp_all add: reserved_def put_slot_def)
  then have "HASH_ID j \<in> set (event_slots (clear_event (ss_slot ss') (r_id (ss_result ss')) (drop (ss_event_index ss) (ss_ev ss))))"
    using clear_event_keeps assms(2) by (simp add: socket_states)
  then show ?thesis using s' assms(3,4) by (simp add: clear_closed_event_def live_def min_def)
qed

end
