(* ===== verification/Skynet_Seri.thy ===== *)
theory Skynet_Seri
  imports Skynet_Text Skynet_Bytes
begin

text \<open>
  The serialisation of Lua values, \<open>lualib-src/lua-seri.c\<close>, for a little endian machine with 64 bit pointers.

  A Lua value is a tree: a table is its entries in the order of \<open>lua_next\<close> with the length that \<open>lua_rawlen\<close> returns; a table
  with a \<open>__pairs\<close> function is the sequence of pairs that the function produces; a floating point number is its 64 bits.  A block
  of the write buffer is the list of the bytes written to it, so \<open>ptr\<close> is the length of the current one.  The result \<open>None\<close> is an
  overflow of an \<open>int\<close> or, in the reading functions, the end of the fuel; errors raised in Lua are values.
\<close>

section \<open>Constants and data\<close>

definition TYPE_NIL :: int where "TYPE_NIL = 0"
definition TYPE_BOOLEAN :: int where "TYPE_BOOLEAN = 1"
definition TYPE_NUMBER :: int where "TYPE_NUMBER = 2"
definition TYPE_NUMBER_ZERO :: int where "TYPE_NUMBER_ZERO = 0"
definition TYPE_NUMBER_BYTE :: int where "TYPE_NUMBER_BYTE = 1"
definition TYPE_NUMBER_WORD :: int where "TYPE_NUMBER_WORD = 2"
definition TYPE_NUMBER_DWORD :: int where "TYPE_NUMBER_DWORD = 4"
definition TYPE_NUMBER_QWORD :: int where "TYPE_NUMBER_QWORD = 6"
definition TYPE_NUMBER_REAL :: int where "TYPE_NUMBER_REAL = 8"
definition TYPE_USERDATA :: int where "TYPE_USERDATA = 3"
definition TYPE_SHORT_STRING :: int where "TYPE_SHORT_STRING = 4"
definition TYPE_LONG_STRING :: int where "TYPE_LONG_STRING = 5"
definition TYPE_TABLE :: int where "TYPE_TABLE = 6"
definition MAX_COOKIE :: int where "MAX_COOKIE = 32"
definition BLOCK_SIZE :: nat where "BLOCK_SIZE = 128"
definition MAX_DEPTH :: nat where "MAX_DEPTH = 32"

lemmas seri_types = TYPE_NIL_def TYPE_BOOLEAN_def TYPE_NUMBER_def TYPE_NUMBER_ZERO_def TYPE_NUMBER_BYTE_def TYPE_NUMBER_WORD_def TYPE_NUMBER_DWORD_def
  TYPE_NUMBER_QWORD_def TYPE_NUMBER_REAL_def TYPE_USERDATA_def TYPE_SHORT_STRING_def TYPE_LONG_STRING_def TYPE_TABLE_def MAX_COOKIE_def

definition COMBINE_TYPE :: "int \<Rightarrow> int \<Rightarrow> byte" where
  "COMBINE_TYPE t v = word_of_int (t OR push_bit 3 v)"

datatype lua = LNil | LBoolean bool | LInteger u64 | LReal u64 | LString "byte list" | LPointer u64
  | LTable int "(lua \<times> lua) list" | LPairs "(lua \<times> lua) list" | LOther cstring

datatype seri_error = TooDeep | UnsupportedType cstring | InvalidStream int | NullPointer | NaNIndex | BadAccess

record write_block =
  wk_full :: "byte list list"
  wk_cur :: "byte list"
  wk_len :: int

record read_block =
  rb_buffer :: "byte list"
  rb_len :: int
  rb_ptr :: int

section \<open>Writing\<close>

definition wb_next :: "write_block \<Rightarrow> write_block" where
  "wb_next b = (if length (wk_cur b) = BLOCK_SIZE then b\<lparr>wk_full := wk_full b @ [wk_cur b], wk_cur := []\<rparr> else b)"

function wb_push :: "write_block \<Rightarrow> byte list \<Rightarrow> write_block option" where
  "wb_push b buf =
     (let b1 = wb_next b; copy = BLOCK_SIZE - length (wk_cur b1) in
      if length (wk_cur b1) + length buf \<le> BLOCK_SIZE then do {
        l \<leftarrow> cint (wk_len b1 + int (length buf));
        Some (b1\<lparr>wk_cur := wk_cur b1 @ buf, wk_len := l\<rparr>) }
      else if copy = 0 then None
      else do {
        l \<leftarrow> cint (wk_len b1 + int copy);
        wb_push (b1\<lparr>wk_cur := wk_cur b1 @ take copy buf, wk_len := l\<rparr>) (drop copy buf) })"
  by pat_completeness auto
termination by (relation "measure (\<lambda>(b, buf). length buf)") auto

declare wb_push.simps [simp del]

definition wb_init :: write_block where
  "wb_init = \<lparr>wk_full = [], wk_cur = [], wk_len = 0\<rparr>"

definition wb_nil :: "write_block \<Rightarrow> write_block option" where
  "wb_nil wb = wb_push wb [word_of_int TYPE_NIL]"

definition wb_boolean :: "write_block \<Rightarrow> bool \<Rightarrow> write_block option" where
  "wb_boolean wb boolean = wb_push wb [COMBINE_TYPE TYPE_BOOLEAN (if boolean then 1 else 0)]"

definition wb_integer :: "write_block \<Rightarrow> u64 \<Rightarrow> write_block option" where
  "wb_integer wb v =
     (let i = sint v; v32 = ucast v :: u32 in
      if i = 0 then wb_push wb [COMBINE_TYPE TYPE_NUMBER TYPE_NUMBER_ZERO]
      else if i \<noteq> sint v32 then do {
        wb1 \<leftarrow> wb_push wb [COMBINE_TYPE TYPE_NUMBER TYPE_NUMBER_QWORD];
        wb_push wb1 (le_bytes 8 v) }
      else if i < 0 then do {
        wb1 \<leftarrow> wb_push wb [COMBINE_TYPE TYPE_NUMBER TYPE_NUMBER_DWORD];
        wb_push wb1 (le_bytes 4 v32) }
      else if i < 0x100 then do {
        wb1 \<leftarrow> wb_push wb [COMBINE_TYPE TYPE_NUMBER TYPE_NUMBER_BYTE];
        wb_push wb1 [ucast v] }
      else if i < 0x10000 then do {
        wb1 \<leftarrow> wb_push wb [COMBINE_TYPE TYPE_NUMBER TYPE_NUMBER_WORD];
        wb_push wb1 (le_bytes 2 (ucast v :: u16)) }
      else do {
        wb1 \<leftarrow> wb_push wb [COMBINE_TYPE TYPE_NUMBER TYPE_NUMBER_DWORD];
        wb_push wb1 (le_bytes 4 v32) })"

definition wb_real :: "write_block \<Rightarrow> u64 \<Rightarrow> write_block option" where
  "wb_real wb v = do {
     wb1 \<leftarrow> wb_push wb [COMBINE_TYPE TYPE_NUMBER TYPE_NUMBER_REAL];
     wb_push wb1 (le_bytes 8 v) }"

definition wb_pointer :: "write_block \<Rightarrow> u64 \<Rightarrow> write_block option" where
  "wb_pointer wb v = do {
     wb1 \<leftarrow> wb_push wb [word_of_int TYPE_USERDATA];
     wb_push wb1 (le_bytes 8 v) }"

text \<open>\<open>wb_string\<close> with the length converted to \<open>int\<close>, as \<open>pack_one\<close> passes it.\<close>

definition wb_string :: "write_block \<Rightarrow> byte list \<Rightarrow> write_block option" where
  "wb_string wb str =
     (let len = to_int (int (length str)) in
      if len < MAX_COOKIE then do {
        wb1 \<leftarrow> wb_push wb [COMBINE_TYPE TYPE_SHORT_STRING len];
        if len > 0 then wb_push wb1 (take (nat len) str) else Some wb1 }
      else if len < 0x10000 then do {
        wb1 \<leftarrow> wb_push wb [COMBINE_TYPE TYPE_LONG_STRING 2];
        wb2 \<leftarrow> wb_push wb1 (le_bytes 2 (word_of_int len :: u16));
        wb_push wb2 (take (nat len) str) }
      else do {
        wb1 \<leftarrow> wb_push wb [COMBINE_TYPE TYPE_LONG_STRING 4];
        wb2 \<leftarrow> wb_push wb1 (le_bytes 4 (word_of_int len :: u32));
        wb_push wb2 (take (nat len) str) })"

text \<open>Entries of a table: \<open>lua_rawgeti\<close>, the part that \<open>wb_table_array\<close> writes and the keys that \<open>wb_table_hash\<close> skips.\<close>

definition rawgeti :: "(lua \<times> lua) list \<Rightarrow> int \<Rightarrow> lua" where
  "rawgeti ps i = (case find (\<lambda>(k, v). k = LInteger (word_of_int i)) ps of Some (k, v) \<Rightarrow> v | None \<Rightarrow> LNil)"

definition array_part :: "int \<Rightarrow> (lua \<times> lua) list \<Rightarrow> lua list" where
  "array_part n ps = map (rawgeti ps) [1..n]"

definition in_array :: "int \<Rightarrow> lua \<Rightarrow> bool" where
  "in_array n k = (case k of LInteger x \<Rightarrow> 0 < sint x \<and> sint x \<le> n | _ \<Rightarrow> False)"

definition flat :: "(lua \<times> lua) list \<Rightarrow> lua list" where
  "flat ps = concat (map (\<lambda>(k, v). [k, v]) ps)"

definition hash_part :: "int \<Rightarrow> (lua \<times> lua) list \<Rightarrow> lua list" where
  "hash_part n ps = flat (filter (\<lambda>(k, v). \<not> in_array n k) ps)"

definition wb_table_head :: "write_block \<Rightarrow> int \<Rightarrow> write_block option" where
  "wb_table_head wb array_size =
     (if array_size \<ge> MAX_COOKIE - 1 then do {
        wb1 \<leftarrow> wb_push wb [COMBINE_TYPE TYPE_TABLE (MAX_COOKIE - 1)];
        wb_integer wb1 (word_of_int array_size) }
      else wb_push wb [COMBINE_TYPE TYPE_TABLE array_size])"

text \<open>\<open>pack_one\<close> with \<open>wb_table\<close>; \<open>pack_items\<close> writes the values that the loops of \<open>wb_table_array\<close>, \<open>wb_table_hash\<close> and
  \<open>wb_table_metapairs\<close> visit.\<close>

function (sequential) pack_one :: "nat \<Rightarrow> lua \<Rightarrow> write_block \<Rightarrow> (seri_error + write_block) option"
  and pack_items :: "nat \<Rightarrow> lua list \<Rightarrow> write_block \<Rightarrow> (seri_error + write_block) option" where
  "pack_one depth v b =
     (if depth > MAX_DEPTH then Some (Inl TooDeep)
      else
        (case v of
           LNil \<Rightarrow> map_option Inr (wb_nil b)
         | LInteger x \<Rightarrow> map_option Inr (wb_integer b x)
         | LReal x \<Rightarrow> map_option Inr (wb_real b x)
         | LBoolean x \<Rightarrow> map_option Inr (wb_boolean b x)
         | LString str \<Rightarrow> map_option Inr (wb_string b str)
         | LPointer p \<Rightarrow> map_option Inr (wb_pointer b p)
         | LTable n ps \<Rightarrow>
             (case wb_table_head b n of
                None \<Rightarrow> None
              | Some b1 \<Rightarrow>
                  (case pack_items (Suc depth) (array_part n ps) b1 of
                     Some (Inr b2) \<Rightarrow>
                       (case pack_items (Suc depth) (hash_part n ps) b2 of
                          Some (Inr b3) \<Rightarrow> map_option Inr (wb_nil b3)
                        | r \<Rightarrow> r)
                   | r \<Rightarrow> r))
         | LPairs ps \<Rightarrow>
             (case wb_push b [COMBINE_TYPE TYPE_TABLE 0] of
                None \<Rightarrow> None
              | Some b1 \<Rightarrow>
                  (case pack_items (Suc depth) (flat (takeWhile (\<lambda>(k, v). k \<noteq> LNil) ps)) b1 of
                     Some (Inr b2) \<Rightarrow> map_option Inr (wb_nil b2)
                   | r \<Rightarrow> r))
         | LOther t \<Rightarrow> Some (Inl (UnsupportedType t))))"
| "pack_items depth [] b = Some (Inr b)"
| "pack_items depth (v # vs) b =
     (case pack_one depth v b of
        Some (Inr b1) \<Rightarrow> pack_items depth vs b1
      | r \<Rightarrow> r)"
  by pat_completeness auto
termination
  by (relation "measures [\<lambda>x. case x of Inl (d, v, b) \<Rightarrow> 34 - d | Inr (d, vs, b) \<Rightarrow> 34 - d, \<lambda>x. case x of Inl (d, v, b) \<Rightarrow> 0 | Inr (d, vs, b) \<Rightarrow> Suc (length vs)]")
    (auto simp: MAX_DEPTH_def)

declare pack_one.simps [simp del]

fun seri :: "byte list list \<Rightarrow> int \<Rightarrow> byte list option" where
  "seri bs len =
     (if len > 0 then
        (case bs of
           [] \<Rightarrow> None
         | b # rest \<Rightarrow>
             if len \<ge> int BLOCK_SIZE then (case seri rest (len - int BLOCK_SIZE) of None \<Rightarrow> None | Some r \<Rightarrow> Some (b @ r))
             else Some (take (nat len) b))
      else Some [])"

declare seri.simps [simp del]

text \<open>\<open>luaseri_pack\<close>: the buffer and its size.\<close>

definition luaseri_pack :: "lua list \<Rightarrow> (seri_error + (byte list \<times> int)) option" where
  "luaseri_pack vs =
     (case pack_items 0 vs wb_init of
        Some (Inr wb) \<Rightarrow> (case seri (wk_full wb @ [wk_cur wb]) (wk_len wb) of None \<Rightarrow> None | Some buffer \<Rightarrow> Some (Inr (buffer, wk_len wb)))
      | Some (Inl e) \<Rightarrow> Some (Inl e)
      | None \<Rightarrow> None)"

section \<open>Tables\<close>

text \<open>Keys of \<open>lua_rawset\<close>: a float with an integral value becomes that integer, a NaN is refused.  The parts of the
  64 bits are the sign, the exponent and the fraction.\<close>

definition float_exp :: "u64 \<Rightarrow> nat" where "float_exp r = unat (drop_bit 52 r AND 0x7ff)"
definition float_frac :: "u64 \<Rightarrow> nat" where "float_frac r = unat (r AND 0xfffffffffffff)"

definition is_nan :: "u64 \<Rightarrow> bool" where
  "is_nan r \<longleftrightarrow> float_exp r = 2047 \<and> float_frac r \<noteq> 0"

definition float_integer :: "u64 \<Rightarrow> int option" where
  "float_integer r =
     (let e = float_exp r; f = float_frac r; m = (if e = 0 then f else f + 2 ^ 52); s = (if bit r 63 then - 1 else 1) in
      if e = 2047 then None
      else if e \<ge> 1075 then (if e \<le> 1086 \<and> - (2 ^ 63) \<le> s * int (m * 2 ^ (e - 1075)) \<and> s * int (m * 2 ^ (e - 1075)) < 2 ^ 63 then Some (s * int (m * 2 ^ (e - 1075))) else None)
      else if m mod 2 ^ (1075 - max e 1) = 0 then Some (s * int (m div 2 ^ (1075 - max e 1)))
      else None)"

definition rawkey :: "lua \<Rightarrow> lua option" where
  "rawkey k =
     (case k of
        LReal r \<Rightarrow> (case float_integer r of Some i \<Rightarrow> Some (LInteger (word_of_int i)) | None \<Rightarrow> if is_nan r then None else Some k)
      | _ \<Rightarrow> Some k)"

definition is_table :: "lua \<Rightarrow> bool" where
  "is_table v = (case v of LTable _ _ \<Rightarrow> True | LPairs _ \<Rightarrow> True | _ \<Rightarrow> False)"

text \<open>Setting an entry of a table that is being built.  A table as a key is a new object, equal to no other key.\<close>

fun tab_set :: "(lua \<times> lua) list \<Rightarrow> lua \<Rightarrow> lua \<Rightarrow> (lua \<times> lua) list" where
  "tab_set [] k v = (if v = LNil then [] else [(k, v)])"
| "tab_set ((k', v') # ps) k v =
     (if k' = k \<and> \<not> is_table k then (if v = LNil then ps else (k, v) # ps) else (k', v') # tab_set ps k v)"

definition lua_rawset :: "(lua \<times> lua) list \<Rightarrow> lua \<Rightarrow> lua \<Rightarrow> seri_error + (lua \<times> lua) list" where
  "lua_rawset t k v = (case rawkey k of None \<Rightarrow> Inl NaNIndex | Some k' \<Rightarrow> Inr (tab_set t k' v))"

section \<open>Reading\<close>

definition rball_init :: "byte list \<Rightarrow> int \<Rightarrow> read_block" where
  "rball_init buffer sz = \<lparr>rb_buffer = buffer, rb_len = sz, rb_ptr = 0\<rparr>"

text \<open>\<open>rb_read\<close>: the position of the bytes in the buffer, or the null pointer.\<close>

definition rb_read :: "read_block \<Rightarrow> int \<Rightarrow> int option \<times> read_block" where
  "rb_read rb sz =
     (if rb_len rb < sz then (None, rb)
      else (Some (rb_ptr rb), rb\<lparr>rb_ptr := rb_ptr rb + sz, rb_len := rb_len rb - sz\<rparr>))"

text \<open>Reading \<open>sz\<close> bytes at that position; the stream is invalid when there is none.\<close>

definition rb_get :: "read_block \<Rightarrow> int \<Rightarrow> seri_error + (byte list \<times> read_block)" where
  "rb_get rb sz =
     (case rb_read rb sz of
        (None, rb1) \<Rightarrow> Inl (InvalidStream (rb_len rb1))
      | (Some p, rb1) \<Rightarrow>
          if 0 \<le> p \<and> 0 \<le> sz \<and> p + sz \<le> int (length (rb_buffer rb)) then Inr (take (nat sz) (drop (nat p) (rb_buffer rb)), rb1)
          else Inl BadAccess)"

definition get_integer :: "read_block \<Rightarrow> int \<Rightarrow> seri_error + (u64 \<times> read_block)" where
  "get_integer rb cookie =
     (if cookie = TYPE_NUMBER_ZERO then Inr (0, rb)
      else if cookie = TYPE_NUMBER_BYTE then map_sum id (apfst (\<lambda>bs. ucast (le_word bs :: byte))) (rb_get rb 1)
      else if cookie = TYPE_NUMBER_WORD then map_sum id (apfst (\<lambda>bs. ucast (le_word bs :: u16))) (rb_get rb 2)
      else if cookie = TYPE_NUMBER_DWORD then map_sum id (apfst (\<lambda>bs. scast (le_word bs :: u32))) (rb_get rb 4)
      else if cookie = TYPE_NUMBER_QWORD then map_sum id (apfst le_word) (rb_get rb 8)
      else Inl (InvalidStream (rb_len rb)))"

definition get_real :: "read_block \<Rightarrow> seri_error + (u64 \<times> read_block)" where
  "get_real rb = map_sum id (apfst le_word) (rb_get rb 8)"

definition get_pointer :: "read_block \<Rightarrow> seri_error + (u64 \<times> read_block)" where
  "get_pointer rb = map_sum id (apfst le_word) (rb_get rb 8)"

definition get_buffer :: "read_block \<Rightarrow> int \<Rightarrow> seri_error + (lua \<times> read_block)" where
  "get_buffer rb len = map_sum id (apfst LString) (rb_get rb len)"

text \<open>The values other than tables of \<open>push_value\<close>.\<close>

definition push_scalar :: "read_block \<Rightarrow> int \<Rightarrow> int \<Rightarrow> seri_error + (lua \<times> read_block)" where
  "push_scalar rb ty cookie =
     (if ty = TYPE_NIL then Inr (LNil, rb)
      else if ty = TYPE_BOOLEAN then Inr (LBoolean (cookie \<noteq> 0), rb)
      else if ty = TYPE_NUMBER then
        (if cookie = TYPE_NUMBER_REAL then map_sum id (apfst LReal) (get_real rb) else map_sum id (apfst LInteger) (get_integer rb cookie))
      else if ty = TYPE_USERDATA then map_sum id (apfst LPointer) (get_pointer rb)
      else if ty = TYPE_SHORT_STRING then get_buffer rb cookie
      else if ty = TYPE_LONG_STRING then
        (if cookie = 2 then
           (case rb_get rb 2 of Inl e \<Rightarrow> Inl e | Inr (bs, rb1) \<Rightarrow> get_buffer rb1 (uint (le_word bs :: u16)))
         else if cookie \<noteq> 4 then Inl (InvalidStream (rb_len rb))
         else (case rb_get rb 4 of Inl e \<Rightarrow> Inl e | Inr (bs, rb1) \<Rightarrow> get_buffer rb1 (to_int (uint (le_word bs :: u32)))))
      else Inl (InvalidStream (rb_len rb)))"

text \<open>The number of array elements, at the head of \<open>unpack_table\<close>.\<close>

definition table_size :: "read_block \<Rightarrow> int \<Rightarrow> seri_error + (int \<times> read_block)" where
  "table_size rb array_size =
     (if array_size = MAX_COOKIE - 1 then
        (case rb_get rb 1 of
           Inl e \<Rightarrow> Inl e
         | Inr (bs, rb1) \<Rightarrow>
             (let ty = le_word bs :: byte; cookie = uint (drop_bit 3 ty) in
              if uint (ty AND 7) \<noteq> TYPE_NUMBER \<or> cookie = TYPE_NUMBER_REAL then Inl (InvalidStream (rb_len rb1))
              else map_sum id (apfst (\<lambda>w. to_int (sint w))) (get_integer rb1 cookie)))
      else Inr (array_size, rb))"

type_synonym 'a reading = "(seri_error + ('a \<times> read_block)) option"

text \<open>The two loops of \<open>unpack_table\<close>, over the array and over the other entries, given how one value is read.  They have fuel for one
  turn per byte.\<close>

fun unpack_array :: "nat \<Rightarrow> (read_block \<Rightarrow> lua reading) \<Rightarrow> int \<Rightarrow> int \<Rightarrow> (lua \<times> lua) list \<Rightarrow> read_block \<Rightarrow> (lua \<times> lua) list reading" where
  "unpack_array 0 one i array_size t rb = None"
| "unpack_array (Suc n) one i array_size t rb =
     (if i \<le> array_size then
        (case one rb of
           Some (Inr (v, rb1)) \<Rightarrow> unpack_array n one (i + 1) array_size (tab_set t (LInteger (word_of_int i)) v) rb1
         | Some (Inl e) \<Rightarrow> Some (Inl e)
         | None \<Rightarrow> None)
      else Some (Inr (t, rb)))"

fun unpack_hash :: "nat \<Rightarrow> (read_block \<Rightarrow> lua reading) \<Rightarrow> (lua \<times> lua) list \<Rightarrow> read_block \<Rightarrow> (lua \<times> lua) list reading" where
  "unpack_hash 0 one t rb = None"
| "unpack_hash (Suc n) one t rb =
     (case one rb of
        Some (Inr (k, rb1)) \<Rightarrow>
          (if k = LNil then Some (Inr (t, rb1))
           else
             (case one rb1 of
                Some (Inr (v, rb2)) \<Rightarrow>
                  (case lua_rawset t k v of
                     Inl e \<Rightarrow> Some (Inl e)
                   | Inr t' \<Rightarrow> unpack_hash n one t' rb2)
              | Some (Inl e) \<Rightarrow> Some (Inl e)
              | None \<Rightarrow> None))
      | Some (Inl e) \<Rightarrow> Some (Inl e)
      | None \<Rightarrow> None)"

text \<open>\<open>unpack_table\<close>; \<open>len\<close> is the length that Lua gives to the table that was built.\<close>

definition unpack_table :: "(read_block \<Rightarrow> lua reading) \<Rightarrow> ((lua \<times> lua) list \<Rightarrow> int) \<Rightarrow> read_block \<Rightarrow> int \<Rightarrow> lua reading" where
  "unpack_table one len rb cookie =
     (case table_size rb cookie of
        Inl e \<Rightarrow> Some (Inl e)
      | Inr (array_size, rb1) \<Rightarrow>
          (case unpack_array (nat (rb_len rb1) + 2) one 1 array_size [] rb1 of
             Some (Inr (t, rb2)) \<Rightarrow>
               (case unpack_hash (nat (rb_len rb2) + 2) one t rb2 of
                  Some (Inr (t', rb3)) \<Rightarrow> Some (Inr (LTable (len t') t', rb3))
                | Some (Inl e) \<Rightarrow> Some (Inl e)
                | None \<Rightarrow> None)
           | Some (Inl e) \<Rightarrow> Some (Inl e)
           | None \<Rightarrow> None))"

definition push_value :: "(read_block \<Rightarrow> lua reading) \<Rightarrow> ((lua \<times> lua) list \<Rightarrow> int) \<Rightarrow> read_block \<Rightarrow> byte \<Rightarrow> lua reading" where
  "push_value one len rb ty =
     (if uint (ty AND 7) = TYPE_TABLE then unpack_table one len rb (uint (drop_bit 3 ty))
      else Some (push_scalar rb (uint (ty AND 7)) (uint (drop_bit 3 ty))))"

text \<open>\<open>unpack_one\<close>, with fuel for the nesting of tables.\<close>

fun unpack_one :: "nat \<Rightarrow> ((lua \<times> lua) list \<Rightarrow> int) \<Rightarrow> read_block \<Rightarrow> lua reading" where
  "unpack_one 0 len rb = None"
| "unpack_one (Suc n) len rb =
     (case rb_get rb 1 of
        Inl e \<Rightarrow> Some (Inl e)
      | Inr (bs, rb1) \<Rightarrow> push_value (unpack_one n len) len rb1 (le_word bs))"

text \<open>The loop of \<open>luaseri_unpack\<close>, with its own fuel; then the loop and the checks before it, for a buffer of \<open>sz\<close> bytes; then
  \<open>luaseri_unpack\<close> with its arguments: none, a string, or a pointer (\<open>None\<close> is the null pointer, otherwise the bytes it points to) and a length.\<close>

fun unpack_all :: "nat \<Rightarrow> ((lua \<times> lua) list \<Rightarrow> int) \<Rightarrow> read_block \<Rightarrow> (seri_error + lua list) option" where
  "unpack_all 0 len rb = None"
| "unpack_all (Suc n) len rb =
     (case rb_read rb 1 of
        (None, rb1) \<Rightarrow> Some (Inr [])
      | (Some p, rb1) \<Rightarrow>
          (if 0 \<le> p \<and> p < int (length (rb_buffer rb)) then
             (case push_value (unpack_one (Suc (nat (rb_len rb1))) len) len rb1 (rb_buffer rb ! nat p) of
                Some (Inr (v, rb2)) \<Rightarrow>
                  (case unpack_all n len rb2 of Some (Inr vs) \<Rightarrow> Some (Inr (v # vs)) | r \<Rightarrow> r)
              | Some (Inl e) \<Rightarrow> Some (Inl e)
              | None \<Rightarrow> None)
           else Some (Inl BadAccess)))"

definition unpack_buffer :: "((lua \<times> lua) list \<Rightarrow> int) \<Rightarrow> byte list option \<Rightarrow> int \<Rightarrow> (seri_error + lua list) option" where
  "unpack_buffer len buffer sz =
     (if sz = 0 then Some (Inr [])
      else
        (case buffer of
           None \<Rightarrow> Some (Inl NullPointer)
         | Some bs \<Rightarrow> unpack_all (Suc (nat sz)) len (rball_init bs sz)))"

datatype seri_arg = NoArg | StringArg "byte list" | PointerArg "byte list option" int

definition luaseri_unpack :: "((lua \<times> lua) list \<Rightarrow> int) \<Rightarrow> seri_arg \<Rightarrow> (seri_error + lua list) option" where
  "luaseri_unpack len arg =
     (case arg of
        NoArg \<Rightarrow> Some (Inr [])
      | StringArg str \<Rightarrow> unpack_buffer len (Some str) (to_int (int (length str)))
      | PointerArg buffer sz \<Rightarrow> unpack_buffer len buffer (to_int sz))"

section \<open>The write buffer\<close>

definition content :: "write_block \<Rightarrow> byte list" where
  "content b = concat (wk_full b) @ wk_cur b"

definition wb_ok :: "write_block \<Rightarrow> bool" where
  "wb_ok b \<longleftrightarrow> (\<forall>x \<in> set (wk_full b). length x = BLOCK_SIZE) \<and> length (wk_cur b) \<le> BLOCK_SIZE \<and> wk_len b = int (length (content b)) \<and> wk_len b < 2 ^ 31"

lemma wb_next_ok: "wb_ok b \<Longrightarrow> wb_ok (wb_next b) \<and> content (wb_next b) = content b \<and> wk_len (wb_next b) = wk_len b \<and> length (wk_cur (wb_next b)) < BLOCK_SIZE"
  by (auto simp: wb_next_def wb_ok_def content_def BLOCK_SIZE_def)

lemma wb_push_spec:
  assumes "wb_ok b"
  shows "if wk_len b + int (length buf) < 2 ^ 31 then \<exists>b'. wb_push b buf = Some b' \<and> wb_ok b' \<and> content b' = content b @ buf else wb_push b buf = None"
  using assms
proof (induction b buf rule: wb_push.induct)
  case (1 b buf)
  define b1 where "b1 = wb_next b"
  define copy where "copy = BLOCK_SIZE - length (wk_cur b1)"
  have b1: "wb_ok b1" "content b1 = content b" "wk_len b1 = wk_len b" "length (wk_cur b1) < BLOCK_SIZE" using wb_next_ok [OF 1(2)] by (simp_all add: b1_def)
  have l0: "0 \<le> wk_len b" using 1(2) by (simp add: wb_ok_def)
  show ?case
  proof (cases "length (wk_cur b1) + length buf \<le> BLOCK_SIZE")
    case True
    then have "wb_push b buf = map_option (\<lambda>l. b1\<lparr>wk_cur := wk_cur b1 @ buf, wk_len := l\<rparr>) (cint (wk_len b + int (length buf)))"
      unfolding wb_push.simps [of b buf] Let_def b1_def [symmetric] using b1(3) by (simp add: cint_def)
    then show ?thesis using True b1 l0 by (auto simp: wb_ok_def content_def cint_def cint_ok_def)
  next
    case False
    define b2 where "b2 = b1\<lparr>wk_cur := wk_cur b1 @ take copy buf, wk_len := wk_len b1 + int copy\<rparr>"
    have c: "copy \<noteq> 0" "copy < length buf"
      using b1(4) False by (auto simp: copy_def)
    have eq: "wb_push b buf = (case cint (wk_len b1 + int copy) of None \<Rightarrow> None | Some l \<Rightarrow> wb_push (b1\<lparr>wk_cur := wk_cur b1 @ take copy buf, wk_len := l\<rparr>) (drop copy buf))"
      unfolding wb_push.simps [of b buf] Let_def b1_def [symmetric] copy_def [symmetric] using False c(1) by (simp add: cint_def)
    show ?thesis
    proof (cases "cint_ok (wk_len b1 + int copy)")
      case True
      then have ok2: "wb_ok b2" using b1 c(2) by (auto simp: wb_ok_def content_def b2_def cint_ok_def copy_def)
      have eq2: "wb_push b buf = wb_push b2 (drop copy buf)" using eq True by (simp add: b2_def)
      have "if wk_len b2 + int (length (drop copy buf)) < 2 ^ 31
        then \<exists>b'. wb_push b2 (drop copy buf) = Some b' \<and> wb_ok b' \<and> content b' = content b2 @ drop copy buf else wb_push b2 (drop copy buf) = None"
        unfolding b2_def using ok2 [unfolded b2_def] by (intro 1(1) [OF b1_def copy_def False]) (use c(1) True in simp_all)
      moreover have "wk_len b2 + int (length (drop copy buf)) = wk_len b + int (length buf)" "content b2 @ drop copy buf = content b @ buf"
        using c(2) b1 by (simp_all add: b2_def content_def)
      ultimately show ?thesis unfolding eq2 by (auto split: if_splits)
    next
      case False
      then show ?thesis using eq c l0 b1(3) by (simp add: cint_def cint_ok_def)
    qed
  qed
qed

text \<open>What a function of the write buffer wrote; it returns unless the length overflows.\<close>

definition wrote :: "write_block \<Rightarrow> write_block option \<Rightarrow> byte list \<Rightarrow> bool" where
  "wrote b r bs \<longleftrightarrow> (if wk_len b + int (length bs) < 2 ^ 31 then \<exists>b'. r = Some b' \<and> wb_ok b' \<and> content b' = content b @ bs else r = None)"

lemma wrote_push: "wb_ok b \<Longrightarrow> wrote b (wb_push b buf) buf"
  using wb_push_spec by (simp add: wrote_def)

lemma wb_okD: "wb_ok b \<Longrightarrow> wk_len b = int (length (content b))" "wb_ok b \<Longrightarrow> wk_len b < 2 ^ 31"
  by (simp_all add: wb_ok_def)

lemma wrote_bind:
  assumes "wrote b r bs" "\<And>b'. wb_ok b' \<Longrightarrow> wrote b' (f b') cs" "wb_ok b"
  shows "wrote b (r \<bind> f) (bs @ cs)"
proof (cases "wk_len b + int (length bs) < 2 ^ 31")
  case True
  then obtain b' where b': "r = Some b'" "wb_ok b'" "content b' = content b @ bs" using assms(1) by (auto simp: wrote_def)
  from assms(2) [OF b'(2)] show ?thesis using b' wb_okD(1) [OF b'(2)] wb_okD(1) [OF assms(3)] by (auto simp: wrote_def algebra_simps split: if_splits)
next
  case False
  then show ?thesis using assms(1) by (simp add: wrote_def)
qed

lemma wrote_nil: "wb_ok b \<Longrightarrow> wrote b (Some b) []"
  using wb_okD(2) by (auto simp: wrote_def)

section \<open>The format\<close>

definition enc_integer :: "u64 \<Rightarrow> byte list" where
  "enc_integer v =
     (let i = sint v in
      if i = 0 then [COMBINE_TYPE TYPE_NUMBER TYPE_NUMBER_ZERO]
      else if i < - (2 ^ 31) \<or> 2 ^ 31 \<le> i then COMBINE_TYPE TYPE_NUMBER TYPE_NUMBER_QWORD # le_bytes 8 v
      else if i < 0 \<or> 0x10000 \<le> i then COMBINE_TYPE TYPE_NUMBER TYPE_NUMBER_DWORD # le_bytes 4 (ucast v :: u32)
      else if i < 0x100 then [COMBINE_TYPE TYPE_NUMBER TYPE_NUMBER_BYTE, ucast v]
      else COMBINE_TYPE TYPE_NUMBER TYPE_NUMBER_WORD # le_bytes 2 (ucast v :: u16))"

definition enc_string :: "byte list \<Rightarrow> byte list" where
  "enc_string str =
     (let n = length str in
      if n < 32 then COMBINE_TYPE TYPE_SHORT_STRING (int n) # str
      else if n < 0x10000 then COMBINE_TYPE TYPE_LONG_STRING 2 # le_bytes 2 (of_nat n :: u16) @ str
      else COMBINE_TYPE TYPE_LONG_STRING 4 # le_bytes 4 (of_nat n :: u32) @ str)"

definition enc_head :: "int \<Rightarrow> byte list" where
  "enc_head n = (if n \<ge> 31 then COMBINE_TYPE TYPE_TABLE 31 # enc_integer (word_of_int n) else [COMBINE_TYPE TYPE_TABLE n])"

lemma sint_ucast32: "sint (ucast (v :: u64) :: u32) = sint v \<longleftrightarrow> - (2 ^ 31) \<le> sint v \<and> sint v < 2 ^ 31"
proof
  assume "sint (ucast v :: u32) = sint v"
  then show "- (2 ^ 31) \<le> sint v \<and> sint v < 2 ^ 31" using sint_ge [of "ucast v :: u32"] sint_lt [of "ucast v :: u32"] by simp
next
  assume a: "- (2 ^ 31) \<le> sint v \<and> sint v < 2 ^ 31"
  have "(ucast v :: u32) = word_of_int (sint v)" by (rule bit_word_eqI) (auto simp: bit_simps)
  moreover have "sint (word_of_int (sint v) :: u32) = signed_take_bit 31 (sint v)" by (subst signed_of_int) simp
  moreover have "signed_take_bit 31 (sint v) = sint v" using a by (intro signed_take_bit_int_eq_self) simp_all
  ultimately show "sint (ucast v :: u32) = sint v" by (simp only:)
qed

lemma wb_integer_wrote: "wb_ok b \<Longrightarrow> wrote b (wb_integer b v) (enc_integer v)"
  unfolding wb_integer_def enc_integer_def Let_def
  using wrote_bind [OF wrote_push wrote_push, of b "[x]" for x] wrote_push sint_ucast32 [of v] by auto

lemma wb_scalar_wrote:
  assumes "wb_ok b"
  shows "wrote b (wb_nil b) [COMBINE_TYPE TYPE_NIL 0]" "wrote b (wb_boolean b x) [COMBINE_TYPE TYPE_BOOLEAN (if x then 1 else 0)]"
    "wrote b (wb_real b r) (COMBINE_TYPE TYPE_NUMBER TYPE_NUMBER_REAL # le_bytes 8 r)" "wrote b (wb_pointer b p) (COMBINE_TYPE TYPE_USERDATA 0 # le_bytes 8 p)"
  using wrote_push [OF assms] wrote_bind [OF wrote_push wrote_push, of b "[x]" for x] assms
  by (simp_all add: wb_nil_def wb_boolean_def wb_real_def wb_pointer_def COMBINE_TYPE_def TYPE_NIL_def TYPE_USERDATA_def)

lemma wb_string_wrote: "wb_ok b \<Longrightarrow> length str < 2 ^ 31 \<Longrightarrow> wrote b (wb_string b str) (enc_string str)"
proof -
  assume b: "wb_ok b" and l: "length str < 2 ^ 31"
  have len: "to_int (int (length str)) = int (length str)" using l by (intro to_int_id) simp_all
  have e: "wb_push wb (take (nat (int (length str))) str) = wb_push wb str" for wb by simp
  show ?thesis
    unfolding wb_string_def enc_string_def Let_def len MAX_COOKIE_def
    using wrote_push [OF b, of "[x]" for x] wrote_bind [OF wrote_push wrote_push, of b "[x]" for x]
      wrote_bind [OF wrote_push wrote_bind [OF wrote_push wrote_push], of b "[x]" for x] b
    by (cases "str = []") auto
qed

lemma wb_head_wrote: "wb_ok b \<Longrightarrow> wrote b (wb_table_head b n) (enc_head n)"
  unfolding wb_table_head_def enc_head_def MAX_COOKIE_def
  using wrote_push wrote_bind [OF wrote_push wb_integer_wrote, of b "[x]" for x] by auto

text \<open>The bytes of a value, or the error that refuses it.\<close>

function (sequential) enc_one :: "nat \<Rightarrow> lua \<Rightarrow> seri_error + byte list" and enc_items :: "nat \<Rightarrow> lua list \<Rightarrow> seri_error + byte list" where
  "enc_one depth v =
     (if depth > MAX_DEPTH then Inl TooDeep
      else
        (case v of
           LNil \<Rightarrow> Inr [COMBINE_TYPE TYPE_NIL 0]
         | LInteger x \<Rightarrow> Inr (enc_integer x)
         | LReal x \<Rightarrow> Inr (COMBINE_TYPE TYPE_NUMBER TYPE_NUMBER_REAL # le_bytes 8 x)
         | LBoolean x \<Rightarrow> Inr [COMBINE_TYPE TYPE_BOOLEAN (if x then 1 else 0)]
         | LString str \<Rightarrow> Inr (enc_string str)
         | LPointer p \<Rightarrow> Inr (COMBINE_TYPE TYPE_USERDATA 0 # le_bytes 8 p)
         | LTable n ps \<Rightarrow>
             (case enc_items (Suc depth) (array_part n ps @ hash_part n ps) of
                Inl e \<Rightarrow> Inl e
              | Inr bs \<Rightarrow> Inr (enc_head n @ bs @ [COMBINE_TYPE TYPE_NIL 0]))
         | LPairs ps \<Rightarrow>
             (case enc_items (Suc depth) (flat (takeWhile (\<lambda>(k, v). k \<noteq> LNil) ps)) of
                Inl e \<Rightarrow> Inl e
              | Inr bs \<Rightarrow> Inr (COMBINE_TYPE TYPE_TABLE 0 # bs @ [COMBINE_TYPE TYPE_NIL 0]))
         | LOther t \<Rightarrow> Inl (UnsupportedType t)))"
| "enc_items depth [] = Inr []"
| "enc_items depth (v # vs) =
     (case enc_one depth v of
        Inl e \<Rightarrow> Inl e
      | Inr bs \<Rightarrow> (case enc_items depth vs of Inl e \<Rightarrow> Inl e | Inr cs \<Rightarrow> Inr (bs @ cs)))"
  by pat_completeness auto
termination
  by (relation "measures [\<lambda>x. case x of Inl (d, v) \<Rightarrow> 34 - d | Inr (d, vs) \<Rightarrow> 34 - d, \<lambda>x. case x of Inl (d, v) \<Rightarrow> 0 | Inr (d, vs) \<Rightarrow> Suc (length vs)]")
    (auto simp: MAX_DEPTH_def)

declare enc_one.simps [simp del]

lemma enc_items_append:
  "enc_items d (xs @ ys) = (case enc_items d xs of Inl e \<Rightarrow> Inl e | Inr bs \<Rightarrow> (case enc_items d ys of Inl e \<Rightarrow> Inl e | Inr cs \<Rightarrow> Inr (bs @ cs)))"
  by (induction xs) (auto split: sum.splits)

text \<open>The packer writes these bytes, or fails with that error; the strings are shorter than 2 GB.\<close>

definition packed :: "write_block \<Rightarrow> (seri_error + write_block) option \<Rightarrow> seri_error + byte list \<Rightarrow> bool" where
  "packed b r e \<longleftrightarrow>
     (case r of
        None \<Rightarrow> \<forall>bs. e = Inr bs \<longrightarrow> 2 ^ 31 \<le> wk_len b + int (length bs)
      | Some (Inl x) \<Rightarrow> e = Inl x
      | Some (Inr b') \<Rightarrow> \<exists>bs. e = Inr bs \<and> wb_ok b' \<and> content b' = content b @ bs)"

fun short :: "lua \<Rightarrow> bool" where
  "short (LString s) \<longleftrightarrow> length s < 2 ^ 31"
| "short (LTable n ps) \<longleftrightarrow> (\<forall>(k, v) \<in> set ps. short k \<and> short v)"
| "short (LPairs ps) \<longleftrightarrow> (\<forall>(k, v) \<in> set ps. short k \<and> short v)"
| "short v \<longleftrightarrow> True"

lemma packed_wrote: "wrote b r bs \<Longrightarrow> packed b (map_option Inr r) (Inr bs)"
  by (cases r) (auto simp: wrote_def packed_def split: if_splits)

lemma parts_all:
  assumes "\<forall>(k, v) \<in> set ps. Q k \<and> Q v" "Q LNil"
  shows "\<forall>v \<in> set (array_part n ps). Q v" "\<forall>v \<in> set (hash_part n ps). Q v" "\<forall>v \<in> set (flat (takeWhile P ps)). Q v"
proof -
  have "Q (rawgeti ps i)" for i
    using assms by (auto simp: rawgeti_def find_Some_iff split: option.split) (metis nth_mem prod.case fst_conv snd_conv)
  then show "\<forall>v \<in> set (array_part n ps). Q v" by (auto simp: array_part_def)
  show "\<forall>v \<in> set (hash_part n ps). Q v" "\<forall>v \<in> set (flat (takeWhile P ps)). Q v"
    using assms set_takeWhileD [of _ P ps] by (auto simp: hash_part_def flat_def)
qed

lemmas short_parts = parts_all [of _ short, OF _ short.simps(4) [THEN iffD2, OF TrueI]]

definition enc_then :: "seri_error + byte list \<Rightarrow> seri_error + byte list \<Rightarrow> seri_error + byte list" where
  "enc_then e g = (case e of Inl x \<Rightarrow> Inl x | Inr bs \<Rightarrow> (case g of Inl x \<Rightarrow> Inl x | Inr cs \<Rightarrow> Inr (bs @ cs)))"

lemma packed_then:
  assumes b: "wb_ok b" and r: "packed b r e" and f: "\<And>b' bs. r = Some (Inr b') \<Longrightarrow> wb_ok b' \<Longrightarrow> packed b' (f b') g"
  shows "packed b (case r of Some (Inr b') \<Rightarrow> f b' | x \<Rightarrow> x) (enc_then e g)"
proof (cases r)
  case None
  then show ?thesis using r by (cases e; cases g) (auto simp: packed_def enc_then_def)
next
  case (Some x)
  show ?thesis
  proof (cases x)
    case (Inl y)
    then show ?thesis using r Some by (simp add: packed_def enc_then_def)
  next
    case (Inr b')
    then obtain bs where bs: "e = Inr bs" "wb_ok b'" "content b' = content b @ bs" using r Some by (auto simp: packed_def)
    have "packed b' (f b') g" using f Some Inr bs(2) by blast
    then show ?thesis using Some Inr bs wb_okD(1) [OF b] wb_okD(1) [OF bs(2)]
      by (auto simp: packed_def enc_then_def split: option.splits sum.splits)
  qed
qed

lemma pack_packed:
  "wb_ok b \<Longrightarrow> short v \<Longrightarrow> packed b (pack_one d v b) (enc_one d v)"
  "wb_ok b \<Longrightarrow> \<forall>v \<in> set vs. short v \<Longrightarrow> packed b (pack_items d vs b) (enc_items d vs)"
proof (induction d v b and d vs b rule: pack_one_pack_items.induct)
  case (1 depth v b)
  show ?case
  proof (cases "depth > MAX_DEPTH")
    case True
    then show ?thesis by (simp add: pack_one.simps enc_one.simps packed_def)
  next
    case False
    note [simp] = pack_one.simps [of depth] enc_one.simps [of depth]
    show ?thesis
    proof (cases v)
      case (LTable n ps)
      have ps: "\<forall>(k, v) \<in> set ps. short k \<and> short v" using "1.prems"(2) LTable by simp
      note sh = short_parts(1,2) [OF ps, of n]
      have hash: "packed b2 (case pack_items (Suc depth) (hash_part n ps) b2 of Some (Inr b3) \<Rightarrow> map_option Inr (wb_nil b3) | x \<Rightarrow> x)
          (enc_then (enc_items (Suc depth) (hash_part n ps)) (Inr [COMBINE_TYPE TYPE_NIL 0]))"
        if "wb_table_head b n = Some b1" "pack_items (Suc depth) (array_part n ps) b1 = Some (Inr b2)" "wb_ok b2" for b1 b2
        using "1.IH"(2) [OF False LTable that(1,2) refl that(3) sh(2)] that(3) packed_wrote [OF wb_scalar_wrote(1)] by (intro packed_then) simp_all
      define F where "F = (\<lambda>b1. case pack_items (Suc depth) (array_part n ps) b1 of
          Some (Inr b2) \<Rightarrow> (case pack_items (Suc depth) (hash_part n ps) b2 of Some (Inr b3) \<Rightarrow> map_option Inr (wb_nil b3) | x \<Rightarrow> x)
        | x \<Rightarrow> x)"
      have arr: "packed b1 (F b1) (enc_then (enc_items (Suc depth) (array_part n ps)) (enc_then (enc_items (Suc depth) (hash_part n ps)) (Inr [COMBINE_TYPE TYPE_NIL 0])))"
        if "wb_table_head b n = Some b1" "wb_ok b1" for b1
        unfolding F_def by (rule packed_then [OF that(2) "1.IH"(1) [OF False LTable that sh(1)]]) (rule hash [OF that(1)])
      have "pack_one depth v b = (case map_option Inr (wb_table_head b n) of Some (Inr b1) \<Rightarrow> F b1 | x \<Rightarrow> x)"
        using False LTable by (cases "wb_table_head b n") (simp_all add: F_def)
      moreover have "packed b (case map_option Inr (wb_table_head b n) of Some (Inr b1) \<Rightarrow> F b1 | x \<Rightarrow> x) (enc_then (Inr (enc_head n)) (enc_then (enc_items (Suc depth) (array_part n ps)) (enc_then (enc_items (Suc depth) (hash_part n ps)) (Inr [COMBINE_TYPE TYPE_NIL 0]))))"
        by (rule packed_then [OF "1.prems"(1) packed_wrote [OF wb_head_wrote [OF "1.prems"(1)]]]) (use arr in auto)
      ultimately show ?thesis using False LTable by (auto simp: enc_items_append enc_then_def split: sum.splits)
    next
      case (LPairs ps)
      define qs where "qs = flat (takeWhile (\<lambda>(k, v). k \<noteq> LNil) ps)"
      define F where "F = (\<lambda>b1. case pack_items (Suc depth) qs b1 of Some (Inr b2) \<Rightarrow> map_option Inr (wb_nil b2) | x \<Rightarrow> x)"
      have ps: "\<forall>(k, v) \<in> set ps. short k \<and> short v" using "1.prems"(2) LPairs by simp
      note sh = short_parts(3) [OF ps, of "\<lambda>(k, v). k \<noteq> LNil", folded qs_def]
      have items: "packed b1 (F b1) (enc_then (enc_items (Suc depth) qs) (Inr [COMBINE_TYPE TYPE_NIL 0]))"
        if "wb_push b [COMBINE_TYPE TYPE_TABLE 0] = Some b1" "wb_ok b1" for b1
        unfolding F_def using "1.IH"(3) [OF False LPairs that] sh that(2) packed_wrote [OF wb_scalar_wrote(1)] by (intro packed_then) (simp_all add: qs_def)
      have "pack_one depth v b = (case map_option Inr (wb_push b [COMBINE_TYPE TYPE_TABLE 0]) of Some (Inr b1) \<Rightarrow> F b1 | x \<Rightarrow> x)"
        using False LPairs by (cases "wb_push b [COMBINE_TYPE TYPE_TABLE 0]") (simp_all add: F_def qs_def)
      moreover have "packed b (case map_option Inr (wb_push b [COMBINE_TYPE TYPE_TABLE 0]) of Some (Inr b1) \<Rightarrow> F b1 | x \<Rightarrow> x) (enc_then (Inr [COMBINE_TYPE TYPE_TABLE 0]) (enc_then (enc_items (Suc depth) qs) (Inr [COMBINE_TYPE TYPE_NIL 0])))"
        by (rule packed_then [OF "1.prems"(1) packed_wrote [OF wrote_push [OF "1.prems"(1)]]]) (use items in auto)
      ultimately show ?thesis using False LPairs by (auto simp: qs_def enc_then_def split: sum.splits)
    qed (use False "1.prems" wb_integer_wrote wb_scalar_wrote wb_string_wrote wb_scalar_wrote(2) [of b True] wb_scalar_wrote(2) [of b False] in \<open>auto intro!: packed_wrote simp: packed_def [of _ _ "Inl _"]\<close>)
  qed
next
  case (2 depth b)
  then show ?case by (simp add: packed_def)
next
  case (3 depth v vs b)
  show ?case using packed_then [OF "3.prems"(1) "3.IH"(1), of "pack_items depth vs" "enc_items depth vs"] 3 by (simp add: enc_then_def)
qed


lemma seri_blocks: "\<forall>x \<in> set xs. length x = BLOCK_SIZE \<Longrightarrow> length y \<le> BLOCK_SIZE \<Longrightarrow> seri (xs @ [y]) (int (length (concat xs @ y))) = Some (concat xs @ y)"
proof (induction xs)
  case Nil
  then show ?case by (auto simp: seri.simps [of "[y]"] seri.simps [of "[]"] BLOCK_SIZE_def)
next
  case (Cons x xs)
  then show ?case by (subst seri.simps) (simp add: BLOCK_SIZE_def)
qed

lemma luaseri_pack_enc:
  assumes "\<forall>v \<in> set vs. short v"
  shows "enc_items 0 vs = Inr bs \<Longrightarrow> length bs < 2 ^ 31 \<Longrightarrow> luaseri_pack vs = Some (Inr (bs, int (length bs)))"
    and "luaseri_pack vs = Some (Inl e) \<Longrightarrow> enc_items 0 vs = Inl e"
proof -
  have init: "wb_ok wb_init" "content wb_init = []" "wk_len wb_init = 0" by (simp_all add: wb_ok_def wb_init_def content_def)
  note P = pack_packed(2) [OF init(1) assms, of 0]
  show "luaseri_pack vs = Some (Inr (bs, int (length bs)))" if e: "enc_items 0 vs = Inr bs" "length bs < 2 ^ 31"
  proof -
    obtain wb where wb: "pack_items 0 vs wb_init = Some (Inr wb)" "wb_ok wb" "content wb = bs"
      using P e init by (auto simp: packed_def split: option.splits sum.splits)
    then have "seri (wk_full wb @ [wk_cur wb]) (wk_len wb) = Some bs" using seri_blocks [of "wk_full wb" "wk_cur wb", folded content_def] wb_okD(1) [OF wb(2)] by (simp add: wb_ok_def)
    then show ?thesis using wb wb_okD(1) [OF wb(2)] by (simp add: luaseri_pack_def)
  qed
  show "enc_items 0 vs = Inl e" if "luaseri_pack vs = Some (Inl e)"
    using P that by (auto simp: packed_def luaseri_pack_def split: option.splits sum.splits)
qed

section \<open>The read buffer\<close>

definition rb_ok :: "read_block \<Rightarrow> bool" where
  "rb_ok rb \<longleftrightarrow> 0 \<le> rb_len rb \<and> 0 \<le> rb_ptr rb \<and> rb_ptr rb + rb_len rb \<le> int (length (rb_buffer rb))"

definition rest :: "read_block \<Rightarrow> byte list" where
  "rest rb = take (nat (rb_len rb)) (drop (nat (rb_ptr rb)) (rb_buffer rb))"

lemma rest_length: "rb_ok rb \<Longrightarrow> rb_len rb = int (length (rest rb))"
  by (auto simp: rb_ok_def rest_def min_def)

definition after :: "nat \<Rightarrow> read_block \<Rightarrow> read_block" where
  "after n rb = rb\<lparr>rb_ptr := rb_ptr rb + int n, rb_len := rb_len rb - int n\<rparr>"

lemma after_ok: "rb_ok rb \<Longrightarrow> n \<le> length (rest rb) \<Longrightarrow> rb_ok (after n rb) \<and> rest (after n rb) = drop n (rest rb)"
proof -
  assume ok: "rb_ok rb" and n: "n \<le> length (rest rb)"
  have "int n \<le> rb_len rb" using n rest_length [OF ok] by simp
  then show ?thesis using ok by (auto simp: rb_ok_def after_def rest_def drop_take nat_add_distrib nat_diff_distrib add.commute)
qed

lemma rb_get_spec:
  assumes ok: "rb_ok rb"
  shows "rb_get rb (int n) = (if length (rest rb) < n then Inl (InvalidStream (rb_len rb)) else Inr (take n (rest rb), after n rb))"
proof (cases "length (rest rb) < n")
  case True
  then show ?thesis using rest_length [OF ok] by (simp add: rb_get_def rb_read_def)
next
  case False
  then have "int n \<le> rb_len rb" using rest_length [OF ok] by simp
  then show ?thesis using ok False by (auto simp: rb_get_def rb_read_def rb_ok_def rest_def after_def min_def)
qed

lemma rb_get_append:
  assumes "rb_ok rb" "rest rb = bs @ tail"
  shows "rb_get rb (int (length bs)) = Inr (bs, after (length bs) rb)" "rb_ok (after (length bs) rb)" "rest (after (length bs) rb) = tail"
  using rb_get_spec [OF assms(1), of "length bs"] after_ok [OF assms(1), of "length bs"] assms(2) by simp_all

section \<open>Type bytes\<close>

lemma combine_parts:
  assumes "0 \<le> t" "t < 8" "0 \<le> v" "v < 32"
  shows "uint (COMBINE_TYPE t v AND 7) = t" "uint (drop_bit 3 (COMBINE_TYPE t v)) = v"
proof -
  have c: "COMBINE_TYPE t v = word_of_int (t + 8 * v)"
  proof -
    have "t OR push_bit 3 v = t + push_bit 3 v"
    proof (rule disjunctive_add_eq_or [symmetric])
      have "take_bit 3 t = t" using assms by (simp add: take_bit_int_eq_self)
      moreover have "take_bit 3 t AND push_bit 3 v = 0" by (rule bit_eqI) (auto simp: bit_simps)
      ultimately show "t AND push_bit 3 v = 0" by simp
    qed
    then show ?thesis by (simp add: COMBINE_TYPE_def push_bit_eq_mult)
  qed
  have u: "uint (COMBINE_TYPE t v) = t + 8 * v" 
  proof -
    have "uint (word_of_int (t + 8 * v) :: byte) = take_bit 8 (t + 8 * v)" by (subst unsigned_of_int) simp
    also have "\<dots> = t + 8 * v" using assms by (intro take_bit_int_eq_self) simp_all
    finally show ?thesis unfolding c .
  qed
  have "COMBINE_TYPE t v AND 7 = take_bit 3 (COMBINE_TYPE t v)" by (simp add: take_bit_eq_mask mask_eq_exp_minus_1)
  then have "uint (COMBINE_TYPE t v AND 7) = uint (COMBINE_TYPE t v) mod 8" by (simp only: unsigned_take_bit_eq) (simp add: take_bit_eq_mod)
  then show "uint (COMBINE_TYPE t v AND 7) = t" using u assms by simp
  show "uint (drop_bit 3 (COMBINE_TYPE t v)) = v" by (simp only: unsigned_drop_bit_eq u) (use assms in \<open>simp add: drop_bit_eq_div take_bit_int_eq_self\<close>)
qed

section \<open>Reading what was written\<close>

lemma after_after [simp]: "after m (after n rb) = after (n + m) rb"
  by (simp add: after_def algebra_simps)

lemma after_0 [simp]: "after 0 rb = rb"
  by (simp add: after_def)

definition gives :: "(read_block \<Rightarrow> seri_error + ('a \<times> read_block)) \<Rightarrow> byte list \<Rightarrow> 'a \<Rightarrow> bool" where
  "gives f bs v \<longleftrightarrow> (\<forall>rb tail. rb_ok rb \<and> rest rb = bs @ tail \<longrightarrow> f rb = Inr (v, after (length bs) rb))"

lemma gives_get: "n = int (length bs) \<Longrightarrow> gives (\<lambda>rb. rb_get rb n) bs bs"
  by (simp add: gives_def rb_get_append)

lemma gives_map: "gives f bs v \<Longrightarrow> gives (\<lambda>rb. map_sum id (apfst g) (f rb)) bs (g v)"
  by (auto simp: gives_def)

lemma gives_then:
  assumes "gives f bs v" "gives (g v) cs w"
  shows "gives (\<lambda>rb. case f rb of Inl e \<Rightarrow> Inl e | Inr (x, rb1) \<Rightarrow> g x rb1) (bs @ cs) w"
  unfolding gives_def
proof (intro allI impI)
  fix rb tail assume rb: "rb_ok rb \<and> rest rb = (bs @ cs) @ tail"
  then have "f rb = Inr (v, after (length bs) rb)" using assms(1) by (simp add: gives_def)
  moreover have "rb_ok (after (length bs) rb)" "rest (after (length bs) rb) = cs @ tail" using rb after_ok [of rb "length bs"] by simp_all
  then have "g v (after (length bs) rb) = Inr (w, after (length (bs @ cs)) rb)" using assms(2) by (auto simp: gives_def)
  ultimately show "(case f rb of Inl e \<Rightarrow> Inl e | Inr (x, rb1) \<Rightarrow> g x rb1) = Inr (w, after (length (bs @ cs)) rb)" by simp
qed

lemma sint_pos: "0 \<le> sint (v :: u64) \<Longrightarrow> uint v = sint v"
proof -
  assume p: "0 \<le> sint v"
  have v: "word_of_int (sint v) = v" by simp
  have "uint (word_of_int (sint v) :: u64) = take_bit 64 (sint v)" by (subst unsigned_of_int) simp
  also have "\<dots> = sint v" using p sint_lt [of v] by (intro take_bit_int_eq_self) simp_all
  finally show ?thesis unfolding v .
qed

lemma ucast_small:
  fixes v :: u64
  assumes "0 \<le> sint v" "sint v < 2 ^ LENGTH('b::len)"
  shows "ucast (ucast v :: 'b word) = v"
proof (rule word_uint_eqI)
  have "uint v < 2 ^ LENGTH('b)" using sint_pos [OF assms(1)] assms(2) by simp
  then have "take_bit LENGTH('b) (uint v) = uint v" by (simp add: take_bit_int_eq_self)
  then have "uint (ucast v :: 'b word) = uint v" by (simp add: unsigned_ucast_eq)
  then show "uint (ucast (ucast v :: 'b word) :: u64) = uint v" using take_bit_int_eq_self [of "uint v" 64] unsigned_less [of v, where 'a = int] by (simp add: unsigned_ucast_eq [of "ucast v :: 'b word"])
qed

lemma scast_small: "- (2 ^ 31) \<le> sint v \<Longrightarrow> sint v < 2 ^ 31 \<Longrightarrow> scast (ucast (v :: u64) :: u32) = v"
proof -
  assume "- (2 ^ 31) \<le> sint v" "sint v < 2 ^ 31"
  then have "sint (ucast v :: u32) = sint v" using sint_ucast32 by blast
  then have "(word_of_int (sint (ucast v :: u32)) :: u64) = word_of_int (sint v)" by simp
  then show ?thesis by simp
qed

lemma enc_integer_gives:
  obtains c bs where "enc_integer v = COMBINE_TYPE TYPE_NUMBER c # bs" "0 \<le> c" "c < 32" "c \<noteq> TYPE_NUMBER_REAL" "gives (\<lambda>rb. get_integer rb c) bs v"
proof -
  have m: "gives (\<lambda>rb. map_sum id (apfst g) (rb_get rb n)) bs w" if "n = int (length bs)" "g bs = w" for g n bs and w :: u64
    using gives_map [OF gives_get [OF that(1)], of g] that(2) by simp
  have z: "gives (\<lambda>rb. get_integer rb TYPE_NUMBER_ZERO) [] 0" by (simp add: gives_def get_integer_def)
  consider "sint v = 0" | "sint v \<noteq> 0" "sint v < - (2 ^ 31) \<or> 2 ^ 31 \<le> sint v"
    | "- (2 ^ 31) \<le> sint v" "sint v < 2 ^ 31" "sint v < 0 \<or> 0x10000 \<le> sint v" | "0 < sint v" "sint v < 0x100" | "0x100 \<le> sint v" "sint v < 0x10000" by linarith
  then show ?thesis
  proof cases
    case 1
    then have "v = 0" by (simp add: signed_eq_0_iff)
    then show ?thesis using that [of TYPE_NUMBER_ZERO "[]"] z by (simp add: enc_integer_def seri_types)
  next
    case 2
    have "gives (\<lambda>rb. get_integer rb TYPE_NUMBER_QWORD) (le_bytes 8 v) v"
      using m [of 8 "le_bytes 8 v" le_word v] le_word_bytes [of 8 v] by (simp add: get_integer_def seri_types)
    then show ?thesis using that [of TYPE_NUMBER_QWORD "le_bytes 8 v"] 2 by (simp add: enc_integer_def seri_types)
  next
    case 3
    have "gives (\<lambda>rb. get_integer rb TYPE_NUMBER_DWORD) (le_bytes 4 (ucast v :: u32)) v"
      using m [of 4 "le_bytes 4 (ucast v :: u32)" "\<lambda>bs. scast (le_word bs :: u32)" v] le_word_bytes [of 4 "ucast v :: u32"] scast_small 3 by (simp add: get_integer_def seri_types)
    then show ?thesis using that [of TYPE_NUMBER_DWORD "le_bytes 4 (ucast v :: u32)"] 3 by (auto simp: enc_integer_def seri_types)
  next
    case 4
    have "le_word [ucast v :: byte] = (ucast v :: byte)" by simp
    then have "gives (\<lambda>rb. get_integer rb TYPE_NUMBER_BYTE) [ucast v] v"
      using m [of 1 "[ucast v]" "\<lambda>bs. ucast (le_word bs :: byte)" v] ucast_small [where 'b = 8, of v] 4 by (simp add: get_integer_def seri_types)
    then show ?thesis using that [of TYPE_NUMBER_BYTE "[ucast v]"] 4 by (simp add: enc_integer_def seri_types)
  next
    case 5
    have "gives (\<lambda>rb. get_integer rb TYPE_NUMBER_WORD) (le_bytes 2 (ucast v :: u16)) v"
      using m [of 2 "le_bytes 2 (ucast v :: u16)" "\<lambda>bs. ucast (le_word bs :: u16)" v] le_word_bytes [of 2 "ucast v :: u16"] ucast_small [where 'b = 16, of v] 5
      by (simp add: get_integer_def seri_types)
    then show ?thesis using that [of TYPE_NUMBER_WORD "le_bytes 2 (ucast v :: u16)"] 5 by (simp add: enc_integer_def seri_types)
  qed
qed

lemma gives_buffer: "n = int (length str) \<Longrightarrow> gives (\<lambda>rb. get_buffer rb n) str (LString str)"
  unfolding get_buffer_def by (rule gives_map [OF gives_get])

lemma enc_string_gives:
  assumes "length str < 2 ^ 31"
  obtains t c bs where "enc_string str = COMBINE_TYPE t c # bs" "0 \<le> t" "t < 6" "0 \<le> c" "c < 32" "gives (\<lambda>rb. push_scalar rb t c) bs (LString str)"
proof -
  consider "length str < 32" | "32 \<le> length str" "length str < 0x10000" | "0x10000 \<le> length str" by linarith
  then show ?thesis
  proof cases
    case 1
    then show ?thesis using that [of TYPE_SHORT_STRING "int (length str)" str] gives_buffer [OF refl, of str]
      by (simp add: enc_string_def push_scalar_def seri_types)
  next
    case 2
    define w where "w = (of_nat (length str) :: u16)"
    have "uint (le_word (le_bytes 2 w) :: u16) = int (length str)" using 2 by (simp add: le_word_bytes w_def unsigned_of_nat take_bit_nat_eq_self)
    then have "gives (\<lambda>rb. case rb_get rb 2 of Inl e \<Rightarrow> Inl e | Inr (bs, rb1) \<Rightarrow> get_buffer rb1 (uint (le_word bs :: u16))) (le_bytes 2 w @ str) (LString str)"
      by (intro gives_then [OF gives_get]) (simp_all add: gives_buffer)
    then show ?thesis using that [of TYPE_LONG_STRING 2 "le_bytes 2 w @ str"] 2 by (simp add: enc_string_def push_scalar_def seri_types w_def)
  next
    case 3
    define w where "w = (of_nat (length str) :: u32)"
    have "to_int (uint (le_word (le_bytes 4 w) :: u32)) = int (length str)"
      using 3 assms to_int_id [of "int (length str)"] by (simp add: le_word_bytes w_def unsigned_of_nat take_bit_nat_eq_self)
    then have "gives (\<lambda>rb. case rb_get rb 4 of Inl e \<Rightarrow> Inl e | Inr (bs, rb1) \<Rightarrow> get_buffer rb1 (to_int (uint (le_word bs :: u32)))) (le_bytes 4 w @ str) (LString str)"
      by (intro gives_then [OF gives_get]) (simp_all add: gives_buffer)
    then show ?thesis using that [of TYPE_LONG_STRING 4 "le_bytes 4 w @ str"] 3 by (simp add: enc_string_def push_scalar_def seri_types w_def)
  qed
qed

text \<open>The bytes of a value that is not a table are a type byte and what \<open>push_scalar\<close> reads.\<close>

lemma scalar_gives:
  assumes "\<not> is_table v" "enc_one d v = Inr bs" "short v"
  obtains t c cs where "bs = COMBINE_TYPE t c # cs" "0 \<le> t" "t < 6" "0 \<le> c" "c < 32" "gives (\<lambda>rb. push_scalar rb t c) cs v"
proof -
  have g8: "gives (\<lambda>rb. map_sum id (apfst le_word) (rb_get rb 8)) (le_bytes 8 x) (x :: u64)" for x
    using gives_map [OF gives_get [of 8 "le_bytes 8 x"], of "le_word :: byte list \<Rightarrow> u64"] le_word_bytes [of 8 x] by simp
  have d: "\<not> depth_bad" if "depth_bad = (d > MAX_DEPTH)" for depth_bad using assms(2) that by (auto simp: enc_one.simps)
  show ?thesis
  proof (cases v)
    case LNil
    then show ?thesis using assms(2) d that [of TYPE_NIL 0 "[]"] by (auto simp: enc_one.simps gives_def push_scalar_def seri_types)
  next
    case (LBoolean x)
    then show ?thesis using assms(2) d that [of TYPE_BOOLEAN "if x then 1 else 0" "[]"] by (auto simp: enc_one.simps gives_def push_scalar_def seri_types split: if_splits)
  next
    case (LInteger x)
    obtain c cs where c: "enc_integer x = COMBINE_TYPE TYPE_NUMBER c # cs" "0 \<le> c" "c < 32" "c \<noteq> TYPE_NUMBER_REAL" "gives (\<lambda>rb. get_integer rb c) cs x"
      by (rule enc_integer_gives)
    then show ?thesis using LInteger assms(2) d that [of TYPE_NUMBER c cs] gives_map [OF c(5), of LInteger] by (auto simp: enc_one.simps push_scalar_def seri_types)
  next
    case (LReal x)
    then show ?thesis using assms(2) d that [of TYPE_NUMBER TYPE_NUMBER_REAL "le_bytes 8 x"] gives_map [OF g8 [of x], of LReal]
      by (auto simp: enc_one.simps push_scalar_def seri_types get_real_def)
  next
    case (LString str)
    obtain t c cs where "enc_string str = COMBINE_TYPE t c # cs" "0 \<le> t" "t < 6" "0 \<le> c" "c < 32" "gives (\<lambda>rb. push_scalar rb t c) cs (LString str)"
      using enc_string_gives [of str] assms(3) LString by auto
    then show ?thesis using LString assms(2) d that [of t c cs] by (auto simp: enc_one.simps)
  next
    case (LPointer x)
    then show ?thesis using assms(2) d that [of TYPE_USERDATA 0 "le_bytes 8 x"] gives_map [OF g8 [of x], of LPointer]
      by (auto simp: enc_one.simps push_scalar_def seri_types get_pointer_def)
  qed (use assms d in \<open>auto simp: is_table_def enc_one.simps\<close>)
qed

lemma enc_head_gives:
  assumes "0 \<le> n" "n < 2 ^ 31"
  obtains c cs where "enc_head n = COMBINE_TYPE TYPE_TABLE c # cs" "0 \<le> c" "c < 32" "gives (\<lambda>rb. table_size rb c) cs n"
proof (cases "n < 31")
  case True
  then show ?thesis using that [of n "[]"] assms by (simp add: enc_head_def gives_def table_size_def MAX_COOKIE_def)
next
  case False
  define w where "w = (word_of_int n :: u64)"
  have "sint w = signed_take_bit 63 n" unfolding w_def by (subst signed_of_int) simp
  also have "\<dots> = n" using assms by (intro signed_take_bit_int_eq_self) simp_all
  finally have w: "to_int (sint w) = n" using to_int_id assms by simp
  obtain c cs where c: "enc_integer w = COMBINE_TYPE TYPE_NUMBER c # cs" "0 \<le> c" "c < 32" "c \<noteq> TYPE_NUMBER_REAL" "gives (\<lambda>rb. get_integer rb c) cs w"
    by (rule enc_integer_gives)
  define b where "b = COMBINE_TYPE TYPE_NUMBER c"
  have b: "uint (b AND 7) = TYPE_NUMBER" "uint (drop_bit 3 b) = c" "le_word [b] = b" using combine_parts [of TYPE_NUMBER c] c by (simp_all add: b_def TYPE_NUMBER_def)
  define g where "g = (\<lambda>bs rb1. let ty = le_word bs :: byte; cookie = uint (drop_bit 3 ty) in
      if uint (ty AND 7) \<noteq> TYPE_NUMBER \<or> cookie = TYPE_NUMBER_REAL then Inl (InvalidStream (rb_len rb1))
      else map_sum id (apfst (\<lambda>w. to_int (sint w))) (get_integer rb1 cookie))"
  have "gives (g [b]) cs n" using gives_map [OF c(5), of "\<lambda>w. to_int (sint w)"] b c w by (simp add: g_def)
  then have "gives (\<lambda>rb. case rb_get rb 1 of Inl e \<Rightarrow> Inl e | Inr (x, rb1) \<Rightarrow> g x rb1) ([b] @ cs) n"
    using gives_then [of "\<lambda>rb. rb_get rb 1" "[b]" "[b]" g cs n] gives_get [of 1 "[b]"] by simp
  then have "gives (\<lambda>rb. table_size rb 31) ([b] @ cs) n"
    unfolding g_def table_size_def MAX_COOKIE_def by simp
  then show ?thesis using that [of 31 "[b] @ cs"] False c by (simp add: enc_head_def w_def b_def)
qed

end
