(* ===== verification/Skynet_Seri_Inv.thy ===== *)
theory Skynet_Seri_Inv
  imports Skynet_Seri "HOL-Library.Multiset"
begin

text \<open>
  What \<open>lua-seri.c\<close> guarantees: values come back from the buffer they were packed into, the buffer has the bytes of the format, and unpacking ends for
  every buffer.
\<close>

section \<open>Tables that are read again\<close>

text \<open>Two values with the same content: tables have the same entries, in any order.  (The identity of a table is not kept.)\<close>

inductive same_lua :: "lua \<Rightarrow> lua \<Rightarrow> bool" where
  scalar: "\<not> is_table v \<Longrightarrow> same_lua v v"
| table: "list_all2 (\<lambda>p q. same_lua (fst p) (fst q) \<and> same_lua (snd p) (snd q)) ps rs \<Longrightarrow> mset rs = mset qs \<Longrightarrow> same_lua (LTable n ps) (LTable m qs)"
| pairs: "list_all2 (\<lambda>p q. same_lua (fst p) (fst q) \<and> same_lua (snd p) (snd q)) ps rs \<Longrightarrow> mset rs = mset qs \<Longrightarrow> same_lua (LPairs ps) (LTable m qs)"

text \<open>The tables of Lua: no key is nil or NaN or a float with an integral value, no value is nil, keys that are no tables differ.\<close>

definition keys_ok :: "(lua \<times> lua) list \<Rightarrow> bool" where
  "keys_ok ps \<longleftrightarrow> distinct (filter (\<lambda>k. \<not> is_table k) (map fst ps)) \<and> (\<forall>(k, v) \<in> set ps. k \<noteq> LNil \<and> v \<noteq> LNil \<and> rawkey k = Some k)"

fun lua_ok :: "lua \<Rightarrow> bool" where
  "lua_ok (LString s) \<longleftrightarrow> length s < 2 ^ 31"
| "lua_ok (LTable n ps) \<longleftrightarrow> 0 \<le> n \<and> n < 2 ^ 31 \<and> keys_ok ps \<and> (\<forall>(k, v) \<in> set ps. lua_ok k \<and> lua_ok v)"
| "lua_ok (LPairs ps) \<longleftrightarrow> keys_ok ps \<and> (\<forall>(k, v) \<in> set ps. lua_ok k \<and> lua_ok v)"
| "lua_ok v \<longleftrightarrow> True"

lemma lua_ok_short: "lua_ok v \<Longrightarrow> short v"
  by (induction v rule: lua_ok.induct) auto

lemma same_scalar: "same_lua v w \<Longrightarrow> \<not> is_table v \<or> \<not> is_table w \<Longrightarrow> w = v"
  by (cases rule: same_lua.cases) (auto simp: is_table_def)

lemma same_is_table: "same_lua v w \<Longrightarrow> is_table w = is_table v"
  by (cases rule: same_lua.cases) (auto simp: is_table_def)

definition decodes :: "(read_block \<Rightarrow> lua reading) \<Rightarrow> byte list \<Rightarrow> lua \<Rightarrow> bool" where
  "decodes one bs v \<longleftrightarrow> bs \<noteq> [] \<and> (\<forall>rb tail. rb_ok rb \<and> rest rb = bs @ tail \<longrightarrow> (\<exists>w. one rb = Some (Inr (w, after (length bs) rb)) \<and> same_lua v w))"

lemma decodesE:
  assumes "decodes one bs v" "rb_ok rb" "rest rb = bs @ tail"
  obtains w where "one rb = Some (Inr (w, after (length bs) rb))" "same_lua v w" "rb_ok (after (length bs) rb)" "rest (after (length bs) rb) = tail"
  using assms after_ok [of rb "length bs"] by (auto simp: decodes_def)

fun set_from :: "(lua \<times> lua) list \<Rightarrow> int \<Rightarrow> lua list \<Rightarrow> (lua \<times> lua) list" where
  "set_from t i [] = t"
| "set_from t i (w # ws) = set_from (tab_set t (LInteger (word_of_int i)) w) (i + 1) ws"

lemma unpack_array_decodes:
  assumes "list_all2 (decodes one) bss vs" "rb_ok rb" "rest rb = concat bss @ tail" "length vs < m" "n = i + int (length vs) - 1"
  shows "\<exists>ws. unpack_array m one i n t rb = Some (Inr (set_from t i ws, after (length (concat bss)) rb)) \<and> list_all2 same_lua vs ws"
  using assms
proof (induction bss vs arbitrary: m i t rb rule: list_all2_induct)
  case Nil
  then show ?case by (cases m) auto
next
  case (Cons bs bss v vs)
  obtain m' where m: "m = Suc m'" using Cons.prems(3) by (cases m) auto
  obtain w where w: "one rb = Some (Inr (w, after (length bs) rb))" "same_lua v w" "rb_ok (after (length bs) rb)" "rest (after (length bs) rb) = concat bss @ tail"
    using decodesE [OF Cons.hyps(1) Cons.prems(1), of "concat bss @ tail"] Cons.prems(2) by auto
  obtain ws where "unpack_array m' one (i + 1) n (tab_set t (LInteger (word_of_int i)) w) (after (length bs) rb) =
      Some (Inr (set_from (tab_set t (LInteger (word_of_int i)) w) (i + 1) ws, after (length (concat bss)) (after (length bs) rb)))" "list_all2 same_lua vs ws"
    using Cons.IH [OF w(3,4), of m' "i + 1"] Cons.prems(3,4) m by auto
  then show ?case using w m Cons.prems(4) by (intro exI [of _ "w # ws"]) simp
qed

text \<open>The pairs of a list of values.\<close>

lemma flat_simps [simp]: "flat [] = []" "flat (p # ps) = fst p # snd p # flat ps"
  by (simp_all add: flat_def split: prod.split)

definition sets :: "(lua \<times> lua) list \<Rightarrow> (lua \<times> lua) list \<Rightarrow> (lua \<times> lua) list" where
  "sets t qs = foldl (\<lambda>t (k, v). tab_set t k v) t qs"

lemma same_key:
  assumes "same_lua k k'" "k \<noteq> LNil" "rawkey k = Some k"
  shows "k' \<noteq> LNil" "lua_rawset t k' v = Inr (tab_set t k' v)"
proof -
  have "k' = k \<or> is_table k'" using same_scalar [OF assms(1)] by blast
  moreover have "rawkey k' = Some k'" "k' \<noteq> LNil" if "is_table k'" using that by (cases k'; simp add: rawkey_def is_table_def)+
  ultimately have "rawkey k' = Some k'" "k' \<noteq> LNil" using assms(2,3) by blast+
  then show "k' \<noteq> LNil" "lua_rawset t k' v = Inr (tab_set t k' v)" by (simp_all add: lua_rawset_def)
qed

lemma unpack_hash_decodes:
  assumes "list_all2 (decodes one) bss (flat ps)" "decodes one ns LNil" "\<forall>(k, v) \<in> set ps. k \<noteq> LNil \<and> rawkey k = Some k"
    "rb_ok rb" "rest rb = concat bss @ ns @ tail" "length ps < m"
  shows "\<exists>qs. unpack_hash m one t rb = Some (Inr (sets t qs, after (length (concat bss @ ns)) rb)) \<and>
    list_all2 (\<lambda>p q. same_lua (fst p) (fst q) \<and> same_lua (snd p) (snd q)) ps qs"
  using assms
proof (induction ps arbitrary: bss m t rb)
  case Nil
  then obtain w where "one rb = Some (Inr (w, after (length ns) rb))" "same_lua LNil w" using decodesE [OF Nil.prems(2), of rb tail] by auto
  moreover from this have "w = LNil" using same_scalar [of LNil w] by (simp add: is_table_def)
  ultimately show ?case using Nil.prems by (cases m) (auto simp: sets_def)
next
  case (Cons p ps)
  obtain k v where p: "p = (k, v)" by fastforce
  obtain m' where m: "m = Suc m'" using Cons.prems(6) by (cases m) auto
  obtain kb vb bss' where b: "bss = kb # vb # bss'" "decodes one kb k" "decodes one vb v" "list_all2 (decodes one) bss' (flat ps)"
    using Cons.prems(1) p by (auto simp: list_all2_Cons2)
  obtain k' where k': "one rb = Some (Inr (k', after (length kb) rb))" "same_lua k k'" "rb_ok (after (length kb) rb)" "rest (after (length kb) rb) = vb @ concat bss' @ ns @ tail"
    using decodesE [OF b(2) Cons.prems(4), of "vb @ concat bss' @ ns @ tail"] Cons.prems(5) b(1) by auto
  obtain v' where v': "one (after (length kb) rb) = Some (Inr (v', after (length vb) (after (length kb) rb)))" "same_lua v v'"
      "rb_ok (after (length vb) (after (length kb) rb))" "rest (after (length vb) (after (length kb) rb)) = concat bss' @ ns @ tail"
    using decodesE [OF b(3) k'(3,4)] by blast
  have key: "k' \<noteq> LNil" "lua_rawset t k' v' = Inr (tab_set t k' v')" using same_key [OF k'(2)] Cons.prems(3) p by auto
  obtain qs where "unpack_hash m' one (tab_set t k' v') (after (length vb) (after (length kb) rb)) =
      Some (Inr (sets (tab_set t k' v') qs, after (length (concat bss' @ ns)) (after (length vb) (after (length kb) rb))))"
      "list_all2 (\<lambda>p q. same_lua (fst p) (fst q) \<and> same_lua (snd p) (snd q)) ps qs"
    using Cons.IH [OF b(4) Cons.prems(2) _ v'(3,4), of m'] Cons.prems(3,6) m by auto
  then show ?case using k' v' key m b(1) p
    by (intro exI [of _ "(k', v') # qs"]) (simp add: sets_def algebra_simps)
qed


section \<open>The entries of the new table\<close>

lemma tab_set_new:
  assumes "is_table k \<or> k \<notin> fst ` set t"
  shows "tab_set t k v = (if v = LNil then t else t @ [(k, v)])"
  using assms by (induction t) auto

fun entries :: "int \<Rightarrow> lua list \<Rightarrow> (lua \<times> lua) list" where
  "entries i [] = []"
| "entries i (v # vs) = (if v = LNil then [] else [(LInteger (word_of_int i), v)]) @ entries (i + 1) vs"

lemma word_of_int_inj: "0 \<le> i \<Longrightarrow> i < 2 ^ 63 \<Longrightarrow> 0 \<le> j \<Longrightarrow> j < 2 ^ 63 \<Longrightarrow> (word_of_int i :: u64) = word_of_int j \<longleftrightarrow> i = j"
  by (auto simp: word_of_int_eq_iff take_bit_int_eq_self)

lemma entries_keys: "(k, v) \<in> set (entries i vs) \<Longrightarrow> \<exists>j. k = LInteger (word_of_int j) \<and> i \<le> j \<and> j < i + int (length vs)"
  by (induction i vs rule: entries.induct) (fastforce split: if_splits)+

lemma set_from_entries:
  assumes "0 \<le> i" "i + int (length vs) < 2 ^ 63" "\<forall>j \<ge> i. j < i + int (length vs) \<longrightarrow> LInteger (word_of_int j) \<notin> fst ` set t"
  shows "set_from t i vs = t @ entries i vs"
  using assms
proof (induction vs arbitrary: t i)
  case (Cons v vs)
  have new: "tab_set t (LInteger (word_of_int i)) v = t @ (if v = LNil then [] else [(LInteger (word_of_int i), v)])"
    using tab_set_new [of "LInteger (word_of_int i)" t v] Cons.prems(3) by auto
  have "\<forall>j \<ge> i + 1. j < i + 1 + int (length vs) \<longrightarrow> LInteger (word_of_int j) \<notin> fst ` set (tab_set t (LInteger (word_of_int i)) v)"
    using Cons.prems word_of_int_inj unfolding new by (auto split: if_splits)
  then show ?case using Cons.IH [of "i + 1"] Cons.prems new by simp
qed simp

lemma sets_new:
  assumes "distinct (filter (\<lambda>k. \<not> is_table k) (map fst qs))" "\<forall>(k, v) \<in> set qs. v \<noteq> LNil \<and> (is_table k \<or> k \<notin> fst ` set t)"
  shows "sets t qs = t @ qs"
  using assms
proof (induction qs arbitrary: t)
  case (Cons q qs)
  obtain k v where q: "q = (k, v)" by fastforce
  have "tab_set t k v = t @ [(k, v)]" using tab_set_new [of k t v] Cons.prems q by auto
  moreover have "sets (t @ [(k, v)]) qs = (t @ [(k, v)]) @ qs"
    using Cons.prems q by (intro Cons.IH) (force split: if_splits)+
  ultimately show ?case using q by (simp add: sets_def)
qed (simp add: sets_def)

lemma rawgeti_iff:
  assumes "keys_ok ps" "v \<noteq> LNil"
  shows "rawgeti ps i = v \<longleftrightarrow> (LInteger (word_of_int i), v) \<in> set ps"
proof -
  define k where "k = LInteger (word_of_int i)"
  have "distinct (filter (\<lambda>k. \<not> is_table k) (map fst ps))" "\<not> is_table k" using assms(1) by (simp_all add: keys_ok_def k_def is_table_def)
  then have "(case find (\<lambda>(k', v). k' = k) ps of Some (k', v) \<Rightarrow> v | None \<Rightarrow> LNil) = v \<longleftrightarrow> (k, v) \<in> set ps"
    using assms(2)
  proof (induction ps)
    case (Cons p ps)
    then show ?case by (cases p) (force split: if_splits)
  qed simp
  then show ?thesis by (simp add: rawgeti_def k_def)
qed

lemma entries_iff: "(k, v) \<in> set (entries i vs) \<longleftrightarrow> (\<exists>j < length vs. k = LInteger (word_of_int (i + int j)) \<and> v = vs ! j \<and> v \<noteq> LNil)"
proof (induction i vs rule: entries.induct)
  case (2 i u vs)
  have "(\<exists>j < length (u # vs). k = LInteger (word_of_int (i + int j)) \<and> v = (u # vs) ! j \<and> v \<noteq> LNil) \<longleftrightarrow>
      (k = LInteger (word_of_int i) \<and> v = u \<and> v \<noteq> LNil) \<or> (\<exists>j < length vs. k = LInteger (word_of_int (i + 1 + int j)) \<and> v = vs ! j \<and> v \<noteq> LNil)"
    by (simp add: Ex_less_Suc2 algebra_simps)
  then show ?case using 2 by auto
qed simp

lemma entries_distinct: "0 \<le> i \<Longrightarrow> i + int (length vs) < 2 ^ 63 \<Longrightarrow> distinct (entries i vs)"
proof (induction i vs rule: entries.induct)
  case (2 i v vs)
  have "(LInteger (word_of_int i), v) \<notin> set (entries (i + 1) vs)"
  proof
    assume "(LInteger (word_of_int i), v) \<in> set (entries (i + 1) vs)"
    then obtain j where "word_of_int i = (word_of_int j :: u64)" "i + 1 \<le> j" "j < i + 1 + int (length vs)" using entries_keys by blast
    then show False using word_of_int_inj [of i j] "2.prems" by simp
  qed
  then show ?case using 2 by simp
qed simp

lemma in_array_iff:
  assumes "n < 2 ^ 63"
  shows "in_array n k \<longleftrightarrow> (\<exists>i. 1 \<le> i \<and> i \<le> n \<and> k = LInteger (word_of_int i))"
proof
  assume "in_array n k"
  then obtain x where "k = LInteger x" "0 < sint x" "sint x \<le> n" by (auto simp: in_array_def split: lua.splits)
  then show "\<exists>i. 1 \<le> i \<and> i \<le> n \<and> k = LInteger (word_of_int i)" by (intro exI [of _ "sint x"]) simp
next
  assume "\<exists>i. 1 \<le> i \<and> i \<le> n \<and> k = LInteger (word_of_int i)"
  then obtain i where i: "1 \<le> i" "i \<le> n" "k = LInteger (word_of_int i)" by blast
  have "sint (word_of_int i :: u64) = signed_take_bit 63 i" by (subst signed_of_int) simp
  also have "\<dots> = i" using i assms by (intro signed_take_bit_int_eq_self) simp_all
  finally show "in_array n k" using i by (simp add: in_array_def)
qed

lemma keys_distinct: "distinct (filter (\<lambda>k. \<not> is_table k) (map fst ps)) \<Longrightarrow> distinct (filter (\<lambda>(k, v). in_array n k) ps)"
proof (induction ps)
  case (Cons p ps)
  then show ?case by (cases p) (auto simp: in_array_def is_table_def image_iff split: lua.splits)
qed simp

lemma entries_perm:
  assumes "keys_ok ps" "0 \<le> n" "n < 2 ^ 31"
  shows "mset (entries 1 (array_part n ps) @ filter (\<lambda>(k, v). \<not> in_array n k) ps) = mset ps"
proof -
  have len: "length (array_part n ps) = nat n" using assms(2) by (simp add: array_part_def)
  have nth: "array_part n ps ! j = rawgeti ps (1 + int j)" if "j < nat n" for j using that by (simp add: array_part_def nth_upto)
  have nonnil: "v \<noteq> LNil" if "(k, v) \<in> set ps" for k v using assms(1) that by (auto simp: keys_ok_def)
  have "(k, v) \<in> set (entries 1 (array_part n ps)) \<longleftrightarrow> (k, v) \<in> set (filter (\<lambda>(k, v). in_array n k) ps)" for k v
  proof -
    have "(k, v) \<in> set (entries 1 (array_part n ps)) \<longleftrightarrow> (\<exists>j < nat n. k = LInteger (word_of_int (1 + int j)) \<and> v = rawgeti ps (1 + int j) \<and> v \<noteq> LNil)"
      unfolding entries_iff len using nth by metis
    also have "\<dots> \<longleftrightarrow> (\<exists>j < nat n. k = LInteger (word_of_int (1 + int j)) \<and> (k, v) \<in> set ps)"
      using rawgeti_iff [OF assms(1), of v] nonnil by metis
    also have "\<dots> \<longleftrightarrow> (\<exists>i. 1 \<le> i \<and> i \<le> n \<and> k = LInteger (word_of_int i)) \<and> (k, v) \<in> set ps"
    proof -
      have "(\<exists>j < nat n. P (1 + int j)) \<longleftrightarrow> (\<exists>i. 1 \<le> i \<and> i \<le> n \<and> P i)" for P
      proof
        assume "\<exists>i. 1 \<le> i \<and> i \<le> n \<and> P i"
        then obtain i where "1 \<le> i" "i \<le> n" "P i" by blast
        then show "\<exists>j < nat n. P (1 + int j)" by (intro exI [of _ "nat (i - 1)"]) simp
      next
        assume "\<exists>j < nat n. P (1 + int j)"
        then obtain j where "j < nat n" "P (1 + int j)" by blast
        then show "\<exists>i. 1 \<le> i \<and> i \<le> n \<and> P i" by (intro exI [of _ "1 + int j"]) auto
      qed
      from this [of "\<lambda>i. k = LInteger (word_of_int i)"] show ?thesis by blast
    qed
    finally show ?thesis using in_array_iff [of n k] assms(3) by auto
  qed
  then have "set (entries 1 (array_part n ps)) = set (filter (\<lambda>(k, v). in_array n k) ps)" by auto
  moreover have "distinct (entries 1 (array_part n ps))" using assms len by (intro entries_distinct) simp_all
  moreover have "distinct (filter (\<lambda>(k, v). in_array n k) ps)" using assms(1) by (intro keys_distinct) (simp add: keys_ok_def)
  ultimately have "mset (entries 1 (array_part n ps)) = mset (filter (\<lambda>(k, v). in_array n k) ps)" using set_eq_iff_mset_eq_distinct by blast
  then show ?thesis by (simp add: case_prod_unfold flip: multiset_partition)
qed

lemma same_nil: "same_lua v w \<Longrightarrow> w = LNil \<longleftrightarrow> v = LNil"
  by (cases rule: same_lua.cases) auto

lemma entries_same:
  assumes "list_all2 same_lua vs ws"
  shows "list_all2 (\<lambda>p q. same_lua (fst p) (fst q) \<and> same_lua (snd p) (snd q)) (entries i vs) (entries i ws)"
  using assms
proof (induction vs ws arbitrary: i rule: list_all2_induct)
  case (Cons v vs w ws)
  have "v = LNil \<longleftrightarrow> w = LNil" using same_nil [OF Cons.hyps(1)] by simp
  then show ?case using Cons by (auto intro: same_lua.scalar simp: is_table_def)
qed simp

lemma same_pairs_keys:
  assumes "list_all2 (\<lambda>p q. same_lua (fst p) (fst q) \<and> same_lua (snd p) (snd q)) ps qs"
  shows "filter (\<lambda>k. \<not> is_table k) (map fst qs) = filter (\<lambda>k. \<not> is_table k) (map fst ps)"
    "\<forall>(k, v) \<in> set ps. v \<noteq> LNil \<Longrightarrow> \<forall>(k, v) \<in> set qs. v \<noteq> LNil"
  using assms
proof (induction ps qs rule: list_all2_induct)
  case (Cons p ps q qs)
  have "fst q = fst p \<or> is_table (fst q)" "is_table (fst q) = is_table (fst p)" "snd p \<noteq> LNil \<Longrightarrow> snd q \<noteq> LNil"
    using Cons.hyps(1) same_scalar [of "fst p" "fst q"] same_is_table [of "fst p" "fst q"] same_nil [of "snd p" "snd q"] by auto
  with Cons show "filter (\<lambda>k. \<not> is_table k) (map fst (q # qs)) = filter (\<lambda>k. \<not> is_table k) (map fst (p # ps))"
    "\<forall>(k, v) \<in> set (p # ps). v \<noteq> LNil \<Longrightarrow> \<forall>(k, v) \<in> set (q # qs). v \<noteq> LNil" by (auto simp: case_prod_unfold)
qed simp_all

text \<open>The table that the two loops of \<open>unpack_table\<close> build has the entries of the table that was packed.\<close>

lemma rebuilt_same:
  assumes ok: "keys_ok ps" "0 \<le> n" "n < 2 ^ 31" and ws: "list_all2 same_lua (array_part n ps) ws"
    and qs: "list_all2 (\<lambda>p q. same_lua (fst p) (fst q) \<and> same_lua (snd p) (snd q)) (filter (\<lambda>(k, v). \<not> in_array n k) ps) qs"
  shows "\<exists>rs. list_all2 (\<lambda>p q. same_lua (fst p) (fst q) \<and> same_lua (snd p) (snd q)) ps rs \<and> mset rs = mset (sets (set_from [] 1 ws) qs)"
proof -
  have len: "length ws = nat n" using list_all2_lengthD [OF ws] ok(2) by (simp add: array_part_def)
  have from_: "set_from [] 1 ws = entries 1 ws" using set_from_entries [of 1 ws "[]"] len ok by simp
  note keys = same_pairs_keys [OF qs]
  have d: "distinct (filter (\<lambda>k. \<not> is_table k) (map fst qs))" 
  proof -
    have "filter (\<lambda>k. \<not> is_table k) (map fst (filter P ps)) = map fst (filter P (filter ((\<lambda>k. \<not> is_table k) \<circ> fst) ps))" for P
      by (induction ps) auto
    then show ?thesis unfolding keys(1) using ok(1) by (simp add: keys_ok_def filter_map distinct_map_filter del: filter_filter)
  qed
  have "\<forall>(k, v) \<in> set qs. v \<noteq> LNil" using keys(2) ok(1) by (auto simp: keys_ok_def)
  moreover have "is_table k \<or> k \<notin> fst ` set (entries 1 ws)" if "(k, v) \<in> set qs" for k v
  proof (rule disjCI)
    assume "\<not> k \<notin> fst ` set (entries 1 ws)"
    then obtain v' where "(k, v') \<in> set (entries 1 ws)" by auto
    then obtain j where j: "k = LInteger (word_of_int j)" "1 \<le> j" "j < 1 + int (length ws)" using entries_keys by blast
    show "is_table k"
    proof (rule ccontr)
      assume "\<not> is_table k"
      then have "k \<in> set (filter (\<lambda>k. \<not> is_table k) (map fst qs))" using that by force
      then have "\<not> in_array n k" unfolding keys(1) by auto
      moreover have "j \<le> n" "n < 2 ^ 63" using j(3) len ok by simp_all
      ultimately show False using in_array_iff [of n k] j by blast
    qed
  qed
  ultimately have eq: "sets (set_from [] 1 ws) qs = entries 1 ws @ qs" unfolding from_ using d by (intro sets_new) auto
  have "list_all2 (\<lambda>p q. same_lua (fst p) (fst q) \<and> same_lua (snd p) (snd q)) (entries 1 (array_part n ps) @ filter (\<lambda>(k, v). \<not> in_array n k) ps) (entries 1 ws @ qs)"
    using entries_same [OF ws] qs by (rule list_all2_appendI)
  from list_all2_reorder_left_invariance [OF this entries_perm [OF ok, symmetric]] show ?thesis unfolding eq by blast
qed


section \<open>The round trip\<close>

lemma enc_items_split: "enc_items d vs = Inr bs \<longleftrightarrow> (\<exists>bss. list_all2 (\<lambda>b v. enc_one d v = Inr b) bss vs \<and> bs = concat bss)"
proof (induction vs arbitrary: bs)
  case (Cons v vs)
  have "enc_items d (v # vs) = Inr bs \<longleftrightarrow> (\<exists>b cs. enc_one d v = Inr b \<and> enc_items d vs = Inr cs \<and> bs = b @ cs)" by (auto split: sum.splits)
  also have "\<dots> \<longleftrightarrow> (\<exists>b bss. enc_one d v = Inr b \<and> list_all2 (\<lambda>b v. enc_one d v = Inr b) bss vs \<and> bs = b @ concat bss)" unfolding Cons by blast
  also have "\<dots> \<longleftrightarrow> (\<exists>bss. list_all2 (\<lambda>b v. enc_one d v = Inr b) bss (v # vs) \<and> bs = concat bss)" unfolding list_all2_Cons2 by force
  finally show ?case .
qed auto

lemma scalar_decodes:
  assumes "\<not> is_table v" "enc_one d v = Inr bs" "short v"
  shows "decodes (unpack_one (Suc n) len) bs v"
proof -
  obtain t c cs where e: "bs = COMBINE_TYPE t c # cs" "0 \<le> t" "t < 6" "0 \<le> c" "c < 32" "gives (\<lambda>rb. push_scalar rb t c) cs v" using scalar_gives [OF assms] .
  define b where "b = COMBINE_TYPE t c"
  have b: "uint (b AND 7) = t" "uint (drop_bit 3 b) = c" "le_word [b] = b" using combine_parts [of t c] e by (simp_all add: b_def)
  have "unpack_one (Suc n) len rb = Some (Inr (v, after (length bs) rb))" if rb: "rb_ok rb" "rest rb = bs @ tail" for rb tail
  proof -
    have g: "rb_get rb 1 = Inr ([b], after 1 rb)" "rb_ok (after 1 rb)" "rest (after 1 rb) = cs @ tail"
      using rb_get_append [of rb "[b]" "cs @ tail"] rb e(1) by (simp_all add: b_def)
    then have "push_scalar (after 1 rb) t c = Inr (v, after (length cs) (after 1 rb))" using e(6) by (auto simp: gives_def)
    then show ?thesis using g(1) b e by (simp add: push_value_def TYPE_TABLE_def)
  qed
  then show ?thesis using e(1) same_lua.scalar [OF assms(1)] by (auto simp: decodes_def)
qed

lemma nil_decodes: "decodes (unpack_one (Suc n) len) [COMBINE_TYPE TYPE_NIL 0] LNil"
  using scalar_decodes [of LNil 0 "[COMBINE_TYPE TYPE_NIL 0]" n len] by (simp add: is_table_def enc_one.simps)

lemma list_all2_length_concat: "list_all2 (decodes one) bss vs \<Longrightarrow> length vs \<le> length (concat bss)"
proof (induction rule: list_all2_induct)
  case (Cons b bss v vs)
  then have "b \<noteq> []" by (simp add: decodes_def)
  then have "Suc 0 \<le> length b" by (cases b) simp_all
  then have "Suc (length vs) \<le> length b + length (concat bss)" using Cons.IH by linarith
  then show ?case by simp
qed simp

text \<open>A table of \<open>n\<close> array elements and further pairs, given that its parts are read back.\<close>

lemma table_decodes:
  assumes head: "hs = COMBINE_TYPE TYPE_TABLE c # cs" "0 \<le> c" "c < 32" "gives (\<lambda>rb. table_size rb c) cs n"
    and arr: "list_all2 (decodes (unpack_one (Suc m) len)) abss (array_part n ps)" and n: "0 \<le> n" "n < 2 ^ 31"
    and hash: "list_all2 (decodes (unpack_one (Suc m) len)) hbss (flat (filter (\<lambda>(k, v). \<not> in_array n k) ps))"
    and ok: "keys_ok ps" and v: "\<And>qs k rs. list_all2 (\<lambda>p q. same_lua (fst p) (fst q) \<and> same_lua (snd p) (snd q)) ps rs \<Longrightarrow> mset rs = mset qs \<Longrightarrow> same_lua v (LTable k qs)"
  shows "decodes (unpack_one (Suc (Suc m)) len) (hs @ concat abss @ concat hbss @ [COMBINE_TYPE TYPE_NIL 0]) v"
proof -
  define one where "one = unpack_one (Suc m) len"
  define ns where "ns = [COMBINE_TYPE TYPE_NIL 0]"
  define b where "b = COMBINE_TYPE TYPE_TABLE c"
  have b: "uint (b AND 7) = TYPE_TABLE" "uint (drop_bit 3 b) = c" "le_word [b] = b" using combine_parts [of TYPE_TABLE c] head by (simp_all add: b_def TYPE_TABLE_def)
  have "\<exists>w. unpack_one (Suc (Suc m)) len rb = Some (Inr (w, after (length (hs @ concat abss @ concat hbss @ ns)) rb)) \<and> same_lua v w"
    if rb: "rb_ok rb" "rest rb = (hs @ concat abss @ concat hbss @ ns) @ tail" for rb tail
  proof -
    define r1 where "r1 = after 1 rb"
    define r2 where "r2 = after (length cs) r1"
    define r3 where "r3 = after (length (concat abss)) r2"
    have g: "rb_get rb 1 = Inr ([b], r1)" "rb_ok r1" "rest r1 = cs @ concat abss @ concat hbss @ ns @ tail"
      using rb_get_append [of rb "[b]" "cs @ concat abss @ concat hbss @ ns @ tail"] rb head(1) by (simp_all add: b_def r1_def)
    then have size: "table_size r1 c = Inr (n, r2)" using head(4) by (auto simp: gives_def r2_def)
    have r2: "rb_ok r2" "rest r2 = concat abss @ concat hbss @ ns @ tail" using g after_ok [of r1 "length cs"] by (simp_all add: r2_def)
    have la: "length (array_part n ps) < nat (rb_len r2) + 2"
      using list_all2_length_concat [OF arr] rest_length [OF r2(1)] r2(2) by simp
    obtain ws where A: "unpack_array (nat (rb_len r2) + 2) one 1 n [] r2 = Some (Inr (set_from [] 1 ws, r3))" "list_all2 same_lua (array_part n ps) ws"
      using unpack_array_decodes [OF arr [folded one_def] r2 la, of n 1 "[]"] n by (auto simp: array_part_def r3_def)
    have r3: "rb_ok r3" "rest r3 = concat hbss @ ns @ tail" using r2 after_ok [of r2 "length (concat abss)"] by (simp_all add: r3_def)
    define fps where "fps = filter (\<lambda>(k, v). \<not> in_array n k) ps"
    have "length fps \<le> length (flat fps)" by (induction fps) simp_all
    then have lh: "length fps < nat (rb_len r3) + 2"
      using list_all2_length_concat [OF hash, folded fps_def] rest_length [OF r3(1)] r3(2) by simp
    have P: "\<forall>(k, v) \<in> set fps. k \<noteq> LNil \<and> rawkey k = Some k" using ok by (auto simp: keys_ok_def fps_def)
    obtain qs where H: "unpack_hash (nat (rb_len r3) + 2) one (set_from [] 1 ws) r3 = Some (Inr (sets (set_from [] 1 ws) qs, after (length (concat hbss @ ns)) r3))"
        "list_all2 (\<lambda>p q. same_lua (fst p) (fst q) \<and> same_lua (snd p) (snd q)) fps qs"
      using unpack_hash_decodes [OF hash [folded fps_def one_def] nil_decodes [of m len, folded one_def ns_def] P r3 lh] by blast
    have "same_lua v (LTable k (sets (set_from [] 1 ws) qs))" for k
      using rebuilt_same [OF ok n A(2) H(2) [unfolded fps_def]] v by blast
    then show ?thesis using g(1) b size A(1) H(1) head(1)
      by (simp add: push_value_def unpack_table_def one_def [symmetric] r3_def r2_def r1_def algebra_simps)
  qed
  then show ?thesis by (auto simp: decodes_def head(1) ns_def)
qed

text \<open>What the format says of a value is read back as that value, with fuel for the length of the bytes.\<close>

lemma enc_decodes:
  "enc_one d v = Inr bs \<Longrightarrow> lua_ok v \<Longrightarrow> length bs \<le> n \<Longrightarrow> decodes (unpack_one n len) bs v"
  "enc_items d vs = Inr bs \<Longrightarrow> \<forall>v \<in> set vs. lua_ok v \<Longrightarrow> length bs \<le> n \<Longrightarrow> \<exists>bss. bs = concat bss \<and> list_all2 (decodes (unpack_one n len)) bss vs"
proof (induction d v and d vs arbitrary: bs n and bs n rule: enc_one_enc_items.induct)
  case (1 depth v)
  have d: "\<not> depth > MAX_DEPTH" using "1.prems"(1) by (auto simp: enc_one.simps)
  consider (table) k ps where "v = LTable k ps" | (pairs) ps where "v = LPairs ps" | (scalar) "\<not> is_table v" by (cases v) (auto simp: is_table_def)
  then show ?case
  proof cases
    case table
    have ok: "0 \<le> k" "k < 2 ^ 31" "keys_ok ps" "\<forall>(x, y) \<in> set ps. lua_ok x \<and> lua_ok y" using "1.prems"(2) table by simp_all
    obtain cs where cs: "enc_items (Suc depth) (array_part k ps @ hash_part k ps) = Inr cs" "bs = enc_head k @ cs @ [COMBINE_TYPE TYPE_NIL 0]"
      using "1.prems"(1) table d by (auto simp: enc_one.simps [of depth] split: sum.splits)
    obtain c hs where h: "enc_head k = COMBINE_TYPE TYPE_TABLE c # hs" "0 \<le> c" "c < 32" "gives (\<lambda>rb. table_size rb c) hs k"
      using enc_head_gives [OF ok(1,2)] .
    have "2 + length cs \<le> n" using "1.prems"(3) cs(2) h(1) by simp
    then obtain m where m: "n = Suc (Suc m)" "length cs \<le> Suc m" using that [of "n - 2"] by simp
    have "\<forall>v \<in> set (array_part k ps @ hash_part k ps). lua_ok v" using parts_all [OF ok(4)] by auto
    from "1.IH"(1) [OF d table cs(1) this m(2)] obtain bss
      where "cs = concat bss" "list_all2 (decodes (unpack_one (Suc m) len)) bss (array_part k ps @ hash_part k ps)" by blast
    then obtain abss hbss where p: "cs = concat abss @ concat hbss" "list_all2 (decodes (unpack_one (Suc m) len)) abss (array_part k ps)"
        "list_all2 (decodes (unpack_one (Suc m) len)) hbss (hash_part k ps)" by (auto simp: list_all2_append2)
    show ?thesis
      using table_decodes [OF h p(2) ok(1,2) p(3) [unfolded hash_part_def] ok(3), of v] cs(2) p(1) table m(1) by (auto intro: same_lua.table simp del: unpack_one.simps)
  next
    case pairs
    have ok: "keys_ok ps" "\<forall>(x, y) \<in> set ps. lua_ok x \<and> lua_ok y" using "1.prems"(2) pairs by simp_all
    have all: "takeWhile (\<lambda>(k, v). k \<noteq> LNil) ps = ps" using ok(1) by (auto simp: keys_ok_def takeWhile_eq_all_conv)
    obtain cs where cs: "enc_items (Suc depth) (flat ps) = Inr cs" "bs = COMBINE_TYPE TYPE_TABLE 0 # cs @ [COMBINE_TYPE TYPE_NIL 0]"
      using "1.prems"(1) pairs d all by (auto simp: enc_one.simps [of depth] split: sum.splits)
    have "2 + length cs \<le> n" using "1.prems"(3) cs(2) by simp
    then obtain m where m: "n = Suc (Suc m)" "length cs \<le> Suc m" using that [of "n - 2"] by simp
    have "\<forall>v \<in> set (flat ps). lua_ok v" using ok(2) by (auto simp: flat_def)
    from "1.IH"(2) [OF d pairs, unfolded all, OF cs(1) this m(2)] obtain bss
      where p: "cs = concat bss" "list_all2 (decodes (unpack_one (Suc m) len)) bss (flat ps)" by blast
    have f: "filter (\<lambda>(k, v). \<not> in_array 0 k) ps = ps" by (auto simp: filter_id_conv in_array_def split: lua.splits)
    have h: "gives (\<lambda>rb. table_size rb 0) [] 0" by (simp add: gives_def table_size_def MAX_COOKIE_def)
    show ?thesis
      using table_decodes [OF refl _ _ h, of m len "[]" ps bss v] p ok(1) cs(2) pairs m(1) f by (auto intro: same_lua.pairs simp: array_part_def simp del: unpack_one.simps)
  next
    case scalar
    have "bs \<noteq> []" using scalar_gives [OF scalar "1.prems"(1) lua_ok_short [OF "1.prems"(2)]] by auto
    then obtain m where "n = Suc m" using "1.prems"(3) by (cases n) auto
    then show ?thesis using scalar_decodes [OF scalar "1.prems"(1) lua_ok_short [OF "1.prems"(2)]] by (simp del: unpack_one.simps)
  qed
next
  case (3 depth v vs)
  obtain b cs where e: "enc_one depth v = Inr b" "enc_items depth vs = Inr cs" "bs = b @ cs" using "3.prems"(1) by (auto split: sum.splits)
  then obtain bss where "cs = concat bss" "list_all2 (decodes (unpack_one n len)) bss vs" using "3.IH"(2) [OF e(1,2), of n] "3.prems" by auto
  then show ?case using "3.IH"(1) [OF e(1), of n] e(3) "3.prems" by (intro exI [of _ "b # bss"]) auto
qed simp

lemma unpack_all_step:
  assumes ok: "rb_ok rb"
  shows "unpack_all (Suc n) len rb =
    (if rest rb = [] then Some (Inr [])
     else
       (case unpack_one (Suc (nat (rb_len rb))) len rb of
          Some (Inr (v, rb2)) \<Rightarrow> (case unpack_all n len rb2 of Some (Inr vs) \<Rightarrow> Some (Inr (v # vs)) | r \<Rightarrow> r)
        | Some (Inl e) \<Rightarrow> Some (Inl e)
        | None \<Rightarrow> None))"
proof (cases "rest rb")
  case Nil
  then show ?thesis using rest_length [OF ok] by (simp add: rb_read_def)
next
  case (Cons b bs)
  define rb1 where "rb1 = after 1 rb"
  have l: "rb_len rb = 1 + int (length bs)" using rest_length [OF ok] Cons by simp
  have p: "0 \<le> rb_ptr rb" "rb_ptr rb < int (length (rb_buffer rb))" using ok l by (simp_all add: rb_ok_def)
  have "take 1 (rest rb) = [rb_buffer rb ! nat (rb_ptr rb)]" using p l by (simp add: rest_def take_Suc_conv_app_nth hd_drop_conv_nth flip: Cons_nth_drop_Suc)
  then have b: "rb_buffer rb ! nat (rb_ptr rb) = b" using Cons by simp
  have "rb_get rb 1 = Inr ([b], rb1)" using rb_get_append [of rb "[b]" bs] ok Cons by (simp add: rb1_def)
  moreover have "rb_read rb 1 = (Some (rb_ptr rb), rb1)" using l by (simp add: rb_read_def rb1_def after_def)
  moreover have "nat (rb_len rb) = Suc (nat (rb_len rb1))" using l by (simp add: rb1_def after_def)
  moreover have "le_word [b] = b" by simp
  ultimately show ?thesis using p b Cons by simp
qed




lemma unpack_all_enc:
  assumes "enc_items d vs = Inr bs" "\<forall>v \<in> set vs. lua_ok v" "rb_ok rb" "rest rb = bs" "length bs < n"
  shows "\<exists>ws. unpack_all n len rb = Some (Inr ws) \<and> list_all2 same_lua vs ws"
  using assms
proof (induction vs arbitrary: bs rb n)
  case Nil
  then show ?case using unpack_all_step by (cases n) auto
next
  case (Cons v vs)
  obtain b cs where e: "enc_one d v = Inr b" "enc_items d vs = Inr cs" "bs = b @ cs" using Cons.prems(1) by (auto split: sum.splits)
  obtain m where m: "n = Suc m" using Cons.prems(5) by (cases n) auto
  have "decodes (unpack_one (Suc (nat (rb_len rb))) len) b v" using enc_decodes(1) [OF e(1)] e(3) Cons.prems(2,4) rest_length [OF Cons.prems(3)] by simp
  then obtain w where w: "b \<noteq> []" "unpack_one (Suc (nat (rb_len rb))) len rb = Some (Inr (w, after (length b) rb))" "same_lua v w"
      "rb_ok (after (length b) rb)" "rest (after (length b) rb) = cs"
    using decodesE [of "unpack_one (Suc (nat (rb_len rb))) len" b v rb cs] Cons.prems(3,4) e(3) by (metis decodes_def)
  obtain ws where "unpack_all m len (after (length b) rb) = Some (Inr ws)" "list_all2 same_lua vs ws"
    using Cons.IH [OF e(2) _ w(4,5), of m] Cons.prems(2,5) e(3) m w(1) by (cases b) auto
  then show ?case using unpack_all_step [OF Cons.prems(3)] w m e(3) Cons.prems(4) by (simp del: unpack_one.simps unpack_all.simps)
qed

lemma luaseri_pack_written:
  assumes "\<forall>v \<in> set vs. short v" "luaseri_pack vs = Some (Inr (bs, sz))"
  shows "enc_items 0 vs = Inr bs" "sz = int (length bs)" "sz < 2 ^ 31"
proof -
  have init: "wb_ok wb_init" "content wb_init = []" by (simp_all add: wb_ok_def wb_init_def content_def)
  obtain wb where wb: "pack_items 0 vs wb_init = Some (Inr wb)" "seri (wk_full wb @ [wk_cur wb]) (wk_len wb) = Some bs" "sz = wk_len wb"
    using assms(2) by (auto simp: luaseri_pack_def split: option.splits sum.splits)
  then have c: "enc_items 0 vs = Inr (content wb)" "wb_ok wb" using pack_packed(2) [OF init(1) assms(1), of 0] init(2) by (auto simp: packed_def)
  have "bs = content wb" using wb(2) seri_blocks [of "wk_full wb" "wk_cur wb", folded content_def] wb_okD(1) [OF c(2)] c(2) by (simp add: wb_ok_def)
  then show "enc_items 0 vs = Inr bs" "sz = int (length bs)" "sz < 2 ^ 31" using c wb(3) wb_okD [OF c(2)] by simp_all
qed

text \<open>C33: values that are packed into a buffer and unpacked from it come back, each with the same content: numbers, strings, booleans, pointers
  and nil are the same, and a table has the same entries, whatever part of it was written as an array.  This holds for tables as Lua has them, with
  strings and array parts that an \<open>int\<close> counts.\<close>

theorem seri_roundtrip:
  assumes "\<forall>v \<in> set vs. lua_ok v" "luaseri_pack vs = Some (Inr (bs, sz))"
  shows "\<exists>ws. luaseri_unpack len (PointerArg (Some bs) sz) = Some (Inr ws) \<and> list_all2 same_lua vs ws"
proof -
  have e: "enc_items 0 vs = Inr bs" "sz = int (length bs)" "sz < 2 ^ 31" using luaseri_pack_written [OF _ assms(2)] assms(1) lua_ok_short by blast+
  have id: "to_int sz = sz" using e(2,3) by (intro to_int_id) simp_all
  show ?thesis
  proof (cases "bs = []")
    case True
    moreover from this have "vs = []"
    proof (cases vs)
      case (Cons v us)
      then obtain b where "enc_one 0 v = Inr b" "b = []" using e(1) True by (auto split: sum.splits)
      then show ?thesis using enc_decodes(1) [of 0 v b 0] assms(1) Cons by (simp add: decodes_def)
    qed
    ultimately show ?thesis using e(2) id by (simp add: luaseri_unpack_def unpack_buffer_def)
  next
    case False
    have rb: "rb_ok (rball_init bs sz)" "rest (rball_init bs sz) = bs" using e(2) by (simp_all add: rb_ok_def rest_def rball_init_def)
    then show ?thesis using unpack_all_enc [OF e(1) assms(1) rb, of "Suc (nat sz)"] e(2) id False
      by (simp add: luaseri_unpack_def unpack_buffer_def del: unpack_all.simps)
  qed
qed

lemma seri_roundtrip_witness:
  "\<exists>bs sz ws. luaseri_pack [LInteger 300, LTable 1 [(LInteger 1, LBoolean True), (LString [97], LInteger (- 1))]] = Some (Inr (bs, sz)) \<and>
    luaseri_unpack (\<lambda>t. int (length t)) (PointerArg (Some bs) sz) = Some (Inr ws) \<and>
    list_all2 same_lua [LInteger 300, LTable 1 [(LInteger 1, LBoolean True), (LString [97], LInteger (- 1))]] ws"
proof -
  define vs where "vs = [LInteger 300, LTable 1 [(LInteger 1, LBoolean True), (LString [97], LInteger (- 1))]]"
  have ok: "\<forall>v \<in> set vs. lua_ok v" by (simp add: vs_def keys_ok_def rawkey_def is_table_def)
  have "enc_items 0 vs = Inr [18, 44, 1, 14, 9, 12, 97, 34, 255, 255, 255, 255, 0]"
    unfolding vs_def by code_simp
  then have "luaseri_pack vs = Some (Inr ([18, 44, 1, 14, 9, 12, 97, 34, 255, 255, 255, 255, 0], 13))"
    using luaseri_pack_enc(1) [of vs] ok lua_ok_short by auto
  with seri_roundtrip [OF ok this, of "\<lambda>t. int (length t)"] show ?thesis unfolding vs_def by blast
qed

text \<open>C34: what \<open>luaseri_pack\<close> writes.  Through the chain of 128 byte blocks the buffer is exactly the bytes of the format, of the announced length;
  an error is the error that the format gives, for the first value that is nested too deep or has a type that cannot be sent; and the only other way to fail
  is a result that an \<open>int\<close> does not count.\<close>

theorem pack_writes_format:
  assumes "\<forall>v \<in> set vs. short v"
  shows "case luaseri_pack vs of
      Some (Inr (buffer, sz)) \<Rightarrow> enc_items 0 vs = Inr buffer \<and> sz = int (length buffer)
    | Some (Inl e) \<Rightarrow> enc_items 0 vs = Inl e
    | None \<Rightarrow> (\<forall>bs. enc_items 0 vs \<noteq> Inr bs \<or> 2 ^ 31 \<le> length bs)"
proof (cases "luaseri_pack vs")
  case None
  then have "2 ^ 31 \<le> length bs" if "enc_items 0 vs = Inr bs" for bs using luaseri_pack_enc(1) [OF assms that] not_less by auto
  then show ?thesis using None by auto
next
  case (Some r)
  then show ?thesis using luaseri_pack_written [OF assms] luaseri_pack_enc(2) [OF assms] by (cases r) auto
qed

lemma pack_writes_format_witness: "luaseri_pack [LString (replicate 126 65), LInteger 7] =
    Some (Inr ([21, 126, 0] @ replicate 126 65 @ [10, 7], 131)) \<and> enc_items 0 [LString (replicate 126 65), LInteger 7] = Inr ([21, 126, 0] @ replicate 126 65 @ [10, 7])"
proof -
  have "luaseri_pack [LString (replicate 126 65), LInteger 7] = Some (Inr ([21, 126, 0] @ replicate 126 65 @ [10, 7], 131))" by code_simp
  with pack_writes_format [of "[LString (replicate 126 65), LInteger 7]"] show ?thesis by simp
qed

section \<open>Unpacking ends\<close>

text \<open>A reader of values that returns for every buffer of less than \<open>n\<close> bytes, and has then read at least one byte or failed.\<close>

definition reads :: "int \<Rightarrow> (read_block \<Rightarrow> lua reading) \<Rightarrow> bool" where
  "reads n one \<longleftrightarrow> (\<forall>rb. rb_ok rb \<and> rb_len rb < n \<longrightarrow>
     (\<exists>e. one rb = Some (Inl e)) \<or> (\<exists>v rb1. one rb = Some (Inr (v, rb1)) \<and> rb_ok rb1 \<and> rb_len rb1 < rb_len rb))"

text \<open>A reader that keeps the buffer well formed and reads no bytes twice.\<close>

definition shrinks :: "read_block \<Rightarrow> seri_error + ('a \<times> read_block) \<Rightarrow> bool" where
  "shrinks rb r \<longleftrightarrow> (\<forall>v rb1. r = Inr (v, rb1) \<longrightarrow> rb_ok rb1 \<and> rb_len rb1 \<le> rb_len rb)"

lemma rb_get_shrinks: "rb_ok rb \<Longrightarrow> shrinks rb (rb_get rb n)" "rb_ok rb \<Longrightarrow> rb_get rb n = Inr (bs, rb1) \<Longrightarrow> rb_ok rb1 \<and> rb_len rb1 = rb_len rb - n \<and> 0 \<le> n"
  by (auto simp: shrinks_def rb_get_def rb_read_def rb_ok_def split: if_splits)

lemma shrinks_map: "shrinks rb r \<Longrightarrow> shrinks rb (map_sum id (apfst f) r)"
  by (cases r) (auto simp: shrinks_def)

lemma shrinks_then: "shrinks rb r \<Longrightarrow> (\<And>x rb1. rb_ok rb1 \<Longrightarrow> shrinks rb1 (f x rb1)) \<Longrightarrow> shrinks rb (case r of Inl e \<Rightarrow> Inl e | Inr (x, rb1) \<Rightarrow> f x rb1)"
  unfolding shrinks_def by (cases r) (auto split: prod.splits, fastforce+)

lemma shrinks_plain [simp]: "shrinks rb (Inl e)" "rb_ok rb \<Longrightarrow> shrinks rb (Inr (v, rb))"
  by (simp_all add: shrinks_def)

lemma get_integer_shrinks: "rb_ok rb \<Longrightarrow> shrinks rb (get_integer rb c)"
  by (auto simp: get_integer_def intro!: shrinks_map rb_get_shrinks(1))

lemma table_size_shrinks: "rb_ok rb \<Longrightarrow> shrinks rb (table_size rb c)"
  unfolding table_size_def Let_def by (auto intro!: shrinks_then rb_get_shrinks(1) shrinks_map get_integer_shrinks)

lemma push_scalar_shrinks: "rb_ok rb \<Longrightarrow> shrinks rb (push_scalar rb t c)"
  unfolding push_scalar_def get_real_def get_pointer_def get_buffer_def
  by (auto intro!: shrinks_then rb_get_shrinks(1) shrinks_map get_integer_shrinks)

text \<open>The result of a loop or of a reader: it returns, and what it leaves is well formed and not longer.\<close>

definition returns :: "read_block \<Rightarrow> 'a reading \<Rightarrow> bool" where
  "returns rb r \<longleftrightarrow> (\<exists>x. r = Some x \<and> shrinks rb x)"

lemma returns_mono: "returns rb1 r \<Longrightarrow> rb_len rb1 \<le> rb_len rb \<Longrightarrow> returns rb r"
  by (fastforce simp: returns_def shrinks_def)

lemma readsE:
  assumes "reads n one" "rb_ok rb" "rb_len rb < n"
  obtains (error) e where "one rb = Some (Inl e)" | (item) v rb1 where "one rb = Some (Inr (v, rb1))" "rb_ok rb1" "rb_len rb1 < rb_len rb"
  using assms unfolding reads_def by blast

lemma unpack_array_returns:
  "reads n one \<Longrightarrow> rb_ok rb \<Longrightarrow> rb_len rb < n \<Longrightarrow> rb_len rb < int m \<Longrightarrow> returns rb (unpack_array m one i k t rb)"
proof (induction m arbitrary: i t rb)
  case (Suc m)
  from Suc.prems(1-3) show ?case
  proof (cases rule: readsE)
    case (item v rb1)
    then have "returns rb1 (unpack_array m one (i + 1) k (tab_set t (LInteger (word_of_int i)) v) rb1)" using Suc.prems by (intro Suc.IH) simp_all
    then show ?thesis using item returns_mono [of rb1 _ rb] Suc.prems(2) by (auto simp: returns_def)
  qed (use Suc.prems in \<open>auto simp: returns_def\<close>)
qed (simp add: rb_ok_def)

lemma unpack_hash_returns:
  "reads n one \<Longrightarrow> rb_ok rb \<Longrightarrow> rb_len rb < n \<Longrightarrow> rb_len rb < int m \<Longrightarrow> returns rb (unpack_hash m one t rb)"
proof (induction m arbitrary: t rb)
  case (Suc m)
  from Suc.prems(1-3) show ?case
  proof (cases rule: readsE)
    case key: (item k rb1)
    have l: "rb_len rb1 < n" using key(3) Suc.prems(3) by simp
    from Suc.prems(1) key(2) l show ?thesis
    proof (cases rule: readsE)
      case val: (item v rb2)
      have "returns rb2 (unpack_hash m one t' rb2)" for t' using Suc.prems(1,4) val l key by (intro Suc.IH) simp_all
      then have "returns rb (unpack_hash m one t' rb2)" for t' using returns_mono val key by (metis less_imp_le order_trans)
      then show ?thesis using key val by (auto simp: returns_def shrinks_def split: sum.split)
    qed (use key in \<open>auto simp: returns_def shrinks_def\<close>)
  qed (auto simp: returns_def)
qed (simp add: rb_ok_def)

lemma unpack_table_returns:
  assumes "reads n one" "rb_ok rb" "rb_len rb < n"
  shows "returns rb (unpack_table one len rb c)"
proof (cases "table_size rb c")
  case (Inr p)
  then obtain k rb1 where k: "table_size rb c = Inr (k, rb1)" by (cases p) simp
  then have rb1: "rb_ok rb1" "rb_len rb1 \<le> rb_len rb" "rb_len rb1 < n" using assms(3) table_size_shrinks [OF assms(2), of c] by (auto simp: shrinks_def)
  have l: "rb_len rb1 < n" using rb1(2) assms(3) by linarith
  have A: "returns rb1 (unpack_array (nat (rb_len rb1) + 2) one 1 k [] rb1)" using l rb1 by (intro unpack_array_returns [OF assms(1)]) simp_all
  show ?thesis
  proof (cases "\<exists>t rb2. unpack_array (nat (rb_len rb1) + 2) one 1 k [] rb1 = Some (Inr (t, rb2))")
    case True
    then obtain t rb2 where t: "unpack_array (nat (rb_len rb1) + 2) one 1 k [] rb1 = Some (Inr (t, rb2))" by blast
    then have rb2: "rb_ok rb2" "rb_len rb2 \<le> rb_len rb1" using A by (auto simp: returns_def shrinks_def)
    have "returns rb2 (unpack_hash (nat (rb_len rb2) + 2) one t rb2)" using l rb2 by (intro unpack_hash_returns [OF assms(1)]) simp_all
    then have "returns rb (unpack_hash (nat (rb_len rb2) + 2) one t rb2)" by (rule returns_mono) (use rb1 rb2 in linarith)
    then show ?thesis using k t by (auto simp: unpack_table_def returns_def shrinks_def split: sum.split simp del: unpack_array.simps unpack_hash.simps)
  next
    case False
    then show ?thesis using A k by (auto simp: unpack_table_def returns_def shrinks_def split: sum.splits simp del: unpack_array.simps)
  qed
qed (simp add: unpack_table_def returns_def)

lemma unpack_one_reads: "reads (int n) (unpack_one n len)"
proof (induction n)
  case 0
  then show ?case by (simp add: reads_def rb_ok_def)
next
  case (Suc n)
  show ?case unfolding reads_def
  proof (intro allI impI, elim conjE)
    fix rb assume rb: "rb_ok rb" "rb_len rb < int (Suc n)"
    show "(\<exists>e. unpack_one (Suc n) len rb = Some (Inl e)) \<or> (\<exists>v rb1. unpack_one (Suc n) len rb = Some (Inr (v, rb1)) \<and> rb_ok rb1 \<and> rb_len rb1 < rb_len rb)"
    proof (cases "rb_get rb 1")
      case (Inr p)
      then obtain bs rb1 where g: "rb_get rb 1 = Inr (bs, rb1)" by (cases p) simp
      then have rb1: "rb_ok rb1" "rb_len rb1 = rb_len rb - 1" using rb_get_shrinks(2) [OF rb(1)] by blast+
      have "returns rb1 (push_value (unpack_one n len) len rb1 (le_word bs))"
        using unpack_table_returns [OF Suc rb1(1)] push_scalar_shrinks [OF rb1(1)] rb rb1 by (simp add: push_value_def returns_def)
      then show ?thesis using g rb1 by (auto simp: returns_def shrinks_def) (metis old.sum.exhaust surj_pair zle_diff1_eq)
    qed simp
  qed
qed

lemma unpack_all_returns: "rb_ok rb \<Longrightarrow> rb_len rb < int n \<Longrightarrow> \<exists>r. unpack_all n len rb = Some r"
proof (induction n arbitrary: rb)
  case (Suc n)
  have "reads (int (Suc (nat (rb_len rb)))) (unpack_one (Suc (nat (rb_len rb))) len)" by (rule unpack_one_reads)
  moreover have "rb_len rb < int (Suc (nat (rb_len rb)))" using Suc.prems(1) by (simp add: rb_ok_def)
  ultimately show ?case using Suc.prems(1)
  proof (elim readsE [OF _ Suc.prems(1)])
    fix v rb1 assume item: "unpack_one (Suc (nat (rb_len rb))) len rb = Some (Inr (v, rb1))" "rb_ok rb1" "rb_len rb1 < rb_len rb"
    then obtain r where "unpack_all n len rb1 = Some r" using Suc by fastforce
    then show ?thesis using item Suc.prems(1) by (cases r) (simp_all add: unpack_all_step del: unpack_one.simps unpack_all.simps)
  qed (use Suc.prems in \<open>auto simp: unpack_all_step rb_ok_def simp del: unpack_one.simps unpack_all.simps\<close>)
qed (simp add: rb_ok_def)

text \<open>The buffer may be longer than the length that is read from it.\<close>

lemma unpack_buffer_returns: "sz \<le> int (length bs) \<Longrightarrow> \<exists>r. unpack_buffer len (Some bs) sz = Some r"
proof (cases "0 \<le> sz")
  case True
  moreover assume "sz \<le> int (length bs)"
  ultimately show ?thesis using unpack_all_returns [of "rball_init bs sz" "Suc (nat sz)" len]
    by (simp add: unpack_buffer_def rb_ok_def rball_init_def del: unpack_all.simps)
qed (simp add: unpack_buffer_def rball_init_def rb_read_def)

lemma to_int_le: "0 \<le> x \<Longrightarrow> to_int x \<le> x"
proof -
  assume "0 \<le> x"
  have "to_int x = take_bit 32 (x + 2 ^ 31) - 2 ^ 31" by (simp add: to_int_def signed_of_int signed_take_bit_eq_take_bit_shift)
  moreover have "take_bit 32 (x + 2 ^ 31) \<le> x + 2 ^ 31" using \<open>0 \<le> x\<close> by (simp add: take_bit_int_less_eq_self_iff)
  ultimately show ?thesis by linarith
qed

text \<open>C35: unpacking ends for every string and for every buffer of the length it is said to have, whatever bytes there are: the recursion is not deeper than the
  bytes that are left and every turn of a loop reads at least one of them, so the fuel of the model never runs out.\<close>

theorem unpack_terminates:
  "(\<exists>r. luaseri_unpack len (StringArg bs) = Some r) \<and> (\<exists>r. luaseri_unpack len (PointerArg (Some bs) (int (length bs))) = Some r)"
  using unpack_buffer_returns [of "to_int (int (length bs))" bs len] to_int_le [of "int (length bs)"] by (simp add: luaseri_unpack_def)

text \<open>The length of a long string is a \<open>uint32_t\<close> that \<open>get_buffer\<close> takes as an \<open>int\<close>: from 2 GB on it is negative, \<open>rb_read\<close> accepts it, and the bytes that
  \<open>lua_pushlstring\<close> is to copy are not in the buffer.\<close>

lemma long_string_overruns: "luaseri_unpack len (StringArg [37, 0, 0, 0, 0x80]) = Some (Inl BadAccess)"
proof -
  define rb where "rb = rball_init [37, 0, 0, 0, 0x80] 5"
  have "rb_ok rb" "rest rb = [37, 0, 0, 0, 0x80]" "rb_len rb = 5" by (simp_all add: rb_def rball_init_def rb_ok_def rest_def)
  moreover have "unpack_one (Suc (Suc (nat 4))) len rb = Some (Inl BadAccess)"
    unfolding unpack_one.simps by (simp add: rb_def rball_init_def rb_read_def push_value_def push_scalar_def seri_types rb_get_def get_buffer_def to_int_def)
  ultimately show ?thesis using unpack_all_step [of rb "nat 5" len] to_int_id [of 5]
    by (simp add: luaseri_unpack_def unpack_buffer_def rb_def [symmetric] del: unpack_one.simps unpack_all.simps)
qed

end
