(* ===== verification/Skynet_Harbor.thy ===== *)
theory Skynet_Harbor
  imports Skynet_Calls
begin

text \<open>
  The harbor service, \<open>service-src/service_harbor.c\<close>: it carries messages between the nodes of a network over one connection per pair of nodes, keeps
  messages for nodes that are not connected yet and for global names that are not known yet, and cuts what a connection delivers into messages.

  The calls to the core and to the socket layer are recorded in order; \<open>answer\<close> is what \<open>skynet_send\<close> returns for a call.  A buffer is the list of its bytes,
  and freeing one is recorded as a call.  The arrays of the hash table and of the nodes are functions of the index.  \<open>None\<close> is a fault: an access outside of a
  buffer, a failing assertion or an overflow of an \<open>int\<close> (a package of 2 GB and more counts as one, its length is passed as an \<open>int\<close>).
\<close>

section \<open>Data\<close>

definition HASH_SIZE :: nat where "HASH_SIZE = 4096"
definition HARBOR_QUEUE_SIZE :: int where "HARBOR_QUEUE_SIZE = 1024"
definition HEADER_COOKIE_LENGTH :: nat where "HEADER_COOKIE_LENGTH = 12"
definition REMOTE_MAX :: nat where "REMOTE_MAX = 256"

record remote_message_header =
  rh_source :: u32
  rh_destination :: u32
  rh_session :: u32

record harbor_msg =
  hm_header :: remote_message_header
  hm_buffer :: "byte list"

record harbor_msg_queue =
  hq_size :: int
  hq_head :: int
  hq_tail :: int
  hq_data :: "harbor_msg option list"

record keyvalue =
  kv_key :: "byte list"
  kv_hash :: u32
  kv_value :: u32
  kv_queue :: "harbor_msg_queue option"

type_synonym hashmap = "nat \<Rightarrow> keyvalue list"

definition STATUS_WAIT :: int where "STATUS_WAIT = 0"
definition STATUS_HANDSHAKE :: int where "STATUS_HANDSHAKE = 1"
definition STATUS_HEADER :: int where "STATUS_HEADER = 2"
definition STATUS_CONTENT :: int where "STATUS_CONTENT = 3"
definition STATUS_DOWN :: int where "STATUS_DOWN = 4"

lemmas harbor_status = STATUS_WAIT_def STATUS_HANDSHAKE_def STATUS_HEADER_def STATUS_CONTENT_def STATUS_DOWN_def

text \<open>\<open>sl_size\<close> and \<open>sl_recv\<close> are the bytes that were written to these buffers.\<close>

record slave =
  sl_fd :: int
  sl_queue :: "harbor_msg_queue option"
  sl_status :: int
  sl_length :: int
  sl_read :: int
  sl_size :: "byte list"
  sl_recv :: "byte list"

record harbor =
  hb_id :: int
  hb_slave :: u32
  hb_map :: hashmap
  hb_s :: "nat \<Rightarrow> slave"
  hb_calls :: "call list"

definition hcall :: "call \<Rightarrow> harbor \<Rightarrow> harbor" where
  "hcall e h = h\<lparr>hb_calls := hb_calls h @ [e]\<rparr>"

definition set_slave :: "nat \<Rightarrow> slave \<Rightarrow> harbor \<Rightarrow> harbor" where
  "set_slave i s h = h\<lparr>hb_s := (hb_s h)(i := s)\<rparr>"

section \<open>Queues of messages\<close>

definition push_queue_msg :: "harbor_msg \<Rightarrow> harbor_msg_queue \<Rightarrow> harbor_msg_queue option" where
  "push_queue_msg m q = do {
     q1 \<leftarrow> (if (hq_tail q + 1) mod hq_size q = hq_head q then do {
        size2 \<leftarrow> cint (hq_size q * 2);
        new_buffer \<leftarrow> those (map (\<lambda>i. aget (hq_data q) ((int i + hq_head q) mod hq_size q)) [0..<nat (hq_size q - 1)]);
        Some (q\<lparr>hq_data := new_buffer @ replicate (nat size2 - length new_buffer) None, hq_head := 0, hq_tail := hq_size q - 1, hq_size := size2\<rparr>) }
      else Some q);
     data \<leftarrow> aset (hq_data q1) (hq_tail q1) (Some m);
     Some (q1\<lparr>hq_data := data, hq_tail := (hq_tail q1 + 1) mod hq_size q1\<rparr>) }"

definition push_queue :: "harbor_msg_queue \<Rightarrow> byte list \<Rightarrow> remote_message_header \<Rightarrow> harbor_msg_queue option" where
  "push_queue queue buffer header = push_queue_msg \<lparr>hm_header = header, hm_buffer = buffer\<rparr> queue"

definition pop_queue :: "harbor_msg_queue \<Rightarrow> (harbor_msg option \<times> harbor_msg_queue) option" where
  "pop_queue q =
     (if hq_head q = hq_tail q then Some (None, q)
      else do {
        slot \<leftarrow> aget (hq_data q) (hq_head q);
        m \<leftarrow> slot;
        Some (Some m, q\<lparr>hq_head := (hq_head q + 1) mod hq_size q\<rparr>) })"

definition new_queue :: harbor_msg_queue where
  "new_queue = \<lparr>hq_size = HARBOR_QUEUE_SIZE, hq_head = 0, hq_tail = 0, hq_data = replicate (nat HARBOR_QUEUE_SIZE) None\<rparr>"

text \<open>The loop \<open>while ((m = pop_queue(queue)) != NULL)\<close>: the messages it visits and the queue it leaves.\<close>

partial_function (option) pop_all :: "harbor_msg_queue \<Rightarrow> (harbor_msg list \<times> harbor_msg_queue) option" where
  "pop_all q = do {
     (m, q1) \<leftarrow> pop_queue q;
     (case m of
        None \<Rightarrow> Some ([], q1)
      | Some m \<Rightarrow> do {
          (ms, q2) \<leftarrow> pop_all q1;
          Some (m # ms, q2) }) }"

fun push_all :: "harbor_msg list \<Rightarrow> harbor_msg_queue \<Rightarrow> harbor_msg_queue option" where
  "push_all [] q = Some q"
| "push_all (m # ms) q = do { q1 \<leftarrow> push_queue_msg m q; push_all ms q1 }"

fun free_all :: "byte list list \<Rightarrow> harbor \<Rightarrow> harbor" where
  "free_all [] h = h"
| "free_all (b # bs) h = free_all bs (hcall (FreeBuffer b) h)"

definition release_queue :: "harbor_msg_queue option \<Rightarrow> harbor \<Rightarrow> harbor option" where
  "release_queue queue h =
     (case queue of
        None \<Rightarrow> Some h
      | Some q \<Rightarrow> do {
          (ms, q1) \<leftarrow> pop_all q;
          Some (free_all (map hm_buffer ms) h) })"

section \<open>Global names\<close>

definition name_hash :: "byte list \<Rightarrow> u32" where
  "name_hash name = le_word (take 4 name) XOR le_word (take 4 (drop 4 name)) XOR le_word (take 4 (drop 8 name)) XOR le_word (take 4 (drop 12 name))"

text \<open>A node is a bucket and a position in it.\<close>

fun find_pos :: "('a \<Rightarrow> bool) \<Rightarrow> 'a list \<Rightarrow> nat option" where
  "find_pos P [] = None"
| "find_pos P (x # xs) = (if P x then Some 0 else map_option Suc (find_pos P xs))"

definition hash_search :: "hashmap \<Rightarrow> byte list \<Rightarrow> (nat \<times> nat) option" where
  "hash_search hash name =
     (let h = name_hash name; b = unat h mod HASH_SIZE in
      map_option (Pair b) (find_pos (\<lambda>node. kv_hash node = h \<and> cstr (kv_key node) = cstr name) (hash b)))"

definition hash_insert :: "hashmap \<Rightarrow> byte list \<Rightarrow> (nat \<times> nat) \<times> hashmap" where
  "hash_insert hash name =
     (let h = name_hash name; b = unat h mod HASH_SIZE in
      ((b, 0), hash(b := \<lparr>kv_key = name, kv_hash = h, kv_value = 0, kv_queue = None\<rparr> # hash b)))"

definition hash_new :: hashmap where
  "hash_new = (\<lambda>_. [])"

definition get_node :: "harbor \<Rightarrow> nat \<times> nat \<Rightarrow> keyvalue" where
  "get_node h p = hb_map h (fst p) ! snd p"

definition set_node :: "nat \<times> nat \<Rightarrow> keyvalue \<Rightarrow> harbor \<Rightarrow> harbor" where
  "set_node p node h = h\<lparr>hb_map := (hb_map h)(fst p := (hb_map h (fst p))[snd p := node])\<rparr>"

fun release_nodes :: "keyvalue list \<Rightarrow> harbor \<Rightarrow> harbor option" where
  "release_nodes [] h = Some h"
| "release_nodes (node # nodes) h = do { h1 \<leftarrow> release_queue (kv_queue node) h; release_nodes nodes h1 }"

definition hash_delete :: "harbor \<Rightarrow> harbor option" where
  "hash_delete h = do {
     h1 \<leftarrow> release_nodes (concat (map (hb_map h) [0..<HASH_SIZE])) h;
     Some (h1\<lparr>hb_map := hash_new\<rparr>) }"

section \<open>Nodes of the network\<close>

definition close_harbor :: "harbor \<Rightarrow> nat \<Rightarrow> harbor option" where
  "close_harbor h i =
     (let s = (hb_s h i)\<lparr>sl_status := STATUS_DOWN\<rparr>;
          h1 = (if sl_fd s \<noteq> 0 then hcall (SocketClose (sl_fd s)) h else h)
      in case sl_queue s of
           None \<Rightarrow> Some (set_slave i s h1)
         | Some q \<Rightarrow> do {
             h2 \<leftarrow> release_queue (Some q) h1;
             Some (set_slave i (s\<lparr>sl_queue := None\<rparr>) h2) })"

definition report_harbor_down :: "harbor \<Rightarrow> nat \<Rightarrow> harbor" where
  "report_harbor_down h i = hcall (Send 0 (hb_slave h) PTYPE_TEXT 0 (bytes ''D '' @ fmt_d (int i))) h"

definition slave_zero :: slave where
  "slave_zero = \<lparr>sl_fd = 0, sl_queue = None, sl_status = STATUS_WAIT, sl_length = 0, sl_read = 0, sl_size = [], sl_recv = []\<rparr>"

definition harbor_create :: harbor where
  "harbor_create = \<lparr>hb_id = 0, hb_slave = 0, hb_map = hash_new, hb_s = (\<lambda>_. slave_zero), hb_calls = []\<rparr>"

fun close_harbors :: "nat list \<Rightarrow> harbor \<Rightarrow> harbor option" where
  "close_harbors [] h = Some h"
| "close_harbors (i # is) h = do {
     h1 \<leftarrow> (if sl_fd (hb_s h i) \<noteq> 0 \<and> sl_status (hb_s h i) \<noteq> STATUS_DOWN then close_harbor h i else Some h);
     close_harbors is h1 }"

definition harbor_release :: "harbor \<Rightarrow> harbor option" where
  "harbor_release h = do { h1 \<leftarrow> close_harbors [1..<REMOTE_MAX] h; hash_delete h1 }"

section \<open>Packages\<close>

definition to_bigendian :: "u32 \<Rightarrow> byte list" where
  "to_bigendian n = [ucast (drop_bit 24 n AND 0xff), ucast (drop_bit 16 n AND 0xff), ucast (drop_bit 8 n AND 0xff), ucast (n AND 0xff)]"

definition header_to_message :: "remote_message_header \<Rightarrow> byte list" where
  "header_to_message header = to_bigendian (rh_source header) @ to_bigendian (rh_destination header) @ to_bigendian (rh_session header)"

definition from_bigendian :: "byte list \<Rightarrow> u32" where
  "from_bigendian b = push_bit 24 (ucast (b ! 0)) OR push_bit 16 (ucast (b ! 1)) OR push_bit 8 (ucast (b ! 2)) OR ucast (b ! 3)"

definition message_to_header :: "byte list \<Rightarrow> remote_message_header" where
  "message_to_header message =
     \<lparr>rh_source = from_bigendian (take 4 message), rh_destination = from_bigendian (take 4 (drop 4 message)), rh_session = from_bigendian (take 4 (drop 8 message))\<rparr>"

definition forward_local_messsage :: "(call \<Rightarrow> int) \<Rightarrow> harbor \<Rightarrow> byte list \<Rightarrow> harbor option" where
  "forward_local_messsage answer h msg = do {
     require (HEADER_COOKIE_LENGTH \<le> length msg);
     let n = length msg - HEADER_COOKIE_LENGTH;
     let header = message_to_header (drop n msg);
     let ty = uint (drop_bit HANDLE_REMOTE_SHIFT (rh_destination header));
     let destination = (rh_destination header AND HANDLE_MASK) OR push_bit HANDLE_REMOTE_SHIFT (of_int (hb_id h));
     let e = Send (rh_source header) destination (dontcopy ty) (sint (rh_session header)) (take n msg);
     let h1 = hcall e h;
     Some (if answer e < 0 then
             (let h2 = (if ty \<noteq> PTYPE_ERROR then hcall (Send destination (rh_source header) PTYPE_ERROR (sint (rh_session header)) []) h1 else h1)
              in hcall (Error (bytes ''Unknown destination :'' @ fmt_x destination @ bytes '' from :'' @ fmt_x (rh_source header) @ bytes '' type('' @ fmt_d ty @ bytes '')'')) h2)
           else h1) }"

definition send_remote :: "int \<Rightarrow> byte list \<Rightarrow> remote_message_header \<Rightarrow> harbor \<Rightarrow> harbor option" where
  "send_remote fd buffer cookie h =
     (let sz_header = length buffer + HEADER_COOKIE_LENGTH in
      if sz_header > 2 ^ 32 - 1 then
        Some (hcall (Error (bytes ''remote message from :'' @ fmt_08x (rh_source cookie) @ bytes '' to :'' @ fmt_08x (rh_destination cookie) @ bytes '' is too large.'')) h)
      else do {
        require (sz_header + 4 < 2 ^ 31);
        Some (hcall (SocketSend fd (to_bigendian (of_nat sz_header) @ buffer @ header_to_message cookie)) h) })"

fun send_queued :: "int \<Rightarrow> u32 \<Rightarrow> harbor_msg list \<Rightarrow> harbor \<Rightarrow> harbor option" where
  "send_queued fd handle [] h = Some h"
| "send_queued fd handle (m # ms) h = do {
     let header = (hm_header m)\<lparr>rh_destination := rh_destination (hm_header m) OR handle\<rparr>;
     h1 \<leftarrow> send_remote fd (hm_buffer m) header h;
     send_queued fd handle ms (hcall (FreeBuffer (hm_buffer m)) h1) }"

definition local_send :: "u32 \<Rightarrow> harbor_msg \<Rightarrow> call" where
  "local_send handle m =
     Send (rh_source (hm_header m)) handle (dontcopy (uint (drop_bit HANDLE_REMOTE_SHIFT (rh_destination (hm_header m))))) (sint (rh_session (hm_header m))) (hm_buffer m)"

definition dispatch_name_queue :: "harbor \<Rightarrow> nat \<times> nat \<Rightarrow> harbor option" where
  "dispatch_name_queue h p = do {
     let node = get_node h p;
     queue \<leftarrow> kv_queue node;
     let handle = kv_value node;
     let harbor_id = unat (drop_bit HANDLE_REMOTE_SHIFT handle);
     let s = hb_s h harbor_id;
     (if sl_fd s = 0 then
        (if sl_status s = STATUS_DOWN then
           Some (hcall (Error (bytes ''Drop message to '' @ cstr (kv_key node) @ bytes '' (in harbor '' @ fmt_d (int harbor_id) @ bytes '')'')) h)
         else do {
           (squeue, nqueue) \<leftarrow>
             (case sl_queue s of
                None \<Rightarrow> Some (queue, None)
              | Some sq \<Rightarrow> do {
                  (ms, queue1) \<leftarrow> pop_all queue;
                  sq1 \<leftarrow> push_all ms sq;
                  Some (sq1, Some queue1) });
           let h1 = set_node p (node\<lparr>kv_queue := nqueue\<rparr>) (set_slave harbor_id (s\<lparr>sl_queue := Some squeue\<rparr>) h);
           (if harbor_id = unat (drop_bit HANDLE_REMOTE_SHIFT (hb_slave h)) then do {
              (ms, squeue1) \<leftarrow> pop_all squeue;
              h2 \<leftarrow> release_queue (Some squeue1) (fold (\<lambda>m. hcall (local_send handle m)) ms h1);
              Some (set_slave harbor_id (s\<lparr>sl_queue := None\<rparr>) h2) }
            else Some h1) })
      else do {
        (ms, queue1) \<leftarrow> pop_all queue;
        h1 \<leftarrow> send_queued (sl_fd s) (handle AND HANDLE_MASK) ms h;
        Some (set_node p (node\<lparr>kv_queue := Some queue1\<rparr>) h1) }) }"

definition dispatch_queue :: "harbor \<Rightarrow> nat \<Rightarrow> harbor option" where
  "dispatch_queue h i = do {
     let s = hb_s h i;
     require (sl_fd s \<noteq> 0);
     (case sl_queue s of
        None \<Rightarrow> Some h
      | Some queue \<Rightarrow> do {
          (ms, queue1) \<leftarrow> pop_all queue;
          h1 \<leftarrow> send_queued (sl_fd s) 0 ms h;
          h2 \<leftarrow> release_queue (Some queue1) h1;
          Some (set_slave i (s\<lparr>sl_queue := None\<rparr>) h2) }) }"

section \<open>Data from a connection\<close>

text \<open>The cases of the switch of \<open>push_socket_data\<close>.  The result is the state and the bytes that are left when control goes on behind the case, or \<open>None\<close>
  when the function returns.\<close>

definition data_handshake :: "int \<Rightarrow> harbor \<Rightarrow> nat \<Rightarrow> byte list \<Rightarrow> (harbor \<times> byte list option) option" where
  "data_handshake fd h i buffer = do {
     remote_id \<leftarrow> aget buffer 0;
     (if unat remote_id \<noteq> i then do {
        let h1 = hcall (Error (bytes ''Invalid shakehand id ('' @ fmt_d (int i) @ bytes '') from fd = '' @ fmt_d fd @ bytes '' , harbor = '' @ fmt_d (uint remote_id))) h;
        h2 \<leftarrow> close_harbor h1 i;
        Some (h2, None) }
      else do {
        h1 \<leftarrow> dispatch_queue (set_slave i ((hb_s h i)\<lparr>sl_status := STATUS_HEADER\<rparr>) h) i;
        Some (h1, Some (drop 1 buffer)) }) }"

definition data_header :: "harbor \<Rightarrow> nat \<Rightarrow> byte list \<Rightarrow> (harbor \<times> byte list option) option" where
  "data_header h i buffer = do {
     let s = hb_s h i;
     let need = 4 - sl_read s;
     require (0 \<le> need);
     (if int (length buffer) < need then
        Some (set_slave i (s\<lparr>sl_size := take (nat (sl_read s)) (sl_size s) @ buffer, sl_read := sl_read s + int (length buffer)\<rparr>) h, None)
      else do {
        let size4 = take (nat (sl_read s)) (sl_size s) @ take (nat need) buffer;
        let rest = drop (nat need) buffer;
        b0 \<leftarrow> aget size4 0; b1 \<leftarrow> aget size4 1; b2 \<leftarrow> aget size4 2; b3 \<leftarrow> aget size4 3;
        (if b0 \<noteq> 0 then do {
           h1 \<leftarrow> close_harbor (hcall (Error (bytes ''Message is too long from harbor '' @ fmt_d (int i))) (set_slave i (s\<lparr>sl_size := size4\<rparr>) h)) i;
           Some (h1, None) }
         else
           Some (set_slave i (s\<lparr>sl_size := size4, sl_length := uint b1 * 2 ^ 16 + uint b2 * 2 ^ 8 + uint b3, sl_read := 0, sl_recv := [], sl_status := STATUS_CONTENT\<rparr>) h,
             if rest = [] then None else Some rest)) }) }"

definition data_content :: "(call \<Rightarrow> int) \<Rightarrow> harbor \<Rightarrow> nat \<Rightarrow> byte list \<Rightarrow> (harbor \<times> byte list option) option" where
  "data_content answer h i buffer = do {
     let s = hb_s h i;
     let need = sl_length s - sl_read s;
     require (0 \<le> need);
     (if int (length buffer) < need then
        Some (set_slave i (s\<lparr>sl_recv := take (nat (sl_read s)) (sl_recv s) @ buffer, sl_read := sl_read s + int (length buffer)\<rparr>) h, None)
      else do {
        let rest = drop (nat need) buffer;
        h1 \<leftarrow> forward_local_messsage answer h (take (nat (sl_read s)) (sl_recv s) @ take (nat need) buffer);
        Some (set_slave i (s\<lparr>sl_length := 0, sl_read := 0, sl_recv := [], sl_status := STATUS_HEADER\<rparr>) h1, if rest = [] then None else Some rest) }) }"

text \<open>The fall through from one case to the next, and one turn of the loop.\<close>

definition data_from_header :: "(call \<Rightarrow> int) \<Rightarrow> harbor \<Rightarrow> nat \<Rightarrow> byte list \<Rightarrow> (harbor \<times> byte list option) option" where
  "data_from_header answer h i buffer = do {
     (h1, r) \<leftarrow> data_header h i buffer;
     (case r of
        None \<Rightarrow> Some (h1, None)
      | Some rest \<Rightarrow> data_content answer h1 i rest) }"

definition push_step :: "(call \<Rightarrow> int) \<Rightarrow> int \<Rightarrow> harbor \<Rightarrow> nat \<Rightarrow> byte list \<Rightarrow> (harbor \<times> byte list option) option" where
  "push_step answer fd h i buffer =
     (let st = sl_status (hb_s h i) in
      if st = STATUS_HANDSHAKE then do {
        (h1, r) \<leftarrow> data_handshake fd h i buffer;
        (case r of
           None \<Rightarrow> Some (h1, None)
         | Some rest \<Rightarrow> if rest = [] then Some (h1, Some []) else data_from_header answer h1 i rest) }
      else if st = STATUS_HEADER then data_from_header answer h i buffer
      else if st = STATUS_CONTENT then data_content answer h i buffer
      else Some (h, None))"

partial_function (option) push_loop :: "(call \<Rightarrow> int) \<Rightarrow> int \<Rightarrow> harbor \<Rightarrow> nat \<Rightarrow> byte list \<Rightarrow> harbor option" where
  "push_loop answer fd h i buffer = do {
     (h1, r) \<leftarrow> push_step answer fd h i buffer;
     (case r of
        None \<Rightarrow> Some h1
      | Some rest \<Rightarrow> push_loop answer fd h1 i rest) }"

definition harbor_id :: "harbor \<Rightarrow> int \<Rightarrow> nat" where
  "harbor_id h fd = (case find (\<lambda>i. sl_fd (hb_s h i) = fd) [1..<REMOTE_MAX] of None \<Rightarrow> 0 | Some i \<Rightarrow> i)"

definition push_socket_data :: "(call \<Rightarrow> int) \<Rightarrow> harbor \<Rightarrow> socket_message \<Rightarrow> harbor option" where
  "push_socket_data answer h message = do {
     require (m_type message = SKYNET_SOCKET_TYPE_DATA \<and> m_ud message = int (length (m_buffer message)));
     let fd = m_id message;
     (case find (\<lambda>i. sl_fd (hb_s h i) = fd) [1..<REMOTE_MAX] of
        None \<Rightarrow> Some (hcall (Error (bytes ''Invalid socket fd ('' @ fmt_d fd @ bytes '') data'')) (hcall (FreeBuffer (m_buffer message)) h))
      | Some i \<Rightarrow> push_loop answer fd h i (m_buffer message)) }"

section \<open>Messages to other nodes\<close>

definition update_name :: "harbor \<Rightarrow> byte list \<Rightarrow> u32 \<Rightarrow> harbor option" where
  "update_name h name handle = do {
     let (p, h1) = (case hash_search (hb_map h) name of
           Some p \<Rightarrow> (p, h)
         | None \<Rightarrow> let (p, m) = hash_insert (hb_map h) name in (p, h\<lparr>hb_map := m\<rparr>));
     let h2 = set_node p ((get_node h1 p)\<lparr>kv_value := handle\<rparr>) h1;
     (case kv_queue (get_node h2 p) of
        None \<Rightarrow> Some h2
      | Some q \<Rightarrow> do {
          h3 \<leftarrow> dispatch_name_queue h2 p;
          h4 \<leftarrow> release_queue (kv_queue (get_node h3 p)) h3;
          Some (set_node p ((get_node h4 p)\<lparr>kv_queue := None\<rparr>) h4) }) }"

definition remote_header :: "u32 \<Rightarrow> u32 \<Rightarrow> int \<Rightarrow> int \<Rightarrow> remote_message_header" where
  "remote_header source destination ty session =
     \<lparr>rh_source = source, rh_destination = push_bit HANDLE_REMOTE_SHIFT (of_int ty) OR (destination AND HANDLE_MASK), rh_session = of_int session\<rparr>"

definition remote_send_handle :: "harbor \<Rightarrow> u32 \<Rightarrow> u32 \<Rightarrow> int \<Rightarrow> int \<Rightarrow> byte list \<Rightarrow> (int \<times> harbor) option" where
  "remote_send_handle h source destination ty session msg =
     (let harbor_id = unat (drop_bit HANDLE_REMOTE_SHIFT destination); s = hb_s h harbor_id in
      if int harbor_id = hb_id h then Some (1, hcall (Send source destination (dontcopy ty) session msg) h)
      else if sl_fd s = 0 \<or> sl_status s = STATUS_HANDSHAKE then
        (if sl_status s = STATUS_DOWN then
           Some (0, hcall (Error (bytes ''Drop message to harbor '' @ fmt_d (int harbor_id) @ bytes '' from '' @ fmt_x source @ bytes '' to '' @ fmt_x destination @
                bytes '' (session = '' @ fmt_d session @ bytes '', msgsz = '' @ fmt_d (to_int (int (length msg))) @ bytes '')''))
              (hcall (Send destination source PTYPE_ERROR 0 []) h))
         else do {
           q \<leftarrow> push_queue (case sl_queue s of None \<Rightarrow> new_queue | Some q \<Rightarrow> q) msg (remote_header source destination ty session);
           Some (1, set_slave harbor_id (s\<lparr>sl_queue := Some q\<rparr>) h) })
      else do {
        h1 \<leftarrow> send_remote (sl_fd s) msg (remote_header source destination ty session) h;
        Some (0, h1) })"

definition remote_send_name :: "harbor \<Rightarrow> u32 \<Rightarrow> byte list \<Rightarrow> int \<Rightarrow> int \<Rightarrow> byte list \<Rightarrow> (int \<times> harbor) option" where
  "remote_send_name h source name ty session msg = do {
     let (p, h1) = (case hash_search (hb_map h) name of
           Some p \<Rightarrow> (p, h)
         | None \<Rightarrow> let (p, m) = hash_insert (hb_map h) name in (p, h\<lparr>hb_map := m\<rparr>));
     let node = get_node h1 p;
     (if kv_value node = 0 then do {
        q \<leftarrow> push_queue (case kv_queue node of None \<Rightarrow> new_queue | Some q \<Rightarrow> q) msg (remote_header source 0 ty session);
        Some (1, hcall (Send 0 (hb_slave h1) PTYPE_TEXT 0 (cstr (bytes ''Q '' @ name))) (set_node p (node\<lparr>kv_queue := Some q\<rparr>) h1)) }
      else remote_send_handle h1 source (kv_value node) ty session msg) }"

section \<open>The service\<close>

definition handshake :: "harbor \<Rightarrow> nat \<Rightarrow> harbor" where
  "handshake h i = hcall (SocketSend (sl_fd (hb_s h i)) [of_int (hb_id h)]) h"

definition scan_fd_id :: "cstring \<Rightarrow> int \<times> int" where
  "scan_fd_id s =
     (case scan_int s of
        (None, r) \<Rightarrow> (0, 0)
      | (Some fd, r) \<Rightarrow> (case scan_int r of (None, r1) \<Rightarrow> (fd, 0) | (Some i, r1) \<Rightarrow> (fd, i)))"

definition harbor_link :: "harbor \<Rightarrow> byte \<Rightarrow> cstring \<Rightarrow> harbor option" where
  "harbor_link h c buffer =
     (let (fd, i) = scan_fd_id (cstr buffer) in
      if fd = 0 \<or> i \<le> 0 \<or> i \<ge> int REMOTE_MAX then Some (hcall (Error (bytes ''Invalid command '' @ [c] @ bytes '' '' @ cstr buffer)) h)
      else if sl_fd (hb_s h (nat i)) \<noteq> 0 then Some (hcall (Error (bytes ''Harbor '' @ fmt_d i @ bytes '' alreay exist'')) h)
      else
        (let s = (hb_s h (nat i))\<lparr>sl_fd := fd\<rparr>; h1 = handshake (hcall (SocketStart fd) (set_slave (nat i) s h)) (nat i) in
         if c = 83 then Some (set_slave (nat i) (s\<lparr>sl_status := STATUS_HANDSHAKE\<rparr>) h1)
         else dispatch_queue (set_slave (nat i) (s\<lparr>sl_status := STATUS_HEADER\<rparr>) h1) (nat i)))"

text \<open>The message of a command is followed by a zero.\<close>

definition harbor_command :: "harbor \<Rightarrow> byte list \<Rightarrow> u32 \<Rightarrow> harbor option" where
  "harbor_command h msg source =
     (let text0 = msg @ [0]; c = text0 ! 0; s = int (length msg) - 2 in
      if c = 78 then
        (if s \<le> 0 \<or> s \<ge> int GLOBALNAME_LENGTH then do {
           require (- 1 < s);
           Some (hcall (Error (bytes ''Invalid global name '' @ cstr (drop 2 text0))) h) }
         else update_name h (drop 2 msg @ replicate (GLOBALNAME_LENGTH - nat s) 0) source)
      else if c = 83 \<or> c = 65 then do {
        require (0 \<le> s);
        harbor_link h c (drop 2 msg) }
      else Some (hcall (Error (bytes ''Unknown command '' @ cstr text0)) h))"

record out_message =
  o_name :: "byte list"
  o_handle :: u32
  o_message :: "byte list"

datatype harbor_input = HSocket socket_message | HCommand "byte list" | HRemote out_message

definition harbor_socket :: "(call \<Rightarrow> int) \<Rightarrow> harbor \<Rightarrow> socket_message \<Rightarrow> harbor option" where
  "harbor_socket answer h m =
     (if m_type m = SKYNET_SOCKET_TYPE_DATA then do {
        h1 \<leftarrow> push_socket_data answer h m;
        Some (hcall (FreeBuffer (m_buffer m)) h1) }
      else if m_type m = SKYNET_SOCKET_TYPE_ERROR \<or> m_type m = SKYNET_SOCKET_TYPE_CLOSE then
        (let i = harbor_id h (m_id m) in
         Some (if i \<noteq> 0 then report_harbor_down h i else hcall (Error (bytes ''Unkown fd ('' @ fmt_d (m_id m) @ bytes '') closed'')) h))
      else if m_type m = SKYNET_SOCKET_TYPE_CONNECT then Some h
      else if m_type m = SKYNET_SOCKET_TYPE_WARNING then
        (let i = harbor_id h (m_id m) in
         Some (if i \<noteq> 0 then hcall (Error (bytes ''message havn'' @ [39] @ bytes ''t send to Harbor ('' @ fmt_d (int i) @ bytes '') reach '' @ fmt_d (m_ud m) @ bytes '' K'')) h else h))
      else Some (hcall (Error (bytes ''recv invalid socket message type '' @ fmt_d PTYPE_SOCKET)) h))"

definition harbor_out :: "harbor \<Rightarrow> int \<Rightarrow> int \<Rightarrow> u32 \<Rightarrow> out_message \<Rightarrow> harbor option" where
  "harbor_out h ty session source rmsg = do {
     (r, h1) \<leftarrow> (if o_handle rmsg = 0 then remote_send_name h source (o_name rmsg) ty session (o_message rmsg)
        else remote_send_handle h source (o_handle rmsg) ty session (o_message rmsg));
     Some (if r \<noteq> 0 then h1 else hcall (FreeBuffer (o_message rmsg)) h1) }"

definition harbor_mainloop :: "(call \<Rightarrow> int) \<Rightarrow> harbor \<Rightarrow> int \<Rightarrow> int \<Rightarrow> u32 \<Rightarrow> harbor_input \<Rightarrow> harbor option" where
  "harbor_mainloop answer h ty session source msg =
     (if ty = PTYPE_SOCKET then (case msg of HSocket m \<Rightarrow> harbor_socket answer h m | _ \<Rightarrow> None)
      else if ty = PTYPE_HARBOR then (case msg of HCommand c \<Rightarrow> harbor_command h c source | _ \<Rightarrow> None)
      else (case msg of HRemote rmsg \<Rightarrow> harbor_out h ty session source rmsg | _ \<Rightarrow> None))"

definition harbor_init :: "harbor \<Rightarrow> cstring \<Rightarrow> int \<times> harbor" where
  "harbor_init h args =
     (let (n, slave) = (case scan_int args of (None, r) \<Rightarrow> (0, 0) | (Some n, r) \<Rightarrow> (n, ucast (strtoul r 10))) in
      if slave = 0 then (1, h)
      else (0, hcall HarborStart (hcall Callback (h\<lparr>hb_id := n, hb_slave := slave\<rparr>))))"

end
