(* ===== verification/Skynet_Harbor_Link.thy ===== *)
theory Skynet_Harbor_Link
  imports Skynet_Harbor
begin

text \<open>
  What \<open>service_harbor.c\<close> guarantees: the rings of waiting messages are queues, what a connection delivers is cut into the packages that were sent, and the
  messages between two nodes arrive once and in order.
\<close>

section \<open>The rings are queues\<close>

definition hq_len :: "harbor_msg_queue \<Rightarrow> nat" where
  "hq_len q = nat ((hq_tail q - hq_head q) mod hq_size q)"

definition hq_slot :: "harbor_msg_queue \<Rightarrow> nat \<Rightarrow> harbor_msg option" where
  "hq_slot q i = hq_data q ! nat ((hq_head q + int i) mod hq_size q)"

definition hq_list :: "harbor_msg_queue \<Rightarrow> harbor_msg list" where
  "hq_list q = map (\<lambda>i. the (hq_slot q i)) [0..<hq_len q]"

definition hq_wf :: "harbor_msg_queue \<Rightarrow> bool" where
  "hq_wf q \<longleftrightarrow> 1 < hq_size q \<and> 0 \<le> hq_head q \<and> hq_head q < hq_size q \<and> 0 \<le> hq_tail q \<and> hq_tail q < hq_size q \<and>
     length (hq_data q) = nat (hq_size q) \<and> (\<forall>i < hq_len q. hq_slot q i \<noteq> None)"

definition hq_room :: "nat \<Rightarrow> harbor_msg_queue \<Rightarrow> bool" where
  "hq_room n q \<longleftrightarrow> hq_size q \<le> 2 ^ 30 \<and> hq_len q + n < 2 ^ 29"

lemma length_hq_list [simp]: "length (hq_list q) = hq_len q"
  by (simp add: hq_list_def)

lemma hq_wfD:
  assumes "hq_wf q"
  shows "1 < hq_size q" "0 \<le> hq_head q" "hq_head q < hq_size q" "0 \<le> hq_tail q" "hq_tail q < hq_size q" "length (hq_data q) = nat (hq_size q)"
    "\<And>i. i < hq_len q \<Longrightarrow> hq_slot q i = Some (hq_list q ! i)"
  using assms by (auto simp: hq_wf_def hq_list_def)

lemma hq_len_cases:
  assumes "hq_wf q"
  shows "int (hq_len q) = (if hq_head q \<le> hq_tail q then hq_tail q - hq_head q else hq_tail q - hq_head q + hq_size q)"
proof (cases "hq_head q \<le> hq_tail q")
  case True
  then show ?thesis using hq_wfD [OF assms] by (simp add: hq_len_def mod_pos_pos_trivial)
next
  case False
  have "(hq_tail q - hq_head q) mod hq_size q = (hq_tail q - hq_head q + hq_size q) mod hq_size q" by simp
  also have "\<dots> = hq_tail q - hq_head q + hq_size q" using hq_wfD [OF assms] False by (intro mod_pos_pos_trivial) simp_all
  finally show ?thesis using hq_wfD [OF assms] False by (simp add: hq_len_def)
qed

text \<open>A ring with given slots.\<close>

lemma hq_listI:
  assumes "1 < hq_size q" "0 \<le> hq_head q" "hq_head q < hq_size q" "0 \<le> hq_tail q" "hq_tail q < hq_size q" "length (hq_data q) = nat (hq_size q)"
    and "hq_len q = length xs" "\<And>i. i < length xs \<Longrightarrow> hq_slot q i = Some (xs ! i)"
  shows "hq_wf q \<and> hq_list q = xs"
  using assms by (auto simp: hq_wf_def hq_list_def intro: nth_equalityI)

lemma step_mod: "0 \<le> x \<Longrightarrow> x < (n :: int) \<Longrightarrow> (x + 1) mod n = (if x + 1 = n then 0 else x + 1)"
  by (auto simp: mod_pos_pos_trivial)

lemma slot_mod:
  assumes "0 \<le> x" "x < n" "0 \<le> y" "y < (n :: int)"
  shows "(x + y) mod n = (if x + y < n then x + y else x + y - n)"
proof (cases "x + y < n")
  case True
  then show ?thesis using assms by (simp add: mod_pos_pos_trivial)
next
  case False
  have "(x + y) mod n = (x + y - n) mod n" by simp
  also have "\<dots> = x + y - n" using assms False by (intro mod_pos_pos_trivial) simp_all
  finally show ?thesis using False by simp
qed

lemma pop_queue_spec:
  assumes wf: "hq_wf q"
  shows "hq_list q = [] \<Longrightarrow> pop_queue q = Some (None, q)"
    "hq_list q = m # ms \<Longrightarrow> \<exists>q'. pop_queue q = Some (Some m, q') \<and> hq_wf q' \<and> hq_list q' = ms \<and> hq_size q' = hq_size q"
proof -
  note b = hq_wfD [OF wf] and c = hq_len_cases [OF wf]
  show "pop_queue q = Some (None, q)" if "hq_list q = []"
  proof -
    have "hq_len q = 0" using that by (metis length_hq_list list.size(3))
    then have "hq_head q = hq_tail q" using c b by (simp split: if_splits)
    then show ?thesis by (simp add: pop_queue_def)
  qed
  assume l: "hq_list q = m # ms"
  then have n: "hq_len q = Suc (length ms)" by (metis length_hq_list length_Cons)
  then have ne: "hq_head q \<noteq> hq_tail q" using c by auto
  define q' where "q' = q\<lparr>hq_head := (hq_head q + 1) mod hq_size q\<rparr>"
  have "hq_slot q 0 = Some m" using b(7) [of 0] n l by simp
  then have "pop_queue q = Some (Some m, q')" using b ne by (simp add: pop_queue_def hq_slot_def q'_def mod_pos_pos_trivial)
  moreover have "hq_wf q' \<and> hq_list q' = ms"
  proof (rule hq_listI)
    have "(hq_tail q' - hq_head q') mod hq_size q' = (hq_tail q - hq_head q - 1) mod hq_size q" by (simp add: q'_def mod_simps algebra_simps)
    also have "\<dots> = ((hq_tail q - hq_head q) mod hq_size q - 1) mod hq_size q" by (simp add: mod_simps)
    also have "(hq_tail q - hq_head q) mod hq_size q = int (hq_len q)" using b(1) by (simp add: hq_len_def)
    also have "(int (hq_len q) - 1) mod hq_size q = int (hq_len q) - 1"
      using n c b by (intro mod_pos_pos_trivial) (auto split: if_splits)
    finally show "hq_len q' = length ms" using n unfolding hq_len_def [of q'] by simp
    fix i assume "i < length ms"
    then have "hq_slot q (Suc i) = Some (ms ! i)" using b(7) [of "Suc i"] n l by simp
    moreover have "hq_slot q' i = hq_slot q (Suc i)" by (simp add: hq_slot_def q'_def mod_simps algebra_simps)
    ultimately show "hq_slot q' i = Some (ms ! i)" by simp
  qed (use b in \<open>simp_all add: q'_def\<close>)
  ultimately show "\<exists>q'. pop_queue q = Some (Some m, q') \<and> hq_wf q' \<and> hq_list q' = ms \<and> hq_size q' = hq_size q" by (auto simp: q'_def)
qed

text \<open>Storing at the tail when there is room.\<close>

lemma store_spec:
  fixes m :: harbor_msg
  assumes wf: "hq_wf q" and room: "int (hq_len q) + 1 < hq_size q"
  defines "q' \<equiv> q\<lparr>hq_data := (hq_data q)[nat (hq_tail q) := Some m], hq_tail := (hq_tail q + 1) mod hq_size q\<rparr>"
  shows "hq_wf q' \<and> hq_list q' = hq_list q @ [m]"
proof (rule hq_listI)
  note b = hq_wfD [OF wf] and c = hq_len_cases [OF wf]
  show "1 < hq_size q'" "0 \<le> hq_head q'" "hq_head q' < hq_size q'" "0 \<le> hq_tail q'" "hq_tail q' < hq_size q'" "length (hq_data q') = nat (hq_size q')"
    using b by (simp_all add: q'_def)
  have "(hq_tail q' - hq_head q') mod hq_size q' = ((hq_tail q - hq_head q) mod hq_size q + 1) mod hq_size q" by (simp add: q'_def mod_simps algebra_simps)
  also have "(hq_tail q - hq_head q) mod hq_size q = int (hq_len q)" using b(1) by (simp add: hq_len_def)
  also have "(int (hq_len q) + 1) mod hq_size q = int (hq_len q) + 1" using room by (intro mod_pos_pos_trivial) simp_all
  finally show "hq_len q' = length (hq_list q @ [m])" by (simp add: hq_len_def [of q'])
  fix i assume "i < length (hq_list q @ [m])"
  then consider (old) "i < hq_len q" | (last) "i = hq_len q" by fastforce
  then show "hq_slot q' i = Some ((hq_list q @ [m]) ! i)"
  proof cases
    case old
    have "int i < hq_size q" using old room by simp
    then have "(hq_head q + int i) mod hq_size q \<noteq> hq_tail q" using slot_mod [of "hq_head q" "hq_size q" "int i"] b c old by (auto split: if_splits)
    moreover have "0 \<le> (hq_head q + int i) mod hq_size q" using b(1) by simp
    ultimately have "nat (hq_tail q) \<noteq> nat ((hq_head q + int i) mod hq_size q)" using b(4) by (simp add: nat_eq_iff)
    then show ?thesis using b(7) [OF old] old by (simp add: hq_slot_def q'_def nth_append)
  next
    case last
    have "(hq_head q + int i) mod hq_size q = hq_tail q" using slot_mod [of "hq_head q" "hq_size q" "int i"] b c last room by (auto split: if_splits)
    then show ?thesis using b last by (simp add: hq_slot_def q'_def nth_append)
  qed
qed


text \<open>The copy into a larger ring.\<close>

lemma grow_spec:
  assumes wf: "hq_wf q" and full: "int (hq_len q) + 1 = hq_size q"
  defines "elems \<equiv> map (\<lambda>i. hq_data q ! nat ((int i + hq_head q) mod hq_size q)) [0..<nat (hq_size q - 1)]"
  defines "q' \<equiv> q\<lparr>hq_data := elems @ replicate (nat (hq_size q * 2) - length elems) None, hq_head := 0, hq_tail := hq_size q - 1, hq_size := hq_size q * 2\<rparr>"
  shows "those (map (\<lambda>i. aget (hq_data q) ((int i + hq_head q) mod hq_size q)) [0..<nat (hq_size q - 1)]) = Some elems" "hq_wf q' \<and> hq_list q' = hq_list q"
proof -
  note b = hq_wfD [OF wf]
  show "those (map (\<lambda>i. aget (hq_data q) ((int i + hq_head q) mod hq_size q)) [0..<nat (hq_size q - 1)]) = Some elems"
    unfolding elems_def by (rule those_map_Some) (use b in simp)
  have len: "length elems = hq_len q" using full by (simp add: elems_def)
  show "hq_wf q' \<and> hq_list q' = hq_list q"
  proof (rule hq_listI)
    show "1 < hq_size q'" "0 \<le> hq_head q'" "hq_head q' < hq_size q'" "0 \<le> hq_tail q'" "hq_tail q' < hq_size q'" "length (hq_data q') = nat (hq_size q')"
      using b full len by (simp_all add: q'_def)
    have "(hq_size q - 1) mod (hq_size q * 2) = hq_size q - 1" using b(1) by (intro mod_pos_pos_trivial) simp_all
    then have "hq_len q' = nat (hq_size q - 1)" unfolding hq_len_def by (simp add: q'_def)
    then show "hq_len q' = length (hq_list q)" using full by (simp add: nat_eq_iff)
    fix i assume i: "i < length (hq_list q)"
    then have "int i mod (hq_size q * 2) = int i" using full by (intro mod_pos_pos_trivial) simp_all
    then have "hq_slot q' i = elems ! i" using i len by (simp add: hq_slot_def q'_def nth_append)
    also have "\<dots> = hq_slot q i" using i len full by (simp add: elems_def hq_slot_def add.commute)
    finally show "hq_slot q' i = Some (hq_list q ! i)" using b(7) i by simp
  qed
qed

lemma push_queue_spec:
  assumes wf: "hq_wf q" and room: "hq_room (Suc n) q"
  shows "\<exists>q'. push_queue_msg m q = Some q' \<and> hq_wf q' \<and> hq_room n q' \<and> hq_list q' = hq_list q @ [m]"
proof -
  note b = hq_wfD [OF wf] and c = hq_len_cases [OF wf]
  have step: "\<exists>q'. aset (hq_data q1) (hq_tail q1) (Some m) \<bind> (\<lambda>data. Some (q1\<lparr>hq_data := data, hq_tail := (hq_tail q1 + 1) mod hq_size q1\<rparr>)) = Some q' \<and>
      hq_wf q' \<and> hq_room n q' \<and> hq_list q' = hq_list q @ [m]"
    if q1: "hq_wf q1" "hq_list q1 = hq_list q" "int (hq_len q1) + 1 < hq_size q1" "hq_size q1 \<le> 2 ^ 30" for q1
  proof -
    define q' where "q' = q1\<lparr>hq_data := (hq_data q1)[nat (hq_tail q1) := Some m], hq_tail := (hq_tail q1 + 1) mod hq_size q1\<rparr>"
    have q': "hq_wf q'" "hq_list q' = hq_list q @ [m]" using store_spec [OF q1(1,3), of m] q1(2) by (simp_all add: q'_def)
    have "hq_len q' = Suc (hq_len q)" using arg_cong [OF q'(2), of length] by simp
    then have "hq_room n q'" using room q1(4) by (simp add: hq_room_def q'_def)
    moreover have "aset (hq_data q1) (hq_tail q1) (Some m) = Some ((hq_data q1)[nat (hq_tail q1) := Some m])" using hq_wfD [OF q1(1)] by simp
    ultimately show ?thesis using q' by (simp add: q'_def)
  qed
  show ?thesis
  proof (cases "(hq_tail q + 1) mod hq_size q = hq_head q")
    case True
    then have full: "int (hq_len q) + 1 = hq_size q" using step_mod [of "hq_tail q" "hq_size q"] b c by (auto split: if_splits)
    define elems where "elems = map (\<lambda>i. hq_data q ! nat ((int i + hq_head q) mod hq_size q)) [0..<nat (hq_size q - 1)]"
    define q1 where "q1 = q\<lparr>hq_data := elems @ replicate (nat (hq_size q * 2) - length elems) None, hq_head := 0, hq_tail := hq_size q - 1, hq_size := hq_size q * 2\<rparr>"
    note g = grow_spec [OF wf full, folded elems_def, folded q1_def]
    have sz: "hq_size q * 2 \<le> 2 ^ 30" using room full by (simp add: hq_room_def)
    have "hq_len q1 = hq_len q" using g(2) by (metis length_hq_list)
    then have "int (hq_len q1) + 1 < hq_size q1" "hq_size q1 \<le> 2 ^ 30" using full b(1) sz by (simp_all add: q1_def)
    from step [OF _ _ this] have fin: "\<exists>q'. aset (hq_data q1) (hq_tail q1) (Some m) \<bind> (\<lambda>data. Some (q1\<lparr>hq_data := data, hq_tail := (hq_tail q1 + 1) mod hq_size q1\<rparr>)) = Some q' \<and>
      hq_wf q' \<and> hq_room n q' \<and> hq_list q' = hq_list q @ [m]" using g(2) by simp
    have "cint (hq_size q * 2) = Some (hq_size q * 2)" using sz b(1) by (simp add: cint_def cint_ok_def)
    then have "push_queue_msg m q = aset (hq_data q1) (hq_tail q1) (Some m) \<bind> (\<lambda>data. Some (q1\<lparr>hq_data := data, hq_tail := (hq_tail q1 + 1) mod hq_size q1\<rparr>))"
      unfolding push_queue_msg_def using True g(1) by (simp add: q1_def)
    with fin show ?thesis by simp
  next
    case False
    then have "int (hq_len q) + 1 < hq_size q" using step_mod [of "hq_tail q" "hq_size q"] b c by (auto split: if_splits)
    from step [OF wf refl this] show ?thesis using False room by (simp add: push_queue_msg_def hq_room_def)
  qed
qed

interpretation link_queue: fifo hq_wf hq_list hq_room push_queue_msg pop_queue
proof (unfold_locales, goal_cases)
  case (1 q n m)
  then show ?case by (rule push_queue_spec)
next
  case (2 q n m ms)
  then obtain q' where q': "pop_queue q = Some (Some m, q')" "hq_wf q'" "hq_list q' = ms" "hq_size q' = hq_size q" using pop_queue_spec(2) by blast
  have "hq_len q = Suc (hq_len q')" using arg_cong [OF 2(3), of length] arg_cong [OF q'(3), of length] by simp
  then show ?case using q' 2(2) by (auto simp: hq_room_def)
next
  case (3 q n)
  then show ?case using pop_queue_spec(1) by blast
qed

text \<open>The loops over queues.\<close>

lemma pop_all_spec: "hq_wf q \<Longrightarrow> \<exists>q'. pop_all q = Some (hq_list q, q') \<and> hq_wf q' \<and> hq_list q' = []"
proof (induction "hq_list q" arbitrary: q)
  case Nil
  then show ?case using pop_queue_spec(1) [of q] by (subst pop_all.simps) simp
next
  case (Cons m ms)
  obtain q1 where q1: "pop_queue q = Some (Some m, q1)" "hq_wf q1" "hq_list q1 = ms" using pop_queue_spec(2) [OF Cons.prems Cons.hyps(2) [symmetric]] by blast
  obtain q2 where "pop_all q1 = Some (ms, q2)" "hq_wf q2" "hq_list q2 = []" using Cons.hyps(1) [of q1] q1 by auto
  then show ?case using q1(1) Cons.hyps(2) [symmetric] by (subst pop_all.simps) simp
qed

lemma push_all_spec: "hq_wf q \<Longrightarrow> hq_room (n + length ms) q \<Longrightarrow> \<exists>q'. push_all ms q = Some q' \<and> hq_wf q' \<and> hq_room n q' \<and> hq_list q' = hq_list q @ ms"
proof (induction ms arbitrary: q)
  case (Cons m ms)
  obtain q1 where q1: "push_queue_msg m q = Some q1" "hq_wf q1" "hq_room (n + length ms) q1" "hq_list q1 = hq_list q @ [m]"
    using push_queue_spec [OF Cons.prems(1), of "n + length ms" m] Cons.prems(2) by auto
  then show ?case using Cons.IH [OF q1(2,3)] by auto
qed simp

lemma new_queue_wf: "hq_wf new_queue" "hq_list new_queue = []" "n < 2 ^ 29 \<Longrightarrow> hq_room n new_queue"
  by (simp_all add: hq_wf_def hq_list_def hq_len_def hq_room_def new_queue_def HARBOR_QUEUE_SIZE_def)

lemma release_empty: "hq_wf q \<Longrightarrow> hq_list q = [] \<Longrightarrow> release_queue (Some q) h = Some h"
  using pop_all_spec [of q] by (auto simp: release_queue_def)

section \<open>Packages on the wire\<close>

text \<open>The bytes of a message on a connection, and the calls that deliver it on the node with the given id.\<close>

definition frame :: "harbor_msg \<Rightarrow> byte list" where
  "frame m = to_bigendian (of_nat (length (hm_buffer m) + HEADER_COOKIE_LENGTH)) @ hm_buffer m @ header_to_message (hm_header m)"

definition local_calls :: "(call \<Rightarrow> int) \<Rightarrow> int \<Rightarrow> harbor_msg \<Rightarrow> call list" where
  "local_calls answer i m =
     (let hdr = hm_header m; ty = uint (drop_bit HANDLE_REMOTE_SHIFT (rh_destination hdr));
          destination = (rh_destination hdr AND HANDLE_MASK) OR push_bit HANDLE_REMOTE_SHIFT (of_int i);
          e = Send (rh_source hdr) destination (dontcopy ty) (sint (rh_session hdr)) (hm_buffer m)
      in e # (if answer e < 0 then
                (if ty \<noteq> PTYPE_ERROR then [Send destination (rh_source hdr) PTYPE_ERROR (sint (rh_session hdr)) []] else []) @
                [Error (bytes ''Unknown destination :'' @ fmt_x destination @ bytes '' from :'' @ fmt_x (rh_source hdr) @ bytes '' type('' @ fmt_d ty @ bytes '')'')]
              else []))"

definition fits :: "harbor_msg \<Rightarrow> bool" where
  "fits m \<longleftrightarrow> length (hm_buffer m) + HEADER_COOKIE_LENGTH < 2 ^ 24"

lemma hcall_simps [simp]:
  "hb_calls (hcall e h) = hb_calls h @ [e]" "hb_s (hcall e h) = hb_s h" "hb_id (hcall e h) = hb_id h" "hb_slave (hcall e h) = hb_slave h" "hb_map (hcall e h) = hb_map h"
  by (simp_all add: hcall_def)

lemma set_slave_simps [simp]:
  "hb_calls (set_slave i s h) = hb_calls h" "hb_s (set_slave i s h) = (hb_s h)(i := s)" "hb_id (set_slave i s h) = hb_id h"
  "hb_slave (set_slave i s h) = hb_slave h" "hb_map (set_slave i s h) = hb_map h"
  by (simp_all add: set_slave_def)

lemma bigendian_simps [simp]: "length (to_bigendian n) = 4" "from_bigendian (to_bigendian n) = n"
  by (simp_all add: to_bigendian_def from_bigendian_def byte_simps)

lemma header_bytes [simp]: "length (header_to_message hdr) = 12" "message_to_header (header_to_message hdr) = hdr"
  by (simp_all add: header_to_message_def message_to_header_def)

lemma length_frame: "length (frame m) = length (hm_buffer m) + 16"
  by (simp add: frame_def)

lemma forward_frame:
  "forward_local_messsage answer h (drop 4 (frame m)) = Some (h\<lparr>hb_calls := hb_calls h @ local_calls answer (hb_id h) m\<rparr>)"
  by (simp add: forward_local_messsage_def frame_def HEADER_COOKIE_LENGTH_def local_calls_def Let_def hcall_def)

lemma three_bytes:
  fixes x :: int
  assumes "0 \<le> x" "x < 2 ^ 24"
  shows "(x div 2 ^ 16 mod 2 ^ 8) * 2 ^ 16 + (x div 2 ^ 8 mod 2 ^ 8) * 2 ^ 8 + x mod 2 ^ 8 = x"
proof -
  define a where "a = x div 2 ^ 8"
  have q: "x div 2 ^ 16 = a div 2 ^ 8" by (simp add: a_def zdiv_zmult2_eq [symmetric])
  have "x div 2 ^ 16 mod 2 ^ 8 = x div 2 ^ 16" using assms by (intro mod_pos_pos_trivial) (simp_all add: div_less_iff_less_mult)
  then have "x div 2 ^ 16 mod 2 ^ 8 = a div 2 ^ 8" using q by simp
  moreover have "a * 2 ^ 8 + x mod 2 ^ 8 = x" unfolding a_def by (rule div_mult_mod_eq)
  moreover have "a div 2 ^ 8 * 2 ^ 8 + a mod 2 ^ 8 = a" by (rule div_mult_mod_eq)
  moreover have "a div 2 ^ 8 * 2 ^ 16 = a div 2 ^ 8 * 2 ^ 8 * 2 ^ 8" by simp
  ultimately show ?thesis unfolding a_def [symmetric] by (metis distrib_right)
qed

lemma frame_length_bytes:
  assumes "fits m"
  obtains b1 b2 b3 where "take 4 (frame m) = [0, b1, b2, b3]" "uint b1 * 2 ^ 16 + uint b2 * 2 ^ 8 + uint b3 = int (length (frame m)) - 4"
proof -
  define k where "k = length (hm_buffer m) + HEADER_COOKIE_LENGTH"
  define n where "n = (of_nat k :: u32)"
  have "uint n = int k" "k < 2 ^ 24" using assms by (simp_all add: n_def fits_def k_def [symmetric] unsigned_of_nat take_bit_nat_eq_self)
  then have u: "uint n = int (length (frame m)) - 4" "uint n < 2 ^ 24" by (simp_all add: k_def length_frame HEADER_COOKIE_LENGTH_def)
  have byte: "uint (ucast (drop_bit k n) :: byte) = uint n div 2 ^ k mod 2 ^ 8" for k
    by (simp only: unsigned_ucast_eq unsigned_drop_bit_eq) (use uint_lt2p [of n] in \<open>simp add: drop_bit_eq_div take_bit_eq_mod\<close>)
  have byte0: "uint (ucast n :: byte) = uint n mod 2 ^ 8" using byte [of 0] by simp
  have z: "(ucast (drop_bit 24 n) :: byte) = 0"
  proof -
    have "uint n div 2 ^ 24 = 0" using u(2) uint_ge_0 [of n] by (intro div_pos_pos_trivial) simp_all
    then have "uint (ucast (drop_bit 24 n) :: byte) = 0" unfolding byte by simp
    then show ?thesis by (simp only: uint_0_iff)
  qed
  have "take 4 (frame m) = [0, ucast (drop_bit 16 n), ucast (drop_bit 8 n), ucast n]"
    by (simp add: frame_def k_def [symmetric] n_def [symmetric] to_bigendian_def byte_simps z)
  moreover have "uint (ucast (drop_bit 16 n) :: byte) * 2 ^ 16 + uint (ucast (drop_bit 8 n) :: byte) * 2 ^ 8 + uint (ucast n :: byte) = int (length (frame m)) - 4"
    unfolding byte byte0 u(1) [symmetric] by (rule three_bytes [OF uint_ge_0 u(2)])
  ultimately show ?thesis by (rule that)
qed


section \<open>Receiving\<close>

text \<open>The connection has received the first \<open>k\<close> bytes of the package of \<open>m\<close>.\<close>

definition link_at :: "slave \<Rightarrow> harbor_msg \<Rightarrow> nat \<Rightarrow> bool" where
  "link_at s m k \<longleftrightarrow>
     (if k < 4 then sl_status s = STATUS_HEADER \<and> sl_read s = int k \<and> take k (sl_size s) = take k (frame m)
      else sl_status s = STATUS_CONTENT \<and> sl_read s = int (k - 4) \<and> sl_length s = int (length (frame m)) - 4 \<and> take (k - 4) (sl_recv s) = take (k - 4) (drop 4 (frame m)))"

text \<open>What data does to a state: the calls of the messages, and nothing else but the connection changes.\<close>

definition delivers :: "(call \<Rightarrow> int) \<Rightarrow> nat \<Rightarrow> harbor_msg list \<Rightarrow> harbor \<Rightarrow> harbor \<Rightarrow> bool" where
  "delivers answer i ds h h' \<longleftrightarrow> hb_calls h' = hb_calls h @ concat (map (local_calls answer (hb_id h)) ds) \<and> hb_id h' = hb_id h \<and> hb_slave h' = hb_slave h \<and> hb_map h' = hb_map h \<and>
     sl_fd (hb_s h' i) = sl_fd (hb_s h i) \<and> sl_queue (hb_s h' i) = sl_queue (hb_s h i) \<and> (\<forall>j. j \<noteq> i \<longrightarrow> hb_s h' j = hb_s h j)"

lemma delivers_trans: "delivers answer i ds h h1 \<Longrightarrow> delivers answer i es h1 h2 \<Longrightarrow> delivers answer i (ds @ es) h h2"
  by (simp add: delivers_def)

text \<open>One turn of the loop takes what is missing of the package, or all there is.\<close>

definition taken :: "(call \<Rightarrow> int) \<Rightarrow> nat \<Rightarrow> harbor_msg \<Rightarrow> nat \<Rightarrow> byte list \<Rightarrow> harbor \<Rightarrow> (harbor \<times> byte list option) option \<Rightarrow> bool" where
  "taken answer i m k b h r \<longleftrightarrow>
     (\<exists>h'. if k + length b < length (frame m) then r = Some (h', None) \<and> delivers answer i [] h h' \<and> link_at (hb_s h' i) m (k + length b)
       else r = Some (h', let rest = drop (length (frame m) - k) b in if rest = [] then None else Some rest) \<and> delivers answer i [m] h h' \<and> (\<forall>m'. link_at (hb_s h' i) m' 0))"

lemma take_more: "take k xs = take k f \<Longrightarrow> b = take n (drop k f) \<Longrightarrow> take k xs @ b = take (k + n) f"
  by (simp add: take_add)

lemma content_taken:
  assumes at: "link_at (hb_s h i) m k" "4 \<le> k" "k < length (frame m)" and b: "drop k (frame m) @ cs = b @ ds"
  shows "taken answer i m k b h (data_content answer h i b)"
proof -
  define s where "s = hb_s h i"
  obtain j where k: "k = j + 4" using at(2) that [of "k - 4"] by simp
  have s: "sl_read s = int j" "sl_length s = int (length (frame m)) - 4" "take j (sl_recv s) = take j (drop 4 (frame m))"
    using at by (simp_all add: link_at_def s_def k)
  define need where "need = length (frame m) - k"
  have need: "int (length (frame m)) - 4 - int j = int need" using at(3) by (simp add: need_def k)
  show ?thesis
  proof (cases "k + length b < length (frame m)")
    case True
    define s' where "s' = s\<lparr>sl_recv := take j (sl_recv s) @ b, sl_read := int j + int (length b)\<rparr>"
    have "data_content answer h i b = Some (set_slave i s' h, None)"
      using True need by (simp add: data_content_def s_def [symmetric] s s'_def need_def)
    moreover have "b = take (length b) (drop j (drop 4 (frame m)))" using arg_cong [OF b, of "take (length b)"] True k by (simp add: add.commute)
    then have "take j (sl_recv s) @ b = take (j + length b) (drop 4 (frame m))" by (rule take_more [OF s(3)])
    then have "link_at s' m (k + length b)" using s at by (simp add: link_at_def s'_def s_def [symmetric] k)
    ultimately show ?thesis using True by (auto simp: taken_def delivers_def s'_def s_def)
  next
    case False
    define s' where "s' = s\<lparr>sl_length := 0, sl_read := 0, sl_recv := [], sl_status := STATUS_HEADER\<rparr>"
    have t: "take need b = drop k (frame m)" using arg_cong [OF b, of "take need"] False at(3) by (simp add: need_def)
    have "take j (sl_recv s) @ take need b = take j (drop 4 (frame m)) @ drop j (drop 4 (frame m))" using s(3) t k by (simp add: add.commute)
    then have msg: "take j (sl_recv s) @ take need b = drop 4 (frame m)" by (simp only: append_take_drop_id)
    have "\<not> int (length b) < int need" "int j \<le> int (length (frame m)) - 4" using False at(3) by (simp_all add: need_def k)
    then have "data_content answer h i b = Some (set_slave i s' (h\<lparr>hb_calls := hb_calls h @ local_calls answer (hb_id h) m\<rparr>), if drop need b = [] then None else Some (drop need b))"
      by (simp add: data_content_def s_def [symmetric] s(1,2) need msg forward_frame Let_def s'_def)
    then show ?thesis using False by (auto simp: taken_def delivers_def s'_def s_def link_at_def need_def Let_def)
  qed
qed

lemma header_taken:
  assumes at: "link_at (hb_s h i) m k" "k < 4" and m: "fits m" and b: "drop k (frame m) @ cs = b @ ds"
  shows "taken answer i m k b h (data_from_header answer h i b)"
proof -
  define s where "s = hb_s h i"
  have s: "sl_status s = STATUS_HEADER" "sl_read s = int k" "take k (sl_size s) = take k (frame m)" using at by (simp_all add: link_at_def s_def)
  have lf: "16 \<le> length (frame m)" by (simp add: length_frame)
  show ?thesis
  proof (cases "k + length b < 4")
    case True
    define s' where "s' = s\<lparr>sl_size := take k (sl_size s) @ b, sl_read := int k + int (length b)\<rparr>"
    have "data_from_header answer h i b = Some (set_slave i s' h, None)"
      using True at(2) by (simp add: data_from_header_def data_header_def s_def [symmetric] s(2) s'_def)
    moreover have "b = take (length b) (drop k (frame m))" using arg_cong [OF b, of "take (length b)"] True lf by simp
    then have "take k (sl_size s) @ b = take (k + length b) (frame m)" by (rule take_more [OF s(3)])
    then have "link_at s' m (k + length b)" using s True by (simp add: link_at_def s'_def)
    ultimately show ?thesis using True lf by (auto simp: taken_def delivers_def s'_def s_def)
  next
    case False
    obtain b1 b2 b3 where f: "take 4 (frame m) = [0, b1, b2, b3]" "uint b1 * 2 ^ 16 + uint b2 * 2 ^ 8 + uint b3 = int (length (frame m)) - 4"
      using frame_length_bytes [OF m] .
    have "take (4 - k) b = take (4 - k) (drop k (frame m))" using arg_cong [OF b, of "take (4 - k)"] False at(2) lf by simp
    then have size4: "take k (sl_size s) @ take (4 - k) b = [0, b1, b2, b3]" using take_more [OF s(3), of "take (4 - k) b" "4 - k"] at(2) f(1) by simp
    define s1 where "s1 = s\<lparr>sl_size := [0, b1, b2, b3], sl_length := int (length (frame m)) - 4, sl_read := 0, sl_recv := [], sl_status := STATUS_CONTENT\<rparr>"
    define h1 where "h1 = set_slave i s1 h"
    have n4: "nat (4 - int k) = 4 - k" using at(2) by (simp add: nat_diff_distrib)
    have hd: "data_header h i b = Some (h1, if drop (4 - k) b = [] then None else Some (drop (4 - k) b))"
      using False at(2) f(2) by (simp add: data_header_def s_def [symmetric] s(2) n4 size4 h1_def s1_def Let_def)
    have at1: "link_at (hb_s h1 i) m 4" by (simp add: link_at_def h1_def s1_def)
    have d1: "delivers answer i [] h h1" by (simp add: delivers_def h1_def s1_def s_def)
    show ?thesis
    proof (cases "drop (4 - k) b = []")
      case True
      then have "k + length b = 4" using False at(2) by simp
      then show ?thesis using hd True d1 at1 lf by (auto simp: data_from_header_def taken_def)
    next
      case rest: False
      have "drop 4 (frame m) @ cs = drop (4 - k) b @ ds" using arg_cong [OF b, of "drop (4 - k)"] False at(2) lf by simp
      then have t: "taken answer i m 4 (drop (4 - k) b) h1 (data_content answer h1 i (drop (4 - k) b))" using at1 lf by (intro content_taken) simp_all
      have eq: "data_from_header answer h i b = data_content answer h1 i (drop (4 - k) b)" using hd rest by (simp add: data_from_header_def)
      have l: "4 + length (drop (4 - k) b) = k + length b" using False at(2) by simp
      have dr: "drop (length (frame m) - 4) (drop (4 - k) b) = drop (length (frame m) - k) b" using at(2) lf by simp
      show ?thesis using t delivers_trans [OF d1] unfolding taken_def eq l dr by fastforce
    qed
  qed
qed

text \<open>The connection waits for the bytes \<open>st\<close>, the rest of the packages of \<open>ms\<close>.\<close>

definition waiting :: "slave \<Rightarrow> harbor_msg list \<Rightarrow> byte list \<Rightarrow> bool" where
  "waiting s ms st \<longleftrightarrow>
     (case ms of
        [] \<Rightarrow> st = [] \<and> (\<forall>m. link_at s m 0)
      | m # ms' \<Rightarrow> \<exists>k < length (frame m). link_at s m k \<and> st = drop k (frame m) @ concat (map frame ms'))"

lemma waiting_start: "(\<forall>m. link_at s m 0) \<Longrightarrow> waiting s ms (concat (map frame ms))"
  by (cases ms) (auto simp: waiting_def length_frame intro!: exI [of _ 0])

lemma waiting_end: "waiting s ms [] \<Longrightarrow> ms = []"
  by (cases ms) (auto simp: waiting_def)

lemma waiting_status: "waiting s ms st \<Longrightarrow> sl_status s = STATUS_HEADER \<or> sl_status s = STATUS_CONTENT"
  by (cases ms) (auto simp: waiting_def link_at_def split: if_splits)

lemma push_loop_waiting:
  assumes "waiting (hb_s h i) ms (b @ st)" "b \<noteq> []" "\<forall>m \<in> set ms. fits m"
  shows "\<exists>h' ds ms'. ms = ds @ ms' \<and> push_loop answer fd h i b = Some h' \<and> delivers answer i ds h h' \<and> waiting (hb_s h' i) ms' st"
  using assms
proof (induction ms arbitrary: h b)
  case Nil
  then show ?case by (simp add: waiting_def)
next
  case (Cons m ms)
  obtain k where k: "k < length (frame m)" "link_at (hb_s h i) m k" "drop k (frame m) @ concat (map frame ms) = b @ st" using Cons.prems(1) by (auto simp: waiting_def)
  have "taken answer i m k b h (push_step answer fd h i b)"
  proof (cases "k < 4")
    case True
    then have "sl_status (hb_s h i) = STATUS_HEADER" using k(2) by (simp add: link_at_def)
    then show ?thesis using header_taken [OF k(2) True _ k(3)] Cons.prems(3) by (simp add: push_step_def harbor_status)
  next
    case False
    then have "sl_status (hb_s h i) = STATUS_CONTENT" using k(2) by (simp add: link_at_def)
    then show ?thesis using content_taken [OF k(2) _ k(1,3)] False by (simp add: push_step_def harbor_status)
  qed
  then obtain h' where t: "if k + length b < length (frame m) then push_step answer fd h i b = Some (h', None) \<and> delivers answer i [] h h' \<and> link_at (hb_s h' i) m (k + length b)
      else push_step answer fd h i b = Some (h', let rest = drop (length (frame m) - k) b in if rest = [] then None else Some rest) \<and> delivers answer i [m] h h' \<and> (\<forall>m'. link_at (hb_s h' i) m' 0)"
    unfolding taken_def by blast
  show ?case
  proof (cases "k + length b < length (frame m)")
    case True
    then have "push_loop answer fd h i b = Some h'" using t by (subst push_loop.simps) simp
    moreover have "st = drop (k + length b) (frame m) @ concat (map frame ms)"
      using arg_cong [OF k(3), of "drop (length b)"] True by (simp add: add.commute)
    then have "waiting (hb_s h' i) (m # ms) st" using t True by (auto simp: waiting_def)
    ultimately show ?thesis using t True by (intro exI [of _ h'] exI [of _ "[]"] exI [of _ "m # ms"]) simp
  next
    case False
    define rest where "rest = drop (length (frame m) - k) b"
    have st: "push_step answer fd h i b = Some (h', if rest = [] then None else Some rest)" "delivers answer i [m] h h'" "\<forall>m'. link_at (hb_s h' i) m' 0"
      using t False by (simp_all add: rest_def Let_def)
    have c: "concat (map frame ms) = rest @ st" using arg_cong [OF k(3), of "drop (length (frame m) - k)"] False k(1) by (simp add: rest_def)
    have w: "waiting (hb_s h' i) ms (rest @ st)" using waiting_start [OF st(3), of ms] c by simp
    show ?thesis
    proof (cases "rest = []")
      case True
      then have "push_loop answer fd h i b = Some h'" using st(1) by (subst push_loop.simps) simp
      then show ?thesis using st(2) w True by (intro exI [of _ h'] exI [of _ "[m]"] exI [of _ ms]) simp
    next
      case rest: False
      obtain h2 ds ms' where "ms = ds @ ms'" "push_loop answer fd h' i rest = Some h2" "delivers answer i ds h' h2" "waiting (hb_s h2 i) ms' st"
        using Cons.IH [OF w rest] Cons.prems(3) by auto
      moreover have "push_loop answer fd h i b = push_loop answer fd h' i rest" using st(1) rest by (subst push_loop.simps) simp
      ultimately show ?thesis using delivers_trans [OF st(2)] by (intro exI [of _ h2] exI [of _ "m # ds"] exI [of _ ms']) auto
    qed
  qed
qed

text \<open>A run of data messages of one connection.\<close>

definition data_message :: "int \<Rightarrow> byte list \<Rightarrow> socket_message" where
  "data_message fd b = \<lparr>m_type = SKYNET_SOCKET_TYPE_DATA, m_id = fd, m_ud = int (length b), m_buffer = b, m_tail = []\<rparr>"

fun receive :: "(call \<Rightarrow> int) \<Rightarrow> int \<Rightarrow> byte list list \<Rightarrow> harbor \<Rightarrow> harbor option" where
  "receive answer fd [] h = Some h"
| "receive answer fd (b # bs) h = do {
     h1 \<leftarrow> harbor_mainloop answer h PTYPE_SOCKET 0 0 (HSocket (data_message fd b));
     receive answer fd bs h1 }"

text \<open>The sends to services and the reports, without the calls that manage memory and sockets.\<close>

definition spoken :: "call list \<Rightarrow> call list" where
  "spoken = filter (\<lambda>e. case e of Send _ _ _ _ _ \<Rightarrow> True | Error _ \<Rightarrow> True | _ \<Rightarrow> False)"

lemma spoken_simps [simp]:
  "spoken [] = []" "spoken (xs @ ys) = spoken xs @ spoken ys" "spoken (FreeBuffer b # es) = spoken es" "spoken (SocketSend fd b # es) = spoken es"
  "spoken (local_calls answer i m) = local_calls answer i m"
  by (simp_all add: spoken_def local_calls_def Let_def)

lemma spoken_concat: "spoken (concat (map (local_calls answer i) ms)) = concat (map (local_calls answer i) ms)"
  by (induction ms) simp_all

abbreviation link_of :: "harbor \<Rightarrow> int \<Rightarrow> nat option" where
  "link_of h fd \<equiv> find (\<lambda>i. sl_fd (hb_s h i) = fd) [1..<REMOTE_MAX]"

lemma delivers_link: "delivers answer i ds h h' \<Longrightarrow> link_of h' fd = link_of h fd"
proof -
  assume d: "delivers answer i ds h h'"
  have "sl_fd (hb_s h' j) = sl_fd (hb_s h j)" for j using d by (cases "j = i") (auto simp: delivers_def)
  then show ?thesis by simp
qed

lemma receive_step:
  assumes "link_of h fd = Some i" "push_loop answer fd h i b = Some h'"
  shows "harbor_mainloop answer h PTYPE_SOCKET 0 0 (HSocket (data_message fd b)) = Some (hcall (FreeBuffer b) h')"
  using assms by (simp add: harbor_mainloop_def harbor_socket_def push_socket_data_def data_message_def)

lemma receive_waiting:
  assumes "waiting (hb_s h i) ms (concat bs)" "\<forall>b \<in> set bs. b \<noteq> []" "\<forall>m \<in> set ms. fits m" "link_of h fd = Some i"
  shows "\<exists>h'. receive answer fd bs h = Some h' \<and> spoken (hb_calls h') = spoken (hb_calls h) @ concat (map (local_calls answer (hb_id h)) ms)"
  using assms
proof (induction bs arbitrary: h ms)
  case Nil
  then have "ms = []" using waiting_end by simp
  then show ?case by simp
next
  case (Cons b bs)
  obtain h1 ds ms' where p: "ms = ds @ ms'" "push_loop answer fd h i b = Some h1" "delivers answer i ds h h1" "waiting (hb_s h1 i) ms' (concat bs)"
    using push_loop_waiting [of h i ms b "concat bs" answer fd] Cons.prems by auto
  define h2 where "h2 = hcall (FreeBuffer b) h1"
  have "link_of h2 fd = Some i" using delivers_link [OF p(3)] Cons.prems(4) by (simp add: h2_def)
  then obtain h' where h': "receive answer fd bs h2 = Some h'" "spoken (hb_calls h') = spoken (hb_calls h2) @ concat (map (local_calls answer (hb_id h2)) ms')"
    using Cons.IH [of h2 ms'] Cons.prems(2,3) p by (auto simp: h2_def)
  moreover have "receive answer fd (b # bs) h = receive answer fd bs h2" using receive_step [OF Cons.prems(4) p(2)] by (simp add: h2_def)
  ultimately show ?case using p(1,3) by (simp add: h2_def delivers_def spoken_concat)
qed

section \<open>Sending\<close>

text \<open>The messages that wait for the connection, with room for \<open>n\<close> more.\<close>

definition held :: "slave \<Rightarrow> harbor_msg list \<Rightarrow> nat \<Rightarrow> bool" where
  "held s ms n \<longleftrightarrow> (case sl_queue s of None \<Rightarrow> ms = [] \<and> n < 2 ^ 29 | Some q \<Rightarrow> hq_wf q \<and> hq_list q = ms \<and> hq_room n q)"

definition sent :: "int \<Rightarrow> call list \<Rightarrow> byte list" where
  "sent fd es = concat (map (\<lambda>e. case e of SocketSend f b \<Rightarrow> if f = fd then b else [] | _ \<Rightarrow> []) es)"

lemma sent_simps [simp]:
  "sent fd [] = []" "sent fd (xs @ ys) = sent fd xs @ sent fd ys" "sent fd (SocketSend fd b # es) = b @ sent fd es" "sent fd (FreeBuffer b # es) = sent fd es"
  "sent fd (SocketStart i # es) = sent fd es"
  by (simp_all add: sent_def)

definition wired :: "int \<Rightarrow> harbor_msg \<Rightarrow> call list" where
  "wired fd m = [SocketSend fd (frame m), FreeBuffer (hm_buffer m)]"

lemma wired_simps [simp]: "sent fd (concat (map (wired fd) ms)) = concat (map frame ms)" "spoken (concat (map (wired fd) ms)) = []"
  by (induction ms) (simp_all add: wired_def)

lemma send_remote_frame: "fits m \<Longrightarrow> send_remote fd (hm_buffer m) (hm_header m) h = Some (hcall (SocketSend fd (frame m)) h)"
  by (simp add: send_remote_def frame_def fits_def HEADER_COOKIE_LENGTH_def Let_def)

lemma send_queued_spec: "\<forall>m \<in> set ms. fits m \<Longrightarrow> send_queued fd 0 ms h = Some (h\<lparr>hb_calls := hb_calls h @ concat (map (wired fd) ms)\<rparr>)"
  by (induction ms arbitrary: h) (simp_all add: send_remote_frame hcall_def wired_def)

lemma dispatch_queue_spec:
  assumes "sl_fd (hb_s h i) \<noteq> 0" "held (hb_s h i) ms n" "\<forall>m \<in> set ms. fits m"
  shows "dispatch_queue h i = Some (set_slave i ((hb_s h i)\<lparr>sl_queue := None\<rparr>) (h\<lparr>hb_calls := hb_calls h @ concat (map (wired (sl_fd (hb_s h i))) ms)\<rparr>))"
proof (cases "sl_queue (hb_s h i)")
  case None
  then have "hb_s h i = (hb_s h i)\<lparr>sl_queue := None\<rparr>" by (cases "hb_s h i") simp
  then have "set_slave i ((hb_s h i)\<lparr>sl_queue := None\<rparr>) h = h" unfolding set_slave_def by (simp add: fun_upd_idem del: slave.surjective)
  then show ?thesis using assms None by (simp add: dispatch_queue_def held_def)
next
  case (Some q)
  then obtain q' where q': "pop_all q = Some (ms, q')" "hq_wf q'" "hq_list q' = []" using assms(2) pop_all_spec [of q] by (auto simp: held_def)
  then show ?thesis using assms Some by (simp add: dispatch_queue_def send_queued_spec release_empty Let_def)
qed


text \<open>Messages to other nodes, as the core hands them to the service: type, session, source and the rest.\<close>

type_synonym outgoing = "int \<times> int \<times> u32 \<times> out_message"

fun run_out :: "(call \<Rightarrow> int) \<Rightarrow> outgoing list \<Rightarrow> harbor \<Rightarrow> harbor option" where
  "run_out answer [] h = Some h"
| "run_out answer ((ty, session, source, rmsg) # outs) h = do {
     h1 \<leftarrow> harbor_mainloop answer h ty session source (HRemote rmsg);
     run_out answer outs h1 }"

definition good_out :: "nat \<Rightarrow> outgoing \<Rightarrow> bool" where
  "good_out j = (\<lambda>(ty, session, source, rmsg). ty \<noteq> PTYPE_SOCKET \<and> ty \<noteq> PTYPE_HARBOR \<and> 0 \<le> ty \<and> ty < 256 \<and> - (2 ^ 31) \<le> session \<and> session < 2 ^ 31 \<and>
     o_handle rmsg \<noteq> 0 \<and> unat (drop_bit HANDLE_REMOTE_SHIFT (o_handle rmsg)) = j \<and> length (o_message rmsg) + HEADER_COOKIE_LENGTH < 2 ^ 24)"

definition msg_of :: "outgoing \<Rightarrow> harbor_msg" where
  "msg_of = (\<lambda>(ty, session, source, rmsg). \<lparr>hm_header = remote_header source (o_handle rmsg) ty session, hm_buffer = o_message rmsg\<rparr>)"

definition delivery :: "outgoing \<Rightarrow> call" where
  "delivery = (\<lambda>(ty, session, source, rmsg). Send source (o_handle rmsg) (dontcopy ty) session (o_message rmsg))"

lemma good_fits: "good_out j p \<Longrightarrow> fits (msg_of p)"
  by (auto simp: good_out_def fits_def msg_of_def)

text \<open>Before the connection is there the messages wait in order.\<close>

lemma queue_out:
  assumes "sl_fd (hb_s h j) = 0" "sl_status (hb_s h j) = STATUS_WAIT" "int j \<noteq> hb_id h" "held (hb_s h j) ms (length outs)" "\<forall>p \<in> set outs. good_out j p"
  shows "\<exists>q. run_out answer outs h = Some (set_slave j ((hb_s h j)\<lparr>sl_queue := q\<rparr>) h) \<and> held ((hb_s h j)\<lparr>sl_queue := q\<rparr>) (ms @ map msg_of outs) 0"
  using assms
proof (induction outs arbitrary: h ms)
  case Nil
  have "set_slave j ((hb_s h j)\<lparr>sl_queue := sl_queue (hb_s h j)\<rparr>) h = h" by (simp add: set_slave_def)
  then show ?case using Nil.prems(4) by (intro exI [of _ "sl_queue (hb_s h j)"]) simp
next
  case (Cons p outs)
  obtain ty session source rmsg where p: "p = (ty, session, source, rmsg)" by (cases p)
  have g: "ty \<noteq> PTYPE_SOCKET" "ty \<noteq> PTYPE_HARBOR" "o_handle rmsg \<noteq> 0" "unat (drop_bit HANDLE_REMOTE_SHIFT (o_handle rmsg)) = j"
    using Cons.prems(5) p by (auto simp: good_out_def)
  define q0 where "q0 = (case sl_queue (hb_s h j) of None \<Rightarrow> new_queue | Some q \<Rightarrow> q)"
  have q0: "hq_wf q0" "hq_list q0 = ms" "hq_room (Suc (length outs)) q0" using Cons.prems(4) new_queue_wf by (auto simp: q0_def held_def split: option.splits)
  obtain q1 where q1: "push_queue_msg (msg_of p) q0 = Some q1" "hq_wf q1" "hq_room (length outs) q1" "hq_list q1 = ms @ [msg_of p]"
    using push_queue_spec [OF q0(1,3), of "msg_of p"] q0(2) by auto
  define h1 where "h1 = set_slave j ((hb_s h j)\<lparr>sl_queue := Some q1\<rparr>) h"
  have step: "harbor_mainloop answer h ty session source (HRemote rmsg) = Some h1"
    using g Cons.prems(1-3) q1(1) p by (simp add: harbor_mainloop_def harbor_out_def remote_send_handle_def harbor_status q0_def [symmetric] push_queue_def msg_of_def h1_def)
  have "held (hb_s h1 j) (ms @ [msg_of p]) (length outs)" using q1 by (simp add: h1_def held_def)
  then obtain q where "run_out answer outs h1 = Some (set_slave j ((hb_s h1 j)\<lparr>sl_queue := q\<rparr>) h1)" "held ((hb_s h1 j)\<lparr>sl_queue := q\<rparr>) ((ms @ [msg_of p]) @ map msg_of outs) 0"
    using Cons.IH [of h1 "ms @ [msg_of p]"] Cons.prems by (auto simp: h1_def)
  then show ?case using step p by (intro exI [of _ q]) (simp add: h1_def set_slave_def)
qed

text \<open>Afterwards they are written at once.\<close>

lemma direct_out:
  assumes "sl_fd (hb_s h j) \<noteq> 0" "sl_status (hb_s h j) \<noteq> STATUS_HANDSHAKE" "int j \<noteq> hb_id h" "\<forall>p \<in> set outs. good_out j p"
  shows "run_out answer outs h = Some (h\<lparr>hb_calls := hb_calls h @ concat (map (wired (sl_fd (hb_s h j)) \<circ> msg_of) outs)\<rparr>)"
  using assms
proof (induction outs arbitrary: h)
  case (Cons p outs)
  obtain ty session source rmsg where p: "p = (ty, session, source, rmsg)" by (cases p)
  have g: "ty \<noteq> PTYPE_SOCKET" "ty \<noteq> PTYPE_HARBOR" "o_handle rmsg \<noteq> 0" "unat (drop_bit HANDLE_REMOTE_SHIFT (o_handle rmsg)) = j" "fits (msg_of p)"
    using Cons.prems(4) p good_fits [of j p] by (auto simp: good_out_def)
  define h1 where "h1 = h\<lparr>hb_calls := hb_calls h @ wired (sl_fd (hb_s h j)) (msg_of p)\<rparr>"
  have "harbor_mainloop answer h ty session source (HRemote rmsg) = Some h1"
    using g Cons.prems(1-3) send_remote_frame [OF g(5), of "sl_fd (hb_s h j)" h] p
    by (simp add: harbor_mainloop_def harbor_out_def remote_send_handle_def msg_of_def h1_def wired_def hcall_def)
  then show ?case using Cons.IH [of h1] Cons.prems p by (simp add: h1_def)
qed simp

section \<open>A connection between two nodes\<close>

lemma link_at_0: "link_at s m 0 \<longleftrightarrow> sl_status s = STATUS_HEADER \<and> sl_read s = 0"
  by (simp add: link_at_def)

lemma push_loop_header: "sl_status (hb_s h i) = STATUS_HEADER \<Longrightarrow> push_loop answer fd h i b = (data_from_header answer h i b \<bind> (\<lambda>(h1, r). case r of None \<Rightarrow> Some h1 | Some rest \<Rightarrow> push_loop answer fd h1 i rest))"
  by (subst push_loop.simps) (simp add: push_step_def harbor_status)

lemma push_loop_empty:
  assumes "sl_status (hb_s h i) = STATUS_HEADER" "sl_read (hb_s h i) = 0"
  shows "\<exists>h'. push_loop answer fd h i [] = Some h' \<and> delivers answer i [] h h' \<and> sl_status (hb_s h' i) = STATUS_HEADER \<and> sl_read (hb_s h' i) = 0"
  using assms by (auto simp: push_loop_header data_from_header_def data_header_def delivers_def)

text \<open>The first byte of a connection that was asked for is the id of the other node; then the messages that wait for it are sent.\<close>

lemma handshake_loop:
  assumes s: "sl_status (hb_s h i) = STATUS_HANDSHAKE" "sl_read (hb_s h i) = 0" "sl_fd (hb_s h i) \<noteq> 0" "held (hb_s h i) qs n" "\<forall>m \<in> set qs. fits m" and i: "i < 256"
  shows "\<exists>h1. push_loop answer fd h i (of_nat i # b) = push_loop answer fd h1 i b \<and> spoken (hb_calls h1) = spoken (hb_calls h) \<and> sl_status (hb_s h1 i) = STATUS_HEADER \<and>
    sl_read (hb_s h1 i) = 0 \<and> hb_id h1 = hb_id h \<and> link_of h1 fd = link_of h fd"
proof -
  define h0 where "h0 = set_slave i ((hb_s h i)\<lparr>sl_status := STATUS_HEADER\<rparr>) h"
  have "sl_fd (hb_s h0 i) \<noteq> 0" "held (hb_s h0 i) qs n" using s by (simp_all add: h0_def held_def)
  note d = dispatch_queue_spec [OF this s(5)]
  define h1 where "h1 = set_slave i ((hb_s h0 i)\<lparr>sl_queue := None\<rparr>) (h0\<lparr>hb_calls := hb_calls h0 @ concat (map (wired (sl_fd (hb_s h0 i))) qs)\<rparr>)"
  have st: "sl_status (hb_s h1 i) = STATUS_HEADER" "sl_read (hb_s h1 i) = 0" "hb_id h1 = hb_id h" "spoken (hb_calls h1) = spoken (hb_calls h)"
    using s(2) by (simp_all add: h1_def h0_def)
  have "sl_fd (hb_s h1 j) = sl_fd (hb_s h j)" for j by (simp add: h1_def h0_def)
  then have lk: "link_of h1 fd = link_of h fd" by simp
  have "unat (of_nat i :: byte) = i" using i by (simp add: unsigned_of_nat take_bit_nat_eq_self)
  then have "data_handshake fd h i (of_nat i # b) = Some (h1, Some b)" using d by (simp add: data_handshake_def h0_def [symmetric] h1_def)
  then have "push_step answer fd h i (of_nat i # b) = (if b = [] then Some (h1, Some []) else data_from_header answer h1 i b)" using s(1) by (simp add: push_step_def)
  then have "push_loop answer fd h i (of_nat i # b) = push_loop answer fd h1 i b" using push_loop_header [OF st(1)] by (subst push_loop.simps) auto
  then show ?thesis using st lk by blast
qed

lemma receive_handshake:
  assumes s: "sl_status (hb_s h i) = STATUS_HANDSHAKE" "sl_read (hb_s h i) = 0" "sl_fd (hb_s h i) \<noteq> 0" "held (hb_s h i) qs n" "\<forall>m \<in> set qs. fits m" and i: "i < 256"
    and ms: "\<forall>m \<in> set ms. fits m" and lk: "link_of h fd = Some i" and bs: "concat bs = of_nat i # concat (map frame ms)" "\<forall>b \<in> set bs. b \<noteq> []"
  shows "\<exists>h'. receive answer fd bs h = Some h' \<and> spoken (hb_calls h') = spoken (hb_calls h) @ concat (map (local_calls answer (hb_id h)) ms)"
proof -
  obtain b bs' where b: "bs = (of_nat i # b) # bs'" "b @ concat bs' = concat (map frame ms)"
  proof (cases bs)
    case (Cons c bs')
    then obtain x b where "c = x # b" using bs(2) by (cases c) auto
    then show ?thesis using that [of b bs'] bs(1) Cons by simp
  qed (use bs in simp)
  obtain h1 where h1: "push_loop answer fd h i (of_nat i # b) = push_loop answer fd h1 i b" "spoken (hb_calls h1) = spoken (hb_calls h)" "sl_status (hb_s h1 i) = STATUS_HEADER"
      "sl_read (hb_s h1 i) = 0" "hb_id h1 = hb_id h" "link_of h1 fd = link_of h fd" using handshake_loop [OF s i] by blast
  have w: "waiting (hb_s h1 i) ms (b @ concat bs')" unfolding b(2) using h1(3,4) by (intro waiting_start) (simp add: link_at_0)
  obtain h2 ds ms' where h2: "ms = ds @ ms'" "push_loop answer fd h1 i b = Some h2" "delivers answer i ds h1 h2" "waiting (hb_s h2 i) ms' (concat bs')"
  proof (cases "b = []")
    case True
    obtain h2 where "push_loop answer fd h1 i [] = Some h2" "delivers answer i [] h1 h2" "sl_status (hb_s h2 i) = STATUS_HEADER" "sl_read (hb_s h2 i) = 0"
      using push_loop_empty [OF h1(3,4)] by blast
    moreover from this have "waiting (hb_s h2 i) ms (concat bs')" using b(2) True waiting_start [of "hb_s h2 i" ms] by (simp add: link_at_0)
    ultimately show ?thesis using that [of "[]" ms h2] True by simp
  next
    case False
    then show ?thesis using push_loop_waiting [OF w False ms, of answer fd] that by blast
  qed
  define h3 where "h3 = hcall (FreeBuffer (of_nat i # b)) h2"
  have "link_of h3 fd = Some i" using delivers_link [OF h2(3)] h1(6) lk by (simp add: h3_def)
  then obtain h' where "receive answer fd bs' h3 = Some h'" "spoken (hb_calls h') = spoken (hb_calls h3) @ concat (map (local_calls answer (hb_id h3)) ms')"
    using receive_waiting [of h3 i ms' bs' fd answer] h2(1,4) ms bs(2) b(1) by (auto simp: h3_def)
  moreover have "receive answer fd bs h = receive answer fd bs' h3" using receive_step [OF lk] h1(1) h2(2) b(1) by (simp add: h3_def)
  ultimately show ?thesis using h2(1,3) h1(2,5) by (simp add: h3_def delivers_def spoken_concat)
qed

lemma handle_parts:
  fixes handle :: u32
  assumes "unat (drop_bit HANDLE_REMOTE_SHIFT handle) = j" "0 \<le> ty" "ty < 256"
  defines "d \<equiv> push_bit HANDLE_REMOTE_SHIFT (of_int ty) OR (handle AND HANDLE_MASK)"
  shows "uint (drop_bit HANDLE_REMOTE_SHIFT d) = ty" "(d AND HANDLE_MASK) OR push_bit HANDLE_REMOTE_SHIFT (of_int (int j)) = handle"
proof -
  have mask: "HANDLE_MASK = mask 24" by (simp add: HANDLE_MASK_def mask_eq_exp_minus_1)
  have j: "(of_int (int j) :: u32) = drop_bit 24 handle" using assms(1) by (auto simp: HANDLE_REMOTE_SHIFT_def)
  have "uint (of_int ty :: u32) = ty" using assms(2,3) by (simp add: unsigned_of_int take_bit_int_eq_self)
  then have small: "(of_int ty :: u32) = take_bit 8 (of_int ty)" using assms(2,3) by (simp add: word_uint_eq_iff unsigned_take_bit_eq take_bit_int_eq_self)
  have "drop_bit 24 d = of_int ty"
    unfolding d_def mask HANDLE_REMOTE_SHIFT_def by (subst (2) small, subst small, rule bit_word_eqI) (auto simp: bit_simps)
  then show "uint (drop_bit HANDLE_REMOTE_SHIFT d) = ty" using \<open>uint (of_int ty :: u32) = ty\<close> by (simp add: HANDLE_REMOTE_SHIFT_def)
  have "(d AND mask 24) OR push_bit 24 (drop_bit 24 handle) = handle"
    unfolding d_def mask HANDLE_REMOTE_SHIFT_def by (rule bit_word_eqI) (auto simp: bit_simps, metis le_add_diff_inverse not_less)
  then show "(d AND HANDLE_MASK) OR push_bit HANDLE_REMOTE_SHIFT (of_int (int j)) = handle" using j by (simp add: mask HANDLE_REMOTE_SHIFT_def)
qed

lemma local_calls_delivery:
  assumes "good_out j p" "0 \<le> answer (delivery p)"
  shows "local_calls answer (int j) (msg_of p) = [delivery p]"
proof -
  obtain ty session source rmsg where p: "p = (ty, session, source, rmsg)" by (cases p)
  have g: "unat (drop_bit HANDLE_REMOTE_SHIFT (o_handle rmsg)) = j" "0 \<le> ty" "ty < 256" "- (2 ^ 31) \<le> session" "session < 2 ^ 31" using assms(1) p by (simp_all add: good_out_def)
  have s: "sint (of_int session :: u32) = session" using g(4,5) to_int_id [of session] by (simp add: to_int_def)
  show ?thesis using assms(2) handle_parts [OF g(1-3)] s by (simp add: local_calls_def msg_of_def remote_header_def delivery_def p Let_def)
qed


text \<open>C36: messages between two nodes.  On the first node, services send to handles of the second one, before and after the connection is made; on the command
  that reports the connection, the service sends its own id and then what has waited.  Whatever pieces the second node receives of the bytes that were written,
  it checks the id and hands exactly these messages, each once and in the order they were sent, to the services they are addressed to, with their source, type,
  session and bytes.  (The messages are smaller than 16 MB; the second node may itself have messages waiting for the connection.)\<close>

theorem harbor_link_delivers:
  assumes A: "hb_id hA = int a" "hb_s hA j = slave_zero" "j \<noteq> a" "0 < j" "j < 256" "0 < a" "a < 256"
    and link: "scan_fd_id (cstr txt) = (fd, int j)" "fd \<noteq> 0"
    and outs: "\<forall>p \<in> set (outs1 @ outs2). good_out j p \<and> 0 \<le> answer (delivery p)" "length outs1 < 2 ^ 29"
    and B: "hb_id hB = int j" "sl_status (hb_s hB a) = STATUS_HANDSHAKE" "sl_read (hb_s hB a) = 0" "sl_fd (hb_s hB a) = fdB" "fdB \<noteq> 0" "link_of hB fdB = Some a"
      "held (hb_s hB a) qs n" "\<forall>m \<in> set qs. fits m"
  shows "\<exists>hA1 hA2 hA3. run_out answer outs1 hA = Some hA1 \<and> harbor_mainloop answer hA1 PTYPE_HARBOR 0 0 (HCommand (65 # 32 # txt)) = Some hA2 \<and>
    run_out answer outs2 hA2 = Some hA3 \<and>
    (\<forall>bs. (\<forall>b \<in> set bs. b \<noteq> []) \<and> concat bs = sent fd (drop (length (hb_calls hA)) (hb_calls hA3)) \<longrightarrow>
      (\<exists>hB'. receive answer fdB bs hB = Some hB' \<and> spoken (hb_calls hB') = spoken (hb_calls hB) @ map delivery (outs1 @ outs2)))"
proof -
  have good: "\<forall>p \<in> set outs1. good_out j p" "\<forall>p \<in> set outs2. good_out j p" using outs(1) by auto
  have z: "sl_fd (hb_s hA j) = 0" "sl_status (hb_s hA j) = STATUS_WAIT" "int j \<noteq> hb_id hA" "held (hb_s hA j) [] (length outs1)"
    using A outs(2) by (simp_all add: slave_zero_def held_def)
  obtain q where q: "run_out answer outs1 hA = Some (set_slave j ((hb_s hA j)\<lparr>sl_queue := q\<rparr>) hA)" "held ((hb_s hA j)\<lparr>sl_queue := q\<rparr>) (map msg_of outs1) 0"
    using queue_out [OF z good(1)] by auto
  define s1 where "s1 = (hb_s hA j)\<lparr>sl_queue := q, sl_fd := fd, sl_status := STATUS_HEADER\<rparr>"
  define h1 where "h1 = set_slave j s1 (hA\<lparr>hb_calls := hb_calls hA @ [SocketStart fd, SocketSend fd [of_nat a]]\<rparr>)"
  define h2 where "h2 = set_slave j (s1\<lparr>sl_queue := None\<rparr>) (h1\<lparr>hb_calls := hb_calls h1 @ concat (map (wired fd) (map msg_of outs1))\<rparr>)"
  have fits1: "\<forall>m \<in> set (map msg_of outs1). fits m" using good(1) good_fits by auto
  have p1: "sl_fd (hb_s h1 j) \<noteq> 0" "held (hb_s h1 j) (map msg_of outs1) 0" using q(2) link(2) by (simp_all add: h1_def s1_def held_def)
  have d: "dispatch_queue h1 j = Some h2" using dispatch_queue_spec [OF p1 fits1] by (simp add: h2_def h1_def s1_def)
  have cmd: "harbor_mainloop answer (set_slave j ((hb_s hA j)\<lparr>sl_queue := q\<rparr>) hA) PTYPE_HARBOR 0 0 (HCommand (65 # 32 # txt)) = Some h2"
    using d link A by (simp add: harbor_mainloop_def harbor_command_def harbor_link_def REMOTE_MAX_def PTYPE_SOCKET_def PTYPE_HARBOR_def slave_zero_def handshake_def h1_def s1_def set_slave_def hcall_def)
  define h3 where "h3 = h2\<lparr>hb_calls := hb_calls h2 @ concat (map (wired fd) (map msg_of outs2))\<rparr>"
  have r2: "run_out answer outs2 h2 = Some h3"
    using direct_out [of h2 j outs2 answer] link(2) A(1,3) good(2) by (simp add: h3_def h2_def h1_def s1_def harbor_status)
  have "drop (length (hb_calls hA)) (hb_calls h3) = [SocketStart fd, SocketSend fd [of_nat a]] @ concat (map (wired fd) (map msg_of (outs1 @ outs2)))"
    by (simp add: h3_def h2_def h1_def)
  then have wire: "sent fd (drop (length (hb_calls hA)) (hb_calls h3)) = of_nat a # concat (map frame (map msg_of (outs1 @ outs2)))"
    by (simp only: sent_simps wired_simps append.simps)
  have "\<exists>hB'. receive answer fdB bs hB = Some hB' \<and> spoken (hb_calls hB') = spoken (hb_calls hB) @ map delivery (outs1 @ outs2)"
    if bs: "\<forall>b \<in> set bs. b \<noteq> []" "concat bs = of_nat a # concat (map frame (map msg_of (outs1 @ outs2)))" for bs
  proof -
    have "\<forall>m \<in> set (map msg_of (outs1 @ outs2)). fits m" using good good_fits by auto
    moreover have "concat (map (local_calls answer (int j)) (map msg_of ps)) = map delivery ps" if "\<forall>p \<in> set ps. good_out j p \<and> 0 \<le> answer (delivery p)" for ps
      using that by (induction ps) (simp_all add: local_calls_delivery)
    ultimately show ?thesis using receive_handshake [of hB a qs n "map msg_of (outs1 @ outs2)" fdB bs answer] B A(7) bs outs(1) by metis
  qed
  then show ?thesis using q(1) cmd r2 wire by metis
qed

lemma harbor_link_delivers_witness:
  "\<exists>hA1 hA2 hA3 hB'. run_out (\<lambda>_. 0) [(1, 5, 0x01000008, \<lparr>o_name = [], o_handle = 0x02000009, o_message = [1, 2, 3]\<rparr>)] (harbor_create\<lparr>hb_id := 1\<rparr>) = Some hA1 \<and>
    harbor_mainloop (\<lambda>_. 0) hA1 PTYPE_HARBOR 0 0 (HCommand (65 # 32 # bytes ''7 2'')) = Some hA2 \<and> run_out (\<lambda>_. 0) [(1, - 1, 0x01000008, \<lparr>o_name = [], o_handle = 0x0200000a, o_message = []\<rparr>)] hA2 = Some hA3 \<and>
    receive (\<lambda>_. 0) 9 (map (\<lambda>x. [x]) (sent 7 (drop (length (hb_calls (harbor_create\<lparr>hb_id := 1\<rparr>))) (hb_calls hA3)))) (harbor_create\<lparr>hb_id := 2, hb_s := (\<lambda>_. slave_zero)(1 := slave_zero\<lparr>sl_fd := 9, sl_status := STATUS_HANDSHAKE\<rparr>)\<rparr>) = Some hB' \<and>
    spoken (hb_calls hB') = spoken (hb_calls (harbor_create\<lparr>hb_id := 2, hb_s := (\<lambda>_. slave_zero)(1 := slave_zero\<lparr>sl_fd := 9, sl_status := STATUS_HANDSHAKE\<rparr>)\<rparr>)) @
      map delivery ([(1, 5, 0x01000008, \<lparr>o_name = [], o_handle = 0x02000009, o_message = [1, 2, 3]\<rparr>)] @ [(1, - 1, 0x01000008, \<lparr>o_name = [], o_handle = 0x0200000a, o_message = []\<rparr>)])"
proof -
  have "\<exists>hA1 hA2 hA3. run_out (\<lambda>_. 0) [(1, 5, 0x01000008, \<lparr>o_name = [], o_handle = 0x02000009, o_message = [1, 2, 3]\<rparr>)] (harbor_create\<lparr>hb_id := 1\<rparr>) = Some hA1 \<and>
    harbor_mainloop (\<lambda>_. 0) hA1 PTYPE_HARBOR 0 0 (HCommand (65 # 32 # bytes ''7 2'')) = Some hA2 \<and> run_out (\<lambda>_. 0) [(1, - 1, 0x01000008, \<lparr>o_name = [], o_handle = 0x0200000a, o_message = []\<rparr>)] hA2 = Some hA3 \<and>
    (\<forall>bs. (\<forall>b \<in> set bs. b \<noteq> []) \<and> concat bs = sent 7 (drop (length (hb_calls (harbor_create\<lparr>hb_id := 1\<rparr>))) (hb_calls hA3)) \<longrightarrow>
      (\<exists>hB'. receive (\<lambda>_. 0) 9 bs (harbor_create\<lparr>hb_id := 2, hb_s := (\<lambda>_. slave_zero)(1 := slave_zero\<lparr>sl_fd := 9, sl_status := STATUS_HANDSHAKE\<rparr>)\<rparr>) = Some hB' \<and>
        spoken (hb_calls hB') = spoken (hb_calls (harbor_create\<lparr>hb_id := 2, hb_s := (\<lambda>_. slave_zero)(1 := slave_zero\<lparr>sl_fd := 9, sl_status := STATUS_HANDSHAKE\<rparr>)\<rparr>)) @
          map delivery ([(1, 5, 0x01000008, \<lparr>o_name = [], o_handle = 0x02000009, o_message = [1, 2, 3]\<rparr>)] @ [(1, - 1, 0x01000008, \<lparr>o_name = [], o_handle = 0x0200000a, o_message = []\<rparr>)])))"
  proof (rule harbor_link_delivers [where a = 1 and j = 2 and qs = "[]" and n = 0])
    show "hb_id (harbor_create\<lparr>hb_id := 1\<rparr>) = int 1" "hb_s (harbor_create\<lparr>hb_id := 1\<rparr>) 2 = slave_zero" "(2 :: nat) \<noteq> 1" "0 < (2 :: nat)" "2 < (256 :: nat)" "0 < (1 :: nat)" "1 < (256 :: nat)"
      by (simp_all add: harbor_create_def)
    show "scan_fd_id (cstr (bytes ''7 2'')) = (7, int 2)" by code_simp
    show "\<forall>p \<in> set ([(1, 5, 0x01000008, \<lparr>o_name = [], o_handle = 0x02000009, o_message = [1, 2, 3]\<rparr>)] @ [(1, - 1, 0x01000008, \<lparr>o_name = [], o_handle = 0x0200000a, o_message = []\<rparr>)]). good_out 2 p \<and> 0 \<le> (\<lambda>_ :: call. 0 :: int) (delivery p)"
      by (simp add: good_out_def PTYPE_SOCKET_def PTYPE_HARBOR_def HANDLE_REMOTE_SHIFT_def HEADER_COOKIE_LENGTH_def)
    show "find (\<lambda>i. sl_fd (hb_s (harbor_create\<lparr>hb_id := 2, hb_s := (\<lambda>_. slave_zero)(1 := slave_zero\<lparr>sl_fd := 9, sl_status := STATUS_HANDSHAKE\<rparr>)\<rparr>) i) = 9) [1..<REMOTE_MAX] = Some 1" by (simp add: REMOTE_MAX_def upt_conv_Cons)
  qed (simp_all add: harbor_create_def slave_zero_def held_def)
  moreover have "(\<forall>b \<in> set (map (\<lambda>x. [x]) xs). b \<noteq> []) \<and> concat (map (\<lambda>x. [x]) xs) = xs" for xs :: "byte list" by simp
  ultimately show ?thesis by blast
qed

section \<open>Where the code does not do what it means to\<close>

text \<open>Data of an unknown connection is freed twice.\<close>

lemma unknown_fd_frees_twice:
  assumes "link_of h fd = None"
  shows "harbor_mainloop answer h PTYPE_SOCKET 0 0 (HSocket (data_message fd b)) =
    Some (hcall (FreeBuffer b) (hcall (Error (bytes ''Invalid socket fd ('' @ fmt_d fd @ bytes '') data'')) (hcall (FreeBuffer b) h)))"
  using assms by (simp add: harbor_mainloop_def harbor_socket_def push_socket_data_def data_message_def)

text \<open>A package that is shorter than its header makes \<open>forward_local_messsage\<close> read in front of the buffer.\<close>

lemma short_package_faults:
  assumes "sl_status (hb_s h i) = STATUS_HEADER" "sl_read (hb_s h i) = 0"
  shows "push_loop answer fd h i [0, 0, 0, 1, b] = None"
  using assms by (simp add: push_loop_header data_from_header_def data_header_def data_content_def forward_local_messsage_def HEADER_COOKIE_LENGTH_def)

text \<open>A package of 16 MB and more is sent, and makes the receiver close the connection.\<close>

lemma large_package_closes:
  assumes m: "\<not> fits m" "length (hm_buffer m) < 2 ^ 31 - 16"
    and s: "sl_status (hb_s h i) = STATUS_HEADER" "sl_read (hb_s h i) = 0" "sl_queue (hb_s h i) = None"
  shows "send_remote fd (hm_buffer m) (hm_header m) h0 = Some (hcall (SocketSend fd (frame m)) h0) \<and>
    (\<exists>h'. push_loop answer fd h i (frame m) = Some h' \<and> sl_status (hb_s h' i) = STATUS_DOWN)"
proof
  show "send_remote fd (hm_buffer m) (hm_header m) h0 = Some (hcall (SocketSend fd (frame m)) h0)"
    using m(2) by (simp add: send_remote_def frame_def HEADER_COOKIE_LENGTH_def Let_def)
  define k where "k = length (hm_buffer m) + HEADER_COOKIE_LENGTH"
  define n where "n = (of_nat k :: u32)"
  have k: "2 ^ 24 \<le> k" "k < 2 ^ 32" using m by (simp_all add: fits_def k_def HEADER_COOKIE_LENGTH_def)
  have un: "uint n = int k" using k(2) by (simp add: n_def unsigned_of_nat take_bit_nat_eq_self)
  have "uint (ucast (drop_bit 24 n) :: byte) = int k div 2 ^ 24"
  proof -
    have "int k div 2 ^ 24 < 2 ^ 8" using k(2) by (simp add: div_less_iff_less_mult)
    moreover have "uint (ucast (drop_bit 24 n) :: byte) = int k div 2 ^ 24 mod 2 ^ 8"
      by (simp only: unsigned_ucast_eq unsigned_drop_bit_eq) (use k(2) in \<open>simp add: drop_bit_eq_div take_bit_eq_mod un\<close>)
    ultimately show ?thesis using k(1) by simp
  qed
  moreover have "1 \<le> int k div 2 ^ 24" using k(1) zdiv_mono1 [of "2 ^ 24" "int k" "2 ^ 24"] by simp
  ultimately have ne: "(ucast (drop_bit 24 n) :: byte) \<noteq> 0" using unsigned_0 [where 'b = 8] by (metis not_one_le_zero)
  obtain b1 b2 b3 bs where f: "frame m = ucast (drop_bit 24 n) # b1 # b2 # b3 # bs"
    by (auto simp: frame_def k_def [symmetric] n_def [symmetric] to_bigendian_def byte_simps)
  show "\<exists>h'. push_loop answer fd h i (frame m) = Some h' \<and> sl_status (hb_s h' i) = STATUS_DOWN"
    using s ne f by (simp add: push_loop_header data_from_header_def data_header_def close_harbor_def Let_def)
qed

text \<open>\<open>close_harbor\<close> keeps the descriptor, so a message to a node that is down is written to the closed connection: the branches that would report it are for
  nodes without a descriptor.\<close>

lemma down_still_sends:
  assumes "sl_fd (hb_s h i) \<noteq> 0" "sl_queue (hb_s h i) = None" "int i \<noteq> hb_id h" "unat (drop_bit HANDLE_REMOTE_SHIFT destination) = i"
    and "length msg + HEADER_COOKIE_LENGTH < 2 ^ 24"
  shows "\<exists>h1 b. close_harbor h i = Some h1 \<and> sl_status (hb_s h1 i) = STATUS_DOWN \<and>
    remote_send_handle h1 source destination ty session msg = Some (0, hcall (SocketSend (sl_fd (hb_s h i)) b) h1)"
  using assms by (auto simp: close_harbor_def remote_send_handle_def send_remote_def Let_def harbor_status HEADER_COOKIE_LENGTH_def)


text \<open>Messages to a global name that becomes known while its node is not connected are moved to the queue of the node as they are.  They were queued without a
  handle, and the handle is not added: when the connection is made, they are sent to handle 0.\<close>

lemma named_message_loses_handle:
  assumes "h = harbor_create\<lparr>hb_id := i, hb_slave := slave\<rparr>" and handle: "handle \<noteq> 0" "unat (drop_bit HANDLE_REMOTE_SHIFT handle) = j"
    and "unat (drop_bit HANDLE_REMOTE_SHIFT slave) \<noteq> j"
  shows "\<exists>h1 h2 q m. remote_send_name h source name ty session msg = Some (1, h1) \<and> update_name h1 name handle = Some h2 \<and> sl_queue (hb_s h2 j) = Some q \<and>
    hq_list q = [m] \<and> hm_buffer m = msg \<and> rh_destination (hm_header m) AND HANDLE_MASK = 0"
proof -
  define m where "m = \<lparr>hm_header = remote_header source 0 ty session, hm_buffer = msg\<rparr>"
  obtain q where q: "push_queue_msg m new_queue = Some q" "hq_list q = [m]" using push_queue_spec [of new_queue 0 m] new_queue_wf by auto
  define b where "b = unat (name_hash name) mod HASH_SIZE"
  define node where "node = \<lparr>kv_key = name, kv_hash = name_hash name, kv_value = 0, kv_queue = Some q\<rparr>"
  define h1 where "h1 = h\<lparr>hb_map := hash_new(b := [node]), hb_calls := [Send 0 slave PTYPE_TEXT 0 (cstr (bytes ''Q '' @ name))]\<rparr>"
  have "remote_send_name h source name ty session msg = Some (1, h1)"
    using q(1) assms(1) by (simp add: remote_send_name_def hash_search_def hash_insert_def harbor_create_def hash_new_def b_def [symmetric] Let_def get_node_def set_node_def
        push_queue_def m_def h1_def node_def hcall_def)
  moreover have "hash_search (hb_map h1) name = Some (b, 0)" by (simp add: hash_search_def h1_def Let_def b_def [symmetric] node_def)
  then obtain h2 where "update_name h1 name handle = Some h2" "sl_queue (hb_s h2 j) = Some q"
    using assms by (simp add: update_name_def get_node_def set_node_def h1_def node_def dispatch_name_queue_def harbor_create_def slave_zero_def harbor_status release_queue_def Let_def)
  moreover have "rh_destination (hm_header m) AND HANDLE_MASK = 0"
  proof -
    have mask: "HANDLE_MASK = mask 24" by (simp add: HANDLE_MASK_def mask_eq_exp_minus_1)
    show ?thesis by (rule bit_word_eqI) (auto simp: mask m_def remote_header_def HANDLE_REMOTE_SHIFT_def bit_simps)
  qed
  ultimately show ?thesis using q(2) by (auto simp: m_def)
qed

end
