(* ===== verification/Skynet_Cluster.thy ===== *)
theory Skynet_Cluster
  imports Skynet_Text Skynet_Bytes
begin

text \<open>
  The packages between the nodes of a cluster, \<open>lualib-src/lua-cluster.c\<close>.  A request or a response of up to 32 KB is one package; a longer one is announced by a
  package with its size, and follows in parts.  A package begins with its length in two bytes, which the receiving side has removed when it unpacks.

  The arguments are the values that the functions take from the Lua stack; a message behind a pointer is the bytes it points to.  Errors raised in Lua are values; \<open>None\<close> is a
  fault: a failing assertion, an access outside of a buffer (the local buffers have \<open>TEMP_LENGTH\<close> bytes) or an overflow of an \<open>int\<close>.
\<close>

section \<open>Requests\<close>

definition TEMP_LENGTH :: nat where "TEMP_LENGTH = 0x8200"
definition MULTI_PART :: nat where "MULTI_PART = 0x8000"

datatype address = Number u32 | Name "byte list" | NoName

datatype cluster_error = InvalidMessage | InvalidSession int | NameTooLong | InvalidSize int | InvalidMulti int | InvalidPart | InvalidType int

definition fill_uint32 :: "u32 \<Rightarrow> byte list" where
  "fill_uint32 n = [ucast (n AND 0xff), ucast (drop_bit 8 n AND 0xff), ucast (drop_bit 16 n AND 0xff), ucast (drop_bit 24 n AND 0xff)]"

definition fill_header :: "int \<Rightarrow> byte list option" where
  "fill_header sz = do {
     require (sz < 0x10000);
     Some [of_int ((sz div 2 ^ 8) mod 2 ^ 8), of_int (sz mod 2 ^ 8)] }"

text \<open>The bytes that were put into a local buffer.\<close>

definition local_buf :: "byte list \<Rightarrow> byte list option" where
  "local_buf buf = do { require (length buf \<le> TEMP_LENGTH); Some buf }"

text \<open>The result is the package and the number of parts that follow.\<close>

definition packreq_number :: "u32 \<Rightarrow> int \<Rightarrow> byte list \<Rightarrow> nat \<Rightarrow> (byte list \<times> nat) option" where
  "packreq_number addr session msg sz =
     (if sz < MULTI_PART then do {
        hdr \<leftarrow> fill_header (int sz + 9);
        buf \<leftarrow> local_buf (hdr @ [0] @ fill_uint32 addr @ fill_uint32 (of_int session) @ take sz msg);
        Some (buf, 0) }
      else do {
        hdr \<leftarrow> fill_header 13;
        buf \<leftarrow> local_buf (hdr @ [1] @ fill_uint32 addr @ fill_uint32 (of_int session) @ fill_uint32 (of_nat sz));
        Some (buf, (sz - 1) div MULTI_PART + 1) })"

definition packreq_string :: "byte list \<Rightarrow> int \<Rightarrow> byte list \<Rightarrow> nat \<Rightarrow> (cluster_error + (byte list \<times> nat)) option" where
  "packreq_string name session msg sz =
     (let namelen = length name in
      if namelen < 1 \<or> namelen > 255 then Some (Inl NameTooLong)
      else if sz < MULTI_PART then do {
        hdr \<leftarrow> fill_header (int sz + 6 + int namelen);
        buf \<leftarrow> local_buf (hdr @ [0x80, of_nat namelen] @ name @ fill_uint32 (of_int session) @ take sz msg);
        Some (Inr (buf, 0)) }
      else do {
        hdr \<leftarrow> fill_header (10 + int namelen);
        buf \<leftarrow> local_buf (hdr @ [0x81, of_nat namelen] @ name @ fill_uint32 (of_int session) @ fill_uint32 (of_nat sz));
        Some (Inr (buf, (sz - 1) div MULTI_PART + 1)) })"

fun packreq_parts :: "nat \<Rightarrow> int \<Rightarrow> byte list \<Rightarrow> nat \<Rightarrow> byte list list option" where
  "packreq_parts 0 session ptr sz = Some []"
| "packreq_parts (Suc part) session ptr sz = do {
     let (s, tag) = (if sz > MULTI_PART then (MULTI_PART, 2) else (sz, 3));
     hdr \<leftarrow> fill_header (int s + 5);
     buf \<leftarrow> local_buf (hdr @ [tag] @ fill_uint32 (of_int session) @ take s ptr);
     bufs \<leftarrow> packreq_parts part session (drop s ptr) (sz - s);
     Some (buf # bufs) }"

definition packreq_multi :: "int \<Rightarrow> byte list \<Rightarrow> nat \<Rightarrow> byte list list option" where
  "packreq_multi session msg sz = packreq_parts ((sz - 1) div MULTI_PART + 1) session msg sz"

text \<open>The package, the next session, and the parts if there are any.\<close>

definition lpackrequest :: "address \<Rightarrow> int \<Rightarrow> byte list option \<Rightarrow> int \<Rightarrow> (cluster_error + (byte list \<times> int \<times> byte list list option)) option" where
  "lpackrequest addr session0 msg sz0 =
     (case msg of
        None \<Rightarrow> Some (Inl InvalidMessage)
      | Some m \<Rightarrow>
          (let sz = unat (of_int sz0 :: u32); session = to_int session0 in
           if session \<le> 0 then Some (Inl (InvalidSession session))
           else do {
             require (sz \<le> length m);
             r \<leftarrow> (case addr of
                Number n \<Rightarrow> map_option Inr (packreq_number n session m sz)
              | Name name \<Rightarrow> packreq_string name session m sz
              | NoName \<Rightarrow> Some (Inl NameTooLong));
             (case r of
                Inl e \<Rightarrow> Some (Inl e)
              | Inr (buf, multipak) \<Rightarrow> do {
                  session1 \<leftarrow> cint (session + 1);
                  let next_session = (if session1 < 0 then 1 else session1);
                  (if multipak \<noteq> 0 then do {
                     parts \<leftarrow> packreq_multi session m sz;
                     Some (Inr (buf, next_session, Some parts)) }
                   else Some (Inr (buf, next_session, None))) }) }))"

section \<open>Unpacking requests\<close>

datatype cluster_request = Req address u32 "byte list" | MultiReq address u32 u32 | Part u32 "byte list" bool

text \<open>\<open>n\<close> bytes at an offset of the message.\<close>

definition piece :: "byte list \<Rightarrow> nat \<Rightarrow> nat \<Rightarrow> byte list option" where
  "piece buf off n = do { require (off + n \<le> length buf); Some (take n (drop off buf)) }"

definition unpack_uint32 :: "byte list \<Rightarrow> nat \<Rightarrow> u32 option" where
  "unpack_uint32 buf off = map_option (\<lambda>b. ucast (b ! 0) OR push_bit 8 (ucast (b ! 1)) OR push_bit 16 (ucast (b ! 2)) OR push_bit 24 (ucast (b ! 3))) (piece buf off 4)"

definition unpackreq_number :: "byte list \<Rightarrow> int \<Rightarrow> (cluster_error + cluster_request) option" where
  "unpackreq_number buf sz =
     (if sz < 9 then Some (Inl (InvalidSize sz))
      else do {
        address \<leftarrow> unpack_uint32 buf 1;
        session \<leftarrow> unpack_uint32 buf 5;
        msg \<leftarrow> piece buf 9 (nat sz - 9);
        Some (Inr (Req (Number address) session msg)) })"

definition unpackmreq_number :: "byte list \<Rightarrow> int \<Rightarrow> (cluster_error + cluster_request) option" where
  "unpackmreq_number buf sz =
     (if sz \<noteq> 13 then Some (Inl (InvalidMulti sz))
      else do {
        address \<leftarrow> unpack_uint32 buf 1;
        session \<leftarrow> unpack_uint32 buf 5;
        size1 \<leftarrow> unpack_uint32 buf 9;
        Some (Inr (MultiReq (Number address) session size1)) })"

definition unpackmreq_part :: "byte list \<Rightarrow> int \<Rightarrow> (cluster_error + cluster_request) option" where
  "unpackmreq_part buf sz =
     (if sz < 5 then Some (Inl InvalidPart)
      else do {
        session \<leftarrow> unpack_uint32 buf 1;
        msg \<leftarrow> piece buf 5 (nat sz - 5);
        Some (Inr (Part session msg (buf ! 0 = 2))) })"

text \<open>In the comparison with the length of the name, an \<open>int\<close> and a \<open>size_t\<close>, \<open>sz\<close> is converted.\<close>

definition unpackreq_string :: "byte list \<Rightarrow> int \<Rightarrow> (cluster_error + cluster_request) option" where
  "unpackreq_string buf sz =
     (if sz < 2 then Some (Inl (InvalidSize sz))
      else do {
        b \<leftarrow> aget buf 1;
        let namesz = unat b;
        (if uint (of_int sz :: u64) < int namesz + 6 then Some (Inl (InvalidSize sz))
         else do {
           name \<leftarrow> piece buf 2 namesz;
           session \<leftarrow> unpack_uint32 buf (namesz + 2);
           msg \<leftarrow> piece buf (namesz + 6) (nat sz - namesz - 6);
           Some (Inr (Req (Name name) session msg)) }) })"

definition unpackmreq_string :: "byte list \<Rightarrow> int \<Rightarrow> (cluster_error + cluster_request) option" where
  "unpackmreq_string buf sz =
     (if sz < 2 then Some (Inl (InvalidSize sz))
      else do {
        b \<leftarrow> aget buf 1;
        let namesz = unat b;
        (if uint (of_int sz :: u64) < int namesz + 10 then Some (Inl (InvalidSize sz))
         else do {
           name \<leftarrow> piece buf 2 namesz;
           session \<leftarrow> unpack_uint32 buf (namesz + 2);
           size1 \<leftarrow> unpack_uint32 buf (namesz + 6);
           Some (Inr (MultiReq (Name name) session size1)) }) })"

text \<open>The string has a zero behind its last byte.\<close>

definition lunpackrequest :: "byte list \<Rightarrow> (cluster_error + cluster_request) option" where
  "lunpackrequest msg =
     (let sz = to_int (int (length msg)); t = (msg @ [0]) ! 0 in
      if t = 0 then unpackreq_number msg sz
      else if t = 1 then unpackmreq_number msg sz
      else if t = 2 \<or> t = 3 then unpackmreq_part msg sz
      else if t = 0x80 then unpackreq_string msg sz
      else if t = 0x81 then unpackmreq_string msg sz
      else Some (Inl (InvalidType (sint t))))"

section \<open>Responses\<close>

text \<open>One package, or the announcement and the parts.  The message is a string or the \<open>sz\<close> bytes behind a pointer.\<close>

fun packresp_parts :: "nat \<Rightarrow> u32 \<Rightarrow> byte list \<Rightarrow> nat \<Rightarrow> byte list list option" where
  "packresp_parts 0 session ptr sz = Some []"
| "packresp_parts (Suc part) session ptr sz = do {
     let (s, tag) = (if sz > MULTI_PART then (MULTI_PART, 3) else (sz, 4));
     hdr \<leftarrow> fill_header (int s + 5);
     buf \<leftarrow> local_buf (hdr @ fill_uint32 session @ [tag] @ take s ptr);
     bufs \<leftarrow> packresp_parts part session (drop s ptr) (sz - s);
     Some (buf # bufs) }"

definition lpackresponse :: "u32 \<Rightarrow> bool \<Rightarrow> byte list \<Rightarrow> (byte list + byte list list) option" where
  "lpackresponse session ok msg =
     (let sz = length msg in
      if ok \<and> sz > MULTI_PART then do {
        hdr \<leftarrow> fill_header 9;
        buf \<leftarrow> local_buf (hdr @ fill_uint32 session @ [2] @ fill_uint32 (of_nat sz));
        bufs \<leftarrow> packresp_parts ((sz - 1) div MULTI_PART + 1) session msg sz;
        Some (Inr (buf # bufs)) }
      else do {
        let n = (if \<not> ok \<and> sz > MULTI_PART then MULTI_PART else sz);
        hdr \<leftarrow> fill_header (int n + 5);
        buf \<leftarrow> local_buf (hdr @ fill_uint32 session @ [if ok then 1 else 0] @ take n msg);
        Some (Inl buf) })"

text \<open>Session, success and message with the mark of a part, or the announced size.\<close>

datatype response = Resp u32 bool "byte list" bool | RespBegin u32 u32 | NoResp

definition lunpackresponse :: "byte list \<Rightarrow> response option" where
  "lunpackresponse buf =
     (if length buf < 5 then Some NoResp
      else do {
        session \<leftarrow> unpack_uint32 buf 0;
        let t = buf ! 4;
        (if t = 0 then Some (Resp session False (drop 5 buf) False)
         else if t = 1 \<or> t = 4 then Some (Resp session True (drop 5 buf) False)
         else if t = 2 then
           (if length buf \<noteq> 9 then Some NoResp
            else do {
              sz \<leftarrow> unpack_uint32 buf 5;
              Some (RespBegin session sz) })
         else if t = 3 then Some (Resp session True (drop 5 buf) True)
         else Some NoResp) })"

section \<open>Putting the parts together\<close>

text \<open>\<open>lconcat\<close> for a table of a size and strings; \<open>buff\<close> are the bytes copied so far.\<close>

fun concat_loop :: "int \<Rightarrow> byte list \<Rightarrow> byte list list \<Rightarrow> byte list option" where
  "concat_loop sz buff [] = (if int (length buff) \<noteq> sz then None else Some buff)"
| "concat_loop sz buff (str # strs) = (if int (length str) + int (length buff) > sz then None else concat_loop sz (buff @ str) strs)"

definition lconcat :: "int option \<Rightarrow> byte list list \<Rightarrow> (byte list \<times> int) option option" where
  "lconcat size1 strs =
     (case size1 of
        None \<Rightarrow> Some None
      | Some n \<Rightarrow> do {
          let sz = to_int n;
          require (0 \<le> sz);
          Some (map_option (\<lambda>buff. (buff, sz)) (concat_loop sz [] strs)) })"

section \<open>Packages\<close>

text \<open>A package whose first two bytes are the length of the rest.\<close>

definition framed :: "byte list \<Rightarrow> bool" where
  "framed p \<longleftrightarrow> 2 \<le> length p \<and> uint (p ! 0) * 256 + uint (p ! 1) = int (length p) - 2"

lemma fill_header_ok:
  assumes "0 \<le> sz" "sz < 0x10000"
  obtains a b where "fill_header sz = Some [a, b]" "\<And>bs. int (length bs) = sz \<Longrightarrow> framed ([a, b] @ bs)"
proof -
  define a b where "a = (of_int ((sz div 2 ^ 8) mod 2 ^ 8) :: byte)" and "b = (of_int (sz mod 2 ^ 8) :: byte)"
  have u: "uint (of_int (x mod 2 ^ 8) :: byte) = x mod 2 ^ 8" for x :: int by (simp add: uint_word_of_int)
  have "sz div 256 mod 256 = sz div 256" using assms by (intro mod_pos_pos_trivial) (simp_all add: div_less_iff_less_mult)
  then have "uint a * 256 + uint b = sz" using u [of "sz div 2 ^ 8"] u [of sz] by (simp add: a_def b_def)
  then show ?thesis using that [of a b] assms by (simp add: fill_header_def a_def b_def framed_def)
qed

lemma length_fill [simp]: "length (fill_uint32 n) = 4"
  by (simp add: fill_uint32_def)

lemma unpack_fill: "off = length xs \<Longrightarrow> unpack_uint32 (xs @ fill_uint32 n @ ys) off = Some n"
proof -
  have j: "ucast (ucast n :: byte) OR push_bit 8 (ucast (ucast (drop_bit 8 n) :: byte)) OR push_bit 16 (ucast (ucast (drop_bit 16 n) :: byte)) OR push_bit 24 (ucast (ucast (drop_bit 24 n) :: byte)) = n"
    unfolding join_le32 by (rule join_split32)
  assume "off = length xs"
  then show ?thesis by (simp add: unpack_uint32_def piece_def fill_uint32_def byte_simps j del: join_le32)
qed

lemma piece_at: "off = length xs \<Longrightarrow> n = length ys \<Longrightarrow> piece (xs @ ys @ zs) off n = Some ys"
  by (simp add: piece_def)

lemma piece_end: "off = length xs \<Longrightarrow> n = length ys \<Longrightarrow> piece (xs @ ys) off n = Some ys"
  by (simp add: piece_def)

text \<open>What is expected of the parts of a message: each chunk, with a mark whether more follow.\<close>

function expected :: "(byte list \<Rightarrow> bool \<Rightarrow> 'a) \<Rightarrow> byte list \<Rightarrow> 'a list" where
  "expected f xs = (if length xs \<le> MULTI_PART then [f xs False] else f (take MULTI_PART xs) True # expected f (drop MULTI_PART xs))"
  by pat_completeness auto
termination by (relation "measure (\<lambda>(f, xs). length xs)") (auto simp: MULTI_PART_def)

declare expected.simps [simp del]

lemma expected_concat: "concat (expected (\<lambda>c more. c) xs) = xs"
proof (induction "\<lambda>c (more :: bool). c :: byte list" xs rule: expected.induct)
  case (1 xs)
  then show ?case by (subst expected.simps) auto
qed

lemma parts_count: "MULTI_PART < n \<Longrightarrow> (n - 1) div MULTI_PART + 1 = Suc ((n - MULTI_PART - 1) div MULTI_PART + 1)"
  by (simp add: MULTI_PART_def le_div_geq)

text \<open>Bytes of a package without its length, as they are unpacked.\<close>

lemma unpack_part:
  assumes "t = 2 \<or> t = 3" "length c < 2 ^ 31 - 5"
  shows "lunpackrequest (t # fill_uint32 s @ c) = Some (Inr (Part s c (t = 2)))"
proof -
  have "to_int (int (length (t # fill_uint32 s @ c))) = int (length c) + 5" using assms(2) to_int_id [of "5 + int (length c)"] by simp
  moreover have "unpack_uint32 (t # fill_uint32 s @ c) 1 = Some s" using unpack_fill [of 1 "[t]"] by simp
  moreover have "piece (t # fill_uint32 s @ c) 5 (length c) = Some c" using piece_end [of 5 "t # fill_uint32 s"] by simp
  ultimately show ?thesis using assms(1) by (auto simp: lunpackrequest_def unpackmreq_part_def nat_add_distrib)
qed

lemma request_parts:
  "xs \<noteq> [] \<Longrightarrow> \<exists>ps. packreq_parts ((length xs - 1) div MULTI_PART + 1) session xs (length xs) = Some ps \<and> (\<forall>p \<in> set ps. framed p) \<and>
    map (\<lambda>p. lunpackrequest (drop 2 p)) ps = expected (\<lambda>c more. Some (Inr (Part (of_int session) c more))) xs"
proof (induction "length xs" arbitrary: xs rule: less_induct)
  case less
  define s where "s = min (length xs) MULTI_PART"
  have s: "s \<le> 0x8000" "s \<le> length xs" by (simp_all add: s_def MULTI_PART_def)
  obtain a b where hdr: "fill_header (int s + 5) = Some [a, b]" "\<And>bs. int (length bs) = int s + 5 \<Longrightarrow> framed ([a, b] @ bs)" using fill_header_ok [of "int s + 5"] s by auto
  have fr: "framed ([a, b] @ [t] @ fill_uint32 (of_int session) @ take s xs)" for t using s by (intro hdr(2)) simp
  have lb: "local_buf (a # b # t # fill_uint32 (of_int session) @ take s xs) = Some (a # b # t # fill_uint32 (of_int session) @ take s xs)" for t
    using s by (simp add: local_buf_def TEMP_LENGTH_def)
  show ?case
  proof (cases "length xs \<le> MULTI_PART")
    case True
    then have se: "s = length xs" by (simp add: s_def)
    have "(length xs - 1) div MULTI_PART = 0" using True less.prems by (auto simp: MULTI_PART_def)
    then show ?thesis using True hdr(1) lb [of 3] fr [of 3] unpack_part [of 3 xs "of_int session"] s se by (simp add: expected.simps [of _ xs])
  next
    case False
    then have se: "s = MULTI_PART" by (simp add: s_def)
    have ne: "drop MULTI_PART xs \<noteq> []" using False by simp
    have lt: "length (drop MULTI_PART xs) < length xs" using False by (simp add: MULTI_PART_def)
    obtain ps where ps: "packreq_parts ((length (drop MULTI_PART xs) - 1) div MULTI_PART + 1) session (drop MULTI_PART xs) (length (drop MULTI_PART xs)) = Some ps" "\<forall>p \<in> set ps. framed p"
        "map (\<lambda>p. lunpackrequest (drop 2 p)) ps = expected (\<lambda>c more. Some (Inr (Part (of_int session) c more))) (drop MULTI_PART xs)"
      using less.hyps [OF lt ne] by blast
    have "(length xs - 1) div MULTI_PART + 1 = Suc ((length (drop MULTI_PART xs) - 1) div MULTI_PART + 1)" using parts_count [of "length xs"] False by simp
    then have "packreq_parts ((length xs - 1) div MULTI_PART + 1) session xs (length xs) = Some ((a # b # 2 # fill_uint32 (of_int session) @ take s xs) # ps)"
      using False hdr(1) lb [of 2] ps(1) se by simp
    then show ?thesis using fr [of 2] ps(2,3) unpack_part [of 2 "take s xs" "of_int session"] s se False by (simp add: expected.simps [of _ xs])
  qed
qed


lemma unpack_response:
  "lunpackresponse (fill_uint32 s @ t # c) =
    (if t = 0 then Some (Resp s False c False) else if t = 1 \<or> t = 4 then Some (Resp s True c False)
     else if t = 2 then (if length c = 4 then map_option (RespBegin s) (unpack_uint32 (fill_uint32 s @ t # c) 5) else Some NoResp)
     else if t = 3 then Some (Resp s True c True) else Some NoResp)"
proof -
  have "unpack_uint32 (fill_uint32 s @ t # c) 0 = Some s" using unpack_fill [of 0 "[]"] by simp
  then show ?thesis by (cases "unpack_uint32 (fill_uint32 s @ t # c) 5") (auto simp: lunpackresponse_def nth_append)
qed

lemma response_parts:
  "xs \<noteq> [] \<Longrightarrow> \<exists>ps. packresp_parts ((length xs - 1) div MULTI_PART + 1) session xs (length xs) = Some ps \<and> (\<forall>p \<in> set ps. framed p) \<and>
    map (\<lambda>p. lunpackresponse (drop 2 p)) ps = expected (\<lambda>c more. Some (Resp session True c more)) xs"
proof (induction "length xs" arbitrary: xs rule: less_induct)
  case less
  define s where "s = min (length xs) MULTI_PART"
  have s: "s \<le> 0x8000" "s \<le> length xs" by (simp_all add: s_def MULTI_PART_def)
  obtain a b where hdr: "fill_header (int s + 5) = Some [a, b]" "\<And>bs. int (length bs) = int s + 5 \<Longrightarrow> framed ([a, b] @ bs)" using fill_header_ok [of "int s + 5"] s by auto
  have fr: "framed ([a, b] @ fill_uint32 session @ t # take s xs)" for t using s by (intro hdr(2)) simp
  have lb: "local_buf (a # b # fill_uint32 session @ t # take s xs) = Some (a # b # fill_uint32 session @ t # take s xs)" for t
    using s by (simp add: local_buf_def TEMP_LENGTH_def)
  show ?case
  proof (cases "length xs \<le> MULTI_PART")
    case True
    then have se: "s = length xs" by (simp add: s_def)
    have "(length xs - 1) div MULTI_PART = 0" using True less.prems by (auto simp: MULTI_PART_def)
    then show ?thesis using True hdr(1) lb [of 4] fr [of 4] s se by (simp add: expected.simps [of _ xs] unpack_response)
  next
    case False
    then have se: "s = MULTI_PART" by (simp add: s_def)
    have ne: "drop MULTI_PART xs \<noteq> []" using False by simp
    have lt: "length (drop MULTI_PART xs) < length xs" using False by (simp add: MULTI_PART_def)
    obtain ps where ps: "packresp_parts ((length (drop MULTI_PART xs) - 1) div MULTI_PART + 1) session (drop MULTI_PART xs) (length (drop MULTI_PART xs)) = Some ps" "\<forall>p \<in> set ps. framed p"
        "map (\<lambda>p. lunpackresponse (drop 2 p)) ps = expected (\<lambda>c more. Some (Resp session True c more)) (drop MULTI_PART xs)"
      using less.hyps [OF lt ne] by blast
    have "(length xs - 1) div MULTI_PART + 1 = Suc ((length (drop MULTI_PART xs) - 1) div MULTI_PART + 1)" using parts_count [of "length xs"] False by simp
    then have "packresp_parts ((length xs - 1) div MULTI_PART + 1) session xs (length xs) = Some ((a # b # fill_uint32 session @ 3 # take s xs) # ps)"
      using False hdr(1) lb [of 3] ps(1) se by simp
    then show ?thesis using fr [of 3] ps(2,3) s se False by (simp add: expected.simps [of _ xs] unpack_response)
  qed
qed

lemma concat_loop_ok: "int (length buff + length (concat strs)) = sz \<Longrightarrow> concat_loop sz buff strs = Some (buff @ concat strs)"
  by (induction strs arbitrary: buff) auto

section \<open>The round trip\<close>

definition address_ok :: "address \<Rightarrow> bool" where
  "address_ok addr = (case addr of Number n \<Rightarrow> True | Name name \<Rightarrow> 1 \<le> length name \<and> length name \<le> 255 | NoName \<Rightarrow> False)"

lemma head_number:
  assumes "length c < 2 ^ 31 - 9"
  shows "lunpackrequest (0 # fill_uint32 n @ fill_uint32 s @ c) = Some (Inr (Req (Number n) s c))"
    "lunpackrequest (1 # fill_uint32 n @ fill_uint32 s @ fill_uint32 k) = Some (Inr (MultiReq (Number n) s k))"
proof -
  have a: "unpack_uint32 (t # fill_uint32 n @ fill_uint32 s @ xs) 1 = Some n" "unpack_uint32 (t # fill_uint32 n @ fill_uint32 s @ xs) 5 = Some s" for t xs
    using unpack_fill [of 1 "[t]"] unpack_fill [of 5 "t # fill_uint32 n"] by simp_all
  have b: "unpack_uint32 (1 # fill_uint32 n @ fill_uint32 s @ fill_uint32 k) 9 = Some k" using unpack_fill [of 9 "1 # fill_uint32 n @ fill_uint32 s" k "[]"] by simp
  have c: "piece (0 # fill_uint32 n @ fill_uint32 s @ c) 9 (length c) = Some c" using piece_end [of 9 "0 # fill_uint32 n @ fill_uint32 s"] by simp
  have "to_int (9 + int (length c)) = 9 + int (length c)" "to_int 13 = 13" using assms by (simp_all add: to_int_id)
  then show "lunpackrequest (0 # fill_uint32 n @ fill_uint32 s @ c) = Some (Inr (Req (Number n) s c))"
    "lunpackrequest (1 # fill_uint32 n @ fill_uint32 s @ fill_uint32 k) = Some (Inr (MultiReq (Number n) s k))"
    using a b c by (simp_all add: lunpackrequest_def unpackreq_number_def unpackmreq_number_def nat_add_distrib)
qed

lemma head_string:
  assumes "1 \<le> length name" "length name \<le> 255" "length c < 2 ^ 30"
  shows "lunpackrequest (0x80 # of_nat (length name) # name @ fill_uint32 s @ c) = Some (Inr (Req (Name name) s c))"
    "lunpackrequest (0x81 # of_nat (length name) # name @ fill_uint32 s @ fill_uint32 k) = Some (Inr (MultiReq (Name name) s k))"
proof -
  define l where "l = (of_nat (length name) :: byte)"
  have l: "unat l = length name" "uint l = int (length name)" using assms(2) by (simp_all add: l_def unsigned_of_nat take_bit_nat_eq_self)
  have n: "piece (t # l # name @ xs) 2 (length name) = Some name" for t xs using piece_at [of 2 "[t, l]" _ name] by simp
  have a: "unpack_uint32 (t # l # name @ fill_uint32 s @ xs) (length name + 2) = Some s" for t xs using unpack_fill [of "length name + 2" "t # l # name"] by simp
  have b: "unpack_uint32 (0x81 # l # name @ fill_uint32 s @ fill_uint32 k) (length name + 6) = Some k"
    using unpack_fill [of "length name + 6" "0x81 # l # name @ fill_uint32 s" k "[]"] by simp
  have c: "piece (0x80 # l # name @ fill_uint32 s @ c) (length name + 6) (length c) = Some c" using piece_end [of "length name + 6" "0x80 # l # name @ fill_uint32 s"] by simp
  define L where "L = length name + 6 + length c"
  define M where "M = length name + 10"
  have LM: "L < 2 ^ 31" "M < 2 ^ 31" using assms by (simp_all add: L_def M_def)
  have lm: "\<not> int L < int (length name) + 6" "L - (length name + 6) = length c" "\<not> int L < 2" "\<not> int M < int (length name) + 10" "\<not> int M < 2" by (simp_all add: L_def M_def)
  have ti: "to_int (int L) = int L" "to_int (int M) = int M" using LM by (simp_all add: to_int_id)
  have u: "uint (of_int (int x) :: u64) = int x" if "x < 2 ^ 31" for x using that by (simp add: unsigned_of_nat take_bit_nat_eq_self)
  have "unpackreq_string (0x80 # l # name @ fill_uint32 s @ c) (int L) = Some (Inr (Req (Name name) s c))"
    using u [OF LM(1)] n a c l lm by (simp add: unpackreq_string_def Let_def del: of_int_of_nat_eq)
  moreover have "int (length (0x80 # l # name @ fill_uint32 s @ c)) = int L" by (simp add: L_def)
  ultimately show "lunpackrequest (0x80 # of_nat (length name) # name @ fill_uint32 s @ c) = Some (Inr (Req (Name name) s c))"
    unfolding l_def [symmetric] lunpackrequest_def Let_def by (simp only: ti) simp
  have "unpackmreq_string (0x81 # l # name @ fill_uint32 s @ fill_uint32 k) (int M) = Some (Inr (MultiReq (Name name) s k))"
    using u [OF LM(2)] n a b l lm by (simp add: unpackmreq_string_def Let_def del: of_int_of_nat_eq)
  moreover have "int (length (0x81 # l # name @ fill_uint32 s @ fill_uint32 k)) = int M" by (simp add: M_def)
  ultimately show "lunpackrequest (0x81 # of_nat (length name) # name @ fill_uint32 s @ fill_uint32 k) = Some (Inr (MultiReq (Name name) s k))"
    unfolding l_def [symmetric] lunpackrequest_def Let_def by (simp only: ti) simp
qed

text \<open>The first package of a request.\<close>

lemma first_package:
  assumes "address_ok addr" "sz = length msg"
  shows "\<exists>req. (case addr of Number n \<Rightarrow> map_option Inr (packreq_number n session msg sz) | Name name \<Rightarrow> packreq_string name session msg sz | NoName \<Rightarrow> Some (Inl NameTooLong)) =
      Some (Inr (req, if sz < MULTI_PART then 0 else (sz - 1) div MULTI_PART + 1)) \<and> framed req \<and>
    lunpackrequest (drop 2 req) = Some (Inr (if sz < MULTI_PART then Req addr (of_int session) msg else MultiReq addr (of_int session) (of_nat sz)))"
proof (cases addr)
  case (Number n)
  define k where "k = (if sz < MULTI_PART then int sz + 9 else 13)"
  have "0 \<le> k" "k < 0x10000" by (simp_all add: k_def MULTI_PART_def)
  then obtain a b where hdr: "fill_header k = Some [a, b]" "\<And>bs. int (length bs) = k \<Longrightarrow> framed ([a, b] @ bs)" using fill_header_ok [of k] by blast
  show ?thesis using Number assms hdr(1) hdr(2) [of "0 # fill_uint32 n @ fill_uint32 (of_int session) @ msg"] head_number [of msg n "of_int session"]
      hdr(2) [of "1 # fill_uint32 n @ fill_uint32 (of_int session) @ fill_uint32 (of_nat sz)"] head_number(2) [of "[]" n "of_int session" "of_nat sz"]
    by (auto simp: packreq_number_def k_def local_buf_def TEMP_LENGTH_def MULTI_PART_def split: if_splits)
next
  case (Name name)
  have l: "1 \<le> length name" "length name \<le> 255" using assms(1) Name by (simp_all add: address_ok_def)
  define k where "k = (if sz < MULTI_PART then int sz + 6 + int (length name) else 10 + int (length name))"
  have "0 \<le> k" "k < 0x10000" using l by (simp_all add: k_def MULTI_PART_def)
  then obtain a b where hdr: "fill_header k = Some [a, b]" "\<And>bs. int (length bs) = k \<Longrightarrow> framed ([a, b] @ bs)" using fill_header_ok [of k] by blast
  show ?thesis using Name assms(2) l hdr(1) hdr(2) [of "0x80 # of_nat (length name) # name @ fill_uint32 (of_int session) @ msg"] head_string(1) [OF l, of msg "of_int session"]
      hdr(2) [of "0x81 # of_nat (length name) # name @ fill_uint32 (of_int session) @ fill_uint32 (of_nat sz)"] head_string(2) [OF l, of "[]" "of_int session" "of_nat sz"]
    by (auto simp: packreq_string_def Let_def k_def local_buf_def TEMP_LENGTH_def MULTI_PART_def split: if_splits)
qed (use assms in \<open>simp add: address_ok_def\<close>)

text \<open>C37: a request to a handle or a name of another node is unpacked there as it was packed: a message below 32 KB from one package, with its address, session and bytes;
  a longer one as an announcement of its size and parts that \<open>concat\<close> puts together to the same bytes.  A response comes back likewise, an error piece to 32 KB.  Every
  package begins with the length of its rest.\<close>

theorem cluster_roundtrip:
  assumes "address_ok addr" "0 < session" "session < 2 ^ 31 - 1" "length msg < 2 ^ 31"
  shows "(\<exists>req parts. lpackrequest addr session (Some msg) (int (length msg)) = Some (Inr (req, session + 1, parts)) \<and> framed req \<and>
      (case parts of
         None \<Rightarrow> lunpackrequest (drop 2 req) = Some (Inr (Req addr (of_int session) msg))
       | Some ps \<Rightarrow> lunpackrequest (drop 2 req) = Some (Inr (MultiReq addr (of_int session) (of_nat (length msg)))) \<and> list_all framed ps \<and>
           map (\<lambda>p. lunpackrequest (drop 2 p)) ps = expected (\<lambda>c more. Some (Inr (Part (of_int session) c more))) msg)) \<and>
    (\<exists>r. lpackresponse s ok msg = Some r \<and>
      (case r of
         Inl p \<Rightarrow> framed p \<and> lunpackresponse (drop 2 p) = Some (Resp s ok (if ok then msg else take MULTI_PART msg) False)
       | Inr ps \<Rightarrow> list_all framed ps \<and>
           map (\<lambda>p. lunpackresponse (drop 2 p)) ps = Some (RespBegin s (of_nat (length msg))) # expected (\<lambda>c more. Some (Resp s True c more)) msg)) \<and>
    lconcat (Some (int (length msg))) (expected (\<lambda>c more. c) msg) = Some (Some (msg, int (length msg)))"
proof (intro conjI)
  define sz where "sz = length msg"
  have usz: "unat (of_int (int sz) :: u32) = sz" using assms(4) by (simp add: sz_def unsigned_of_nat take_bit_nat_eq_self)
  have ses: "to_int session = session" "cint (session + 1) = Some (session + 1)" using assms(2,3) by (simp_all add: to_int_id cint_def cint_ok_def)
  obtain req where req: "(case addr of Number n \<Rightarrow> map_option Inr (packreq_number n session msg sz) | Name name \<Rightarrow> packreq_string name session msg sz | NoName \<Rightarrow> Some (Inl NameTooLong)) =
      Some (Inr (req, if sz < MULTI_PART then 0 else (sz - 1) div MULTI_PART + 1))" "framed req"
    "lunpackrequest (drop 2 req) = Some (Inr (if sz < MULTI_PART then Req addr (of_int session) msg else MultiReq addr (of_int session) (of_nat sz)))"
    using first_package [OF assms(1) sz_def] by blast
  show "\<exists>req parts. lpackrequest addr session (Some msg) (int (length msg)) = Some (Inr (req, session + 1, parts)) \<and> framed req \<and>
      (case parts of
         None \<Rightarrow> lunpackrequest (drop 2 req) = Some (Inr (Req addr (of_int session) msg))
       | Some ps \<Rightarrow> lunpackrequest (drop 2 req) = Some (Inr (MultiReq addr (of_int session) (of_nat (length msg)))) \<and> list_all framed ps \<and>
           map (\<lambda>p. lunpackrequest (drop 2 p)) ps = expected (\<lambda>c more. Some (Inr (Part (of_int session) c more))) msg)"
  proof (cases "sz < MULTI_PART")
    case True
    have "lpackrequest addr session (Some msg) (int sz) = Some (Inr (req, session + 1, None))"
      using assms(2) req(1) ses True by (simp add: lpackrequest_def Let_def usz sz_def [symmetric] del: of_int_of_nat_eq)
    then show ?thesis using req(2,3) True by (auto simp: sz_def)
  next
    case False
    then have "msg \<noteq> []" by (auto simp: sz_def MULTI_PART_def)
    from request_parts [OF this, of session] obtain ps where ps: "packreq_multi session msg sz = Some ps" "\<forall>p \<in> set ps. framed p"
        "map (\<lambda>p. lunpackrequest (drop 2 p)) ps = expected (\<lambda>c more. Some (Inr (Part (of_int session) c more))) msg"
      by (auto simp: packreq_multi_def sz_def)
    have "lpackrequest addr session (Some msg) (int sz) = Some (Inr (req, session + 1, Some ps))"
      using assms(2) req(1) ses ps(1) False by (simp add: lpackrequest_def Let_def usz sz_def [symmetric] del: of_int_of_nat_eq)
    then show ?thesis using req(2,3) False ps by (auto simp: sz_def list_all_iff)
  qed
  show "lconcat (Some (int (length msg))) (expected (\<lambda>c more. c) msg) = Some (Some (msg, int (length msg)))"
    using assms(4) concat_loop_ok [of "[]" "expected (\<lambda>c more. c) msg"] by (simp add: lconcat_def to_int_id expected_concat)
  show "\<exists>r. lpackresponse s ok msg = Some r \<and>
      (case r of
         Inl p \<Rightarrow> framed p \<and> lunpackresponse (drop 2 p) = Some (Resp s ok (if ok then msg else take MULTI_PART msg) False)
       | Inr ps \<Rightarrow> list_all framed ps \<and>
           map (\<lambda>p. lunpackresponse (drop 2 p)) ps = Some (RespBegin s (of_nat (length msg))) # expected (\<lambda>c more. Some (Resp s True c more)) msg)"
  proof (cases "ok \<and> sz > MULTI_PART")
    case True
    obtain a b where hdr: "fill_header 9 = Some [a, b]" "\<And>bs. int (length bs) = 9 \<Longrightarrow> framed ([a, b] @ bs)" using fill_header_ok [of 9] by auto
    have "msg \<noteq> []" using True by (auto simp: sz_def)
    then obtain ps where ps: "packresp_parts ((sz - 1) div MULTI_PART + 1) s msg sz = Some ps" "\<forall>p \<in> set ps. framed p"
        "map (\<lambda>p. lunpackresponse (drop 2 p)) ps = expected (\<lambda>c more. Some (Resp s True c more)) msg" using response_parts [of msg s] unfolding sz_def by blast
    have "unpack_uint32 (fill_uint32 s @ 2 # fill_uint32 (of_nat sz)) 5 = Some (of_nat sz)" using unpack_fill [of 5 "fill_uint32 s @ [2]" "of_nat sz" "[]"] by simp
    then show ?thesis using True hdr(1) ps hdr(2) [of "fill_uint32 s @ 2 # fill_uint32 (of_nat sz)"]
      by (simp add: lpackresponse_def sz_def [symmetric] local_buf_def TEMP_LENGTH_def unpack_response list_all_iff del: packresp_parts.simps)
  next
    case False
    define n where "n = (if \<not> ok \<and> sz > MULTI_PART then MULTI_PART else sz)"
    have n: "n \<le> MULTI_PART" "n \<le> sz" using False by (auto simp: n_def)
    obtain a b where hdr: "fill_header (int n + 5) = Some [a, b]" "\<And>bs. int (length bs) = int n + 5 \<Longrightarrow> framed ([a, b] @ bs)" using fill_header_ok [of "int n + 5"] n by (auto simp: MULTI_PART_def)
    have "framed ([a, b] @ fill_uint32 s @ t # take n msg)" for t using n by (intro hdr(2)) (simp add: sz_def)
    moreover have "take n msg = (if ok then msg else take MULTI_PART msg)" using False by (auto simp: n_def sz_def)
    moreover have "lpackresponse s ok msg = Some (Inl ([a, b] @ fill_uint32 s @ (if ok then 1 else 0) # take n msg))"
    proof -
      have "local_buf ([a, b] @ fill_uint32 s @ [if ok then 1 else 0] @ take n msg) = Some ([a, b] @ fill_uint32 s @ [if ok then 1 else 0] @ take n msg)"
        using n by (auto simp: local_buf_def TEMP_LENGTH_def MULTI_PART_def min_def)
      then show ?thesis unfolding lpackresponse_def Let_def sz_def [symmetric] n_def [symmetric] if_not_P [OF False] by (simp add: hdr(1))
    qed
    ultimately show ?thesis by (auto simp: unpack_response)
  qed
qed


lemma cluster_roundtrip_witness:
  "(\<exists>req parts. lpackrequest (Name [97, 98]) 7 (Some [1, 2, 3]) (int (length [1, 2, 3 :: byte])) = Some (Inr (req, 7 + 1, parts)) \<and> framed req \<and>
      (case parts of
         None \<Rightarrow> lunpackrequest (drop 2 req) = Some (Inr (Req (Name [97, 98]) (of_int 7) [1, 2, 3]))
       | Some ps \<Rightarrow> lunpackrequest (drop 2 req) = Some (Inr (MultiReq (Name [97, 98]) (of_int 7) (of_nat (length [1, 2, 3 :: byte])))) \<and> list_all framed ps \<and>
           map (\<lambda>p. lunpackrequest (drop 2 p)) ps = expected (\<lambda>c more. Some (Inr (Part (of_int 7) c more))) [1, 2, 3])) \<and>
    (\<exists>r. lpackresponse 9 True [1, 2, 3] = Some r \<and>
      (case r of
         Inl p \<Rightarrow> framed p \<and> lunpackresponse (drop 2 p) = Some (Resp 9 True (if True then [1, 2, 3] else take MULTI_PART [1, 2, 3]) False)
       | Inr ps \<Rightarrow> list_all framed ps \<and>
           map (\<lambda>p. lunpackresponse (drop 2 p)) ps = Some (RespBegin 9 (of_nat (length [1, 2, 3 :: byte]))) # expected (\<lambda>c more. Some (Resp 9 True c more)) [1, 2, 3])) \<and>
    lconcat (Some (int (length [1, 2, 3 :: byte]))) (expected (\<lambda>c more. c) [1, 2, 3]) = Some (Some ([1, 2, 3], int (length [1, 2, 3 :: byte])))"
  by (rule cluster_roundtrip) (simp_all add: address_ok_def)

section \<open>Limits\<close>

text \<open>The test for the end of the session numbers comes behind an overflow.\<close>

lemma session_overflows: "address_ok addr \<Longrightarrow> msg = [] \<Longrightarrow> lpackrequest addr 0x7fffffff (Some msg) 0 = None"
proof -
  assume a: "address_ok addr" "msg = []"
  obtain req where "(case addr of Number n \<Rightarrow> map_option Inr (packreq_number n 0x7fffffff msg 0) | Name name \<Rightarrow> packreq_string name 0x7fffffff msg 0 | NoName \<Rightarrow> Some (Inl NameTooLong)) =
      Some (Inr (req, if 0 < MULTI_PART then 0 else (0 - 1) div MULTI_PART + 1))" using first_package [OF a(1), of 0 msg "0x7fffffff"] a(2) by auto
  moreover have "to_int 0x7fffffff = 0x7fffffff" "cint (2 ^ 31) = None" by (simp_all add: to_int_id cint_def cint_ok_def)
  ultimately show ?thesis by (simp add: lpackrequest_def Let_def)
qed

text \<open>A request of exactly 32 KB is sent in parts.\<close>

lemma full_part_is_split:
  assumes "address_ok addr" "0 < session" "session < 2 ^ 31 - 1" "length msg = MULTI_PART"
  shows "\<exists>req p. lpackrequest addr session (Some msg) (int (length msg)) = Some (Inr (req, session + 1, Some [p]))"
proof -
  obtain req where "(case addr of Number n \<Rightarrow> map_option Inr (packreq_number n session msg (length msg)) | Name name \<Rightarrow> packreq_string name session msg (length msg) | NoName \<Rightarrow> Some (Inl NameTooLong)) =
      Some (Inr (req, Suc 0))" using first_package [OF assms(1) refl, of session msg] assms(4) by (auto simp: MULTI_PART_def)
  moreover have "msg \<noteq> []" using assms(4) by (auto simp: MULTI_PART_def)
  from request_parts [OF this, of session] obtain ps where ps: "packreq_multi session msg (length msg) = Some ps"
      "map (\<lambda>p. lunpackrequest (drop 2 p)) ps = expected (\<lambda>c more. Some (Inr (Part (of_int session) c more))) msg" unfolding packreq_multi_def by blast
  then obtain p where "ps = [p]" using assms(4) by (auto simp: expected.simps [of _ msg])
  moreover have "to_int session = session" "cint (session + 1) = Some (session + 1)" using assms(2,3) by (simp_all add: to_int_id cint_def cint_ok_def)
  moreover have "unat (of_int (int (length msg)) :: u32) = length msg" using assms(4) by (simp add: MULTI_PART_def)
  ultimately show ?thesis using assms(2) ps(1) by (simp add: lpackrequest_def Let_def del: of_int_of_nat_eq)
qed

end
