(* ===== verification/Skynet_Socket.thy ===== *)
theory Skynet_Socket
  imports Skynet_Service Skynet_Netpack Skynet_Socket_Inv
begin

text \<open>
  The layer between the socket server and the services, \<open>skynet-src/skynet_socket.c\<close>: the events of the socket server become
  messages to the services that own the sockets, and the services' requests go to the socket server.  It composes the service
  layer (\<open>Skynet_Server\<close>) with the socket server (\<open>Skynet_Socket_Server\<close>).
\<close>

section \<open>State\<close>

text \<open>The services and the variable \<open>SOCKET_SERVER\<close>.  An operation on a null pointer has no result.\<close>

record net =
  net_sys :: sys
  net_server :: "socket_server option"

definition skynet_socket_init :: "bool \<Rightarrow> bool \<Rightarrow> bool \<Rightarrow> (nat \<Rightarrow> socket) \<Rightarrow> net \<Rightarrow> net" where
  "skynet_socket_init has_pool has_pipe added garbage n = n\<lparr>net_server := socket_server_create has_pool has_pipe added garbage\<rparr>"

definition with_server :: "(socket_server \<Rightarrow> 'a \<times> socket_server) \<Rightarrow> net \<Rightarrow> ('a \<times> net) option" where
  "with_server f n = do {
     ss \<leftarrow> net_server n;
     let (r, ss') = f ss;
     Some (r, n\<lparr>net_server := Some ss'\<rparr>) }"

definition with_server_opt :: "(socket_server \<Rightarrow> ('a \<times> socket_server) option) \<Rightarrow> net \<Rightarrow> ('a \<times> net) option" where
  "with_server_opt f n = do {
     ss \<leftarrow> net_server n;
     (r, ss') \<leftarrow> f ss;
     Some (r, n\<lparr>net_server := Some ss'\<rparr>) }"

definition skynet_socket_exit :: "net \<Rightarrow> net option" where
  "skynet_socket_exit n = map_option snd (with_server (\<lambda>ss. ((), socket_server_exit ss)) n)"

text \<open>The result has the server as it was released, with the calls that were made.\<close>

definition skynet_socket_free :: "int \<Rightarrow> int \<Rightarrow> net \<Rightarrow> (socket_server \<times> net) option" where
  "skynet_socket_free sendctrl_fd recvctrl_fd n = do {
     ss \<leftarrow> net_server n;
     ss' \<leftarrow> socket_server_release sendctrl_fd recvctrl_fd ss;
     Some (ss', n\<lparr>net_server := None\<rparr>) }"

section \<open>Events\<close>

text \<open>The text behind the message: at most 128 bytes of the string, without its terminator.\<close>

definition padding_text :: "payload \<Rightarrow> cstring option" where
  "padding_text d = (case d of
     NoData \<Rightarrow> Some []
   | Text t \<Rightarrow> Some (take 128 t)
   | Buffer bs \<Rightarrow> do { require (0 \<in> set bs); Some (take 128 (takeWhile (\<lambda>c. c \<noteq> 0) bs)) })"

text \<open>The buffer that goes with a message.  The socket server has allocated it, so its bytes become a block of the heap
  here.  A text is in static memory, which is not a block: no result.\<close>

definition data_block :: "payload \<Rightarrow> sys \<Rightarrow> (addr option \<times> sys) option" where
  "data_block d s = (case d of
     NoData \<Rightarrow> Some (None, s)
   | Text _ \<Rightarrow> None
   | Buffer bs \<Rightarrow> (let (a, s1) = skynet_malloc (Bytes bs) s in Some (Some a, s1)))"

definition forward_message :: "code \<Rightarrow> int \<Rightarrow> bool \<Rightarrow> result \<Rightarrow> sys \<Rightarrow> sys option" where
  "forward_message k type padding result s = do {
     text \<leftarrow> (if padding then padding_text (r_data result) else Some []);
     let sz = SOCKET_MESSAGE_SIZE + of_nat (length text);
     (buffer, s1) \<leftarrow> (if padding then Some (None, s) else data_block (r_data result) s);
     let (sm, s2) = skynet_malloc (Socket \<lparr>ssm_type = type, ssm_id = r_id result, ssm_ud = r_ud result, ssm_buffer = buffer\<rparr> text) s1;
     (r, s3) \<leftarrow> skynet_context_push k (of_nat (r_opaque result))
        \<lparr>msg_source = 0, msg_session = 0, msg_data = Some sm, msg_sz = encode_sz sz PTYPE_SOCKET\<rparr> s2;
     (if r \<noteq> 0 then do { s4 \<leftarrow> skynet_free buffer s3; skynet_free (Some sm) s4 } else Some s3) }"

text \<open>The cases of \<open>skynet_socket_poll\<close> that forward a message: its type, and whether it is padded.\<close>

definition forward_case :: "int \<Rightarrow> (int \<times> bool) option" where
  "forward_case type =
     (if type = SOCKET_DATA then Some (SKYNET_SOCKET_TYPE_DATA, False)
      else if type = SOCKET_CLOSE then Some (SKYNET_SOCKET_TYPE_CLOSE, False)
      else if type = SOCKET_OPEN then Some (SKYNET_SOCKET_TYPE_CONNECT, True)
      else if type = SOCKET_ERROR then Some (SKYNET_SOCKET_TYPE_ERROR, True)
      else if type = SOCKET_ACCEPT then Some (SKYNET_SOCKET_TYPE_ACCEPT, True)
      else if type = SOCKET_UDP then Some (SKYNET_SOCKET_TYPE_UDP, False)
      else None)"

definition skynet_socket_poll :: "os \<Rightarrow> code \<Rightarrow> net \<Rightarrow> (int \<times> net) option" where
  "skynet_socket_poll os k n = do {
     ss \<leftarrow> net_server n;
     (type, ss') \<leftarrow> socket_server_poll os (ss\<lparr>ss_more := True\<rparr>);
     let n1 = n\<lparr>net_server := Some ss'\<rparr>;
     (if type = SOCKET_EXIT then Some (0, n1)
      else (case forward_case type of
        Some (ty, padding) \<Rightarrow> do {
          s \<leftarrow> forward_message k ty padding (ss_result ss') (net_sys n);
          Some (if ss_more ss' then - 1 else 1, n1\<lparr>net_sys := s\<rparr>) }
      | None \<Rightarrow> do {
          s \<leftarrow> skynet_error k None (bytes ''Unknown socket message type '' @ fmt_d type @ bytes ''.'') (net_sys n);
          Some (- 1, n1\<lparr>net_sys := s\<rparr>) })) }"

section \<open>Requests\<close>

text \<open>The message on the stack of \<open>check_wsz\<close> is a block for as long as the call lasts.\<close>

definition check_wsz :: "code \<Rightarrow> addr \<Rightarrow> int \<Rightarrow> int \<Rightarrow> sys \<Rightarrow> (int \<times> sys) option" where
  "check_wsz k ctx i wsz s =
     (if wsz < 0 then Some (- 1, s)
      else if wsz > 1024 * 1024 then do {
        let (tmp, s1) = skynet_malloc (Socket \<lparr>ssm_type = SKYNET_SOCKET_TYPE_WARNING, ssm_id = i, ssm_ud = to_int (wsz div 1024), ssm_buffer = None\<rparr> []) s;
        h \<leftarrow> skynet_context_handle ctx s1;
        (_, s2) \<leftarrow> skynet_send k (Some ctx) 0 h PTYPE_SOCKET 0 (Some tmp) SOCKET_MESSAGE_SIZE s1;
        s3 \<leftarrow> skynet_free (Some tmp) s2;
        Some (0, s3) }
      else Some (0, s))"

definition skynet_socket_send :: "os \<Rightarrow> code \<Rightarrow> addr \<Rightarrow> int \<Rightarrow> addr \<Rightarrow> int \<Rightarrow> net \<Rightarrow> (int \<times> net) option" where
  "skynet_socket_send os k ctx i buffer sz n = do {
     (wsz, n1) \<leftarrow> with_server (socket_server_send os i buffer sz) n;
     (r, s) \<leftarrow> check_wsz k ctx i wsz (net_sys n1);
     Some (r, n1\<lparr>net_sys := s\<rparr>) }"

definition skynet_socket_send_lowpriority :: "os \<Rightarrow> int \<Rightarrow> addr \<Rightarrow> int \<Rightarrow> net \<Rightarrow> net option" where
  "skynet_socket_send_lowpriority os i buffer sz n =
     map_option snd (with_server (\<lambda>ss. ((), socket_server_send_lowpriority os i buffer sz ss)) n)"

definition skynet_socket_listen :: "os \<Rightarrow> addr \<Rightarrow> cstring option \<Rightarrow> int \<Rightarrow> int \<Rightarrow> net \<Rightarrow> (int \<times> net) option" where
  "skynet_socket_listen os ctx host port backlog n = do {
     source \<leftarrow> skynet_context_handle ctx (net_sys n);
     with_server_opt (socket_server_listen os (unat source) host port backlog) n }"

definition skynet_socket_connect :: "addr \<Rightarrow> cstring \<Rightarrow> int \<Rightarrow> net \<Rightarrow> (int \<times> net) option" where
  "skynet_socket_connect ctx host port n = do {
     source \<leftarrow> skynet_context_handle ctx (net_sys n);
     with_server (socket_server_connect (unat source) host port) n }"

definition skynet_socket_bind :: "addr \<Rightarrow> int \<Rightarrow> net \<Rightarrow> (int \<times> net) option" where
  "skynet_socket_bind ctx fd n = do {
     source \<leftarrow> skynet_context_handle ctx (net_sys n);
     with_server (socket_server_bind (unat source) fd) n }"

definition skynet_socket_close :: "addr \<Rightarrow> int \<Rightarrow> net \<Rightarrow> net option" where
  "skynet_socket_close ctx i n = do {
     source \<leftarrow> skynet_context_handle ctx (net_sys n);
     (_, n1) \<leftarrow> with_server (\<lambda>ss. ((), socket_server_close (unat source) i ss)) n;
     Some n1 }"

definition skynet_socket_shutdown :: "addr \<Rightarrow> int \<Rightarrow> net \<Rightarrow> net option" where
  "skynet_socket_shutdown ctx i n = do {
     source \<leftarrow> skynet_context_handle ctx (net_sys n);
     (_, n1) \<leftarrow> with_server (\<lambda>ss. ((), socket_server_shutdown (unat source) i ss)) n;
     Some n1 }"

definition skynet_socket_start :: "addr \<Rightarrow> int \<Rightarrow> net \<Rightarrow> net option" where
  "skynet_socket_start ctx i n = do {
     source \<leftarrow> skynet_context_handle ctx (net_sys n);
     (_, n1) \<leftarrow> with_server (\<lambda>ss. ((), socket_server_start (unat source) i ss)) n;
     Some n1 }"

definition skynet_socket_nodelay :: "int \<Rightarrow> net \<Rightarrow> net option" where
  "skynet_socket_nodelay i n = map_option snd (with_server (\<lambda>ss. ((), socket_server_nodelay i ss)) n)"

definition skynet_socket_udp :: "os \<Rightarrow> addr \<Rightarrow> cstring option \<Rightarrow> int \<Rightarrow> net \<Rightarrow> (int \<times> net) option" where
  "skynet_socket_udp os ctx a port n = do {
     source \<leftarrow> skynet_context_handle ctx (net_sys n);
     with_server_opt (socket_server_udp os (unat source) a port) n }"

definition skynet_socket_udp_connect :: "os \<Rightarrow> int \<Rightarrow> cstring \<Rightarrow> int \<Rightarrow> net \<Rightarrow> (int \<times> net) option" where
  "skynet_socket_udp_connect os i a port n = with_server_opt (socket_server_udp_connect os i a port) n"

definition skynet_socket_udp_send :: "os \<Rightarrow> code \<Rightarrow> addr \<Rightarrow> int \<Rightarrow> byte list \<Rightarrow> addr \<Rightarrow> int \<Rightarrow> net \<Rightarrow> (int \<times> net) option" where
  "skynet_socket_udp_send os k ctx i address buffer sz n = do {
     (wsz, n1) \<leftarrow> with_server_opt (socket_server_udp_send os i address buffer sz) n;
     (r, s) \<leftarrow> check_wsz k ctx i wsz (net_sys n1);
     Some (r, n1\<lparr>net_sys := s\<rparr>) }"

text \<open>The address behind the \<open>ud\<close> bytes of a datagram, and its size (its length); \<open>None\<close> inside is \<open>NULL\<close>.\<close>

definition skynet_socket_udp_address :: "skynet_socket_message \<Rightarrow> net \<Rightarrow> byte list option option" where
  "skynet_socket_udp_address msg n =
     (if ssm_type msg \<noteq> SKYNET_SOCKET_TYPE_UDP then Some None
      else do {
        a \<leftarrow> ssm_buffer msg;
        b \<leftarrow> sys_heap (net_sys n) a;
        (case b of Bytes bs \<Rightarrow> socket_server_udp_address bs (ssm_ud msg) | _ \<Rightarrow> None) })"

section \<open>What the socket server reports\<close>

text \<open>The data of an event: a buffer for data, nothing for a closed socket, and a text or nothing otherwise.\<close>

definition reports :: "int \<Rightarrow> payload \<Rightarrow> bool" where
  "reports ty d \<longleftrightarrow> ty = - 1 \<or> ty = SOCKET_EXIT \<or> ((ty = SOCKET_DATA \<or> ty = SOCKET_UDP) \<and> (\<exists>bs. d = Buffer bs)) \<or>
     (ty = SOCKET_CLOSE \<and> d = NoData) \<or> ((ty = SOCKET_OPEN \<or> ty = SOCKET_ERROR \<or> ty = SOCKET_ACCEPT) \<and> (d = NoData \<or> (\<exists>t. d = Text t)))"

abbreviation reported :: "int \<times> socket_server \<Rightarrow> bool" where
  "reported x \<equiv> reports (fst x) (r_data (ss_result (snd x)))"

lemma reports_simps [simp]: "reports (- 1) d" "reports SOCKET_EXIT d" "reports SOCKET_DATA (Buffer bs)" "reports SOCKET_UDP (Buffer bs)"
  "reports SOCKET_CLOSE NoData" "reports SOCKET_OPEN NoData" "reports SOCKET_OPEN (Text t)" "reports SOCKET_ERROR (Text t)"
  "reports SOCKET_ERROR NoData" "reports SOCKET_ACCEPT NoData" "reports SOCKET_ACCEPT (Text t)"
  by (simp_all add: reports_def)

lemma bind_someE: "Option.bind m f = Some x \<Longrightarrow> (\<And>y. m = Some y \<Longrightarrow> f y = Some x \<Longrightarrow> P) \<Longrightarrow> P"
  by (cases m) simp_all

lemma force_close_data: "force_close k ss = Some ss' \<Longrightarrow> r_data (ss_result ss') = NoData"
  by (auto simp: force_close_def Let_def bind_eq_Some_conv require_def split: if_splits)

definition closes :: "int \<times> socket_server \<Rightarrow> bool" where
  "closes x \<longleftrightarrow> fst x = - 1 \<or> (fst x = SOCKET_CLOSE \<and> r_data (ss_result (snd x)) = NoData)"

lemma closes_simps [simp]: "closes (- 1, ss)" "r_data (ss_result ss) = NoData \<Longrightarrow> closes (SOCKET_CLOSE, ss)"
  by (simp_all add: closes_def)

lemma closes_reported: "closes x \<Longrightarrow> reported x"
  by (auto simp: closes_def)

lemma send_list_tcp_closes: "send_list_tcp os high k ss = Some x \<Longrightarrow> closes x"
  by (erule send_list_tcp.raw_induct [rotated, where P = "\<lambda>_ _ _ _ x. closes x"])
    (auto simp: closes_def Let_def bind_eq_Some_conv force_close_data split: list.splits ret.splits if_splits)

lemma send_list_udp_closes: "send_list_udp os high k ss = Some x \<Longrightarrow> closes x"
  by (erule send_list_udp.raw_induct [rotated, where P = "\<lambda>_ _ _ _ x. closes x"])
    (auto simp: Let_def split: list.splits ret.splits if_splits elim!: bind_someE)

lemma send_list_closes: "send_list os high k ss = Some x \<Longrightarrow> closes x"
  by (simp add: send_list_def send_list_tcp_closes send_list_udp_closes split: if_splits)

lemma send_buffer_closes: "send_buffer os k ss = Some x \<Longrightarrow> closes x"
  by (auto simp: send_buffer_def closes_def Let_def bind_eq_Some_conv force_close_data split: if_splits
      dest!: send_list_closes)

lemma write_direct_data: "write_direct os k request ss = Some (None, ss') \<Longrightarrow> r_data (ss_result ss') = NoData"
  by (auto simp: write_direct_def Let_def bind_eq_Some_conv force_close_data split: ret.splits if_splits prod.splits)

lemma send_socket_closes: "send_socket os request high a ss = Some x \<Longrightarrow> closes x"
  by (auto simp: send_socket_def closes_def Let_def write_direct_data split: prod.splits option.splits if_splits elim!: bind_someE)

lemma open_failed_reported [simp]: "reported (open_failed k i opaque msg ss)"
  by (simp add: open_failed_def)

lemma open_socket_reported: "open_socket os i port opaque host ss = Some x \<Longrightarrow> reported x"
  by (auto simp: open_socket_def Let_def bind_eq_Some_conv split: sum.splits option.splits prod.splits if_splits)

lemma close_socket_closes: "close_socket os i shutdown opaque ss = Some x \<Longrightarrow> closes x"
  by (auto simp: close_socket_def closes_def Let_def bind_eq_Some_conv force_close_data split: if_splits dest!: send_buffer_closes)

lemma start_socket_reported: "start_socket os i opaque ss = Some x \<Longrightarrow> reported x"
  by (auto simp: start_socket_def Let_def bind_eq_Some_conv split: if_splits option.splits)

lemma ctrl_cmd_reported: "ctrl_cmd os ss = Some x \<Longrightarrow> reported x"
  by (auto simp: ctrl_cmd_def Let_def bind_eq_Some_conv listen_socket_def bind_socket_def set_udp_address_def
      split: list.splits request.splits if_splits prod.splits
      dest: open_socket_reported close_socket_closes [THEN closes_reported] start_socket_reported send_socket_closes [THEN closes_reported])

lemma report_connect_reported: "report_connect os k ss = Some x \<Longrightarrow> reported x"
  by (auto simp: report_connect_def Let_def bind_eq_Some_conv split: sum.splits if_splits option.splits)

lemma report_accept_reported:
  "report_accept os k ss = Some (r, ss') \<Longrightarrow> 0 < r \<Longrightarrow> reports SOCKET_ACCEPT (r_data (ss_result ss'))"
  "report_accept os k ss = Some (r, ss') \<Longrightarrow> r < 0 \<Longrightarrow> reports SOCKET_ERROR (r_data (ss_result ss'))"
  by (auto simp: report_accept_def Let_def bind_eq_Some_conv split: sum.splits if_splits option.splits prod.splits)

lemma forward_tcp_reported: "forward_message_tcp os k ss = Some x \<Longrightarrow> reported x"
  by (auto simp: forward_message_tcp_def Let_def bind_eq_Some_conv force_close_data split: sum.splits if_splits)

lemma forward_udp_reported: "forward_message_udp os k ss = Some x \<Longrightarrow> reported x"
  by (auto simp: forward_message_udp_def Let_def bind_eq_Some_conv split: sum.splits if_splits prod.splits)

lemma poll_rw_reported: "poll_rw os e k ss = Some (Some ty, ss') \<Longrightarrow> reported (ty, ss')"
  by (auto simp: poll_rw_def Let_def bind_eq_Some_conv split: if_splits
      dest!: forward_tcp_reported forward_udp_reported send_buffer_closes [THEN closes_reported])

lemma poll_event_reported: "poll_event os ss = Some (Some ty, ss') \<Longrightarrow> reported (ty, ss')"
  by (auto simp: poll_event_def Let_def report_accept_reported split: if_splits option.splits elim!: bind_someE
      dest!: report_connect_reported dest: poll_rw_reported [simplified])

lemma poll_step_reported: "poll_step os ss = Some (Some ty, ss') \<Longrightarrow> reported (ty, ss')"
  by (auto simp: poll_step_def Let_def bind_eq_Some_conv clear_closed_event_def split: if_splits
      dest!: ctrl_cmd_reported dest: poll_event_reported [simplified])

lemma socket_server_poll_reported: "socket_server_poll os ss = Some x \<Longrightarrow> reported x"
  by (erule socket_server_poll.raw_induct [rotated, where P = "\<lambda>_ _ x. reported x"])
    (auto simp: bind_eq_Some_conv split: option.splits dest: poll_step_reported)

section \<open>What is delivered\<close>

text \<open>The type of the message for an event.\<close>

definition event_types :: "(int \<times> int) list" where
  "event_types = [(SOCKET_DATA, SKYNET_SOCKET_TYPE_DATA), (SOCKET_CLOSE, SKYNET_SOCKET_TYPE_CLOSE), (SOCKET_OPEN, SKYNET_SOCKET_TYPE_CONNECT),
     (SOCKET_ACCEPT, SKYNET_SOCKET_TYPE_ACCEPT), (SOCKET_ERROR, SKYNET_SOCKET_TYPE_ERROR), (SOCKET_UDP, SKYNET_SOCKET_TYPE_UDP)]"

text \<open>The data of an event: a buffer of its own, or a text of at most 128 bytes behind the structure.\<close>

definition event_data :: "sys \<Rightarrow> payload \<Rightarrow> addr option \<Rightarrow> byte list \<Rightarrow> bool" where
  "event_data s d p trail \<longleftrightarrow> (case d of
     NoData \<Rightarrow> p = None \<and> trail = []
   | Text t \<Rightarrow> p = None \<and> trail = take 128 t
   | Buffer bs \<Rightarrow> trail = [] \<and> (\<exists>b. p = Some b \<and> sys_heap s b = Some (Bytes bs)))"

text \<open>A message carries an event: a structure with the type, the socket and the number, and the data.\<close>

definition carries :: "sys \<Rightarrow> int \<Rightarrow> result \<Rightarrow> skynet_message \<Rightarrow> bool" where
  "carries s ty r m \<longleftrightarrow> msg_source m = 0 \<and> msg_session m = 0 \<and> uint (drop_bit MESSAGE_TYPE_SHIFT (msg_sz m)) = PTYPE_SOCKET \<and>
     (\<exists>a p trail. msg_data m = Some a \<and> sys_heap s a = Some (Socket \<lparr>ssm_type = ty, ssm_id = r_id r, ssm_ud = r_ud r, ssm_buffer = p\<rparr> trail) \<and>
        msg_sz m AND MESSAGE_TYPE_MASK = SOCKET_MESSAGE_SIZE + of_nat (length trail) \<and>
        event_data s (r_data r) p trail)"

definition heap_kept :: "sys \<Rightarrow> sys \<Rightarrow> bool" where
  "heap_kept s s' \<longleftrightarrow> (\<forall>a b. sys_heap s a = Some b \<longrightarrow> sys_heap s' a = Some b)"

lemma message_size:
  assumes "n \<le> 128"
  shows "(SOCKET_MESSAGE_SIZE + of_nat n) AND MESSAGE_TYPE_MASK = SOCKET_MESSAGE_SIZE + of_nat n"
proof -
  let ?sz = "SOCKET_MESSAGE_SIZE + of_nat n :: u64"
  have "unat ?sz = 24 + n" using assms by (simp add: SOCKET_MESSAGE_SIZE_def unat_word_ariths unat_of_nat)
  then have "unat (take_bit 56 ?sz) = unat ?sz"
    using assms by (simp only: unsigned_take_bit_eq) (simp add: take_bit_nat_eq_self)
  then have "take_bit 56 ?sz = ?sz" by (rule word_unat_eq_iff [THEN iffD2])
  moreover have "MESSAGE_TYPE_MASK = mask 56" by (rule bit_word_eqI) (auto simp: MESSAGE_TYPE_MASK_def bit_simps)
  ultimately show ?thesis by (simp only: take_bit_eq_mask)
qed

lemma push_socket:
  assumes "sys_inv xs hs s" "services s h = Some c" "inbox_room s h" "length trail \<le> 128"
    and a: "sys_heap s a = Some (Socket \<lparr>ssm_type = ty, ssm_id = r_id r, ssm_ud = r_ud r, ssm_buffer = p\<rparr> trail)"
    and d: "event_data s (r_data r) p trail"
  shows "\<exists>ys s' m. skynet_context_push k h \<lparr>msg_source = 0, msg_session = 0, msg_data = Some a,
        msg_sz = encode_sz (SOCKET_MESSAGE_SIZE + of_nat (length trail)) PTYPE_SOCKET\<rparr> s = Some (0, s') \<and> sys_inv ys hs s' \<and>
     inbox s' h = inbox s h @ [m] \<and> (\<forall>h'. h' \<noteq> h \<longrightarrow> inbox s' h' = inbox s h') \<and> carries s' ty r m \<and> sys_heap s' = sys_heap s"
proof -
  let ?sz = "SOCKET_MESSAGE_SIZE + of_nat (length trail) :: u64"
  let ?m = "\<lparr>msg_source = 0, msg_session = 0, msg_data = Some a, msg_sz = encode_sz ?sz PTYPE_SOCKET\<rparr>"
  obtain ys s' where s': "skynet_context_push k h ?m s = Some (0, s')" "sys_inv ys hs s'" "s' = s\<lparr>mqs := mqs s', gQ := gQ s'\<rparr>"
     "inbox s' h = inbox s h @ [?m]" "\<forall>h'. h' \<noteq> h \<longrightarrow> inbox s' h' = inbox s h'"
    using context_push_ok [OF assms(1-3)] by blast
  have heap: "sys_heap s' = sys_heap s" using arg_cong [OF s'(3), of sys_heap] by simp
  have "uint (drop_bit MESSAGE_TYPE_SHIFT (encode_sz ?sz PTYPE_SOCKET)) = PTYPE_SOCKET \<and> encode_sz ?sz PTYPE_SOCKET AND MESSAGE_TYPE_MASK = ?sz"
    using decode_encode [OF message_size [OF assms(4)], of PTYPE_SOCKET] by (simp add: PTYPE_SOCKET_def)
  then have "carries s' ty r ?m" using a d unfolding carries_def event_data_def heap by simp
  then show ?thesis using s' heap by blast
qed

text \<open>A state in which a block was allocated.\<close>

definition allocated :: "addr list \<Rightarrow> addr set \<Rightarrow> addr \<Rightarrow> block \<Rightarrow> sys \<Rightarrow> sys \<Rightarrow> bool" where
  "allocated xs hs a b s s' \<longleftrightarrow> sys_inv xs hs s' \<and> services s' = services s \<and> inbox s' = inbox s \<and> (\<forall>h. inbox_room s' h = inbox_room s h) \<and>
     sys_heap s a = None \<and> sys_heap s' = (sys_heap s)(a \<mapsto> b)"

lemma malloc_allocated:
  assumes inv: "sys_inv xs hs s"
  obtains a s' where "skynet_malloc b s = (a, s')" "allocated xs hs a b s s'"
proof -
  obtain a s' where m: "skynet_malloc b s = (a, s')" by fastforce
  note i = malloc_inv [OF inv m]
  have s': "s' = s\<lparr>sys_heap := (sys_heap s)(a \<mapsto> b), sys_brk := Suc a\<rparr>" using i by blast
  have "sys_heap s' = (sys_heap s)(a \<mapsto> b)" by (simp add: s')
  moreover have "services s' = services s" using i by blast
  moreover have "inbox_room s' h = inbox_room s h" for h
    unfolding inbox_room_def \<open>services s' = services s\<close> by (simp add: s')
  ultimately have "allocated xs hs a b s s'" using i unfolding allocated_def by blast
  with m show thesis by (rule that)
qed

text \<open>The two blocks of a message: its data, if any, and the structure.\<close>

lemma data_allocated:
  assumes inv: "sys_inv xs hs s" and d: "if padding then \<forall>bs. r_data r \<noteq> Buffer bs else \<forall>t. r_data r \<noteq> Text t"
  obtains trail p s1 where "(if padding then padding_text (r_data r) else Some []) = Some trail" "length trail \<le> 128"
    "(if padding then Some (None, s) else data_block (r_data r) s) = Some (p, s1)" "event_data s1 (r_data r) p trail"
    "case p of None \<Rightarrow> s1 = s | Some b \<Rightarrow> \<exists>x. allocated xs hs b x s s1"
proof (cases "r_data r")
  case (Buffer bs)
  then have "\<not> padding" using d by auto
  moreover obtain b s1 where m: "skynet_malloc (Bytes bs) s = (b, s1)" "allocated xs hs b (Bytes bs) s s1" by (rule malloc_allocated [OF inv])
  moreover from m(2) have "sys_heap s1 b = Some (Bytes bs)" by (simp add: allocated_def)
  ultimately show thesis using Buffer by (intro that [of "[]" "Some b" s1]) (auto simp: data_block_def event_data_def)
qed (use d in \<open>auto intro!: that [of _ None s] simp: padding_text_def data_block_def event_data_def split: if_splits\<close>)

lemma push_socket_unknown:
  assumes "sys_inv xs hs s" "services s h = None" "sys_heap s a \<noteq> None" "\<And>b. p = Some b \<Longrightarrow> b \<noteq> a \<and> sys_heap s b \<noteq> None"
  shows "\<exists>s1 s2. skynet_context_push k h m s = Some (- 1, s) \<and> skynet_free p s = Some s1 \<and> skynet_free (Some a) s1 = Some s2 \<and>
    sys_inv xs hs s2 \<and> inbox s2 = inbox s \<and>
    sys_heap s2 = (case p of None \<Rightarrow> (sys_heap s)(a := None) | Some b \<Rightarrow> (sys_heap s)(b := None, a := None))"
proof -
  obtain s1 where s1: "skynet_free p s = Some s1" "sys_inv xs hs s1" "inbox s1 = inbox s" "sys_heap s1 a = sys_heap s a"
      "sys_heap s1 = (case p of None \<Rightarrow> sys_heap s | Some b \<Rightarrow> (sys_heap s)(b := None))"
  proof (cases p)
    case None
    then show thesis using assms(1) by (intro that [of s]) (simp_all add: skynet_free_def)
  next
    case (Some b)
    then obtain x where "sys_heap s b = Some x" "b \<noteq> a" using assms(4) by blast
    moreover from this obtain s1 where "skynet_free (Some b) s = Some s1" "s1 = s\<lparr>sys_heap := (sys_heap s)(b := None)\<rparr>" "sys_inv xs hs s1"
        "inbox s1 = inbox s" using free_inv [OF assms(1), of b x] by blast
    ultimately show thesis using Some by (intro that [of s1]) simp_all
  qed
  then obtain x where "sys_heap s1 a = Some x" using assms(3) by auto
  then obtain s2 where "skynet_free (Some a) s1 = Some s2" "s2 = s1\<lparr>sys_heap := (sys_heap s1)(a := None)\<rparr>" "sys_inv xs hs s2" "inbox s2 = inbox s1"
    using free_inv [OF s1(2)] by blast
  moreover from this have "sys_heap s2 = (sys_heap s1)(a := None)" by simp
  ultimately show ?thesis using s1 context_push_unknown [OF assms(1,2), of k m]
    by (intro exI [of _ s1] exI [of _ s2]) (cases p; simp only: option.case)
qed

lemma forward_message_spec:
  assumes inv: "sys_inv xs hs s" and d: "if padding then \<forall>bs. r_data r \<noteq> Buffer bs else \<forall>t. r_data r \<noteq> Text t"
    and h: "h = of_nat (r_opaque r)" and room: "inbox_room s h"
  shows "\<exists>ys s'. forward_message k ty padding r s = Some s' \<and> sys_inv ys hs s' \<and> (\<forall>h'. h' \<noteq> h \<longrightarrow> inbox s' h' = inbox s h') \<and>
     (if services s h = None then sys_heap s' = sys_heap s \<and> inbox s' h = inbox s h
      else heap_kept s s' \<and> (\<exists>m. inbox s' h = inbox s h @ [m] \<and> carries s' ty r m))"
proof -
  obtain trail p s1 where t: "(if padding then padding_text (r_data r) else Some []) = Some trail" "length trail \<le> 128"
    "(if padding then Some (None, s) else data_block (r_data r) s) = Some (p, s1)" "event_data s1 (r_data r) p trail"
    "case p of None \<Rightarrow> s1 = s | Some b \<Rightarrow> \<exists>x. allocated xs hs b x s s1"
    by (rule data_allocated [OF inv d])
  let ?sm = "Socket \<lparr>ssm_type = ty, ssm_id = r_id r, ssm_ud = r_ud r, ssm_buffer = p\<rparr> trail"
  let ?m = "\<lambda>a. \<lparr>msg_source = 0, msg_session = 0, msg_data = Some a, msg_sz = encode_sz (SOCKET_MESSAGE_SIZE + of_nat (length trail)) PTYPE_SOCKET\<rparr>"
  have s1: "sys_inv xs hs s1" "services s1 = services s" "inbox s1 = inbox s" "inbox_room s1 h"
    using t(5) inv room by (auto simp: allocated_def split: option.splits)
  obtain a s2 where m: "skynet_malloc ?sm s1 = (a, s2)" "allocated xs hs a ?sm s1 s2" by (rule malloc_allocated [OF s1(1)])
  have s2: "sys_inv xs hs s2" "services s2 = services s" "inbox s2 = inbox s" "inbox_room s2 h" "sys_heap s1 a = None" "sys_heap s2 = (sys_heap s1)(a \<mapsto> ?sm)"
    using m(2) s1 by (simp_all add: allocated_def)
  have run: "forward_message k ty padding r s = do {
      (r, s3) \<leftarrow> skynet_context_push k h (?m a) s2;
      (if r \<noteq> 0 then do { s4 \<leftarrow> skynet_free p s3; skynet_free (Some a) s4 } else Some s3) }"
    unfolding forward_message_def t(1,3) h by (simp add: m(1))
  show ?thesis
  proof (cases "services s h")
    case None
    have own: "b \<noteq> a \<and> sys_heap s2 b \<noteq> None" if "p = Some b" for b using that t(5) s2(5,6) by (auto simp: allocated_def)
    have n: "services s2 h = None" "sys_heap s2 a \<noteq> None" using None s2(2,6) by simp_all
    obtain s3 s4 where e: "skynet_context_push k h (?m a) s2 = Some (- 1, s2)" "skynet_free p s2 = Some s3" "skynet_free (Some a) s3 = Some s4"
      "sys_inv xs hs s4" "inbox s4 = inbox s2" "sys_heap s4 = (case p of None \<Rightarrow> (sys_heap s2)(a := None) | Some b \<Rightarrow> (sys_heap s2)(b := None, a := None))"
      using push_socket_unknown [OF s2(1) n, of p k "?m a"] own by blast
    have "sys_heap s4 = sys_heap s"
      using t(5) s2(5) by (auto simp: e(6) s2(6) allocated_def fun_eq_iff split: option.splits)
    then show ?thesis using run e None s2(3) by auto
  next
    case (Some c)
    have "event_data s2 (r_data r) p trail" using t(4) s2(5) by (auto simp: event_data_def s2(6) split: payload.splits) (metis option.distinct(1))
    then obtain ys s3 m where e: "skynet_context_push k h (?m a) s2 = Some (0, s3)" "sys_inv ys hs s3" "inbox s3 h = inbox s2 h @ [m]"
      "\<forall>h'. h' \<noteq> h \<longrightarrow> inbox s3 h' = inbox s2 h'" "carries s3 ty r m" "sys_heap s3 = sys_heap s2"
      using push_socket [OF s2(1) _ s2(4) t(2), of c a ty r p k] Some s2(2,6) by auto
    have "heap_kept s s3" using t(5) s2(5) by (auto simp: heap_kept_def e(6) s2(6) allocated_def split: option.splits if_splits)
    then show ?thesis using run e Some s2(3) by auto
  qed
qed

lemma forward_case_simps:
  "forward_case SOCKET_DATA = Some (SKYNET_SOCKET_TYPE_DATA, False)" "forward_case SOCKET_CLOSE = Some (SKYNET_SOCKET_TYPE_CLOSE, False)"
  "forward_case SOCKET_OPEN = Some (SKYNET_SOCKET_TYPE_CONNECT, True)" "forward_case SOCKET_ERROR = Some (SKYNET_SOCKET_TYPE_ERROR, True)"
  "forward_case SOCKET_ACCEPT = Some (SKYNET_SOCKET_TYPE_ACCEPT, True)" "forward_case SOCKET_UDP = Some (SKYNET_SOCKET_TYPE_UDP, False)"
  by (simp_all add: forward_case_def SOCKET_DATA_def SOCKET_CLOSE_def SOCKET_OPEN_def SOCKET_ACCEPT_def SOCKET_ERROR_def SOCKET_UDP_def)

text \<open>Every event but the exit is forwarded with the type of the table, and its data fits the way it is forwarded.\<close>

lemma forward_case_event:
  assumes "reports ty d" "ty \<noteq> - 1" "ty \<noteq> SOCKET_EXIT"
  shows "\<exists>t padding. forward_case ty = Some (t, padding) \<and> (ty, t) \<in> set event_types \<and>
    (if padding then \<forall>bs. d \<noteq> Buffer bs else \<forall>x. d \<noteq> Text x)"
  using assms
  unfolding reports_def by (elim disjE conjE exE) (simp_all add: forward_case_simps event_types_def ex_bool_eq)

section \<open>Warnings\<close>

text \<open>\<open>check_wsz\<close>: below a megabyte nothing happens; above it, the caller gets one warning with the number of kilobytes, and the
  structure on the stack is gone.\<close>

lemma check_wsz_quiet:
  "wsz < 0 \<Longrightarrow> check_wsz k ctx i wsz s = Some (- 1, s)" "0 \<le> wsz \<Longrightarrow> wsz \<le> 1024 * 1024 \<Longrightarrow> check_wsz k ctx i wsz s = Some (0, s)"
  by (simp_all add: check_wsz_def)

lemma check_wsz_warns:
  assumes inv: "sys_inv xs hs s" and wsz: "1024 * 1024 < wsz" "wsz < 2 ^ 41" and c: "skynet_context_handle c s = Some h" "services s h \<noteq> None" "h \<noteq> 0"
    "inbox_room s h" "skynet_harbor_message_isremote h s = Some False"
  shows "\<exists>ys s' m b. check_wsz k c i wsz s = Some (0, s') \<and> sys_inv ys hs s' \<and> inbox s' h = inbox s h @ [m] \<and> (\<forall>h'. h' \<noteq> h \<longrightarrow> inbox s' h' = inbox s h') \<and>
     msg_source m = h \<and> msg_data m = Some b \<and> sys_heap s b = None \<and> uint (drop_bit MESSAGE_TYPE_SHIFT (msg_sz m)) = PTYPE_SOCKET \<and>
     sys_heap s' = (sys_heap s)(b \<mapsto> Socket \<lparr>ssm_type = SKYNET_SOCKET_TYPE_WARNING, ssm_id = i, ssm_ud = wsz div 1024, ssm_buffer = None\<rparr> [0])"
proof -
  let ?w = "\<lparr>ssm_type = SKYNET_SOCKET_TYPE_WARNING, ssm_id = i, ssm_ud = wsz div 1024, ssm_buffer = None\<rparr>"
  obtain a s1 where m: "skynet_malloc (Socket ?w []) s = (a, s1)" "allocated xs hs a (Socket ?w []) s s1" by (rule malloc_allocated [OF inv])
  have s1: "sys_inv xs hs s1" "services s1 h \<noteq> None" "inbox_room s1 h" "inbox s1 = inbox s" "sys_heap s a = None" "sys_heap s1 = (sys_heap s)(a \<mapsto> Socket ?w [])"
    using m(2) c by (auto simp: allocated_def)
  have same: "skynet_context_handle c s1 = Some h" "skynet_harbor_message_isremote h s1 = Some False"
    using m(1) c by (auto simp: skynet_malloc_def skynet_context_handle_def skynet_harbor_message_isremote_def)
  have "copy_block a SOCKET_MESSAGE_SIZE s1 = Some (Socket ?w [0])" by (simp add: copy_block_def s1(6))
  moreover have "SOCKET_MESSAGE_SIZE AND MESSAGE_TYPE_MASK = SOCKET_MESSAGE_SIZE" using message_size [of 0] by simp
  ultimately obtain ys s2 b m where e: "skynet_send k (Some c) 0 h PTYPE_SOCKET 0 (Some a) SOCKET_MESSAGE_SIZE s1 = Some (0, s2)" "sys_inv ys hs s2"
     "inbox s2 h = inbox s1 h @ [m]" "\<forall>h'. h' \<noteq> h \<longrightarrow> inbox s2 h' = inbox s1 h'" "msg_source m = h" "msg_data m = Some b"
     "sys_heap s1 b = None" "sys_heap s2 = (sys_heap s1)(b \<mapsto> Socket ?w [0])" "uint (drop_bit MESSAGE_TYPE_SHIFT (msg_sz m)) = PTYPE_SOCKET"
    using send_copy [OF s1(1-3) c(3) same(2), of PTYPE_SOCKET SOCKET_MESSAGE_SIZE a _ 0 "Some c" h k 0] same(1) by (auto simp: PTYPE_SOCKET_def)
  have ab: "a \<noteq> b" using e(7) by (auto simp: s1(6))
  then obtain s3 where f: "skynet_free (Some a) s2 = Some s3" "s3 = s2\<lparr>sys_heap := (sys_heap s2)(a := None)\<rparr>" "sys_inv ys hs s3" "inbox s3 = inbox s2"
    using free_inv [OF e(2), of a "Socket ?w []"] by (auto simp: e(8) s1(6))
  have "to_int (wsz div 1024) = wsz div 1024" using wsz by (intro to_int_id) simp_all
  then have "check_wsz k c i wsz s = Some (0, s3)" using wsz(1) m(1) same(1) e(1) f(1) by (simp add: check_wsz_def)
  moreover have "sys_heap s3 = (sys_heap s)(b \<mapsto> Socket ?w [0])"
    using ab s1(5) by (simp add: f(2) e(8) s1(6) fun_upd_twist fun_upd_idem)
  moreover have "sys_heap s b = None" using e(7) ab by (simp add: s1(6))
  ultimately show ?thesis using f(3,4) e(3-6,9) s1(4) by (intro exI [of _ ys] exI [of _ s3] exI [of _ m] exI [of _ b]) simp
qed

section \<open>Properties\<close>

text \<open>C38: every event that the socket server reports reaches the service that owns the socket as exactly one message.
  \<open>skynet_socket_poll\<close> returns, no other inbox changes, and the message is from nobody, has the type
  \<open>PTYPE_SOCKET\<close> and the size of the structure with the text behind it, and carries the kind of event, the socket, the number and
  the data.  When the owner is gone, the data and the message are freed: the heap is as before and no inbox changes.\<close>

theorem socket_event_forwarded:
  assumes "sys_inv xs hs (net_sys n)" "net_server n = Some ss" "socket_server_poll os (ss\<lparr>ss_more := True\<rparr>) = Some (ty, ss')"
    "ty \<noteq> - 1" "ty \<noteq> SOCKET_EXIT" "h = of_nat (r_opaque (ss_result ss'))" "inbox_room (net_sys n) h"
  shows "\<exists>ys s'. skynet_socket_poll os k n = Some (if ss_more ss' then - 1 else 1, \<lparr>net_sys = s', net_server = Some ss'\<rparr>) \<and> sys_inv ys hs s' \<and>
     (\<forall>h'. h' \<noteq> h \<longrightarrow> inbox s' h' = inbox (net_sys n) h') \<and>
     (if services (net_sys n) h = None then sys_heap s' = sys_heap (net_sys n) \<and> inbox s' h = inbox (net_sys n) h
      else heap_kept (net_sys n) s' \<and>
        (\<exists>m t. (ty, t) \<in> set event_types \<and> inbox s' h = inbox (net_sys n) h @ [m] \<and> carries s' t (ss_result ss') m))"
proof -
  have "reports ty (r_data (ss_result ss'))" using socket_server_poll_reported [OF assms(3)] by simp
  then obtain t padding where f: "forward_case ty = Some (t, padding)" "(ty, t) \<in> set event_types"
    "if padding then \<forall>bs. r_data (ss_result ss') \<noteq> Buffer bs else \<forall>x. r_data (ss_result ss') \<noteq> Text x"
    using forward_case_event assms(4,5) by blast
  obtain ys s' where s': "forward_message k t padding (ss_result ss') (net_sys n) = Some s'" "sys_inv ys hs s'"
     "\<forall>h'. h' \<noteq> h \<longrightarrow> inbox s' h' = inbox (net_sys n) h'"
     "if services (net_sys n) h = None then sys_heap s' = sys_heap (net_sys n) \<and> inbox s' h = inbox (net_sys n) h
      else heap_kept (net_sys n) s' \<and> (\<exists>m. inbox s' h = inbox (net_sys n) h @ [m] \<and> carries s' t (ss_result ss') m)"
    using forward_message_spec [OF assms(1) f(3) assms(6,7), of k t] by blast
  have "skynet_socket_poll os k n = Some (if ss_more ss' then - 1 else 1, \<lparr>net_sys = s', net_server = Some ss'\<rparr>)"
    using assms(2-5) f(1) s'(1) by (cases n) (simp add: skynet_socket_poll_def)
  then show ?thesis using s' f(2) by (intro exI [of _ ys] exI [of _ s']) (auto split: if_splits)
qed

text \<open>A server with a request to start a socket that does not exist, made by the service of the sample state.\<close>

definition demo_net :: net where
  "demo_net = \<lparr>net_sys = sample_sys, net_server = Some (demo_server\<lparr>ss_pipe := [ReqStart 3 0x01000001]\<rparr>)\<rparr>"

lemma demo_poll: "\<exists>ss'. socket_server_poll demo_os (demo_server\<lparr>ss_pipe := [ReqStart 3 0x01000001], ss_more := True\<rparr>) = Some (SOCKET_ERROR, ss') \<and>
    ss_result ss' = \<lparr>r_id = 3, r_opaque = 0x01000001, r_ud = 0, r_data = Text (bytes ''invalid socket'')\<rparr> \<and> ss_more ss'"
  by (subst socket_server_poll.simps)
    (simp add: poll_step_def demo_server_def has_cmd_def demo_os_def tick_def ctrl_cmd_def start_socket_def Let_def HASH_ID_eq socket_zero_def
      SOCKET_ERROR_def SOCKET_TYPE_INVALID_def clear_closed_event_def put_result_def)

theorem socket_event_forwarded_witness:
  "\<exists>n' m. skynet_socket_poll demo_os sample_code demo_net = Some (- 1, n') \<and>
     inbox (net_sys n') 0x01000001 = inbox sample_sys 0x01000001 @ [m] \<and>
     carries (net_sys n') SKYNET_SOCKET_TYPE_ERROR \<lparr>r_id = 3, r_opaque = 0x01000001, r_ud = 0, r_data = Text (bytes ''invalid socket'')\<rparr> m"
proof -
  obtain ss' where p: "socket_server_poll demo_os (demo_server\<lparr>ss_pipe := [ReqStart 3 0x01000001], ss_more := True\<rparr>) = Some (SOCKET_ERROR, ss')"
    "ss_result ss' = \<lparr>r_id = 3, r_opaque = 0x01000001, r_ud = 0, r_data = Text (bytes ''invalid socket'')\<rparr>" "ss_more ss'"
    using demo_poll by blast
  have t: "t = SKYNET_SOCKET_TYPE_ERROR" if "(SOCKET_ERROR, t) \<in> set event_types" for t
    using that by (auto simp: event_types_def SOCKET_DATA_def SOCKET_CLOSE_def SOCKET_OPEN_def SOCKET_ACCEPT_def SOCKET_ERROR_def SOCKET_UDP_def)
  have "SOCKET_ERROR \<noteq> - 1" "SOCKET_ERROR \<noteq> SOCKET_EXIT" by (simp_all add: SOCKET_ERROR_def SOCKET_EXIT_def)
  then show ?thesis
    using socket_event_forwarded [of "[]" "{0}" demo_net _ demo_os SOCKET_ERROR ss' "0x01000001" sample_code] sample_inv p t
    by (force simp: demo_net_def)
qed

end
