(* ===== verification/Skynet_Lua_Socket.thy ===== *)
theory Skynet_Lua_Socket
  imports Skynet_Databuffer Skynet_Socket "HOL-Library.Sublist"
begin

text \<open>
  The input buffers of services written in Lua, \<open>lualib-src/lua-socket.c\<close>: the blocks that were received on a socket wait in a
  list of nodes and are read by size, by line or all at once.  The list from \<open>head\<close> to \<open>tail\<close> is a list of byte lists.  The nodes come from
  a pool, a Lua table whose first entry is the list of free nodes (here its length) and whose other entries are chunks of
  nodes (here their sizes).  The value \<open>None\<close> stands for a failed assertion, an access outside of a block or an overflow of an \<open>int\<close>.
\<close>

section \<open>Model\<close>

definition LARGE_PAGE_NODE :: nat where "LARGE_PAGE_NODE = 12"

record socket_buffer =
  sb_size :: int
  sb_offset :: int
  sb_nodes :: "byte list list"

record buffer_pool =
  pl_free :: nat
  pl_chunks :: "nat list"

definition lnewbuffer :: socket_buffer where
  "lnewbuffer = \<lparr>sb_size = 0, sb_offset = 0, sb_nodes = []\<rparr>"

text \<open>\<open>lnewpool\<close> makes all nodes of a new chunk free.\<close>

definition lnewpool :: "nat \<Rightarrow> buffer_pool \<Rightarrow> buffer_pool" where
  "lnewpool sz pool = pool\<lparr>pl_free := sz, pl_chunks := pl_chunks pool @ [sz]\<rparr>"

definition chunk_size :: "buffer_pool \<Rightarrow> nat" where
  "chunk_size pool =
     (let tsz = (if pl_chunks pool = [] then 1 else length (pl_chunks pool) + 1)
      in if tsz \<le> LARGE_PAGE_NODE - 3 then push_bit tsz 8 else push_bit (LARGE_PAGE_NODE - 3) 8)"

definition lpushbuffer :: "byte list \<Rightarrow> socket_buffer \<times> buffer_pool \<Rightarrow> (int \<times> socket_buffer \<times> buffer_pool) option" where
  "lpushbuffer msg = (\<lambda>(sb, pool). do {
     let pool1 = (if pl_free pool = 0 then lnewpool (chunk_size pool) pool else pool);
     let pool2 = pool1\<lparr>pl_free := pl_free pool1 - 1\<rparr>;
     size \<leftarrow> cint (sb_size sb + int (length msg));
     Some (size, sb\<lparr>sb_nodes := sb_nodes sb @ [msg], sb_size := size\<rparr>, pool2) })"

definition return_free_node :: "socket_buffer \<times> buffer_pool \<Rightarrow> (socket_buffer \<times> buffer_pool) option" where
  "return_free_node = (\<lambda>(sb, pool). case sb_nodes sb of
     [] \<Rightarrow> None
   | _ # ms \<Rightarrow> Some (sb\<lparr>sb_offset := 0, sb_nodes := ms\<rparr>, pool\<lparr>pl_free := pl_free pool + 1\<rparr>))"

text \<open>The \<open>n\<close> bytes of a block at an offset.\<close>

definition block_bytes :: "byte list \<Rightarrow> int \<Rightarrow> int \<Rightarrow> byte list option" where
  "block_bytes m off n = do {
     require (0 \<le> off \<and> 0 \<le> n \<and> off + n \<le> int (length m));
     Some (take (nat n) (drop (nat off) m)) }"

text \<open>The loop of \<open>pop_lstring\<close>: the first \<open>sz\<close> bytes are taken out, the last \<open>skip\<close> of them are not part of the result.\<close>

function pop_loop :: "socket_buffer \<times> buffer_pool \<Rightarrow> int \<Rightarrow> int \<Rightarrow> (byte list \<times> socket_buffer \<times> buffer_pool) option" where
  "pop_loop st sz skip =
     (case sb_nodes (fst st) of
        [] \<Rightarrow> None
      | m # _ \<Rightarrow>
          (let sb = fst st; pool = snd st; n = int (length m) - sb_offset sb in
           if n \<ge> sz then do {
             s \<leftarrow> (if sz > skip then block_bytes m (sb_offset sb) (sz - skip) else Some []);
             let st1 = (sb\<lparr>sb_offset := sb_offset sb + sz\<rparr>, pool);
             st2 \<leftarrow> (if n = sz then return_free_node st1 else Some st1);
             Some (s, st2) }
           else do {
             s \<leftarrow> (if sz - skip > 0 then block_bytes m (sb_offset sb) (if sz - skip < n then sz - skip else n) else Some []);
             st1 \<leftarrow> return_free_node st;
             (if sz - n = 0 then Some (s, st1)
              else do { (t, st2) \<leftarrow> pop_loop st1 (sz - n) skip; Some (s @ t, st2) }) }))"
  by pat_completeness auto
termination
  by (relation "measure (\<lambda>(st, _, _). length (sb_nodes (fst st)))") (auto simp: return_free_node_def split_beta split: list.splits)

declare pop_loop.simps [simp del]

definition pop_lstring :: "int \<Rightarrow> int \<Rightarrow> socket_buffer \<times> buffer_pool \<Rightarrow> (byte list \<times> socket_buffer \<times> buffer_pool) option" where
  "pop_lstring sz skip = (\<lambda>(sb, pool). case sb_nodes sb of
     [] \<Rightarrow> None
   | m # _ \<Rightarrow>
       (let n = int (length m) - sb_offset sb in
        if sz < n then do {
          s \<leftarrow> block_bytes m (sb_offset sb) (sz - skip);
          Some (s, sb\<lparr>sb_offset := sb_offset sb + sz\<rparr>, pool) }
        else if sz = n then do {
          s \<leftarrow> block_bytes m (sb_offset sb) (sz - skip);
          st \<leftarrow> return_free_node (sb, pool);
          Some (s, st) }
        else pop_loop (sb, pool) sz skip))"

text \<open>\<open>None\<close> as the string stands for \<open>nil\<close>.\<close>

definition lpopbuffer :: "int \<Rightarrow> socket_buffer \<times> buffer_pool \<Rightarrow> ((byte list option \<times> int) \<times> socket_buffer \<times> buffer_pool) option" where
  "lpopbuffer sz = (\<lambda>(sb, pool).
     if sb_size sb < sz \<or> sz = 0 then Some ((None, sb_size sb), sb, pool)
     else do {
       (s, sb1, pool1) \<leftarrow> pop_lstring sz 0 (sb, pool);
       size \<leftarrow> cint (sb_size sb1 - sz);
       Some ((Some s, size), sb1\<lparr>sb_size := size\<rparr>, pool1) })"

function clear_loop :: "socket_buffer \<times> buffer_pool \<Rightarrow> socket_buffer \<times> buffer_pool" where
  "clear_loop st = (case return_free_node st of None \<Rightarrow> st | Some st1 \<Rightarrow> clear_loop st1)"
  by pat_completeness auto
termination
  by (relation "measure (\<lambda>st. length (sb_nodes (fst st)))") (auto simp: return_free_node_def split_beta split: list.splits)

declare clear_loop.simps [simp del]

definition lclearbuffer :: "socket_buffer \<times> buffer_pool \<Rightarrow> socket_buffer \<times> buffer_pool" where
  "lclearbuffer st = (let (sb, pool) = clear_loop st in (sb\<lparr>sb_size := 0\<rparr>, pool))"

function readall_loop :: "socket_buffer \<times> buffer_pool \<Rightarrow> (byte list \<times> socket_buffer \<times> buffer_pool) option" where
  "readall_loop st =
     (case sb_nodes (fst st) of
        [] \<Rightarrow> Some ([], st)
      | m # _ \<Rightarrow> do {
          s \<leftarrow> block_bytes m (sb_offset (fst st)) (int (length m) - sb_offset (fst st));
          st1 \<leftarrow> return_free_node st;
          (t, st2) \<leftarrow> readall_loop st1;
          Some (s @ t, st2) })"
  by pat_completeness auto
termination
  by (relation "measure (\<lambda>st. length (sb_nodes (fst st)))") (auto simp: return_free_node_def split_beta split: list.splits)

declare readall_loop.simps [simp del]

definition lreadall :: "socket_buffer \<times> buffer_pool \<Rightarrow> (byte list \<times> socket_buffer \<times> buffer_pool) option" where
  "lreadall st = do {
     (s, sb, pool) \<leftarrow> readall_loop st;
     Some (s, sb\<lparr>sb_size := 0\<rparr>, pool) }"

fun check_sep :: "byte list list \<Rightarrow> int \<Rightarrow> byte list \<Rightarrow> bool option" where
  "check_sep [] start sep = None"
| "check_sep (m # ms) start sep =
     (let sz = int (length m) - start in
      if sz \<ge> int (length sep) then do { b \<leftarrow> block_bytes m start (int (length sep)); Some (b = sep) }
      else if sz > 0 then do {
        b \<leftarrow> block_bytes m start sz;
        (if b \<noteq> take (nat sz) sep then Some False else check_sep ms 0 (drop (nat sz) sep)) }
      else do { require (sz = 0); check_sep ms 0 sep })"

text \<open>The loop of \<open>lreadline\<close>: the number of bytes in front of the separator, if there is one.\<close>

function readline_loop :: "byte list list \<Rightarrow> int \<Rightarrow> int \<Rightarrow> int \<Rightarrow> int \<Rightarrow> byte list \<Rightarrow> int option option" where
  "readline_loop node start n i limit sep =
     (if i > limit then Some None
      else do {
        hit \<leftarrow> check_sep node start sep;
        (if hit then Some (Some i)
         else if n - 1 = 0 then
           (case tl node of [] \<Rightarrow> Some None | m # _ \<Rightarrow> readline_loop (tl node) 0 (int (length m)) (i + 1) limit sep)
         else readline_loop node (start + 1) (n - 1) (i + 1) limit sep) })"
  by pat_completeness auto
termination
  by (relation "measure (\<lambda>(_, _, _, i, limit, _). nat (limit + 1 - i))") auto

declare readline_loop.simps [simp del]

datatype line = NoLine | Found | Line "byte list"

text \<open>Without a pool \<open>lreadline\<close> only checks.\<close>

definition lreadline :: "bool \<Rightarrow> byte list \<Rightarrow> socket_buffer \<times> buffer_pool \<Rightarrow> (line \<times> socket_buffer \<times> buffer_pool) option" where
  "lreadline check sep = (\<lambda>(sb, pool). case sb_nodes sb of
     [] \<Rightarrow> Some (NoLine, sb, pool)
   | m # _ \<Rightarrow> do {
       limit \<leftarrow> cint (sb_size sb - int (length sep));
       r \<leftarrow> readline_loop (sb_nodes sb) (sb_offset sb) (int (length m) - sb_offset sb) 0 limit sep;
       (case r of
          None \<Rightarrow> Some (NoLine, sb, pool)
        | Some i \<Rightarrow>
            if check then Some (Found, sb, pool)
            else do {
              (s, sb1, pool1) \<leftarrow> pop_lstring (i + int (length sep)) (int (length sep)) (sb, pool);
              size \<leftarrow> cint (sb_size sb1 - (i + int (length sep)));
              Some (Line s, sb1\<lparr>sb_size := size\<rparr>, pool1) }) })"

text \<open>A number of one to four bytes, big endian.\<close>

definition lheader :: "byte list \<Rightarrow> int option" where
  "lheader s = (if length s > 4 \<or> length s < 1 then None
     else Some (uint (foldl (\<lambda>sz b. push_bit 8 sz OR ucast b) (0 :: u64) s)))"

text \<open>What a Lua service sees of a message of the socket layer: type, id, number, the text behind the structure or the pointer to the data, and
  for a datagram the address.\<close>

definition lunpack :: "skynet_socket_message \<Rightarrow> byte list \<Rightarrow> int \<Rightarrow> net \<Rightarrow> ((int \<times> int \<times> int) \<times> (byte list + addr) \<times> byte list option) option" where
  "lunpack message trail sz n = do {
     data \<leftarrow> (case ssm_buffer message of
        None \<Rightarrow> map_option Inl (block_bytes trail 0 (sz - uint SOCKET_MESSAGE_SIZE))
      | Some p \<Rightarrow> Some (Inr p));
     address \<leftarrow> (if ssm_type message = SKYNET_SOCKET_TYPE_UDP then skynet_socket_udp_address message n else Some None);
     Some ((ssm_type message, ssm_id message, ssm_ud message), data, address) }"

text \<open>The host and the port of an address; \<open>Inl\<close> is the error \<open>Invalid address\<close>.\<close>

definition address_port :: "cstring \<Rightarrow> int option \<Rightarrow> (unit + cstring \<times> int) option" where
  "address_port a port = (case port of
     Some p \<Rightarrow> Some (Inr (a, to_int p))
   | None \<Rightarrow>
       (case strchr a 91 of
          Some h \<Rightarrow>
            (let host = tl h in
             case strchr a 93 of
               None \<Rightarrow> Some (Inl ())
             | Some sep \<Rightarrow> do {
                 require (length sep \<le> length host);
                 (case strchr (tl sep) 58 of
                    None \<Rightarrow> Some (Inl ())
                  | Some sep2 \<Rightarrow> Some (Inr (take (length host - length sep) host, to_int (uint (strtoul (tl sep2) 10))))) })
        | None \<Rightarrow>
            (case strchr a 58 of
               None \<Rightarrow> Some (Inl ())
             | Some sep \<Rightarrow> Some (Inr (take (length a - length sep) a, to_int (uint (strtoul (tl sep) 10)))))))"

text \<open>The strings of a table as one buffer; an element that is not a string (\<open>None\<close>) is an error, \<open>Inl\<close>.\<close>

fun count_size :: "byte list option list \<Rightarrow> unit + nat" where
  "count_size [] = Inr 0"
| "count_size (None # xs) = Inl ()"
| "count_size (Some s # xs) = (case count_size xs of Inl e \<Rightarrow> Inl e | Inr n \<Rightarrow> Inr (length s + n))"

fun concat_table :: "byte list option list \<Rightarrow> nat \<Rightarrow> byte list \<times> nat" where
  "concat_table [] tlen = ([], tlen)"
| "concat_table (None # xs) tlen = ([], tlen)"
| "concat_table (Some s # xs) tlen =
     (if tlen < length s then ([], tlen) else (let (bs, n) = concat_table xs (tlen - length s) in (s @ bs, n)))"

definition get_buffer_table :: "byte list option list \<Rightarrow> unit + byte list" where
  "get_buffer_table xs = (case count_size xs of
     Inl e \<Rightarrow> Inl e
   | Inr len \<Rightarrow> (let (buffer, rest) = concat_table xs len in if rest \<noteq> 0 then Inl () else Inr buffer))"

section \<open>A buffer is a stream\<close>

definition sb_bytes :: "socket_buffer \<Rightarrow> byte list" where
  "sb_bytes sb = drop (nat (sb_offset sb)) (concat (sb_nodes sb))"

definition offset_ok :: "socket_buffer \<Rightarrow> bool" where
  "offset_ok sb \<longleftrightarrow> 0 \<le> sb_offset sb \<and> (case sb_nodes sb of [] \<Rightarrow> sb_offset sb = 0 | m # _ \<Rightarrow> sb_offset sb = 0 \<or> sb_offset sb < int (length m))"

definition sb_wf :: "socket_buffer \<Rightarrow> bool" where
  "sb_wf sb \<longleftrightarrow> offset_ok sb \<and> sb_size sb = int (length (sb_bytes sb)) \<and> sb_size sb < 2 ^ 31"

text \<open>Every node of the pool is free or holds a block.\<close>

definition nodes_of :: "socket_buffer \<times> buffer_pool \<Rightarrow> nat" where
  "nodes_of st = length (sb_nodes (fst st)) + pl_free (snd st)"

definition popped :: "socket_buffer \<times> buffer_pool \<Rightarrow> int \<Rightarrow> socket_buffer \<times> buffer_pool \<Rightarrow> bool" where
  "popped st sz st' \<longleftrightarrow> offset_ok (fst st') \<and> sb_bytes (fst st') = drop (nat sz) (sb_bytes (fst st)) \<and> sb_size (fst st') = sb_size (fst st) \<and>
     nodes_of st' = nodes_of st \<and> pl_chunks (snd st') = pl_chunks (snd st) \<and> set (sb_nodes (fst st')) \<subseteq> set (sb_nodes (fst st))"

lemma size_update [simp]:
  "offset_ok (sb\<lparr>sb_size := n\<rparr>) = offset_ok sb" "sb_bytes (sb\<lparr>sb_size := n\<rparr>) = sb_bytes sb" "nodes_of (sb\<lparr>sb_size := n\<rparr>, pool) = nodes_of (sb, pool)"
  by (simp_all add: offset_ok_def sb_bytes_def nodes_of_def split: list.split)

lemma offset_le: "sb_nodes sb = m # ms \<Longrightarrow> offset_ok sb \<Longrightarrow> 0 \<le> sb_offset sb \<and> sb_offset sb \<le> int (length m)"
  by (auto simp: offset_ok_def)

lemma bytes_Cons:
  "sb_nodes sb = m # ms \<Longrightarrow> offset_ok sb \<Longrightarrow> sb_bytes sb = drop (nat (sb_offset sb)) m @ concat ms"
  using offset_le [of sb m ms] by (simp add: sb_bytes_def nat_le_iff)

lemma drop_node: "sb_nodes sb = m # ms \<Longrightarrow> offset_ok sb \<Longrightarrow> drop (nat (int (length m) - sb_offset sb)) (sb_bytes sb) = concat ms"
  using offset_le [of sb m ms] by (simp add: bytes_Cons nat_diff_distrib')

lemma popped_part:
  assumes "sb_nodes sb = m # ms" "offset_ok sb" "0 \<le> sz" "sz < int (length m) - sb_offset sb"
  shows "popped (sb, pool) sz (sb\<lparr>sb_offset := sb_offset sb + sz\<rparr>, pool)"
  using assms by (auto simp: popped_def offset_ok_def sb_bytes_def nodes_of_def nat_add_distrib add.commute)

lemma popped_node:
  assumes "sb_nodes sb = m # ms" "offset_ok sb" "sz = int (length m) - sb_offset sb"
  shows "\<exists>st'. return_free_node (sb\<lparr>sb_offset := k\<rparr>, pool) = Some st' \<and> popped (sb, pool) sz st' \<and> sb_nodes (fst st') = ms"
proof -
  have "drop (nat sz) (sb_bytes sb) = concat ms" using assms by (simp add: drop_node)
  then show ?thesis using assms by (auto simp: return_free_node_def popped_def offset_ok_def sb_bytes_def nodes_of_def split: list.splits)
qed

lemma popped_trans: "popped st a st1 \<Longrightarrow> popped st1 b st2 \<Longrightarrow> 0 \<le> a \<Longrightarrow> 0 \<le> b \<Longrightarrow> popped st (a + b) st2"
  by (auto simp: popped_def nat_add_distrib add.commute)

lemma block_bytes_eq:
  "0 \<le> off \<Longrightarrow> 0 \<le> n \<Longrightarrow> off + n \<le> int (length m) \<Longrightarrow> block_bytes m off n = Some (take (nat n) (drop (nat off) m))"
  by (simp add: block_bytes_def)

lemma pop_loop_spec:
  assumes "offset_ok (fst st)" "0 \<le> sz" "0 \<le> skip" "sz \<le> int (length (sb_bytes (fst st)))" "sb_nodes (fst st) \<noteq> []"
  shows "\<exists>st'. pop_loop st sz skip = Some (take (nat (sz - skip)) (sb_bytes (fst st)), st') \<and> popped st sz st'"
  using assms
proof (induction "sb_nodes (fst st)" arbitrary: st sz)
  case (Cons m ms)
  obtain sb pool where st: "st = (sb, pool)" by (cases st)
  have nodes: "sb_nodes sb = m # ms" using Cons.hyps(2) st by simp
  define n where "n = int (length m) - sb_offset sb"
  have ok: "offset_ok sb" using Cons.prems(1) st by simp
  have off: "0 \<le> sb_offset sb" "sb_offset sb \<le> int (length m)" "0 \<le> n" using offset_le [OF nodes ok] by (simp_all add: n_def)
  note bytes = bytes_Cons [OF nodes ok]
  show ?case
  proof (cases "n \<ge> sz")
    case True
    have "(if sz > skip then block_bytes m (sb_offset sb) (sz - skip) else Some []) = Some (take (nat (sz - skip)) (sb_bytes sb))"
      using True Cons.prems(3) off by (auto simp: block_bytes_eq bytes n_def)
    moreover obtain st' where "(if n = sz then return_free_node (sb\<lparr>sb_offset := sb_offset sb + sz\<rparr>, pool) else Some (sb\<lparr>sb_offset := sb_offset sb + sz\<rparr>, pool)) = Some st'"
        "popped st sz st'"
      using popped_part [OF nodes ok Cons.prems(2), of pool] popped_node [OF nodes ok, of sz "sb_offset sb + sz" pool] True st by (cases "n = sz") (auto simp: n_def)
    ultimately show ?thesis using True nodes st by (subst pop_loop.simps) (simp add: Let_def flip: n_def)
  next
    case False
    have part: "(if sz - skip > 0 then block_bytes m (sb_offset sb) (if sz - skip < n then sz - skip else n) else Some []) =
        Some (take (nat (sz - skip)) (drop (nat (sb_offset sb)) m))"
      using False Cons.prems(3) off by (auto simp: block_bytes_eq n_def)
    obtain st1 where st1: "return_free_node st = Some st1" "popped st n st1" "sb_nodes (fst st1) = ms"
      using popped_node [OF nodes ok n_def, of "sb_offset sb" pool] st by auto
    have b1: "sb_bytes (fst st1) = concat ms" using st1(2) drop_node [OF nodes ok] st by (simp add: popped_def n_def)
    have more: "sz - n > 0" "sz - n \<le> int (length (concat ms))" using False Cons.prems(4) bytes st off by (auto simp: n_def)
    then have "ms \<noteq> []" by auto
    then obtain st2 where st2: "pop_loop st1 (sz - n) skip = Some (take (nat (sz - n - skip)) (concat ms), st2)" "popped st1 (sz - n) st2"
      using Cons.hyps(1) [of st1 "sz - n"] st1(2,3) b1 more Cons.prems(3) by (auto simp: popped_def)
    have "nat (sz - skip) - (length m - nat (sb_offset sb)) = nat (sz - n - skip)" using off unfolding n_def by arith
    then have "take (nat (sz - skip)) (sb_bytes sb) = take (nat (sz - skip)) (drop (nat (sb_offset sb)) m) @ take (nat (sz - n - skip)) (concat ms)"
      by (simp only: bytes take_append length_drop)
    moreover have "popped st sz st2" using popped_trans [OF st1(2) st2(2)] off more by simp
    moreover have "pop_loop st sz skip = Some (take (nat (sz - skip)) (drop (nat (sb_offset sb)) m) @ take (nat (sz - n - skip)) (concat ms), st2)"
      using False nodes st part st1(1) st2(1) more
      by (subst pop_loop.simps) (simp add: Let_def flip: n_def split del: if_split cong del: if_weak_cong)
    ultimately show ?thesis using st by simp
  qed
qed simp

lemma pop_lstring_spec:
  assumes "offset_ok sb" "0 \<le> skip" "skip \<le> sz" "sz \<le> int (length (sb_bytes sb))" "sb_nodes sb \<noteq> []"
  shows "\<exists>st'. pop_lstring sz skip (sb, pool) = Some (take (nat (sz - skip)) (sb_bytes sb), st') \<and> popped (sb, pool) sz st'"
proof -
  obtain m ms where nodes: "sb_nodes sb = m # ms" using assms(5) by (cases "sb_nodes sb") auto
  define n where "n = int (length m) - sb_offset sb"
  have off: "0 \<le> sb_offset sb" "sb_offset sb \<le> int (length m)" using offset_le [OF nodes assms(1)] by simp_all
  have b: "block_bytes m (sb_offset sb) (sz - skip) = Some (take (nat (sz - skip)) (sb_bytes sb))" if "sz \<le> n"
    using that assms(2,3) off by (simp add: block_bytes_eq bytes_Cons [OF nodes assms(1)] n_def)
  consider "sz < n" | "sz = n" | "sz > n" by linarith
  then show ?thesis
  proof cases
    case 1
    then show ?thesis using b nodes popped_part [OF nodes assms(1), of sz pool] assms(2,3) by (simp add: pop_lstring_def flip: n_def)
  next
    case 2
    then show ?thesis using b nodes popped_node [OF nodes assms(1), of sz "sb_offset sb" pool] by (auto simp: pop_lstring_def n_def)
  next
    case 3
    then show ?thesis using nodes pop_loop_spec [of "(sb, pool)" sz skip] assms by (simp add: pop_lstring_def flip: n_def)
  qed
qed

lemma lpopbuffer_spec:
  assumes "sb_wf sb" "0 < sz" "sz \<le> int (length (sb_bytes sb))"
  shows "\<exists>size st'. lpopbuffer sz (sb, pool) = Some ((Some (take (nat sz) (sb_bytes sb)), size), st') \<and> sb_wf (fst st') \<and>
    sb_bytes (fst st') = drop (nat sz) (sb_bytes sb) \<and> size = int (length (sb_bytes (fst st'))) \<and>
    nodes_of st' = nodes_of (sb, pool) \<and> pl_chunks (snd st') = pl_chunks pool \<and> set (sb_nodes (fst st')) \<subseteq> set (sb_nodes sb)"
proof -
  have "sb_nodes sb \<noteq> []" using assms(2,3) by (auto simp: sb_bytes_def)
  then obtain sb1 pool1 where p: "pop_lstring sz 0 (sb, pool) = Some (take (nat sz) (sb_bytes sb), sb1, pool1)" "popped (sb, pool) sz (sb1, pool1)"
    using pop_lstring_spec [of sb 0 sz pool] assms by (auto simp: sb_wf_def)
  let ?sb = "sb1\<lparr>sb_size := sb_size sb - sz\<rparr>"
  have "cint (sb_size sb - sz) = Some (sb_size sb - sz)" using assms by (simp add: sb_wf_def cint_def cint_ok_def)
  then have "lpopbuffer sz (sb, pool) = Some ((Some (take (nat sz) (sb_bytes sb)), sb_size sb - sz), ?sb, pool1)"
    using assms p by (simp add: lpopbuffer_def sb_wf_def popped_def)
  then show ?thesis using assms p(2) by (auto simp: popped_def sb_wf_def of_nat_diff)
qed

lemma lpushbuffer_spec:
  assumes "sb_wf sb" "length (sb_bytes sb) + length d < 2 ^ 31"
  shows "\<exists>st'. lpushbuffer d (sb, pool) = Some (int (length (sb_bytes sb @ d)), st') \<and> sb_wf (fst st') \<and> sb_bytes (fst st') = sb_bytes sb @ d \<and>
    nodes_of st' + sum_list (pl_chunks pool) = nodes_of (sb, pool) + sum_list (pl_chunks (snd st')) \<and> sb_nodes (fst st') = sb_nodes sb @ [d]"
proof -
  have "cint (sb_size sb + int (length d)) = Some (sb_size sb + int (length d))"
    using assms by (simp add: sb_wf_def cint_def cint_ok_def)
  moreover have "0 < chunk_size pool" by (simp add: chunk_size_def Let_def push_bit_eq_mult)
  ultimately show ?thesis
    using assms by (cases "sb_nodes sb") (auto simp: lpushbuffer_def sb_wf_def sb_bytes_def offset_ok_def nodes_of_def lnewpool_def Let_def)
qed

interpretation lua_input: stream_buffer "\<lambda>(sb, pool). sb_wf sb" "\<lambda>(sb, pool). sb_bytes sb" "\<lambda>st d. map_option snd (lpushbuffer d st)"
  "\<lambda>st n. map_option (\<lambda>((s, _), st'). (the s, st')) (lpopbuffer (int n) st)"
proof (unfold_locales, goal_cases)
  case (1 b d)
  then show ?case using lpushbuffer_spec [of "fst b" d "snd b"] by (auto simp: split_beta)
next
  case (2 b n)
  then show ?case using lpopbuffer_spec [of "fst b" "int n" "snd b"] by (fastforce simp: split_beta)
qed

lemma readall_loop_spec:
  assumes "offset_ok (fst st)"
  shows "\<exists>st'. readall_loop st = Some (sb_bytes (fst st), st') \<and> sb_nodes (fst st') = [] \<and> offset_ok (fst st') \<and>
    nodes_of st' = nodes_of st \<and> pl_chunks (snd st') = pl_chunks (snd st)"
  using assms
proof (induction "sb_nodes (fst st)" arbitrary: st)
  case Nil
  then show ?case by (subst readall_loop.simps) (simp add: sb_bytes_def)
next
  case (Cons m ms)
  obtain sb pool where st: "st = (sb, pool)" by (cases st)
  have nodes: "sb_nodes sb = m # ms" and ok: "offset_ok sb" using Cons.hyps(2) Cons.prems st by simp_all
  have b: "block_bytes m (sb_offset sb) (int (length m) - sb_offset sb) = Some (drop (nat (sb_offset sb)) m)"
    using offset_le [OF nodes ok] by (subst block_bytes_eq) auto
  obtain st1 where st1: "return_free_node st = Some st1" "popped st (int (length m) - sb_offset sb) st1" "sb_nodes (fst st1) = ms"
    using popped_node [OF nodes ok refl, of "sb_offset sb" pool] st by auto
  have b1: "sb_bytes (fst st1) = concat ms" using st1(2) drop_node [OF nodes ok] st by (simp add: popped_def)
  obtain st2 where "readall_loop st1 = Some (concat ms, st2)" "sb_nodes (fst st2) = []" "offset_ok (fst st2)" "nodes_of st2 = nodes_of st1" "pl_chunks (snd st2) = pl_chunks (snd st1)"
    using Cons.hyps(1) [of st1] st1(2,3) b1 by (auto simp: popped_def)
  then show ?case using nodes st b st1 bytes_Cons [OF nodes ok] by (subst readall_loop.simps) (simp add: popped_def)
qed

lemma clear_loop_spec:
  "sb_nodes (fst (clear_loop st)) = [] \<and> nodes_of (clear_loop st) = nodes_of st \<and> pl_chunks (snd (clear_loop st)) = pl_chunks (snd st) \<and>
   (offset_ok (fst st) \<longrightarrow> offset_ok (fst (clear_loop st)))"
proof (induction st rule: clear_loop.induct)
  case (1 st)
  show ?case
  proof (cases "return_free_node st")
    case None
    then show ?thesis by (subst (1 2 3 4) clear_loop.simps) (auto simp: return_free_node_def split_beta split: list.splits)
  next
    case (Some st1)
    have "nodes_of st1 = nodes_of st" "pl_chunks (snd st1) = pl_chunks (snd st)" "offset_ok (fst st1)"
      using Some by (auto simp: return_free_node_def split_beta nodes_of_def offset_ok_def split: list.splits)
    moreover have "clear_loop st = clear_loop st1" using Some by (subst clear_loop.simps) simp
    ultimately show ?thesis using 1 [OF Some] by simp
  qed
qed

section \<open>Lines\<close>

text \<open>The position of the first separator in a stream.\<close>

fun find_sep :: "byte list \<Rightarrow> byte list \<Rightarrow> nat option" where
  "find_sep sep [] = (if sep = [] then Some 0 else None)"
| "find_sep sep (c # cs) = (if prefix sep (c # cs) then Some 0 else map_option Suc (find_sep sep cs))"

lemma find_sep_short: "length bs < length sep \<Longrightarrow> find_sep sep bs = None"
proof (induction bs)
  case (Cons c cs)
  then have "\<not> prefix sep (c # cs)" by (auto dest: prefix_length_le)
  then show ?case using Cons by simp
qed auto

lemma find_sep_first:
  "find_sep sep bs = Some k \<Longrightarrow> k + length sep \<le> length bs \<and> take (length sep) (drop k bs) = sep \<and> (\<forall>j < k. \<not> prefix sep (drop j bs))"
proof (induction bs arbitrary: k)
  case (Cons c cs)
  show ?case
  proof (cases "prefix sep (c # cs)")
    case True
    then show ?thesis using Cons.prems prefix_length_le [OF True] by (auto simp: prefix_def)
  next
    case False
    then obtain j where j: "k = Suc j" "find_sep sep cs = Some j" using Cons.prems by auto
    show ?thesis using Cons.IH [OF j(2)] j(1) False by (auto simp: less_Suc_eq_0_disj)
  qed
qed (auto split: if_splits)

lemma find_sep_none: "find_sep sep bs = None \<Longrightarrow> \<not> prefix sep (drop j bs)"
proof (induction bs arbitrary: j)
  case (Cons c cs)
  then show ?case by (cases j) (auto split: if_splits)
qed (auto split: if_splits)

lemma prefix_append_cases:
  "prefix sep (a @ b) \<longleftrightarrow> (if length sep \<le> length a then take (length sep) a = sep else a = take (length a) sep \<and> prefix (drop (length a) sep) b)"
proof (cases "length sep \<le> length a")
  case True
  then show ?thesis by (auto simp: prefix_def) (metis append_eq_append_conv_if append_take_drop_id)+
next
  case False
  then have "sep = take (length a) sep @ drop (length a) sep" "length (take (length a) sep) = length a" by simp_all
  then show ?thesis using False by (metis same_prefix_prefix append_eq_append_conv prefix_def append.assoc)
qed

lemma check_sep_spec:
  assumes "0 \<le> start" "start \<le> int (length m)" "length sep \<le> length (drop (nat start) m @ concat ms)"
  shows "check_sep (m # ms) start sep = Some (prefix sep (drop (nat start) m @ concat ms))"
  using assms
proof (induction ms arbitrary: m start sep)
  case Nil
  then have "int (length sep) \<le> int (length m) - start" by (simp add: le_diff_eq nat_le_iff)
  then show ?case using Nil prefix_append_cases [of sep "drop (nat start) m" "[]"] by (simp add: block_bytes_eq Let_def)
next
  case (Cons m' ms)
  define a where "a = drop (nat start) m"
  have a: "int (length a) = int (length m) - start" using Cons.prems by (simp add: a_def of_nat_diff nat_le_iff)
  show ?case
  proof (cases "length sep \<le> length a")
    case True
    then show ?thesis using Cons.prems a by (simp add: block_bytes_eq prefix_append_cases [of sep a] Let_def flip: a_def)
  next
    case False
    have b: "block_bytes m start (int (length m) - start) = Some a" using Cons.prems by (subst block_bytes_eq) (auto simp: a_def)
    have n: "nat (int (length m) - start) = length a" using a by simp
    have IH: "check_sep (m' # ms) 0 (drop (length a) sep) = Some (prefix (drop (length a) sep) (m' @ concat ms))"
      using Cons.IH [of 0 m' "drop (length a) sep"] Cons.prems(3) a_def by simp
    show ?thesis
      using False b n IH a prefix_append_cases [of sep a "m' @ concat ms"]
      by (auto simp: Let_def simp del: check_sep.simps(2) simp flip: a_def simp: check_sep.simps(2) [of m "m' # ms"])
  qed
qed

lemma readline_loop_spec:
  assumes "0 \<le> start" "start < int (length m)" "[] \<notin> set ms" "bs = drop (nat start) m @ concat ms"
    "n = int (length m) - start" "limit = i + int (length bs) - int (length sep)"
  shows "readline_loop (m # ms) start n i limit sep = Some (map_option (\<lambda>k. i + int k) (find_sep sep bs))"
  using assms
proof (induction bs arbitrary: m ms start n i)
  case Nil
  then have "nat start < length m" by (simp add: nat_less_iff)
  then show ?case using Nil by simp
next
  case (Cons c cs)
  obtain k where k: "start = int k" "k < length m" using Cons.prems(1,2) nonneg_int_cases by (metis of_nat_less_iff)
  show ?case
  proof (cases "i > limit")
    case True
    then show ?thesis using Cons.prems(6) find_sep_short [of "c # cs" sep] by (subst readline_loop.simps) simp
  next
    case False
    then have len: "length sep \<le> length (c # cs)" using Cons.prems(6) by simp
    have hit: "check_sep (m # ms) start sep = Some (prefix sep (c # cs))"
      using check_sep_spec [of start m sep ms] Cons.prems(1,2) len by (simp flip: Cons.prems(4))
    have cs: "cs = drop (Suc k) m @ concat ms"
      using Cons.prems(4) k by (simp flip: Cons_nth_drop_Suc)
    have limit: "limit = i + 1 + int (length cs) - int (length sep)" using Cons.prems(6) by simp
    consider "prefix sep (c # cs)" | "\<not> prefix sep (c # cs)" "n - 1 = 0" | "\<not> prefix sep (c # cs)" "n - 1 \<noteq> 0" by blast
    then show ?thesis
    proof cases
      case 1
      then show ?thesis using False hit by (subst readline_loop.simps) simp
    next
      case 2
      then have m: "cs = concat ms" using cs k Cons.prems(5) by simp
      show ?thesis
      proof (cases ms)
        case Nil
        then show ?thesis using 2 False hit m by (subst readline_loop.simps) auto
      next
        case ms: (Cons m' ms')
        have "readline_loop (m' # ms') 0 (int (length m')) (i + 1) limit sep = Some (map_option (\<lambda>k. i + 1 + int k) (find_sep sep cs))"
          using Cons.prems(3) ms m limit by (intro Cons.IH) auto
        then show ?thesis using 2 False hit ms by (subst readline_loop.simps) (simp add: option.map_comp comp_def add.assoc)
      qed
    next
      case 3
      then have "readline_loop (m # ms) (start + 1) (n - 1) (i + 1) limit sep = Some (map_option (\<lambda>k. i + 1 + int k) (find_sep sep cs))"
        using Cons.prems(3,5) cs k limit by (intro Cons.IH) (auto simp: nat_add_distrib)
      then show ?thesis using 3 False hit by (subst readline_loop.simps) (simp add: option.map_comp comp_def add.assoc)
    qed
  qed
qed

lemma lreadline_spec:
  assumes "sb_wf sb" "[] \<notin> set (sb_nodes sb)" "sb_nodes sb \<noteq> []" "length sep < 2 ^ 31"
  shows "case find_sep sep (sb_bytes sb) of
      None \<Rightarrow> lreadline check sep (sb, pool) = Some (NoLine, sb, pool)
    | Some k \<Rightarrow> if check then lreadline check sep (sb, pool) = Some (Found, sb, pool)
        else \<exists>st'. lreadline check sep (sb, pool) = Some (Line (take k (sb_bytes sb)), st') \<and> sb_wf (fst st') \<and>
          sb_bytes (fst st') = drop (k + length sep) (sb_bytes sb) \<and> nodes_of st' = nodes_of (sb, pool) \<and>
          pl_chunks (snd st') = pl_chunks pool \<and> set (sb_nodes (fst st')) \<subseteq> set (sb_nodes sb)"
proof -
  obtain m ms where nodes: "sb_nodes sb = m # ms" using assms(3) by (cases "sb_nodes sb") auto
  have ok: "offset_ok sb" "0 \<le> sb_offset sb" "sb_offset sb < int (length m)" "[] \<notin> set ms"
    using assms(1,2) nodes by (auto simp: sb_wf_def offset_ok_def)
  have limit: "cint (sb_size sb - int (length sep)) = Some (sb_size sb - int (length sep))"
    using assms(1,4) by (simp add: sb_wf_def cint_def cint_ok_def)
  have loop: "readline_loop (sb_nodes sb) (sb_offset sb) (int (length m) - sb_offset sb) 0 (sb_size sb - int (length sep)) sep =
      Some (map_option int (find_sep sep (sb_bytes sb)))"
    using readline_loop_spec [OF ok(2,3,4) bytes_Cons [OF nodes ok(1)] refl, of _ 0 sep] assms(1) nodes by (simp add: sb_wf_def)
  show ?thesis
  proof (cases "find_sep sep (sb_bytes sb)")
    case None
    then show ?thesis using nodes limit loop by (simp add: lreadline_def)
  next
    case (Some k)
    define sz where "sz = int k + int (length sep)"
    have k: "k + length sep \<le> length (sb_bytes sb)" using find_sep_first [OF Some] by blast
    then obtain sb1 pool1 where p: "pop_lstring sz (int (length sep)) (sb, pool) = Some (take k (sb_bytes sb), sb1, pool1)" "popped (sb, pool) sz (sb1, pool1)"
      using pop_lstring_spec [OF ok(1), of "int (length sep)" sz pool] assms(3) by (auto simp: sz_def)
    let ?sb = "sb1\<lparr>sb_size := sb_size sb - sz\<rparr>"
    have "sb_size sb - sz \<ge> 0" "sb_size sb < 2 ^ 31" using assms(1) k by (simp_all add: sb_wf_def sz_def)
    then have "cint (sb_size sb - sz) = Some (sb_size sb - sz)" by (simp add: cint_def cint_ok_def sz_def)
    then have "lreadline False sep (sb, pool) = Some (Line (take k (sb_bytes sb)), ?sb, pool1)"
      using nodes limit loop Some p by (simp add: lreadline_def popped_def flip: sz_def)
    moreover have "nat sz = k + length sep" by (simp add: sz_def nat_add_distrib)
    moreover have "lreadline True sep (sb, pool) = Some (Found, sb, pool)" using nodes limit loop Some by (simp add: lreadline_def)
    ultimately show ?thesis using Some assms(1) p(2) k by (cases check) (auto simp: popped_def sb_wf_def sz_def of_nat_diff)
  qed
qed

section \<open>Refinement of a byte stream\<close>

datatype buf_op = Push "byte list" | Pop int | ReadLine bool "byte list" | ReadAll | Clear

datatype buf_out = Size int | Popped "byte list option" int | Answer line | All "byte list" | Cleared

fun buf_step :: "buf_op \<Rightarrow> socket_buffer \<times> buffer_pool \<Rightarrow> (buf_out \<times> socket_buffer \<times> buffer_pool) option" where
  "buf_step (Push d) st = map_option (\<lambda>(n, st'). (Size n, st')) (lpushbuffer d st)"
| "buf_step (Pop n) st = map_option (\<lambda>((s, size), st'). (Popped s size, st')) (lpopbuffer n st)"
| "buf_step (ReadLine check sep) st = map_option (\<lambda>(l, st'). (Answer l, st')) (lreadline check sep st)"
| "buf_step ReadAll st = map_option (\<lambda>(s, st'). (All s, st')) (lreadall st)"
| "buf_step Clear st = Some (Cleared, lclearbuffer st)"

fun buf_run :: "buf_op list \<Rightarrow> socket_buffer \<times> buffer_pool \<Rightarrow> (buf_out list \<times> socket_buffer \<times> buffer_pool) option" where
  "buf_run [] st = Some ([], st)"
| "buf_run (op # ops) st = do {
     (out, st1) \<leftarrow> buf_step op st;
     (outs, st2) \<leftarrow> buf_run ops st1;
     Some (out # outs, st2) }"

text \<open>The same operations on a plain sequence of bytes.\<close>

fun bytes_step :: "buf_op \<Rightarrow> byte list \<Rightarrow> buf_out \<times> byte list" where
  "bytes_step (Push d) bs = (Size (int (length bs + length d)), bs @ d)"
| "bytes_step (Pop n) bs =
     (if int (length bs) < n \<or> n = 0 then (Popped None (int (length bs)), bs)
      else (Popped (Some (take (nat n) bs)) (int (length bs) - n), drop (nat n) bs))"
| "bytes_step (ReadLine check sep) bs =
     (case if bs = [] then None else find_sep sep bs of
        None \<Rightarrow> (Answer NoLine, bs)
      | Some k \<Rightarrow> if check then (Answer Found, bs) else (Answer (Line (take k bs)), drop (k + length sep) bs))"
| "bytes_step ReadAll bs = (All bs, [])"
| "bytes_step Clear bs = (Cleared, [])"

fun bytes_run :: "buf_op list \<Rightarrow> byte list \<Rightarrow> buf_out list \<times> byte list" where
  "bytes_run [] bs = ([], bs)"
| "bytes_run (op # ops) bs = (let (out, bs1) = bytes_step op bs; (outs, bs2) = bytes_run ops bs1 in (out # outs, bs2))"

text \<open>Blocks are not empty, sizes are not negative, and fewer than 2 GB are pushed.\<close>

fun op_ok :: "buf_op \<Rightarrow> bool" where
  "op_ok (Push d) \<longleftrightarrow> d \<noteq> []"
| "op_ok (Pop n) \<longleftrightarrow> 0 \<le> n"
| "op_ok (ReadLine check sep) \<longleftrightarrow> length sep < 2 ^ 31"
| "op_ok _ \<longleftrightarrow> True"

fun pushed :: "buf_op \<Rightarrow> nat" where
  "pushed (Push d) = length d"
| "pushed _ = 0"

definition buf_abs :: "socket_buffer \<times> buffer_pool \<Rightarrow> byte list \<Rightarrow> bool" where
  "buf_abs st bs \<longleftrightarrow> sb_wf (fst st) \<and> [] \<notin> set (sb_nodes (fst st)) \<and> sb_bytes (fst st) = bs \<and> nodes_of st = sum_list (pl_chunks (snd st))"

lemma abs_nodes: "buf_abs (sb, pool) bs \<Longrightarrow> sb_nodes sb = [] \<longleftrightarrow> bs = []"
proof
  assume a: "buf_abs (sb, pool) bs" and "bs = []"
  show "sb_nodes sb = []"
  proof (cases "sb_nodes sb")
    case (Cons m ms)
    then have "nat (sb_offset sb) < length m" using a by (auto simp: buf_abs_def sb_wf_def offset_ok_def nat_less_iff)
    then show ?thesis using a \<open>bs = []\<close> Cons by (auto simp: buf_abs_def sb_bytes_def)
  qed
qed (auto simp: buf_abs_def sb_bytes_def)

lemma buf_step_refines:
  assumes abs: "buf_abs st bs" and "op_ok op" "length bs + pushed op < 2 ^ 31"
  shows "\<exists>st'. buf_step op st = Some (fst (bytes_step op bs), st') \<and> buf_abs st' (snd (bytes_step op bs))"
proof -
  obtain sb pool where st: "st = (sb, pool)" by (cases st)
  have wf: "sb_wf sb" "[] \<notin> set (sb_nodes sb)" "sb_bytes sb = bs" "nodes_of (sb, pool) = sum_list (pl_chunks pool)" "sb_size sb = int (length bs)"
    using abs st by (auto simp: buf_abs_def sb_wf_def)
  show ?thesis
  proof (cases op)
    case (Push d)
    then show ?thesis using lpushbuffer_spec [OF wf(1), of d pool] wf assms(2,3) st by (auto simp: buf_abs_def)
  next
    case (Pop n)
    show ?thesis
    proof (cases "int (length bs) < n \<or> n = 0")
      case True
      then show ?thesis using Pop abs wf st by (simp add: lpopbuffer_def)
    next
      case False
      then obtain st' where "lpopbuffer n (sb, pool) = Some ((Some (take (nat n) bs), int (length bs) - n), st')" "sb_wf (fst st')"
          "sb_bytes (fst st') = drop (nat n) bs" "nodes_of st' = sum_list (pl_chunks (snd st'))" "set (sb_nodes (fst st')) \<subseteq> set (sb_nodes sb)"
        using lpopbuffer_spec [OF wf(1), of n pool] assms(2) wf Pop by (auto simp: of_nat_diff)
      moreover from this have "buf_abs st' (drop (nat n) bs)" using wf(2) by (auto simp: buf_abs_def)
      ultimately have "lpopbuffer n (sb, pool) = Some ((Some (take (nat n) bs), int (length bs) - n), st') \<and> buf_abs st' (drop (nat n) bs)" by blast
      then show ?thesis using False Pop st by simp
    qed
  next
    case (ReadLine check sep)
    show ?thesis
    proof (cases "bs = []")
      case True
      then have "sb_nodes sb = []" using abs_nodes abs st by blast
      then show ?thesis using True ReadLine abs st by (simp add: lreadline_def)
    next
      case False
      then have "sb_nodes sb \<noteq> []" using abs_nodes abs st by blast
      then show ?thesis using lreadline_spec [OF wf(1,2), of sep check pool] assms(2) ReadLine False abs st wf
        by (auto simp: buf_abs_def split: option.splits if_splits)
    qed
  next
    case ReadAll
    then show ?thesis using readall_loop_spec [of st] wf st by (auto simp: lreadall_def buf_abs_def sb_wf_def) (auto simp: sb_bytes_def)
  next
    case Clear
    then show ?thesis using clear_loop_spec [of st] wf st
      by (auto simp: lclearbuffer_def buf_abs_def sb_wf_def split_beta sb_bytes_def nodes_of_def)
  qed
qed

lemma bytes_step_length: "length (snd (bytes_step op bs)) \<le> length bs + pushed op"
  by (cases op) (auto split: option.split)

lemma buf_run_refines:
  assumes "buf_abs st bs" "list_all op_ok ops" "length bs + sum_list (map pushed ops) < 2 ^ 31"
  shows "\<exists>st'. buf_run ops st = Some (fst (bytes_run ops bs), st') \<and> buf_abs st' (snd (bytes_run ops bs))"
  using assms
proof (induction ops arbitrary: st bs)
  case (Cons op ops)
  obtain st1 where s1: "buf_step op st = Some (fst (bytes_step op bs), st1)" "buf_abs st1 (snd (bytes_step op bs))"
    using buf_step_refines [OF Cons.prems(1), of op] Cons.prems(2,3) by auto
  moreover obtain st2 where "buf_run ops st1 = Some (fst (bytes_run ops (snd (bytes_step op bs))), st2)" "buf_abs st2 (snd (bytes_run ops (snd (bytes_step op bs))))"
    using Cons.IH [OF s1(2)] Cons.prems(2,3) bytes_step_length [of op bs] by auto
  ultimately show ?case by (simp add: split_beta)
qed simp

text \<open>A table of strings is sent as their concatenation.\<close>

lemma get_buffer_strings: "get_buffer_table (map Some xs) = Inr (concat xs)"
proof -
  have "count_size (map Some xs) = Inr (length (concat xs))" by (induction xs) simp_all
  moreover have "concat_table (map Some xs) (length (concat xs)) = (concat xs, 0)" by (induction xs) simp_all
  ultimately show ?thesis by (simp add: get_buffer_table_def)
qed

section \<open>Properties\<close>

text \<open>C39: whatever blocks arrive and however they are read, the buffer of a Lua service answers like one sequence of bytes: pushes, reads
  by size, reads up to a separator (which may lie across any number of blocks) and checks for one, reading everything and clearing
  return exactly what they return on the concatenation of the blocks.  No operation faults, what is left is what the sequence has left, and every
  node of the pool is free or holds a block.\<close>

theorem lua_buffer_is_stream:
  assumes "list_all op_ok ops" "sum_list (map pushed ops) < 2 ^ 31"
  shows "\<exists>sb pool. buf_run ops (lnewbuffer, \<lparr>pl_free = 0, pl_chunks = []\<rparr>) = Some (fst (bytes_run ops []), sb, pool) \<and>
    sb_bytes sb = snd (bytes_run ops []) \<and> length (sb_nodes sb) + pl_free pool = sum_list (pl_chunks pool)"
proof -
  have "buf_abs (lnewbuffer, \<lparr>pl_free = 0, pl_chunks = []\<rparr>) []"
    by (simp add: buf_abs_def lnewbuffer_def sb_wf_def offset_ok_def sb_bytes_def nodes_of_def)
  from buf_run_refines [OF this assms(1)] assms(2) show ?thesis by (auto simp: buf_abs_def nodes_of_def)
qed

abbreviation demo_lines :: "buf_op list" where
  "demo_lines \<equiv> [Push [104, 105, 13], ReadLine False [13, 10], Push [10, 97], Push [13, 10, 98], ReadLine True [13, 10], ReadLine False [13, 10], ReadLine False [13, 10], Pop 1]"

theorem lua_buffer_is_stream_witness:
  "\<exists>sb pool. buf_run demo_lines (lnewbuffer, \<lparr>pl_free = 0, pl_chunks = []\<rparr>) =
      Some ([Size 3, Answer NoLine, Size 5, Size 8, Answer Found, Answer (Line [104, 105]), Answer (Line [97]), Popped (Some [98]) 0], sb, pool) \<and>
    sb_bytes sb = []"
proof -
  have "bytes_run demo_lines [] = ([Size 3, Answer NoLine, Size 5, Size 8, Answer Found, Answer (Line [104, 105]), Answer (Line [97]), Popped (Some [98]) 0], [])"
    by simp
  then show ?thesis using lua_buffer_is_stream [of demo_lines] by (auto simp del: buf_run.simps bytes_run.simps)
qed

section \<open>Findings\<close>

text \<open>A negative size passes the test of \<open>lpopbuffer\<close> and is used as the length of a string.\<close>

lemma negative_pop_faults: "lpopbuffer (- 1) (\<lparr>sb_size = 1, sb_offset = 0, sb_nodes = [[65]]\<rparr>, \<lparr>pl_free = 15, pl_chunks = [16]\<rparr>) = None"
  by (simp add: lpopbuffer_def pop_lstring_def block_bytes_def)

text \<open>An empty block makes \<open>lreadline\<close> count its bytes below zero and read in front of the next blocks.\<close>

lemma empty_block_faults:
  "lreadline False [10] (\<lparr>sb_size = 3, sb_offset = 0, sb_nodes = [[], [65, 66, 10]]\<rparr>, \<lparr>pl_free = 14, pl_chunks = [16]\<rparr>) = None"
  by (simp add: lreadline_def readline_loop.simps block_bytes_def cint_def cint_ok_def)

text \<open>The brackets of an address are searched independently, so the length of a host can be negative.\<close>

lemma reversed_brackets_fault: "address_port (bytes ''][:1'') None = None"
  by (simp add: address_port_def bytes_def strchr_def)

end
