(* ===== verification/Skynet_Stm.thy ===== *)
theory Skynet_Stm
  imports Skynet_Prelude
begin

text \<open>
  Blocks that services share by reference counts: \<open>lualib-src/lua-stm.c\<close>, in which one writer publishes messages and any number of
  readers in other services take the latest one, and \<open>lualib-src/lua-multicast.c\<close>, in which one message goes to many services.
  An operation on a shared object holds a reference to it or its lock for writing until it no longer touches it, so it is a single step
  here, with one exception: \<open>stm_releasereader\<close>, which several threads may run at once under the lock for reading, gives up its reference before
  it gives back the lock.  It is two steps: the decrement, and the unlocking of an object that another thread may have freed.  The value
  \<open>None\<close> stands for an access to memory that is not allocated, a failed assertion or an overflow.
\<close>

section \<open>Shared objects\<close>

record stm_object =
  obj_reference :: int
  obj_copy :: "addr option"

record stm_copied =
  copy_reference :: int
  copy_sz :: u32
  copy_msg :: addr

record stm =
  st_objs :: "addr \<Rightarrow> stm_object option"
  st_copies :: "addr \<Rightarrow> stm_copied option"
  st_msgs :: "addr \<Rightarrow> byte list option"
  st_brk :: addr

definition stm_newcopy :: "addr \<Rightarrow> u32 \<Rightarrow> stm \<Rightarrow> addr \<times> stm" where
  "stm_newcopy msg sz s =
     (st_brk s, s\<lparr>st_copies := (st_copies s)(st_brk s \<mapsto> \<lparr>copy_reference = 1, copy_sz = sz, copy_msg = msg\<rparr>), st_brk := Suc (st_brk s)\<rparr>)"

definition stm_new :: "addr \<Rightarrow> u32 \<Rightarrow> stm \<Rightarrow> addr \<times> stm" where
  "stm_new msg sz s =
     (let obj = st_brk s; (c, s1) = stm_newcopy msg sz (s\<lparr>st_brk := Suc obj\<rparr>)
      in (obj, s1\<lparr>st_objs := (st_objs s1)(obj \<mapsto> \<lparr>obj_reference = 1, obj_copy = Some c\<rparr>)\<rparr>))"

definition stm_releasecopy :: "addr option \<Rightarrow> stm \<Rightarrow> stm option" where
  "stm_releasecopy p s = (case p of
     None \<Rightarrow> Some s
   | Some c \<Rightarrow> do {
       cp \<leftarrow> st_copies s c;
       (if copy_reference cp - 1 = 0 then do {
          _ \<leftarrow> st_msgs s (copy_msg cp);
          Some (s\<lparr>st_msgs := (st_msgs s)(copy_msg cp := None), st_copies := (st_copies s)(c := None)\<rparr>) }
        else Some (s\<lparr>st_copies := (st_copies s)(c \<mapsto> cp\<lparr>copy_reference := copy_reference cp - 1\<rparr>)\<rparr>)) })"

definition stm_release :: "addr \<Rightarrow> stm \<Rightarrow> stm option" where
  "stm_release obj s = do {
     ob \<leftarrow> st_objs s obj;
     require (obj_copy ob \<noteq> None);
     s1 \<leftarrow> stm_releasecopy (obj_copy ob) s;
     (if obj_reference ob - 1 > 0 then Some (s1\<lparr>st_objs := (st_objs s1)(obj \<mapsto> \<lparr>obj_reference = obj_reference ob - 1, obj_copy = None\<rparr>)\<rparr>)
      else Some (s1\<lparr>st_objs := (st_objs s1)(obj := None)\<rparr>)) }"

text \<open>\<open>stm_releasereader\<close> up to the decrement: whether it was the last reference, and then the object is freed.  Otherwise the lock
  is still held, and \<open>rwlock_runlock\<close> writes to the object.\<close>

definition stm_releasereader :: "addr \<Rightarrow> stm \<Rightarrow> (bool \<times> stm) option" where
  "stm_releasereader obj s = do {
     ob \<leftarrow> st_objs s obj;
     (if obj_reference ob - 1 = 0 then do {
        require (obj_copy ob = None);
        Some (True, s\<lparr>st_objs := (st_objs s)(obj := None)\<rparr>) }
      else Some (False, s\<lparr>st_objs := (st_objs s)(obj \<mapsto> ob\<lparr>obj_reference := obj_reference ob - 1\<rparr>)\<rparr>)) }"

definition stm_runlock :: "addr \<Rightarrow> stm \<Rightarrow> stm option" where
  "stm_runlock obj s = do {
     _ \<leftarrow> st_objs s obj;
     Some s }"

definition stm_grab :: "addr \<Rightarrow> stm \<Rightarrow> stm option" where
  "stm_grab obj s = do {
     ob \<leftarrow> st_objs s obj;
     require (obj_reference ob > 0);
     n \<leftarrow> cint (obj_reference ob + 1);
     Some (s\<lparr>st_objs := (st_objs s)(obj \<mapsto> ob\<lparr>obj_reference := n\<rparr>)\<rparr>) }"

definition stm_copy :: "addr \<Rightarrow> stm \<Rightarrow> (addr option \<times> stm) option" where
  "stm_copy obj s = do {
     ob \<leftarrow> st_objs s obj;
     (case obj_copy ob of
        None \<Rightarrow> Some (None, s)
      | Some c \<Rightarrow> do {
          cp \<leftarrow> st_copies s c;
          require (copy_reference cp > 0);
          n \<leftarrow> cint (copy_reference cp + 1);
          Some (Some c, s\<lparr>st_copies := (st_copies s)(c \<mapsto> cp\<lparr>copy_reference := n\<rparr>)\<rparr>) }) }"

definition stm_update :: "addr \<Rightarrow> addr \<Rightarrow> u32 \<Rightarrow> stm \<Rightarrow> stm option" where
  "stm_update obj msg sz s = do {
     let (c, s1) = stm_newcopy msg sz s;
     ob \<leftarrow> st_objs s1 obj;
     stm_releasecopy (obj_copy ob) (s1\<lparr>st_objs := (st_objs s1)(obj \<mapsto> ob\<lparr>obj_copy := Some c\<rparr>)\<rparr>) }"

section \<open>Writers and readers\<close>

text \<open>The boxes of all services: the objects of the writers, the pointers that \<open>lcopy\<close> has given out and no reader was made of yet, and the objects of the
  readers with the copy that each of them has seen last.  \<open>w_unlocking\<close> are the readers whose box is gone and whose thread is between the decrement and
  the unlocking of \<open>stm_releasereader\<close>: it holds the lock of the object for reading and no reference.  \<open>w_loose\<close> are message blocks that belong to
  nobody here.\<close>

record stm_world =
  w_stm :: stm
  w_writers :: "addr list"
  w_copies :: "addr list"
  w_readers :: "(addr \<times> addr option) list"
  w_unlocking :: "(addr \<times> addr option) list"
  w_loose :: "addr set"

text \<open>A message is a block with a size, or a string, of which a copy is made.\<close>

datatype msg_arg = UserMsg addr u32 | StrMsg "byte list"

definition take_msg :: "msg_arg \<Rightarrow> stm_world \<Rightarrow> (addr \<times> u32) \<times> stm_world" where
  "take_msg arg w = (case arg of
     UserMsg m sz \<Rightarrow> ((m, sz), w\<lparr>w_loose := w_loose w - {m}\<rparr>)
   | StrMsg bs \<Rightarrow> (let s = w_stm w; m = st_brk s
        in ((m, of_nat (length bs)), w\<lparr>w_stm := s\<lparr>st_msgs := (st_msgs s)(m \<mapsto> bs), st_brk := Suc m\<rparr>\<rparr>)))"

definition del_at :: "nat \<Rightarrow> 'a list \<Rightarrow> 'a list" where
  "del_at i xs = take i xs @ drop (Suc i) xs"

definition stm_lnewwriter :: "msg_arg \<Rightarrow> stm_world \<Rightarrow> stm_world option" where
  "stm_lnewwriter arg w =
     (let ((m, sz), w1) = take_msg arg w; (obj, s) = stm_new m sz (w_stm w1)
      in Some (w1\<lparr>w_stm := s, w_writers := w_writers w1 @ [obj]\<rparr>))"

definition stm_ldeletewriter :: "nat \<Rightarrow> stm_world \<Rightarrow> stm_world option" where
  "stm_ldeletewriter i w = do {
     s \<leftarrow> stm_release (w_writers w ! i) (w_stm w);
     Some (w\<lparr>w_stm := s, w_writers := del_at i (w_writers w)\<rparr>) }"

definition stm_lupdate :: "nat \<Rightarrow> msg_arg \<Rightarrow> stm_world \<Rightarrow> stm_world option" where
  "stm_lupdate i arg w = do {
     let ((m, sz), w1) = take_msg arg w;
     s \<leftarrow> stm_update (w_writers w1 ! i) m sz (w_stm w1);
     Some (w1\<lparr>w_stm := s\<rparr>) }"

definition stm_lcopy :: "nat \<Rightarrow> stm_world \<Rightarrow> stm_world option" where
  "stm_lcopy i w = do {
     s \<leftarrow> stm_grab (w_writers w ! i) (w_stm w);
     Some (w\<lparr>w_stm := s, w_copies := w_copies w @ [w_writers w ! i]\<rparr>) }"

definition stm_lnewreader :: "nat \<Rightarrow> stm_world \<Rightarrow> stm_world option" where
  "stm_lnewreader i w = Some (w\<lparr>w_copies := del_at i (w_copies w), w_readers := w_readers w @ [(w_copies w ! i, None)]\<rparr>)"

text \<open>\<open>ldeletereader\<close> up to the decrement, and the rest of it when the decrement was not the last.\<close>

definition stm_ldeletereader :: "nat \<Rightarrow> stm_world \<Rightarrow> stm_world option" where
  "stm_ldeletereader i w = do {
     let (obj, lastcopy) = w_readers w ! i;
     (freed, s1) \<leftarrow> stm_releasereader obj (w_stm w);
     let w1 = w\<lparr>w_stm := s1, w_readers := del_at i (w_readers w)\<rparr>;
     (if freed then do {
        s2 \<leftarrow> stm_releasecopy lastcopy s1;
        Some (w1\<lparr>w_stm := s2\<rparr>) }
      else Some (w1\<lparr>w_unlocking := w_unlocking w @ [(obj, lastcopy)]\<rparr>)) }"

definition stm_lunlockreader :: "nat \<Rightarrow> stm_world \<Rightarrow> stm_world option" where
  "stm_lunlockreader i w = do {
     let (obj, lastcopy) = w_unlocking w ! i;
     s1 \<leftarrow> stm_runlock obj (w_stm w);
     s2 \<leftarrow> stm_releasecopy lastcopy s1;
     Some (w\<lparr>w_stm := s2, w_unlocking := del_at i (w_unlocking w)\<rparr>) }"

text \<open>The message that the callback of \<open>lread\<close> gets, or nothing when there is no news.\<close>

definition stm_lread :: "nat \<Rightarrow> stm_world \<Rightarrow> ((byte list \<times> u32) option \<times> stm_world) option" where
  "stm_lread i w = do {
     let (obj, lastcopy) = w_readers w ! i;
     (p, s1) \<leftarrow> stm_copy obj (w_stm w);
     (if p = lastcopy then do {
        s2 \<leftarrow> stm_releasecopy p s1;
        Some (None, w\<lparr>w_stm := s2\<rparr>) }
      else do {
        s2 \<leftarrow> stm_releasecopy lastcopy s1;
        let w1 = w\<lparr>w_stm := s2, w_readers := (w_readers w)[i := (obj, p)]\<rparr>;
        (case p of
           None \<Rightarrow> Some (None, w1)
         | Some c \<Rightarrow> do {
             cp \<leftarrow> st_copies s2 c;
             msg \<leftarrow> st_msgs s2 (copy_msg cp);
             Some (Some (msg, copy_sz cp), w1) }) }) }"

section \<open>Steps\<close>

datatype stm_op = NewWriter msg_arg | Update nat msg_arg | Copy nat | DeleteWriter nat | NewReader nat | Read nat | DeleteReader nat | UnlockReader nat

fun stm_step :: "stm_op \<Rightarrow> stm_world \<Rightarrow> ((byte list \<times> u32) option \<times> stm_world) option" where
  "stm_step (NewWriter arg) w = map_option (Pair None) (stm_lnewwriter arg w)"
| "stm_step (Update i arg) w = map_option (Pair None) (stm_lupdate i arg w)"
| "stm_step (Copy i) w = map_option (Pair None) (stm_lcopy i w)"
| "stm_step (DeleteWriter i) w = map_option (Pair None) (stm_ldeletewriter i w)"
| "stm_step (NewReader i) w = map_option (Pair None) (stm_lnewreader i w)"
| "stm_step (Read i) w = stm_lread i w"
| "stm_step (DeleteReader i) w = map_option (Pair None) (stm_ldeletereader i w)"
| "stm_step (UnlockReader i) w = map_option (Pair None) (stm_lunlockreader i w)"

text \<open>What may happen next.  A service uses boxes that exist, hands over messages that are its own, and makes one reader of a pointer that \<open>lcopy\<close> has
  returned.  There are fewer than a thousand million boxes.  The operations that take the lock for writing wait until no thread holds it for reading.
  The last case is a restriction: the last reference to an object is not given back while another thread is still unlocking it.\<close>

definition msg_ok :: "msg_arg \<Rightarrow> stm_world \<Rightarrow> bool" where
  "msg_ok arg w \<longleftrightarrow> (case arg of UserMsg m sz \<Rightarrow> m \<in> w_loose w | StrMsg bs \<Rightarrow> True)"

definition unlocking :: "addr \<Rightarrow> stm_world \<Rightarrow> bool" where
  "unlocking x w \<longleftrightarrow> x \<in> fst ` set (w_unlocking w)"

definition last_reference :: "addr \<Rightarrow> stm_world \<Rightarrow> bool" where
  "last_reference x w \<longleftrightarrow> (case st_objs (w_stm w) x of None \<Rightarrow> False | Some ob \<Rightarrow> obj_reference ob = 1)"

definition allowed :: "stm_op \<Rightarrow> stm_world \<Rightarrow> bool" where
  "allowed op w \<longleftrightarrow> length (w_writers w) + length (w_copies w) + length (w_readers w) + length (w_unlocking w) < 10 ^ 9 \<and>
     (case op of
        NewWriter arg \<Rightarrow> msg_ok arg w
      | Update i arg \<Rightarrow> i < length (w_writers w) \<and> \<not> unlocking (w_writers w ! i) w \<and> msg_ok arg w
      | Copy i \<Rightarrow> i < length (w_writers w)
      | DeleteWriter i \<Rightarrow> i < length (w_writers w) \<and> \<not> unlocking (w_writers w ! i) w
      | NewReader i \<Rightarrow> i < length (w_copies w)
      | Read i \<Rightarrow> i < length (w_readers w)
      | UnlockReader i \<Rightarrow> i < length (w_unlocking w)
      | DeleteReader i \<Rightarrow> i < length (w_readers w) \<and>
          (last_reference (fst (w_readers w ! i)) w \<longrightarrow> \<not> unlocking (fst (w_readers w ! i)) w))"

text \<open>What was published: the message that the writer of an object has given last, and nothing when the writer is gone.\<close>

definition msg_bytes :: "msg_arg \<Rightarrow> stm_world \<Rightarrow> (byte list \<times> u32) option" where
  "msg_bytes arg w = (case arg of UserMsg m sz \<Rightarrow> map_option (\<lambda>bs. (bs, sz)) (st_msgs (w_stm w) m) | StrMsg bs \<Rightarrow> Some (bs, of_nat (length bs)))"

definition publish :: "stm_op \<Rightarrow> stm_world \<Rightarrow> stm_world \<Rightarrow> (addr \<Rightarrow> (byte list \<times> u32) option) \<Rightarrow> addr \<Rightarrow> (byte list \<times> u32) option" where
  "publish op w w' pub = (case op of
     NewWriter arg \<Rightarrow> pub(last (w_writers w') := msg_bytes arg w)
   | Update i arg \<Rightarrow> pub(w_writers w ! i := msg_bytes arg w)
   | DeleteWriter i \<Rightarrow> pub(w_writers w ! i := None)
   | _ \<Rightarrow> pub)"

definition stm_start :: "(addr \<Rightarrow> byte list option) \<Rightarrow> addr \<Rightarrow> stm_world" where
  "stm_start msgs brk = \<lparr>w_stm = \<lparr>st_objs = Map.empty, st_copies = Map.empty, st_msgs = msgs, st_brk = brk\<rparr>, w_writers = [], w_copies = [], w_readers = [], w_unlocking = [], w_loose = dom msgs\<rparr>"

inductive stm_reach :: "(addr \<Rightarrow> (byte list \<times> u32) option) \<Rightarrow> stm_world \<Rightarrow> bool" where
  start: "\<forall>m \<in> dom msgs. m < brk \<Longrightarrow> stm_reach Map.empty (stm_start msgs brk)"
| step: "stm_reach pub w \<Longrightarrow> allowed op w \<Longrightarrow> stm_step op w = Some (out, w') \<Longrightarrow> stm_reach (publish op w w' pub) w'"

section \<open>Multicast packages\<close>

text \<open>A package with the number of its receivers and the cell that points to it until the number is known.  Errors raised in Lua are values.\<close>

record mc_package =
  mc_reference :: int
  mc_size :: u32
  mc_data :: addr

record mc =
  mc_packs :: "addr \<Rightarrow> mc_package option"
  mc_cells :: "addr \<Rightarrow> addr option"
  mc_datas :: "addr \<Rightarrow> byte list option"
  mc_brk :: addr

datatype mc_error = SizeNot32 | InvalidPackageSize int | BoundTwice | InvalidReference int

definition mc_pack :: "addr \<Rightarrow> u64 \<Rightarrow> mc \<Rightarrow> addr \<times> mc" where
  "mc_pack d n s =
     (let p = mc_brk s; cell = Suc p
      in (cell, s\<lparr>mc_packs := (mc_packs s)(p \<mapsto> \<lparr>mc_reference = 0, mc_size = ucast n, mc_data = d\<rparr>), mc_cells := (mc_cells s)(cell \<mapsto> p), mc_brk := Suc cell\<rparr>))"

definition mc_packlocal :: "addr \<Rightarrow> u64 \<Rightarrow> mc \<Rightarrow> mc_error + (addr \<times> mc)" where
  "mc_packlocal d n s = (if n \<noteq> ucast (ucast n :: u32) then Inl SizeNot32 else Inr (mc_pack d n s))"

definition mc_packremote :: "addr \<Rightarrow> u64 \<Rightarrow> mc \<Rightarrow> (mc_error + (addr \<times> mc)) option" where
  "mc_packremote d n s =
     (if n \<noteq> ucast (ucast n :: u32) then Some (Inl SizeNot32)
      else do {
        bs \<leftarrow> mc_datas s d;
        require (unat n \<le> length bs);
        let msg = mc_brk s;
        Some (Inr (mc_pack msg n (s\<lparr>mc_datas := (mc_datas s)(msg \<mapsto> take (unat n) bs), mc_brk := Suc msg\<rparr>))) })"

definition mc_unpacklocal :: "addr \<Rightarrow> int \<Rightarrow> mc \<Rightarrow> (mc_error + (addr \<times> addr \<times> int)) option" where
  "mc_unpacklocal cell sz s =
     (if sz \<noteq> 8 then Some (Inl (InvalidPackageSize sz))
      else do {
        p \<leftarrow> mc_cells s cell;
        pk \<leftarrow> mc_packs s p;
        Some (Inr (p, mc_data pk, uint (mc_size pk))) })"

definition mc_bindrefer :: "addr \<Rightarrow> int \<Rightarrow> mc \<Rightarrow> (mc_error + (addr \<times> mc)) option" where
  "mc_bindrefer cell ref s = do {
     p \<leftarrow> mc_cells s cell;
     pk \<leftarrow> mc_packs s p;
     Some (if mc_reference pk \<noteq> 0 then Inl BoundTwice
           else Inr (p, s\<lparr>mc_packs := (mc_packs s)(p \<mapsto> pk\<lparr>mc_reference := ref\<rparr>), mc_cells := (mc_cells s)(cell := None)\<rparr>)) }"

text \<open>The package is freed before the error is raised.\<close>

definition mc_closelocal :: "addr \<Rightarrow> mc \<Rightarrow> (mc_error option \<times> mc) option" where
  "mc_closelocal p s = do {
     pk \<leftarrow> mc_packs s p;
     let ref = mc_reference pk - 1;
     (if ref \<le> 0 then do {
        _ \<leftarrow> mc_datas s (mc_data pk);
        let s1 = s\<lparr>mc_datas := (mc_datas s)(mc_data pk := None), mc_packs := (mc_packs s)(p := None)\<rparr>;
        Some (if ref < 0 then Some (InvalidReference ref) else None, s1) }
      else Some (None, s\<lparr>mc_packs := (mc_packs s)(p \<mapsto> pk\<lparr>mc_reference := ref\<rparr>)\<rparr>)) }"

definition mc_remote :: "addr \<Rightarrow> mc \<Rightarrow> ((addr \<times> int) \<times> mc) option" where
  "mc_remote cell s = do {
     p \<leftarrow> mc_cells s cell;
     pk \<leftarrow> mc_packs s p;
     Some ((mc_data pk, uint (mc_size pk)), s\<lparr>mc_packs := (mc_packs s)(p := None)\<rparr>) }"

definition mc_nextid :: "u32 \<Rightarrow> u32" where
  "mc_nextid i = i + 256"

fun mc_close_times :: "nat \<Rightarrow> addr \<Rightarrow> mc \<Rightarrow> mc option" where
  "mc_close_times 0 p s = Some s"
| "mc_close_times (Suc n) p s = do {
     (e, s1) \<leftarrow> mc_closelocal p s;
     require (e = None);
     mc_close_times n p s1 }"

section \<open>Counting\<close>

lemma count_del: "i < length xs \<Longrightarrow> count_list xs x = count_list (del_at i xs) x + of_bool (xs ! i = x)"
  by (subst id_take_nth_drop [of i xs]) (auto simp: del_at_def)

lemma count_list_update: "i < length xs \<Longrightarrow> count_list (xs[i := v]) x + of_bool (xs ! i = x) = count_list xs x + of_bool (v = x)"
  by (simp add: count_del [of i xs x]) (simp add: upd_conv_take_nth_drop del_at_def)

lemma map_del: "map f (del_at i xs) = del_at i (map f xs)"
  by (simp add: del_at_def take_map drop_map)

lemma set_del:
  assumes "i < length xs" "distinct xs"
  shows "set (del_at i xs) = set xs - {xs ! i} \<and> distinct (del_at i xs)"
proof -
  note e = id_take_nth_drop [OF assms(1)]
  have d: "distinct (take i xs @ xs ! i # drop (Suc i) xs)" using assms(2) e by metis
  have "set xs = insert (xs ! i) (set (del_at i xs))" by (subst e) (simp add: del_at_def)
  then show ?thesis using d by (auto simp: del_at_def)
qed

lemma count_map_upd:
  assumes "distinct xs" "i < length xs" "\<And>x. x \<noteq> xs ! i \<Longrightarrow> f' x = f x"
  shows "count_list (map f' xs) y + of_bool (f (xs ! i) = y) = count_list (map f xs) y + of_bool (f' (xs ! i) = y)"
proof -
  have "map f' xs = (map f xs)[i := f' (xs ! i)]"
    using assms by (intro nth_equalityI) (auto simp: nth_list_update nth_eq_iff_index_eq)
  then show ?thesis using count_list_update [of i "map f xs" "f' (xs ! i)" y] assms(2) by simp
qed

section \<open>The invariant\<close>

definition objs_ok :: "(addr \<Rightarrow> nat) \<Rightarrow> addr set \<Rightarrow> stm \<Rightarrow> bool" where
  "objs_ok h W s \<longleftrightarrow> (\<forall>x. st_objs s x = None \<longrightarrow> h x = 0) \<and>
     (\<forall>x ob. st_objs s x = Some ob \<longrightarrow> 0 < h x \<and> obj_reference ob = int (h x) \<and> (obj_copy ob \<noteq> None \<longleftrightarrow> x \<in> W))"

definition copies_ok :: "(addr \<Rightarrow> nat) \<Rightarrow> stm \<Rightarrow> bool" where
  "copies_ok u s \<longleftrightarrow> (\<forall>c. st_copies s c = None \<longrightarrow> u c = 0) \<and>
     (\<forall>c cp. st_copies s c = Some cp \<longrightarrow> 0 < u c \<and> copy_reference cp = int (u c))"

definition owned :: "stm \<Rightarrow> addr \<Rightarrow> addr \<Rightarrow> bool" where
  "owned s c m \<longleftrightarrow> (\<exists>cp. st_copies s c = Some cp \<and> copy_msg cp = m)"

lemma owned_fun: "owned s c m \<Longrightarrow> owned s c m' \<Longrightarrow> m = m'"
  by (auto simp: owned_def)

definition msgs_ok :: "addr set \<Rightarrow> stm \<Rightarrow> bool" where
  "msgs_ok L s \<longleftrightarrow> (\<forall>m. st_msgs s m \<noteq> None \<longleftrightarrow> m \<in> L \<or> (\<exists>c. owned s c m)) \<and> (\<forall>c m. owned s c m \<longrightarrow> m \<notin> L) \<and>
     (\<forall>c c' m. owned s c m \<longrightarrow> owned s c' m \<longrightarrow> c = c')"

definition brk_ok :: "stm \<Rightarrow> bool" where
  "brk_ok s \<longleftrightarrow> (\<forall>a. st_objs s a \<noteq> None \<or> st_copies s a \<noteq> None \<or> st_msgs s a \<noteq> None \<longrightarrow> a < st_brk s)"

definition copy_of :: "stm \<Rightarrow> addr \<Rightarrow> addr option" where
  "copy_of s x = Option.bind (st_objs s x) obj_copy"

definition holders :: "stm_world \<Rightarrow> addr \<Rightarrow> nat" where
  "holders w x = count_list (w_writers w) x + count_list (w_copies w) x + count_list (map fst (w_readers w)) x"

definition users :: "stm_world \<Rightarrow> addr \<Rightarrow> nat" where
  "users w c = count_list (map (copy_of (w_stm w)) (w_writers w)) (Some c) + count_list (map snd (w_readers w)) (Some c) + count_list (map snd (w_unlocking w)) (Some c)"

definition world_inv :: "stm_world \<Rightarrow> bool" where
  "world_inv w \<longleftrightarrow> distinct (w_writers w) \<and> objs_ok (holders w) (set (w_writers w)) (w_stm w) \<and> copies_ok (users w) (w_stm w) \<and>
     msgs_ok (w_loose w) (w_stm w) \<and> brk_ok (w_stm w) \<and> (\<forall>x \<in> fst ` set (w_unlocking w). 0 < holders w x)"

text \<open>A reference to a copy that only the running function holds.\<close>

abbreviation extra :: "(addr \<Rightarrow> nat) \<Rightarrow> addr option \<Rightarrow> addr \<Rightarrow> nat" where
  "extra u p \<equiv> (\<lambda>x. u x + of_bool (p = Some x))"

text \<open>The bytes of a copy.\<close>

definition message_of :: "stm \<Rightarrow> addr option \<Rightarrow> (byte list \<times> u32) option" where
  "message_of s p = do { c \<leftarrow> p; cp \<leftarrow> st_copies s c; msg \<leftarrow> st_msgs s (copy_msg cp); Some (msg, copy_sz cp) }"

lemma releasecopy_ok:
  assumes "copies_ok (extra u p) s" "msgs_ok L s" "brk_ok s"
  shows "\<exists>s'. stm_releasecopy p s = Some s' \<and> copies_ok u s' \<and> msgs_ok L s' \<and> brk_ok s' \<and> st_objs s' = st_objs s \<and>
    (\<forall>c. 0 < u c \<longrightarrow> message_of s' (Some c) = message_of s (Some c))"
proof (cases p)
  case None
  then show ?thesis using assms by (simp add: stm_releasecopy_def)
next
  case (Some c)
  then obtain cp where cp: "st_copies s c = Some cp" "copy_reference cp = int (u c + 1)"
    using assms(1) by (cases "st_copies s c") (auto simp: copies_ok_def)
  have own: "owned s c (copy_msg cp)" using cp(1) by (simp add: owned_def)
  then obtain msg where msg: "st_msgs s (copy_msg cp) = Some msg" using assms(2) unfolding msgs_ok_def by (metis not_None_eq)
  show ?thesis
  proof (cases "u c = 0")
    case True
    define s' where "s' = s\<lparr>st_msgs := (st_msgs s)(copy_msg cp := None), st_copies := (st_copies s)(c := None)\<rparr>"
    have run: "stm_releasecopy p s = Some s'" using Some cp msg True by (simp add: stm_releasecopy_def s'_def)
    have ow: "owned s' c' m \<longleftrightarrow> owned s c' m \<and> c' \<noteq> c" for c' m by (auto simp: owned_def s'_def)
    have "copies_ok u s'" using assms(1) True Some by (auto simp: copies_ok_def s'_def)
    moreover have "msgs_ok L s'"
      using assms(2) own unfolding msgs_ok_def ow by (auto simp: s'_def dest: owned_fun)
    moreover have "brk_ok s'" using assms(3) by (auto simp: brk_ok_def s'_def)
    moreover have "message_of s' (Some x) = message_of s (Some x)" if "0 < u x" for x
    proof -
      have "x \<noteq> c" using that True by auto
      then have "copy_msg cpx \<noteq> copy_msg cp" if "st_copies s x = Some cpx" for cpx
        using assms(2) own that unfolding msgs_ok_def owned_def by blast
      then show ?thesis using \<open>x \<noteq> c\<close> by (cases "st_copies s x") (auto simp: message_of_def s'_def)
    qed
    ultimately show ?thesis using run by (auto simp: s'_def)
  next
    case False
    define s' where "s' = s\<lparr>st_copies := (st_copies s)(c \<mapsto> cp\<lparr>copy_reference := int (u c)\<rparr>)\<rparr>"
    have run: "stm_releasecopy p s = Some s'" using Some cp False by (simp add: stm_releasecopy_def s'_def)
    have ow: "owned s' c' m \<longleftrightarrow> owned s c' m" for c' m using cp by (auto simp: owned_def s'_def)
    have "copies_ok u s'" using assms(1) False Some by (auto simp: copies_ok_def s'_def)
    moreover have "msgs_ok L s'" using assms(2) unfolding msgs_ok_def ow by (simp add: s'_def)
    moreover have "brk_ok s'" using assms(3) cp by (auto simp: brk_ok_def s'_def)
    moreover have "message_of s' q = message_of s q" for q using cp by (cases q) (auto simp: message_of_def s'_def)
    ultimately show ?thesis using run by (auto simp: s'_def)
  qed
qed

lemma releasecopy_objs: "stm_releasecopy p (s\<lparr>st_objs := Q\<rparr>) = map_option (\<lambda>s'. s'\<lparr>st_objs := Q\<rparr>) (stm_releasecopy p s)"
  by (auto simp: stm_releasecopy_def map_option_bind comp_def intro!: Option.bind_cong split: option.split)

text \<open>Giving back a reference to an object.\<close>

lemma releasereader_ok:
  assumes ok: "objs_ok (extra h (Some x)) W s" and W: "h x = 0 \<Longrightarrow> x \<notin> W"
  shows "\<exists>Q. stm_releasereader x s = Some (h x = 0, s\<lparr>st_objs := Q\<rparr>) \<and> objs_ok h W (s\<lparr>st_objs := Q\<rparr>) \<and>
    (\<forall>y \<in> W. copy_of (s\<lparr>st_objs := Q\<rparr>) y = copy_of s y) \<and> (\<forall>a. Q a \<noteq> None \<longrightarrow> st_objs s a \<noteq> None)"
proof -
  obtain ob where ob: "st_objs s x = Some ob" "obj_reference ob = int (h x) + 1" "obj_copy ob \<noteq> None \<longleftrightarrow> x \<in> W"
    using ok by (cases "st_objs s x") (auto simp: objs_ok_def)
  show ?thesis
  proof (cases "h x = 0")
    case True
    then have "obj_copy ob = None" "x \<notin> W" using W ob(3) by auto
    then show ?thesis using ob ok True
      by (intro exI [of _ "(st_objs s)(x := None)"]) (auto simp: stm_releasereader_def objs_ok_def copy_of_def)
  next
    case False
    then show ?thesis using ob ok
      by (intro exI [of _ "(st_objs s)(x \<mapsto> ob\<lparr>obj_reference := int (h x)\<rparr>)"]) (auto simp: stm_releasereader_def objs_ok_def copy_of_def)
  qed
qed

lemma copy_of_writer:
  assumes "objs_ok h W s" "x \<in> W" "0 < h x"
  obtains ob c where "st_objs s x = Some ob" "obj_copy ob = Some c" "copy_of s x = Some c" "obj_reference ob = int (h x)"
proof -
  obtain ob where ob: "st_objs s x = Some ob" using assms by (cases "st_objs s x") (auto simp: objs_ok_def)
  then have "obj_copy ob \<noteq> None" "obj_reference ob = int (h x)" using assms by (auto simp: objs_ok_def)
  then show thesis using that ob by (auto simp: copy_of_def)
qed

lemma count_pos: "x \<in> set xs \<Longrightarrow> 0 < count_list xs x"
  by (rule ccontr) (simp add: count_list_0_iff)

lemma copies_ok_cong: "copies_ok u s \<Longrightarrow> (\<And>c. u c = u' c) \<Longrightarrow> st_copies s = st_copies s' \<Longrightarrow> copies_ok u' s'"
  by (simp add: copies_ok_def)

lemma objs_ok_cong: "objs_ok h W s \<Longrightarrow> (\<And>x. h x = h' x) \<Longrightarrow> W = W' \<Longrightarrow> st_objs s = st_objs s' \<Longrightarrow> objs_ok h' W' s'"
  by (simp add: objs_ok_def)

lemma msgs_ok_cong: "msgs_ok L s \<Longrightarrow> st_copies s = st_copies s' \<Longrightarrow> st_msgs s = st_msgs s' \<Longrightarrow> msgs_ok L s'"
  by (simp add: msgs_ok_def owned_def)

text \<open>What an object shows: the message of its current copy.\<close>

definition shown :: "stm_world \<Rightarrow> addr \<Rightarrow> (byte list \<times> u32) option" where
  "shown w x = message_of (w_stm w) (copy_of (w_stm w) x)"

lemma users_writer:
  assumes "y \<in> set (w_writers w)" "copy_of (w_stm w) y = Some c"
  shows "0 < users w c"
  using count_pos [of "Some c" "map (copy_of (w_stm w)) (w_writers w)"] assms by (force simp: users_def)

lemma users_reader:
  assumes "i < length (w_readers w)" "snd (w_readers w ! i) = Some c"
  shows "0 < users w c"
  using count_pos [of "Some c" "map snd (w_readers w)"] assms by (force simp: users_def in_set_conv_nth)

lemma shown_kept:
  assumes "y \<in> set (w_writers w')" "copy_of (w_stm w') y = copy_of (w_stm w) y"
    "\<And>c. 0 < users w' c \<Longrightarrow> message_of (w_stm w') (Some c) = message_of (w_stm w) (Some c)"
  shows "shown w' y = shown w y"
  using assms users_writer [of y w'] by (cases "copy_of (w_stm w) y") (auto simp: shown_def message_of_def)

section \<open>Every operation keeps the invariant\<close>

lemma ldeletereader_ok:
  assumes inv: "world_inv w" and i: "i < length (w_readers w)"
    and last: "last_reference (fst (w_readers w ! i)) w \<Longrightarrow> \<not> unlocking (fst (w_readers w ! i)) w"
  shows "\<exists>w'. stm_ldeletereader i w = Some w' \<and> world_inv w' \<and> w_writers w' = w_writers w \<and> (\<forall>y \<in> set (w_writers w). shown w' y = shown w y)"
proof -
  obtain x q where r: "w_readers w ! i = (x, q)" by (cases "w_readers w ! i")
  define s where "s = w_stm w"
  let ?w = "\<lambda>s'. w\<lparr>w_stm := s', w_readers := del_at i (w_readers w)\<rparr>"
  define h where "h = holders (?w s)"
  define u where "u = users (?w s)"
  have hx: "holders w = extra h (Some x)"
    using count_del [of i "map fst (w_readers w)"] i r by (simp add: holders_def h_def map_del fun_eq_iff)
  then have k1: "objs_ok (extra h (Some x)) (set (w_writers w)) s" using inv unfolding world_inv_def s_def by simp
  have k2: "h x = 0 \<Longrightarrow> x \<notin> set (w_writers w)" using count_pos [of x "w_writers w"] by (auto simp: h_def holders_def)
  obtain Q where Q: "stm_releasereader x s = Some (h x = 0, s\<lparr>st_objs := Q\<rparr>)" "objs_ok h (set (w_writers w)) (s\<lparr>st_objs := Q\<rparr>)"
    "\<forall>y \<in> set (w_writers w). copy_of (s\<lparr>st_objs := Q\<rparr>) y = copy_of s y" "\<forall>a. Q a \<noteq> None \<longrightarrow> st_objs s a \<noteq> None"
    using releasereader_ok [OF k1 k2] by blast
  have "last_reference x w" if "h x = 0"
  proof -
    obtain ob where "st_objs s x = Some ob" using k1 by (cases "st_objs s x") (auto simp: objs_ok_def)
    then show ?thesis using k1 that by (auto simp: last_reference_def objs_ok_def s_def)
  qed
  then have "h x = 0 \<Longrightarrow> x \<notin> fst ` set (w_unlocking w)" using last r by (auto simp: unlocking_def)
  then have pend: "0 < h y" if "y \<in> fst ` set (w_unlocking w)" for y
    using inv that hx unfolding world_inv_def by (cases "y = x") auto
  have ux: "users w = extra u q"
    using count_del [of i "map snd (w_readers w)"] i r by (simp add: users_def u_def map_del s_def fun_eq_iff)
  have ok: "copies_ok (extra u q) s" "msgs_ok (w_loose w) s" "brk_ok s" using inv ux by (simp_all add: world_inv_def s_def)
  show ?thesis
  proof (cases "h x = 0")
    case True
    obtain s' where s': "stm_releasecopy q s = Some s'" "copies_ok u s'" "msgs_ok (w_loose w) s'" "brk_ok s'" "st_objs s' = st_objs s"
        "\<forall>c. 0 < u c \<longrightarrow> message_of s' (Some c) = message_of s (Some c)"
      using releasecopy_ok [OF ok] by blast
    let ?s = "s'\<lparr>st_objs := Q\<rparr>"
    have run: "stm_ldeletereader i w = Some (?w ?s)"
      using r Q(1) s'(1) True by (simp add: stm_ldeletereader_def releasecopy_objs flip: s_def)
    have co: "copy_of ?s y = copy_of s y" if "y \<in> set (w_writers w)" for y using Q(3) that by (simp add: copy_of_def)
    then have us: "users (?w ?s) = u" by (intro ext) (simp add: u_def users_def cong: map_cong)
    then have "copies_ok (users (?w ?s)) ?s" using s'(2) by (simp add: copies_ok_def)
    moreover have "objs_ok (holders (?w ?s)) (set (w_writers w)) ?s" using Q(2) by (simp add: objs_ok_def holders_def h_def)
    moreover have "brk_ok ?s" using s'(4,5) Q(4) by (auto simp: brk_ok_def)
    moreover have "msgs_ok (w_loose w) ?s" using s'(3) by (rule msgs_ok_cong) simp_all
    moreover have "holders (?w ?s) = h" by (intro ext) (simp add: holders_def h_def)
    moreover have "shown (?w ?s) y = shown w y" if "y \<in> set (w_writers w)" for y
      using that co s'(6) us by (intro shown_kept) (simp_all add: s_def message_of_def)
    ultimately show ?thesis using run inv pend by (auto simp: world_inv_def)
  next
    case False
    let ?s = "s\<lparr>st_objs := Q\<rparr>"
    let ?v = "(?w ?s)\<lparr>w_unlocking := w_unlocking w @ [(x, q)]\<rparr>"
    have run: "stm_ldeletereader i w = Some ?v"
      using r Q(1) False by (simp add: stm_ldeletereader_def flip: s_def)
    have co: "copy_of ?s y = copy_of s y" if "y \<in> set (w_writers w)" for y using Q(3) that by simp
    have us: "users ?v = users w" unfolding ux
      using co by (intro ext) (simp add: u_def users_def cong: map_cong)
    have hs: "holders ?v = h" by (intro ext) (simp add: holders_def h_def)
    have "copies_ok (users ?v) ?s" using ok(1) unfolding us ux by (simp add: copies_ok_def)
    moreover have "objs_ok (holders ?v) (set (w_writers w)) ?s" using Q(2) unfolding hs .
    moreover have "brk_ok ?s" using ok(3) Q(4) by (auto simp: brk_ok_def)
    moreover have "msgs_ok (w_loose w) ?s" using ok(2) by (rule msgs_ok_cong) simp_all
    moreover have "0 < holders ?v y" if "y \<in> fst ` set (w_unlocking ?v)" for y
      using that pend False unfolding hs by auto
    moreover have "shown ?v y = shown w y" if "y \<in> set (w_writers w)" for y
      using that co by (simp add: shown_def s_def message_of_def)
    ultimately show ?thesis using run inv by (auto simp: world_inv_def)
  qed
qed

text \<open>Unlocking the object and releasing the copy that the reader had seen.\<close>

lemma lunlockreader_ok:
  assumes inv: "world_inv w" and i: "i < length (w_unlocking w)"
  shows "\<exists>w'. stm_lunlockreader i w = Some w' \<and> world_inv w' \<and> w_writers w' = w_writers w \<and> (\<forall>y \<in> set (w_writers w). shown w' y = shown w y)"
proof -
  obtain x q where r: "w_unlocking w ! i = (x, q)" by (cases "w_unlocking w ! i")
  define s where "s = w_stm w"
  let ?w = "\<lambda>s'. w\<lparr>w_stm := s', w_unlocking := del_at i (w_unlocking w)\<rparr>"
  define u where "u = users (?w s)"
  have objs: "objs_ok (holders w) (set (w_writers w)) s" using inv by (simp add: world_inv_def s_def)
  have "(x, q) \<in> set (w_unlocking w)" using i r by (metis nth_mem)
  then have "0 < holders w x" using inv by (force simp: world_inv_def)
  then obtain ob where ob: "st_objs s x = Some ob" using objs by (cases "st_objs s x") (auto simp: objs_ok_def)
  have "users w = extra u q"
    using count_del [of i "map snd (w_unlocking w)"] i r by (simp add: users_def u_def map_del s_def fun_eq_iff)
  then have "copies_ok (extra u q) s" "msgs_ok (w_loose w) s" "brk_ok s" using inv by (simp_all add: world_inv_def s_def)
  then obtain s' where s': "stm_releasecopy q s = Some s'" "copies_ok u s'" "msgs_ok (w_loose w) s'" "brk_ok s'" "st_objs s' = st_objs s"
      "\<forall>c. 0 < u c \<longrightarrow> message_of s' (Some c) = message_of s (Some c)"
    using releasecopy_ok by blast
  have run: "stm_lunlockreader i w = Some (?w s')"
    using r ob s'(1) by (simp add: stm_lunlockreader_def stm_runlock_def flip: s_def)
  have co: "copy_of s' = copy_of s" using s'(5) by (simp add: copy_of_def fun_eq_iff)
  then have us: "users (?w s') = u" by (intro ext) (simp add: u_def users_def)
  then have "copies_ok (users (?w s')) s'" using s'(2) by simp
  moreover have hs: "holders (?w s') = holders w" by (intro ext) (simp add: holders_def)
  have "objs_ok (holders (?w s')) (set (w_writers w)) s'" using objs s'(5) unfolding hs by (simp add: objs_ok_def)
  moreover have "set (del_at i (w_unlocking w)) \<subseteq> set (w_unlocking w)"
    by (auto simp: del_at_def dest: in_set_takeD in_set_dropD)
  then have "0 < holders (?w s') y" if "y \<in> fst ` set (del_at i (w_unlocking w))" for y
    using inv that unfolding hs world_inv_def by (metis image_mono subsetD)
  moreover have "shown (?w s') y = shown w y" if "y \<in> set (w_writers w)" for y
    using that co s'(6) us by (intro shown_kept) (simp_all add: s_def message_of_def)
  ultimately show ?thesis using run inv s'(3,4) by (auto simp: world_inv_def)
qed

lemma lnewreader_ok:
  assumes "world_inv w" "i < length (w_copies w)"
  shows "\<exists>w'. stm_lnewreader i w = Some w' \<and> world_inv w' \<and> w_writers w' = w_writers w \<and> shown w' = shown w"
proof -
  let ?w = "w\<lparr>w_copies := del_at i (w_copies w), w_readers := w_readers w @ [(w_copies w ! i, None)]\<rparr>"
  have "holders ?w = holders w" using count_del [OF assms(2)] by (auto simp: holders_def fun_eq_iff)
  moreover have "users ?w = users w" by (auto simp: users_def fun_eq_iff)
  moreover have "shown ?w = shown w" by (intro ext) (simp add: shown_def)
  ultimately show ?thesis using assms(1) by (simp add: stm_lnewreader_def world_inv_def)
qed

lemma writer_held:
  assumes "i < length (w_writers w)"
  shows "0 < holders w (w_writers w ! i)" "w_writers w ! i \<in> set (w_writers w)"
  using count_pos [of "w_writers w ! i" "w_writers w"] assms by (simp_all add: holders_def)

lemma writer_copy:
  assumes "objs_ok (holders w) (set (w_writers w)) s" "y \<in> set (w_writers w)"
  shows "\<exists>c. copy_of s y = Some c"
proof -
  have "0 < holders w y" using count_pos [OF assms(2)] by (simp add: holders_def)
  then show ?thesis using copy_of_writer [OF assms] by metis
qed

lemma lcopy_ok:
  assumes inv: "world_inv w" and i: "i < length (w_writers w)" and room: "holders w (w_writers w ! i) < 2 ^ 30"
  shows "\<exists>w'. stm_lcopy i w = Some w' \<and> world_inv w' \<and> w_writers w' = w_writers w \<and> shown w' = shown w"
proof -
  define x where "x = w_writers w ! i"
  define s where "s = w_stm w"
  have objs: "objs_ok (holders w) (set (w_writers w)) s" using inv by (simp add: world_inv_def s_def)
  obtain ob c where ob: "st_objs s x = Some ob" "obj_copy ob = Some c" "copy_of s x = Some c" "obj_reference ob = int (holders w x)"
    using copy_of_writer [OF objs] writer_held [OF i] x_def by blast
  define s' where "s' = s\<lparr>st_objs := (st_objs s)(x \<mapsto> ob\<lparr>obj_reference := int (holders w x) + 1\<rparr>)\<rparr>"
  let ?w = "w\<lparr>w_stm := s', w_copies := w_copies w @ [x]\<rparr>"
  have "cint (int (holders w x) + 1) = Some (int (holders w x) + 1)" using room by (simp add: cint_def cint_ok_def x_def)
  then have run: "stm_lcopy i w = Some ?w"
    using ob writer_held [OF i] by (simp add: stm_lcopy_def stm_grab_def s'_def flip: x_def s_def)
  have h: "holders ?w = extra (holders w) (Some x)" by (simp add: holders_def fun_eq_iff)
  have "objs_ok (holders ?w) (set (w_writers w)) s'" unfolding h using objs ob(1,4) by (auto simp: objs_ok_def s'_def)
  moreover have co: "copy_of s' = copy_of s" using ob(1) by (auto simp: copy_of_def s'_def fun_eq_iff)
  have "users ?w = users w" using co by (intro ext) (simp add: users_def s_def)
  then have "copies_ok (users ?w) s'" using inv by (simp add: world_inv_def s_def s'_def copies_ok_def)
  moreover have "brk_ok s'" using inv ob(1) by (auto simp: world_inv_def s_def s'_def brk_ok_def)
  moreover have "msgs_ok (w_loose w) s'" using inv by (auto simp: world_inv_def s_def s'_def intro: msgs_ok_cong)
  moreover have "shown ?w = shown w" using co by (simp add: shown_def message_of_def s'_def s_def fun_eq_iff)
  ultimately show ?thesis using run inv by (simp add: world_inv_def) (simp add: h)
qed

lemma ldeletewriter_ok:
  assumes inv: "world_inv w" and i: "i < length (w_writers w)" and un: "\<not> unlocking (w_writers w ! i) w"
  shows "\<exists>w'. stm_ldeletewriter i w = Some w' \<and> world_inv w' \<and> w_writers w' = del_at i (w_writers w) \<and> (\<forall>y \<in> set (w_writers w'). shown w' y = shown w y)"
proof -
  define x where "x = w_writers w ! i"
  define s where "s = w_stm w"
  define W where "W = del_at i (w_writers w)"
  let ?w = "\<lambda>s'. w\<lparr>w_stm := s', w_writers := W\<rparr>"
  define h where "h = holders (?w s)"
  define u where "u = users (?w s)"
  have objs: "objs_ok (holders w) (set (w_writers w)) s" and d: "distinct (w_writers w)" using inv by (simp_all add: world_inv_def s_def)
  have W: "set W = set (w_writers w) - {x}" "distinct W" using set_del [OF i d] by (simp_all add: W_def x_def)
  have hx: "holders w = extra h (Some x)" using count_del [OF i] by (simp add: holders_def h_def W_def x_def fun_eq_iff)
  obtain ob c where ob: "st_objs s x = Some ob" "obj_copy ob = Some c" "copy_of s x = Some c" "obj_reference ob = int (holders w x)"
    using copy_of_writer [OF objs] writer_held [OF i] x_def by blast
  have "users w = extra u (Some c)"
    using count_del [of i "map (copy_of s) (w_writers w)"] i ob(3) by (simp add: users_def u_def W_def map_del x_def s_def fun_eq_iff)
  then have "copies_ok (extra u (Some c)) s" "msgs_ok (w_loose w) s" "brk_ok s" using inv by (simp_all add: world_inv_def s_def)
  then obtain s' where s': "stm_releasecopy (Some c) s = Some s'" "copies_ok u s'" "msgs_ok (w_loose w) s'" "brk_ok s'" "st_objs s' = st_objs s"
      "\<forall>c. 0 < u c \<longrightarrow> message_of s' (Some c) = message_of s (Some c)"
    using releasecopy_ok by blast
  define Q where "Q = (if h x = 0 then (st_objs s)(x := None) else (st_objs s)(x \<mapsto> \<lparr>obj_reference = int (h x), obj_copy = None\<rparr>))"
  let ?s = "s'\<lparr>st_objs := Q\<rparr>"
  have run: "stm_ldeletewriter i w = Some (?w ?s)"
    using ob s'(1,5) hx by (auto simp: stm_ldeletewriter_def stm_release_def Q_def W_def simp flip: x_def s_def)
  have co: "copy_of ?s y = copy_of s y" if "y \<in> set W" for y using that W by (auto simp: copy_of_def Q_def)
  then have us: "users (?w ?s) = u" by (intro ext) (simp add: u_def users_def cong: map_cong)
  then have "copies_ok (users (?w ?s)) ?s" using s'(2) by (simp add: copies_ok_def)
  moreover have h': "holders (?w ?s) = h" by (simp add: holders_def h_def fun_eq_iff)
  have "objs_ok (holders (?w ?s)) (set W) ?s" unfolding h' using objs [unfolded hx] by (auto simp: objs_ok_def Q_def W)
  moreover have "brk_ok ?s" using s'(4,5) ob(1) by (auto simp: brk_ok_def Q_def split: if_splits)
  moreover have "msgs_ok (w_loose w) ?s" using s'(3) by (rule msgs_ok_cong) simp_all
  moreover have "shown (?w ?s) y = shown w y" if "y \<in> set W" for y
    using that co s'(6) us by (intro shown_kept) (simp_all add: s_def message_of_def)
  moreover have "0 < holders (?w ?s) y" if "y \<in> fst ` set (w_unlocking w)" for y
    using inv un that hx unfolding h' world_inv_def unlocking_def x_def by (cases "y = w_writers w ! i") auto
  ultimately show ?thesis using run inv W(2) by (simp add: world_inv_def W_def)
qed

lemma newcopy_ok:
  assumes ok: "copies_ok u s" "msgs_ok (insert m L) s" "m \<notin> L" "brk_ok s" and new: "stm_newcopy m sz s = (c, s')"
  shows "c = st_brk s \<and> u c = 0 \<and> st_objs s' = st_objs s \<and> st_msgs s' = st_msgs s \<and> copies_ok (extra u (Some c)) s' \<and> msgs_ok L s' \<and> brk_ok s' \<and>
    message_of s' (Some c) = map_option (\<lambda>bs. (bs, sz)) (st_msgs s m) \<and> (\<forall>d. 0 < u d \<longrightarrow> message_of s' (Some d) = message_of s (Some d))"
proof -
  have c: "c = st_brk s" and s': "s' = s\<lparr>st_copies := (st_copies s)(c \<mapsto> \<lparr>copy_reference = 1, copy_sz = sz, copy_msg = m\<rparr>), st_brk := Suc c\<rparr>"
    using new by (auto simp: stm_newcopy_def)
  have none: "st_copies s c = None" using ok(4) c by (auto simp: brk_ok_def)
  then have u: "u c = 0" using ok(1) by (simp add: copies_ok_def)
  have ow: "owned s' d n \<longleftrightarrow> (if d = c then n = m else owned s d n)" for d n by (auto simp: owned_def s')
  have "\<not> owned s c n" for n using none by (simp add: owned_def)
  then have "msgs_ok L s'" using ok(2,3) unfolding msgs_ok_def ow by (auto simp: s') metis
  moreover have "copies_ok (extra u (Some c)) s'" using ok(1) u none by (auto simp: copies_ok_def s')
  moreover have "brk_ok s'" using ok(4) by (auto simp: brk_ok_def s' c less_Suc_eq)
  moreover have "message_of s' (Some d) = message_of s (Some d)" if "0 < u d" for d
    using that u by (auto simp: message_of_def s')
  moreover have "message_of s' (Some c) = map_option (\<lambda>bs. (bs, sz)) (st_msgs s m)"
    by (cases "st_msgs s m") (simp_all add: message_of_def s')
  ultimately show ?thesis using c u by (simp add: s')
qed

text \<open>A message that is handed over is a loose one for a moment.\<close>

lemma take_msg_ok:
  assumes inv: "world_inv w" and arg: "msg_ok arg w" and take: "take_msg arg w = ((m, sz), w1)"
  shows "w_writers w1 = w_writers w \<and> w_copies w1 = w_copies w \<and> w_readers w1 = w_readers w \<and> w_unlocking w1 = w_unlocking w \<and> st_objs (w_stm w1) = st_objs (w_stm w) \<and>
    st_copies (w_stm w1) = st_copies (w_stm w) \<and> m \<notin> w_loose w1 \<and> msgs_ok (insert m (w_loose w1)) (w_stm w1) \<and> brk_ok (w_stm w1) \<and>
    map_option (\<lambda>bs. (bs, sz)) (st_msgs (w_stm w1) m) = msg_bytes arg w \<and>
    (\<forall>c. users w c > 0 \<longrightarrow> message_of (w_stm w1) (Some c) = message_of (w_stm w) (Some c))"
proof (cases arg)
  case (UserMsg m' sz')
  then show ?thesis using inv arg take by (auto simp: take_msg_def msg_ok_def msg_bytes_def world_inv_def insert_absorb)
next
  case (StrMsg bs)
  define s where "s = w_stm w"
  have m: "m = st_brk s" "sz = of_nat (length bs)" "w1 = w\<lparr>w_stm := s\<lparr>st_msgs := (st_msgs s)(m \<mapsto> bs), st_brk := Suc m\<rparr>\<rparr>"
    using take StrMsg by (auto simp: take_msg_def Let_def s_def)
  have ok: "msgs_ok (w_loose w) s" "brk_ok s" using inv by (simp_all add: world_inv_def s_def)
  then have none: "st_msgs s m = None" using m(1) by (auto simp: brk_ok_def)
  then have new: "m \<notin> w_loose w" "\<not> owned s c m" for c using ok(1) unfolding msgs_ok_def by metis+
  have "owned (w_stm w1) = owned s" by (simp add: owned_def m(3) fun_eq_iff)
  then have "msgs_ok (insert m (w_loose w)) (w_stm w1)" using ok(1) new unfolding msgs_ok_def by (auto simp: m(3))
  moreover have "brk_ok (w_stm w1)" using ok(2) by (auto simp: brk_ok_def m(1,3) less_Suc_eq)
  moreover have "message_of (w_stm w1) (Some c) = message_of s (Some c)" for c
    using new(2) [of c] by (cases "st_copies s c") (auto simp: message_of_def m(3) owned_def)
  ultimately show ?thesis using new(1) StrMsg by (simp add: m(2,3) msg_bytes_def s_def)
qed

lemma lupdate_ok:
  assumes inv: "world_inv w" and i: "i < length (w_writers w)" and arg: "msg_ok arg w"
  shows "\<exists>w'. stm_lupdate i arg w = Some w' \<and> world_inv w' \<and> w_writers w' = w_writers w \<and> w_readers w' = w_readers w \<and>
    (\<forall>y \<in> set (w_writers w). shown w' y = (if y = w_writers w ! i then msg_bytes arg w else shown w y))"
proof -
  obtain m sz w1 where take: "take_msg arg w = ((m, sz), w1)" by (metis prod.exhaust)
  note tk = take_msg_ok [OF inv arg take]
  have tk4: "w_writers w1 = w_writers w" "w_readers w1 = w_readers w" "w_unlocking w1 = w_unlocking w" using tk by blast+
  define s where "s = w_stm w1"
  define x where "x = w_writers w ! i"
  obtain c s1 where new: "stm_newcopy m sz s = (c, s1)" by fastforce
  have h1: "holders w1 = holders w" using tk by (intro ext) (simp add: holders_def)
  have ok: "copies_ok (users w) s" "msgs_ok (insert m (w_loose w1)) s" "m \<notin> w_loose w1" "brk_ok s" "objs_ok (holders w) (set (w_writers w)) s" "distinct (w_writers w)"
    using tk inv by (auto simp: world_inv_def s_def copies_ok_def objs_ok_def)
  note nc = newcopy_ok [OF ok(1-4) new]
  obtain ob old where ob: "st_objs s x = Some ob" "obj_copy ob = Some old" "copy_of s x = Some old" "obj_reference ob = int (holders w x)"
    using copy_of_writer [OF ok(5)] writer_held [OF i] x_def by blast
  define s2 where "s2 = s1\<lparr>st_objs := (st_objs s)(x \<mapsto> ob\<lparr>obj_copy := Some c\<rparr>)\<rparr>"
  let ?w = "\<lambda>s'. w1\<lparr>w_stm := s'\<rparr>"
  have co: "copy_of s2 = (copy_of s)(x := Some c)" by (auto simp: copy_of_def s2_def fun_eq_iff)
  have co_s: "copy_of s = copy_of (w_stm w)" using tk by (simp add: copy_of_def s_def fun_eq_iff)
  have "users (?w s2) d + of_bool (Some old = Some d) = users w d + of_bool (Some c = Some d)" for d
    using count_map_upd [OF ok(6) i, of "copy_of s2" "copy_of s" "Some d"] ob(3) tk4 by (simp add: users_def co x_def flip: co_s)
  then have "extra (users (?w s2)) (Some old) = extra (users w) (Some c)" by (simp add: fun_eq_iff)
  then have "copies_ok (extra (users (?w s2)) (Some old)) s2" "msgs_ok (w_loose w1) s2" "brk_ok s2"
    using nc ob(1) by (auto simp: s2_def copies_ok_def brk_ok_def intro: msgs_ok_cong)
  then obtain s3 where s3: "stm_releasecopy (Some old) s2 = Some s3" "copies_ok (users (?w s2)) s3" "msgs_ok (w_loose w1) s3" "brk_ok s3" "st_objs s3 = st_objs s2"
      "\<forall>c. 0 < users (?w s2) c \<longrightarrow> message_of s3 (Some c) = message_of s2 (Some c)"
    using releasecopy_ok by blast
  have run: "stm_lupdate i arg w = Some (?w s3)"
    using take new nc ob s3(1) tk by (simp add: stm_lupdate_def stm_update_def s2_def x_def s_def)
  have co3: "copy_of s3 = copy_of s2" by (simp add: copy_of_def s3(5) fun_eq_iff)
  have us: "users (?w s3) = users (?w s2)" by (intro ext) (simp add: users_def co3)
  have "objs_ok (holders w1) (set (w_writers w)) s3" using ok(5) ob writer_held(2) [OF i] unfolding h1 by (auto simp: objs_ok_def s3(5) s2_def x_def)
  moreover have "holders (?w s3) = holders w1" by (simp add: holders_def fun_eq_iff)
  moreover have "copies_ok (users (?w s3)) s3" unfolding us by (rule s3(2))
  moreover have "\<forall>y \<in> fst ` set (w_unlocking w). 0 < holders w y" using inv by (simp add: world_inv_def)
  ultimately have "world_inv (?w s3)" using s3(3,4) ok(6) tk4 h1 unfolding world_inv_def by simp
  moreover have "shown (?w s3) y = (if y = x then msg_bytes arg w else shown w y)" if y: "y \<in> set (w_writers w)" for y
  proof -
    obtain d where d: "copy_of s2 y = Some d" using writer_copy [OF ok(5) y] co by (cases "y = x") auto
    have "0 < users (?w s2) d" using users_writer [of y "?w s2" d] y d tk by simp
    then have "shown (?w s3) y = message_of s2 (Some d)" using s3(6) d co3 by (simp add: shown_def)
    also have "\<dots> = message_of s1 (Some d)" by (simp add: message_of_def s2_def)
    also have "\<dots> = (if y = x then msg_bytes arg w else shown w y)"
    proof (cases "y = x")
      case True
      moreover have "message_of s1 (Some c) = msg_bytes arg w" using nc tk unfolding s_def by metis
      ultimately show ?thesis using d co by simp
    next
      case False
      then have d': "copy_of (w_stm w) y = Some d" using d co co_s by simp
      then show ?thesis using False nc tk users_writer [OF y d'] by (simp add: shown_def s_def)
    qed
    finally show ?thesis .
  qed
  ultimately show ?thesis using run tk by (intro exI [of _ "?w s3"]) (simp add: x_def)
qed

lemma lnewwriter_ok:
  assumes inv: "world_inv w" and arg: "msg_ok arg w"
  shows "\<exists>w' x. stm_lnewwriter arg w = Some w' \<and> world_inv w' \<and> w_writers w' = w_writers w @ [x] \<and> w_readers w' = w_readers w \<and> shown w' x = msg_bytes arg w \<and>
    (\<forall>y \<in> set (w_writers w). shown w' y = shown w y)"
proof -
  obtain m sz w1 where take: "take_msg arg w = ((m, sz), w1)" by (metis prod.exhaust)
  note tk = take_msg_ok [OF inv arg take]
  define x where "x = st_brk (w_stm w1)"
  define s where "s = (w_stm w1)\<lparr>st_brk := Suc x\<rparr>"
  obtain c s1 where new: "stm_newcopy m sz s = (c, s1)" by fastforce
  have ok: "copies_ok (users w) s" "msgs_ok (insert m (w_loose w1)) s" "m \<notin> w_loose w1" "brk_ok s" "objs_ok (holders w) (set (w_writers w)) s" "distinct (w_writers w)"
    using tk inv by (auto simp: world_inv_def s_def x_def copies_ok_def objs_ok_def brk_ok_def less_Suc_eq intro: msgs_ok_cong)
  note nc = newcopy_ok [OF ok(1-4) new]
  have none: "st_objs s x = None" using tk by (auto simp: brk_ok_def s_def x_def)
  then have h0: "holders w x = 0" using ok(5) by (simp add: objs_ok_def)
  then have xw: "x \<notin> set (w_writers w)" using count_pos [of x "w_writers w"] by (auto simp: holders_def)
  define s2 where "s2 = s1\<lparr>st_objs := (st_objs s)(x \<mapsto> \<lparr>obj_reference = 1, obj_copy = Some c\<rparr>)\<rparr>"
  let ?w = "w1\<lparr>w_stm := s2, w_writers := w_writers w @ [x]\<rparr>"
  have run: "stm_lnewwriter arg w = Some ?w"
    using take new nc tk by (simp add: stm_lnewwriter_def stm_new_def s2_def s_def x_def Let_def)
  have co: "copy_of s2 = (copy_of (w_stm w))(x := Some c)" using tk by (auto simp: copy_of_def s2_def s_def fun_eq_iff)
  then have same: "copy_of s2 y = copy_of (w_stm w) y" if "y \<in> set (w_writers w)" for y using that xw by auto
  have r: "w_readers w1 = w_readers w" "w_copies w1 = w_copies w" "w_unlocking w1 = w_unlocking w" using tk by blast+
  have us: "users ?w = extra (users w) (Some c)"
    using same co by (intro ext) (simp add: users_def r cong: map_cong)
  have hs: "holders ?w = extra (holders w) (Some x)" by (intro ext) (simp add: holders_def r)
  have "copies_ok (extra (users w) (Some c)) s1" using nc by blast
  then have "copies_ok (users ?w) s2" unfolding us by (simp add: copies_ok_def s2_def)
  moreover have "objs_ok (holders ?w) (set (w_writers w @ [x])) s2" using ok(5) h0 none unfolding hs by (auto simp: objs_ok_def s2_def)
  moreover have "msgs_ok (w_loose w1) s2" using nc by (auto simp: s2_def intro: msgs_ok_cong)
  moreover have "brk_ok s2"
  proof -
    have "x < st_brk s1" using new by (auto simp: stm_newcopy_def s_def)
    then show ?thesis using nc by (auto simp: brk_ok_def s2_def)
  qed
  moreover have "\<forall>y \<in> fst ` set (w_unlocking ?w). 0 < holders ?w y" using inv unfolding hs by (simp add: world_inv_def r)
  ultimately have "world_inv ?w" using ok(6) xw by (simp add: world_inv_def)
  moreover have "message_of s2 = message_of s1" by (intro ext) (simp add: message_of_def s2_def)
  moreover have "st_msgs s = st_msgs (w_stm w1)" by (simp add: s_def)
  then have "message_of s1 (Some c) = msg_bytes arg w" using nc tk by metis
  moreover have "shown ?w y = shown w y" if y: "y \<in> set (w_writers w)" for y
  proof -
    have "objs_ok (holders w) (set (w_writers w)) (w_stm w)" using inv by (simp add: world_inv_def)
    then obtain d where d: "copy_of (w_stm w) y = Some d" using writer_copy [OF _ y] by blast
    have "message_of s = message_of (w_stm w1)" by (intro ext) (simp add: message_of_def s_def)
    then show ?thesis using users_writer [OF y d] nc tk d same [OF y] \<open>message_of s2 = message_of s1\<close> by (simp add: shown_def)
  qed
  moreover have "shown ?w x = message_of s2 (Some c)" by (simp add: shown_def co)
  ultimately show ?thesis using run r by (intro exI [of _ ?w] exI [of _ x]) simp
qed

lemma message_exists:
  assumes "copies_ok u s" "msgs_ok L s" "0 < u c"
  shows "\<exists>v. message_of s (Some c) = Some v"
proof -
  obtain cp where cp: "st_copies s c = Some cp" using assms(1,3) by (cases "st_copies s c") (auto simp: copies_ok_def)
  then have "owned s c (copy_msg cp)" by (simp add: owned_def)
  then obtain msg where "st_msgs s (copy_msg cp) = Some msg" using assms(2) unfolding msgs_ok_def by (metis not_None_eq)
  then show ?thesis using cp by (simp add: message_of_def)
qed

lemma copy_ok:
  assumes inv: "world_inv w" and held: "0 < holders w x" and room: "\<And>c. users w c < 2 ^ 30"
  shows "\<exists>s'. stm_copy x (w_stm w) = Some (copy_of (w_stm w) x, s') \<and> copies_ok (extra (users w) (copy_of (w_stm w) x)) s' \<and>
    msgs_ok (w_loose w) s' \<and> brk_ok s' \<and> st_objs s' = st_objs (w_stm w) \<and> message_of s' = message_of (w_stm w)"
proof -
  define s where "s = w_stm w"
  have ok: "copies_ok (users w) s" "msgs_ok (w_loose w) s" "brk_ok s" "objs_ok (holders w) (set (w_writers w)) s"
    using inv by (simp_all add: world_inv_def s_def)
  obtain ob where ob: "st_objs s x = Some ob" using held ok(4) by (cases "st_objs s x") (auto simp: objs_ok_def)
  show ?thesis
  proof (cases "obj_copy ob")
    case None
    then show ?thesis using ob ok by (simp add: stm_copy_def copy_of_def flip: s_def)
  next
    case (Some c)
    then have co: "copy_of s x = Some c" and xw: "x \<in> set (w_writers w)" using ob ok(4) by (auto simp: copy_of_def objs_ok_def)
    have "0 < users w c" using users_writer [OF xw] co s_def by simp
    then obtain cp where cp: "st_copies s c = Some cp" "copy_reference cp = int (users w c)" "0 < copy_reference cp"
      using ok(1) by (cases "st_copies s c") (auto simp: copies_ok_def)
    define s' where "s' = s\<lparr>st_copies := (st_copies s)(c \<mapsto> cp\<lparr>copy_reference := copy_reference cp + 1\<rparr>)\<rparr>"
    have "cint (copy_reference cp + 1) = Some (copy_reference cp + 1)" using room [of c] cp(2) by (simp add: cint_def cint_ok_def)
    then have run: "stm_copy x s = Some (Some c, s')" using ob Some cp by (simp add: stm_copy_def s'_def)
    have ow: "owned s' = owned s" using cp(1) by (auto simp: owned_def s'_def fun_eq_iff)
    have "copies_ok (extra (users w) (Some c)) s'" using ok(1) cp by (auto simp: copies_ok_def s'_def)
    moreover have "msgs_ok (w_loose w) s'" using ok(2) unfolding msgs_ok_def ow by (simp add: s'_def)
    moreover have "brk_ok s'" using ok(3) cp(1) by (auto simp: brk_ok_def s'_def)
    moreover have "message_of s' q = message_of s q" for q using cp(1) by (cases q) (auto simp: message_of_def s'_def)
    ultimately show ?thesis using run co by (auto simp: s'_def fun_eq_iff simp flip: s_def)
  qed
qed

lemma lread_ok:
  assumes inv: "world_inv w" and i: "i < length (w_readers w)" and r: "w_readers w ! i = (x, q)" and room: "\<And>c. users w c < 2 ^ 30"
  shows "\<exists>w'. stm_lread i w = Some (if copy_of (w_stm w) x = q then None else shown w x, w') \<and> world_inv w' \<and> w_writers w' = w_writers w \<and>
    w_readers w' = (w_readers w)[i := (x, copy_of (w_stm w) x)] \<and> (\<forall>y \<in> set (w_writers w). shown w' y = shown w y)"
proof -
  define s where "s = w_stm w"
  define p where "p = copy_of s x"
  have "(x, q) \<in> set (w_readers w)" using i r by (metis nth_mem)
  then have "0 < holders w x" using count_pos [of x "map fst (w_readers w)"] by (force simp: holders_def)
  then obtain s1 where s1: "stm_copy x s = Some (p, s1)" "copies_ok (extra (users w) p) s1" "msgs_ok (w_loose w) s1" "brk_ok s1" "st_objs s1 = st_objs s"
      "message_of s1 = message_of s"
    using copy_ok [OF inv _ room] unfolding p_def s_def by blast
  let ?rs = "(w_readers w)[i := (x, p)]"
  let ?w = "\<lambda>s'. w\<lparr>w_stm := s', w_readers := ?rs\<rparr>"
  have "users (?w s) d + of_bool (q = Some d) = users w d + of_bool (p = Some d)" for d
    using count_list_update [of i "map snd (w_readers w)" p "Some d"] i r by (simp add: users_def s_def map_update)
  then have "extra (users (?w s)) q = extra (users w) p" by (simp add: fun_eq_iff)
  then have "copies_ok (extra (users (?w s)) q) s1" using s1(2) by simp
  then obtain s2 where s2: "stm_releasecopy q s1 = Some s2" "copies_ok (users (?w s)) s2" "msgs_ok (w_loose w) s2" "brk_ok s2" "st_objs s2 = st_objs s1"
      "\<forall>c. 0 < users (?w s) c \<longrightarrow> message_of s2 (Some c) = message_of s1 (Some c)"
    using releasecopy_ok s1(3,4) by blast
  have co: "copy_of s2 = copy_of s" by (simp add: copy_of_def s2(5) s1(5) fun_eq_iff)
  have us: "users (?w s2) = users (?w s)" by (intro ext) (simp add: users_def co)
  have "(map fst (w_readers w))[i := x] = map fst (w_readers w)" using i r by (simp add: list_update_same_conv)
  then have hs: "holders (?w s2) = holders w" by (intro ext) (simp add: holders_def map_update)
  have "objs_ok (holders w) (set (w_writers w)) s2" using inv by (simp add: world_inv_def objs_ok_def s2(5) s1(5) s_def)
  then have inv': "world_inv (?w s2)" using s2(2-4) inv unfolding world_inv_def us hs by simp
  have msg: "message_of s2 (copy_of s y) = message_of s (copy_of s y)" if "y \<in> set (w_writers w) \<or> y = x" for y
  proof (cases "copy_of s y")
    case (Some d)
    have "0 < users (?w s) d" using that users_writer [of y "?w s" d] users_reader [of i "?w s" d] i Some by (auto simp: p_def)
    then show ?thesis using s2(6) s1(6) Some by simp
  qed (simp add: message_of_def)
  have "stm_lread i w = Some (if p = q then None else message_of s2 p, ?w s2)"
  proof (cases "p = q")
    case True
    then have "?rs = w_readers w" using r by (simp add: list_update_same_conv i)
    then show ?thesis using True s1(1) s2(1) r by (simp add: stm_lread_def flip: s_def)
  next
    case False
    then show ?thesis
    proof (cases p)
      case (Some c)
      then have "0 < users (?w s) c" using users_reader [of i "?w s" c] i by simp
      then obtain v where "message_of s2 (Some c) = Some v" using message_exists [OF s2(2,3)] by blast
      then show ?thesis using False Some s1(1) s2(1) r by (auto simp: stm_lread_def message_of_def bind_eq_Some_conv simp flip: s_def)
    qed (use False s1(1) s2(1) r in \<open>simp add: stm_lread_def message_of_def flip: s_def\<close>)
  qed
  then show ?thesis using inv' msg by (intro exI [of _ "?w s2"]) (simp add: shown_def co p_def flip: s_def)
qed

section \<open>Reachable states\<close>

lemma small_counts:
  assumes "length (w_writers w) + length (w_copies w) + length (w_readers w) + length (w_unlocking w) < 10 ^ 9"
  shows "holders w x < 2 ^ 30" "users w c < 2 ^ 30"
  using assms count_le_length [of "w_writers w" x] count_le_length [of "w_copies w" x] count_le_length [of "map fst (w_readers w)" x]
    count_le_length [of "map (copy_of (w_stm w)) (w_writers w)" "Some c"] count_le_length [of "map snd (w_readers w)" "Some c"]
    count_le_length [of "map snd (w_unlocking w)" "Some c"]
  by (simp_all add: holders_def users_def)

definition published :: "(addr \<Rightarrow> (byte list \<times> u32) option) \<Rightarrow> stm_world \<Rightarrow> bool" where
  "published pub w \<longleftrightarrow> world_inv w \<and> (\<forall>x. if x \<in> set (w_writers w) then shown w x = pub x else pub x = None)"

lemma shown_gone:
  assumes "world_inv w" "x \<notin> set (w_writers w)"
  shows "shown w x = None"
proof -
  have "copy_of (w_stm w) x = None"
    using assms by (cases "st_objs (w_stm w) x") (auto simp: world_inv_def objs_ok_def copy_of_def simp del: not_None_eq)
  then show ?thesis by (simp add: shown_def message_of_def)
qed

lemma published_shown:
  assumes "published pub w"
  shows "shown w = pub"
proof (rule ext)
  show "shown w x = pub x" for x using assms shown_gone [of w x] by (cases "x \<in> set (w_writers w)") (simp_all add: published_def)
qed

lemma step_published:
  assumes pub: "published pub w" and ok: "allowed op w"
  shows "\<exists>out w'. stm_step op w = Some (out, w') \<and> published (publish op w w' pub) w'"
proof -
  have inv: "world_inv w" and d: "distinct (w_writers w)" using pub by (simp_all add: published_def world_inv_def)
  have pw: "shown w y = pub y" if "y \<in> set (w_writers w)" for y using pub that by (simp add: published_def)
  have pn: "pub y = None" if "y \<notin> set (w_writers w)" for y using pub that by (simp add: published_def)
  have room: "holders w x < 2 ^ 30" "users w c < 2 ^ 30" for x c using small_counts [of w] ok by (auto simp: allowed_def)
  show ?thesis
  proof (cases op)
    case (NewWriter arg)
    then show ?thesis using lnewwriter_ok [OF inv, of arg] ok pw pn by (fastforce simp: allowed_def published_def publish_def)
  next
    case (Update i arg)
    then show ?thesis using lupdate_ok [OF inv, of i arg] ok pw pn by (fastforce simp: allowed_def published_def publish_def)
  next
    case (Copy i)
    then show ?thesis using lcopy_ok [OF inv _ room(1)] ok pw pn by (fastforce simp: allowed_def published_def publish_def)
  next
    case (DeleteWriter i)
    then show ?thesis using ldeletewriter_ok [OF inv, of i] set_del [OF _ d, of i] ok pw pn by (fastforce simp: allowed_def published_def publish_def)
  next
    case (NewReader i)
    then show ?thesis using lnewreader_ok [OF inv, of i] ok pw pn by (fastforce simp: allowed_def published_def publish_def)
  next
    case (Read i)
    then show ?thesis using lread_ok [OF inv, of i "fst (w_readers w ! i)" "snd (w_readers w ! i)"] room(2) ok pw pn
      by (fastforce simp: allowed_def published_def publish_def)
  next
    case (DeleteReader i)
    then show ?thesis using ldeletereader_ok [OF inv, of i] ok pw pn by (fastforce simp: allowed_def published_def publish_def)
  next
    case (UnlockReader i)
    then show ?thesis using lunlockreader_ok [OF inv, of i] ok pw pn by (fastforce simp: allowed_def published_def publish_def)
  qed
qed

lemma stm_reach_published: "stm_reach pub w \<Longrightarrow> published pub w"
proof (induction rule: stm_reach.induct)
  case (start msgs brk)
  then show ?case
    by (auto simp: published_def stm_start_def world_inv_def objs_ok_def copies_ok_def msgs_ok_def brk_ok_def holders_def users_def owned_def)
next
  case (step pub w op out w')
  then show ?case using step_published [of pub w op] by auto
qed

lemma world_empty:
  assumes "world_inv w" "w_writers w = []" "w_copies w = []" "w_readers w = []"
  shows "st_objs (w_stm w) = Map.empty \<and> st_copies (w_stm w) = Map.empty \<and> dom (st_msgs (w_stm w)) = w_loose w \<and> w_unlocking w = []"
proof -
  have un: "w_unlocking w = []" using assms by (cases "w_unlocking w") (auto simp: world_inv_def holders_def)
  have "st_objs (w_stm w) x = None" for x
    using assms by (cases "st_objs (w_stm w) x") (auto simp: world_inv_def objs_ok_def holders_def)
  moreover have c: "st_copies (w_stm w) x = None" for x
    using assms un by (cases "st_copies (w_stm w) x") (auto simp: world_inv_def copies_ok_def users_def)
  moreover have "dom (st_msgs (w_stm w)) = w_loose w" using assms(1) c by (auto simp: world_inv_def msgs_ok_def owned_def dom_def)
  ultimately show ?thesis using un by blast
qed

section \<open>Properties\<close>

text \<open>C40: in every state that writers and readers can reach, the next step of any of them returns: it touches no freed object, copy or message, no
  assertion fails.  This includes the unlocking of an object after the reference to it was given up, in runs with one restriction: the last reference
  to an object is not given back while another thread is between the decrement and the unlocking of \<open>stm_releasereader\<close> on the same object (the lemma
  \<open>releasereader_race\<close> shows that the code does not enforce it and what happens without it).  A read gives the message that the writer published last,
  unless the reader has taken this very copy before or the writer is gone.  When all boxes are gone, every object, copy and message that was shared
  has been freed.\<close>

theorem stm_sharing_safe:
  assumes "stm_reach pub w" "allowed op w"
  shows "(\<exists>out w'. stm_step op w = Some (out, w') \<and> stm_reach (publish op w w' pub) w' \<and>
      (\<forall>i x q. op = Read i \<longrightarrow> w_readers w ! i = (x, q) \<longrightarrow> out = (if copy_of (w_stm w) x = q then None else pub x))) \<and>
    (w_writers w = [] \<and> w_copies w = [] \<and> w_readers w = [] \<longrightarrow>
      st_objs (w_stm w) = Map.empty \<and> st_copies (w_stm w) = Map.empty \<and> dom (st_msgs (w_stm w)) = w_loose w)"
proof -
  have pub: "published pub w" using stm_reach_published [OF assms(1)] .
  then have inv: "world_inv w" by (simp add: published_def)
  obtain out w' where st: "stm_step op w = Some (out, w')" using step_published [OF pub assms(2)] by blast
  have "out = (if copy_of (w_stm w) x = q then None else pub x)" if "op = Read i" "w_readers w ! i = (x, q)" for i x q
  proof -
    have "i < length (w_readers w)" using assms(2) that(1) by (simp add: allowed_def)
    moreover have "users w c < 2 ^ 30" for c using small_counts [of w] assms(2) by (auto simp: allowed_def)
    ultimately show ?thesis using lread_ok [OF inv _ that(2)] st that(1) published_shown [OF pub] by auto
  qed
  moreover have "stm_reach (publish op w w' pub) w'" using stm_reach.step [OF assms st] .
  ultimately show ?thesis using st world_empty [OF inv] by blast
qed

text \<open>A writer publishes twice; the reader takes the second message.\<close>

fun stm_trace :: "stm_op list \<Rightarrow> (addr \<Rightarrow> (byte list \<times> u32) option) \<times> stm_world \<Rightarrow> ((addr \<Rightarrow> (byte list \<times> u32) option) \<times> stm_world) option" where
  "stm_trace [] x = Some x"
| "stm_trace (op # ops) x = do {
     require (allowed op (snd x));
     (_, w') \<leftarrow> stm_step op (snd x);
     stm_trace ops (publish op (snd x) w' (fst x), w') }"

lemma stm_trace_reach: "stm_trace ops x = Some y \<Longrightarrow> stm_reach (fst x) (snd x) \<Longrightarrow> stm_reach (fst y) (snd y)"
proof (induction ops arbitrary: x)
  case (Cons op ops)
  then show ?case using stm_reach.step by (fastforce simp: bind_eq_Some_conv require_def split: if_splits)
qed simp

definition demo_sharing :: "stm_op list" where
  "demo_sharing = [NewWriter (StrMsg [1]), Copy 0, NewReader 0, Update 0 (StrMsg [2, 3])]"

lemma demo_trace: "\<exists>pub w. stm_trace demo_sharing (Map.empty, stm_start Map.empty 0) = Some (pub, w) \<and> allowed (Read 0) w \<and>
    w_readers w ! 0 = (1, None) \<and> copy_of (w_stm w) 1 = Some 4 \<and> pub 1 = Some ([2, 3], 2)"
  by (simp add: demo_sharing_def stm_start_def allowed_def unlocking_def msg_ok_def stm_lnewwriter_def take_msg_def stm_new_def stm_newcopy_def Let_def publish_def msg_bytes_def
      stm_lcopy_def stm_grab_def cint_def cint_ok_def stm_lnewreader_def del_at_def stm_lupdate_def stm_update_def stm_releasecopy_def copy_of_def)

text \<open>A reader whose box is gone and that still has to unlock the object.\<close>

lemma demo_unlock_trace: "\<exists>pub w. stm_trace (demo_sharing @ [DeleteReader 0]) (Map.empty, stm_start Map.empty 0) = Some (pub, w) \<and>
    allowed (UnlockReader 0) w \<and> w_unlocking w = [(1, None)]"
  by (simp add: demo_sharing_def stm_start_def allowed_def unlocking_def last_reference_def msg_ok_def stm_lnewwriter_def take_msg_def stm_new_def stm_newcopy_def Let_def
      publish_def msg_bytes_def stm_lcopy_def stm_grab_def cint_def cint_ok_def stm_lnewreader_def del_at_def stm_lupdate_def stm_update_def stm_releasecopy_def
      stm_ldeletereader_def stm_releasereader_def)

theorem stm_sharing_safe_witness:
  "(\<exists>w w'. stm_step (Read 0) w = Some (Some ([2, 3], 2), w') \<and> w_readers w ! 0 = (1, None)) \<and>
   (\<exists>w out w'. w_unlocking w = [(1, None)] \<and> stm_step (UnlockReader 0) w = Some (out, w'))"
proof
  have start: "stm_reach Map.empty (stm_start Map.empty 0)" by (rule stm_reach.start) simp
  obtain pub w where w: "stm_trace demo_sharing (Map.empty, stm_start Map.empty 0) = Some (pub, w)" "allowed (Read 0) w" "w_readers w ! 0 = (1, None)"
      "copy_of (w_stm w) 1 = Some 4" "pub 1 = Some ([2, 3], 2)"
    using demo_trace by blast
  then have "stm_reach pub w" using stm_trace_reach [OF w(1)] start by simp
  then show "\<exists>w w'. stm_step (Read 0) w = Some (Some ([2, 3], 2), w') \<and> w_readers w ! 0 = (1, None)"
    using stm_sharing_safe [of pub w "Read 0"] w(2-5) by fastforce
  obtain pub' v where v: "stm_trace (demo_sharing @ [DeleteReader 0]) (Map.empty, stm_start Map.empty 0) = Some (pub', v)"
      "allowed (UnlockReader 0) v" "w_unlocking v = [(1, None)]"
    using demo_unlock_trace by blast
  then have "stm_reach pub' v" using stm_trace_reach [OF v(1)] start by simp
  then show "\<exists>w out w'. w_unlocking w = [(1, None)] \<and> stm_step (UnlockReader 0) w = Some (out, w')"
    using stm_sharing_safe [of pub' v "UnlockReader 0"] v(2,3) by blast
qed

section \<open>Multicast\<close>

text \<open>A package that is bound to a number of receivers lives until the last of them closes it, and is freed then with its data; the cell is freed when it is bound.\<close>

lemma mc_close_times_spec:
  assumes "mc_packs s p = Some pk" "mc_reference pk = int n" "0 < n" "mc_datas s (mc_data pk) \<noteq> None" "k \<le> n"
  shows "\<exists>s'. mc_close_times k p s = Some s' \<and> (if k = n then mc_packs s' p = None \<and> mc_datas s' = (mc_datas s)(mc_data pk := None)
     else mc_packs s' p = Some (pk\<lparr>mc_reference := int (n - k)\<rparr>) \<and> mc_datas s' = mc_datas s)"
  using assms
proof (induction k arbitrary: s pk n)
  case (Suc k)
  show ?case
  proof (cases "n = 1")
    case True
    then show ?thesis using Suc.prems by (auto simp: mc_closelocal_def)
  next
    case False
    then obtain n' where n: "n = Suc n'" "0 < n'" using Suc.prems(3) by (cases n) auto
    define pk' where "pk' = pk\<lparr>mc_reference := int n'\<rparr>"
    define s' where "s' = s\<lparr>mc_packs := (mc_packs s)(p \<mapsto> pk')\<rparr>"
    have "mc_closelocal p s = Some (None, s')" using Suc.prems n by (simp add: mc_closelocal_def s'_def pk'_def)
    moreover obtain s'' where "mc_close_times k p s' = Some s''" "if k = n' then mc_packs s'' p = None \<and> mc_datas s'' = (mc_datas s')(mc_data pk' := None)
        else mc_packs s'' p = Some (pk'\<lparr>mc_reference := int (n' - k)\<rparr>) \<and> mc_datas s'' = mc_datas s'"
      using Suc.IH [of s' pk' n'] Suc.prems n by (auto simp: s'_def pk'_def)
    ultimately show ?thesis using n by (simp add: s'_def pk'_def)
  qed
qed auto

lemma mc_bound_package:
  assumes "mc_datas s d \<noteq> None" "0 < n" "sz = ucast (ucast sz :: u32)" "mc_packlocal d sz s = Inr (cell, s1)"
  shows "\<exists>p s2 s3. mc_bindrefer cell (int n) s1 = Some (Inr (p, s2)) \<and> mc_cells s2 cell = None \<and>
    mc_close_times n p s2 = Some s3 \<and> mc_packs s3 p = None \<and> mc_datas s3 = (mc_datas s)(d := None)"
proof -
  define p where "p = mc_brk s"
  define pk where "pk = \<lparr>mc_reference = 0, mc_size = ucast sz, mc_data = d\<rparr>"
  have c: "mc_cells s1 cell = Some p" "mc_packs s1 p = Some pk" "mc_datas s1 = mc_datas s"
    using assms(3,4) by (auto simp: mc_packlocal_def mc_pack_def Let_def p_def pk_def split: if_splits)
  define s2 where "s2 = s1\<lparr>mc_packs := (mc_packs s1)(p \<mapsto> pk\<lparr>mc_reference := int n\<rparr>), mc_cells := (mc_cells s1)(cell := None)\<rparr>"
  have "mc_bindrefer cell (int n) s1 = Some (Inr (p, s2))" using c by (simp add: mc_bindrefer_def s2_def pk_def)
  moreover obtain s3 where "mc_close_times n p s2 = Some s3" "mc_packs s3 p = None" "mc_datas s3 = (mc_datas s)(d := None)"
    using mc_close_times_spec [of s2 p "pk\<lparr>mc_reference := int n\<rparr>" n n] assms(1,2) c(3) by (auto simp: s2_def pk_def)
  ultimately show ?thesis by (auto simp: s2_def)
qed

section \<open>Findings\<close>

text \<open>Two readers are released at the same time, and the writer is gone: the first has decremented the count and still holds the lock when the second gives
  back the last reference and frees the object, so the first unlocks freed memory.  Every step but the forbidden one is allowed.\<close>

definition race_start :: "stm_op list" where
  "race_start = [NewWriter (StrMsg [1]), Copy 0, Copy 0, NewReader 0, NewReader 0, DeleteWriter 0, DeleteReader 0]"

lemma releasereader_race:
  "\<exists>pub w w'. stm_trace race_start (Map.empty, stm_start Map.empty 0) = Some (pub, w) \<and> unlocking 1 w \<and> last_reference 1 w \<and>
    stm_step (DeleteReader 0) w = Some (None, w') \<and> allowed (UnlockReader 0) w' \<and> stm_step (UnlockReader 0) w' = None"
  by (simp add: race_start_def stm_start_def allowed_def unlocking_def last_reference_def msg_ok_def stm_lnewwriter_def take_msg_def stm_new_def stm_newcopy_def Let_def
      publish_def msg_bytes_def stm_lcopy_def stm_grab_def cint_def cint_ok_def stm_lnewreader_def del_at_def stm_ldeletewriter_def stm_release_def
      stm_ldeletereader_def stm_releasereader_def stm_lunlockreader_def stm_runlock_def stm_releasecopy_def)

text \<open>A package without receivers that is closed is freed and then reported.\<close>

lemma unbound_close_frees:
  "mc_packs s p = Some \<lparr>mc_reference = 0, mc_size = n, mc_data = d\<rparr> \<Longrightarrow> mc_datas s d = Some bs \<Longrightarrow>
   \<exists>s'. mc_closelocal p s = Some (Some (InvalidReference (- 1)), s') \<and> mc_packs s' p = None \<and> mc_closelocal p s' = None"
  by (simp add: mc_closelocal_def)

end
