(* ===== verification/Spec2Isabelle.thy ===== *)
theory Spec2Isabelle
  imports Skynet_Service Skynet_Crypt Skynet_Sha1 Skynet_Netpack_Mem Skynet_Gate Skynet_Socket_Inv Skynet_Seri_Inv Skynet_Harbor_Link Skynet_Cluster Skynet_Lua_Socket Skynet_Stm
begin

text \<open>
  Verification library for the C core of the game server.

  \<^bold>\<open>The program.\<close>  The server is a set of services that exchange messages.  Its core, \<open>src/skynet-dist/skynet-src\<close>, is a scheduler written in C: a service is a
  context with a handle and a message queue, worker threads take queues from a global queue and run the callbacks of their services.  The services of
  \<open>src/skynet-dist/service-src\<close> connect clients and other nodes, and the libraries of \<open>src/skynet-dist/lualib-src\<close> give services that are written in Lua packing,
  buffering, encryption and shared memory.  The game itself is written in Lua.

  The parts interact by calls and by shared state.  A sender (\<open>skynet_send\<close>) copies a message, finds the receiver in the handle storage and pushes the message on
  its queue; the first message of an idle queue puts the queue on the global queue.  A worker pops a queue, runs the callback for a batch of messages and pushes the queue back.  The timer pushes a
  message when a timeout is due.  The socket server, in a thread of its own, takes requests of services from a pipe and reports events, which the forwarding layer turns into
  messages to the services that own the sockets.  The gate service cuts the bytes of clients into packages and forwards them; the harbor service carries messages between nodes.

  \<^bold>\<open>How C is modelled.\<close>  A function is a HOL function on explicit state in the option monad.  \<open>None\<close> is a run that does not return normally: a failed
  assertion, an access to null, freed or foreign memory, the overflow of an \<open>int\<close>, or an infinite loop.  An error code or an error raised in Lua is an ordinary value.  \<open>int\<close> is HOL \<open>int\<close>
  whose results pass the range check \<open>cint\<close>; unsigned integers are words and wrap.  A \<open>struct\<close> is a record with its fields; a linked list whose
  links carry no meaning of their own is a list; where sharing or freeing matters there is a heap, a map from addresses.  What is not under \<open>src\<close> (the operating system, the
  dynamic linker, the callbacks of services, the Lua interpreter) is an argument, mostly a record of functions.  Operations that the code does under a lock are single steps.

  \<^bold>\<open>The theories.\<close>
  \<^item> \<open>Skynet_Prelude\<close>: checked integers and arrays, strings, and the locale \<open>fifo\<close>.  \<open>Skynet_Text\<close>: the C library on strings.  \<open>Skynet_Bytes\<close>: byte orders.
  \<^item> \<open>Skynet_Mq\<close>, \<open>Skynet_Sched\<close> (\<open>skynet_mq.c\<close>): the queue of a service as a ring buffer that doubles, the global queue, the flags that say whether a queue is in it.  The
    ring is a first-in first-out list across wrap-around and growth.  The steps of senders, workers and destructors form the relation \<open>mq_step\<close>; in every reachable state a queue with
    messages is in the global queue or with one thread, never both, and every operation returns where the code calls it, down to the release of the queue of a dead service.
  \<^item> \<open>Skynet_Handle\<close> (\<open>skynet_handle.c\<close>): the slot table with its rehashing and the sorted array of names.  The table refines a finite map.
  \<^item> \<open>Skynet_Timer\<close> (\<open>skynet_timer.c\<close>): the wheel of five levels and its cascade.  A tick delivers exactly the timers that are due, and a timeout fires once, on time.
  \<^item> \<open>Skynet_Server\<close>, \<open>Skynet_Command\<close> (\<open>skynet_server.c\<close>, \<open>skynet_module.c\<close>, \<open>skynet_env.c\<close>, \<open>skynet_error.c\<close>, \<open>skynet_harbor.c\<close>, \<open>skynet_log.c\<close>, \<open>skynet_monitor.c\<close>, parts of
    \<open>skynet_start.c\<close>): the state \<open>sys\<close> of a node with contexts, heap, modules, timer and queues; reference counts, sending, dispatching, launching and the sixteen text commands.  \<open>Skynet_Service\<close>
    has the invariant \<open>sys_inv\<close> of that state and shows delivery of messages, the error paths of sending, what happens to the messages of a dead service, and the text form of handles.
  \<^item> \<open>Skynet_Socket_Server\<close>, \<open>Skynet_Socket_Inv\<close> (\<open>socket_server.c\<close>): slots, requests, write buffers of two priorities and the poll loop.  Packages appear on a connection whole and in the order
    of their priority whatever the system accepts of each write; in every state reached by whole calls and whole rounds, as long as no id is reserved that a waiting request names, slots are well formed and the next
    round fails no assertion.
  \<^item> \<open>Skynet_Socket\<close> (\<open>skynet_socket.c\<close>): the forwarding layer, over the two parts above.  Every event reaches the owner of the socket as one message, and nothing is left allocated when the owner is gone.
  \<^item> \<open>Skynet_Netpack\<close> (\<open>lua-netpack.c\<close>): packages with a length of two bytes, cut out of the streams of many connections.
    \<open>Skynet_Netpack_Mem\<close>: the same queue as blocks in memory; clearing it frees every block once.
  \<^item> \<open>Skynet_Databuffer\<close> (\<open>databuffer.h\<close>), \<open>Skynet_Hashid\<close> (\<open>hashid.h\<close>), \<open>Skynet_Calls\<close>, \<open>Skynet_Gate\<close> (\<open>service_gate.c\<close>): the gate with its buffers and its table of connections.  It forwards
    exactly the packages of each connection; its table and its connections agree in every reachable state; every message of the socket layer is handled without a fault but an accept after the gate has stopped listening.
  \<^item> \<open>Skynet_Harbor\<close>, \<open>Skynet_Harbor_Link\<close> (\<open>service_harbor.c\<close>): messages to another node that wait for the connection and those sent later arrive there once, in order and unchanged.
  \<^item> \<open>Skynet_Cluster\<close> (\<open>lua-cluster.c\<close>): requests and responses between clusters, in one package or in parts.
  \<^item> \<open>Skynet_Lua_Socket\<close> (\<open>lua-socket.c\<close>): the buffers of Lua services refine a sequence of bytes under reads by size, by line and of everything.
  \<^item> \<open>Skynet_Seri\<close>, \<open>Skynet_Seri_Inv\<close> (\<open>lua-seri.c\<close>): the serialisation of Lua values: the blocks hold the bytes of the format, unpacking gives back what was packed and ends on every input.
  \<^item> \<open>Skynet_Stm\<close> (\<open>lua-stm.c\<close>, \<open>lua-multicast.c\<close>): reference counted messages that services share.  The release of a reader is split where its thread gives up the reference but not the lock; no step touches freed
    memory in the runs where the last reference is not given back in that window.
  \<^item> \<open>Skynet_Crypt\<close> (\<open>lua-crypt.c\<close>), \<open>Skynet_Sha1\<close> (\<open>lsha1.c\<close>): DES, text encodings, key exchange, the digest and the authentication code, against reference definitions.

  \<^bold>\<open>Interfaces.\<close>  Each locale states what a client relies on, and is interpreted on the definitions of the code.
  \<^item> \<open>fifo\<close> (\<open>Skynet_Prelude\<close>): a queue; the ring of a service (\<open>ring\<close>), the packages of the splitter (\<open>packs\<close>), the waiting messages of a node (\<open>link_queue\<close>).
  \<^item> \<open>handle_registry\<close> (\<open>handles\<close>), \<open>slot_table\<close> (\<open>slots\<close>): finite maps with a capacity; the storage of handles and the table of sockets.
  \<^item> \<open>timer_service\<close> (\<open>wheel\<close>): what a client of the timer may expect of a tick.
  \<^item> \<open>stream_buffer\<close>: blocks in, bytes out; the buffers of the gate (\<open>input\<close>) and of Lua services (\<open>lua_input\<close>).
  \<^item> \<open>codec\<close> and \<open>codec_chain\<close>: an encoding with its inverse, and one encoding after another; hexadecimal, base64, DES, xor, and DES sent as base64.

  \<^bold>\<open>Loops and bounds.\<close>  Loops with an obvious measure are \<open>fun\<close> or \<open>function\<close> with a termination proof.  Loops that end because of an invariant of the state, or may not
  end at all, are \<open>partial_function (option)\<close>, and the properties state that they return: the rehashing of the handle storage, the cascade of the timer, the loop of the gate over its packages, the
  writing of a list of buffers (for a system that does not answer \<open>EINTR\<close> for ever, hypothesis \<open>os_ok\<close>).  \<open>socket_server_poll\<close> waits for events and so may wait for ever: the properties are about each round, or about what it reports.
  Only the unpacking of Lua values has fuel, and it is shown that the fuel of its callers is enough for every input.  Bounds in hypotheses are those at which an \<open>int\<close> of the code would overflow: queues of \<open>2^29\<close>
  messages, \<open>2^24\<close> handles, buffers of 2 GB, a thousand million boxes.

  \<^bold>\<open>Not modelled.\<close>
  \<^item> Threads as such: locks, condition variables and memory order.  Operations under a lock are steps.  Where the code changes shared state without the exclusive lock, the model and the findings say what is left out: \<open>stm_releasereader\<close>
    is two steps; \<open>reserve_id\<close> and a round of the poll loop are one step each, so a reservation in the middle of a round is not covered (\<open>reserve_race\<close> in \<open>Skynet_Socket_Inv\<close>).
  \<^item> Strings at which an \<open>int\<close> of the code overflows: hexadecimal and base64 fault on them; DES, hash and xor are translated for strings shorter than 2 GB.
  \<^item> \<open>skynet_start.c\<close> beyond initialisation and worker weights, \<open>skynet_main.c\<close>, \<open>skynet_daemon.c\<close>, the wrappers of epoll and kqueue, \<open>malloc_hook.c\<close> and the logger services: calls of the operating system and of the allocator.
  \<^item> \<open>service_snlua.c\<close>, \<open>lua-skynet.c\<close>, \<open>lua-bson.c\<close>, \<open>lua-mongo.c\<close>, \<open>lua-sharedata.c\<close>, \<open>lua-profile.c\<close>, \<open>lua-debugchannel.c\<close>, \<open>lua-clientsocket.c\<close>, \<open>lua-mysqlaux.c\<close>, \<open>lua-memory.c\<close> and the part of
    \<open>lua-socket.c\<close> that passes requests on: their state is the stack and the tables of the Lua interpreter, which is third-party code.
  \<^item> Vendored libraries (the interpreter, jemalloc, sproto, protocol buffers, cjson, the terminal client) and the Lua scripts of the game.
\<close>

end
